(* ===== verification/QPrelude.thy ===== *)
theory QPrelude
  imports Main "HOL-Library.Word" "HOL-Library.Signed_Division"
begin

text \<open>
  Shared ground of the development: the Go types the sources use (machine integers, errors,
  panics), the byte reader and byte buffer that every codec works on, and the generic lemmas
  on words and lists that the component theories rely on.

  Integers. A Go unsigned integer of width \<open>w\<close> is a \<open>w word\<close>. A Go \<open>int64\<close> (packet numbers,
  stream ids, durations) is an \<^typ>\<open>int\<close>, and every arithmetic operation on it is wrapped by
  \<open>i64\<close>, which reduces its result into the range of the type. A Go \<open>int\<close> that
  only counts (a length, an index) is a \<^typ>\<open>nat\<close>.

  Errors. A Go function with results \<open>(T, error)\<close> returns \<open>go_error + T\<close>, with \<open>Inl\<close> for a
  non-nil error; a panic is the error \<open>Panic\<close>. A message built with \<open>fmt.Sprintf\<close> is kept as
  its format string and its integer arguments. A \<open>QuicError\<close> has its code, its message and the flags
  \<open>isTimeout\<close> and \<open>isApplicationError\<close>; an \<open>ErrorCode\<close> may also be an error by itself.
\<close>

unbundle bit_operations_syntax

named_theorems codec_simps \<open>the reading equations of the byte codecs\<close>
named_theorems go_bounds \<open>ranges of Go integers\<close>

type_synonym byte = "8 word"
type_synonym u16 = "16 word"
type_synonym u32 = "32 word"
type_synonym u64 = "64 word"
type_synonym ByteCount = u64
type_synonym PacketNumber = int
type_synonym StreamID = int
type_synonym StreamNum = int
type_synonym Duration = int

section \<open>Signed 64 bit integers\<close>

definition i64 :: "int \<Rightarrow> int" where
  "i64 x = (x + 2 ^ 63) mod 2 ^ 64 - 2 ^ 63"

definition is_i64 :: "int \<Rightarrow> bool" where
  "is_i64 x \<longleftrightarrow> - (2 ^ 63) \<le> x \<and> x < 2 ^ 63"

lemma i64_id [simp]: "- (2 ^ 63) \<le> x \<Longrightarrow> x < 2 ^ 63 \<Longrightarrow> i64 x = x"
  by (simp add: i64_def)

lemma i64_is_i64 [go_bounds]: "is_i64 (i64 x)"
  by (simp add: i64_def is_i64_def)

lemma is_i64I: "- (2 ^ 63) \<le> x \<Longrightarrow> x < 2 ^ 63 \<Longrightarrow> is_i64 x"
  by (simp add: is_i64_def)

lemma is_i64_i64 [simp]: "is_i64 x \<Longrightarrow> i64 x = x"
  by (simp add: is_i64_def)

lemma div_range:
  assumes "0 \<le> n" "n < k * d" "0 < d"
  shows "0 \<le> n div d" "n div d < (k :: int)"
proof -
  show "0 \<le> n div d" using assms by (simp add: pos_imp_zdiv_nonneg_iff)
  have "n div d * d \<le> n" using assms(3) div_mult_mod_eq [of n d] pos_mod_sign [of d n] by linarith
  then have "n div d * d < k * d" using assms(2) by linarith
  then show "n div d < k" using assms(3) by simp
qed

text \<open>Conversions between \<open>uint64\<close> and \<open>int64\<close> keep the bits.\<close>

definition int64_of :: "u64 \<Rightarrow> int" where
  "int64_of w = sint w"

definition uint64_of :: "int \<Rightarrow> u64" where
  "uint64_of x = word_of_int x"

lemma int64_of_small: "unat w < 2 ^ 63 \<Longrightarrow> int64_of w = int (unat w)"
proof -
  assume "unat w < 2 ^ 63"
  then have "int (unat w) < int (2 ^ 63)" by (rule of_nat_less_iff [THEN iffD2])
  then have lt: "uint w < 2 ^ 63" by (simp only: uint_nat of_nat_power of_nat_numeral)
  have "- (2 ^ 63) \<le> uint w" by (rule order_trans [OF _ uint_ge_0]) simp
  then have "signed_take_bit 63 (uint w) = uint w"
    using lt by (rule signed_take_bit_int_eq_self)
  then show ?thesis by (simp add: int64_of_def sint_uint)
qed

lemma int64_of_range:
  assumes "unat w < 2 ^ 62"
  shows "0 \<le> int64_of w" "int64_of w < 2 ^ 62"
proof -
  have "int64_of w = int (unat w)" using assms by (intro int64_of_small) simp
  moreover have "int (unat w) < int (2 ^ 62)" using assms by (rule of_nat_less_iff [THEN iffD2])
  ultimately show "0 \<le> int64_of w" "int64_of w < 2 ^ 62" by (simp_all only: of_nat_power of_nat_numeral)
qed

lemma unat_uint64_of: "0 \<le> x \<Longrightarrow> x < 2 ^ 64 \<Longrightarrow> unat (uint64_of x) = nat x"
  by (simp add: uint64_of_def unat_eq_nat_uint uint_word_of_int)

lemma uint64_of_int64_of [simp]: "uint64_of (int64_of w) = w"
  by (simp add: uint64_of_def int64_of_def)

lemma int64_of_uint64_of [simp]: "0 \<le> x \<Longrightarrow> x < 2 ^ 63 \<Longrightarrow> int64_of (uint64_of x) = x"
  by (subst int64_of_small) (simp_all add: unat_uint64_of)

section \<open>Errors and panics\<close>

type_synonym message = "string \<times> int list"

datatype go_error =
    io_EOF
  | io_ErrUnexpectedEOF
  | Errorf message
  | QuicError u64 message bool bool
  | ErrorCode u64
  | Panic message

text \<open>Going on only when there is no error: \<open>if err != nil \<lbrace> return nil, err \<rbrace>\<close>.\<close>

definition tryE :: "'e + 'a \<Rightarrow> ('a \<Rightarrow> 'e + 'b) \<Rightarrow> 'e + 'b" where
  "tryE m f = (case m of Inl e \<Rightarrow> Inl e | Inr x \<Rightarrow> f x)"

lemma tryE_simps [simp]:
  "tryE (Inl e) f = Inl e"
  "tryE (Inr x) f = f x"
  by (simp_all add: tryE_def)

lemma tryE_eq_Inr: "tryE m f = Inr y \<longleftrightarrow> (\<exists>x. m = Inr x \<and> f x = Inr y)"
  by (cases m) simp_all

lemma tryE_eq_Inl: "tryE m f = Inl e \<longleftrightarrow> m = Inl e \<or> (\<exists>x. m = Inr x \<and> f x = Inl e)"
  by (cases m) simp_all

lemma if_Inl_eq_Inr: "(if c then Inl e else m) = Inr y \<longleftrightarrow> \<not> c \<and> m = Inr y"
  by simp

lemma tryE_InrE:
  assumes "tryE m f = Inr y"
  obtains x where "m = Inr x" and "f x = Inr y"
  using assms by (auto simp: tryE_eq_Inr)

lemma tryE_assoc: "tryE (tryE m f) g = tryE m (\<lambda>x. tryE (f x) g)"
  by (cases m) simp_all

lemma tryE_cong [fundef_cong]:
  "m = m' \<Longrightarrow> (\<And>x. m' = Inr x \<Longrightarrow> f x = f' x) \<Longrightarrow> tryE m f = tryE m' f'"
  by (cases m') (auto simp: tryE_def)

definition panics :: "go_error + 'a \<Rightarrow> bool" where
  "panics m \<longleftrightarrow> (\<exists>msg. m = Inl (Panic msg))"

lemma panics_Inr [simp]: "\<not> panics (Inr x)"
  by (simp add: panics_def)

section \<open>Byte readers and buffers\<close>

text \<open>
  A \<open>bytes.Reader\<close> is the list of its unread bytes; a read returns what it read and the rest.
  A \<open>bytes.Buffer\<close> is the list of the bytes written so far.
\<close>

type_synonym reader = "byte list"
type_synonym 'a parse = "go_error + 'a \<times> reader"

definition ReadByte :: "reader \<Rightarrow> byte parse" where
  "ReadByte r = (case r of [] \<Rightarrow> Inl io_EOF | b # r' \<Rightarrow> Inr (b, r'))"

text \<open>
  \<open>io.ReadFull\<close> on a buffer of \<open>n\<close> bytes: \<open>EOF\<close> when no byte could be read at all,
  \<open>ErrUnexpectedEOF\<close> when some but not all could.
\<close>

definition ReadFull :: "nat \<Rightarrow> reader \<Rightarrow> byte list parse" where
  "ReadFull n r =
     (if n \<le> length r then Inr (take n r, drop n r)
      else if r = [] then Inl io_EOF else Inl io_ErrUnexpectedEOF)"

lemma ReadByte_Nil [simp]: "ReadByte [] = Inl io_EOF"
  by (simp add: ReadByte_def)

lemma ReadByte_Cons [codec_simps, simp]: "ReadByte (b # r) = Inr (b, r)"
  by (simp add: ReadByte_def)

lemma ReadByte_InrD: "ReadByte r = Inr (b, r') \<Longrightarrow> r = b # r'"
  by (auto simp: ReadByte_def split: list.splits)

lemma ReadFull_append [codec_simps]: "n = length xs \<Longrightarrow> ReadFull n (xs @ r) = Inr (xs, r)"
  by (simp add: ReadFull_def)

lemma ReadFull_InrD: "ReadFull n r = Inr (xs, r') \<Longrightarrow> r = xs @ r' \<and> length xs = n"
  by (auto simp: ReadFull_def split: if_splits)

text \<open>
  A clean parser never panics, and when it succeeds it has consumed a prefix of its input. The rules
  follow the structure of a parser, so that \<open>clean\<close> is proved by \<open>intro\<close> alone.
\<close>

definition clean :: "(reader \<Rightarrow> 'a parse) \<Rightarrow> bool" where
  "clean p \<longleftrightarrow> (\<forall>r. \<not> panics (p r) \<and> (\<forall>x r'. p r = Inr (x, r') \<longrightarrow> (\<exists>bs. r = bs @ r')))"

named_theorems clean_intros \<open>structural rules for clean parsers\<close>

lemma panics_tryE: "panics (tryE m f) \<longleftrightarrow> panics m \<or> (\<exists>x. m = Inr x \<and> panics (f x))"
  by (cases m) (auto simp: panics_def)

lemma clean_tryE [clean_intros]:
  "clean p \<Longrightarrow> (\<And>x. clean (q x)) \<Longrightarrow> clean (\<lambda>r. tryE (p r) (\<lambda>(x, r'). q x r'))"
  unfolding clean_def panics_tryE tryE_eq_Inr by (auto simp: split_paired_Ex) (metis append.assoc)

lemma clean_Inr [clean_intros]: "clean (\<lambda>r. Inr (x, r))"
  by (simp add: clean_def)

lemma clean_Inl: "\<not> panics (Inl e :: go_error + 'a \<times> reader) \<Longrightarrow> clean (\<lambda>r. Inl e :: 'a parse)"
  by (simp add: clean_def)

lemma clean_Errors [clean_intros]:
  "clean (\<lambda>r. Inl io_EOF)" "clean (\<lambda>r. Inl io_ErrUnexpectedEOF)" "clean (\<lambda>r. Inl (Errorf m))"
  "clean (\<lambda>r. Inl (QuicError c m t a))"
  by (simp_all add: clean_def panics_def)

lemma clean_if [clean_intros]: "clean p \<Longrightarrow> clean q \<Longrightarrow> clean (\<lambda>r. if c r then p r else q r)"
  by (auto simp: clean_def)

lemma clean_Let [clean_intros]: "clean (\<lambda>r. f x r) \<Longrightarrow> clean (\<lambda>r. let y = x in f y r)"
  by (simp add: Let_def)

lemma clean_ReadByte [clean_intros]: "clean ReadByte"
  by (auto simp: clean_def ReadByte_def panics_def split: list.splits)

lemma clean_ReadFull [clean_intros]: "clean (ReadFull n)"
  by (auto simp: clean_def ReadFull_def panics_def) (metis append_take_drop_id)

lemma cleanD: "clean p \<Longrightarrow> p r = Inr (x, r') \<Longrightarrow> \<exists>bs. r = bs @ r'"
  by (auto simp: clean_def)

lemma clean_not_panics: "clean p \<Longrightarrow> \<not> panics (p r)"
  by (auto simp: clean_def)

text \<open>A parser that starts with a byte consumes at least that byte.\<close>

definition clean1 :: "(reader \<Rightarrow> 'a parse) \<Rightarrow> bool" where
  "clean1 p \<longleftrightarrow> clean p \<and> (\<forall>r x r'. p r = Inr (x, r') \<longrightarrow> (\<exists>bs. bs \<noteq> [] \<and> r = bs @ r'))"

lemma clean1_byte_first:
  assumes "\<And>b. clean (q b)"
  shows "clean1 (\<lambda>r. tryE (ReadByte r) (\<lambda>(b, r'). q b r'))"
proof -
  have "\<exists>bs. bs \<noteq> [] \<and> r = bs @ r'" if "tryE (ReadByte r) (\<lambda>(b, r'). q b r') = Inr (x, r')" for r x r'
    using that cleanD [OF assms] by (fastforce simp: tryE_eq_Inr dest: ReadByte_InrD)
  then show ?thesis by (auto simp: clean1_def intro: clean_intros assms)
qed

lemma clean1_not_panics: "clean1 p \<Longrightarrow> \<not> panics (p r)"
  by (simp add: clean1_def clean_not_panics)

lemma clean1D: "clean1 p \<Longrightarrow> p r = Inr (x, r') \<Longrightarrow> \<exists>bs. bs \<noteq> [] \<and> r = bs @ r'"
  by (auto simp: clean1_def)

section \<open>Bytes of words\<close>

lemma unat_lt_byte: "unat (b :: byte) < 256"
  using unsigned_less [of b, where 'a = nat] by simp

lemma unat_lt_u64: "unat (w :: u64) < 2 ^ 64"
  using unsigned_less [of w, where 'a = nat] by simp

lemma unat_word_of_nat_id: "n < 2 ^ 64 \<Longrightarrow> unat (word_of_nat n :: u64) = n"
  by (simp add: unsigned_of_nat take_bit_nat_eq_self)

lemma unat_minus_le: "unat b \<le> unat a \<Longrightarrow> unat (a - b :: u64) = unat a - unat b"
  by (simp add: unat_sub word_le_nat_alt)

lemma unat_plus_lt: "unat a + unat b < 2 ^ 64 \<Longrightarrow> unat (a + b :: u64) = unat a + unat b"
  by (simp add: unat_word_ariths)

lemma uint_byte_of_u64: "uint (ucast (drop_bit k w) :: byte) = uint (w :: u64) div 2 ^ k mod 256"
proof -
  have "uint (ucast (drop_bit k w) :: byte) = take_bit 8 (uint (drop_bit k w))"
    by (simp add: unsigned_ucast_eq)
  also have "uint (drop_bit k w) = drop_bit k (uint w)"
    using take_bit_int_eq_self [of "uint w" 64] uint_lt2p [of w] by (simp add: unsigned_drop_bit_eq)
  finally show ?thesis by (simp add: take_bit_eq_mod drop_bit_eq_div)
qed

lemma uint_ucast_byte [simp]: "uint (ucast (b :: byte) :: 64 word) = uint b"
  by (rule uint_up_ucast) (simp add: is_up)

lemma sdiv_nonneg: "0 \<le> (a :: int) \<Longrightarrow> 0 < b \<Longrightarrow> a sdiv b = a div b"
  by (cases "a = 0") (simp_all add: signed_divide_int_def)

lemma smod_nonneg: "0 \<le> (a :: int) \<Longrightarrow> 0 < b \<Longrightarrow> a smod b = a mod b"
  by (cases "a = 0") (simp_all add: signed_modulo_int_def)

end
