(* ===== verification/VarInt.thy ===== *)
theory VarInt
  imports QPrelude
begin

text \<open>
  The integer codecs of \<open>quic-go/core/utils\<close>: the QUIC variable-length integers of
  \<open>varint.go\<close> and the big-endian integers of \<open>byteorder_big_endian.go\<close>. The lemmas show that
  what the writers write the readers read back, that a varint takes exactly \<open>VarIntLen\<close> bytes,
  that a reader never returns a value above 62 bits, and when the writers panic.
\<close>

section \<open>varint.go\<close>

definition maxVarInt1 :: u64 where "maxVarInt1 = 63"
definition maxVarInt2 :: u64 where "maxVarInt2 = 16383"
definition maxVarInt4 :: u64 where "maxVarInt4 = 1073741823"
definition maxVarInt8 :: u64 where "maxVarInt8 = 4611686018427387903"

lemmas maxVarInt_defs = maxVarInt1_def maxVarInt2_def maxVarInt4_def maxVarInt8_def

definition ReadVarInt :: "reader \<Rightarrow> u64 parse" where
  "ReadVarInt r =
    tryE (ReadByte r) (\<lambda>(firstByte, r).
     let len = push_bit (unat (drop_bit 6 (firstByte AND 0xc0))) (1 :: nat);
         b1 = firstByte AND (0xff - 0xc0)
     in if len = 1 then Inr (ucast b1, r)
    else tryE (ReadByte r) (\<lambda>(b2, r).
     if len = 2 then Inr (ucast b2 + push_bit 8 (ucast b1), r)
    else tryE (ReadByte r) (\<lambda>(b3, r).
    tryE (ReadByte r) (\<lambda>(b4, r).
     if len = 4 then
       Inr (ucast b4 + push_bit 8 (ucast b3) + push_bit 16 (ucast b2) + push_bit 24 (ucast b1), r)
    else tryE (ReadByte r) (\<lambda>(b5, r).
    tryE (ReadByte r) (\<lambda>(b6, r).
    tryE (ReadByte r) (\<lambda>(b7, r).
    tryE (ReadByte r) (\<lambda>(b8, r).
     Inr (ucast b8 + push_bit 8 (ucast b7) + push_bit 16 (ucast b6) + push_bit 24 (ucast b5)
          + push_bit 32 (ucast b4) + push_bit 40 (ucast b3) + push_bit 48 (ucast b2)
          + push_bit 56 (ucast b1), r)))))))))"

definition WriteVarInt :: "byte list \<Rightarrow> u64 \<Rightarrow> go_error + byte list" where
  "WriteVarInt b i =
    (if i \<le> maxVarInt1 then Inr (b @ [ucast i])
     else if i \<le> maxVarInt2 then Inr (b @ [ucast (drop_bit 8 i) OR 0x40, ucast i])
     else if i \<le> maxVarInt4 then
       Inr (b @ [ucast (drop_bit 24 i) OR 0x80, ucast (drop_bit 16 i), ucast (drop_bit 8 i), ucast i])
     else if i \<le> maxVarInt8 then
       Inr (b @ [ucast (drop_bit 56 i) OR 0xc0, ucast (drop_bit 48 i), ucast (drop_bit 40 i),
                 ucast (drop_bit 32 i), ucast (drop_bit 24 i), ucast (drop_bit 16 i),
                 ucast (drop_bit 8 i), ucast i])
     else Inl (Panic (''%#x doesn't fit into 62 bits'', [uint i])))"

definition VarIntLen :: "u64 \<Rightarrow> go_error + ByteCount" where
  "VarIntLen i =
    (if i \<le> maxVarInt1 then Inr 1
     else if i \<le> maxVarInt2 then Inr 2
     else if i \<le> maxVarInt4 then Inr 4
     else if i \<le> maxVarInt8 then Inr 8
     else Inl (Panic (''value doesn't fit into 62 bits: '', [uint i])))"

section \<open>byteorder_big_endian.go\<close>

function ReadUintN_loop :: "byte \<Rightarrow> byte \<Rightarrow> u64 \<Rightarrow> reader \<Rightarrow> u64 parse" where
  "ReadUintN_loop i len res r =
    (if i < len then
       tryE (ReadByte r) (\<lambda>(bt, r).
         ReadUintN_loop (i + 1) len
           (res XOR push_bit (unat ((len - 1 - i) * 8)) (ucast bt)) r)
     else Inr (res, r))"
  by pat_completeness auto
termination
proof (relation "measure (\<lambda>(i, len, res, r). unat len - unat i)")
  fix i len :: byte and r :: reader and x :: "byte \<times> reader" and bt r' and res :: u64
  assume "i < len"
  then have "unat i < unat len" by (simp add: word_less_nat_alt)
  moreover have "unat len < 256" using unat_lt_byte .
  ultimately have "unat (i + 1) = unat i + 1"
    by (simp add: unat_word_ariths)
  with \<open>i < len\<close> show "((i + 1, len, res XOR push_bit (unat ((len - 1 - i) * 8)) (ucast bt), r'),
      i, len, res, r) \<in> measure (\<lambda>(i, len, res, r). unat len - unat i)"
    by (simp add: word_less_nat_alt)
qed simp

declare ReadUintN_loop.simps [simp del]

definition ReadUintN :: "reader \<Rightarrow> byte \<Rightarrow> u64 parse" where
  "ReadUintN b len = ReadUintN_loop 0 len 0 b"

definition ReadUint32 :: "reader \<Rightarrow> u32 parse" where
  "ReadUint32 b =
    tryE (ReadByte b) (\<lambda>(b4, b).
    tryE (ReadByte b) (\<lambda>(b3, b).
    tryE (ReadByte b) (\<lambda>(b2, b).
    tryE (ReadByte b) (\<lambda>(b1, b).
      Inr (ucast b1 + push_bit 8 (ucast b2) + push_bit 16 (ucast b3) + push_bit 24 (ucast b4), b)))))"

definition ReadUint24 :: "reader \<Rightarrow> u32 parse" where
  "ReadUint24 b =
    tryE (ReadByte b) (\<lambda>(b3, b).
    tryE (ReadByte b) (\<lambda>(b2, b).
    tryE (ReadByte b) (\<lambda>(b1, b).
      Inr (ucast b1 + push_bit 8 (ucast b2) + push_bit 16 (ucast b3), b))))"

definition ReadUint16 :: "reader \<Rightarrow> u16 parse" where
  "ReadUint16 b =
    tryE (ReadByte b) (\<lambda>(b2, b).
    tryE (ReadByte b) (\<lambda>(b1, b).
      Inr (ucast b1 + push_bit 8 (ucast b2), b)))"

definition WriteUint32 :: "byte list \<Rightarrow> u32 \<Rightarrow> byte list" where
  "WriteUint32 b i = b @ [ucast (drop_bit 24 i), ucast (drop_bit 16 i), ucast (drop_bit 8 i), ucast i]"

definition WriteUint24 :: "byte list \<Rightarrow> u32 \<Rightarrow> byte list" where
  "WriteUint24 b i = b @ [ucast (drop_bit 16 i), ucast (drop_bit 8 i), ucast i]"

definition WriteUint16 :: "byte list \<Rightarrow> u16 \<Rightarrow> byte list" where
  "WriteUint16 b i = b @ [ucast (drop_bit 8 i), ucast i]"

section \<open>The tag bits of the first byte\<close>

lemma byte_enum: "(x :: byte) \<in> word_of_nat ` {..<256}"
  using unat_lt_byte [of x] by (intro image_eqI [of _ _ "unat x"]) simp_all

lemma tag_bytes_enum:
  "\<forall>n \<in> set [0..<64].
     (let x = word_of_nat n :: byte in
        (x OR 0x40) AND 0x3f = x \<and> drop_bit 6 ((x OR 0x40) AND 0xc0) = 1 \<and>
        (x OR 0x80) AND 0x3f = x \<and> drop_bit 6 ((x OR 0x80) AND 0xc0) = 2 \<and>
        (x OR 0xc0) AND 0x3f = x \<and> drop_bit 6 ((x OR 0xc0) AND 0xc0) = 3 \<and>
        x AND 0x3f = x \<and> drop_bit 6 (x AND 0xc0) = 0)"
  by code_simp

lemma tag_byte:
  assumes "unat (x :: byte) < 64"
  shows "(x OR 0x40) AND 0x3f = x" "drop_bit 6 ((x OR 0x40) AND 0xc0) = 1"
    and "(x OR 0x80) AND 0x3f = x" "drop_bit 6 ((x OR 0x80) AND 0xc0) = 2"
    and "(x OR 0xc0) AND 0x3f = x" "drop_bit 6 ((x OR 0xc0) AND 0xc0) = 3"
    and "x AND 0x3f = x" "drop_bit 6 (x AND 0xc0) = 0"
proof -
  have "unat x \<in> set [0..<64]" using assms by simp
  with tag_bytes_enum show
    "(x OR 0x40) AND 0x3f = x" "drop_bit 6 ((x OR 0x40) AND 0xc0) = 1"
    "(x OR 0x80) AND 0x3f = x" "drop_bit 6 ((x OR 0x80) AND 0xc0) = 2"
    "(x OR 0xc0) AND 0x3f = x" "drop_bit 6 ((x OR 0xc0) AND 0xc0) = 3"
    "x AND 0x3f = x" "drop_bit 6 (x AND 0xc0) = 0"
    by (fastforce simp: Let_def)+
qed

section \<open>Round trips\<close>

lemma ucast_ucast_byte: "(ucast (ucast w :: byte) :: 'a::len word) = take_bit 8 w"
  if "8 \<le> LENGTH('a)" for w :: "'a::len word"
  by (rule bit_word_eqI) (auto simp: bit_unsigned_iff bit_take_bit_iff dest: bit_imp_le_length)

lemma join_byte:
  "take_bit n w + push_bit n (take_bit 8 (drop_bit n w)) = take_bit (n + 8) (w :: 'a::len word)"
  using bits_ident [of n "take_bit (n + 8) w"]
  by (simp add: drop_bit_take_bit ac_simps min_def)

lemmas join_bytes = join_byte [of 8, simplified] join_byte [of 16, simplified]
  join_byte [of 24, simplified] join_byte [of 32, simplified] join_byte [of 40, simplified]
  join_byte [of 48, simplified] join_byte [of 56, simplified]

lemma take_bit_id: "unat w < 2 ^ n \<Longrightarrow> take_bit n w = w" for w :: "'a::len word"
  by (simp add: word_unat_eq_iff unsigned_take_bit_eq take_bit_nat_eq_self)

lemma ReadUint16_WriteUint16 [codec_simps]: "ReadUint16 (WriteUint16 [] i @ r) = Inr (i, r)"
  by (simp add: ReadUint16_def WriteUint16_def ucast_ucast_byte join_bytes take_bit_word_eq_self)

lemma ReadUint32_WriteUint32 [codec_simps]: "ReadUint32 (WriteUint32 [] i @ r) = Inr (i, r)"
  by (simp add: ReadUint32_def WriteUint32_def ucast_ucast_byte join_bytes take_bit_word_eq_self)

lemma ReadUint24_WriteUint24 [codec_simps]:
  "unat i < 2 ^ 24 \<Longrightarrow> ReadUint24 (WriteUint24 [] i @ r) = Inr (i, r)"
  by (simp add: ReadUint24_def WriteUint24_def ucast_ucast_byte join_bytes take_bit_id)


lemma unat_ucast_shift:
  assumes "unat (i :: u64) < 2 ^ (k + 6)"
  shows "unat (ucast (drop_bit k i) :: byte) < 64"
proof -
  have "unat (ucast (drop_bit k i) :: byte) \<le> unat (drop_bit k i)"
    by (simp add: unsigned_ucast_eq take_bit_eq_mod)
  also have "unat (drop_bit k i) = unat i div 2 ^ k"
    using take_bit_nat_eq_self [of "unat i" 64] unat_lt_u64 [of i]
    by (simp add: unsigned_drop_bit_eq) (simp add: drop_bit_eq_div)
  also have "\<dots> < 64"
    using assms by (simp add: power_add less_mult_imp_div_less mult.commute)
  finally show ?thesis .
qed

lemma WriteVarInt_append:
  "WriteVarInt b i = tryE (WriteVarInt [] i) (\<lambda>bs. Inr (b @ bs))"
  by (simp add: WriteVarInt_def)

text \<open>The varint bytes of a number: what \<open>WriteVarInt\<close> appends.\<close>

definition varint_bytes :: "u64 \<Rightarrow> byte list" where
  "varint_bytes i = (case WriteVarInt [] i of Inl _ \<Rightarrow> [] | Inr bs \<Rightarrow> bs)"

lemma WriteVarInt_ok [codec_simps]:
  "i \<le> maxVarInt8 \<Longrightarrow> WriteVarInt b i = Inr (b @ varint_bytes i)"
  by (auto simp: varint_bytes_def WriteVarInt_def)

lemma WriteVarInt_panics: "panics (WriteVarInt b i) \<longleftrightarrow> maxVarInt8 < i"
  by (auto simp: WriteVarInt_def panics_def maxVarInt_defs word_le_nat_alt word_less_nat_alt)

lemma ReadVarInt_tag:
  "drop_bit 6 (fb AND 0xc0) = 0 \<Longrightarrow> fb AND 0x3f = x \<Longrightarrow> ReadVarInt (fb # r) = Inr (ucast x, r)"
  "drop_bit 6 (fb AND 0xc0) = 1 \<Longrightarrow> fb AND 0x3f = x \<Longrightarrow>
     ReadVarInt (fb # b2 # r) = Inr (ucast b2 + push_bit 8 (ucast x), r)"
  "drop_bit 6 (fb AND 0xc0) = 2 \<Longrightarrow> fb AND 0x3f = x \<Longrightarrow>
     ReadVarInt (fb # b2 # b3 # b4 # r) =
       Inr (ucast b4 + push_bit 8 (ucast b3) + push_bit 16 (ucast b2) + push_bit 24 (ucast x), r)"
  "drop_bit 6 (fb AND 0xc0) = 3 \<Longrightarrow> fb AND 0x3f = x \<Longrightarrow>
     ReadVarInt (fb # b2 # b3 # b4 # b5 # b6 # b7 # b8 # r) =
       Inr (ucast b8 + push_bit 8 (ucast b7) + push_bit 16 (ucast b6) + push_bit 24 (ucast b5)
          + push_bit 32 (ucast b4) + push_bit 40 (ucast b3) + push_bit 48 (ucast b2)
          + push_bit 56 (ucast x), r)"
  by (simp_all add: ReadVarInt_def)

lemmas ReadVarInt_tagged =
  ReadVarInt_tag(1) [OF tag_byte(8) tag_byte(7)] ReadVarInt_tag(2) [OF tag_byte(2) tag_byte(1)]
  ReadVarInt_tag(3) [OF tag_byte(4) tag_byte(3)] ReadVarInt_tag(4) [OF tag_byte(6) tag_byte(5)]

lemmas varint_unfold = varint_bytes_def WriteVarInt_def maxVarInt_defs word_le_nat_alt
  ReadVarInt_tagged unat_ucast_shift ucast_ucast_byte take_bit_id join_bytes

lemma varint_range_cases:
  assumes "i \<le> maxVarInt8"
  obtains (len1) "unat i < 2 ^ 6" | (len2) "2 ^ 6 \<le> unat i" "unat i < 2 ^ 14"
    | (len4) "2 ^ 14 \<le> unat i" "unat i < 2 ^ 30" | (len8) "2 ^ 30 \<le> unat i" "unat i < 2 ^ 62"
  using assms by (force simp: maxVarInt_defs word_le_nat_alt)

lemma ReadVarInt_varint_bytes [codec_simps]:
  assumes "i \<le> maxVarInt8"
  shows "ReadVarInt (varint_bytes i @ r) = Inr (i, r)"
  using assms
proof (cases rule: varint_range_cases)
  case len1
  then have "unat (ucast i :: byte) < 64" using unat_ucast_shift [of i 0] by simp
  with len1 show ?thesis by (simp add: varint_unfold)
qed (simp_all add: varint_unfold)

lemma ReadVarInt_varint_bytes_Nil [codec_simps]: "i \<le> maxVarInt8 \<Longrightarrow> ReadVarInt (varint_bytes i) = Inr (i, [])"
  using ReadVarInt_varint_bytes [of i "[]"] by simp

lemma VarIntLen_varint_bytes:
  assumes "i \<le> maxVarInt8"
  shows "VarIntLen i = Inr (word_of_nat (length (varint_bytes i)))"
  using assms by (cases rule: varint_range_cases) (simp_all add: varint_unfold VarIntLen_def)

lemma VarIntLen_panics: "panics (VarIntLen i) \<longleftrightarrow> maxVarInt8 < i"
  by (auto simp: VarIntLen_def panics_def maxVarInt_defs word_le_nat_alt word_less_nat_alt)

lemma length_varint_bytes:
  assumes "i \<le> maxVarInt8"
  shows "1 \<le> length (varint_bytes i)" "length (varint_bytes i) \<le> 8"
  using assms by (cases rule: varint_range_cases; simp add: varint_unfold)+

section \<open>What a reader can return\<close>

lemma byte_as_nat: "(ucast (b :: byte) :: u64) = word_of_nat (unat b)"
  by simp

lemma push_byte_as_nat: "push_bit k (word_of_nat n :: u64) = word_of_nat (n * 2 ^ k)"
  by (simp add: push_bit_eq_mult)

lemma unat_low6: "unat ((x :: byte) AND 0x3f) < 64"
proof -
  have "unat (x AND 0x3f) \<le> unat (0x3f :: byte)"
    by (rule word_and_le1 [THEN word_le_nat_alt [THEN iffD1]])
  then show ?thesis by simp
qed

lemma tag_range: "unat (drop_bit 6 ((x :: byte) AND 0xc0)) < 4"
proof -
  obtain n where "n < 256" "x = word_of_nat n" using byte_enum [of x] by auto
  moreover have "\<forall>n \<in> set [0..<256]. unat (drop_bit 6 ((word_of_nat n :: byte) AND 0xc0)) < 4"
    by code_simp
  ultimately show ?thesis by auto
qed

lemma ReadByte_eq_Inr: "ReadByte r = Inr (b, r') \<longleftrightarrow> r = b # r'"
  by (auto simp: ReadByte_def split: list.splits)

text \<open>The value a varint of \<open>n\<close> bytes can have: below \<open>2 ^ (8 n - 2)\<close>.\<close>

lemma ReadVarInt_shape:
  assumes "ReadVarInt r = Inr (v, r')"
  obtains (len1) "length r = length r' + 1" "unat v < 2 ^ 6" "\<exists>bs. r = bs @ r'"
    | (len2) "length r = length r' + 2" "unat v < 2 ^ 14" "\<exists>bs. r = bs @ r'"
    | (len4) "length r = length r' + 4" "unat v < 2 ^ 30" "\<exists>bs. r = bs @ r'"
    | (len8) "length r = length r' + 8" "unat v < 2 ^ 62" "\<exists>bs. r = bs @ r'"
proof -
  obtain fb r1 where r: "r = fb # r1"
    using assms by (auto simp: ReadVarInt_def tryE_eq_Inr ReadByte_eq_Inr)
  define x where "x = fb AND 0x3f"
  have x: "unat x < 64" by (simp add: x_def unat_low6)
  note lt = unat_lt_byte
  consider "drop_bit 6 (fb AND 0xc0) = 0" | "drop_bit 6 (fb AND 0xc0) = 1"
    | "drop_bit 6 (fb AND 0xc0) = 2" | "drop_bit 6 (fb AND 0xc0) = 3"
    using tag_range [of fb] by (simp add: word_unat_eq_iff) linarith
  then show ?thesis
  proof cases
    case 1
    then have "v = ucast x" "r1 = r'"
      using assms by (auto simp: r ReadVarInt_tag(1) x_def)
    then show ?thesis using x by (intro len1) (auto simp: r unsigned_ucast_eq take_bit_nat_eq_self)
  next
    case 2
    with assms obtain b2 where "r1 = b2 # r'" and v: "v = ucast b2 + push_bit 8 (ucast x)"
      by (auto simp: r ReadVarInt_def tryE_eq_Inr ReadByte_eq_Inr x_def)
    moreover have "unat v < 2 ^ 14"
      using x lt [of b2] by (simp add: v byte_as_nat push_byte_as_nat unat_word_of_nat_id del: of_nat_unat of_nat_mult flip: of_nat_add)
    ultimately show ?thesis by (intro len2) (auto simp: r)
  next
    case 3
    with assms obtain b2 b3 b4 where "r1 = b2 # b3 # b4 # r'"
      and v: "v = ucast b4 + push_bit 8 (ucast b3) + push_bit 16 (ucast b2) + push_bit 24 (ucast x)"
      by (auto simp: r ReadVarInt_def tryE_eq_Inr ReadByte_eq_Inr x_def)
    moreover have "unat v < 2 ^ 30"
      using x lt [of b2] lt [of b3] lt [of b4]
      by (simp add: v byte_as_nat push_byte_as_nat unat_word_of_nat_id del: of_nat_unat of_nat_mult flip: of_nat_add)
    ultimately show ?thesis by (intro len4) (auto simp: r)
  next
    case 4
    with assms obtain b2 b3 b4 b5 b6 b7 b8 where
      "r1 = b2 # b3 # b4 # b5 # b6 # b7 # b8 # r'"
      and v: "v = ucast b8 + push_bit 8 (ucast b7) + push_bit 16 (ucast b6) + push_bit 24 (ucast b5)
          + push_bit 32 (ucast b4) + push_bit 40 (ucast b3) + push_bit 48 (ucast b2)
          + push_bit 56 (ucast x)"
      by (auto simp: r ReadVarInt_def tryE_eq_Inr ReadByte_eq_Inr x_def)
    moreover have "unat v < 2 ^ 62"
      using x lt [of b2] lt [of b3] lt [of b4] lt [of b5] lt [of b6] lt [of b7] lt [of b8]
      by (simp add: v byte_as_nat push_byte_as_nat unat_word_of_nat_id del: of_nat_unat of_nat_mult flip: of_nat_add)
    ultimately show ?thesis by (intro len8) (auto simp: r)
  qed
qed

lemma ReadVarInt_le_max:
  assumes "ReadVarInt r = Inr (v, r')"
  shows "v \<le> maxVarInt8"
  using assms by (cases rule: ReadVarInt_shape) (simp_all add: maxVarInt_defs word_le_nat_alt)

lemma ReadVarInt_suffix:
  assumes "ReadVarInt r = Inr (v, r')"
  shows "\<exists>bs. r = bs @ r'" "length r' < length r"
  using assms by (cases rule: ReadVarInt_shape; simp)+

lemma ReadVarInt_minimal:
  assumes "ReadVarInt r = Inr (v, r')"
  shows "length r' + length (varint_bytes v) \<le> length r"
  using assms
  by (cases rule: ReadVarInt_shape) (auto simp: varint_bytes_def WriteVarInt_def maxVarInt_defs word_le_nat_alt)

section \<open>Properties\<close>

text \<open>Every number of at most 62 bits that \<open>WriteVarInt\<close> appends to a buffer is read back by
  \<open>ReadVarInt\<close>, which leaves exactly the bytes that follow, and \<open>VarIntLen\<close> is the number of
  bytes written.\<close>
theorem varint_roundtrip:
  assumes "i \<le> maxVarInt8"
  shows "\<exists>bs. WriteVarInt b i = Inr (b @ bs) \<and> VarIntLen i = Inr (word_of_nat (length bs)) \<and>
           ReadVarInt (bs @ r) = Inr (i, r)"
  using WriteVarInt_ok [OF assms] VarIntLen_varint_bytes [OF assms] ReadVarInt_varint_bytes [OF assms]
  by blast

theorem varint_roundtrip_witness:
  "\<exists>bs. WriteVarInt [7] 15293 = Inr ([7] @ bs) \<and> VarIntLen 15293 = Inr (word_of_nat (length bs)) \<and>
     ReadVarInt (bs @ [1, 2]) = Inr (15293, [1, 2])"
  by (rule varint_roundtrip) (simp add: maxVarInt8_def)

text \<open>Whatever bytes arrive, a number that \<open>ReadVarInt\<close> returns fits into 62 bits, so writing it
  again cannot panic, and no accepted encoding is shorter than the one \<open>VarIntLen\<close> announces.\<close>
theorem ReadVarInt_sound:
  assumes "ReadVarInt r = Inr (v, r')"
  shows "\<not> panics (WriteVarInt b v) \<and>
    (\<exists>bs n. r = bs @ r' \<and> VarIntLen v = Inr n \<and> unat n \<le> length bs)"
proof -
  have v: "v \<le> maxVarInt8" using ReadVarInt_le_max [OF assms] .
  obtain bs where bs: "r = bs @ r'" using ReadVarInt_suffix(1) [OF assms] by blast
  have "unat (word_of_nat (length (varint_bytes v)) :: u64) \<le> length bs"
    using ReadVarInt_minimal [OF assms] length_varint_bytes(2) [OF v] bs
    by (simp add: unat_word_of_nat_id)
  then show ?thesis
    using v bs by (auto simp: WriteVarInt_ok VarIntLen_varint_bytes)
qed

theorem ReadVarInt_sound_witness:
  "\<not> panics (WriteVarInt [] 37) \<and>
    (\<exists>bs n. [0x40, 0x25, 9] = bs @ [9 :: byte] \<and> VarIntLen 37 = Inr n \<and> unat n \<le> length bs)"
  by (rule ReadVarInt_sound) (simp add: ReadVarInt_def)

end
