(* ===== verification/Protocol.thy ===== *)
theory Protocol
  imports QPrelude
begin

text \<open>
  The protocol types of \<open>quic-go/core/protocol\<close>: packet numbers and their truncation on the wire
  (\<open>packet_number.go\<close>), stream numbers and stream ids (\<open>stream.go\<close>), perspectives and encryption
  levels, connection ids (\<open>connection_id.go\<close>), version numbers and greasing (\<open>version.go\<close>) and
  the constants of \<open>params.go\<close> and \<open>protocol.go\<close> that the modelled components use. Random bytes
  that the code draws from \<open>crypto/rand\<close> are arguments.
\<close>

section \<open>Packet numbers\<close>

definition InvalidPacketNumber :: PacketNumber where "InvalidPacketNumber = -1"

type_synonym PacketNumberLen = byte

definition delta :: "PacketNumber \<Rightarrow> PacketNumber \<Rightarrow> PacketNumber" where
  "delta a b = (if a < b then i64 (b - a) else i64 (a - b))"

definition closestTo :: "PacketNumber \<Rightarrow> PacketNumber \<Rightarrow> PacketNumber \<Rightarrow> PacketNumber" where
  "closestTo target a b = (if delta target a < delta target b then a else b)"

definition epochDelta :: "PacketNumberLen \<Rightarrow> PacketNumber" where
  "epochDelta packetNumberLength =
    (if packetNumberLength = 1 then i64 (push_bit 8 1)
     else if packetNumberLength = 2 then i64 (push_bit 16 1)
     else if packetNumberLength = 3 then i64 (push_bit 24 1)
     else if packetNumberLength = 4 then i64 (push_bit 32 1)
     else 0)"

definition DecodePacketNumber ::
  "PacketNumberLen \<Rightarrow> PacketNumber \<Rightarrow> PacketNumber \<Rightarrow> PacketNumber" where
  "DecodePacketNumber packetNumberLength lastPacketNumber wirePacketNumber =
    (let ed = epochDelta packetNumberLength;
         epoch = lastPacketNumber AND NOT (i64 (ed - 1));
         prevEpochBegin = (if epoch > ed then i64 (epoch - ed) else 0);
         nextEpochBegin = i64 (epoch + ed)
     in closestTo (i64 (lastPacketNumber + 1))
          (i64 (epoch + wirePacketNumber))
          (closestTo (i64 (lastPacketNumber + 1))
             (i64 (prevEpochBegin + wirePacketNumber)) (i64 (nextEpochBegin + wirePacketNumber))))"

definition GetPacketNumberLengthForHeader :: "PacketNumber \<Rightarrow> PacketNumber \<Rightarrow> PacketNumberLen" where
  "GetPacketNumberLengthForHeader packetNumber leastUnacked =
    (let diff = uint64_of (i64 (packetNumber - leastUnacked))
     in if diff < push_bit (16 - 1) 1 then 2
        else if diff < push_bit (24 - 1) 1 then 3
        else 4)"

section \<open>Perspectives, encryption levels, streams\<close>

datatype Perspective = PerspectiveServer | PerspectiveClient

fun Opposite :: "Perspective \<Rightarrow> Perspective" where
  "Opposite PerspectiveServer = PerspectiveClient"
| "Opposite PerspectiveClient = PerspectiveServer"

datatype EncryptionLevel =
  EncryptionUnspecified | EncryptionInitial | EncryptionHandshake | Encryption1RTT

fun EncryptionLevel_String :: "EncryptionLevel \<Rightarrow> string" where
  "EncryptionLevel_String EncryptionInitial = ''Initial''"
| "EncryptionLevel_String EncryptionHandshake = ''Handshake''"
| "EncryptionLevel_String Encryption1RTT = ''1-RTT''"
| "EncryptionLevel_String EncryptionUnspecified = ''unknown''"

datatype StreamType = StreamTypeUni | StreamTypeBidi

definition InvalidStreamID :: StreamID where "InvalidStreamID = -1"
definition InvalidStreamNum :: StreamNum where "InvalidStreamNum = -1"
definition MaxStreamCount :: StreamNum where "MaxStreamCount = push_bit 60 1"

definition StreamNum_StreamID :: "StreamNum \<Rightarrow> StreamType \<Rightarrow> Perspective \<Rightarrow> StreamID" where
  "StreamNum_StreamID s stype pers =
    (if s = 0 then InvalidStreamID
     else
       let first = (case stype of
             StreamTypeBidi \<Rightarrow> (case pers of PerspectiveClient \<Rightarrow> 0 | PerspectiveServer \<Rightarrow> 1)
           | StreamTypeUni \<Rightarrow> (case pers of PerspectiveClient \<Rightarrow> 2 | PerspectiveServer \<Rightarrow> 3))
       in i64 (first + i64 (4 * i64 (s - 1))))"

definition InitiatedBy :: "StreamID \<Rightarrow> Perspective" where
  "InitiatedBy s = (if s smod 2 = 0 then PerspectiveClient else PerspectiveServer)"

definition StreamID_Type :: "StreamID \<Rightarrow> StreamType" where
  "StreamID_Type s = (if s smod 4 \<ge> 2 then StreamTypeUni else StreamTypeBidi)"

definition StreamID_StreamNum :: "StreamID \<Rightarrow> StreamNum" where
  "StreamID_StreamNum s = i64 (s sdiv 4 + 1)"

section \<open>Connection ids\<close>

type_synonym ConnectionID = "byte list"

definition maxConnectionIDLen :: nat where "maxConnectionIDLen = 18"
definition MaxConnIDLen :: nat where "MaxConnIDLen = 20"
definition MinConnectionIDLenInitial :: nat where "MinConnectionIDLenInitial = 8"

definition ReadConnectionID :: "reader \<Rightarrow> nat \<Rightarrow> ConnectionID parse" where
  "ReadConnectionID r len =
    (if len = 0 then Inr ([], r)
     else case ReadFull len r of
       Inl e \<Rightarrow> (if e = io_ErrUnexpectedEOF then Inl io_EOF else Inl e)
     | Inr x \<Rightarrow> Inr x)"

text \<open>The length chosen from one random byte.\<close>

definition ConnectionIDForInitial_len :: "byte \<Rightarrow> nat" where
  "ConnectionIDForInitial_len r0 =
     MinConnectionIDLenInitial + unat r0 mod (maxConnectionIDLen - MinConnectionIDLenInitial + 1)"

section \<open>Versions\<close>

type_synonym VersionNumber = u32

definition gquicVersion0 :: VersionNumber where "gquicVersion0 = 0x51303030"
definition maxGquicVersion :: VersionNumber where "maxGquicVersion = 0x51303439"
definition VersionTLS :: VersionNumber where "VersionTLS = 0x51474fff"
definition VersionWhatever :: VersionNumber where "VersionWhatever = 1"
definition VersionUnknown :: VersionNumber where "VersionUnknown = 0xffffffff"

definition SupportedVersions :: "VersionNumber list" where
  "SupportedVersions = [VersionTLS]"

definition isGQUIC :: "VersionNumber \<Rightarrow> bool" where
  "isGQUIC vn \<longleftrightarrow> vn > gquicVersion0 \<and> vn \<le> maxGquicVersion"

definition toGQUICVersion :: "VersionNumber \<Rightarrow> int" where
  "toGQUICVersion vn = uint (10 * (vn - gquicVersion0) div 0x100) + uint (vn mod 0x10)"

fun IsSupportedVersion :: "VersionNumber list \<Rightarrow> VersionNumber \<Rightarrow> bool" where
  "IsSupportedVersion [] v = False"
| "IsSupportedVersion (t # supported) v = (if t = v then True else IsSupportedVersion supported v)"

definition IsValidVersion :: "VersionNumber \<Rightarrow> bool" where
  "IsValidVersion v \<longleftrightarrow> v = VersionTLS \<or> IsSupportedVersion SupportedVersions v"

fun ChooseSupportedVersion_inner :: "VersionNumber \<Rightarrow> VersionNumber list \<Rightarrow> bool" where
  "ChooseSupportedVersion_inner ourVer [] = False"
| "ChooseSupportedVersion_inner ourVer (theirVer # theirs) =
     (if ourVer = theirVer then True else ChooseSupportedVersion_inner ourVer theirs)"

fun ChooseSupportedVersion ::
  "VersionNumber list \<Rightarrow> VersionNumber list \<Rightarrow> VersionNumber \<times> bool" where
  "ChooseSupportedVersion [] theirs = (0, False)"
| "ChooseSupportedVersion (ourVer # ours) theirs =
     (if ChooseSupportedVersion_inner ourVer theirs then (ourVer, True)
      else ChooseSupportedVersion ours theirs)"

text \<open>\<open>rnd\<close>: the four random bytes, as \<open>binary.BigEndian.Uint32\<close> reads them.\<close>

definition generateReservedVersion :: "u32 \<Rightarrow> VersionNumber" where
  "generateReservedVersion rnd = (rnd OR 0x0a0a0a0a) AND 0xfafafafa"

definition GetGreasedVersions ::
  "byte \<Rightarrow> u32 \<Rightarrow> VersionNumber list \<Rightarrow> VersionNumber list" where
  "GetGreasedVersions b0 rnd supported =
    (let randPos = unat b0 mod (length supported + 1)
     in take randPos supported @ [generateReservedVersion rnd] @ drop randPos supported)"

fun StripGreasedVersions :: "VersionNumber list \<Rightarrow> VersionNumber list" where
  "StripGreasedVersions [] = []"
| "StripGreasedVersions (v # versions) =
     (if v AND 0x0f0f0f0f \<noteq> 0x0a0a0a0a then v # StripGreasedVersions versions
      else StripGreasedVersions versions)"

section \<open>Decoding truncated packet numbers\<close>

lemma epochDelta_pow:
  "packetNumberLength \<in> {1, 2, 3, 4} \<Longrightarrow> epochDelta packetNumberLength = 2 ^ (8 * unat packetNumberLength)"
  by (auto simp: epochDelta_def push_bit_eq_mult)

lemma and_not_mask: "(x :: int) AND NOT (2 ^ n - 1) = x - x mod 2 ^ n"
proof -
  have "x AND NOT (mask n) = push_bit n (drop_bit n x)"
    by (rule bit_eqI) (auto simp: bit_simps)
  also have "\<dots> = x - take_bit n x"
    using bits_ident [of n x] by simp
  finally show ?thesis by (simp add: mask_eq_exp_minus_1 take_bit_eq_mod)
qed

lemma multiple_near_zero:
  fixes d x :: int
  assumes "d dvd x" "- (2 * d) < x" "x < 2 * d" "0 < d"
  shows "x = - d \<or> x = 0 \<or> x = d"
proof -
  from assms(1) obtain k where x: "x = d * k" by blast
  have "d * k < d * 2" "d * (-2) < d * k" using assms(2,3) unfolding x by linarith+
  then have "k < 2" "-2 < k" using assms(4) mult_less_cancel_left_pos by blast+
  then have "k = -1 \<or> k = 0 \<or> k = 1" by presburger
  then show ?thesis by (auto simp: x)
qed

lemma closest_of_three:
  assumes "\<And>y. y \<in> {a, b, c} \<Longrightarrow> delta t y = \<bar>t - y\<bar>"
    and "x \<in> {a, b, c}" and "\<And>y. y \<in> {a, b, c} \<Longrightarrow> y = x \<or> \<bar>t - x\<bar> < \<bar>t - y\<bar>"
  shows "closestTo t a (closestTo t b c) = x"
  using assms(2) assms(1,3) [of a] assms(1,3) [of b] assms(1,3) [of c]
  by (auto simp: closestTo_def)

lemma epoch_start:
  fixes d lst :: int
  assumes "0 < d" "-1 \<le> lst" and E: "E = lst - lst mod d"
  shows "E = - d \<or> E = 0 \<or> d \<le> E"
proof -
  have "(- d) div d \<le> lst div d" using assms by (intro zdiv_mono1) simp_all
  moreover have "(- d) div d = -1"
    using nonzero_mult_div_cancel_right [of d "-1"] assms(1) by simp
  ultimately have "-1 \<le> lst div d" by simp
  then have "lst div d = -1 \<or> lst div d = 0 \<or> 1 \<le> lst div d" by linarith
  moreover have "E = d * (lst div d)" by (simp add: E minus_mod_eq_mult_div)
  ultimately show ?thesis using assms(1) by auto
qed

lemma DecodePacketNumber_near:
  assumes len: "packetNumberLength \<in> {1, 2, 3, 4}" and d: "d = 2 ^ (8 * unat packetNumberLength)"
    and lst: "-1 \<le> lst" "lst < 2 ^ 62" and pn: "0 \<le> pn" "pn < 2 ^ 62"
    and near: "2 * \<bar>pn - (lst + 1)\<bar> < d"
  shows "DecodePacketNumber packetNumberLength lst (pn mod d) = pn"
proof -
  have d': "0 < d" "d \<le> 2 ^ 32" using len by (auto simp: d)
  define E where "E = lst - lst mod d"
  define w where "w = pn mod d"
  define P where "P = pn - w"
  have ed: "epochDelta packetNumberLength = d" using len d by (simp add: epochDelta_pow)
  have "i64 (d - 1) = d - 1" using d' by simp
  then have E: "lst AND NOT (i64 (d - 1)) = E"
    by (simp add: E_def) (simp add: and_not_mask d)
  have m: "0 \<le> lst mod d" "lst mod d < d" "0 \<le> w" "w < d" using d' by (simp_all add: w_def)
  have "d dvd P - E" by (simp add: P_def E_def w_def)
  moreover have "pn - (lst + 1) < d" "- d < pn - (lst + 1)"
    using near by (auto simp: abs_if split: if_splits)
  then have "- (2 * d) < P - E" "P - E < 2 * d"
    using m unfolding P_def E_def by linarith+
  ultimately have PE: "P - E = - d \<or> P - E = 0 \<or> P - E = d"
    using multiple_near_zero d'(1) by blast
  have low: "E = - d \<or> E = 0 \<or> d \<le> E" using d'(1) lst(1) E_def by (rule epoch_start)
  have "E \<le> lst" using m unfolding E_def by linarith
  then have b: "- (2 ^ 32) \<le> E" "E < 2 ^ 62" using low lst d' by auto
  define B where "B = (if E > d then i64 (E - d) else 0)"
  have B: "B = E - d \<or> B = E \<or> B = E + d" using b d' low by (auto simp: B_def)
  have eqs: "i64 (lst + 1) = lst + 1" "i64 (E + w) = E + w" "i64 (E + d) = E + d"
    "i64 (B + w) = B + w" "i64 (E + d + w) = E + d + w"
    using b d' m(3,4) lst B by auto
  have "closestTo (lst + 1) (E + w) (closestTo (lst + 1) (B + w) (E + d + w)) = pn"
  proof (rule closest_of_three)
    fix y assume "y \<in> {E + w, B + w, E + d + w}"
    then have y: "y = E - d + w \<or> y = E + w \<or> y = E + d + w" using B by auto
    then show "delta (lst + 1) y = \<bar>lst + 1 - y\<bar>"
      using b d' m lst by (auto simp: delta_def)
    have "y = pn \<or> d \<le> \<bar>y - pn\<bar>" using y PE d' by (auto simp: P_def)
    then show "y = pn \<or> \<bar>lst + 1 - pn\<bar> < \<bar>lst + 1 - y\<bar>" using near by arith
  next
    show "pn \<in> {E + w, B + w, E + d + w}"
      using PE low pn b d' m by (auto simp: P_def B_def)
  qed
  then show ?thesis
    unfolding DecodePacketNumber_def Let_def ed E w_def [symmetric] B_def [symmetric]
    by (simp only: eqs)
qed

lemma header_length_range:
  assumes "0 \<le> packetNumber - leastUnacked" "packetNumber - leastUnacked < 2 ^ 31"
    and "l = GetPacketNumberLengthForHeader packetNumber leastUnacked"
  shows "l \<in> {2, 3, 4}" "2 * (packetNumber - leastUnacked) < 2 ^ (8 * unat l)"
  using assms unat_uint64_of [of "packetNumber - leastUnacked"]
  by (auto simp: GetPacketNumberLengthForHeader_def Let_def word_less_nat_alt push_bit_eq_mult
      split: if_splits)

section \<open>Stream ids, versions\<close>

lemma StreamNum_StreamID_eq:
  assumes "1 \<le> s" "s \<le> MaxStreamCount"
  shows "StreamNum_StreamID s stype pers =
    4 * (s - 1) + (case stype of
        StreamTypeBidi \<Rightarrow> (case pers of PerspectiveClient \<Rightarrow> 0 | PerspectiveServer \<Rightarrow> 1)
      | StreamTypeUni \<Rightarrow> (case pers of PerspectiveClient \<Rightarrow> 2 | PerspectiveServer \<Rightarrow> 3))"
  using assms
  by (simp add: StreamNum_StreamID_def MaxStreamCount_def push_bit_eq_mult
      split: StreamType.split Perspective.split)

lemma IsSupportedVersion_iff: "IsSupportedVersion vs v \<longleftrightarrow> v \<in> set vs"
  by (induction vs) auto

lemma ChooseSupportedVersion_inner_iff: "ChooseSupportedVersion_inner v vs \<longleftrightarrow> v \<in> set vs"
  by (induction vs) auto

lemma StripGreasedVersions_append:
  "StripGreasedVersions (vs @ ws) = StripGreasedVersions vs @ StripGreasedVersions ws"
  by (induction vs) auto

lemma StripGreasedVersions_filter:
  "StripGreasedVersions vs = filter (\<lambda>v. v AND 0x0f0f0f0f \<noteq> 0x0a0a0a0a) vs"
  by (induction vs) auto

lemma generateReservedVersion_reserved: "generateReservedVersion rnd AND 0x0f0f0f0f = 0x0a0a0a0a"
proof -
  have "generateReservedVersion rnd AND 0x0f0f0f0f = (rnd OR 0x0a0a0a0a) AND 0x0a0a0a0a"
    by (simp add: generateReservedVersion_def and.assoc)
  also have "\<dots> = 0x0a0a0a0a"
    by (rule bit_word_eqI) (auto simp: bit_simps)
  finally show ?thesis .
qed

section \<open>Properties\<close>

text \<open>A packet number truncated to the length that the sender's \<open>GetPacketNumberLengthForHeader\<close>
  chose is recovered exactly by the receiver's \<open>DecodePacketNumber\<close>, as long as the window of
  unacknowledged packets is below \<open>2 ^ 31\<close> and the receiver's largest packet number is between
  the last acknowledged one and as far beyond the packet as that window: reordering inside the
  window never makes the receiver mistake one packet for another.\<close>
theorem packet_number_truncation:
  assumes "0 \<le> leastUnacked" "leastUnacked \<le> pn" "pn - leastUnacked < 2 ^ 31" "pn < 2 ^ 61"
    and "l = GetPacketNumberLengthForHeader pn leastUnacked"
    and "leastUnacked - 1 \<le> lastPacketNumber" "lastPacketNumber < pn + (pn - leastUnacked)"
  shows "DecodePacketNumber l lastPacketNumber (pn mod 2 ^ (8 * unat l)) = pn"
proof -
  note l = header_length_range [of pn leastUnacked l, OF _ assms(3,5)]
  show ?thesis
  proof (rule DecodePacketNumber_near)
    show "l \<in> {1, 2, 3, 4}" using l(1) assms(2) by simp
    have "2 * (pn - leastUnacked) < 2 ^ (8 * unat l)" using l(2) assms(2) by simp
    moreover have "\<bar>pn - (lastPacketNumber + 1)\<bar> \<le> pn - leastUnacked" using assms by arith
    then have "2 * \<bar>pn - (lastPacketNumber + 1)\<bar> \<le> 2 * (pn - leastUnacked)" by simp
    ultimately show "2 * \<bar>pn - (lastPacketNumber + 1)\<bar> < 2 ^ (8 * unat l)"
      by (rule order_le_less_trans [rotated])
  qed (use assms in simp_all)
qed

theorem packet_number_truncation_witness:
  "DecodePacketNumber (GetPacketNumberLengthForHeader 0x20000 0x1fff0) 0x1fffe
     (0x20000 mod 2 ^ (8 * unat (GetPacketNumberLengthForHeader 0x20000 0x1fff0))) = 0x20000"
  by (rule packet_number_truncation [where leastUnacked = "0x1fff0"]) simp_all

text \<open>Stream numbers and stream ids correspond one to one: the id of the \<open>s\<close>-th stream of a type
  and an initiator gives back the number, the type and the initiator.\<close>
theorem stream_id_roundtrip:
  assumes "1 \<le> s" "s \<le> MaxStreamCount"
  shows "StreamID_StreamNum (StreamNum_StreamID s stype pers) = s \<and>
    StreamID_Type (StreamNum_StreamID s stype pers) = stype \<and>
    InitiatedBy (StreamNum_StreamID s stype pers) = pers"
proof -
  obtain t where t: "s = t + 1" by (metis diff_add_cancel)
  have b: "0 \<le> t" "t < 2 ^ 60"
    using assms by (simp_all add: t MaxStreamCount_def push_bit_eq_mult)
  have "(4 * t + 2) mod 2 = 0" "(4 * t + 1) mod 2 = 1" "(4 * t + 3) mod 2 = 1" "(4 * t) mod 2 = 0"
    "(4 * t + 1) div 4 = t" "(4 * t + 2) div 4 = t" "(4 * t + 3) div 4 = t" by presburger+
  moreover have "StreamNum_StreamID s stype pers =
    4 * t + (case stype of
        StreamTypeBidi \<Rightarrow> (case pers of PerspectiveClient \<Rightarrow> 0 | PerspectiveServer \<Rightarrow> 1)
      | StreamTypeUni \<Rightarrow> (case pers of PerspectiveClient \<Rightarrow> 2 | PerspectiveServer \<Rightarrow> 3))"
    using StreamNum_StreamID_eq [OF assms] by (simp add: t)
  ultimately show ?thesis
    using b t by (cases stype; cases pers)
      (simp_all add: StreamID_StreamNum_def StreamID_Type_def InitiatedBy_def sdiv_nonneg smod_nonneg)
qed

theorem stream_id_roundtrip_witness:
  "StreamID_StreamNum (StreamNum_StreamID 3 StreamTypeBidi PerspectiveServer) = 3 \<and>
    StreamID_Type (StreamNum_StreamID 3 StreamTypeBidi PerspectiveServer) = StreamTypeBidi \<and>
    InitiatedBy (StreamNum_StreamID 3 StreamTypeBidi PerspectiveServer) = PerspectiveServer"
  by (rule stream_id_roundtrip) (simp_all add: MaxStreamCount_def push_bit_eq_mult)

text \<open>Greasing is transparent to version negotiation: a peer that strips the greased versions
  recovers exactly the list of versions that was greased, wherever the reserved version was
  inserted, and the version the peer then chooses is the one it would have chosen without.\<close>
theorem greasing_transparent:
  assumes "\<forall>v \<in> set supported. v AND 0x0f0f0f0f \<noteq> 0x0a0a0a0a"
  shows "StripGreasedVersions (GetGreasedVersions b0 rnd supported) = supported \<and>
    ChooseSupportedVersion ours (StripGreasedVersions (GetGreasedVersions b0 rnd supported)) =
    ChooseSupportedVersion ours supported"
proof -
  have "StripGreasedVersions vs = vs" if "set vs \<subseteq> set supported" for vs
    using that assms by (auto simp: StripGreasedVersions_filter filter_id_conv)
  then have "StripGreasedVersions (GetGreasedVersions b0 rnd supported) = supported"
    by (simp add: GetGreasedVersions_def Let_def StripGreasedVersions_append
        generateReservedVersion_reserved set_take_subset set_drop_subset)
  then show ?thesis by simp
qed

theorem greasing_transparent_witness:
  "StripGreasedVersions (GetGreasedVersions 5 0x12345678 SupportedVersions) = SupportedVersions \<and>
    ChooseSupportedVersion SupportedVersions
      (StripGreasedVersions (GetGreasedVersions 5 0x12345678 SupportedVersions)) =
    ChooseSupportedVersion SupportedVersions SupportedVersions"
  by (rule greasing_transparent) (simp add: SupportedVersions_def VersionTLS_def)

end
