(* ===== verification/WireControl.thy ===== *)
theory WireControl
  imports VarInt Protocol
begin

text \<open>
  The frames of \<open>quic-go/core/wire\<close> with a fixed layout of integers and byte strings: every frame
  but ACK (theory \<open>WireAck\<close>) and STREAM (theory \<open>WireStream\<close>). Each frame is a record, with its
  parser, its \<open>Write\<close> and its \<open>Length\<close>. The locale \<open>frame_codec\<close> is the contract of
  \<open>wire.Frame\<close> and its parser: what \<open>Write\<close> appends the parser reads back and \<open>Length\<close>
  counts. Every frame of this theory interprets it.

  A \<open>Write\<close> takes the buffer and returns it extended; a parser gets the unread bytes, type byte
  included. The version argument, which no method reads, is left out. Byte arrays of fixed size are
  lists of that length.
\<close>

section \<open>The contract of a frame\<close>

locale frame_codec =
  fixes Wr :: "byte list \<Rightarrow> 'f \<Rightarrow> go_error + byte list"
    and Len :: "'f \<Rightarrow> go_error + ByteCount"
    and Parse :: "reader \<Rightarrow> 'f parse"
    and ok :: "'f \<Rightarrow> bool"
  assumes codec: "ok f \<Longrightarrow> \<exists>bs. bs \<noteq> [] \<and> (\<forall>b. Wr b f = Inr (b @ bs)) \<and>
    Len f = Inr (word_of_nat (length bs)) \<and> (\<forall>r. Parse (bs @ r) = Inr (f, r))"
begin

lemma codecE:
  assumes "ok f"
  obtains bs where "bs \<noteq> []" and "\<And>b. Wr b f = Inr (b @ bs)"
    and "Len f = Inr (word_of_nat (length bs))" and "\<And>r. Parse (bs @ r) = Inr (f, r)"
  using codec [OF assms] by auto

lemma roundtrip: "ok f \<Longrightarrow> Wr [] f = Inr bs \<Longrightarrow> Parse (bs @ r) = Inr (f, r)"
  by (metis codecE append_Nil sum.inject(2))

lemma write_length:
  "ok f \<Longrightarrow> Wr b f = Inr b' \<Longrightarrow> \<exists>bs. b' = b @ bs \<and> Len f = Inr (word_of_nat (length bs))"
  by (metis codecE sum.inject(2))

lemma write_injective:
  assumes "ok f" "ok g" "Wr [] f = Inr bs" "Wr [] g = Inr cs" "bs @ r = cs @ r'"
  shows "f = g \<and> r = r'"
  using roundtrip [OF assms(1,3), of r] roundtrip [OF assms(2,4), of r'] assms(5) by simp

lemma write_total: "ok f \<Longrightarrow> \<exists>bs. Wr b f = Inr (b @ bs) \<and> bs \<noteq> []"
  by (metis codecE)

end

lemma frame_codecI:
  assumes "\<And>f. ok f \<Longrightarrow> bytes f \<noteq> []" and "\<And>b f. ok f \<Longrightarrow> Wr b f = Inr (b @ bytes f)"
    and "\<And>f. ok f \<Longrightarrow> Len f = Inr (word_of_nat (length (bytes f)))"
    and "\<And>f r. ok f \<Longrightarrow> Parse (bytes f @ r) = Inr (f, r)"
  shows "frame_codec Wr Len Parse ok"
  by unfold_locales (metis assms)

named_theorems frame_defs \<open>definitions of the frames' parsers, writers, lengths and well-formedness\<close>

definition varint_ok :: "u64 \<Rightarrow> bool" where [frame_defs]:
  "varint_ok v \<longleftrightarrow> v \<le> maxVarInt8"

definition id_ok :: "int \<Rightarrow> bool" where
  "id_ok x \<longleftrightarrow> 0 \<le> x \<and> x < 2 ^ 62"

lemma id_ok_varint: "id_ok x \<Longrightarrow> uint64_of x \<le> maxVarInt8"
  by (simp add: id_ok_def maxVarInt8_def word_le_nat_alt unat_uint64_of nat_le_iff)

lemma id_ok_roundtrip [simp]: "id_ok x \<Longrightarrow> int64_of (uint64_of x) = x"
  by (simp add: id_ok_def)

lemma length_ok: "length (xs :: 'a list) < 2 ^ 62 \<Longrightarrow> word_of_nat (length xs) \<le> maxVarInt8"
  by (simp add: maxVarInt8_def word_le_nat_alt unat_word_of_nat_id)

lemma ReadVarInt_int:
  assumes "ReadVarInt r = Inr (v, r')"
  shows "0 \<le> int64_of v" "int64_of v < 2 ^ 62"
proof -
  have "unat v < 2 ^ 62"
    using ReadVarInt_le_max [OF assms] by (simp add: maxVarInt8_def word_le_nat_alt)
  then show "0 \<le> int64_of v" "int64_of v < 2 ^ 62" by (rule int64_of_range)+
qed

text \<open>\<open>if err == io.ErrUnexpectedEOF \<lbrace> return nil, io.EOF \<rbrace>\<close>\<close>

definition eofE :: "go_error + 'a \<Rightarrow> go_error + 'a" where
  "eofE m = (if m = Inl io_ErrUnexpectedEOF then Inl io_EOF else m)"

lemma eofE_Inr [simp]: "eofE (Inr x) = Inr x"
  by (simp add: eofE_def)

lemma ReadConnectionID_append [codec_simps]:
  "n = length c \<Longrightarrow> ReadConnectionID (c @ r) n = Inr (c, r)"
  by (simp add: ReadConnectionID_def ReadFull_append)

lemma unat_byte_small: "n \<le> 20 \<Longrightarrow> unat (word_of_nat n :: byte) = n"
  by (simp add: unsigned_of_nat take_bit_nat_eq_self)

lemma ucast_u16: "unat (w :: u64) < 2 ^ 16 \<Longrightarrow> ucast (ucast w :: u16) = w"
  by (simp add: word_unat_eq_iff unsigned_ucast_eq unsigned_take_bit_eq take_bit_nat_eq_self)

lemma length_WriteUint16 [simp]: "length (WriteUint16 [] i) = 2"
  by (simp add: WriteUint16_def)

lemma WriteUint16_append: "NO_MATCH [] b \<Longrightarrow> WriteUint16 b i = b @ WriteUint16 [] i"
  by (simp add: WriteUint16_def)

lemma int64_of_length: "length (xs :: 'a list) < 2 ^ 62 \<Longrightarrow> int64_of (word_of_nat (length xs)) = int (length xs)"
  by (simp add: int64_of_small unat_word_of_nat_id)

lemma word_of_length_0:
  "length (xs :: 'a list) < 2 ^ 62 \<Longrightarrow> (word_of_nat (length xs) :: u64) = 0 \<longleftrightarrow> xs = []"
  by (simp add: word_unat_eq_iff unat_word_of_nat_id)

lemmas frame_lemmas = id_ok_varint length_ok VarIntLen_varint_bytes unat_word_of_nat_id unat_byte_small
  ucast_u16 int64_of_length WriteUint16_append word_of_length_0 MaxConnIDLen_def not_less

section \<open>PING\<close>

text \<open>\<open>type PingFrame struct\<close> has no field.\<close>

type_synonym PingFrame = unit

definition parsePingFrame :: "reader \<Rightarrow> PingFrame parse" where [frame_defs]:
  "parsePingFrame r =
    tryE (ReadByte r) (\<lambda>(_, r). Inr ((), r))"

definition PingFrame_Write :: "byte list \<Rightarrow> PingFrame \<Rightarrow> go_error + byte list" where [frame_defs]:
  "PingFrame_Write b f =
    Inr (b @ [0x1])"

definition PingFrame_Length :: "PingFrame \<Rightarrow> go_error + ByteCount" where [frame_defs]:
  "PingFrame_Length f =
    Inr 1"

definition wf_PingFrame :: "PingFrame \<Rightarrow> bool" where [frame_defs]:
  "wf_PingFrame f \<longleftrightarrow>
     True"

interpretation ping: frame_codec PingFrame_Write PingFrame_Length parsePingFrame wf_PingFrame
  by (rule frame_codecI [where bytes = "\<lambda>f. [0x1]"])
    (simp_all add: frame_defs codec_simps frame_lemmas)

section \<open>RESET_STREAM\<close>

record ResetStreamFrame =
  rsf_StreamID :: StreamID
  rsf_ErrorCode :: u64
  rsf_ByteOffset :: ByteCount

definition parseResetStreamFrame :: "reader \<Rightarrow> ResetStreamFrame parse" where [frame_defs]:
  "parseResetStreamFrame r =
    tryE (ReadByte r) (\<lambda>(_, r).
    tryE (ReadVarInt r) (\<lambda>(sid, r).
    tryE (ReadVarInt r) (\<lambda>(errorCode, r).
    tryE (ReadVarInt r) (\<lambda>(bo, r).
      Inr (\<lparr>rsf_StreamID = int64_of sid, rsf_ErrorCode = errorCode, rsf_ByteOffset = bo\<rparr>, r)))))"

definition ResetStreamFrame_Write :: "byte list \<Rightarrow> ResetStreamFrame \<Rightarrow> go_error + byte list" where [frame_defs]:
  "ResetStreamFrame_Write b f =
    tryE (WriteVarInt (b @ [0x4]) (uint64_of (rsf_StreamID f))) (\<lambda>b.
    tryE (WriteVarInt b (rsf_ErrorCode f)) (\<lambda>b.
    WriteVarInt b (rsf_ByteOffset f)))"

definition ResetStreamFrame_Length :: "ResetStreamFrame \<Rightarrow> go_error + ByteCount" where [frame_defs]:
  "ResetStreamFrame_Length f =
    tryE (VarIntLen (uint64_of (rsf_StreamID f))) (\<lambda>l1.
    tryE (VarIntLen (rsf_ErrorCode f)) (\<lambda>l2.
    tryE (VarIntLen (rsf_ByteOffset f)) (\<lambda>l3. Inr (1 + l1 + l2 + l3))))"

definition wf_ResetStreamFrame :: "ResetStreamFrame \<Rightarrow> bool" where [frame_defs]:
  "wf_ResetStreamFrame f \<longleftrightarrow>
     id_ok (rsf_StreamID f) \<and> varint_ok (rsf_ErrorCode f) \<and> varint_ok (rsf_ByteOffset f)"

interpretation reset_stream: frame_codec ResetStreamFrame_Write ResetStreamFrame_Length parseResetStreamFrame wf_ResetStreamFrame
  by (rule frame_codecI [where bytes = "\<lambda>f. [0x4] @ varint_bytes (uint64_of (rsf_StreamID f)) @
      varint_bytes (rsf_ErrorCode f) @ varint_bytes (rsf_ByteOffset f)"])
    (simp_all add: frame_defs codec_simps frame_lemmas)

section \<open>STOP_SENDING\<close>

record StopSendingFrame =
  ssf_StreamID :: StreamID
  ssf_ErrorCode :: u64

definition parseStopSendingFrame :: "reader \<Rightarrow> StopSendingFrame parse" where [frame_defs]:
  "parseStopSendingFrame r =
    tryE (ReadByte r) (\<lambda>(_, r).
    tryE (ReadVarInt r) (\<lambda>(streamID, r).
    tryE (ReadUint16 r) (\<lambda>(errorCode, r).
      Inr (\<lparr>ssf_StreamID = int64_of streamID, ssf_ErrorCode = ucast errorCode\<rparr>, r))))"

definition StopSendingFrame_Write :: "byte list \<Rightarrow> StopSendingFrame \<Rightarrow> go_error + byte list" where [frame_defs]:
  "StopSendingFrame_Write b f =
    tryE (WriteVarInt (b @ [0x5]) (uint64_of (ssf_StreamID f))) (\<lambda>b.
    Inr (WriteUint16 b (ucast (ssf_ErrorCode f))))"

definition StopSendingFrame_Length :: "StopSendingFrame \<Rightarrow> go_error + ByteCount" where [frame_defs]:
  "StopSendingFrame_Length f =
    tryE (VarIntLen (uint64_of (ssf_StreamID f))) (\<lambda>l1. Inr (1 + l1 + 2))"

definition wf_StopSendingFrame :: "StopSendingFrame \<Rightarrow> bool" where [frame_defs]:
  "wf_StopSendingFrame f \<longleftrightarrow>
     id_ok (ssf_StreamID f) \<and> unat (ssf_ErrorCode f) < 2 ^ 16"

interpretation stop_sending: frame_codec StopSendingFrame_Write StopSendingFrame_Length parseStopSendingFrame wf_StopSendingFrame
  by (rule frame_codecI [where bytes = "\<lambda>f. [0x5] @ varint_bytes (uint64_of (ssf_StreamID f)) @
      WriteUint16 [] (ucast (ssf_ErrorCode f))"])
    (simp_all add: frame_defs codec_simps frame_lemmas)

section \<open>CRYPTO\<close>

record CryptoFrame =
  cf_Offset :: ByteCount
  cf_Data :: "byte list"

definition parseCryptoFrame :: "reader \<Rightarrow> CryptoFrame parse" where [frame_defs]:
  "parseCryptoFrame r =
    tryE (ReadByte r) (\<lambda>(_, r).
    tryE (ReadVarInt r) (\<lambda>(offset, r).
    tryE (ReadVarInt r) (\<lambda>(dataLen, r).
      if unat dataLen > length r then Inl io_EOF
      else if dataLen \<noteq> 0 then
        tryE (ReadFull (unat dataLen) r) (\<lambda>(dat, r).
          Inr (\<lparr>cf_Offset = offset, cf_Data = dat\<rparr>, r))
      else Inr (\<lparr>cf_Offset = offset, cf_Data = []\<rparr>, r))))"

definition CryptoFrame_Write :: "byte list \<Rightarrow> CryptoFrame \<Rightarrow> go_error + byte list" where [frame_defs]:
  "CryptoFrame_Write b f =
    tryE (WriteVarInt (b @ [0x6]) (cf_Offset f)) (\<lambda>b.
    tryE (WriteVarInt b (word_of_nat (length (cf_Data f)))) (\<lambda>b.
    Inr (b @ cf_Data f)))"

definition CryptoFrame_Length :: "CryptoFrame \<Rightarrow> go_error + ByteCount" where [frame_defs]:
  "CryptoFrame_Length f =
    tryE (VarIntLen (cf_Offset f)) (\<lambda>l1.
    tryE (VarIntLen (word_of_nat (length (cf_Data f)))) (\<lambda>l2.
    Inr (1 + l1 + l2 + word_of_nat (length (cf_Data f)))))"

definition wf_CryptoFrame :: "CryptoFrame \<Rightarrow> bool" where [frame_defs]:
  "wf_CryptoFrame f \<longleftrightarrow>
     varint_ok (cf_Offset f) \<and> length (cf_Data f) < 2 ^ 62"

interpretation crypto: frame_codec CryptoFrame_Write CryptoFrame_Length parseCryptoFrame wf_CryptoFrame
  by (rule frame_codecI [where bytes = "\<lambda>f. [0x6] @ varint_bytes (cf_Offset f) @
      varint_bytes (word_of_nat (length (cf_Data f))) @ cf_Data f"])
    (simp_all add: frame_defs codec_simps frame_lemmas)

section \<open>NEW_TOKEN\<close>

record NewTokenFrame =
  ntf_Token :: "byte list"

definition parseNewTokenFrame :: "reader \<Rightarrow> NewTokenFrame parse" where [frame_defs]:
  "parseNewTokenFrame r =
    tryE (ReadByte r) (\<lambda>(_, r).
    tryE (ReadVarInt r) (\<lambda>(tokenLen, r).
      if length r < unat tokenLen then Inl io_EOF
      else if tokenLen = 0 then Inl (Errorf (''token must not be empty'', []))
      else tryE (ReadFull (unat tokenLen) r) (\<lambda>(token, r). Inr (\<lparr>ntf_Token = token\<rparr>, r))))"

definition NewTokenFrame_Write :: "byte list \<Rightarrow> NewTokenFrame \<Rightarrow> go_error + byte list" where [frame_defs]:
  "NewTokenFrame_Write b f =
    tryE (WriteVarInt (b @ [0x7]) (word_of_nat (length (ntf_Token f)))) (\<lambda>b.
    Inr (b @ ntf_Token f))"

definition NewTokenFrame_Length :: "NewTokenFrame \<Rightarrow> go_error + ByteCount" where [frame_defs]:
  "NewTokenFrame_Length f =
    tryE (VarIntLen (word_of_nat (length (ntf_Token f)))) (\<lambda>l1.
    Inr (1 + l1 + word_of_nat (length (ntf_Token f))))"

definition wf_NewTokenFrame :: "NewTokenFrame \<Rightarrow> bool" where [frame_defs]:
  "wf_NewTokenFrame f \<longleftrightarrow>
     ntf_Token f \<noteq> [] \<and> length (ntf_Token f) < 2 ^ 62"

interpretation new_token: frame_codec NewTokenFrame_Write NewTokenFrame_Length parseNewTokenFrame wf_NewTokenFrame
  by (rule frame_codecI [where bytes = "\<lambda>f. [0x7] @ varint_bytes (word_of_nat (length (ntf_Token f))) @ ntf_Token f"])
    (simp_all add: frame_defs codec_simps frame_lemmas)

section \<open>MAX_DATA\<close>

record MaxDataFrame =
  mdf_ByteOffset :: ByteCount

definition parseMaxDataFrame :: "reader \<Rightarrow> MaxDataFrame parse" where [frame_defs]:
  "parseMaxDataFrame r =
    tryE (ReadByte r) (\<lambda>(_, r).
    tryE (ReadVarInt r) (\<lambda>(byteOffset, r). Inr (\<lparr>mdf_ByteOffset = byteOffset\<rparr>, r)))"

definition MaxDataFrame_Write :: "byte list \<Rightarrow> MaxDataFrame \<Rightarrow> go_error + byte list" where [frame_defs]:
  "MaxDataFrame_Write b f =
    WriteVarInt (b @ [0x10]) (mdf_ByteOffset f)"

definition MaxDataFrame_Length :: "MaxDataFrame \<Rightarrow> go_error + ByteCount" where [frame_defs]:
  "MaxDataFrame_Length f =
    tryE (VarIntLen (mdf_ByteOffset f)) (\<lambda>l1. Inr (1 + l1))"

definition wf_MaxDataFrame :: "MaxDataFrame \<Rightarrow> bool" where [frame_defs]:
  "wf_MaxDataFrame f \<longleftrightarrow>
     varint_ok (mdf_ByteOffset f)"

interpretation max_data: frame_codec MaxDataFrame_Write MaxDataFrame_Length parseMaxDataFrame wf_MaxDataFrame
  by (rule frame_codecI [where bytes = "\<lambda>f. [0x10] @ varint_bytes (mdf_ByteOffset f)"])
    (simp_all add: frame_defs codec_simps frame_lemmas)

section \<open>MAX_STREAM_DATA\<close>

record MaxStreamDataFrame =
  msdf_StreamID :: StreamID
  msdf_ByteOffset :: ByteCount

definition parseMaxStreamDataFrame :: "reader \<Rightarrow> MaxStreamDataFrame parse" where [frame_defs]:
  "parseMaxStreamDataFrame r =
    tryE (ReadByte r) (\<lambda>(_, r).
    tryE (ReadVarInt r) (\<lambda>(sid, r).
    tryE (ReadVarInt r) (\<lambda>(offset, r).
      Inr (\<lparr>msdf_StreamID = int64_of sid, msdf_ByteOffset = offset\<rparr>, r))))"

definition MaxStreamDataFrame_Write :: "byte list \<Rightarrow> MaxStreamDataFrame \<Rightarrow> go_error + byte list" where [frame_defs]:
  "MaxStreamDataFrame_Write b f =
    tryE (WriteVarInt (b @ [0x11]) (uint64_of (msdf_StreamID f))) (\<lambda>b.
    WriteVarInt b (msdf_ByteOffset f))"

definition MaxStreamDataFrame_Length :: "MaxStreamDataFrame \<Rightarrow> go_error + ByteCount" where [frame_defs]:
  "MaxStreamDataFrame_Length f =
    tryE (VarIntLen (uint64_of (msdf_StreamID f))) (\<lambda>l1.
    tryE (VarIntLen (msdf_ByteOffset f)) (\<lambda>l2. Inr (1 + l1 + l2)))"

definition wf_MaxStreamDataFrame :: "MaxStreamDataFrame \<Rightarrow> bool" where [frame_defs]:
  "wf_MaxStreamDataFrame f \<longleftrightarrow>
     id_ok (msdf_StreamID f) \<and> varint_ok (msdf_ByteOffset f)"

interpretation max_stream_data: frame_codec MaxStreamDataFrame_Write MaxStreamDataFrame_Length parseMaxStreamDataFrame wf_MaxStreamDataFrame
  by (rule frame_codecI [where bytes = "\<lambda>f. [0x11] @ varint_bytes (uint64_of (msdf_StreamID f)) @ varint_bytes (msdf_ByteOffset f)"])
    (simp_all add: frame_defs codec_simps frame_lemmas)

section \<open>MAX_STREAMS\<close>

record MaxStreamsFrame =
  msf_Type :: StreamType
  msf_MaxStreamNum :: StreamNum

definition parseMaxStreamsFrame :: "reader \<Rightarrow> MaxStreamsFrame parse" where [frame_defs]:
  "parseMaxStreamsFrame r =
    tryE (ReadByte r) (\<lambda>(typeByte, r).
      let t = (if typeByte = 0x12 then StreamTypeBidi
               else if typeByte = 0x13 then StreamTypeUni
               else StreamTypeUni)
      in tryE (ReadVarInt r) (\<lambda>(streamID, r).
        Inr (\<lparr>msf_Type = t, msf_MaxStreamNum = int64_of streamID\<rparr>, r)))"

definition MaxStreamsFrame_Write :: "byte list \<Rightarrow> MaxStreamsFrame \<Rightarrow> go_error + byte list" where [frame_defs]:
  "MaxStreamsFrame_Write b f =
    (let b' = (case msf_Type f of StreamTypeBidi \<Rightarrow> b @ [0x12] | StreamTypeUni \<Rightarrow> b @ [0x13])
     in WriteVarInt b' (uint64_of (msf_MaxStreamNum f)))"

definition MaxStreamsFrame_Length :: "MaxStreamsFrame \<Rightarrow> go_error + ByteCount" where [frame_defs]:
  "MaxStreamsFrame_Length f =
    tryE (VarIntLen (uint64_of (msf_MaxStreamNum f))) (\<lambda>l1. Inr (1 + l1))"

definition wf_MaxStreamsFrame :: "MaxStreamsFrame \<Rightarrow> bool" where [frame_defs]:
  "wf_MaxStreamsFrame f \<longleftrightarrow>
     id_ok (msf_MaxStreamNum f)"

interpretation max_streams: frame_codec MaxStreamsFrame_Write MaxStreamsFrame_Length parseMaxStreamsFrame wf_MaxStreamsFrame
  by (rule frame_codecI [where bytes = "\<lambda>f. (case msf_Type f of StreamTypeBidi \<Rightarrow> [0x12] | StreamTypeUni \<Rightarrow> [0x13]) @
      varint_bytes (uint64_of (msf_MaxStreamNum f))"])
    (simp_all add: frame_defs codec_simps frame_lemmas split: StreamType.split)

section \<open>DATA_BLOCKED\<close>

record DataBlockedFrame =
  dbf_DataLimit :: ByteCount

definition parseDataBlockedFrame :: "reader \<Rightarrow> DataBlockedFrame parse" where [frame_defs]:
  "parseDataBlockedFrame r =
    tryE (ReadByte r) (\<lambda>(_, r).
    tryE (ReadVarInt r) (\<lambda>(offset, r). Inr (\<lparr>dbf_DataLimit = offset\<rparr>, r)))"

definition DataBlockedFrame_Write :: "byte list \<Rightarrow> DataBlockedFrame \<Rightarrow> go_error + byte list" where [frame_defs]:
  "DataBlockedFrame_Write b f =
    WriteVarInt (b @ [0x14]) (dbf_DataLimit f)"

definition DataBlockedFrame_Length :: "DataBlockedFrame \<Rightarrow> go_error + ByteCount" where [frame_defs]:
  "DataBlockedFrame_Length f =
    tryE (VarIntLen (dbf_DataLimit f)) (\<lambda>l1. Inr (1 + l1))"

definition wf_DataBlockedFrame :: "DataBlockedFrame \<Rightarrow> bool" where [frame_defs]:
  "wf_DataBlockedFrame f \<longleftrightarrow>
     varint_ok (dbf_DataLimit f)"

interpretation data_blocked: frame_codec DataBlockedFrame_Write DataBlockedFrame_Length parseDataBlockedFrame wf_DataBlockedFrame
  by (rule frame_codecI [where bytes = "\<lambda>f. [0x14] @ varint_bytes (dbf_DataLimit f)"])
    (simp_all add: frame_defs codec_simps frame_lemmas)

section \<open>STREAM_DATA_BLOCKED\<close>

record StreamDataBlockedFrame =
  sdbf_StreamID :: StreamID
  sdbf_DataLimit :: ByteCount

definition parseStreamDataBlockedFrame :: "reader \<Rightarrow> StreamDataBlockedFrame parse" where [frame_defs]:
  "parseStreamDataBlockedFrame r =
    tryE (ReadByte r) (\<lambda>(_, r).
    tryE (ReadVarInt r) (\<lambda>(sid, r).
    tryE (ReadVarInt r) (\<lambda>(offset, r).
      Inr (\<lparr>sdbf_StreamID = int64_of sid, sdbf_DataLimit = offset\<rparr>, r))))"

definition StreamDataBlockedFrame_Write :: "byte list \<Rightarrow> StreamDataBlockedFrame \<Rightarrow> go_error + byte list" where [frame_defs]:
  "StreamDataBlockedFrame_Write b f =
    tryE (WriteVarInt (b @ [0x15]) (uint64_of (sdbf_StreamID f))) (\<lambda>b.
    WriteVarInt b (sdbf_DataLimit f))"

definition StreamDataBlockedFrame_Length :: "StreamDataBlockedFrame \<Rightarrow> go_error + ByteCount" where [frame_defs]:
  "StreamDataBlockedFrame_Length f =
    tryE (VarIntLen (uint64_of (sdbf_StreamID f))) (\<lambda>l1.
    tryE (VarIntLen (sdbf_DataLimit f)) (\<lambda>l2. Inr (1 + l1 + l2)))"

definition wf_StreamDataBlockedFrame :: "StreamDataBlockedFrame \<Rightarrow> bool" where [frame_defs]:
  "wf_StreamDataBlockedFrame f \<longleftrightarrow>
     id_ok (sdbf_StreamID f) \<and> varint_ok (sdbf_DataLimit f)"

interpretation stream_data_blocked: frame_codec StreamDataBlockedFrame_Write StreamDataBlockedFrame_Length parseStreamDataBlockedFrame wf_StreamDataBlockedFrame
  by (rule frame_codecI [where bytes = "\<lambda>f. [0x15] @ varint_bytes (uint64_of (sdbf_StreamID f)) @ varint_bytes (sdbf_DataLimit f)"])
    (simp_all add: frame_defs codec_simps frame_lemmas)

section \<open>STREAMS_BLOCKED\<close>

record StreamsBlockedFrame =
  sbf_Type :: StreamType
  sbf_StreamLimit :: StreamNum

definition parseStreamsBlockedFrame :: "reader \<Rightarrow> StreamsBlockedFrame parse" where [frame_defs]:
  "parseStreamsBlockedFrame r =
    tryE (ReadByte r) (\<lambda>(typeByte, r).
      let t = (if typeByte = 0x16 then StreamTypeBidi
               else if typeByte = 0x17 then StreamTypeUni
               else StreamTypeUni)
      in tryE (ReadVarInt r) (\<lambda>(streamLimit, r).
        Inr (\<lparr>sbf_Type = t, sbf_StreamLimit = int64_of streamLimit\<rparr>, r)))"

definition StreamsBlockedFrame_Write :: "byte list \<Rightarrow> StreamsBlockedFrame \<Rightarrow> go_error + byte list" where [frame_defs]:
  "StreamsBlockedFrame_Write b f =
    (let b' = (case sbf_Type f of StreamTypeBidi \<Rightarrow> b @ [0x16] | StreamTypeUni \<Rightarrow> b @ [0x17])
     in WriteVarInt b' (uint64_of (sbf_StreamLimit f)))"

definition StreamsBlockedFrame_Length :: "StreamsBlockedFrame \<Rightarrow> go_error + ByteCount" where [frame_defs]:
  "StreamsBlockedFrame_Length f =
    tryE (VarIntLen (uint64_of (sbf_StreamLimit f))) (\<lambda>l1. Inr (1 + l1))"

definition wf_StreamsBlockedFrame :: "StreamsBlockedFrame \<Rightarrow> bool" where [frame_defs]:
  "wf_StreamsBlockedFrame f \<longleftrightarrow>
     id_ok (sbf_StreamLimit f)"

interpretation streams_blocked: frame_codec StreamsBlockedFrame_Write StreamsBlockedFrame_Length parseStreamsBlockedFrame wf_StreamsBlockedFrame
  by (rule frame_codecI [where bytes = "\<lambda>f. (case sbf_Type f of StreamTypeBidi \<Rightarrow> [0x16] | StreamTypeUni \<Rightarrow> [0x17]) @
      varint_bytes (uint64_of (sbf_StreamLimit f))"])
    (simp_all add: frame_defs codec_simps frame_lemmas split: StreamType.split)

section \<open>NEW_CONNECTION_ID\<close>

record NewConnectionIDFrame =
  ncf_SequenceNumber :: u64
  ncf_RetirePriorTo :: u64
  ncf_ConnectionID :: ConnectionID
  ncf_StatelessResetToken :: "byte list"

definition parseNewConnectionIDFrame :: "reader \<Rightarrow> NewConnectionIDFrame parse" where [frame_defs]:
  "parseNewConnectionIDFrame r =
    tryE (ReadByte r) (\<lambda>(_, r).
    tryE (ReadVarInt r) (\<lambda>(seq, r).
    tryE (ReadVarInt r) (\<lambda>(ret, r).
      if ret > seq then
        Inl (Errorf (''Retire Prior To value (%d) larger than Sequence Number (%d)'', [uint ret, uint seq]))
      else tryE (ReadByte r) (\<lambda>(connIDLen, r).
        if unat connIDLen > MaxConnIDLen then
          Inl (Errorf (''invalid connection ID length: %d'', [uint connIDLen]))
        else tryE (ReadConnectionID r (unat connIDLen)) (\<lambda>(connID, r).
          tryE (eofE (ReadFull 16 r)) (\<lambda>(token, r).
            Inr (\<lparr>ncf_SequenceNumber = seq, ncf_RetirePriorTo = ret, ncf_ConnectionID = connID,
                  ncf_StatelessResetToken = token\<rparr>, r)))))))"

definition NewConnectionIDFrame_Write :: "byte list \<Rightarrow> NewConnectionIDFrame \<Rightarrow> go_error + byte list" where [frame_defs]:
  "NewConnectionIDFrame_Write b f =
    tryE (WriteVarInt (b @ [0x18]) (ncf_SequenceNumber f)) (\<lambda>b.
    tryE (WriteVarInt b (ncf_RetirePriorTo f)) (\<lambda>b.
      let connIDLen = length (ncf_ConnectionID f)
      in if connIDLen > MaxConnIDLen then
           Inl (Errorf (''invalid connection ID length: %d'', [int connIDLen]))
         else Inr (b @ [word_of_nat connIDLen] @ ncf_ConnectionID f @ ncf_StatelessResetToken f)))"

definition NewConnectionIDFrame_Length :: "NewConnectionIDFrame \<Rightarrow> go_error + ByteCount" where [frame_defs]:
  "NewConnectionIDFrame_Length f =
    tryE (VarIntLen (ncf_SequenceNumber f)) (\<lambda>l1.
    tryE (VarIntLen (ncf_RetirePriorTo f)) (\<lambda>l2.
    Inr (1 + l1 + l2 + 1 + word_of_nat (length (ncf_ConnectionID f)) + 16)))"

definition wf_NewConnectionIDFrame :: "NewConnectionIDFrame \<Rightarrow> bool" where [frame_defs]:
  "wf_NewConnectionIDFrame f \<longleftrightarrow>
     varint_ok (ncf_SequenceNumber f) \<and> varint_ok (ncf_RetirePriorTo f) \<and>
     ncf_RetirePriorTo f \<le> ncf_SequenceNumber f \<and>
     length (ncf_ConnectionID f) \<le> MaxConnIDLen \<and> length (ncf_StatelessResetToken f) = 16"

interpretation new_connection_id: frame_codec NewConnectionIDFrame_Write NewConnectionIDFrame_Length parseNewConnectionIDFrame wf_NewConnectionIDFrame
  by (rule frame_codecI [where bytes = "\<lambda>f. [0x18] @ varint_bytes (ncf_SequenceNumber f) @
      varint_bytes (ncf_RetirePriorTo f) @ [word_of_nat (length (ncf_ConnectionID f))] @
      ncf_ConnectionID f @ ncf_StatelessResetToken f"])
    (simp_all add: frame_defs codec_simps frame_lemmas)

section \<open>RETIRE_CONNECTION_ID\<close>

record RetireConnectionIDFrame =
  rcf_SequenceNumber :: u64

definition parseRetireConnectionIDFrame :: "reader \<Rightarrow> RetireConnectionIDFrame parse" where [frame_defs]:
  "parseRetireConnectionIDFrame r =
    tryE (ReadByte r) (\<lambda>(_, r).
    tryE (ReadVarInt r) (\<lambda>(seq, r). Inr (\<lparr>rcf_SequenceNumber = seq\<rparr>, r)))"

definition RetireConnectionIDFrame_Write :: "byte list \<Rightarrow> RetireConnectionIDFrame \<Rightarrow> go_error + byte list" where [frame_defs]:
  "RetireConnectionIDFrame_Write b f =
    WriteVarInt (b @ [0x19]) (rcf_SequenceNumber f)"

definition RetireConnectionIDFrame_Length :: "RetireConnectionIDFrame \<Rightarrow> go_error + ByteCount" where [frame_defs]:
  "RetireConnectionIDFrame_Length f =
    tryE (VarIntLen (rcf_SequenceNumber f)) (\<lambda>l1. Inr (1 + l1))"

definition wf_RetireConnectionIDFrame :: "RetireConnectionIDFrame \<Rightarrow> bool" where [frame_defs]:
  "wf_RetireConnectionIDFrame f \<longleftrightarrow>
     varint_ok (rcf_SequenceNumber f)"

interpretation retire_connection_id: frame_codec RetireConnectionIDFrame_Write RetireConnectionIDFrame_Length parseRetireConnectionIDFrame wf_RetireConnectionIDFrame
  by (rule frame_codecI [where bytes = "\<lambda>f. [0x19] @ varint_bytes (rcf_SequenceNumber f)"])
    (simp_all add: frame_defs codec_simps frame_lemmas)

section \<open>PATH_CHALLENGE\<close>

record PathChallengeFrame =
  pcf_Data :: "byte list"

definition parsePathChallengeFrame :: "reader \<Rightarrow> PathChallengeFrame parse" where [frame_defs]:
  "parsePathChallengeFrame r =
    tryE (ReadByte r) (\<lambda>(_, r).
    tryE (eofE (ReadFull 8 r)) (\<lambda>(dat, r). Inr (\<lparr>pcf_Data = dat\<rparr>, r)))"

definition PathChallengeFrame_Write :: "byte list \<Rightarrow> PathChallengeFrame \<Rightarrow> go_error + byte list" where [frame_defs]:
  "PathChallengeFrame_Write b f =
    Inr (b @ [0x1a] @ pcf_Data f)"

definition PathChallengeFrame_Length :: "PathChallengeFrame \<Rightarrow> go_error + ByteCount" where [frame_defs]:
  "PathChallengeFrame_Length f =
    Inr (1 + 8)"

definition wf_PathChallengeFrame :: "PathChallengeFrame \<Rightarrow> bool" where [frame_defs]:
  "wf_PathChallengeFrame f \<longleftrightarrow>
     length (pcf_Data f) = 8"

interpretation path_challenge: frame_codec PathChallengeFrame_Write PathChallengeFrame_Length parsePathChallengeFrame wf_PathChallengeFrame
  by (rule frame_codecI [where bytes = "\<lambda>f. [0x1a] @ pcf_Data f"])
    (simp_all add: frame_defs codec_simps frame_lemmas)

section \<open>PATH_RESPONSE\<close>

record PathResponseFrame =
  prf_Data :: "byte list"

definition parsePathResponseFrame :: "reader \<Rightarrow> PathResponseFrame parse" where [frame_defs]:
  "parsePathResponseFrame r =
    tryE (ReadByte r) (\<lambda>(_, r).
    tryE (eofE (ReadFull 8 r)) (\<lambda>(dat, r). Inr (\<lparr>prf_Data = dat\<rparr>, r)))"

definition PathResponseFrame_Write :: "byte list \<Rightarrow> PathResponseFrame \<Rightarrow> go_error + byte list" where [frame_defs]:
  "PathResponseFrame_Write b f =
    Inr (b @ [0x1b] @ prf_Data f)"

definition PathResponseFrame_Length :: "PathResponseFrame \<Rightarrow> go_error + ByteCount" where [frame_defs]:
  "PathResponseFrame_Length f =
    Inr (1 + 8)"

definition wf_PathResponseFrame :: "PathResponseFrame \<Rightarrow> bool" where [frame_defs]:
  "wf_PathResponseFrame f \<longleftrightarrow>
     length (prf_Data f) = 8"

interpretation path_response: frame_codec PathResponseFrame_Write PathResponseFrame_Length parsePathResponseFrame wf_PathResponseFrame
  by (rule frame_codecI [where bytes = "\<lambda>f. [0x1b] @ prf_Data f"])
    (simp_all add: frame_defs codec_simps frame_lemmas)

section \<open>CONNECTION_CLOSE\<close>

record ConnectionCloseFrame =
  ccf_IsApplicationError :: bool
  ccf_ErrorCode :: u64
  ccf_FrameType :: u64
  ccf_ReasonPhrase :: "byte list"

definition parseConnectionCloseFrame :: "reader \<Rightarrow> ConnectionCloseFrame parse" where [frame_defs]:
  "parseConnectionCloseFrame r =
    tryE (ReadByte r) (\<lambda>(typeByte, r).
      let isApplicationError = (typeByte = 0x1d) in
      tryE (ReadVarInt r) (\<lambda>(ec, r).
      tryE (if \<not> isApplicationError then ReadVarInt r else Inr (0, r)) (\<lambda>(ft, r).
      tryE (ReadVarInt r) (\<lambda>(reasonPhraseLen, r).
        if int64_of reasonPhraseLen > int (length r) then Inl io_EOF
        else tryE (ReadFull (unat reasonPhraseLen) r) (\<lambda>(reasonPhrase, r).
          Inr (\<lparr>ccf_IsApplicationError = isApplicationError, ccf_ErrorCode = ec, ccf_FrameType = ft,
                ccf_ReasonPhrase = reasonPhrase\<rparr>, r))))))"

definition ConnectionCloseFrame_Write :: "byte list \<Rightarrow> ConnectionCloseFrame \<Rightarrow> go_error + byte list" where [frame_defs]:
  "ConnectionCloseFrame_Write b f =
    (let b = (if ccf_IsApplicationError f then b @ [0x1d] else b @ [0x1c]) in
     tryE (WriteVarInt b (ccf_ErrorCode f)) (\<lambda>b.
     tryE (if \<not> ccf_IsApplicationError f then WriteVarInt b (ccf_FrameType f) else Inr b) (\<lambda>b.
     tryE (WriteVarInt b (word_of_nat (length (ccf_ReasonPhrase f)))) (\<lambda>b.
     Inr (b @ ccf_ReasonPhrase f)))))"

definition ConnectionCloseFrame_Length :: "ConnectionCloseFrame \<Rightarrow> go_error + ByteCount" where [frame_defs]:
  "ConnectionCloseFrame_Length f =
    tryE (VarIntLen (ccf_ErrorCode f)) (\<lambda>l1.
    tryE (VarIntLen (word_of_nat (length (ccf_ReasonPhrase f)))) (\<lambda>l2.
    let len = 1 + l1 + l2 + word_of_nat (length (ccf_ReasonPhrase f)) in
    if \<not> ccf_IsApplicationError f then tryE (VarIntLen (ccf_FrameType f)) (\<lambda>l3. Inr (len + l3))
    else Inr len))"

definition wf_ConnectionCloseFrame :: "ConnectionCloseFrame \<Rightarrow> bool" where [frame_defs]:
  "wf_ConnectionCloseFrame f \<longleftrightarrow>
     varint_ok (ccf_ErrorCode f) \<and> varint_ok (ccf_FrameType f) \<and> length (ccf_ReasonPhrase f) < 2 ^ 62 \<and>
     (ccf_IsApplicationError f \<longrightarrow> ccf_FrameType f = 0)"

interpretation connection_close: frame_codec ConnectionCloseFrame_Write ConnectionCloseFrame_Length parseConnectionCloseFrame wf_ConnectionCloseFrame
  by (rule frame_codecI [where bytes = "\<lambda>f. [if ccf_IsApplicationError f then 0x1d else 0x1c] @
      varint_bytes (ccf_ErrorCode f) @
      (if ccf_IsApplicationError f then [] else varint_bytes (ccf_FrameType f)) @
      varint_bytes (word_of_nat (length (ccf_ReasonPhrase f))) @ ccf_ReasonPhrase f"])
    (simp_all add: frame_defs codec_simps frame_lemmas)

end
