(* ===== verification/GoFloat.thy ===== *)
theory GoFloat
  imports QPrelude Complex_Main
begin

text \<open>
  Floating point numbers and points in time as the flow and congestion control use them. A
  \<open>float32\<close> or \<open>float64\<close> is a rational; every operation rounds its exact result to a significand of
  24 or 53 bits, to nearest and ties to even. The numbers that occur here are far from overflow and
  from subnormals, so exponents are not bounded. A \<open>time.Time\<close> is the number of nanoseconds since the
  zero time. The lemmas show that rounding is exact on the numbers that fit, which is what the
  window computations rely on.
\<close>

section \<open>Rounding\<close>

fun bits :: "nat \<Rightarrow> nat" where
  "bits n = (if n = 0 then 0 else Suc (bits (n div 2)))"

declare bits.simps [simp del]

text \<open>The exponent of a positive number: \<open>2^k \<le> x < 2^(k+1)\<close>.\<close>

definition exponent :: "rat \<Rightarrow> int" where
  "exponent x =
    (let (a, b) = quotient_of x; k = int (bits (nat a)) - int (bits (nat b))
     in if 2 powi k \<le> x then k else k - 1)"

definition round_even :: "rat \<Rightarrow> int" where
  "round_even y =
    (let f = \<lfloor>y\<rfloor>; d = y - of_int f
     in if d < 1 / 2 then f else if d > 1 / 2 then f + 1 else if even f then f else f + 1)"

definition round_float :: "nat \<Rightarrow> rat \<Rightarrow> rat" where
  "round_float p x =
    (if x = 0 then 0
     else let e = int p - 1 - exponent \<bar>x\<bar>
          in sgn x * (of_int (round_even (\<bar>x\<bar> * 2 powi e)) * 2 powi (- e)))"

definition f64 :: "rat \<Rightarrow> rat" where "f64 x = round_float 53 x"
definition f32 :: "rat \<Rightarrow> rat" where "f32 x = round_float 24 x"

text \<open>Conversions from and to integers; converting to an integer cuts off the fraction.\<close>

definition trunc :: "rat \<Rightarrow> int" where
  "trunc x = (if x \<ge> 0 then \<lfloor>x\<rfloor> else \<lceil>x\<rceil>)"

definition float64_of_u64 :: "u64 \<Rightarrow> rat" where "float64_of_u64 w = f64 (of_int (uint w))"
definition float64_of_int :: "int \<Rightarrow> rat" where "float64_of_int x = f64 (of_int x)"
definition float32_of_int :: "int \<Rightarrow> rat" where "float32_of_int x = f32 (of_int x)"
definition u64_of_float :: "rat \<Rightarrow> u64" where "u64_of_float x = word_of_int (trunc x)"
definition int64_of_float :: "rat \<Rightarrow> int" where "int64_of_float x = i64 (trunc x)"

section \<open>Time\<close>

type_synonym Time = int

definition IsZero :: "Time \<Rightarrow> bool" where "IsZero t \<longleftrightarrow> t = 0"

text \<open>\<open>t.Sub(u)\<close> saturates.\<close>

definition Time_Sub :: "Time \<Rightarrow> Time \<Rightarrow> Duration" where
  "Time_Sub t u = max (- (2 ^ 63)) (min (2 ^ 63 - 1) (t - u))"

definition Time_Add :: "Time \<Rightarrow> Duration \<Rightarrow> Time" where
  "Time_Add t d = t + d"

section \<open>Exactness\<close>

lemma bits_bounds: "0 < n \<Longrightarrow> 2 ^ (bits n - 1) \<le> n \<and> n < 2 ^ bits n"
proof (induction n rule: bits.induct)
  case (1 n)
  show ?case
  proof (cases "n div 2 = 0")
    case True
    then have "n = 1" using 1(2) by auto
    then show ?thesis by (simp add: bits.simps)
  next
    case False
    then have ih: "2 ^ (bits (n div 2) - 1) \<le> n div 2" "n div 2 < 2 ^ bits (n div 2)" using 1 by auto
    have b: "bits n = Suc (bits (n div 2))" using 1(2) by (subst bits.simps) simp
    have "0 < bits (n div 2)" using False by (subst bits.simps) simp
    then have "(2 :: nat) ^ bits (n div 2) = 2 * 2 ^ (bits (n div 2) - 1)"
      by (cases "bits (n div 2)") simp_all
    also have "\<dots> \<le> n" using ih(1) by linarith
    finally show ?thesis using ih(2) b by simp
  qed
qed

lemma exponent_bounds:
  assumes "0 < x"
  shows "2 powi exponent x \<le> x" "x < 2 powi (exponent x + 1)"
proof -
  obtain a b where ab: "quotient_of x = (a, b)" by (cases "quotient_of x")
  have b: "0 < b" using quotient_of_denom_pos [OF ab] .
  have x: "x = of_int a / of_int b" using quotient_of_div [OF ab] .
  then have a: "0 < a" using assms b by (simp add: zero_less_divide_iff)
  let ?m = "bits (nat a)" and ?n = "bits (nat b)"
  have bits: "2 ^ (?m - 1) \<le> nat a" "nat a < 2 ^ ?m" "2 ^ (?n - 1) \<le> nat b" "nat b < 2 ^ ?n"
    using bits_bounds [of "nat a"] bits_bounds [of "nat b"] a b by auto
  have pos: "0 < ?m" "0 < ?n" using a b by (simp_all add: bits.simps)
  have i: "2 ^ (?m - 1) \<le> a" "a < 2 ^ ?m" "2 ^ (?n - 1) \<le> b" "b < 2 ^ ?n"
    using bits a b by (simp_all add: le_nat_iff nat_less_iff)
  define k where "k = int ?m - int ?n"
  have up: "x < 2 powi (k + 1)"
  proof -
    have "of_int a < (2 :: rat) ^ ?m" "(2 :: rat) ^ (?n - 1) \<le> of_int b"
      using i(2,3) by (metis of_int_less_iff of_int_numeral of_int_power, metis of_int_le_iff of_int_numeral of_int_power)
    then have "x < 2 ^ ?m / 2 ^ (?n - 1)" unfolding x using b
      by (intro frac_less) (use a in auto)
    also have "\<dots> = 2 powi (int ?m - int (?n - 1))"
      by (simp add: power_int_diff)
    also have "int ?m - int (?n - 1) = k + 1" using pos by (simp add: k_def of_nat_diff)
    finally show ?thesis .
  qed
  have lo: "2 powi (k - 1) \<le> x"
  proof -
    have "(2 :: rat) ^ (?m - 1) \<le> of_int a" "of_int b \<le> (2 :: rat) ^ ?n"
      using i(1,4) by (metis of_int_le_iff of_int_numeral of_int_power, metis less_imp_le of_int_le_iff of_int_numeral of_int_power)
    then have "2 ^ (?m - 1) / 2 ^ ?n \<le> x" unfolding x using a b by (intro frac_le) auto
    moreover have "(2 :: rat) ^ (?m - 1) / 2 ^ ?n = 2 powi (int (?m - 1) - int ?n)"
      by (simp add: power_int_diff)
    moreover have "int (?m - 1) - int ?n = k - 1" using pos by (simp add: k_def of_nat_diff)
    ultimately show ?thesis by simp
  qed
  have e: "exponent x = (if 2 powi k \<le> x then k else k - 1)"
    by (simp add: exponent_def ab k_def)
  show "2 powi exponent x \<le> x" "x < 2 powi (exponent x + 1)" using up lo by (auto simp: e)
qed

lemma round_even_int [simp]: "round_even (of_int n) = n"
  by (simp add: round_even_def)

lemma powi_lt_imp: "(2 :: rat) powi a < 2 powi b \<Longrightarrow> a < b"
  by (metis linorder_not_le one_le_numeral power_int_increasing)

lemma round_float_exact:
  assumes "\<bar>n\<bar> < 2 ^ p"
  shows "round_float p (of_int n * 2 powi k) = of_int n * 2 powi k"
proof (cases "n = 0")
  case False
  let ?x = "\<bar>of_int n * 2 powi k :: rat\<bar>"
  have x: "?x = of_int \<bar>n\<bar> * 2 powi k" by (simp add: abs_mult)
  then have pos: "0 < ?x" using False by simp
  define e where "e = int p - 1 - exponent ?x"
  have "(2 :: rat) powi exponent ?x < 2 powi (int p + k)"
  proof -
    have "2 powi exponent ?x \<le> ?x" using exponent_bounds(1) [OF pos] .
    also have "\<dots> < 2 ^ p * 2 powi k"
      unfolding x using assms by (intro mult_strict_right_mono) (metis of_int_less_iff of_int_numeral of_int_power, simp)
    also have "\<dots> = 2 powi (int p + k)" by (simp add: power_int_add)
    finally show ?thesis .
  qed
  then have "exponent ?x < int p + k" by (rule powi_lt_imp)
  then have ke: "0 \<le> k + e" by (simp add: e_def)
  have scaled: "?x * 2 powi e = of_int (\<bar>n\<bar> * 2 ^ nat (k + e))"
  proof -
    have "?x * 2 powi e = of_int \<bar>n\<bar> * 2 powi (k + e)" by (simp add: x power_int_add)
    also have "(2 :: rat) powi (k + e) = 2 ^ nat (k + e)" using ke by (simp add: power_int_def)
    finally show ?thesis by simp
  qed
  have inv: "(2 :: rat) powi e * 2 powi (- e) = 1" by (simp flip: power_int_add)
  have "round_float p (of_int n * 2 powi k) =
      sgn (of_int n * 2 powi k) * (of_int (round_even (?x * 2 powi e)) * 2 powi (- e))"
    using False by (simp add: round_float_def e_def Let_def)
  also have "of_int (round_even (?x * 2 powi e)) = ?x * 2 powi e" unfolding scaled by (simp only: round_even_int)
  also have "sgn (of_int n * 2 powi k) * (?x * 2 powi e * 2 powi (- e)) = of_int n * 2 powi k"
    by (simp only: mult.assoc inv mult_1_right) (simp add: sgn_mult_abs)
  finally show ?thesis .
qed (simp add: round_float_def)

lemma f64_int: "\<bar>n\<bar> < 2 ^ 53 \<Longrightarrow> f64 (of_int n) = of_int n"
  using round_float_exact [of n 53 0] by (simp add: f64_def)

lemma f64_dyadic: "\<bar>n\<bar> < 2 ^ 53 \<Longrightarrow> f64 (of_int n / 2 ^ j) = of_int n / 2 ^ j"
  using round_float_exact [of n 53 "- int j"] by (simp add: f64_def power_int_minus divide_inverse)

lemma f32_int: "\<bar>n\<bar> < 2 ^ 24 \<Longrightarrow> f32 (of_int n) = of_int n"
  using round_float_exact [of n 24 0] by (simp add: f32_def)

lemma f32_dyadic: "\<bar>n\<bar> < 2 ^ 24 \<Longrightarrow> f32 (of_int n / 2 ^ j) = of_int n / 2 ^ j"
  using round_float_exact [of n 24 "- int j"] by (simp add: f32_def power_int_minus divide_inverse)

end
