(* ===== verification/RttStats.thy ===== *)
theory RttStats
  imports GoFloat
begin

text \<open>
  Round trip time estimation: \<open>core/congestion/rtt_stats.go\<close>, and the minima and maxima of
  \<open>core/utils/minmax.go\<close> that it and other components use. Durations are in nanoseconds. The lemmas
  show that the float32 computation of the estimator is the exact moving average of RFC 6298 in
  whole microseconds, and what the estimates are bounded by.
\<close>

section \<open>Minima and maxima\<close>

definition MinByteCount :: "ByteCount \<Rightarrow> ByteCount \<Rightarrow> ByteCount" where
  "MinByteCount a b = (if a < b then a else b)"

definition utils_MaxByteCount :: "ByteCount \<Rightarrow> ByteCount \<Rightarrow> ByteCount" where
  "utils_MaxByteCount a b = (if a < b then b else a)"

definition MaxDuration :: "Duration \<Rightarrow> Duration \<Rightarrow> Duration" where
  "MaxDuration a b = (if a > b then a else b)"

definition MinDuration :: "Duration \<Rightarrow> Duration \<Rightarrow> Duration" where
  "MinDuration a b = (if a > b then b else a)"

definition AbsDuration :: "Duration \<Rightarrow> Duration" where
  "AbsDuration d = (if d \<ge> 0 then d else i64 (- d))"

definition MinTime :: "Time \<Rightarrow> Time \<Rightarrow> Time" where
  "MinTime a b = (if a > b then b else a)"

definition MinNonZeroTime :: "Time \<Rightarrow> Time \<Rightarrow> Time" where
  "MinNonZeroTime a b = (if IsZero a then b else if IsZero b then a else MinTime a b)"

definition MaxTime :: "Time \<Rightarrow> Time \<Rightarrow> Time" where
  "MaxTime a b = (if a > b then a else b)"

definition MaxPacketNumber :: "PacketNumber \<Rightarrow> PacketNumber \<Rightarrow> PacketNumber" where
  "MaxPacketNumber a b = (if a > b then a else b)"

definition MinPacketNumber :: "PacketNumber \<Rightarrow> PacketNumber \<Rightarrow> PacketNumber" where
  "MinPacketNumber a b = (if a < b then a else b)"

lemma minmax_simps [simp]:
  "MaxDuration a b = max a b" "MinDuration a b = min a b" "MinTime a b = min a b" "MaxTime a b = max a b"
  "MaxPacketNumber a b = max a b" "MinPacketNumber a b = min a b"
  by (auto simp: MaxDuration_def MinDuration_def MinTime_def MaxTime_def MaxPacketNumber_def MinPacketNumber_def)

lemma unat_MinByteCount: "unat (MinByteCount a b) = min (unat a) (unat b)"
  by (simp add: MinByteCount_def word_less_nat_alt min_def)

section \<open>The estimator\<close>

definition Microsecond :: Duration where "Microsecond = 1000"
definition Millisecond :: Duration where "Millisecond = 1000 * Microsecond"
definition Second :: Duration where "Second = 1000 * Millisecond"
definition InfDuration :: Duration where "InfDuration = 2 ^ 63 - 1"
definition TimerGranularity :: Duration where "TimerGranularity = Millisecond"

definition rttAlpha :: rat where "rttAlpha = 1 / 8"
definition oneMinusAlpha :: rat where "oneMinusAlpha = 7 / 8"
definition rttBeta :: rat where "rttBeta = 1 / 4"
definition oneMinusBeta :: rat where "oneMinusBeta = 3 / 4"
definition defaultInitialRTT :: Duration where "defaultInitialRTT = 100 * Millisecond"

record RTTStats =
  minRTT :: Duration
  latestRTT :: Duration
  smoothedRTT :: Duration
  meanDeviation :: Duration
  maxAckDelay :: Duration

definition NewRTTStats :: RTTStats where
  "NewRTTStats = \<lparr>minRTT = 0, latestRTT = 0, smoothedRTT = 0, meanDeviation = 0, maxAckDelay = 0\<rparr>"

definition PTO :: "RTTStats \<Rightarrow> Duration" where
  "PTO r =
    (if smoothedRTT r = 0 then 2 * defaultInitialRTT
     else i64 (i64 (smoothedRTT r + MaxDuration (i64 (4 * meanDeviation r)) TimerGranularity) + maxAckDelay r))"

definition nextMeanDeviation :: "Duration \<Rightarrow> Duration \<Rightarrow> Duration \<Rightarrow> Duration" where
  "nextMeanDeviation dev smoothed sample =
    i64 (int64_of_float (f32 (
        f32 (oneMinusBeta * float32_of_int (dev sdiv Microsecond)) +
        f32 (rttBeta * float32_of_int (AbsDuration (i64 (smoothed - sample)) sdiv Microsecond)))) * Microsecond)"

definition nextSmoothedRTT :: "Duration \<Rightarrow> Duration \<Rightarrow> Duration" where
  "nextSmoothedRTT smoothed sample =
    i64 (int64_of_float (f32 (
        f32 (float32_of_int (smoothed sdiv Microsecond) * oneMinusAlpha) +
        f32 (float32_of_int (sample sdiv Microsecond) * rttAlpha))) * Microsecond)"

definition UpdateRTT :: "RTTStats \<Rightarrow> Duration \<Rightarrow> Duration \<Rightarrow> RTTStats" where
  "UpdateRTT r sendDelta ackDelay =
    (if sendDelta = InfDuration \<or> sendDelta \<le> 0 then r
     else
       let r = (if minRTT r = 0 \<or> minRTT r > sendDelta then r\<lparr>minRTT := sendDelta\<rparr> else r);
           sample = (if i64 (sendDelta - minRTT r) \<ge> ackDelay then i64 (sendDelta - ackDelay) else sendDelta);
           r = r\<lparr>latestRTT := sample\<rparr>
       in if smoothedRTT r = 0
          then r\<lparr>smoothedRTT := sample, meanDeviation := sample sdiv 2\<rparr>
          else r\<lparr>meanDeviation := nextMeanDeviation (meanDeviation r) (smoothedRTT r) sample,
                 smoothedRTT := nextSmoothedRTT (smoothedRTT r) sample\<rparr>)"

definition SetMaxAckDelay :: "RTTStats \<Rightarrow> Duration \<Rightarrow> RTTStats" where
  "SetMaxAckDelay r mad = r\<lparr>maxAckDelay := mad\<rparr>"

definition OnConnectionMigration :: "RTTStats \<Rightarrow> RTTStats" where
  "OnConnectionMigration r = r\<lparr>latestRTT := 0, minRTT := 0, smoothedRTT := 0, meanDeviation := 0\<rparr>"

definition ExpireSmoothedMetrics :: "RTTStats \<Rightarrow> RTTStats" where
  "ExpireSmoothedMetrics r =
    (let r = r\<lparr>meanDeviation := MaxDuration (meanDeviation r) (AbsDuration (i64 (smoothedRTT r - latestRTT r)))\<rparr>
     in r\<lparr>smoothedRTT := MaxDuration (smoothedRTT r) (latestRTT r)\<rparr>)"

section \<open>The moving averages are exact\<close>

lemma trunc_frac: "0 \<le> n \<Longrightarrow> 0 < d \<Longrightarrow> trunc (of_int n / of_int d) = n div d"
  by (simp add: trunc_def floor_divide_of_int_eq)

lemma f32_average:
  assumes "0 \<le> n" "n < 2 ^ 24" "0 \<le> m" "m < 2 ^ 24" "n + m < 2 ^ 24"
  shows "f32 (f32 (of_int n / 2 ^ j) + f32 (of_int m / 2 ^ j)) = of_int (n + m) / 2 ^ j"
  using assms f32_dyadic [of n j] f32_dyadic [of m j] f32_dyadic [of "n + m" j]
  by (simp add: add_divide_distrib)

lemma micros_range:
  assumes "0 \<le> x" "x < 2 ^ 21 * Microsecond"
  shows "x sdiv Microsecond = x div Microsecond" "0 \<le> x div Microsecond" "x div Microsecond < 2 ^ 21"
proof -
  have m: "0 < Microsecond" by (simp add: Microsecond_def)
  show "x sdiv Microsecond = x div Microsecond" using assms(1) m by (rule sdiv_nonneg)
  show "0 \<le> x div Microsecond" "x div Microsecond < 2 ^ 21" using div_range [OF assms m] .
qed

lemma weighted_average:
  assumes "0 \<le> S" "S < 2 ^ 21" "0 \<le> X" "X < 2 ^ 21"
  shows "i64 (int64_of_float (f32 (f32 (float32_of_int S * oneMinusAlpha) + f32 (float32_of_int X * rttAlpha))) * Microsecond)
      = (7 * S + X) div 8 * Microsecond"
    and "i64 (int64_of_float (f32 (f32 (oneMinusBeta * float32_of_int S) + f32 (rttBeta * float32_of_int X))) * Microsecond)
      = (3 * S + X) div 4 * Microsecond"
proof -
  have e: "float32_of_int S = of_int S" "float32_of_int X = of_int X"
    using assms by (simp_all add: float32_of_int_def f32_int)
  have clip: "i64 (i64 n * Microsecond) = n * Microsecond" if "0 \<le> n" "n < 2 ^ 21" for n
    using that by (simp add: Microsecond_def)
  have "f32 (f32 (float32_of_int S * oneMinusAlpha) + f32 (float32_of_int X * rttAlpha)) = of_int (7 * S + X) / of_int 8"
    using f32_average [of "7 * S" X 3] assms unfolding e oneMinusAlpha_def rttAlpha_def by (simp add: mult.commute)
  then show "i64 (int64_of_float (f32 (f32 (float32_of_int S * oneMinusAlpha) + f32 (float32_of_int X * rttAlpha))) * Microsecond)
      = (7 * S + X) div 8 * Microsecond"
    unfolding int64_of_float_def using assms div_range [of "7 * S + X" "2 ^ 21" 8] by (simp only: trunc_frac clip)
  have "f32 (f32 (oneMinusBeta * float32_of_int S) + f32 (rttBeta * float32_of_int X)) = of_int (3 * S + X) / of_int 4"
    using f32_average [of "3 * S" X 2] assms unfolding e oneMinusBeta_def rttBeta_def by simp
  then show "i64 (int64_of_float (f32 (f32 (oneMinusBeta * float32_of_int S) + f32 (rttBeta * float32_of_int X))) * Microsecond)
      = (3 * S + X) div 4 * Microsecond"
    unfolding int64_of_float_def using assms div_range [of "3 * S + X" "2 ^ 21" 4] by (simp only: trunc_frac clip)
qed

lemma nextSmoothedRTT_exact:
  assumes "0 \<le> s" "s < 2 ^ 21 * Microsecond" "0 \<le> x" "x < 2 ^ 21 * Microsecond"
  shows "nextSmoothedRTT s x = (7 * (s div Microsecond) + x div Microsecond) div 8 * Microsecond"
  unfolding nextSmoothedRTT_def micros_range(1) [OF assms(1,2)] micros_range(1) [OF assms(3,4)]
  by (rule weighted_average(1) [OF micros_range(2,3) [OF assms(1,2)] micros_range(2,3) [OF assms(3,4)]])

lemma nextMeanDeviation_exact:
  assumes "0 \<le> v" "v < 2 ^ 21 * Microsecond" "0 \<le> s" "s < 2 ^ 21 * Microsecond" "0 \<le> x" "x < 2 ^ 21 * Microsecond"
  shows "nextMeanDeviation v s x = (3 * (v div Microsecond) + \<bar>s - x\<bar> div Microsecond) div 4 * Microsecond"
proof -
  have abs: "AbsDuration (i64 (s - x)) = \<bar>s - x\<bar>" using assms by (auto simp: AbsDuration_def Microsecond_def)
  have d: "0 \<le> \<bar>s - x\<bar>" "\<bar>s - x\<bar> < 2 ^ 21 * Microsecond" using assms by auto
  show ?thesis
    unfolding nextMeanDeviation_def abs micros_range(1) [OF assms(1,2)] micros_range(1) [OF d]
    by (rule weighted_average(2) [OF micros_range(2,3) [OF assms(1,2)] micros_range(2,3) [OF d]])
qed

section \<open>What an update does\<close>

definition rtt_ok :: "RTTStats \<Rightarrow> bool" where
  "rtt_ok r \<longleftrightarrow> 0 \<le> minRTT r \<and> (minRTT r = 0 \<longrightarrow> smoothedRTT r = 0) \<and>
     0 \<le> smoothedRTT r \<and> smoothedRTT r < 2 ^ 21 * Microsecond \<and>
     0 \<le> meanDeviation r \<and> meanDeviation r < 2 ^ 21 * Microsecond"

text \<open>C21. Below round trip times of about two seconds the float32 arithmetic of \<open>UpdateRTT\<close> computes
  the moving averages of RFC 6298 exactly, in whole microseconds: the smoothed round trip time
  moves by one eighth and the mean deviation by one quarter towards the sample, the minimum is
  updated first, and the sample is corrected by the acknowledgement delay only when that does not
  push it below the minimum.\<close>

theorem UpdateRTT_moving_average:
  assumes "rtt_ok r" "smoothedRTT r \<noteq> 0" "0 < d" "d < 2 ^ 21 * Microsecond" "0 \<le> a" "a < 2 ^ 62"
  shows "let m = min (minRTT r) d; x = (if d - m \<ge> a then d - a else d) in
    UpdateRTT r d a = r\<lparr>minRTT := m, latestRTT := x,
      meanDeviation := (3 * (meanDeviation r div 1000) + \<bar>smoothedRTT r - x\<bar> div 1000) div 4 * 1000,
      smoothedRTT := (7 * (smoothedRTT r div 1000) + x div 1000) div 8 * 1000\<rparr> \<and>
    m \<le> x \<and> x \<le> d"
proof -
  have m: "0 < minRTT r" using assms(1,2) by (auto simp: rtt_ok_def)
  define mm where "mm = min (minRTT r) d"
  define x where "x = (if d - mm \<ge> a then d - a else d)"
  have x: "mm \<le> x" "x \<le> d" "0 < mm" using m assms(3,5) by (auto simp: x_def mm_def)
  have "d < 2 ^ 62" "0 \<le> mm" "mm \<le> d" using assms(4) x by (auto simp: Microsecond_def mm_def)
  then have "i64 (d - mm) = d - mm" "i64 (d - a) = d - a" using assms(3,5,6) by simp_all
  moreover have "(if minRTT r = 0 \<or> minRTT r > d then r\<lparr>minRTT := d\<rparr> else r) = r\<lparr>minRTT := mm\<rparr>"
    using m by (auto simp: mm_def)
  moreover have "\<not> (d = InfDuration \<or> d \<le> 0)" using assms(3,4) by (simp add: InfDuration_def Microsecond_def)
  ultimately have "UpdateRTT r d a = r\<lparr>minRTT := mm, latestRTT := x,
      meanDeviation := nextMeanDeviation (meanDeviation r) (smoothedRTT r) x,
      smoothedRTT := nextSmoothedRTT (smoothedRTT r) x\<rparr>"
    using assms(2) by (simp add: UpdateRTT_def x_def Let_def)
  moreover have xx: "0 \<le> x" "x < 2 ^ 21 * Microsecond" using x assms(4) by auto
  have ok: "0 \<le> smoothedRTT r" "smoothedRTT r < 2 ^ 21 * Microsecond" "0 \<le> meanDeviation r" "meanDeviation r < 2 ^ 21 * Microsecond"
    using assms(1) by (simp_all only: rtt_ok_def)
  have "nextSmoothedRTT (smoothedRTT r) x = (7 * (smoothedRTT r div 1000) + x div 1000) div 8 * 1000"
    "nextMeanDeviation (meanDeviation r) (smoothedRTT r) x =
       (3 * (meanDeviation r div 1000) + \<bar>smoothedRTT r - x\<bar> div 1000) div 4 * 1000"
    using nextSmoothedRTT_exact [OF ok(1,2) xx] nextMeanDeviation_exact [OF ok(3,4,1,2) xx]
    by (simp_all only: Microsecond_def)
  ultimately have "UpdateRTT r d a = r\<lparr>minRTT := mm, latestRTT := x,
      meanDeviation := (3 * (meanDeviation r div 1000) + \<bar>smoothedRTT r - x\<bar> div 1000) div 4 * 1000,
      smoothedRTT := (7 * (smoothedRTT r div 1000) + x div 1000) div 8 * 1000\<rparr>"
    by (simp only:)
  then show ?thesis using x unfolding Let_def x_def mm_def by blast
qed

theorem UpdateRTT_moving_average_witness:
  "let r = \<lparr>minRTT = 60000, latestRTT = 80000, smoothedRTT = 80000, meanDeviation = 40000, maxAckDelay = 25000000\<rparr>;
       m = min (minRTT r) 100000; x = (if 100000 - m \<ge> 16000 then 100000 - 16000 else 100000) in
    UpdateRTT r 100000 16000 = r\<lparr>minRTT := m, latestRTT := x,
      meanDeviation := (3 * (meanDeviation r div 1000) + \<bar>smoothedRTT r - x\<bar> div 1000) div 4 * 1000,
      smoothedRTT := (7 * (smoothedRTT r div 1000) + x div 1000) div 8 * 1000\<rparr> \<and>
    m \<le> x \<and> x \<le> 100000"
  using UpdateRTT_moving_average [of "\<lparr>minRTT = 60000, latestRTT = 80000, smoothedRTT = 80000, meanDeviation = 40000, maxAckDelay = 25000000\<rparr>" 100000 16000]
  by (simp add: rtt_ok_def Microsecond_def)

lemma UpdateRTT_first:
  assumes "smoothedRTT r = 0" "minRTT r = 0" "0 < d" "d < 2 ^ 62" "0 < a" "a < 2 ^ 62"
  shows "UpdateRTT r d a = r\<lparr>minRTT := d, latestRTT := d, smoothedRTT := d, meanDeviation := d div 2\<rparr>"
  using assms by (simp add: UpdateRTT_def InfDuration_def sdiv_nonneg)

text \<open>The probe timeout is at least the smoothed round trip time plus the timer granularity.\<close>

lemma PTO_lower:
  assumes "rtt_ok r" "smoothedRTT r \<noteq> 0" "0 \<le> maxAckDelay r" "maxAckDelay r < 2 ^ 62"
  shows "smoothedRTT r + TimerGranularity \<le> PTO r" "smoothedRTT r + 4 * meanDeviation r + maxAckDelay r \<le> PTO r"
  using assms by (auto simp: PTO_def rtt_ok_def TimerGranularity_def Millisecond_def Microsecond_def max_def)

end
