(* ===== verification/WireAck.thy ===== *)
theory WireAck
  imports WireControl RttStats
begin

text \<open>
  The ACK frame: \<open>ack_frame.go\<close> and \<open>ack_range.go\<close>. The parser with its validity checks, the writer
  with its limit on the number of ranges, and the query \<open>AcksPacket\<close> with the binary search of
  \<open>sort.Search\<close>. The lemmas show that valid ranges form a strictly descending chain of disjoint,
  non-adjacent intervals, that the parser only accepts such frames, that the query decides
  membership in their union, and that writing and parsing agree on the ranges that were encoded.
\<close>

section \<open>Ranges and frames\<close>

record AckRange =
  Smallest :: PacketNumber
  Largest :: PacketNumber

definition AckRange_Len :: "AckRange \<Rightarrow> PacketNumber" where
  "AckRange_Len r = i64 (i64 (Largest r - Smallest r) + 1)"

record AckFrame =
  AckRanges :: "AckRange list"
  DelayTime :: Duration

definition MaxAckFrameSize :: ByteCount where "MaxAckFrameSize = 1000"
definition AckDelayExponent :: nat where "AckDelayExponent = 3"

definition errInvalidAckRanges :: go_error where
  "errInvalidAckRanges = Errorf (''AckFrame: ACK frame contains invalid ACK ranges'', [])"

text \<open>Indexing a slice panics out of range.\<close>

definition nthE :: "'a list \<Rightarrow> nat \<Rightarrow> go_error + 'a" where
  "nthE xs i = (if i < length xs then Inr (xs ! i)
     else Inl (Panic (''index out of range [%d] with length %d'', [int i, int (length xs)])))"

definition HasMissingRanges :: "AckFrame \<Rightarrow> bool" where
  "HasMissingRanges f \<longleftrightarrow> length (AckRanges f) > 1"

definition validateAckRanges :: "AckFrame \<Rightarrow> bool" where
  "validateAckRanges f =
    (if length (AckRanges f) = 0 then False
     else if list_ex (\<lambda>ackRange. Smallest ackRange > Largest ackRange) (AckRanges f) then False
     else list_all (\<lambda>i.
        let ackRange = AckRanges f ! i; lastAckRange = AckRanges f ! (i - 1)
        in if Smallest lastAckRange \<le> Smallest ackRange then False
           else if Smallest lastAckRange \<le> i64 (Largest ackRange + 1) then False
           else True) [1..<length (AckRanges f)])"

definition LargestAcked :: "AckFrame \<Rightarrow> go_error + PacketNumber" where
  "LargestAcked f = tryE (nthE (AckRanges f) 0) (\<lambda>r. Inr (Largest r))"

definition LowestAcked :: "AckFrame \<Rightarrow> go_error + PacketNumber" where
  "LowestAcked f = tryE (nthE (AckRanges f) (length (AckRanges f) - 1)) (\<lambda>r. Inr (Smallest r))"

text \<open>\<open>sort.Search\<close> of the Go standard library: binary search in \<open>[i, j)\<close> for the first index
  where \<open>f\<close> holds.\<close>

function sort_Search_loop :: "(nat \<Rightarrow> bool) \<Rightarrow> nat \<Rightarrow> nat \<Rightarrow> nat" where
  "sort_Search_loop f i j =
    (if i < j then
       let h = (i + j) div 2
       in if \<not> f h then sort_Search_loop f (h + 1) j else sort_Search_loop f i h
     else i)"
  by pat_completeness auto
termination
  by (relation "measure (\<lambda>(f, i, j). j - i)") auto

declare sort_Search_loop.simps [simp del]

definition sort_Search :: "nat \<Rightarrow> (nat \<Rightarrow> bool) \<Rightarrow> nat" where
  "sort_Search n f = sort_Search_loop f 0 n"

definition AcksPacket :: "AckFrame \<Rightarrow> PacketNumber \<Rightarrow> go_error + bool" where
  "AcksPacket f p =
    tryE (LowestAcked f) (\<lambda>lowest.
    if p < lowest then Inr False
    else tryE (LargestAcked f) (\<lambda>largest.
    if p > largest then Inr False
    else
      let i = sort_Search (length (AckRanges f)) (\<lambda>i. p \<ge> Smallest (AckRanges f ! i))
      in tryE (nthE (AckRanges f) i) (\<lambda>r. Inr (p \<le> Largest r))))"

section \<open>Parsing\<close>

primrec parseAckRanges :: "nat \<Rightarrow> PacketNumber \<Rightarrow> AckRange list \<Rightarrow> reader \<Rightarrow> AckRange list parse" where
  "parseAckRanges 0 smallest ranges r = Inr (ranges, r)"
| "parseAckRanges (Suc n) smallest ranges r =
    tryE (ReadVarInt r) (\<lambda>(g, r).
      let gap = int64_of g
      in if smallest < i64 (gap + 2) then Inl errInvalidAckRanges
      else
        let largest = i64 (i64 (smallest - gap) - 2)
        in tryE (ReadVarInt r) (\<lambda>(ab, r).
          let ackBlock = int64_of ab
          in if ackBlock > largest then Inl errInvalidAckRanges
          else
            let smallest = i64 (largest - ackBlock)
            in parseAckRanges n smallest
                 (ranges @ [\<lparr>Smallest = smallest, Largest = largest\<rparr>]) r))"

primrec skipVarInts :: "nat \<Rightarrow> reader \<Rightarrow> unit parse" where
  "skipVarInts 0 r = Inr ((), r)"
| "skipVarInts (Suc n) r = tryE (ReadVarInt r) (\<lambda>(_, r). skipVarInts n r)"

definition parseAckDelay :: "u64 \<Rightarrow> byte \<Rightarrow> Duration" where
  "parseAckDelay delay ackDelayExponent =
    (let delayTime = i64 (int64_of (push_bit (unat ackDelayExponent) (delay * 1)) * Microsecond)
     in if delayTime < 0 then InfDuration else delayTime)"

definition parseAckFrame :: "reader \<Rightarrow> byte \<Rightarrow> AckFrame parse" where
  "parseAckFrame r ackDelayExponent =
    tryE (ReadByte r) (\<lambda>(typeByte, r).
      let ecn = typeByte AND 0x1 > 0 in
      tryE (ReadVarInt r) (\<lambda>(la, r).
      let largestAcked = int64_of la in
      tryE (ReadVarInt r) (\<lambda>(delay, r).
      let delayTime = parseAckDelay delay ackDelayExponent in
      tryE (ReadVarInt r) (\<lambda>(numBlocks, r).
      tryE (ReadVarInt r) (\<lambda>(ab, r).
      let ackBlock = int64_of ab in
      if ackBlock > largestAcked then Inl (Errorf (''invalid first ACK range'', []))
      else
        let smallest = i64 (largestAcked - ackBlock) in
        tryE (parseAckRanges (unat numBlocks) smallest
                [\<lparr>Smallest = smallest, Largest = largestAcked\<rparr>] r) (\<lambda>(ranges, r).
        let frame = \<lparr>AckRanges = ranges, DelayTime = delayTime\<rparr> in
        if \<not> validateAckRanges frame then Inl errInvalidAckRanges
        else tryE (if ecn then skipVarInts 3 r else Inr ((), r)) (\<lambda>(_, r). Inr (frame, r))))))))"

section \<open>Writing\<close>

definition encodeAckDelay :: "Duration \<Rightarrow> u64" where
  "encodeAckDelay delay = uint64_of (delay sdiv (1000 * (push_bit AckDelayExponent 1)))"

definition encodeAckRange :: "AckFrame \<Rightarrow> nat \<Rightarrow> go_error + u64 \<times> u64" where
  "encodeAckRange f i =
    (if i = 0 then tryE (nthE (AckRanges f) 0) (\<lambda>r. Inr (0, uint64_of (i64 (Largest r - Smallest r))))
     else tryE (nthE (AckRanges f) (i - 1)) (\<lambda>prev.
          tryE (nthE (AckRanges f) i) (\<lambda>r.
            Inr (uint64_of (i64 (i64 (Smallest prev - Largest r) - 2)),
                 uint64_of (i64 (Largest r - Smallest r))))))"

function numEncodableAckRanges_loop :: "AckFrame \<Rightarrow> nat \<Rightarrow> ByteCount \<Rightarrow> go_error + nat" where
  "numEncodableAckRanges_loop f i len =
    (if i < length (AckRanges f) then
       tryE (encodeAckRange f i) (\<lambda>(gap, l).
       tryE (VarIntLen gap) (\<lambda>n1.
       tryE (VarIntLen l) (\<lambda>n2.
         let rangeLen = n1 + n2
         in if len + rangeLen > MaxAckFrameSize then Inr (i - 1)
            else numEncodableAckRanges_loop f (i + 1) (len + rangeLen))))
     else Inr (length (AckRanges f)))"
  by pat_completeness auto
termination
  by (relation "measure (\<lambda>(f, i, len). length (AckRanges f) - i)") auto

declare numEncodableAckRanges_loop.simps [simp del]

definition numEncodableAckRanges :: "AckFrame \<Rightarrow> go_error + nat" where
  "numEncodableAckRanges f =
    tryE (LargestAcked f) (\<lambda>la.
    tryE (VarIntLen (uint64_of la)) (\<lambda>n1.
    tryE (VarIntLen (encodeAckDelay (DelayTime f))) (\<lambda>n2.
      numEncodableAckRanges_loop f 1 (1 + n1 + n2 + 2))))"

function AckFrame_Write_loop :: "AckFrame \<Rightarrow> nat \<Rightarrow> nat \<Rightarrow> byte list \<Rightarrow> go_error + byte list" where
  "AckFrame_Write_loop f i numRanges b =
    (if i < numRanges then
       tryE (encodeAckRange f i) (\<lambda>(gap, l).
       tryE (WriteVarInt b gap) (\<lambda>b.
       tryE (WriteVarInt b l) (\<lambda>b.
         AckFrame_Write_loop f (i + 1) numRanges b)))
     else Inr b)"
  by pat_completeness auto
termination
  by (relation "measure (\<lambda>(f, i, numRanges, b). numRanges - i)") auto

declare AckFrame_Write_loop.simps [simp del]

definition AckFrame_Write :: "byte list \<Rightarrow> AckFrame \<Rightarrow> go_error + byte list" where
  "AckFrame_Write b f =
    tryE (LargestAcked f) (\<lambda>la.
    tryE (WriteVarInt (b @ [0x2]) (uint64_of la)) (\<lambda>b.
    tryE (WriteVarInt b (encodeAckDelay (DelayTime f))) (\<lambda>b.
    tryE (numEncodableAckRanges f) (\<lambda>numRanges.
    tryE (WriteVarInt b (uint64_of (int numRanges - 1))) (\<lambda>b.
    tryE (encodeAckRange f 0) (\<lambda>(_, firstRange).
    tryE (WriteVarInt b firstRange) (\<lambda>b.
      AckFrame_Write_loop f 1 numRanges b)))))))"

function AckFrame_Length_loop :: "AckFrame \<Rightarrow> nat \<Rightarrow> nat \<Rightarrow> ByteCount \<Rightarrow> go_error + ByteCount" where
  "AckFrame_Length_loop f i numRanges len =
    (if i < numRanges then
       tryE (encodeAckRange f i) (\<lambda>(gap, l).
       tryE (VarIntLen gap) (\<lambda>n1.
       tryE (VarIntLen l) (\<lambda>n2.
         AckFrame_Length_loop f (i + 1) numRanges (len + n1 + n2))))
     else Inr len)"
  by pat_completeness auto
termination
  by (relation "measure (\<lambda>(f, i, numRanges, len). numRanges - i)") auto

declare AckFrame_Length_loop.simps [simp del]

definition AckFrame_Length :: "AckFrame \<Rightarrow> go_error + ByteCount" where
  "AckFrame_Length f =
    tryE (nthE (AckRanges f) 0) (\<lambda>r0.
    let largestAcked = Largest r0 in
    tryE (numEncodableAckRanges f) (\<lambda>numRanges.
    tryE (VarIntLen (uint64_of largestAcked)) (\<lambda>n1.
    tryE (VarIntLen (encodeAckDelay (DelayTime f))) (\<lambda>n2.
    tryE (VarIntLen (uint64_of (int numRanges - 1))) (\<lambda>n3.
    let lowestInFirstRange = Smallest r0 in
    tryE (VarIntLen (uint64_of (i64 (largestAcked - lowestInFirstRange)))) (\<lambda>n4.
      AckFrame_Length_loop f 1 numRanges (1 + n1 + n2 + n3 + n4)))))))"

section \<open>Valid ranges are a descending chain\<close>

definition ack_chain :: "AckRange list \<Rightarrow> bool" where
  "ack_chain rs \<longleftrightarrow> (\<forall>r \<in> set rs. Smallest r \<le> Largest r) \<and>
     sorted_wrt (\<lambda>a b. Largest b + 1 < Smallest a) rs"

definition pn_ok :: "AckRange list \<Rightarrow> bool" where
  "pn_ok rs \<longleftrightarrow> (\<forall>r \<in> set rs. 0 \<le> Smallest r \<and> Largest r < 2 ^ 62)"

definition acked :: "AckFrame \<Rightarrow> PacketNumber set" where
  "acked f = {p. \<exists>r \<in> set (AckRanges f). Smallest r \<le> p \<and> p \<le> Largest r}"

lemma nthE_in [simp]: "i < length xs \<Longrightarrow> nthE xs i = Inr (xs ! i)"
  by (simp add: nthE_def)

lemma nthE_InrD: "nthE xs i = Inr x \<Longrightarrow> i < length xs \<and> x = xs ! i"
  by (auto simp: nthE_def split: if_splits)

lemma adjacent_chain:
  assumes adj: "\<And>i. Suc i < length rs \<Longrightarrow> Largest (rs ! Suc i) + 1 < Smallest (rs ! i)"
    and ok: "\<And>r. r \<in> set rs \<Longrightarrow> Smallest r \<le> Largest r"
    and "i < j" "j < length rs"
  shows "Largest (rs ! j) + 1 < Smallest (rs ! i)"
  using assms(3,4)
proof (induction j)
  case (Suc j)
  show ?case
  proof (cases "i = j")
    case True
    then show ?thesis using adj Suc.prems by simp
  next
    case False
    then have "Largest (rs ! j) + 1 < Smallest (rs ! i)" using Suc by simp
    moreover have "Smallest (rs ! j) \<le> Largest (rs ! j)" using ok Suc.prems by simp
    ultimately show ?thesis using adj [of j] Suc.prems by linarith
  qed
qed simp

lemma validateAckRanges_iff:
  assumes "pn_ok (AckRanges f)"
  shows "validateAckRanges f \<longleftrightarrow> AckRanges f \<noteq> [] \<and> ack_chain (AckRanges f)" (is "?V \<longleftrightarrow> ?C")
proof
  assume V: ?V
  let ?rs = "AckRanges f"
  have ok: "Smallest r \<le> Largest r" if "r \<in> set ?rs" for r
    using V that by (auto simp: validateAckRanges_def list_ex_iff split: if_splits)
  have adj: "Largest (?rs ! Suc i) + 1 < Smallest (?rs ! i)" if i: "Suc i < length ?rs" for i
  proof -
    have "?rs ! Suc i \<in> set ?rs" using i by simp
    then have "0 \<le> Smallest (?rs ! Suc i)" "Largest (?rs ! Suc i) < 2 ^ 62"
      "Smallest (?rs ! Suc i) \<le> Largest (?rs ! Suc i)"
      using assms ok by (auto simp: pn_ok_def)
    moreover have "\<forall>i \<in> {1..<length ?rs}. \<not> Smallest (?rs ! (i - 1)) \<le> i64 (Largest (?rs ! i) + 1)"
      using V by (auto simp: validateAckRanges_def list_all_iff Let_def split: if_splits)
    then have "\<not> Smallest (?rs ! i) \<le> i64 (Largest (?rs ! Suc i) + 1)" using i by force
    ultimately show ?thesis by simp
  qed
  have "sorted_wrt (\<lambda>a b. Largest b + 1 < Smallest a) ?rs"
    by (auto simp: sorted_wrt_iff_nth_less intro: adjacent_chain [OF adj ok])
  then show ?C using V ok by (auto simp: ack_chain_def validateAckRanges_def split: if_splits)
next
  assume C: ?C
  let ?rs = "AckRanges f"
  have "Largest (?rs ! i) + 1 < Smallest (?rs ! (i - 1)) \<and> Smallest (?rs ! i) \<le> Largest (?rs ! i) \<and>
      i64 (Largest (?rs ! i) + 1) = Largest (?rs ! i) + 1"
    if "i \<in> {1..<length ?rs}" for i
  proof -
    have "?rs ! i \<in> set ?rs" using that by simp
    then have "0 \<le> Smallest (?rs ! i)" "Largest (?rs ! i) < 2 ^ 62"
      "Smallest (?rs ! i) \<le> Largest (?rs ! i)" using assms C by (auto simp: pn_ok_def ack_chain_def)
    moreover have "Largest (?rs ! i) + 1 < Smallest (?rs ! (i - 1))"
      using C that by (auto simp: ack_chain_def sorted_wrt_iff_nth_less)
    ultimately show ?thesis by simp
  qed
  then have "\<forall>i \<in> {1..<length ?rs}. \<not> Smallest (?rs ! (i - 1)) \<le> Smallest (?rs ! i) \<and>
      \<not> Smallest (?rs ! (i - 1)) \<le> i64 (Largest (?rs ! i) + 1)" by fastforce
  then show ?V using C
    by (auto simp: validateAckRanges_def list_ex_iff list_all_iff ack_chain_def Let_def not_le)
qed

lemma sort_Search_loop_correct:
  assumes mono: "\<And>a b. a \<le> b \<Longrightarrow> b < n \<Longrightarrow> f a \<Longrightarrow> f b"
    and "i \<le> j" "j \<le> n" "\<And>k. k < i \<Longrightarrow> \<not> f k" "\<And>k. j \<le> k \<Longrightarrow> k < n \<Longrightarrow> f k"
  shows "sort_Search_loop f i j \<le> n \<and> (\<forall>k < sort_Search_loop f i j. \<not> f k) \<and>
    (\<forall>k. sort_Search_loop f i j \<le> k \<longrightarrow> k < n \<longrightarrow> f k)"
  using assms(2-)
proof (induction "j - i" arbitrary: i j rule: less_induct)
  case less
  show ?case
  proof (cases "i < j")
    case True
    let ?h = "(i + j) div 2"
    have h: "i \<le> ?h" "?h < j" using True by auto
    show ?thesis
    proof (cases "f ?h")
      case True
      have "f k" if "?h \<le> k" "k < n" for k using mono [OF that] True .
      then have "sort_Search_loop f i ?h \<le> n \<and> (\<forall>k < sort_Search_loop f i ?h. \<not> f k) \<and>
          (\<forall>k. sort_Search_loop f i ?h \<le> k \<longrightarrow> k < n \<longrightarrow> f k)"
        using less.prems h \<open>i < j\<close> by (intro less.hyps) auto
      with True \<open>i < j\<close> show ?thesis
        by (simp add: sort_Search_loop.simps [of f i j] Let_def)
    next
      case False
      have "\<not> f k" if "k < ?h + 1" for k
        using mono [of k ?h] that False h less.prems(2) by auto
      then have "sort_Search_loop f (?h + 1) j \<le> n \<and> (\<forall>k < sort_Search_loop f (?h + 1) j. \<not> f k) \<and>
          (\<forall>k. sort_Search_loop f (?h + 1) j \<le> k \<longrightarrow> k < n \<longrightarrow> f k)"
        using less.prems h \<open>i < j\<close> by (intro less.hyps) auto
      with False \<open>i < j\<close> show ?thesis
        by (simp add: sort_Search_loop.simps [of f i j] Let_def)
    qed
  next
    case False
    then have "sort_Search_loop f i j = j"
      using less.prems(1) by (subst sort_Search_loop.simps) simp
    then show ?thesis using less.prems False by auto
  qed
qed

text \<open>The contract of \<open>sort.Search\<close>: on a monotone predicate it finds the least index.\<close>

lemma sort_Search_correct:
  assumes "\<And>a b. a \<le> b \<Longrightarrow> b < n \<Longrightarrow> f a \<Longrightarrow> f b"
  shows "sort_Search n f \<le> n" "k < sort_Search n f \<Longrightarrow> \<not> f k"
    "sort_Search n f \<le> k \<Longrightarrow> k < n \<Longrightarrow> f k"
  using sort_Search_loop_correct [of n f 0 n, OF assms] by (simp_all add: sort_Search_def)

lemma chain_nth:
  assumes "ack_chain rs" "i < j" "j < length rs"
  shows "Largest (rs ! j) + 1 < Smallest (rs ! i)"
  using assms by (auto simp: ack_chain_def sorted_wrt_iff_nth_less)

lemma chain_ok: "ack_chain rs \<Longrightarrow> i < length rs \<Longrightarrow> Smallest (rs ! i) \<le> Largest (rs ! i)"
  by (simp add: ack_chain_def)

lemma chain_Smallest_mono:
  "ack_chain rs \<Longrightarrow> i \<le> j \<Longrightarrow> j < length rs \<Longrightarrow> Smallest (rs ! j) \<le> Smallest (rs ! i)"
  using chain_nth [of rs i j] chain_ok [of rs j] by (cases "i = j") auto

lemma chain_Largest_mono:
  "ack_chain rs \<Longrightarrow> i \<le> j \<Longrightarrow> j < length rs \<Longrightarrow> Largest (rs ! j) \<le> Largest (rs ! i)"
  using chain_nth [of rs i j] chain_ok [of rs i] by (cases "i = j") auto

lemma AcksPacket_acked:
  assumes chain: "ack_chain (AckRanges f)" and ne: "AckRanges f \<noteq> []"
  shows "AcksPacket f p = Inr (p \<in> acked f)"
proof -
  let ?rs = "AckRanges f" and ?n = "length (AckRanges f)"
  have n: "0 < ?n" using ne by simp
  have lo: "Smallest (?rs ! (?n - 1)) \<le> Smallest r" and hi: "Largest r \<le> Largest (?rs ! 0)"
    if "r \<in> set ?rs" for r
    using that n chain_Smallest_mono [OF chain, of _ "?n - 1"] chain_Largest_mono [OF chain, of 0]
    by (auto simp: in_set_conv_nth)
  show ?thesis
  proof (cases "p < Smallest (?rs ! (?n - 1)) \<or> p > Largest (?rs ! 0)")
    case True
    then have "p \<notin> acked f" using lo hi by (fastforce simp: acked_def)
    with True n show ?thesis by (auto simp: AcksPacket_def LowestAcked_def LargestAcked_def)
  next
    case False
    define i where "i = sort_Search ?n (\<lambda>i. p \<ge> Smallest (?rs ! i))"
    have mono: "p \<ge> Smallest (?rs ! b)" if "a \<le> b" "b < ?n" "p \<ge> Smallest (?rs ! a)" for a b
      using chain_Smallest_mono [OF chain that(1,2)] that(3) by linarith
    have below: "\<not> p \<ge> Smallest (?rs ! k)" if "k < i" for k
      by (rule sort_Search_correct(2) [OF _ that [unfolded i_def]]) (rule mono)
    have above: "p \<ge> Smallest (?rs ! k)" if "i \<le> k" "k < ?n" for k
      by (rule sort_Search_correct(3) [OF _ that(1) [unfolded i_def] that(2)]) (rule mono)
    have "\<not> ?n - 1 < i" using below False by (metis not_less)
    then have i: "i < ?n" using n by linarith
    have "p \<in> acked f \<longleftrightarrow> p \<le> Largest (?rs ! i)"
    proof
      assume "p \<le> Largest (?rs ! i)"
      then show "p \<in> acked f" using above [of i] i by (auto simp: acked_def intro!: bexI [of _ "?rs ! i"])
    next
      assume "p \<in> acked f"
      then obtain k where k: "k < ?n" "Smallest (?rs ! k) \<le> p" "p \<le> Largest (?rs ! k)"
        by (auto simp: acked_def in_set_conv_nth)
      then have "i \<le> k" using below by (metis linorder_not_le)
      then show "p \<le> Largest (?rs ! i)" using chain_Largest_mono [OF chain, of i k] k by linarith
    qed
    then show ?thesis using False n i
      by (auto simp: AcksPacket_def LowestAcked_def LargestAcked_def Let_def simp flip: i_def)
  qed
qed

section \<open>What the parser accepts\<close>

lemma ack_chain_snoc:
  "ack_chain (rs @ [x]) \<longleftrightarrow>
     ack_chain rs \<and> Smallest x \<le> Largest x \<and> (\<forall>a \<in> set rs. Largest x + 1 < Smallest a)"
  by (auto simp: ack_chain_def sorted_wrt_append)

lemma chain_last_least:
  assumes "ack_chain rs" "a \<in> set rs"
  shows "Smallest (last rs) \<le> Smallest a"
proof -
  obtain k where "k < length rs" "a = rs ! k" using assms(2) by (auto simp: in_set_conv_nth)
  moreover from this have "last rs = rs ! (length rs - 1)" by (intro last_conv_nth) auto
  ultimately show ?thesis
    using chain_Smallest_mono [OF assms(1), of k "length rs - 1"] by simp
qed

lemma pn_ok_snoc: "pn_ok (rs @ [x]) \<longleftrightarrow> pn_ok rs \<and> 0 \<le> Smallest x \<and> Largest x < 2 ^ 62"
  by (auto simp: pn_ok_def)

lemma parseAckRanges_sound:
  assumes "parseAckRanges n s acc r = Inr (rs, r')"
    and "acc \<noteq> []" "Smallest (last acc) = s" "ack_chain acc" "pn_ok acc"
  shows "ack_chain rs \<and> pn_ok rs \<and> rs \<noteq> [] \<and> length rs = length acc + n \<and> (\<exists>bs. r = bs @ r')"
  using assms
proof (induction n arbitrary: s acc r)
  case (Suc n)
  from Suc.prems(1) obtain g r1 ab r2 where g: "ReadVarInt r = Inr (g, r1)"
    and gap: "\<not> s < i64 (int64_of g + 2)" and ab: "ReadVarInt r1 = Inr (ab, r2)"
    and blk: "\<not> int64_of ab > i64 (i64 (s - int64_of g) - 2)"
    and rec: "parseAckRanges n (i64 (i64 (i64 (s - int64_of g) - 2) - int64_of ab))
        (acc @ [\<lparr>Smallest = i64 (i64 (i64 (s - int64_of g) - 2) - int64_of ab),
                 Largest = i64 (i64 (s - int64_of g) - 2)\<rparr>]) r2 = Inr (rs, r')"
    by (auto simp: tryE_eq_Inr Let_def split: if_splits)
  have "last acc \<in> set acc" using Suc.prems(2) by simp
  then have "0 \<le> Smallest (last acc)" "Largest (last acc) < 2 ^ 62"
    "Smallest (last acc) \<le> Largest (last acc)"
    using Suc.prems(4,5) by (auto simp: pn_ok_def ack_chain_def)
  then have s: "0 \<le> s" "s < 2 ^ 62" using Suc.prems(3) by auto
  note b = ReadVarInt_int [OF g] ReadVarInt_int [OF ab]
  have gap': "int64_of g + 2 \<le> s" using gap b s by simp
  define L where "L = s - int64_of g - 2"
  have L: "i64 (i64 (s - int64_of g) - 2) = L" "0 \<le> L" "L < s - 1"
    using gap' b s by (simp_all add: L_def)
  define S where "S = L - int64_of ab"
  have S: "i64 (L - int64_of ab) = S" "0 \<le> S" "S \<le> L" using blk b L s by (simp_all add: S_def)
  have rec': "parseAckRanges n S (acc @ [\<lparr>Smallest = S, Largest = L\<rparr>]) r2 = Inr (rs, r')"
    using rec by (simp add: L(1) S(1))
  have "ack_chain (acc @ [\<lparr>Smallest = S, Largest = L\<rparr>])"
    using Suc.prems(3,4) chain_last_least S L by (fastforce simp: ack_chain_snoc)
  moreover have "pn_ok (acc @ [\<lparr>Smallest = S, Largest = L\<rparr>])"
    using Suc.prems(5) S L s by (simp add: pn_ok_snoc)
  ultimately have "ack_chain rs \<and> pn_ok rs \<and> rs \<noteq> [] \<and>
      length rs = length (acc @ [\<lparr>Smallest = S, Largest = L\<rparr>]) + n \<and> (\<exists>bs. r2 = bs @ r')"
    by (intro Suc.IH [OF rec']) simp_all
  then show ?case
    using ReadVarInt_suffix(1) [OF g] ReadVarInt_suffix(1) [OF ab] by fastforce
qed auto

lemma skipVarInts_suffix: "skipVarInts n r = Inr (u, r') \<Longrightarrow> \<exists>bs. r = bs @ r'"
proof (induction n arbitrary: r)
  case (Suc n)
  then obtain v r1 where v: "ReadVarInt r = Inr (v, r1)" and "skipVarInts n r1 = Inr (u, r')"
    by (auto simp: tryE_eq_Inr)
  then show ?case using Suc.IH ReadVarInt_suffix(1) [OF v] by fastforce
qed simp

lemma parseAckDelay_range: "0 \<le> parseAckDelay d e" "parseAckDelay d e < 2 ^ 63"
  using i64_is_i64 [of "int64_of (push_bit (unat e) d) * Microsecond"]
  by (auto simp: parseAckDelay_def InfDuration_def Let_def is_i64_def)

lemma parseAckFrame_sound:
  assumes "parseAckFrame r e = Inr (f, r')"
  shows "ack_chain (AckRanges f) \<and> pn_ok (AckRanges f) \<and> AckRanges f \<noteq> [] \<and>
    0 \<le> DelayTime f \<and> DelayTime f < 2 ^ 63 \<and> (\<exists>bs. bs \<noteq> [] \<and> r = bs @ r')"
proof -
  from assms obtain t r0 la r1 d r2 nb r3 ab r4 rs r5 where
    r: "ReadByte r = Inr (t, r0)" and la: "ReadVarInt r0 = Inr (la, r1)"
    and d: "ReadVarInt r1 = Inr (d, r2)" and nb: "ReadVarInt r2 = Inr (nb, r3)"
    and ab: "ReadVarInt r3 = Inr (ab, r4)" and blk: "\<not> int64_of ab > int64_of la"
    and rs: "parseAckRanges (unat nb) (i64 (int64_of la - int64_of ab))
      [\<lparr>Smallest = i64 (int64_of la - int64_of ab), Largest = int64_of la\<rparr>] r4 = Inr (rs, r5)"
    and f: "f = \<lparr>AckRanges = rs, DelayTime = parseAckDelay d e\<rparr>"
    and sk: "(if t AND 1 > 0 then skipVarInts 3 r5 else Inr ((), r5)) = Inr ((), r')"
    by (auto simp: parseAckFrame_def tryE_eq_Inr Let_def split: if_splits)
  note b = ReadVarInt_int [OF la] ReadVarInt_int [OF ab]
  have "ack_chain rs \<and> pn_ok rs \<and> rs \<noteq> [] \<and> length rs = 1 + unat nb \<and> (\<exists>bs. r4 = bs @ r5)"
    using parseAckRanges_sound [OF rs] b blk by (simp add: ack_chain_def pn_ok_def)
  moreover have "\<exists>bs. r5 = bs @ r'" using sk skipVarInts_suffix by (auto split: if_splits)
  moreover have "r = t # r0" using r by (rule ReadByte_InrD)
  ultimately show ?thesis
    using ReadVarInt_suffix(1) [OF la] ReadVarInt_suffix(1) [OF d] ReadVarInt_suffix(1) [OF nb]
      ReadVarInt_suffix(1) [OF ab] parseAckDelay_range by (auto simp: f)
qed

section \<open>Writing and reading back\<close>

text \<open>The bytes of the ranges after the first, which ends at \<open>s\<close>.\<close>

fun gap_bytes :: "PacketNumber \<Rightarrow> AckRange list \<Rightarrow> byte list" where
  "gap_bytes s [] = []"
| "gap_bytes s (x # xs) =
     varint_bytes (uint64_of (s - Largest x - 2)) @
     varint_bytes (uint64_of (Largest x - Smallest x)) @ gap_bytes (Smallest x) xs"

lemma ack_chain_Cons2:
  assumes "ack_chain (y # x # xs)" "pn_ok (y # x # xs)"
  shows "id_ok (Smallest y - Largest x - 2)" "id_ok (Largest x - Smallest x)"
    "ack_chain (x # xs)" "pn_ok (x # xs)" "Largest x + 1 < Smallest y" "Smallest y < 2 ^ 62"
    "0 \<le> Smallest x" "Smallest x \<le> Largest x"
  using assms by (auto simp: ack_chain_def pn_ok_def id_ok_def)

lemma parseAckRanges_gap_bytes:
  assumes "ack_chain (y # xs)" "pn_ok (y # xs)"
  shows "parseAckRanges (length xs) (Smallest y) acc (gap_bytes (Smallest y) xs @ r) = Inr (acc @ xs, r)"
  using assms
proof (induction xs arbitrary: y acc)
  case (Cons x xs)
  note c = ack_chain_Cons2 [OF Cons.prems]
  have "i64 (i64 (Smallest y - (Smallest y - Largest x - 2)) - 2) = Largest x"
    "i64 (Largest x - (Largest x - Smallest x)) = Smallest x"
    "i64 (Smallest y - Largest x - 2 + 2) = Smallest y - Largest x"
    using c by simp_all
  then show ?case
    using c Cons.IH [OF c(3,4)] by (simp add: codec_simps id_ok_varint Let_def)
qed simp

lemma encodeAckRange_nth:
  assumes "ack_chain (AckRanges f)" "pn_ok (AckRanges f)" "0 < i" "i < length (AckRanges f)"
  shows "encodeAckRange f i =
      Inr (uint64_of (Smallest (AckRanges f ! (i - 1)) - Largest (AckRanges f ! i) - 2),
           uint64_of (Largest (AckRanges f ! i) - Smallest (AckRanges f ! i)))"
    and "id_ok (Smallest (AckRanges f ! (i - 1)) - Largest (AckRanges f ! i) - 2)"
    and "id_ok (Largest (AckRanges f ! i) - Smallest (AckRanges f ! i))"
proof -
  let ?a = "AckRanges f ! (i - 1)" and ?b = "AckRanges f ! i"
  have "Largest ?b + 1 < Smallest ?a" "Smallest ?b \<le> Largest ?b" "Smallest ?a \<le> Largest ?a"
    using assms chain_nth [OF assms(1), of "i - 1" i] chain_ok [OF assms(1)] by simp_all
  moreover have "0 \<le> Smallest ?b" "Largest ?a < 2 ^ 62" using assms by (simp_all add: pn_ok_def)
  ultimately show "encodeAckRange f i =
      Inr (uint64_of (Smallest ?a - Largest ?b - 2), uint64_of (Largest ?b - Smallest ?b))"
    and "id_ok (Smallest ?a - Largest ?b - 2)" and "id_ok (Largest ?b - Smallest ?b)"
    using assms by (simp_all add: encodeAckRange_def id_ok_def)
qed

lemma take_drop_step: "i < n \<Longrightarrow> n \<le> length rs \<Longrightarrow>
    take (n - i) (drop i rs) = rs ! i # take (n - (i + 1)) (drop (i + 1) rs)"
  by (metis Suc_diff_Suc Suc_eq_plus1 Cons_nth_drop_Suc less_le_trans take_Suc_Cons)

lemma AckFrame_Write_loop_eq:
  assumes "ack_chain (AckRanges f)" "pn_ok (AckRanges f)" "0 < i" "n \<le> length (AckRanges f)"
  shows "AckFrame_Write_loop f i n b =
    Inr (b @ gap_bytes (Smallest (AckRanges f ! (i - 1))) (take (n - i) (drop i (AckRanges f))))"
  using assms(3)
proof (induction "n - i" arbitrary: i b)
  case 0
  then show ?case by (subst AckFrame_Write_loop.simps) simp
next
  case (Suc k)
  then have i: "i < n" by simp
  note e = encodeAckRange_nth [OF assms(1,2) Suc.prems less_le_trans [OF i assms(4)]]
  show ?case
    using Suc.hyps(2) Suc.prems Suc.hyps(1) [of "i + 1"] i e
    by (subst AckFrame_Write_loop.simps)
      (simp add: codec_simps id_ok_varint take_drop_step [OF i assms(4)])
qed

lemma AckFrame_Length_loop_eq:
  assumes "ack_chain (AckRanges f)" "pn_ok (AckRanges f)" "0 < i" "n \<le> length (AckRanges f)"
  shows "AckFrame_Length_loop f i n len = Inr (len + word_of_nat (length
    (gap_bytes (Smallest (AckRanges f ! (i - 1))) (take (n - i) (drop i (AckRanges f))))))"
  using assms(3)
proof (induction "n - i" arbitrary: i len)
  case 0
  then show ?case by (subst AckFrame_Length_loop.simps) simp
next
  case (Suc k)
  then have i: "i < n" by simp
  note e = encodeAckRange_nth [OF assms(1,2) Suc.prems less_le_trans [OF i assms(4)]]
  show ?case
    using Suc.hyps(2) Suc.prems Suc.hyps(1) [of "i + 1"] i e
    by (subst AckFrame_Length_loop.simps)
      (simp add: VarIntLen_varint_bytes id_ok_varint take_drop_step [OF i assms(4)])
qed

lemma numEncodable_loop_eq:
  assumes "ack_chain (AckRanges f)" "pn_ok (AckRanges f)" "0 < i" "i \<le> length (AckRanges f)"
    and "unat len \<le> 1000"
  shows "\<exists>n. numEncodableAckRanges_loop f i len = Inr n \<and> i - 1 \<le> n \<and> n \<le> length (AckRanges f) \<and>
    (unat len \<le> 984 \<longrightarrow> i \<le> n) \<and>
    unat len + length (gap_bytes (Smallest (AckRanges f ! (i - 1)))
      (take (n - i) (drop i (AckRanges f)))) \<le> 1000"
  using assms(3-5)
proof (induction "length (AckRanges f) - i" arbitrary: i len)
  case 0
  then show ?case by (subst numEncodableAckRanges_loop.simps) auto
next
  case (Suc k)
  let ?rs = "AckRanges f"
  have i: "i < length ?rs" using Suc.hyps(2) by simp
  note e = encodeAckRange_nth [OF assms(1,2) Suc.prems(1) i]
  define g where "g = uint64_of (Smallest (?rs ! (i - 1)) - Largest (?rs ! i) - 2)"
  define l where "l = uint64_of (Largest (?rs ! i) - Smallest (?rs ! i))"
  have gl: "g \<le> maxVarInt8" "l \<le> maxVarInt8" using e by (simp_all add: g_def l_def id_ok_varint)
  define m where "m = length (varint_bytes g) + length (varint_bytes l)"
  have m: "m \<le> 16" using length_varint_bytes [OF gl(1)] length_varint_bytes [OF gl(2)] by (simp add: m_def)
  have len': "unat (len + word_of_nat m) = unat len + m"
    using Suc.prems(3) m by (simp add: unat_word_ariths unat_word_of_nat_id)
  have enc: "encodeAckRange f i = Inr (g, l)" using e(1) by (simp only: g_def l_def)
  have step: "numEncodableAckRanges_loop f i len =
      (if unat len + m > 1000 then Inr (i - 1) else numEncodableAckRanges_loop f (i + 1) (len + word_of_nat m))"
    using i gl len'
    by (subst numEncodableAckRanges_loop.simps)
      (simp add: enc VarIntLen_varint_bytes MaxAckFrameSize_def word_less_nat_alt m_def add.assoc
        flip: of_nat_add)
  show ?case
  proof (cases "unat len + m > 1000")
    case True
    then show ?thesis using step m i Suc.prems by simp
  next
    case False
    have "k = length ?rs - (i + 1)" using Suc.hyps(2) by simp
    from Suc.hyps(1) [OF this, of "len + word_of_nat m"] False
    obtain n where n: "numEncodableAckRanges_loop f (i + 1) (len + word_of_nat m) = Inr n"
      "i \<le> n" "n \<le> length ?rs"
      "unat len + m + length (gap_bytes (Smallest (?rs ! i)) (take (n - (i + 1)) (drop (i + 1) ?rs))) \<le> 1000"
      using i len' by auto
    show ?thesis
    proof (cases "i < n")
      case True
      then have "length (gap_bytes (Smallest (?rs ! (i - 1))) (take (n - i) (drop i ?rs))) =
          m + length (gap_bytes (Smallest (?rs ! i)) (take (n - (i + 1)) (drop (i + 1) ?rs)))"
        using n(3) by (simp add: take_drop_step m_def g_def l_def)
      with n False step show ?thesis by auto
    next
      case False
      with n \<open>\<not> unat len + m > 1000\<close> step Suc.prems(3) show ?thesis by auto
    qed
  qed
qed

lemma length_gap_bytes: "ack_chain (y # xs) \<Longrightarrow> pn_ok (y # xs) \<Longrightarrow> 2 * length xs \<le> length (gap_bytes (Smallest y) xs)"
proof (induction xs arbitrary: y)
  case (Cons x xs)
  note c = ack_chain_Cons2 [OF Cons.prems]
  have "1 \<le> length (varint_bytes (uint64_of (Smallest y - Largest x - 2)))"
    "1 \<le> length (varint_bytes (uint64_of (Largest x - Smallest x)))"
    using c(1,2) length_varint_bytes id_ok_varint by blast+
  then show ?case using Cons.IH [OF c(3,4)] by simp
qed simp

lemma ack_delay_roundtrip:
  assumes "0 \<le> d" "d < 2 ^ 63"
  shows "encodeAckDelay d \<le> maxVarInt8"
    and "parseAckDelay (encodeAckDelay d) 3 = d div 8000 * 8000"
proof -
  let ?q = "d div 8000"
  have q: "0 \<le> ?q" "?q \<le> 2 ^ 63 div 8000" using assms by (auto intro: zdiv_mono1)
  have e: "encodeAckDelay d = uint64_of ?q"
    using assms by (simp add: encodeAckDelay_def AckDelayExponent_def signed_divide_int_def sgn_if)
  then show "encodeAckDelay d \<le> maxVarInt8" using q by (simp add: id_ok_varint id_ok_def)
  have "push_bit 3 (uint64_of ?q) = uint64_of (?q * 8)"
    by (simp add: uint64_of_def push_bit_eq_mult)
  moreover have "?q * 8 * 1000 \<le> d" by simp
  ultimately show "parseAckDelay (encodeAckDelay d) 3 = d div 8000 * 8000"
    using assms q by (simp add: e parseAckDelay_def Microsecond_def)
qed

lemma numEncodableAckRanges_ok:
  assumes "ack_chain (AckRanges f)" "pn_ok (AckRanges f)" "AckRanges f \<noteq> []"
    and "0 \<le> DelayTime f" "DelayTime f < 2 ^ 63"
  obtains n where "numEncodableAckRanges f = Inr n" "1 \<le> n" "n \<le> length (AckRanges f)"
    "3 + length (varint_bytes (uint64_of (Largest (hd (AckRanges f))))) +
       length (varint_bytes (encodeAckDelay (DelayTime f))) +
       length (gap_bytes (Smallest (hd (AckRanges f))) (take (n - 1) (tl (AckRanges f)))) \<le> 1000"
proof -
  let ?rs = "AckRanges f"
  let ?a = "varint_bytes (uint64_of (Largest (hd ?rs)))" and ?d = "varint_bytes (encodeAckDelay (DelayTime f))"
  have hd0: "?rs ! 0 = hd ?rs" using assms(3) by (simp add: hd_conv_nth)
  have "hd ?rs \<in> set ?rs" using assms(3) by simp
  then have la: "id_ok (Largest (hd ?rs))" using assms(1,2) by (force simp: id_ok_def pn_ok_def ack_chain_def)
  note dl = ack_delay_roundtrip [OF assms(4,5)]
  define len :: u64 where "len = word_of_nat (3 + length ?a + length ?d)"
  have le: "length ?a \<le> 8" "length ?d \<le> 8" using length_varint_bytes dl la id_ok_varint by blast+
  then have len: "unat len = 3 + length ?a + length ?d" unfolding len_def by (intro unat_word_of_nat_id) simp
  then obtain n where n: "numEncodableAckRanges_loop f 1 len = Inr n" "1 \<le> n" "n \<le> length ?rs"
    "unat len + length (gap_bytes (Smallest (?rs ! 0)) (take (n - 1) (drop 1 ?rs))) \<le> 1000"
    using numEncodable_loop_eq [OF assms(1,2), of 1 len] le assms(3)
    by (auto simp: Suc_le_eq)
  have "numEncodableAckRanges f = numEncodableAckRanges_loop f 1 len"
    using assms(3) la dl
    by (simp add: numEncodableAckRanges_def LargestAcked_def hd0 VarIntLen_varint_bytes id_ok_varint len_def algebra_simps)
  with n len that show thesis by (simp add: hd0 drop_Suc)
qed

text \<open>The bytes of a frame whose first range is \<open>y\<close> and which goes on with the ranges \<open>xs\<close>.\<close>

definition ack_bytes :: "AckRange \<Rightarrow> AckRange list \<Rightarrow> Duration \<Rightarrow> byte list" where
  "ack_bytes y xs d = 0x2 # varint_bytes (uint64_of (Largest y)) @ varint_bytes (encodeAckDelay d) @
    varint_bytes (uint64_of (int (length xs))) @ varint_bytes (uint64_of (Largest y - Smallest y)) @
    gap_bytes (Smallest y) xs"

lemma first_range_ok:
  assumes "ack_chain (y # xs)" "pn_ok (y # xs)"
  shows "id_ok (Largest y)" "id_ok (Largest y - Smallest y)" "i64 (Largest y - Smallest y) = Largest y - Smallest y"
    "i64 (Largest y - (Largest y - Smallest y)) = Smallest y" "0 \<le> Smallest y" "Smallest y \<le> Largest y"
  using assms by (auto simp: ack_chain_def pn_ok_def id_ok_def)

lemma parseAckFrame_ack_bytes:
  assumes "ack_chain (y # xs)" "pn_ok (y # xs)" "0 \<le> d" "d < 2 ^ 63" "id_ok (int (length xs))"
  shows "parseAckFrame (ack_bytes y xs d @ r) 3 =
    Inr (\<lparr>AckRanges = y # xs, DelayTime = d div 8000 * 8000\<rparr>, r)"
proof -
  note f = first_range_ok [OF assms(1,2)]
  have "unat (uint64_of (int (length xs))) = length xs"
    using assms(5) by (simp add: unat_uint64_of id_ok_def)
  moreover have "validateAckRanges \<lparr>AckRanges = y # xs, DelayTime = d div 8000 * 8000\<rparr>"
    using assms(1,2) by (simp add: validateAckRanges_iff)
  moreover have "parseAckRanges (length xs) (Smallest y) [\<lparr>Smallest = Smallest y, Largest = Largest y\<rparr>]
      (gap_bytes (Smallest y) xs @ r) = Inr (y # xs, r)"
    using parseAckRanges_gap_bytes [OF assms(1,2), of "[y]"] by (cases y) simp
  ultimately show ?thesis
    using f ack_delay_roundtrip [OF assms(3,4)] assms(5)
    by (simp add: parseAckFrame_def ack_bytes_def codec_simps id_ok_varint Let_def)
qed

lemma AckFrame_Write_ack_bytes:
  assumes "ack_chain (AckRanges f)" "pn_ok (AckRanges f)" "AckRanges f = y # xs"
    and "0 \<le> DelayTime f" "DelayTime f < 2 ^ 63"
    and "numEncodableAckRanges f = Inr n" "1 \<le> n" "n \<le> length (AckRanges f)" "id_ok (int (n - 1))"
  shows "AckFrame_Write b f = Inr (b @ ack_bytes y (take (n - 1) xs) (DelayTime f))"
    and "AckFrame_Length f = Inr (word_of_nat (length (ack_bytes y (take (n - 1) xs) (DelayTime f))))"
proof -
  note f = first_range_ok [OF assms(1,2) [unfolded assms(3)]] and d = ack_delay_roundtrip [OF assms(4,5)]
  have n: "int n - 1 = int (n - 1)" "min (length xs) (n - Suc 0) = n - 1" using assms(3,7,8) by auto
  have enc: "encodeAckRange f 0 = Inr (0, uint64_of (Largest y - Smallest y))"
    using assms(3) f by (simp add: encodeAckRange_def)
  show "AckFrame_Write b f = Inr (b @ ack_bytes y (take (n - 1) xs) (DelayTime f))"
    using assms(3) f d AckFrame_Write_loop_eq [OF assms(1,2) _ assms(8), of 1] enc assms(9)
    by (simp add: AckFrame_Write_def LargestAcked_def codec_simps id_ok_varint assms(6) ack_bytes_def n)
  show "AckFrame_Length f = Inr (word_of_nat (length (ack_bytes y (take (n - 1) xs) (DelayTime f))))"
    using assms(3) f d AckFrame_Length_loop_eq [OF assms(1,2) _ assms(8), of 1] assms(9)
    by (simp add: AckFrame_Length_def VarIntLen_varint_bytes id_ok_varint assms(6) ack_bytes_def n Let_def ac_simps)
qed

lemma length_varint_bytes_2: "unat i < 2 ^ 14 \<Longrightarrow> length (varint_bytes i) \<le> 2"
  by (simp add: varint_unfold)

lemma ack_prefix:
  "ack_chain (y # xs) \<Longrightarrow> ack_chain (y # take n xs)" "pn_ok (y # xs) \<Longrightarrow> pn_ok (y # take n xs)"
  by (auto simp: ack_chain_def pn_ok_def dest: in_set_takeD intro: sorted_wrt_take)

text \<open>The frames that are written as a whole.\<close>

definition wf_AckFrame :: "AckFrame \<Rightarrow> bool" where
  "wf_AckFrame f \<longleftrightarrow> validateAckRanges f \<and> pn_ok (AckRanges f) \<and> 0 \<le> DelayTime f \<and> DelayTime f < 2 ^ 63 \<and>
     8000 dvd DelayTime f \<and> numEncodableAckRanges f = Inr (length (AckRanges f))"

lemma wf_AckFrame_cases:
  assumes "wf_AckFrame f"
  obtains y xs where "AckRanges f = y # xs" "ack_chain (y # xs)" "pn_ok (y # xs)" "length xs \<le> 500"
    "DelayTime f div 8000 * 8000 = DelayTime f"
proof -
  let ?rs = "AckRanges f"
  have w: "validateAckRanges f" "pn_ok ?rs" "0 \<le> DelayTime f" "DelayTime f < 2 ^ 63" "8000 dvd DelayTime f"
    "numEncodableAckRanges f = Inr (length ?rs)" using assms by (auto simp: wf_AckFrame_def)
  have rs: "?rs \<noteq> []" "ack_chain ?rs" using w by (simp_all add: validateAckRanges_iff)
  then obtain y xs where y: "?rs = y # xs" by (cases ?rs) auto
  obtain n where n: "numEncodableAckRanges f = Inr n"
    "3 + length (varint_bytes (uint64_of (Largest y))) + length (varint_bytes (encodeAckDelay (DelayTime f))) +
       length (gap_bytes (Smallest y) (take (n - 1) xs)) \<le> 1000"
    using numEncodableAckRanges_ok [OF rs(2) w(2) rs(1) w(3,4)] y by (metis list.sel(1,3))
  then have "length (gap_bytes (Smallest y) xs) \<le> 1000" using w(6) y by simp
  then have "length xs \<le> 500" using length_gap_bytes [of y xs] rs(2) w(2) y by simp
  then show thesis using that y rs(2) w(2,5) by simp
qed

lemma wf_AckFrame_bytes:
  assumes w: "wf_AckFrame f"
  shows "AckFrame_Write b f = Inr (b @ ack_bytes (hd (AckRanges f)) (tl (AckRanges f)) (DelayTime f))"
    and "AckFrame_Length f = Inr (word_of_nat (length (ack_bytes (hd (AckRanges f)) (tl (AckRanges f)) (DelayTime f))))"
    and "parseAckFrame (ack_bytes (hd (AckRanges f)) (tl (AckRanges f)) (DelayTime f) @ r) 3 = Inr (f, r)"
proof -
  from w obtain y xs where y: "AckRanges f = y # xs" "ack_chain (y # xs)" "pn_ok (y # xs)" "length xs \<le> 500"
    "DelayTime f div 8000 * 8000 = DelayTime f" by (rule wf_AckFrame_cases)
  have d: "0 \<le> DelayTime f" "DelayTime f < 2 ^ 63" "numEncodableAckRanges f = Inr (Suc (length xs))"
    using w y(1) by (simp_all add: wf_AckFrame_def)
  have few: "id_ok (int (length xs))" using y(4) by (simp add: id_ok_def)
  show "AckFrame_Write b f = Inr (b @ ack_bytes (hd (AckRanges f)) (tl (AckRanges f)) (DelayTime f))"
    "AckFrame_Length f = Inr (word_of_nat (length (ack_bytes (hd (AckRanges f)) (tl (AckRanges f)) (DelayTime f))))"
    using AckFrame_Write_ack_bytes [of f y xs "Suc (length xs)"] y d few by simp_all
  have "\<lparr>AckRanges = y # xs, DelayTime = DelayTime f\<rparr> = f" using y(1) by (cases f) simp
  then show "parseAckFrame (ack_bytes (hd (AckRanges f)) (tl (AckRanges f)) (DelayTime f) @ r) 3 = Inr (f, r)"
    using parseAckFrame_ack_bytes [OF y(2,3) d(1,2) few, of r] y by simp
qed

interpretation ack: frame_codec AckFrame_Write AckFrame_Length "\<lambda>r. parseAckFrame r 3" wf_AckFrame
  by (rule frame_codecI [where bytes = "\<lambda>f. ack_bytes (hd (AckRanges f)) (tl (AckRanges f)) (DelayTime f)"])
    (simp_all add: wf_AckFrame_bytes, simp add: ack_bytes_def)

text \<open>C14. Writing a valid ACK frame succeeds, \<open>Length\<close> is the number of bytes written, at most eight
  more than \<open>MaxAckFrameSize\<close>, and parsing those bytes with the exponent 3 of the sender gives the
  delay in whole units of 8 microseconds and the most recent ranges of the frame, never none.\<close>

theorem ack_frame_roundtrip:
  assumes "validateAckRanges f" "pn_ok (AckRanges f)" "0 \<le> DelayTime f" "DelayTime f < 2 ^ 63"
  shows "\<exists>bs n. AckFrame_Write b f = Inr (b @ bs) \<and> AckFrame_Length f = Inr (word_of_nat (length bs)) \<and>
    length bs \<le> 1008 \<and> 1 \<le> n \<and> n \<le> length (AckRanges f) \<and>
    parseAckFrame (bs @ r) 3 =
      Inr (\<lparr>AckRanges = take n (AckRanges f), DelayTime = DelayTime f div 8000 * 8000\<rparr>, r)"
proof -
  let ?rs = "AckRanges f" and ?d = "DelayTime f"
  have rs: "?rs \<noteq> []" "ack_chain ?rs" using assms(1,2) by (simp_all add: validateAckRanges_iff)
  then obtain y xs where y: "?rs = y # xs" by (cases ?rs) auto
  obtain n where n: "numEncodableAckRanges f = Inr n" "1 \<le> n" "n \<le> length ?rs"
    "3 + length (varint_bytes (uint64_of (Largest y))) + length (varint_bytes (encodeAckDelay ?d)) +
       length (gap_bytes (Smallest y) (take (n - 1) xs)) \<le> 1000"
    using numEncodableAckRanges_ok [OF rs(2) assms(2) rs(1) assms(3,4)] y by (metis list.sel(1,3))
  let ?xs = "take (n - 1) xs"
  have sub: "ack_chain (y # ?xs)" "pn_ok (y # ?xs)" using rs(2) assms(2) y ack_prefix by auto
  have nx: "length ?xs = n - 1" "take n ?rs = y # ?xs" using n(2,3) y by (auto simp: take_Cons')
  have n500: "n - 1 \<le> 500" using length_gap_bytes [OF sub] n(4) nx by simp
  then have n': "id_ok (int (n - 1))" by (auto simp: id_ok_def)
  have "length (varint_bytes (uint64_of (int (n - 1)))) \<le> 2"
    using n500 by (intro length_varint_bytes_2) (simp add: unat_uint64_of)
  moreover have "length (varint_bytes (uint64_of (Largest y - Smallest y))) \<le> 8"
    using first_range_ok(2) [OF sub] length_varint_bytes(2) id_ok_varint by blast
  ultimately have "length (ack_bytes y ?xs ?d) \<le> 1008" using n(4) nx by (simp add: ack_bytes_def)
  then show ?thesis
    using AckFrame_Write_ack_bytes [OF rs(2) assms(2) y assms(3,4) n(1-3) n'] n nx
      parseAckFrame_ack_bytes [OF sub assms(3,4)] n' by auto
qed

theorem ack_frame_roundtrip_witness:
  "\<exists>bs n. AckFrame_Write [7] \<lparr>AckRanges = [\<lparr>Smallest = 5, Largest = 9\<rparr>, \<lparr>Smallest = 1, Largest = 3\<rparr>], DelayTime = 16123\<rparr>
        = Inr ([7] @ bs) \<and>
     AckFrame_Length \<lparr>AckRanges = [\<lparr>Smallest = 5, Largest = 9\<rparr>, \<lparr>Smallest = 1, Largest = 3\<rparr>], DelayTime = 16123\<rparr>
        = Inr (word_of_nat (length bs)) \<and> length bs \<le> 1008 \<and> 1 \<le> n \<and> n \<le> 2 \<and>
     parseAckFrame (bs @ [4]) 3 =
       Inr (\<lparr>AckRanges = take n [\<lparr>Smallest = 5, Largest = 9\<rparr>, \<lparr>Smallest = 1, Largest = 3\<rparr>], DelayTime = 16000\<rparr>, [4])"
  using ack_frame_roundtrip [of "\<lparr>AckRanges = [\<lparr>Smallest = 5, Largest = 9\<rparr>, \<lparr>Smallest = 1, Largest = 3\<rparr>], DelayTime = 16123\<rparr>" "[7]" "[4]"]
  by (simp add: validateAckRanges_def pn_ok_def numeral_2_eq_2)

text \<open>On a frame whose ranges are valid, the binary search of \<open>AcksPacket\<close> answers without a
  panic and answers exactly whether the packet lies in one of the ranges.\<close>

theorem AcksPacket_correct:
  assumes "validateAckRanges f" "pn_ok (AckRanges f)"
  shows "AcksPacket f p = Inr (p \<in> acked f)"
  using assms by (simp add: AcksPacket_acked validateAckRanges_iff)

theorem AcksPacket_correct_witness:
  "AcksPacket \<lparr>AckRanges = [\<lparr>Smallest = 5, Largest = 9\<rparr>, \<lparr>Smallest = 1, Largest = 3\<rparr>], DelayTime = 0\<rparr> 4 = Inr False"
  using AcksPacket_correct [of "\<lparr>AckRanges = [\<lparr>Smallest = 5, Largest = 9\<rparr>, \<lparr>Smallest = 1, Largest = 3\<rparr>], DelayTime = 0\<rparr>" 4]
  by (simp add: validateAckRanges_def pn_ok_def acked_def)

text \<open>C15. Every ACK frame the parser accepts has at least one range, its ranges are non-empty,
  disjoint, separated by at least one missing packet and in descending order, all its packet
  numbers lie in \<open>[0, 2^62)\<close>, its delay is not negative, and the parser consumed a non-empty prefix
  of its input.\<close>

theorem parseAckFrame_valid:
  assumes "parseAckFrame r e = Inr (f, r')"
  shows "AckRanges f \<noteq> [] \<and> (\<forall>x \<in> set (AckRanges f). 0 \<le> Smallest x \<and> Smallest x \<le> Largest x \<and> Largest x < 2 ^ 62) \<and>
    (\<forall>i j. i < j \<longrightarrow> j < length (AckRanges f) \<longrightarrow> Largest (AckRanges f ! j) + 1 < Smallest (AckRanges f ! i)) \<and>
    0 \<le> DelayTime f \<and> (\<exists>bs. bs \<noteq> [] \<and> r = bs @ r')"
  using parseAckFrame_sound [OF assms] chain_nth
  by (auto simp: ack_chain_def pn_ok_def)

theorem parseAckFrame_valid_witness:
  "\<exists>f. parseAckFrame [0x2, 9, 0, 1, 4, 0, 2] 3 = Inr (f, []) \<and>
     AckRanges f = [\<lparr>Smallest = 5, Largest = 9\<rparr>, \<lparr>Smallest = 1, Largest = 3\<rparr>] \<and>
     0 \<le> DelayTime f \<and> (\<exists>bs. bs \<noteq> [] \<and> [0x2, 9, 0, 1, 4, 0, 2 :: byte] = bs @ [])"
proof -
  let ?f = "\<lparr>AckRanges = [\<lparr>Smallest = 5, Largest = 9\<rparr>, \<lparr>Smallest = 1, Largest = 3\<rparr>], DelayTime = 0\<rparr>"
  have p: "parseAckFrame [0x2, 9, 0, 1, 4, 0, 2] 3 = Inr (?f, [])"
    by (simp add: parseAckFrame_def ReadVarInt_def int64_of_def validateAckRanges_def parseAckDelay_def Microsecond_def)
  then show ?thesis using parseAckFrame_valid [OF p] by simp
qed

text \<open>The comment in \<open>parseAckFrame\<close> says that an overflow of the delay is set to the maximum
  duration, but the check only catches the overflows that end up negative: a delay of \<open>2^61\<close>
  units, which the peer may send, is decoded as no delay at all with the default exponent.\<close>

theorem ack_delay_overflow_is_zero:
  "\<exists>f. parseAckFrame ([0x2, 9] @ varint_bytes (2 ^ 61) @ [0, 4]) 3 = Inr (f, []) \<and> DelayTime f = 0 \<and>
     InfDuration > 0"
proof -
  have "(2 :: u64) ^ 61 \<le> maxVarInt8" by (simp add: maxVarInt8_def)
  then have d: "ReadVarInt (varint_bytes (2 ^ 61) @ r) = Inr (2 ^ 61, r)" for r by (rule ReadVarInt_varint_bytes)
  have v: "ReadVarInt (9 # r) = Inr (9, r)" "ReadVarInt (0 # r) = Inr (0, r)" "ReadVarInt (4 # r) = Inr (4, r)" for r
    by (simp_all add: ReadVarInt_def)
  have z: "parseAckDelay (2 ^ 61) 3 = 0" by (simp add: parseAckDelay_def Microsecond_def int64_of_def)
  have "i64 5 = 5" by simp
  then show ?thesis
    using d [of "[0, 4]"]
    by (simp add: parseAckFrame_def v z int64_of_def validateAckRanges_def InfDuration_def Let_def del: power_numeral)
qed

end
