(* ===== verification/ReceivedHistory.thy ===== *)
theory ReceivedHistory
  imports WireAck
begin

text \<open>
  The history of received packets: \<open>received_packet_history.go\<close>. The list of intervals is kept in
  the order of the linked list, lowest first; the loops that start at the back work on the reversed
  list. The lemmas show that the history is always a sorted list of disjoint, non-adjacent
  intervals, that its operations are the operations on the set of packet numbers it stands for, and
  that the ranges it hands out make a valid ACK frame.
\<close>

section \<open>The history\<close>

record PacketInterval =
  Start :: PacketNumber
  End :: PacketNumber

record receivedPacketHistory =
  ranges :: "PacketInterval list"
  deletedBelow :: PacketNumber

definition MaxNumAckRanges :: nat where "MaxNumAckRanges = 500"

definition newReceivedPacketHistory :: receivedPacketHistory where
  "newReceivedPacketHistory = \<lparr>ranges = [], deletedBelow = 0\<rparr>"

text \<open>After a range was extended: merge it with its predecessor if they touch.\<close>

fun mergeWithPrev :: "PacketInterval \<Rightarrow> PacketInterval list \<Rightarrow> PacketInterval list" where
  "mergeWithPrev el [] = [el]"
| "mergeWithPrev el (prev # rest) =
    (if i64 (End prev + 1) = Start el then prev\<lparr>End := End el\<rparr> # rest else el # prev # rest)"

fun addToRanges_loop :: "PacketNumber \<Rightarrow> PacketInterval list \<Rightarrow> PacketInterval list" where
  "addToRanges_loop p [] = [\<lparr>Start = p, End = p\<rparr>]"
| "addToRanges_loop p (el # rest) =
    (if p \<ge> Start el \<and> p \<le> End el then el # rest
     else if End el = i64 (p - 1) then mergeWithPrev (el\<lparr>End := p\<rparr>) rest
     else if Start el = i64 (p + 1) then mergeWithPrev (el\<lparr>Start := p\<rparr>) rest
     else if p > End el then \<lparr>Start = p, End = p\<rparr> # el # rest
     else el # addToRanges_loop p rest)"

definition addToRanges :: "receivedPacketHistory \<Rightarrow> PacketNumber \<Rightarrow> receivedPacketHistory" where
  "addToRanges h p =
    (if length (ranges h) = 0 then h\<lparr>ranges := [\<lparr>Start = p, End = p\<rparr>]\<rparr>
     else h\<lparr>ranges := rev (addToRanges_loop p (rev (ranges h)))\<rparr>)"

fun maybeDeleteOldRanges_loop :: "PacketInterval list \<Rightarrow> PacketInterval list" where
  "maybeDeleteOldRanges_loop [] = []"
| "maybeDeleteOldRanges_loop (el # rest) =
    (if length (el # rest) > MaxNumAckRanges then maybeDeleteOldRanges_loop rest else el # rest)"

definition maybeDeleteOldRanges :: "receivedPacketHistory \<Rightarrow> receivedPacketHistory" where
  "maybeDeleteOldRanges h = h\<lparr>ranges := maybeDeleteOldRanges_loop (ranges h)\<rparr>"

definition history_ReceivedPacket :: "receivedPacketHistory \<Rightarrow> PacketNumber \<Rightarrow> receivedPacketHistory" where
  "history_ReceivedPacket h p =
    (if p < deletedBelow h then h else maybeDeleteOldRanges (addToRanges h p))"

fun DeleteBelow_loop :: "PacketNumber \<Rightarrow> PacketInterval list \<Rightarrow> PacketInterval list" where
  "DeleteBelow_loop p [] = []"
| "DeleteBelow_loop p (el # rest) =
    (if End el < p then DeleteBelow_loop p rest
     else if p > Start el \<and> p \<le> End el then el\<lparr>Start := p\<rparr> # rest
     else el # rest)"

definition DeleteBelow :: "receivedPacketHistory \<Rightarrow> PacketNumber \<Rightarrow> receivedPacketHistory" where
  "DeleteBelow h p =
    (if p < deletedBelow h then h
     else let h = h\<lparr>deletedBelow := p\<rparr> in h\<lparr>ranges := DeleteBelow_loop p (ranges h)\<rparr>)"

definition GetAckRanges :: "receivedPacketHistory \<Rightarrow> AckRange list" where
  "GetAckRanges h = map (\<lambda>el. \<lparr>Smallest = Start el, Largest = End el\<rparr>) (rev (ranges h))"

definition GetHighestAckRange :: "receivedPacketHistory \<Rightarrow> AckRange" where
  "GetHighestAckRange h =
    (if length (ranges h) > 0
     then let r = last (ranges h) in \<lparr>Smallest = Start r, Largest = End r\<rparr>
     else \<lparr>Smallest = 0, Largest = 0\<rparr>)"

section \<open>The set of packet numbers behind it\<close>

definition interval :: "PacketInterval \<Rightarrow> PacketNumber set" where
  "interval el = {Start el..End el}"

definition packets :: "PacketInterval list \<Rightarrow> PacketNumber set" where
  "packets xs = \<Union> (interval ` set xs)"

text \<open>Intervals from the back: descending, disjoint and not adjacent.\<close>

definition descending :: "PacketInterval list \<Rightarrow> bool" where
  "descending xs \<longleftrightarrow> sorted_wrt (\<lambda>a b. End b + 1 < Start a) xs \<and>
     (\<forall>el \<in> set xs. 0 \<le> Start el \<and> Start el \<le> End el \<and> End el < 2 ^ 62)"

definition history_ok :: "receivedPacketHistory \<Rightarrow> bool" where
  "history_ok h \<longleftrightarrow> descending (rev (ranges h)) \<and> length (ranges h) \<le> 500 \<and>
     (\<forall>x \<in> packets (ranges h). deletedBelow h \<le> x)"

lemma packets_simps [simp]:
  "packets [] = {}" "packets (el # xs) = interval el \<union> packets xs" "packets (xs @ ys) = packets xs \<union> packets ys"
  "packets (rev xs) = packets xs"
  by (auto simp: packets_def)

lemma descending_Nil [simp]: "descending []"
  by (simp add: descending_def)

lemma descending_Cons: "descending (el # xs) \<longleftrightarrow>
    0 \<le> Start el \<and> Start el \<le> End el \<and> End el < 2 ^ 62 \<and> (\<forall>x \<in> set xs. End x + 1 < Start el) \<and> descending xs"
  by (auto simp: descending_def)

lemma descending_append: "descending (xs @ ys) \<longleftrightarrow>
    descending xs \<and> descending ys \<and> (\<forall>x \<in> set xs. \<forall>y \<in> set ys. End y + 1 < Start x)"
  by (auto simp: descending_def sorted_wrt_append)

lemma mergeWithPrev_correct:
  assumes "0 \<le> Start el" "Start el \<le> End el" "End el < 2 ^ 62" "descending xs" "\<forall>x \<in> set xs. End x < Start el"
  shows "descending (mergeWithPrev el xs) \<and> packets (mergeWithPrev el xs) = interval el \<union> packets xs \<and>
    length (mergeWithPrev el xs) \<le> Suc (length xs) \<and>
    (\<forall>y \<in> set (mergeWithPrev el xs). End y \<le> End el)"
proof (cases xs)
  case Nil
  then show ?thesis using assms by (simp add: descending_Cons)
next
  case (Cons prev rest)
  have p: "0 \<le> Start prev" "Start prev \<le> End prev" "End prev < 2 ^ 62" "End prev < Start el" "descending rest"
    "\<forall>x \<in> set rest. End x + 1 < Start prev"
    using assms(4,5) by (auto simp: Cons descending_Cons)
  have i: "i64 (End prev + 1) = End prev + 1" using p by simp
  have below: "End x + 1 < Start el" if "x \<in> set rest" for x using p that by fastforce
  show ?thesis
  proof (cases "End prev + 1 = Start el")
    case True
    then have "{Start prev..End el} = interval el \<union> interval prev" using p assms(2) by (auto simp: interval_def)
    then show ?thesis using True i p assms below
      by (auto simp: Cons descending_Cons interval_def)
  next
    case False
    then show ?thesis using i p assms below by (auto simp: Cons descending_Cons)
  qed
qed

lemma addToRanges_loop_correct:
  assumes "descending xs" "0 \<le> p" "p < 2 ^ 62"
  shows "descending (addToRanges_loop p xs) \<and> packets (addToRanges_loop p xs) = insert p (packets xs) \<and>
    length (addToRanges_loop p xs) \<le> Suc (length xs) \<and>
    (\<forall>y \<in> set (addToRanges_loop p xs). End y \<le> p \<or> (\<exists>x \<in> set xs. End y \<le> End x))"
  using assms(1)
proof (induction xs)
  case Nil
  then show ?case using assms(2,3) by (auto simp: descending_Cons interval_def)
next
  case (Cons el xs)
  have el: "0 \<le> Start el" "Start el \<le> End el" "End el < 2 ^ 62" "descending xs" "\<forall>x \<in> set xs. End x + 1 < Start el"
    using Cons.prems by (auto simp: descending_Cons)
  have i: "i64 (p - 1) = p - 1" "i64 (p + 1) = p + 1" using assms(2,3) by simp_all
  consider (inside) "Start el \<le> p" "p \<le> End el" | (end_ext) "End el = p - 1" | (start_ext) "Start el = p + 1"
    | (above) "p > End el" "End el \<noteq> p - 1" | (below) "p < Start el" "Start el \<noteq> p + 1"
    using el by linarith
  then show ?case
  proof cases
    case inside
    then show ?thesis using Cons.prems by (auto simp: interval_def)
  next
    case end_ext
    then have "interval (el\<lparr>End := p\<rparr>) = insert p (interval el)" using el by (auto simp: interval_def)
    moreover have "\<forall>x \<in> set xs. End x < Start (el\<lparr>End := p\<rparr>)" using el by force
    ultimately show ?thesis
      using mergeWithPrev_correct [of "el\<lparr>End := p\<rparr>" xs] end_ext el assms(2,3) i by auto
  next
    case start_ext
    have "interval (el\<lparr>Start := p\<rparr>) = insert p (interval el)" using start_ext el by (auto simp: interval_def)
    moreover have "\<forall>x \<in> set xs. End x < Start (el\<lparr>Start := p\<rparr>)" using el start_ext by force
    ultimately show ?thesis
      using mergeWithPrev_correct [of "el\<lparr>Start := p\<rparr>" xs] start_ext el assms(2,3) i by auto
  next
    case above
    then show ?thesis using el i assms(2,3) by (auto simp: descending_Cons interval_def)
  next
    case below
    then show ?thesis using Cons.IH [OF el(4)] el i by (fastforce simp: descending_Cons)
  qed
qed

lemma maybeDeleteOldRanges_loop_eq: "maybeDeleteOldRanges_loop xs = drop (length xs - 500) xs"
  by (induction xs) (auto simp: MaxNumAckRanges_def drop_Cons')

lemma descending_take: "descending xs \<Longrightarrow> descending (take n xs)"
  by (metis append_take_drop_id descending_append)

text \<open>Dropping the oldest ranges keeps exactly the packets above some bound.\<close>

lemma packets_take:
  assumes "descending xs"
  shows "\<exists>b. packets (take n xs) = {x \<in> packets xs. b \<le> x}"
proof (cases "drop n xs")
  case Nil
  have "\<forall>x \<in> packets xs. 0 \<le> x" using assms by (force simp: packets_def descending_def interval_def)
  then show ?thesis using Nil by (intro exI [of _ 0]) auto
next
  case (Cons d ds)
  have x: "packets xs = packets (take n xs) \<union> packets (drop n xs)" by (metis append_take_drop_id packets_simps(3))
  have sep: "\<forall>a \<in> set (take n xs). \<forall>b \<in> set (drop n xs). End b + 1 < Start a"
    and dd: "descending (drop n xs)"
    using assms by (metis append_take_drop_id descending_append)+
  have "\<forall>e \<in> set (drop n xs). End e \<le> End d"
    using dd unfolding Cons descending_Cons by force
  then have "\<forall>y \<in> packets (drop n xs). y \<le> End d" by (auto simp: packets_def interval_def)
  moreover have "\<forall>y \<in> packets (take n xs). End d < y"
    using sep Cons by (force simp: packets_def interval_def)
  ultimately have "packets (take n xs) = {y \<in> packets xs. End d + 1 \<le> y}" unfolding x by force
  then show ?thesis by blast
qed

lemma rev_maybeDelete: "rev (maybeDeleteOldRanges_loop xs) = take 500 (rev xs)"
  by (cases "length xs \<le> 500") (simp_all add: maybeDeleteOldRanges_loop_eq rev_drop)

lemma addToRanges_loop_form: "ranges (addToRanges h p) = rev (addToRanges_loop p (rev (ranges h)))"
  by (simp add: addToRanges_def)

lemma history_ReceivedPacket_correct:
  assumes "history_ok h" "0 \<le> p" "p < 2 ^ 62"
  shows "history_ok (history_ReceivedPacket h p) \<and> deletedBelow (history_ReceivedPacket h p) = deletedBelow h \<and>
    (if p < deletedBelow h then history_ReceivedPacket h p = h
     else (\<exists>b. packets (ranges (history_ReceivedPacket h p)) = {x \<in> insert p (packets (ranges h)). b \<le> x}) \<and>
       (length (ranges h) < 500 \<longrightarrow> packets (ranges (history_ReceivedPacket h p)) = insert p (packets (ranges h))))"
proof (cases "p < deletedBelow h")
  case True
  then show ?thesis using assms by (simp add: history_ReceivedPacket_def)
next
  case False
  let ?xs = "addToRanges_loop p (rev (ranges h))"
  have ok: "descending (rev (ranges h))" "\<forall>x \<in> packets (ranges h). deletedBelow h \<le> x"
    using assms(1) by (auto simp: history_ok_def)
  note a = addToRanges_loop_correct [OF ok(1) assms(2,3)]
  have r: "rev (ranges (history_ReceivedPacket h p)) = take 500 ?xs"
    using False by (simp add: history_ReceivedPacket_def maybeDeleteOldRanges_def rev_maybeDelete addToRanges_loop_form)
  have pk: "packets (ranges (history_ReceivedPacket h p)) = packets (take 500 ?xs)"
    by (metis r packets_simps(4))
  have len: "length (ranges (history_ReceivedPacket h p)) \<le> 500"
    by (metis r length_rev length_take min.cobounded2)
  have db: "deletedBelow (history_ReceivedPacket h p) = deletedBelow h"
    by (simp add: history_ReceivedPacket_def maybeDeleteOldRanges_def addToRanges_def)
  obtain b where b: "packets (take 500 ?xs) = {x \<in> packets ?xs. b \<le> x}" using packets_take a by blast
  have "history_ok (history_ReceivedPacket h p)"
    unfolding history_ok_def r pk db using a len ok b False descending_take by auto
  moreover have "length (ranges h) < 500 \<Longrightarrow> take 500 ?xs = ?xs" using a by simp
  ultimately show ?thesis using False pk b a db by auto
qed

lemma DeleteBelow_loop_correct:
  assumes "descending (rev xs)"
  shows "descending (rev (DeleteBelow_loop p xs)) \<and> packets (DeleteBelow_loop p xs) = {x \<in> packets xs. p \<le> x} \<and>
    length (DeleteBelow_loop p xs) \<le> length xs"
  using assms
proof (induction xs)
  case (Cons el xs)
  have el: "0 \<le> Start el" "Start el \<le> End el" "End el < 2 ^ 62" "descending (rev xs)" "\<forall>x \<in> set xs. End el + 1 < Start x"
    using Cons.prems by (auto simp: descending_append descending_Cons)
  have above: "\<forall>x \<in> packets xs. End el < x" using el(5) by (force simp: packets_def interval_def)
  show ?case
    using Cons.IH [OF el(4)] el above by (auto simp: descending_append descending_Cons interval_def)
qed simp

lemma DeleteBelow_correct:
  assumes "history_ok h"
  shows "history_ok (DeleteBelow h p) \<and> packets (ranges (DeleteBelow h p)) = {x \<in> packets (ranges h). p \<le> x} \<and>
    deletedBelow (DeleteBelow h p) = max (deletedBelow h) p"
proof (cases "p < deletedBelow h")
  case True
  then have "{x \<in> packets (ranges h). p \<le> x} = packets (ranges h)" using assms by (force simp: history_ok_def)
  then show ?thesis using True assms by (simp add: DeleteBelow_def max_def)
next
  case False
  have "descending (rev (ranges h))" using assms by (simp add: history_ok_def)
  then show ?thesis using DeleteBelow_loop_correct [of "ranges h" p] False assms
    by (auto simp: DeleteBelow_def history_ok_def)
qed

section \<open>The interface to the tracker\<close>

text \<open>What a store of packet numbers promises, and what follows for any sequence of operations.\<close>

datatype store_op = Add PacketNumber | Below PacketNumber

locale packet_store =
  fixes empty :: 'h
    and add :: "'h \<Rightarrow> PacketNumber \<Rightarrow> 'h"
    and below :: "'h \<Rightarrow> PacketNumber \<Rightarrow> 'h"
    and elems :: "'h \<Rightarrow> PacketNumber set"
    and ok :: "'h \<Rightarrow> bool"
  assumes empty: "ok empty" "elems empty = {}"
    and add: "ok h \<Longrightarrow> 0 \<le> p \<Longrightarrow> p < 2 ^ 62 \<Longrightarrow> ok (add h p) \<and> elems (add h p) \<subseteq> insert p (elems h)"
    and below: "ok h \<Longrightarrow> ok (below h p) \<and> elems (below h p) = {x \<in> elems h. p \<le> x}"
begin

fun exec :: "'h \<Rightarrow> store_op \<Rightarrow> 'h" where
  "exec h (Add p) = add h p"
| "exec h (Below p) = below h p"

definition valid_ops :: "store_op list \<Rightarrow> bool" where
  "valid_ops ops \<longleftrightarrow> (\<forall>p. Add p \<in> set ops \<longrightarrow> 0 \<le> p \<and> p < 2 ^ 62)"

lemma exec_sound:
  "ok h \<Longrightarrow> valid_ops ops \<Longrightarrow> ok (foldl exec h ops) \<and> elems (foldl exec h ops) \<subseteq> elems h \<union> {p. Add p \<in> set ops}"
proof (induction ops arbitrary: h)
  case (Cons op ops)
  have "ok (exec h op) \<and> elems (exec h op) \<subseteq> elems h \<union> {p. Add p = op}"
    using Cons.prems add below by (cases op) (auto simp: valid_ops_def)
  moreover have "valid_ops ops" using Cons.prems by (auto simp: valid_ops_def)
  ultimately show ?case using Cons.IH [of "exec h op"] by auto
qed simp

lemma stored_was_added:
  "valid_ops ops \<Longrightarrow> elems (foldl exec empty ops) \<subseteq> {p. Add p \<in> set ops}"
  using exec_sound [of empty ops] empty by simp

lemma below_bound: "ok h \<Longrightarrow> x \<in> elems (below h p) \<Longrightarrow> p \<le> x"
  using below by auto

end

interpretation history: packet_store newReceivedPacketHistory history_ReceivedPacket DeleteBelow
  "\<lambda>h. packets (ranges h)" history_ok
proof unfold_locales
  show "history_ok newReceivedPacketHistory" "packets (ranges newReceivedPacketHistory) = {}"
    by (simp_all add: newReceivedPacketHistory_def history_ok_def)
next
  fix h p
  assume "history_ok h" "0 \<le> p" "p < (2 :: int) ^ 62"
  from history_ReceivedPacket_correct [OF this]
  show "history_ok (history_ReceivedPacket h p) \<and> packets (ranges (history_ReceivedPacket h p)) \<subseteq> insert p (packets (ranges h))"
    by (auto split: if_splits)
next
  show "history_ok h \<Longrightarrow> history_ok (DeleteBelow h p) \<and> packets (ranges (DeleteBelow h p)) = {x \<in> packets (ranges h). p \<le> x}" for h p
    using DeleteBelow_correct by blast
qed

section \<open>The ranges for an ACK frame\<close>

lemma GetAckRanges_chain:
  assumes "history_ok h"
  shows "ack_chain (GetAckRanges h)" "pn_ok (GetAckRanges h)"
    "acked \<lparr>AckRanges = GetAckRanges h, DelayTime = d\<rparr> = packets (ranges h)"
    "GetAckRanges h = [] \<longleftrightarrow> packets (ranges h) = {}"
proof -
  have d: "descending (rev (ranges h))" using assms by (simp add: history_ok_def)
  then show "ack_chain (GetAckRanges h)" "pn_ok (GetAckRanges h)"
    by (auto simp: ack_chain_def pn_ok_def GetAckRanges_def descending_def sorted_wrt_map)
  show "acked \<lparr>AckRanges = GetAckRanges h, DelayTime = d\<rparr> = packets (ranges h)"
    by (auto simp: acked_def GetAckRanges_def packets_def interval_def)
  show "GetAckRanges h = [] \<longleftrightarrow> packets (ranges h) = {}"
    using d by (cases "ranges h") (auto simp: GetAckRanges_def interval_def descending_append descending_Cons)
qed

lemma GetHighestAckRange_eq: "ranges h \<noteq> [] \<Longrightarrow> GetHighestAckRange h = hd (GetAckRanges h)"
  by (simp add: GetHighestAckRange_def GetAckRanges_def hd_map hd_rev Let_def)

end
