(* ===== verification/QErr.thy ===== *)
theory QErr
  imports QPrelude
begin

text \<open>
  The QUIC errors of \<open>core/qerr\<close>: the error codes, the constructors of \<open>QuicError\<close>, the message of an
  error and \<open>ToQuicError\<close>. The text of a TLS alert comes from the \<open>qtls\<close> package and is a parameter.
  The lemmas show which errors the conversion leaves alone and that codes and messages survive it.
\<close>

section \<open>Codes and constructors\<close>

definition NoError :: u64 where "NoError = 0x0"
definition InternalError :: u64 where "InternalError = 0x1"
definition ServerBusy :: u64 where "ServerBusy = 0x2"
definition FlowControlError :: u64 where "FlowControlError = 0x3"
definition StreamLimitError :: u64 where "StreamLimitError = 0x4"
definition StreamStateError :: u64 where "StreamStateError = 0x5"
definition FinalSizeError :: u64 where "FinalSizeError = 0x6"
definition FrameEncodingError :: u64 where "FrameEncodingError = 0x7"
definition TransportParameterError :: u64 where "TransportParameterError = 0x8"
definition VersionNegotiationError :: u64 where "VersionNegotiationError = 0x9"
definition ProtocolViolation :: u64 where "ProtocolViolation = 0xa"
definition InvalidMigration :: u64 where "InvalidMigration = 0xc"

lemmas error_code_defs = NoError_def InternalError_def ServerBusy_def FlowControlError_def
  StreamLimitError_def StreamStateError_def FinalSizeError_def FrameEncodingError_def
  TransportParameterError_def VersionNegotiationError_def ProtocolViolation_def InvalidMigration_def

definition isCryptoError :: "u64 \<Rightarrow> bool" where
  "isCryptoError e \<longleftrightarrow> e \<ge> 0x100 \<and> e < 0x200"

definition qerr_Error :: "u64 \<Rightarrow> message \<Rightarrow> go_error" where
  "qerr_Error errorCode errorMessage = QuicError errorCode errorMessage False False"

definition TimeoutError :: "message \<Rightarrow> go_error" where
  "TimeoutError errorMessage = QuicError 0 errorMessage True False"

definition CryptoError :: "byte \<Rightarrow> message \<Rightarrow> go_error" where
  "CryptoError tlsAlert errorMessage = QuicError (0x100 + ucast tlsAlert) errorMessage False False"

definition ApplicationError :: "u64 \<Rightarrow> message \<Rightarrow> go_error" where
  "ApplicationError errorCode errorMessage = QuicError errorCode errorMessage False True"

section \<open>Messages\<close>

definition ErrorCode_String :: "u64 \<Rightarrow> message" where
  "ErrorCode_String e =
    (if e = NoError then (''NO_ERROR'', [])
     else if e = InternalError then (''INTERNAL_ERROR'', [])
     else if e = ServerBusy then (''SERVER_BUSY'', [])
     else if e = FlowControlError then (''FLOW_CONTROL_ERROR'', [])
     else if e = StreamLimitError then (''STREAM_LIMIT_ERROR'', [])
     else if e = StreamStateError then (''STREAM_STATE_ERROR'', [])
     else if e = FinalSizeError then (''FINAL_SIZE_ERROR'', [])
     else if e = FrameEncodingError then (''FRAME_ENCODING_ERROR'', [])
     else if e = TransportParameterError then (''TRANSPORT_PARAMETER_ERROR'', [])
     else if e = VersionNegotiationError then (''VERSION_NEGOTIATION_ERROR'', [])
     else if e = ProtocolViolation then (''PROTOCOL_VIOLATION'', [])
     else if e = InvalidMigration then (''INVALID_MIGRATION'', [])
     else if isCryptoError e then (''CRYPTO_ERROR'', [])
     else (''unknown error code: %#x'', [uint (ucast e :: u16)]))"

text \<open>\<open>fmt.Sprintf("%s: %s", a, b)\<close> on messages.\<close>

definition colon :: "message \<Rightarrow> message \<Rightarrow> message" where
  "colon a b = (fst a @ '': '' @ fst b, snd a @ snd b)"

definition ErrorCode_Error :: "(u64 \<Rightarrow> string) \<Rightarrow> u64 \<Rightarrow> message" where
  "ErrorCode_Error alert e =
    (if isCryptoError e then colon (ErrorCode_String e) (alert (e - 0x100), []) else ErrorCode_String e)"

definition QuicError_Error :: "(u64 \<Rightarrow> string) \<Rightarrow> u64 \<Rightarrow> message \<Rightarrow> bool \<Rightarrow> message" where
  "QuicError_Error alert c m isApplicationError =
    (if isApplicationError then
       (if fst m = [] then (''Application error %#x'', [uint c])
        else colon (''Application error %#x'', [uint c]) m)
     else if fst m = [] then ErrorCode_Error alert c
     else colon (ErrorCode_String c) m)"

text \<open>The method \<open>Error()\<close> of each error.\<close>

fun Error_message :: "(u64 \<Rightarrow> string) \<Rightarrow> go_error \<Rightarrow> message" where
  "Error_message alert io_EOF = (''EOF'', [])"
| "Error_message alert io_ErrUnexpectedEOF = (''unexpected EOF'', [])"
| "Error_message alert (Errorf m) = m"
| "Error_message alert (QuicError c m isTimeout isApplicationError) = QuicError_Error alert c m isApplicationError"
| "Error_message alert (ErrorCode c) = ErrorCode_Error alert c"
| "Error_message alert (Panic m) = m"

text \<open>A panic is not an error value: it passes through.\<close>

fun ToQuicError :: "(u64 \<Rightarrow> string) \<Rightarrow> go_error \<Rightarrow> go_error" where
  "ToQuicError alert (QuicError c m t a) = QuicError c m t a"
| "ToQuicError alert (ErrorCode c) = qerr_Error c ([], [])"
| "ToQuicError alert (Panic m) = Panic m"
| "ToQuicError alert e = qerr_Error InternalError (Error_message alert e)"

fun is_panic :: "go_error \<Rightarrow> bool" where
  "is_panic (Panic m) = True"
| "is_panic e = False"

section \<open>Lemmas\<close>

lemma ToQuicError_idem: "ToQuicError alert (ToQuicError alert e) = ToQuicError alert e"
  by (cases e) (simp_all add: qerr_Error_def)

lemma ToQuicError_message:
  "Error_message alert (ToQuicError alert e) =
    (case e of io_EOF \<Rightarrow> (''INTERNAL_ERROR: EOF'', [])
      | io_ErrUnexpectedEOF \<Rightarrow> (''INTERNAL_ERROR: unexpected EOF'', [])
      | Errorf m \<Rightarrow> (if fst m = [] then (''INTERNAL_ERROR'', []) else colon (''INTERNAL_ERROR'', []) m)
      | _ \<Rightarrow> Error_message alert e)"
  by (cases e)
    (simp_all add: qerr_Error_def QuicError_Error_def ErrorCode_String_def error_code_defs colon_def
      ErrorCode_Error_def isCryptoError_def word_le_nat_alt)

lemma CryptoError_code: "\<exists>c m. CryptoError a msg = QuicError c m False False \<and> isCryptoError c"
proof -
  have "unat (0x100 + ucast a :: u64) = 256 + unat a"
    using unat_lt_byte [of a]
    by (simp add: unat_word_ariths unsigned_ucast_eq take_bit_nat_eq_self)
  then show ?thesis
    using unat_lt_byte [of a]
    by (simp add: CryptoError_def isCryptoError_def word_le_nat_alt word_less_nat_alt)
qed

end
