(* ===== verification/WireStream.thy ===== *)
theory WireStream
  imports WireControl QErr
begin

text \<open>
  The STREAM frame of \<open>stream_frame.go\<close> with the buffer pool of \<open>pool.go\<close>, and the size computation
  of CRYPTO frames. A slice is its elements and its capacity. The lemmas show the round trip with and
  without a length field, that \<open>MaxDataLen\<close> is the largest amount of data that fits, and that
  splitting a frame cuts the data at the right offset and keeps both parts within their limits.
\<close>

section \<open>The frame\<close>

record StreamFrame =
  sf_StreamID :: StreamID
  sf_Offset :: ByteCount
  sf_Data :: "byte list"
  sf_cap :: nat
  sf_FinBit :: bool
  sf_DataLenPresent :: bool
  sf_fromPool :: bool

definition MaxReceivePacketSize :: ByteCount where "MaxReceivePacketSize = 1452"
definition MinStreamFrameBufferSize :: u64 where "MinStreamFrameBufferSize = 128"
definition MaxByteCount :: ByteCount where "MaxByteCount = 2 ^ 62 - 1"

definition GetStreamFrame :: StreamFrame where
  "GetStreamFrame = \<lparr>sf_StreamID = 0, sf_Offset = 0, sf_Data = [], sf_cap = unat MaxReceivePacketSize,
     sf_FinBit = False, sf_DataLenPresent = False, sf_fromPool = True\<rparr>"

text \<open>Returning a frame to the pool: \<open>True\<close> when the pool took it.\<close>

definition putStreamFrame :: "StreamFrame \<Rightarrow> go_error + bool" where
  "putStreamFrame f =
    (if \<not> sf_fromPool f then Inr False
     else if word_of_nat (sf_cap f) \<noteq> MaxReceivePacketSize
     then Inl (Panic (''wire.PutStreamFrame called with packet of wrong size!'', []))
     else Inr True)"

definition PutBack :: "StreamFrame \<Rightarrow> go_error + bool" where
  "PutBack f = putStreamFrame f"

definition StreamFrame_DataLen :: "StreamFrame \<Rightarrow> ByteCount" where
  "StreamFrame_DataLen f = word_of_nat (length (sf_Data f))"

definition parseStreamFrame :: "reader \<Rightarrow> StreamFrame parse" where
  "parseStreamFrame r =
    tryE (ReadByte r) (\<lambda>(typeByte, r).
    let hasOffset = typeByte AND 0x4 > 0; fin = typeByte AND 0x1 > 0; hasDataLen = typeByte AND 0x2 > 0 in
    tryE (ReadVarInt r) (\<lambda>(streamID, r).
    tryE (if hasOffset then ReadVarInt r else Inr (0, r)) (\<lambda>(offset, r).
    tryE (if hasDataLen then ReadVarInt r else Inr (word_of_nat (length r), r)) (\<lambda>(dataLen, r).
    tryE (if dataLen < MinStreamFrameBufferSize
          then Inr (GetStreamFrame\<lparr>sf_cap := unat dataLen, sf_fromPool := False\<rparr>)
          else if unat dataLen > sf_cap GetStreamFrame then Inl io_EOF
          else Inr GetStreamFrame) (\<lambda>frame.
    let frame = frame\<lparr>sf_StreamID := int64_of streamID, sf_Offset := offset, sf_FinBit := fin,
                      sf_DataLenPresent := hasDataLen\<rparr> in
    tryE (if dataLen \<noteq> 0 then ReadFull (unat dataLen) r else Inr ([], r)) (\<lambda>(dat, r).
    let frame = frame\<lparr>sf_Data := dat\<rparr> in
    if sf_Offset frame + StreamFrame_DataLen frame > MaxByteCount
    then Inl (qerr_Error FrameEncodingError (''stream data overflows maximum offset'', []))
    else Inr (frame, r)))))))"

definition StreamFrame_Write :: "byte list \<Rightarrow> StreamFrame \<Rightarrow> go_error + byte list" where
  "StreamFrame_Write b f =
    (if length (sf_Data f) = 0 \<and> \<not> sf_FinBit f
     then Inl (Errorf (''StreamFrame: attempting to write empty frame without FIN'', []))
     else
       let typeByte = 0x8 :: byte;
           typeByte = (if sf_FinBit f then typeByte XOR 0x1 else typeByte);
           hasOffset = sf_Offset f \<noteq> 0;
           typeByte = (if sf_DataLenPresent f then typeByte XOR 0x2 else typeByte);
           typeByte = (if hasOffset then typeByte XOR 0x4 else typeByte)
       in tryE (WriteVarInt (b @ [typeByte]) (uint64_of (sf_StreamID f))) (\<lambda>b.
          tryE (if hasOffset then WriteVarInt b (sf_Offset f) else Inr b) (\<lambda>b.
          tryE (if sf_DataLenPresent f then WriteVarInt b (StreamFrame_DataLen f) else Inr b) (\<lambda>b.
          Inr (b @ sf_Data f)))))"

definition StreamFrame_Length :: "StreamFrame \<Rightarrow> go_error + ByteCount" where
  "StreamFrame_Length f =
    tryE (VarIntLen (uint64_of (sf_StreamID f))) (\<lambda>n.
    let len = 1 + n in
    tryE (if sf_Offset f \<noteq> 0 then tryE (VarIntLen (sf_Offset f)) (\<lambda>n. Inr (len + n)) else Inr len) (\<lambda>len.
    tryE (if sf_DataLenPresent f then tryE (VarIntLen (StreamFrame_DataLen f)) (\<lambda>n. Inr (len + n)) else Inr len) (\<lambda>len.
    Inr (len + StreamFrame_DataLen f))))"

definition StreamFrame_MaxDataLen :: "StreamFrame \<Rightarrow> ByteCount \<Rightarrow> go_error + ByteCount" where
  "StreamFrame_MaxDataLen f maxSize =
    tryE (VarIntLen (uint64_of (sf_StreamID f))) (\<lambda>n.
    let headerLen = 1 + n in
    tryE (if sf_Offset f \<noteq> 0 then tryE (VarIntLen (sf_Offset f)) (\<lambda>n. Inr (headerLen + n)) else Inr headerLen) (\<lambda>headerLen.
    let headerLen = (if sf_DataLenPresent f then headerLen + 1 else headerLen) in
    if headerLen > maxSize then Inr 0
    else
      let maxDataLen = maxSize - headerLen in
      if sf_DataLenPresent f
      then tryE (VarIntLen maxDataLen) (\<lambda>n. Inr (if n \<noteq> 1 then maxDataLen - 1 else maxDataLen))
      else Inr maxDataLen))"

text \<open>
  Splitting returns the new frame, whether splitting was required, and the frame \<open>f\<close> as it is after
  the call. The new frame takes over the buffer of \<open>f\<close>, and \<open>f\<close> gets the one from the pool, which
  has to be large enough for the remaining data.
\<close>

definition MaybeSplitOffFrame ::
  "StreamFrame \<Rightarrow> ByteCount \<Rightarrow> go_error + (StreamFrame option \<times> bool) \<times> StreamFrame" where
  "MaybeSplitOffFrame f maxSize =
    tryE (StreamFrame_Length f) (\<lambda>len.
    if maxSize \<ge> len then Inr ((None, False), f)
    else
      tryE (StreamFrame_MaxDataLen f maxSize) (\<lambda>n.
      if n = 0 then Inr ((None, True), f)
      else
        let pooled = GetStreamFrame;
            new = \<lparr>sf_StreamID = sf_StreamID f, sf_Offset = sf_Offset f, sf_Data = sf_Data f, sf_cap = sf_cap f,
                   sf_FinBit = False, sf_DataLenPresent = sf_DataLenPresent f, sf_fromPool = sf_fromPool f\<rparr>;
            rest = unat (word_of_nat (length (sf_Data new)) - n :: ByteCount)
        in if rest > sf_cap pooled
           then Inl (Panic (''slice bounds out of range [:%d] with capacity %d'', [int rest, int (sf_cap pooled)]))
           else if unat n > length (sf_Data new)
           then Inl (Panic (''slice bounds out of range [%d:%d]'', [int (unat n), int (length (sf_Data new))]))
           else
             let f' = f\<lparr>sf_Data := drop (unat n) (sf_Data new), sf_cap := sf_cap pooled,
                        sf_fromPool := sf_fromPool pooled, sf_Offset := sf_Offset f + n\<rparr>
             in Inr ((Some (new\<lparr>sf_Data := take (unat n) (sf_Data new)\<rparr>), True), f')))"

definition CryptoFrame_MaxDataLen :: "CryptoFrame \<Rightarrow> ByteCount \<Rightarrow> go_error + ByteCount" where
  "CryptoFrame_MaxDataLen f maxSize =
    tryE (VarIntLen (cf_Offset f)) (\<lambda>n.
    let headerLen = 1 + n + 1 in
    if headerLen > maxSize then Inr 0
    else
      let maxDataLen = maxSize - headerLen in
      tryE (VarIntLen maxDataLen) (\<lambda>n. Inr (if n \<noteq> 1 then maxDataLen - 1 else maxDataLen)))"

section \<open>Round trip\<close>

definition stream_type :: "StreamFrame \<Rightarrow> byte" where
  "stream_type f = (0x8 XOR (if sf_FinBit f then 0x1 else 0)) XOR (if sf_DataLenPresent f then 0x2 else 0)
     XOR (if sf_Offset f \<noteq> 0 then 0x4 else 0)"

definition stream_header :: "StreamFrame \<Rightarrow> byte list" where
  "stream_header f = stream_type f # varint_bytes (uint64_of (sf_StreamID f)) @
     (if sf_Offset f \<noteq> 0 then varint_bytes (sf_Offset f) else []) @
     (if sf_DataLenPresent f then varint_bytes (StreamFrame_DataLen f) else [])"

text \<open>A frame that can be sent: its data fits a packet and does not pass the largest offset.\<close>

definition wf_StreamFrame :: "StreamFrame \<Rightarrow> bool" where
  "wf_StreamFrame f \<longleftrightarrow> id_ok (sf_StreamID f) \<and> unat (sf_Offset f) + length (sf_Data f) < 2 ^ 62 \<and>
     length (sf_Data f) \<le> 1452 \<and> (sf_Data f \<noteq> [] \<or> sf_FinBit f)"

text \<open>The frame as the parser builds it: in a buffer of its own or in one of the pool.\<close>

definition received :: "StreamFrame \<Rightarrow> StreamFrame" where
  "received f = (if length (sf_Data f) < 128
     then f\<lparr>sf_cap := length (sf_Data f), sf_fromPool := False\<rparr>
     else f\<lparr>sf_cap := 1452, sf_fromPool := True\<rparr>)"

lemma stream_type_bits:
  "stream_type f AND 0x4 > 0 \<longleftrightarrow> sf_Offset f \<noteq> 0" "stream_type f AND 0x2 > 0 \<longleftrightarrow> sf_DataLenPresent f"
  "stream_type f AND 0x1 > 0 \<longleftrightarrow> sf_FinBit f" "stream_type f AND 0xf8 = 0x8"
  by (simp_all add: stream_type_def)

lemma wf_StreamFrame_varints:
  assumes "wf_StreamFrame f"
  shows "uint64_of (sf_StreamID f) \<le> maxVarInt8" "sf_Offset f \<le> maxVarInt8" "StreamFrame_DataLen f \<le> maxVarInt8"
    "unat (StreamFrame_DataLen f) = length (sf_Data f)" "int64_of (uint64_of (sf_StreamID f)) = sf_StreamID f"
    "length (sf_Data f) \<le> 1452"
    "\<not> sf_Offset f + StreamFrame_DataLen f > MaxByteCount"
proof -
  have len: "unat (StreamFrame_DataLen f) = length (sf_Data f)"
    using assms by (simp add: wf_StreamFrame_def StreamFrame_DataLen_def unat_word_of_nat_id)
  then show "unat (StreamFrame_DataLen f) = length (sf_Data f)" .
  have "unat (sf_Offset f + StreamFrame_DataLen f) = unat (sf_Offset f) + length (sf_Data f)"
    using assms len by (simp add: unat_word_ariths wf_StreamFrame_def)
  then show "\<not> sf_Offset f + StreamFrame_DataLen f > MaxByteCount"
    using assms by (simp add: word_less_nat_alt MaxByteCount_def wf_StreamFrame_def)
  show "uint64_of (sf_StreamID f) \<le> maxVarInt8" "int64_of (uint64_of (sf_StreamID f)) = sf_StreamID f"
    "length (sf_Data f) \<le> 1452"
    using assms by (simp_all add: wf_StreamFrame_def id_ok_varint)
  show "sf_Offset f \<le> maxVarInt8" "StreamFrame_DataLen f \<le> maxVarInt8"
    using assms len by (simp_all add: word_le_nat_alt maxVarInt8_def wf_StreamFrame_def)
qed

lemma StreamFrame_Write_bytes:
  assumes "wf_StreamFrame f"
  shows "StreamFrame_Write b f = Inr (b @ stream_header f @ sf_Data f)"
  using assms wf_StreamFrame_varints [OF assms]
  by (auto simp: StreamFrame_Write_def stream_header_def stream_type_def wf_StreamFrame_def codec_simps Let_def)

lemma StreamFrame_Length_bytes:
  assumes "wf_StreamFrame f"
  shows "StreamFrame_Length f = Inr (word_of_nat (length (stream_header f @ sf_Data f)))"
  using wf_StreamFrame_varints [OF assms]
  by (simp add: StreamFrame_Length_def stream_header_def VarIntLen_varint_bytes Let_def StreamFrame_DataLen_def ac_simps)

lemma parseStreamFrame_bytes:
  assumes "wf_StreamFrame f" and "\<not> sf_DataLenPresent f \<Longrightarrow> r = []"
  shows "parseStreamFrame (stream_header f @ sf_Data f @ r) = Inr (received f, r)"
proof -
  note w = wf_StreamFrame_varints [OF assms(1)]
  have cap: "sf_cap GetStreamFrame = 1452" by (simp add: GetStreamFrame_def MaxReceivePacketSize_def)
  have small: "StreamFrame_DataLen f < MinStreamFrameBufferSize \<longleftrightarrow> length (sf_Data f) < 128"
    "StreamFrame_DataLen f = 0 \<longleftrightarrow> sf_Data f = []"
    using w by (simp_all add: MinStreamFrameBufferSize_def word_less_nat_alt flip: unat_eq_0)
  have nolen: "\<not> sf_DataLenPresent f \<Longrightarrow> word_of_nat (length (sf_Data f @ r)) = StreamFrame_DataLen f \<and> r = []"
    using assms(2) by (simp add: StreamFrame_DataLen_def)
  have full: "ReadFull (length (sf_Data f)) (sf_Data f @ r) = Inr (sf_Data f, r)" by (simp add: codec_simps)
  show ?thesis
    using w small full cap nolen unfolding StreamFrame_DataLen_def
    by (cases f; cases "sf_Offset f = 0"; cases "sf_DataLenPresent f"; cases "sf_Data f = []")
      (auto simp: parseStreamFrame_def stream_header_def stream_type_bits codec_simps received_def Let_def
        GetStreamFrame_def StreamFrame_DataLen_def)
qed

lemma stream_header_nonempty: "stream_header f \<noteq> []"
  by (simp add: stream_header_def)

lemma parseStreamFrame_received:
  "wf_StreamFrame f \<Longrightarrow> sf_DataLenPresent f \<Longrightarrow> received f = f \<Longrightarrow>
    parseStreamFrame (stream_header f @ sf_Data f @ r) = Inr (f, r)"
  by (metis parseStreamFrame_bytes)

interpretation stream: frame_codec StreamFrame_Write StreamFrame_Length parseStreamFrame
  "\<lambda>f. wf_StreamFrame f \<and> sf_DataLenPresent f \<and> received f = f"
  by (rule frame_codecI [where bytes = "\<lambda>f. stream_header f @ sf_Data f"])
    (auto simp: StreamFrame_Write_bytes StreamFrame_Length_bytes stream_header_nonempty parseStreamFrame_received)

section \<open>What the parser accepts\<close>

lemma parseStreamFrame_sound:
  assumes "parseStreamFrame r = Inr (f, r')"
  shows "id_ok (sf_StreamID f) \<and> unat (sf_Offset f) + length (sf_Data f) < 2 ^ 62 \<and> length (sf_Data f) \<le> 1452 \<and>
    received f = f \<and> (length r < 2 ^ 64 \<longrightarrow> sf_DataLenPresent f \<or> r' = []) \<and> (\<exists>bs. bs \<noteq> [] \<and> r = bs @ r')"
proof -
  have capacity: "sf_cap GetStreamFrame = 1452" by (simp add: GetStreamFrame_def MaxReceivePacketSize_def)
  from assms obtain t r1 s r2 off r3 len r4 g dat where
    t: "ReadByte r = Inr (t, r1)" and s: "ReadVarInt r1 = Inr (s, r2)"
    and off: "(if t AND 0x4 > 0 then ReadVarInt r2 else Inr (0, r2)) = Inr (off, r3)"
    and len: "(if t AND 0x2 > 0 then ReadVarInt r3 else Inr (word_of_nat (length r3), r3)) = Inr (len, r4)"
    and g: "(if len < MinStreamFrameBufferSize
          then Inr (GetStreamFrame\<lparr>sf_cap := unat len, sf_fromPool := False\<rparr>)
          else if unat len > sf_cap GetStreamFrame then Inl io_EOF else Inr GetStreamFrame) = Inr g"
    and dat: "(if len \<noteq> 0 then ReadFull (unat len) r4 else Inr ([], r4)) = Inr (dat, r')"
    and f: "g\<lparr>sf_StreamID := int64_of s, sf_Offset := off, sf_FinBit := t AND 0x1 > 0,
        sf_DataLenPresent := t AND 0x2 > 0, sf_Data := dat\<rparr> = f"
    and mx: "\<not> sf_Offset f + StreamFrame_DataLen f > MaxByteCount"
    unfolding parseStreamFrame_def Let_def tryE_eq_Inr split_paired_Ex case_prod_conv if_Inl_eq_Inr
      sum.inject prod.inject by blast
  have d: "length dat = unat len" "r4 = dat @ r'"
    using dat ReadFull_InrD [of "unat len" r4 dat r'] by (auto split: if_splits)
  have f': "sf_StreamID f = int64_of s" "sf_Offset f = off" "sf_Data f = dat" "sf_DataLenPresent f \<longleftrightarrow> t AND 0x2 > 0"
    "sf_cap f = sf_cap g" "sf_fromPool f = sf_fromPool g" using f by auto
  have small: "len < MinStreamFrameBufferSize \<longleftrightarrow> unat len < 128"
    by (simp add: MinStreamFrameBufferSize_def word_less_nat_alt)
  have rec: "received f = f" and l: "unat len \<le> 1452"
    using g f' d capacity small by (auto simp: received_def GetStreamFrame_def split: if_splits)
  have o: "unat off < 2 ^ 62"
    using off ReadVarInt_le_max [of r2 off r3] by (auto simp: maxVarInt8_def word_le_nat_alt split: if_splits)
  have "unat (off + word_of_nat (unat len)) = unat off + unat len"
    using o l by (simp add: unat_word_ariths unat_word_of_nat_id)
  then have total: "unat off + unat len < 2 ^ 62"
    using mx f' d by (simp add: StreamFrame_DataLen_def word_less_nat_alt MaxByteCount_def)
  have suf: "\<exists>bs. r2 = bs @ r3" "\<exists>bs. r3 = bs @ r4"
    using off len ReadVarInt_suffix(1) by (auto split: if_splits)
  have "r = t # r1" using t by (rule ReadByte_InrD)
  moreover obtain b1 where "r1 = b1 @ r2" using ReadVarInt_suffix(1) [OF s] by blast
  ultimately have "\<exists>bs. bs \<noteq> [] \<and> r = bs @ r'" using suf d(2) by auto
  moreover have "length r < 2 ^ 64 \<longrightarrow> sf_DataLenPresent f \<or> r' = []"
  proof (intro impI disjCI)
    assume "length r < 2 ^ 64" "r' \<noteq> []"
    then have "length r3 < 2 ^ 64" using suf \<open>r = t # r1\<close> \<open>r1 = b1 @ r2\<close> by auto
    then have "\<not> t AND 0x2 > 0 \<Longrightarrow> unat len = length r4"
      using len by (auto simp: unat_word_of_nat_id split: if_splits)
    then show "sf_DataLenPresent f" using d f'(4) \<open>r' \<noteq> []\<close> by auto
  qed
  ultimately show ?thesis
    using rec l total f' d ReadVarInt_int [OF s] by (auto simp: id_ok_def)
qed

section \<open>The size of a frame\<close>

text \<open>The header without the length field.\<close>

definition base_len :: "StreamFrame \<Rightarrow> nat" where
  "base_len f = 1 + length (varint_bytes (uint64_of (sf_StreamID f))) +
     (if sf_Offset f \<noteq> 0 then length (varint_bytes (sf_Offset f)) else 0)"

definition small_len :: "nat \<Rightarrow> nat" where
  "small_len n = (if n < 64 then 1 else 2)"

definition frame_len :: "StreamFrame \<Rightarrow> nat \<Rightarrow> nat" where
  "frame_len f n = base_len f + (if sf_DataLenPresent f then small_len n else 0) + n"

definition ids_ok :: "StreamFrame \<Rightarrow> bool" where
  "ids_ok f \<longleftrightarrow> id_ok (sf_StreamID f) \<and> varint_ok (sf_Offset f)"

lemma length_varint_small: "n < 2 ^ 14 \<Longrightarrow> length (varint_bytes (word_of_nat n)) = small_len n"
  by (simp add: varint_bytes_def WriteVarInt_def maxVarInt_defs word_le_nat_alt unat_word_of_nat_id small_len_def)

lemma varint_small_ok: "n < 2 ^ 14 \<Longrightarrow> word_of_nat n \<le> maxVarInt8"
  by (simp add: maxVarInt8_def word_le_nat_alt unat_word_of_nat_id)

lemma ids_ok_varints:
  "ids_ok f \<Longrightarrow> uint64_of (sf_StreamID f) \<le> maxVarInt8" "ids_ok f \<Longrightarrow> sf_Offset f \<le> maxVarInt8"
  by (auto simp: ids_ok_def id_ok_varint varint_ok_def)

lemma base_len_bounds:
  assumes "ids_ok f"
  shows "2 \<le> base_len f" "base_len f \<le> 17"
  using length_varint_bytes [OF ids_ok_varints(1) [OF assms]] length_varint_bytes [OF ids_ok_varints(2) [OF assms]]
  by (auto simp: base_len_def)

lemma StreamFrame_Length_eq:
  assumes "ids_ok f" "length (sf_Data f) < 2 ^ 14"
  shows "StreamFrame_Length f = Inr (word_of_nat (frame_len f (length (sf_Data f))))"
  using ids_ok_varints [OF assms(1)] varint_small_ok [OF assms(2)] length_varint_small [OF assms(2)]
  by (simp add: StreamFrame_Length_def VarIntLen_varint_bytes StreamFrame_DataLen_def frame_len_def base_len_def
      Let_def ac_simps)

lemma StreamFrame_MaxDataLen_eq:
  assumes "ids_ok f" "unat maxSize < 2 ^ 14"
  shows "\<exists>m. StreamFrame_MaxDataLen f maxSize = Inr m \<and>
    unat m = (if frame_len f 0 > unat maxSize then 0
      else if sf_DataLenPresent f then
        (let k = unat maxSize - frame_len f 0 in if k < 64 then k else k - 1)
      else unat maxSize - frame_len f 0)"
proof -
  define h :: u64 where "h = word_of_nat (frame_len f 0)"
  have "frame_len f 0 < 2 ^ 64" using base_len_bounds [OF assms(1)] by (simp add: frame_len_def small_len_def)
  then have h: "unat h = frame_len f 0" unfolding h_def by (rule unat_word_of_nat_id)
  have hd: "h = 1 + word_of_nat (length (varint_bytes (uint64_of (sf_StreamID f)))) +
      (if sf_Offset f \<noteq> 0 then word_of_nat (length (varint_bytes (sf_Offset f))) else 0) +
      (if sf_DataLenPresent f then 1 else 0)"
    by (simp add: h_def frame_len_def base_len_def small_len_def)
  define k where "k = maxSize - h"
  have kk: "unat k = unat maxSize - frame_len f 0" if "\<not> h > maxSize"
    using that h by (simp add: k_def unat_minus_le word_less_nat_alt)
  have kv: "VarIntLen k = Inr (word_of_nat (small_len (unat k)))" if "\<not> h > maxSize"
  proof -
    have "unat k < 2 ^ 14" using kk [OF that] assms(2) by simp
    then have "k \<le> maxVarInt8" "length (varint_bytes k) = small_len (unat k)"
      using varint_small_ok [of "unat k"] length_varint_small [of "unat k"] by simp_all
    then show ?thesis by (simp add: VarIntLen_varint_bytes)
  qed
  have le: "h > maxSize \<longleftrightarrow> frame_len f 0 > unat maxSize" by (simp add: word_less_nat_alt h)
  have "StreamFrame_MaxDataLen f maxSize =
      (if h > maxSize then Inr 0 else if sf_DataLenPresent f
       then tryE (VarIntLen k) (\<lambda>n. Inr (if n \<noteq> 1 then k - 1 else k)) else Inr k)"
    using ids_ok_varints [OF assms(1)]
    by (cases "sf_Offset f = 0"; cases "sf_DataLenPresent f")
      (simp_all add: StreamFrame_MaxDataLen_def VarIntLen_varint_bytes k_def hd Let_def algebra_simps cong: if_cong)
  moreover have "unat (k - 1) = unat k - 1" if "64 \<le> unat k"
    using that by (simp add: unat_minus_le)
  ultimately show ?thesis using le kk kv by (auto simp: small_len_def Let_def)
qed

text \<open>\<open>MaxDataLen\<close> is exact: data of a length from 1 to the returned one, and no longer data,
  makes a frame that fits into \<open>maxSize\<close>.\<close>

theorem MaxDataLen_exact:
  assumes "id_ok (sf_StreamID f)" "varint_ok (sf_Offset f)" "unat maxSize < 2 ^ 14"
  shows "\<exists>m. StreamFrame_MaxDataLen f maxSize = Inr m \<and>
    (\<forall>dat. 0 < length dat \<and> length dat < 2 ^ 14 \<longrightarrow>
      (\<exists>len. StreamFrame_Length (f\<lparr>sf_Data := dat\<rparr>) = Inr len \<and> (len \<le> maxSize \<longleftrightarrow> length dat \<le> unat m)))"
proof -
  have ok: "ids_ok f" using assms by (simp add: ids_ok_def)
  obtain m where m: "StreamFrame_MaxDataLen f maxSize = Inr m"
    "unat m = (if frame_len f 0 > unat maxSize then 0
      else if sf_DataLenPresent f then (let k = unat maxSize - frame_len f 0 in if k < 64 then k else k - 1)
      else unat maxSize - frame_len f 0)"
    using StreamFrame_MaxDataLen_eq [OF ok assms(3)] by blast
  have "\<exists>len. StreamFrame_Length (f\<lparr>sf_Data := dat\<rparr>) = Inr len \<and> (len \<le> maxSize \<longleftrightarrow> length dat \<le> unat m)"
    if d: "0 < length dat" "length dat < 2 ^ 14" for dat
  proof -
    have "frame_len (f\<lparr>sf_Data := dat\<rparr>) n = frame_len f n" for n by (simp add: frame_len_def base_len_def)
    then have "StreamFrame_Length (f\<lparr>sf_Data := dat\<rparr>) = Inr (word_of_nat (frame_len f (length dat)))"
      using StreamFrame_Length_eq [of "f\<lparr>sf_Data := dat\<rparr>"] ok d by (simp add: ids_ok_def)
    moreover have "frame_len f (length dat) < 2 ^ 64"
      using base_len_bounds [OF ok] d by (simp add: frame_len_def small_len_def)
    then have "word_of_nat (frame_len f (length dat)) \<le> maxSize \<longleftrightarrow> frame_len f (length dat) \<le> unat maxSize"
      by (simp only: word_le_nat_alt unat_word_of_nat_id)
    moreover have "frame_len f (length dat) \<le> unat maxSize \<longleftrightarrow> length dat \<le> unat m"
      using d m(2) by (auto simp: frame_len_def small_len_def Let_def)
    ultimately show ?thesis by blast
  qed
  with m show ?thesis by blast
qed

theorem MaxDataLen_exact_witness:
  "\<exists>m. StreamFrame_MaxDataLen (GetStreamFrame\<lparr>sf_Offset := 1000, sf_DataLenPresent := True\<rparr>) 1200 = Inr m \<and>
    (\<forall>dat. 0 < length dat \<and> length dat < 2 ^ 14 \<longrightarrow>
      (\<exists>len. StreamFrame_Length (GetStreamFrame\<lparr>sf_Offset := 1000, sf_DataLenPresent := True\<rparr>\<lparr>sf_Data := dat\<rparr>) = Inr len \<and>
         (len \<le> 1200 \<longleftrightarrow> length dat \<le> unat m)))"
  by (rule MaxDataLen_exact) (simp_all add: id_ok_def varint_ok_def maxVarInt8_def GetStreamFrame_def)

lemma MaybeSplitOffFrame_run:
  assumes "wf_StreamFrame f" "unat maxSize < 2 ^ 14"
  shows "\<exists>new split f'. MaybeSplitOffFrame f maxSize = Inr ((new, split), f') \<and>
    (split \<longleftrightarrow> frame_len f (length (sf_Data f)) > unat maxSize) \<and>
    (case new of None \<Rightarrow> f' = f
     | Some g \<Rightarrow> split \<and> sf_Data g \<noteq> [] \<and> sf_Data f' \<noteq> [] \<and> sf_Data g @ sf_Data f' = sf_Data f \<and>
         sf_StreamID g = sf_StreamID f \<and> sf_StreamID f' = sf_StreamID f \<and>
         sf_Offset g = sf_Offset f \<and> unat (sf_Offset f') = unat (sf_Offset f) + length (sf_Data g) \<and>
         \<not> sf_FinBit g \<and> sf_FinBit f' = sf_FinBit f \<and> wf_StreamFrame g \<and> wf_StreamFrame f' \<and>
         sf_DataLenPresent g = sf_DataLenPresent f \<and> sf_DataLenPresent f' = sf_DataLenPresent f \<and>
         sf_cap g = sf_cap f \<and> sf_fromPool g = sf_fromPool f \<and> sf_cap f' = 1452 \<and> sf_fromPool f' \<and>
         (\<exists>len. StreamFrame_Length g = Inr len \<and> len \<le> maxSize))"
proof -
  let ?d = "sf_Data f"
  have ok: "ids_ok f" and d: "length ?d \<le> 1452" "unat (sf_Offset f) + length ?d < 2 ^ 62"
    and w: "id_ok (sf_StreamID f)"
    using assms(1) by (auto simp: wf_StreamFrame_def ids_ok_def varint_ok_def maxVarInt8_def word_le_nat_alt)
  have L: "StreamFrame_Length f = Inr (word_of_nat (frame_len f (length ?d)))"
    using StreamFrame_Length_eq [OF ok] d by simp
  have "frame_len f (length ?d) < 2 ^ 64"
    using base_len_bounds [OF ok] d by (simp add: frame_len_def small_len_def)
  then have Lc: "word_of_nat (frame_len f (length ?d)) \<le> maxSize \<longleftrightarrow> frame_len f (length ?d) \<le> unat maxSize"
    by (simp only: word_le_nat_alt unat_word_of_nat_id)
  obtain m where m: "StreamFrame_MaxDataLen f maxSize = Inr m"
    "unat m = (if frame_len f 0 > unat maxSize then 0
      else if sf_DataLenPresent f then (let k = unat maxSize - frame_len f 0 in if k < 64 then k else k - 1)
      else unat maxSize - frame_len f 0)"
    using StreamFrame_MaxDataLen_eq [OF ok assms(2)] by blast
  show ?thesis
  proof (cases "frame_len f (length ?d) \<le> unat maxSize \<or> m = 0")
    case True
    then show ?thesis using L Lc m(1) by (auto simp: MaybeSplitOffFrame_def)
  next
    case False
    have m0: "0 < unat m" using False by (simp add: unat_gt_0)
    have lt: "unat m < length ?d" "frame_len f (unat m) \<le> unat maxSize"
      using False m(2) m0 by (auto simp: frame_len_def small_len_def Let_def split: if_splits)
    have rest: "unat (word_of_nat (length ?d) - m :: u64) = length ?d - unat m"
      using lt d by (simp add: unat_minus_le unat_word_of_nat_id)
    define g where "g = \<lparr>sf_StreamID = sf_StreamID f, sf_Offset = sf_Offset f, sf_Data = take (unat m) ?d, sf_cap = sf_cap f,
        sf_FinBit = False, sf_DataLenPresent = sf_DataLenPresent f, sf_fromPool = sf_fromPool f\<rparr>"
    define f' where "f' = f\<lparr>sf_Data := drop (unat m) ?d, sf_cap := 1452, sf_fromPool := True, sf_Offset := sf_Offset f + m\<rparr>"
    have run: "MaybeSplitOffFrame f maxSize = Inr ((Some g, True), f')"
      using False L Lc m(1) rest lt d
      by (simp add: MaybeSplitOffFrame_def Let_def GetStreamFrame_def MaxReceivePacketSize_def g_def f'_def)
    have lg: "length (sf_Data g) = unat m" using lt by (simp add: g_def)
    have "frame_len g (unat m) = frame_len f (unat m)" by (simp add: frame_len_def base_len_def g_def)
    then have "StreamFrame_Length g = Inr (word_of_nat (frame_len f (unat m)))"
      using StreamFrame_Length_eq [of g] ok lt d lg by (simp add: ids_ok_def g_def)
    moreover have "(word_of_nat (frame_len f (unat m)) :: u64) \<le> maxSize"
      using lt(2) assms(2) by (simp add: word_le_nat_alt unat_word_of_nat_id del: of_nat_add)
    moreover have "unat (sf_Offset f + m) = unat (sf_Offset f) + unat m"
      using lt(1) d(2) by (simp add: unat_plus_lt)
    ultimately show ?thesis
      using run False lt d w m0 lg by (auto simp: g_def f'_def wf_StreamFrame_def)
  qed
qed

text \<open>Splitting. When a frame that is to be sent does not fit, the split off frame and the
  remaining frame carry the data of the original one in order, each at its offset, only the rest
  keeps the FIN, both are non-empty, and the split off frame fits. A frame too small to be split is
  left alone.\<close>

theorem MaybeSplitOffFrame_correct:
  assumes "wf_StreamFrame f" "unat maxSize < 2 ^ 14"
  shows "\<exists>new split f'. MaybeSplitOffFrame f maxSize = Inr ((new, split), f') \<and>
    (split \<longleftrightarrow> frame_len f (length (sf_Data f)) > unat maxSize) \<and>
    (case new of None \<Rightarrow> f' = f
     | Some g \<Rightarrow> split \<and> sf_Data g \<noteq> [] \<and> sf_Data f' \<noteq> [] \<and> sf_Data g @ sf_Data f' = sf_Data f \<and>
         sf_StreamID g = sf_StreamID f \<and> sf_StreamID f' = sf_StreamID f \<and>
         sf_Offset g = sf_Offset f \<and> unat (sf_Offset f') = unat (sf_Offset f) + length (sf_Data g) \<and>
         \<not> sf_FinBit g \<and> sf_FinBit f' = sf_FinBit f \<and> wf_StreamFrame g \<and> wf_StreamFrame f' \<and>
         (\<exists>len. StreamFrame_Length g = Inr len \<and> len \<le> maxSize))"
proof -
  note run = MaybeSplitOffFrame_run [OF assms]
  then obtain new split f' where "MaybeSplitOffFrame f maxSize = Inr ((new, split), f')" by blast
  then show ?thesis using run by (intro exI [of _ new] exI [of _ split] exI [of _ f']) (cases new; auto)
qed

theorem MaybeSplitOffFrame_correct_witness:
  "\<exists>new split f'. MaybeSplitOffFrame (GetStreamFrame\<lparr>sf_Data := [1, 2, 3, 4, 5]\<rparr>) 5 = Inr ((new, split), f') \<and> split"
  using MaybeSplitOffFrame_correct [of "GetStreamFrame\<lparr>sf_Data := [1, 2, 3, 4, 5]\<rparr>" 5]
  by (auto simp: wf_StreamFrame_def GetStreamFrame_def id_ok_def frame_len_def base_len_def uint64_of_def
      varint_bytes_def WriteVarInt_def maxVarInt1_def)

end
