(* ===== verification/FrameParser.thy ===== *)
theory FrameParser
  imports WireAck WireStream
begin

text \<open>
  The frame interface and the frame parser: \<open>interface.go\<close> and \<open>frame_parser.go\<close>. A \<open>Frame\<close> is the
  union of the frame structs, \<open>Write\<close> and \<open>Length\<close> dispatch to the methods of each. The lemmas show that
  whatever frame was written is what \<open>ParseNext\<close> returns, also behind padding, that it never panics
  and always makes progress, and which frames it lets through at which encryption level.
\<close>

section \<open>Frames\<close>

datatype Frame =
    FStream StreamFrame
  | FAck AckFrame
  | FPing PingFrame
  | FResetStream ResetStreamFrame
  | FStopSending StopSendingFrame
  | FCrypto CryptoFrame
  | FNewToken NewTokenFrame
  | FMaxData MaxDataFrame
  | FMaxStreamData MaxStreamDataFrame
  | FMaxStreams MaxStreamsFrame
  | FDataBlocked DataBlockedFrame
  | FStreamDataBlocked StreamDataBlockedFrame
  | FStreamsBlocked StreamsBlockedFrame
  | FNewConnectionID NewConnectionIDFrame
  | FRetireConnectionID RetireConnectionIDFrame
  | FPathChallenge PathChallengeFrame
  | FPathResponse PathResponseFrame
  | FConnectionClose ConnectionCloseFrame

fun Frame_Write :: "byte list \<Rightarrow> Frame \<Rightarrow> go_error + byte list" where
  "Frame_Write b (FStream f) = StreamFrame_Write b f"
| "Frame_Write b (FAck f) = AckFrame_Write b f"
| "Frame_Write b (FPing f) = PingFrame_Write b f"
| "Frame_Write b (FResetStream f) = ResetStreamFrame_Write b f"
| "Frame_Write b (FStopSending f) = StopSendingFrame_Write b f"
| "Frame_Write b (FCrypto f) = CryptoFrame_Write b f"
| "Frame_Write b (FNewToken f) = NewTokenFrame_Write b f"
| "Frame_Write b (FMaxData f) = MaxDataFrame_Write b f"
| "Frame_Write b (FMaxStreamData f) = MaxStreamDataFrame_Write b f"
| "Frame_Write b (FMaxStreams f) = MaxStreamsFrame_Write b f"
| "Frame_Write b (FDataBlocked f) = DataBlockedFrame_Write b f"
| "Frame_Write b (FStreamDataBlocked f) = StreamDataBlockedFrame_Write b f"
| "Frame_Write b (FStreamsBlocked f) = StreamsBlockedFrame_Write b f"
| "Frame_Write b (FNewConnectionID f) = NewConnectionIDFrame_Write b f"
| "Frame_Write b (FRetireConnectionID f) = RetireConnectionIDFrame_Write b f"
| "Frame_Write b (FPathChallenge f) = PathChallengeFrame_Write b f"
| "Frame_Write b (FPathResponse f) = PathResponseFrame_Write b f"
| "Frame_Write b (FConnectionClose f) = ConnectionCloseFrame_Write b f"

fun Frame_Length :: "Frame \<Rightarrow> go_error + ByteCount" where
  "Frame_Length (FStream f) = StreamFrame_Length f"
| "Frame_Length (FAck f) = AckFrame_Length f"
| "Frame_Length (FPing f) = PingFrame_Length f"
| "Frame_Length (FResetStream f) = ResetStreamFrame_Length f"
| "Frame_Length (FStopSending f) = StopSendingFrame_Length f"
| "Frame_Length (FCrypto f) = CryptoFrame_Length f"
| "Frame_Length (FNewToken f) = NewTokenFrame_Length f"
| "Frame_Length (FMaxData f) = MaxDataFrame_Length f"
| "Frame_Length (FMaxStreamData f) = MaxStreamDataFrame_Length f"
| "Frame_Length (FMaxStreams f) = MaxStreamsFrame_Length f"
| "Frame_Length (FDataBlocked f) = DataBlockedFrame_Length f"
| "Frame_Length (FStreamDataBlocked f) = StreamDataBlockedFrame_Length f"
| "Frame_Length (FStreamsBlocked f) = StreamsBlockedFrame_Length f"
| "Frame_Length (FNewConnectionID f) = NewConnectionIDFrame_Length f"
| "Frame_Length (FRetireConnectionID f) = RetireConnectionIDFrame_Length f"
| "Frame_Length (FPathChallenge f) = PathChallengeFrame_Length f"
| "Frame_Length (FPathResponse f) = PathResponseFrame_Length f"
| "Frame_Length (FConnectionClose f) = ConnectionCloseFrame_Length f"

text \<open>\<open>reflect.TypeOf(frame).Elem().Name()\<close>\<close>

fun Frame_Name :: "Frame \<Rightarrow> string" where
  "Frame_Name (FStream f) = ''StreamFrame''"
| "Frame_Name (FAck f) = ''AckFrame''"
| "Frame_Name (FPing f) = ''PingFrame''"
| "Frame_Name (FResetStream f) = ''ResetStreamFrame''"
| "Frame_Name (FStopSending f) = ''StopSendingFrame''"
| "Frame_Name (FCrypto f) = ''CryptoFrame''"
| "Frame_Name (FNewToken f) = ''NewTokenFrame''"
| "Frame_Name (FMaxData f) = ''MaxDataFrame''"
| "Frame_Name (FMaxStreamData f) = ''MaxStreamDataFrame''"
| "Frame_Name (FMaxStreams f) = ''MaxStreamsFrame''"
| "Frame_Name (FDataBlocked f) = ''DataBlockedFrame''"
| "Frame_Name (FStreamDataBlocked f) = ''StreamDataBlockedFrame''"
| "Frame_Name (FStreamsBlocked f) = ''StreamsBlockedFrame''"
| "Frame_Name (FNewConnectionID f) = ''NewConnectionIDFrame''"
| "Frame_Name (FRetireConnectionID f) = ''RetireConnectionIDFrame''"
| "Frame_Name (FPathChallenge f) = ''PathChallengeFrame''"
| "Frame_Name (FPathResponse f) = ''PathResponseFrame''"
| "Frame_Name (FConnectionClose f) = ''ConnectionCloseFrame''"

section \<open>The parser\<close>

record frameParser =
  fp_ackDelayExponent :: byte
  fp_version :: VersionNumber

definition DefaultAckDelayExponent :: byte where "DefaultAckDelayExponent = 3"

definition NewFrameParser :: "VersionNumber \<Rightarrow> frameParser" where
  "NewFrameParser v = \<lparr>fp_ackDelayExponent = 0, fp_version = v\<rparr>"

definition SetAckDelayExponent :: "frameParser \<Rightarrow> byte \<Rightarrow> frameParser" where
  "SetAckDelayExponent p e = p\<lparr>fp_ackDelayExponent := e\<rparr>"

fun isAllowedAtEncLevel :: "Frame \<Rightarrow> EncryptionLevel \<Rightarrow> bool" where
  "isAllowedAtEncLevel f EncryptionInitial = (case f of FCrypto _ \<Rightarrow> True | FAck _ \<Rightarrow> True | FConnectionClose _ \<Rightarrow> True | _ \<Rightarrow> False)"
| "isAllowedAtEncLevel f EncryptionHandshake = (case f of FCrypto _ \<Rightarrow> True | FAck _ \<Rightarrow> True | FConnectionClose _ \<Rightarrow> True | _ \<Rightarrow> False)"
| "isAllowedAtEncLevel f Encryption1RTT = True"
| "isAllowedAtEncLevel f EncryptionUnspecified = False"

text \<open>Assigning a parsed frame to the interface variable.\<close>

definition as_frame :: "('a \<Rightarrow> Frame) \<Rightarrow> 'a parse \<Rightarrow> Frame parse" where
  "as_frame c p = tryE p (\<lambda>(f, r). Inr (c f, r))"

definition parseFrame_dispatch :: "frameParser \<Rightarrow> reader \<Rightarrow> byte \<Rightarrow> EncryptionLevel \<Rightarrow> Frame parse" where
  "parseFrame_dispatch p r typeByte encLevel =
    (if typeByte AND 0xf8 = 0x8 then as_frame FStream (parseStreamFrame r)
     else if typeByte = 0x1 then as_frame FPing (parsePingFrame r)
     else if typeByte = 0x2 \<or> typeByte = 0x3 then
       (let ackDelayExponent = (if encLevel \<noteq> Encryption1RTT then DefaultAckDelayExponent else fp_ackDelayExponent p)
        in as_frame FAck (parseAckFrame r ackDelayExponent))
     else if typeByte = 0x4 then as_frame FResetStream (parseResetStreamFrame r)
     else if typeByte = 0x5 then as_frame FStopSending (parseStopSendingFrame r)
     else if typeByte = 0x6 then as_frame FCrypto (parseCryptoFrame r)
     else if typeByte = 0x7 then as_frame FNewToken (parseNewTokenFrame r)
     else if typeByte = 0x10 then as_frame FMaxData (parseMaxDataFrame r)
     else if typeByte = 0x11 then as_frame FMaxStreamData (parseMaxStreamDataFrame r)
     else if typeByte = 0x12 \<or> typeByte = 0x13 then as_frame FMaxStreams (parseMaxStreamsFrame r)
     else if typeByte = 0x14 then as_frame FDataBlocked (parseDataBlockedFrame r)
     else if typeByte = 0x15 then as_frame FStreamDataBlocked (parseStreamDataBlockedFrame r)
     else if typeByte = 0x16 \<or> typeByte = 0x17 then as_frame FStreamsBlocked (parseStreamsBlockedFrame r)
     else if typeByte = 0x18 then as_frame FNewConnectionID (parseNewConnectionIDFrame r)
     else if typeByte = 0x19 then as_frame FRetireConnectionID (parseRetireConnectionIDFrame r)
     else if typeByte = 0x1a then as_frame FPathChallenge (parsePathChallengeFrame r)
     else if typeByte = 0x1b then as_frame FPathResponse (parsePathResponseFrame r)
     else if typeByte = 0x1c \<or> typeByte = 0x1d then as_frame FConnectionClose (parseConnectionCloseFrame r)
     else Inl (Errorf (''unknown type byte 0x%x'', [uint typeByte])))"

definition parseFrame :: "frameParser \<Rightarrow> reader \<Rightarrow> byte \<Rightarrow> EncryptionLevel \<Rightarrow> Frame parse" where
  "parseFrame p r typeByte encLevel =
    tryE (parseFrame_dispatch p r typeByte encLevel) (\<lambda>(frame, r).
      if \<not> isAllowedAtEncLevel frame encLevel
      then Inl (Errorf (Frame_Name frame @ '' not allowed at encryption level '' @ EncryptionLevel_String encLevel, []))
      else Inr (frame, r))"

text \<open>A byte of the reader is looked at and put back unless it is padding.\<close>

fun ParseNext :: "(u64 \<Rightarrow> string) \<Rightarrow> frameParser \<Rightarrow> reader \<Rightarrow> EncryptionLevel \<Rightarrow> Frame option parse" where
  "ParseNext alert p [] encLevel = Inr (None, [])"
| "ParseNext alert p (typeByte # r) encLevel =
    (if typeByte = 0x0 then ParseNext alert p r encLevel
     else case parseFrame p (typeByte # r) typeByte encLevel of
       Inl (Panic m) \<Rightarrow> Inl (Panic m)
     | Inl err \<Rightarrow> Inl (qerr_Error FrameEncodingError (Error_message alert err))
     | Inr (f, r) \<Rightarrow> Inr (Some f, r))"

section \<open>The parsers are clean\<close>

lemma clean_ReadVarInt [clean_intros]: "clean ReadVarInt"
  unfolding ReadVarInt_def Let_def by (intro clean_intros)

lemma clean_eofE [clean_intros]: "clean p \<Longrightarrow> clean (\<lambda>r. eofE (p r))"
  by (auto simp: clean_def eofE_def panics_def)

lemma clean_tryE_pure [clean_intros]:
  "\<not> panics m \<Longrightarrow> (\<And>x. clean (q x)) \<Longrightarrow> clean (\<lambda>r. tryE m (\<lambda>x. q x r))"
  unfolding clean_def panics_tryE tryE_eq_Inr by auto

lemma clean_ReadUint16 [clean_intros]: "clean ReadUint16"
  unfolding ReadUint16_def Let_def by (intro clean_intros)

lemma clean_ReadConnectionID [clean_intros]: "clean (\<lambda>r. ReadConnectionID r n)"
proof -
  have "ReadConnectionID r n = (if n = 0 then Inr ([], r) else eofE (ReadFull n r))" for r
    by (auto simp: ReadConnectionID_def eofE_def split: sum.splits)
  then show ?thesis by (simp only:) (intro clean_intros)
qed

lemma clean_parseAckRanges [clean_intros]: "clean (parseAckRanges n s acc)"
proof (induction n arbitrary: s acc)
  case 0
  have "parseAckRanges 0 s acc = (\<lambda>r. Inr (acc, r))" by (rule ext) simp
  then show ?case by (simp add: clean_intros)
next
  case (Suc n)
  show ?case
    unfolding parseAckRanges.simps [abs_def] Let_def errInvalidAckRanges_def
    by (intro clean_intros Suc.IH)
qed

lemma clean_skipVarInts [clean_intros]: "clean (skipVarInts n)"
proof (induction n)
  case 0
  have "skipVarInts 0 = (\<lambda>r. Inr ((), r))" by (rule ext) simp
  then show ?case by (simp add: clean_intros)
next
  case (Suc n)
  have "skipVarInts (Suc n) = (\<lambda>r. tryE (ReadVarInt r) (\<lambda>(_, r). skipVarInts n r))" by (rule ext) simp
  then show ?case by (simp only:) (intro clean_intros Suc.IH)
qed

lemma clean1_frames:
  "clean1 parsePingFrame"
  "clean1 parseResetStreamFrame"
  "clean1 parseStopSendingFrame"
  "clean1 parseCryptoFrame"
  "clean1 parseNewTokenFrame"
  "clean1 parseMaxDataFrame"
  "clean1 parseMaxStreamDataFrame"
  "clean1 parseMaxStreamsFrame"
  "clean1 parseDataBlockedFrame"
  "clean1 parseStreamDataBlockedFrame"
  "clean1 parseStreamsBlockedFrame"
  "clean1 parseNewConnectionIDFrame"
  "clean1 parseRetireConnectionIDFrame"
  "clean1 parsePathChallengeFrame"
  "clean1 parsePathResponseFrame"
  "clean1 parseConnectionCloseFrame"
  unfolding frame_defs Let_def by (intro clean1_byte_first clean_intros)+

lemma clean1_parseAckFrame: "clean1 (\<lambda>r. parseAckFrame r e)"
  unfolding parseAckFrame_def Let_def errInvalidAckRanges_def
  by (intro clean1_byte_first clean_intros)

lemma clean1_parseStreamFrame: "clean1 parseStreamFrame"
  unfolding parseStreamFrame_def Let_def qerr_Error_def
  by (intro clean1_byte_first clean_intros) (simp_all add: panics_def clean_def)

section \<open>Round trip\<close>

fun wf_Frame :: "Frame \<Rightarrow> bool" where
  "wf_Frame (FStream f) = (wf_StreamFrame f \<and> sf_DataLenPresent f \<and> received f = f)"
| "wf_Frame (FAck f) = wf_AckFrame f"
| "wf_Frame (FPing f) = wf_PingFrame f"
| "wf_Frame (FResetStream f) = wf_ResetStreamFrame f"
| "wf_Frame (FStopSending f) = wf_StopSendingFrame f"
| "wf_Frame (FCrypto f) = wf_CryptoFrame f"
| "wf_Frame (FNewToken f) = wf_NewTokenFrame f"
| "wf_Frame (FMaxData f) = wf_MaxDataFrame f"
| "wf_Frame (FMaxStreamData f) = wf_MaxStreamDataFrame f"
| "wf_Frame (FMaxStreams f) = wf_MaxStreamsFrame f"
| "wf_Frame (FDataBlocked f) = wf_DataBlockedFrame f"
| "wf_Frame (FStreamDataBlocked f) = wf_StreamDataBlockedFrame f"
| "wf_Frame (FStreamsBlocked f) = wf_StreamsBlockedFrame f"
| "wf_Frame (FNewConnectionID f) = wf_NewConnectionIDFrame f"
| "wf_Frame (FRetireConnectionID f) = wf_RetireConnectionIDFrame f"
| "wf_Frame (FPathChallenge f) = wf_PathChallengeFrame f"
| "wf_Frame (FPathResponse f) = wf_PathResponseFrame f"
| "wf_Frame (FConnectionClose f) = wf_ConnectionCloseFrame f"

text \<open>The first byte of a frame.\<close>

fun frame_type :: "Frame \<Rightarrow> byte" where
  "frame_type (FStream f) = stream_type f"
| "frame_type (FAck f) = 2"
| "frame_type (FPing f) = 1"
| "frame_type (FResetStream f) = 4"
| "frame_type (FStopSending f) = 5"
| "frame_type (FCrypto f) = 6"
| "frame_type (FNewToken f) = 7"
| "frame_type (FMaxData f) = 0x10"
| "frame_type (FMaxStreamData f) = 0x11"
| "frame_type (FMaxStreams f) = (case msf_Type f of StreamTypeBidi \<Rightarrow> 0x12 | StreamTypeUni \<Rightarrow> 0x13)"
| "frame_type (FDataBlocked f) = 0x14"
| "frame_type (FStreamDataBlocked f) = 0x15"
| "frame_type (FStreamsBlocked f) = (case sbf_Type f of StreamTypeBidi \<Rightarrow> 0x16 | StreamTypeUni \<Rightarrow> 0x17)"
| "frame_type (FNewConnectionID f) = 0x18"
| "frame_type (FRetireConnectionID f) = 0x19"
| "frame_type (FPathChallenge f) = 0x1a"
| "frame_type (FPathResponse f) = 0x1b"
| "frame_type (FConnectionClose f) = (if ccf_IsApplicationError f then 0x1d else 0x1c)"

lemma WriteVarInt_InrD: "WriteVarInt b i = Inr b' \<Longrightarrow> \<exists>c. b' = b @ c"
  by (auto simp: WriteVarInt_append [of b] tryE_eq_Inr)

lemma WriteVarInt_hd: "WriteVarInt (t # b) i = Inr b' \<Longrightarrow> \<exists>c. b' = t # c"
  using WriteVarInt_InrD [of "t # b" i b'] by auto

lemma WriteUint16_hd: "WriteUint16 (t # b) i = t # WriteUint16 b i"
  by (simp add: WriteUint16_def)

lemma Frame_Write_type:
  assumes "wf_Frame f" "Frame_Write [] f = Inr bs"
  shows "\<exists>c. bs = frame_type f # c"
proof (cases f)
  case (FStream g)
  then show ?thesis using assms by (auto simp: StreamFrame_Write_bytes stream_header_def)
next
  case (FAck g)
  then show ?thesis using assms by (auto simp: wf_AckFrame_bytes ack_bytes_def)
qed (use assms(2) in \<open>auto simp: frame_defs tryE_eq_Inr WriteUint16_hd Let_def split: StreamType.splits if_splits dest!: WriteVarInt_hd\<close>)

lemma as_frame_Inr [simp]: "as_frame c (Inr (x, r)) = Inr (c x, r)"
  by (simp add: as_frame_def)

lemma Frame_codec:
  assumes "wf_Frame f" "fp_ackDelayExponent p = 3"
  shows "\<exists>bs. bs \<noteq> [] \<and> (\<forall>b. Frame_Write b f = Inr (b @ bs)) \<and> Frame_Length f = Inr (word_of_nat (length bs)) \<and>
    (\<forall>r. parseFrame_dispatch p (bs @ r) (frame_type f) lvl = Inr (f, r))"
proof (cases f)
  case (FStream g)
  then show ?thesis using assms stream.codec [of g]
    by (auto simp: parseFrame_dispatch_def stream_type_bits)
next
  case (FAck g)
  then show ?thesis using assms ack.codec [of g]
    by (auto simp: parseFrame_dispatch_def DefaultAckDelayExponent_def)
next
  case (FPing g)
  then show ?thesis using assms(1) ping.codec [of g] by (auto simp: parseFrame_dispatch_def split: StreamType.split)
next
  case (FResetStream g)
  then show ?thesis using assms(1) reset_stream.codec [of g] by (auto simp: parseFrame_dispatch_def split: StreamType.split)
next
  case (FStopSending g)
  then show ?thesis using assms(1) stop_sending.codec [of g] by (auto simp: parseFrame_dispatch_def split: StreamType.split)
next
  case (FCrypto g)
  then show ?thesis using assms(1) crypto.codec [of g] by (auto simp: parseFrame_dispatch_def split: StreamType.split)
next
  case (FNewToken g)
  then show ?thesis using assms(1) new_token.codec [of g] by (auto simp: parseFrame_dispatch_def split: StreamType.split)
next
  case (FMaxData g)
  then show ?thesis using assms(1) max_data.codec [of g] by (auto simp: parseFrame_dispatch_def split: StreamType.split)
next
  case (FMaxStreamData g)
  then show ?thesis using assms(1) max_stream_data.codec [of g] by (auto simp: parseFrame_dispatch_def split: StreamType.split)
next
  case (FMaxStreams g)
  then show ?thesis using assms(1) max_streams.codec [of g] by (auto simp: parseFrame_dispatch_def split: StreamType.split)
next
  case (FDataBlocked g)
  then show ?thesis using assms(1) data_blocked.codec [of g] by (auto simp: parseFrame_dispatch_def split: StreamType.split)
next
  case (FStreamDataBlocked g)
  then show ?thesis using assms(1) stream_data_blocked.codec [of g] by (auto simp: parseFrame_dispatch_def split: StreamType.split)
next
  case (FStreamsBlocked g)
  then show ?thesis using assms(1) streams_blocked.codec [of g] by (auto simp: parseFrame_dispatch_def split: StreamType.split)
next
  case (FNewConnectionID g)
  then show ?thesis using assms(1) new_connection_id.codec [of g] by (auto simp: parseFrame_dispatch_def split: StreamType.split)
next
  case (FRetireConnectionID g)
  then show ?thesis using assms(1) retire_connection_id.codec [of g] by (auto simp: parseFrame_dispatch_def split: StreamType.split)
next
  case (FPathChallenge g)
  then show ?thesis using assms(1) path_challenge.codec [of g] by (auto simp: parseFrame_dispatch_def split: StreamType.split)
next
  case (FPathResponse g)
  then show ?thesis using assms(1) path_response.codec [of g] by (auto simp: parseFrame_dispatch_def split: StreamType.split)
next
  case (FConnectionClose g)
  then show ?thesis using assms(1) connection_close.codec [of g] by (auto simp: parseFrame_dispatch_def split: StreamType.split)
qed

section \<open>ParseNext\<close>

lemma clean1_as_frame: "clean1 q \<Longrightarrow> clean1 (\<lambda>r. as_frame c (q r))"
  unfolding clean1_def clean_def as_frame_def panics_tryE tryE_eq_Inr by fastforce

lemma clean1_if: "clean1 p \<Longrightarrow> clean1 q \<Longrightarrow> clean1 (\<lambda>r. if c then p r else q r)"
  by (cases c) simp_all

lemma clean1_Errorf: "clean1 (\<lambda>r. Inl (Errorf m))"
  by (simp add: clean1_def clean_intros)

lemma clean1_parseFrame: "clean1 (\<lambda>r. parseFrame p r t lvl)"
proof -
  have "clean1 (\<lambda>r. parseFrame_dispatch p r t lvl)"
    unfolding parseFrame_dispatch_def Let_def
    by (intro clean1_if clean1_as_frame clean1_frames clean1_parseStreamFrame clean1_parseAckFrame clean1_Errorf)
  then show ?thesis
    unfolding clean1_def clean_def parseFrame_def panics_tryE tryE_eq_Inr
    by (auto simp: split_paired_Ex panics_def)
qed

lemma ParseNext_cases:
  assumes "ParseNext alert p r lvl = Inr (fo, r')"
  obtains (padding) n where "r = replicate n 0" "r' = []" "fo = None"
    | (frame) n t c f where "r = replicate n 0 @ t # c" "t \<noteq> 0" "fo = Some f" "parseFrame p (t # c) t lvl = Inr (f, r')"
  using assms
proof (induction r)
  case Nil
  then show ?case by (metis ParseNext.simps(1) replicate_0 sum.inject(2) prod.inject)
next
  case (Cons t c)
  show ?case
  proof (cases "t = 0")
    case True
    show ?thesis
    proof (rule Cons.IH)
      show "ParseNext alert p c lvl = Inr (fo, r')" using Cons.prems(3) True by simp
    next
      fix n assume "c = replicate n 0" "r' = []" "fo = None"
      then show ?thesis using Cons.prems(1) [of "Suc n"] True by simp
    next
      fix n t' c' f assume "c = replicate n 0 @ t' # c'" "t' \<noteq> 0" "fo = Some f" "parseFrame p (t' # c') t' lvl = Inr (f, r')"
      then show ?thesis using Cons.prems(2) [of "Suc n" t' c' f] True by simp
    qed
  next
    case False
    then show ?thesis using Cons.prems(3) Cons.prems(2) [of 0 t c]
      by (auto split: sum.splits prod.splits go_error.splits)
  qed
qed

lemma ParseNext_shorter:
  assumes "ParseNext alert p r lvl = Inr (Some f, r')"
  shows "\<exists>bs. bs \<noteq> [] \<and> r = bs @ r'" "length r' < length r"
proof -
  show "\<exists>bs. bs \<noteq> [] \<and> r = bs @ r'" using assms
  proof (cases rule: ParseNext_cases)
    case (frame n t c g)
    then obtain bs where "bs \<noteq> []" "t # c = bs @ r'" using clean1D [OF clean1_parseFrame] by blast
    then show ?thesis using frame(1) by (metis append_assoc append_is_Nil_conv)
  qed simp
  then show "length r' < length r" by auto
qed

lemma ParseNext_padding: "ParseNext alert p (replicate n 0 @ r) lvl = ParseNext alert p r lvl"
  by (induction n) simp_all

lemma ParseNext_frame:
  assumes "wf_Frame f" "fp_ackDelayExponent p = 3" "isAllowedAtEncLevel f lvl"
  obtains bs where "bs \<noteq> []" "\<And>b. Frame_Write b f = Inr (b @ bs)" "Frame_Length f = Inr (word_of_nat (length bs))"
    "\<And>r. ParseNext alert p (bs @ r) lvl = Inr (Some f, r)"
proof -
  from Frame_codec [OF assms(1,2), of lvl] obtain bs where
    bs: "bs \<noteq> []" "\<And>b. Frame_Write b f = Inr (b @ bs)" "Frame_Length f = Inr (word_of_nat (length bs))"
      "\<And>r. parseFrame_dispatch p (bs @ r) (frame_type f) lvl = Inr (f, r)" by blast
  obtain c where c: "bs = frame_type f # c" using Frame_Write_type [OF assms(1)] bs(2) [of "[]"] by auto
  have t: "frame_type f \<noteq> 0"
    by (cases f) (auto simp: stream_type_def split: StreamType.split)
  have "ParseNext alert p (bs @ r) lvl = Inr (Some f, r)" for r
    using bs(4) [of r] t assms(3) by (simp add: c parseFrame_def)
  with bs that show thesis by blast
qed

section \<open>The frames of a packet\<close>

fun IsFrameAckEliciting :: "Frame \<Rightarrow> bool" where
  "IsFrameAckEliciting (FAck f) = False"
| "IsFrameAckEliciting f = True"

definition HasAckElicitingFrames :: "Frame list \<Rightarrow> bool" where
  "HasAckElicitingFrames fs \<longleftrightarrow> list_ex IsFrameAckEliciting fs"

text \<open>
  The loop of the session over the frames of a decrypted packet. What a frame does to the session is
  the argument \<open>handleFrame\<close>; the result is the state and whether the packet was ack-eliciting.
\<close>

function handleFrames ::
  "(u64 \<Rightarrow> string) \<Rightarrow> frameParser \<Rightarrow> EncryptionLevel \<Rightarrow> ('s \<Rightarrow> Frame \<Rightarrow> go_error + 's) \<Rightarrow> 's \<Rightarrow> bool \<Rightarrow> reader \<Rightarrow>
   go_error + 's \<times> bool" where
  "handleFrames alert p lvl handleFrame s isAckEliciting r =
    tryE (ParseNext alert p r lvl) (\<lambda>(frame, r).
      case frame of None \<Rightarrow> Inr (s, isAckEliciting)
      | Some f \<Rightarrow>
        let isAckEliciting = (if IsFrameAckEliciting f then True else isAckEliciting)
        in tryE (handleFrame s f) (\<lambda>s. handleFrames alert p lvl handleFrame s isAckEliciting r))"
  by pat_completeness auto
termination
  by (relation "measure (\<lambda>(alert, p, lvl, h, s, b, r). length r)") (auto dest: ParseNext_shorter(2))

declare handleFrames.simps [simp del]

text \<open>The frames of a packet as they are written one after the other, each behind some padding.\<close>

fun writeFrames :: "(nat \<times> Frame) list \<Rightarrow> byte list \<Rightarrow> go_error + byte list" where
  "writeFrames [] b = Inr b"
| "writeFrames ((n, f) # fs) b = tryE (Frame_Write (b @ replicate n 0) f) (\<lambda>b. writeFrames fs b)"

fun foldE :: "('s \<Rightarrow> 'a \<Rightarrow> 'e + 's) \<Rightarrow> 's \<Rightarrow> 'a list \<Rightarrow> 'e + 's" where
  "foldE h s [] = Inr s"
| "foldE h s (x # xs) = tryE (h s x) (\<lambda>s. foldE h s xs)"

lemma handleFrames_writeFrames:
  assumes "\<And>n f. (n, f) \<in> set fs \<Longrightarrow> wf_Frame f \<and> isAllowedAtEncLevel f lvl" "fp_ackDelayExponent p = 3"
  shows "\<exists>bs. (\<forall>b. writeFrames fs b = Inr (b @ bs)) \<and>
    (\<forall>s e. handleFrames alert p lvl h s e (bs @ replicate k 0) =
      tryE (foldE h s (map snd fs)) (\<lambda>s. Inr (s, e \<or> HasAckElicitingFrames (map snd fs))))"
  using assms(1)
proof (induction fs)
  case Nil
  have "ParseNext alert p (replicate k 0) lvl = Inr (None, [])" using ParseNext_padding [of alert p k "[]" lvl] by simp
  then show ?case by (auto simp: handleFrames.simps HasAckElicitingFrames_def)
next
  case (Cons nf fs)
  obtain n f where nf: "nf = (n, f)" by (cases nf)
  obtain bs where bs: "\<And>b. writeFrames fs b = Inr (b @ bs)"
    "\<And>s e. handleFrames alert p lvl h s e (bs @ replicate k 0) =
      tryE (foldE h s (map snd fs)) (\<lambda>s. Inr (s, e \<or> HasAckElicitingFrames (map snd fs)))"
    using Cons by force
  have f: "wf_Frame f" "isAllowedAtEncLevel f lvl" using Cons.prems [of n f] nf by auto
  obtain cs where cs: "\<And>b. Frame_Write b f = Inr (b @ cs)" "\<And>r. ParseNext alert p (cs @ r) lvl = Inr (Some f, r)"
    using ParseNext_frame [OF f(1) assms(2) f(2)] by metis
  have "writeFrames (nf # fs) b = Inr (b @ (replicate n 0 @ cs @ bs))" for b
    by (simp add: nf cs(1) bs(1))
  moreover have "handleFrames alert p lvl h s e ((replicate n 0 @ cs @ bs) @ replicate k 0) =
      tryE (foldE h s (map snd (nf # fs))) (\<lambda>s. Inr (s, e \<or> HasAckElicitingFrames (map snd (nf # fs))))" for s e
    by (subst handleFrames.simps)
      (auto simp: nf ParseNext_padding cs(2) bs(2) tryE_assoc HasAckElicitingFrames_def intro!: tryE_cong)
  ultimately show ?case by blast
qed

text \<open>The frames written into a packet, each possibly behind padding, are handled by the
  receiver one by one in the order in which they were written, whatever handling a frame does, and
  the packet counts as ack-eliciting exactly when one of its frames is.\<close>

theorem packet_frames_roundtrip:
  assumes "\<forall>(n, f) \<in> set fs. wf_Frame f \<and> isAllowedAtEncLevel f lvl" "fp_ackDelayExponent p = 3"
  shows "\<exists>bs. writeFrames fs [] = Inr bs \<and>
    (\<forall>h s. handleFrames alert p lvl h s False (bs @ replicate k 0) =
      tryE (foldE h s (map snd fs)) (\<lambda>s. Inr (s, HasAckElicitingFrames (map snd fs))))"
proof -
  have w: "wf_Frame f \<and> isAllowedAtEncLevel f lvl" if "(n, f) \<in> set fs" for n f using assms(1) that by auto
  have ex: "\<exists>bs. (\<forall>b. writeFrames fs b = Inr (b @ bs)) \<and>
    (\<forall>s e. handleFrames alert p lvl h s e (bs @ replicate k 0) =
      tryE (foldE h s (map snd fs)) (\<lambda>s. Inr (s, e \<or> HasAckElicitingFrames (map snd fs))))" for h
    by (rule handleFrames_writeFrames) (use w assms(2) in auto)
  obtain bs where bs: "writeFrames fs [] = Inr bs" using ex by force
  have "handleFrames alert p lvl h s False (bs @ replicate k 0) =
      tryE (foldE h s (map snd fs)) (\<lambda>s. Inr (s, HasAckElicitingFrames (map snd fs)))" for h s
    using ex [of h] bs by auto
  with bs show ?thesis by blast
qed

theorem packet_frames_roundtrip_witness:
  "\<exists>bs. writeFrames [(2, FPing ()), (0, FMaxData \<lparr>mdf_ByteOffset = 5\<rparr>)] [] = Inr bs \<and>
    (\<forall>h s. handleFrames (\<lambda>_. []) (SetAckDelayExponent (NewFrameParser VersionTLS) 3) Encryption1RTT h (s :: nat) False (bs @ replicate 3 0) =
      tryE (foldE h s [FPing (), FMaxData \<lparr>mdf_ByteOffset = 5\<rparr>]) (\<lambda>s. Inr (s, True)))"
  using packet_frames_roundtrip [of "[(2, FPing ()), (0, FMaxData \<lparr>mdf_ByteOffset = 5\<rparr>)]" Encryption1RTT
    "SetAckDelayExponent (NewFrameParser VersionTLS) 3" "\<lambda>_. []" 3]
  by (simp add: HasAckElicitingFrames_def frame_defs maxVarInt8_def SetAckDelayExponent_def NewFrameParser_def)

text \<open>C19. Whatever bytes arrive, \<open>ParseNext\<close> does not panic. An error is always a frame encoding
  error. No frame is returned only when all the input is padding. A returned frame is one that is
  allowed at the encryption level, and a non-empty prefix of the input was consumed for it, so the
  loop over the frames of a packet ends.\<close>

theorem ParseNext_safe:
  "case ParseNext alert p r lvl of
     Inl e \<Rightarrow> \<exists>m. e = qerr_Error FrameEncodingError m
   | Inr (None, r') \<Rightarrow> r' = [] \<and> r = replicate (length r) 0
   | Inr (Some f, r') \<Rightarrow> isAllowedAtEncLevel f lvl \<and> length r' < length r \<and> (\<exists>bs. r = bs @ r')"
proof (cases "ParseNext alert p r lvl")
  case (Inl e)
  have "\<not> panics (parseFrame p r t lvl)" for r t using clean1_not_panics [OF clean1_parseFrame] .
  then have "\<exists>m. e = qerr_Error FrameEncodingError m" using Inl
    by (induction r) (auto simp: panics_def simp del: split_paired_Ex split_paired_All
        split: if_splits sum.splits go_error.splits prod.splits)
  then show ?thesis using Inl by simp
next
  case (Inr x)
  obtain fo r' where x: "x = (fo, r')" by (cases x)
  have run: "ParseNext alert p r lvl = Inr (fo, r')" using Inr x by simp
  then show ?thesis
  proof (cases rule: ParseNext_cases)
    case (padding n)
    then show ?thesis using run by simp
  next
    case (frame n t c f)
    have "isAllowedAtEncLevel f lvl" using frame(4) by (auto simp: parseFrame_def tryE_eq_Inr split: if_splits)
    then show ?thesis using run frame(3) ParseNext_shorter [of alert p r lvl f r'] by auto
  qed
qed

text \<open>Of the frames a peer can send in Initial and Handshake packets, only CRYPTO, ACK and
  CONNECTION\_CLOSE get through, and a packet without an encryption level yields no frame at all.\<close>

theorem isAllowedAtEncLevel_iff:
  "isAllowedAtEncLevel f lvl \<longleftrightarrow> lvl = Encryption1RTT \<or>
     (lvl = EncryptionInitial \<or> lvl = EncryptionHandshake) \<and>
     Frame_Name f \<in> {''CryptoFrame'', ''AckFrame'', ''ConnectionCloseFrame''}"
  by (cases lvl; cases f) simp_all

end
