(* ===== verification/ReceivedTracker.thy ===== *)
theory ReceivedTracker
  imports ReceivedHistory FrameParser
begin

text \<open>
  When to send acknowledgements, and of what: \<open>received_packet_tracker.go\<close> and
  \<open>received_packet_handler.go\<close>. The clock and the round trip statistics are arguments. The lemmas
  show that acknowledgements are never sent for packets that did not arrive, that an ack-eliciting
  packet is acknowledged at once or has the alarm set within the maximum delay, and how the three
  packet number spaces are kept apart.
\<close>

section \<open>The tracker\<close>

definition initialAckElicitingPacketsBeforeAck :: int where "initialAckElicitingPacketsBeforeAck = 2"
definition ackElicitingPacketsBeforeAck :: int where "ackElicitingPacketsBeforeAck = 10"
definition ackDecimationDelay :: rat where "ackDecimationDelay = 1 / 4"
definition shortAckDecimationDelay :: rat where "shortAckDecimationDelay = 1 / 8"
definition minReceivedBeforeAckDecimation :: PacketNumber where "minReceivedBeforeAckDecimation = 100"
definition maxPacketsAfterNewMissing :: PacketNumber where "maxPacketsAfterNewMissing = 4"
definition MaxAckDelay :: Duration where "MaxAckDelay = 25 * Millisecond"

record receivedPacketTracker =
  largestObserved :: PacketNumber
  ignoreBelow :: PacketNumber
  largestObservedReceivedTime :: Time
  packetHistory :: receivedPacketHistory
  rpt_maxAckDelay :: Duration
  packetsReceivedSinceLastAck :: int
  ackElicitingPacketsReceivedSinceLastAck :: int
  ackQueued :: bool
  ackAlarm :: Time
  lastAck :: "AckFrame option"

definition newReceivedPacketTracker :: receivedPacketTracker where
  "newReceivedPacketTracker =
    \<lparr>largestObserved = 0, ignoreBelow = 0, largestObservedReceivedTime = 0, packetHistory = newReceivedPacketHistory,
     rpt_maxAckDelay = MaxAckDelay, packetsReceivedSinceLastAck = 0, ackElicitingPacketsReceivedSinceLastAck = 0,
     ackQueued = False, ackAlarm = 0, lastAck = None\<rparr>"

definition isMissing :: "receivedPacketTracker \<Rightarrow> PacketNumber \<Rightarrow> go_error + bool" where
  "isMissing h p =
    (case lastAck h of None \<Rightarrow> Inr False
     | Some ack \<Rightarrow>
       if p < ignoreBelow h then Inr False
       else tryE (LargestAcked ack) (\<lambda>largest.
         if p < largest then tryE (AcksPacket ack p) (\<lambda>b. Inr (\<not> b)) else Inr False))"

definition hasNewMissingPackets :: "receivedPacketTracker \<Rightarrow> go_error + bool" where
  "hasNewMissingPackets h =
    (case lastAck h of None \<Rightarrow> Inr False
     | Some ack \<Rightarrow>
       let highestRange = GetHighestAckRange (packetHistory h)
       in tryE (LargestAcked ack) (\<lambda>largest.
         Inr (Smallest highestRange \<ge> largest \<and> AckRange_Len highestRange \<le> maxPacketsAfterNewMissing)))"

text \<open>The alarm for an ack-eliciting packet when no ACK is queued for it.\<close>

definition setAckTimer :: "receivedPacketTracker \<Rightarrow> RTTStats \<Rightarrow> PacketNumber \<Rightarrow> Time \<Rightarrow> receivedPacketTracker" where
  "setAckTimer h rttStats packetNumber rcvTime =
    (if packetNumber > minReceivedBeforeAckDecimation then
       (if ackElicitingPacketsReceivedSinceLastAck h \<ge> ackElicitingPacketsBeforeAck then h\<lparr>ackQueued := True\<rparr>
        else if IsZero (ackAlarm h) then
          let ackDelay = MinDuration (rpt_maxAckDelay h)
                (int64_of_float (f64 (float64_of_int (minRTT rttStats) * ackDecimationDelay)))
          in h\<lparr>ackAlarm := Time_Add rcvTime ackDelay\<rparr>
        else h)
     else
       (if ackElicitingPacketsReceivedSinceLastAck h \<ge> initialAckElicitingPacketsBeforeAck then h\<lparr>ackQueued := True\<rparr>
        else if IsZero (ackAlarm h) then h\<lparr>ackAlarm := Time_Add rcvTime (rpt_maxAckDelay h)\<rparr>
        else h))"

definition maybeQueueAck ::
  "receivedPacketTracker \<Rightarrow> RTTStats \<Rightarrow> PacketNumber \<Rightarrow> Time \<Rightarrow> bool \<Rightarrow> bool \<Rightarrow> go_error + receivedPacketTracker" where
  "maybeQueueAck h rttStats packetNumber rcvTime shouldInstigateAck wasMissing =
    (let h = h\<lparr>packetsReceivedSinceLastAck := packetsReceivedSinceLastAck h + 1\<rparr>
     in case lastAck h of None \<Rightarrow> Inr (h\<lparr>ackQueued := True\<rparr>)
     | Some _ \<Rightarrow>
       let h = (if wasMissing then h\<lparr>ackQueued := True\<rparr> else h)
       in tryE
         (if \<not> ackQueued h \<and> shouldInstigateAck then
            let h = h\<lparr>ackElicitingPacketsReceivedSinceLastAck := ackElicitingPacketsReceivedSinceLastAck h + 1\<rparr>;
                h = setAckTimer h rttStats packetNumber rcvTime
            in tryE (hasNewMissingPackets h) (\<lambda>new.
              if new then
                let ackDelay = int64_of_float (f64 (float64_of_int (minRTT rttStats) * shortAckDecimationDelay));
                    ackTime = Time_Add rcvTime ackDelay
                in Inr (if IsZero (ackAlarm h) \<or> ackAlarm h > ackTime then h\<lparr>ackAlarm := ackTime\<rparr> else h)
              else Inr h)
          else Inr h)
         (\<lambda>h. Inr (if ackQueued h then h\<lparr>ackAlarm := 0\<rparr> else h)))"

definition tracker_ReceivedPacket ::
  "receivedPacketTracker \<Rightarrow> RTTStats \<Rightarrow> PacketNumber \<Rightarrow> Time \<Rightarrow> bool \<Rightarrow> go_error + receivedPacketTracker" where
  "tracker_ReceivedPacket h rttStats packetNumber rcvTime shouldInstigateAck =
    (if packetNumber < ignoreBelow h then Inr h
     else tryE (isMissing h packetNumber) (\<lambda>missing.
       let h = (if packetNumber \<ge> largestObserved h
                then h\<lparr>largestObserved := packetNumber, largestObservedReceivedTime := rcvTime\<rparr> else h);
           h = h\<lparr>packetHistory := history_ReceivedPacket (packetHistory h) packetNumber\<rparr>
       in maybeQueueAck h rttStats packetNumber rcvTime shouldInstigateAck missing))"

definition tracker_IgnoreBelow :: "receivedPacketTracker \<Rightarrow> PacketNumber \<Rightarrow> receivedPacketTracker" where
  "tracker_IgnoreBelow h p =
    (if p \<le> ignoreBelow h then h
     else let h = h\<lparr>ignoreBelow := p\<rparr> in h\<lparr>packetHistory := DeleteBelow (packetHistory h) p\<rparr>)"

definition tracker_GetAckFrame :: "Time \<Rightarrow> receivedPacketTracker \<Rightarrow> AckFrame option \<times> receivedPacketTracker" where
  "tracker_GetAckFrame now h =
    (if \<not> ackQueued h \<and> (IsZero (ackAlarm h) \<or> ackAlarm h > now) then (None, h)
     else
       let ack = \<lparr>AckRanges = GetAckRanges (packetHistory h),
                  DelayTime = MaxDuration 0 (Time_Sub now (largestObservedReceivedTime h))\<rparr>
       in (Some ack, h\<lparr>lastAck := Some ack, ackAlarm := 0, ackQueued := False, packetsReceivedSinceLastAck := 0,
                       ackElicitingPacketsReceivedSinceLastAck := 0\<rparr>))"

definition tracker_GetAlarmTimeout :: "receivedPacketTracker \<Rightarrow> Time" where
  "tracker_GetAlarmTimeout h = ackAlarm h"

section \<open>The handler of the three packet number spaces\<close>

record receivedPacketHandler =
  initialPackets :: "receivedPacketTracker option"
  handshakePackets :: "receivedPacketTracker option"
  oneRTTPackets :: receivedPacketTracker

definition NewReceivedPacketHandler :: receivedPacketHandler where
  "NewReceivedPacketHandler =
    \<lparr>initialPackets = Some newReceivedPacketTracker, handshakePackets = Some newReceivedPacketTracker,
     oneRTTPackets = newReceivedPacketTracker\<rparr>"

definition nil_dereference :: go_error where
  "nil_dereference = Panic (''invalid memory address or nil pointer dereference'', [])"

fun handler_ReceivedPacket ::
  "receivedPacketHandler \<Rightarrow> RTTStats \<Rightarrow> PacketNumber \<Rightarrow> EncryptionLevel \<Rightarrow> Time \<Rightarrow> bool \<Rightarrow> go_error + receivedPacketHandler" where
  "handler_ReceivedPacket h rttStats pn EncryptionInitial rcvTime shouldInstigateAck =
    (case initialPackets h of None \<Rightarrow> Inl nil_dereference
     | Some t \<Rightarrow> tryE (tracker_ReceivedPacket t rttStats pn rcvTime shouldInstigateAck) (\<lambda>t. Inr (h\<lparr>initialPackets := Some t\<rparr>)))"
| "handler_ReceivedPacket h rttStats pn EncryptionHandshake rcvTime shouldInstigateAck =
    (case handshakePackets h of None \<Rightarrow> Inl nil_dereference
     | Some t \<Rightarrow> tryE (tracker_ReceivedPacket t rttStats pn rcvTime shouldInstigateAck) (\<lambda>t. Inr (h\<lparr>handshakePackets := Some t\<rparr>)))"
| "handler_ReceivedPacket h rttStats pn Encryption1RTT rcvTime shouldInstigateAck =
    tryE (tracker_ReceivedPacket (oneRTTPackets h) rttStats pn rcvTime shouldInstigateAck) (\<lambda>t. Inr (h\<lparr>oneRTTPackets := t\<rparr>))"
| "handler_ReceivedPacket h rttStats pn EncryptionUnspecified rcvTime shouldInstigateAck =
    Inl (Panic (''received packet with unknown encryption level: unknown'', []))"

definition handler_IgnoreBelow :: "receivedPacketHandler \<Rightarrow> PacketNumber \<Rightarrow> receivedPacketHandler" where
  "handler_IgnoreBelow h pn = h\<lparr>oneRTTPackets := tracker_IgnoreBelow (oneRTTPackets h) pn\<rparr>"

fun handler_DropPackets :: "receivedPacketHandler \<Rightarrow> EncryptionLevel \<Rightarrow> go_error + receivedPacketHandler" where
  "handler_DropPackets h EncryptionInitial = Inr (h\<lparr>initialPackets := None\<rparr>)"
| "handler_DropPackets h EncryptionHandshake = Inr (h\<lparr>handshakePackets := None\<rparr>)"
| "handler_DropPackets h encLevel =
    Inl (Panic (''Cannot drop keys for encryption level '' @ EncryptionLevel_String encLevel, []))"

definition handler_GetAlarmTimeout :: "receivedPacketHandler \<Rightarrow> Time" where
  "handler_GetAlarmTimeout h =
    (let initialAlarm = (case initialPackets h of None \<Rightarrow> 0 | Some t \<Rightarrow> tracker_GetAlarmTimeout t);
         handshakeAlarm = (case handshakePackets h of None \<Rightarrow> 0 | Some t \<Rightarrow> tracker_GetAlarmTimeout t);
         oneRTTAlarm = tracker_GetAlarmTimeout (oneRTTPackets h)
     in MinNonZeroTime (MinNonZeroTime initialAlarm handshakeAlarm) oneRTTAlarm)"

text \<open>For Initial and Handshake packets the delay is cleared in the frame, which the tracker shares
  as its last ACK.\<close>

definition clearDelay :: "AckFrame option \<times> receivedPacketTracker \<Rightarrow> AckFrame option \<times> receivedPacketTracker" where
  "clearDelay r =
    (case r of (None, t) \<Rightarrow> (None, t)
     | (Some ack, t) \<Rightarrow> let ack = ack\<lparr>DelayTime := 0\<rparr> in (Some ack, t\<lparr>lastAck := Some ack\<rparr>))"

fun handler_GetAckFrame :: "Time \<Rightarrow> receivedPacketHandler \<Rightarrow> EncryptionLevel \<Rightarrow> AckFrame option \<times> receivedPacketHandler" where
  "handler_GetAckFrame now h EncryptionInitial =
    (case initialPackets h of None \<Rightarrow> (None, h)
     | Some t \<Rightarrow> let (ack, t) = clearDelay (tracker_GetAckFrame now t) in (ack, h\<lparr>initialPackets := Some t\<rparr>))"
| "handler_GetAckFrame now h EncryptionHandshake =
    (case handshakePackets h of None \<Rightarrow> (None, h)
     | Some t \<Rightarrow> let (ack, t) = clearDelay (tracker_GetAckFrame now t) in (ack, h\<lparr>handshakePackets := Some t\<rparr>))"
| "handler_GetAckFrame now h Encryption1RTT =
    (let (ack, t) = tracker_GetAckFrame now (oneRTTPackets h) in (ack, h\<lparr>oneRTTPackets := t\<rparr>))"
| "handler_GetAckFrame now h EncryptionUnspecified = (None, h)"

section \<open>Lemmas\<close>

definition valid_ack :: "AckFrame \<Rightarrow> bool" where
  "valid_ack a \<longleftrightarrow> AckRanges a \<noteq> [] \<and> ack_chain (AckRanges a) \<and> pn_ok (AckRanges a)"

text \<open>A tracker whose history is in order and whose last ACK, if any, was not empty.\<close>

definition tracker_ok :: "receivedPacketTracker \<Rightarrow> bool" where
  "tracker_ok t \<longleftrightarrow> history_ok (packetHistory t) \<and> deletedBelow (packetHistory t) = ignoreBelow t \<and>
     (\<forall>a. lastAck t = Some a \<longrightarrow> valid_ack a)"

lemma valid_ack_LargestAcked: "valid_ack a \<Longrightarrow> LargestAcked a = Inr (Largest (hd (AckRanges a)))"
  by (simp add: valid_ack_def LargestAcked_def hd_conv_nth)

lemma valid_ack_AcksPacket: "valid_ack a \<Longrightarrow> AcksPacket a p = Inr (p \<in> acked a)"
  by (simp add: valid_ack_def AcksPacket_acked)

lemma isMissing_eq:
  assumes "tracker_ok t"
  shows "isMissing t p = Inr (\<exists>a. lastAck t = Some a \<and> ignoreBelow t \<le> p \<and> p < Largest (hd (AckRanges a)) \<and> p \<notin> acked a)"
  using assms
  by (cases "lastAck t") (auto simp: isMissing_def tracker_ok_def valid_ack_LargestAcked valid_ack_AcksPacket)

lemma setAckTimer_frame:
  "packetHistory (setAckTimer h rtt pn t) = packetHistory h" "lastAck (setAckTimer h rtt pn t) = lastAck h"
  "ignoreBelow (setAckTimer h rtt pn t) = ignoreBelow h" "rpt_maxAckDelay (setAckTimer h rtt pn t) = rpt_maxAckDelay h"
  by (simp_all add: setAckTimer_def Let_def)

lemma hasNewMissingPackets_total:
  assumes "\<And>a. lastAck h = Some a \<Longrightarrow> valid_ack a"
  obtains b where "hasNewMissingPackets h = Inr b"
proof (cases "lastAck h")
  case None
  then show ?thesis using that [of False] by (simp add: hasNewMissingPackets_def)
next
  case (Some a)
  then show ?thesis using that valid_ack_LargestAcked [OF assms] by (auto simp: hasNewMissingPackets_def Let_def)
qed

lemma maybeQueueAck_total:
  assumes "\<And>a. lastAck h = Some a \<Longrightarrow> valid_ack a"
  shows "\<exists>h'. maybeQueueAck h rtt pn t should missing = Inr h' \<and> packetHistory h' = packetHistory h \<and>
    lastAck h' = lastAck h \<and> ignoreBelow h' = ignoreBelow h \<and> rpt_maxAckDelay h' = rpt_maxAckDelay h"
proof (cases "lastAck h")
  case None
  then show ?thesis by (simp add: maybeQueueAck_def)
next
  case (Some a)
  define h1 where "h1 = (if missing then h\<lparr>packetsReceivedSinceLastAck := packetsReceivedSinceLastAck h + 1, ackQueued := True\<rparr>
      else h\<lparr>packetsReceivedSinceLastAck := packetsReceivedSinceLastAck h + 1\<rparr>)"
  define h2 where "h2 = setAckTimer (h1\<lparr>ackElicitingPacketsReceivedSinceLastAck := ackElicitingPacketsReceivedSinceLastAck h1 + 1\<rparr>) rtt pn t"
  have l: "lastAck h1 = lastAck h" "packetHistory h1 = packetHistory h" "ignoreBelow h1 = ignoreBelow h"
    "rpt_maxAckDelay h1 = rpt_maxAckDelay h" by (simp_all add: h1_def)
  have "lastAck h2 = lastAck h" by (simp add: h2_def setAckTimer_frame l)
  then obtain b where b: "hasNewMissingPackets h2 = Inr b"
    using hasNewMissingPackets_total [of h2] assms by metis
  show ?thesis
    using Some b l
    by (simp add: maybeQueueAck_def Let_def flip: h1_def h2_def) (simp add: h2_def setAckTimer_frame l)
qed

lemma maybeQueueAck_history:
  "maybeQueueAck h rtt pn t should missing = Inr h' \<Longrightarrow> packetHistory h' = packetHistory h"
  by (auto simp: maybeQueueAck_def Let_def tryE_eq_Inr setAckTimer_frame split: option.splits if_splits)

lemma tracker_ReceivedPacket_history:
  "tracker_ReceivedPacket h rtt pn t should = Inr h' \<Longrightarrow> packetHistory h' =
    (if pn < ignoreBelow h then packetHistory h else history_ReceivedPacket (packetHistory h) pn)"
  by (auto simp: tracker_ReceivedPacket_def tryE_eq_Inr Let_def dest: maybeQueueAck_history split: if_splits)

lemma tracker_ReceivedPacket_total:
  assumes "tracker_ok h" "0 \<le> pn" "pn < 2 ^ 62"
  shows "\<exists>h'. tracker_ReceivedPacket h rtt pn t should = Inr h' \<and> tracker_ok h' \<and> ignoreBelow h' = ignoreBelow h"
proof (cases "pn < ignoreBelow h")
  case True
  then show ?thesis using assms by (simp add: tracker_ReceivedPacket_def)
next
  case False
  define h1 where "h1 = (if pn \<ge> largestObserved h then h\<lparr>largestObserved := pn, largestObservedReceivedTime := t\<rparr> else h)"
  define h2 where "h2 = h1\<lparr>packetHistory := history_ReceivedPacket (packetHistory h1) pn\<rparr>"
  have f: "lastAck h2 = lastAck h" "ignoreBelow h2 = ignoreBelow h" "packetHistory h2 = history_ReceivedPacket (packetHistory h) pn"
    by (simp_all add: h2_def h1_def)
  obtain m where m: "isMissing h pn = Inr m" using isMissing_eq [OF assms(1)] by blast
  have v: "\<And>a. lastAck h2 = Some a \<Longrightarrow> valid_ack a" using assms(1) f by (simp add: tracker_ok_def)
  obtain h' where h': "maybeQueueAck h2 rtt pn t should m = Inr h'" "packetHistory h' = packetHistory h2"
    "lastAck h' = lastAck h2" "ignoreBelow h' = ignoreBelow h2"
    using maybeQueueAck_total [OF v] by metis
  have "tracker_ReceivedPacket h rtt pn t should = Inr h'"
    using False m h'(1) by (simp add: tracker_ReceivedPacket_def Let_def flip: h1_def h2_def)
  moreover have "tracker_ok h'"
    using assms history_ReceivedPacket_correct [of "packetHistory h" pn] h' f v by (auto simp: tracker_ok_def)
  ultimately show ?thesis using h' f by simp
qed

section \<open>Sequences of events\<close>

datatype tracker_event =
    Recv PacketNumber Time bool
  | Ignore PacketNumber
  | GetAck Time

text \<open>The tracker after the events and the ACK frames it has returned, the latest first.\<close>

fun tracker_run :: "RTTStats \<Rightarrow> receivedPacketTracker \<Rightarrow> AckFrame list \<Rightarrow> tracker_event list \<Rightarrow>
    go_error + receivedPacketTracker \<times> AckFrame list" where
  "tracker_run rtt h acks [] = Inr (h, acks)"
| "tracker_run rtt h acks (Recv pn t should # evs) =
    tryE (tracker_ReceivedPacket h rtt pn t should) (\<lambda>h. tracker_run rtt h acks evs)"
| "tracker_run rtt h acks (Ignore p # evs) = tracker_run rtt (tracker_IgnoreBelow h p) acks evs"
| "tracker_run rtt h acks (GetAck now # evs) =
    (let (ack, h) = tracker_GetAckFrame now h
     in tracker_run rtt h (case ack of None \<Rightarrow> acks | Some a \<Rightarrow> a # acks) evs)"

definition received_pns :: "tracker_event list \<Rightarrow> PacketNumber set" where
  "received_pns evs = {pn. \<exists>t b. Recv pn t b \<in> set evs}"

lemma received_pns_simps [simp]:
  "received_pns [] = {}" "received_pns (Recv pn t b # evs) = insert pn (received_pns evs)"
  "received_pns (Ignore p # evs) = received_pns evs" "received_pns (GetAck now # evs) = received_pns evs"
  by (auto simp: received_pns_def)

lemma tracker_run_sound:
  assumes "tracker_run rtt h acks evs = Inr (h', acks')"
    and "\<And>pn. pn \<in> received_pns evs \<Longrightarrow> 0 \<le> pn \<and> pn < 2 ^ 62"
    and "history_ok (packetHistory h)" "packets (ranges (packetHistory h)) \<subseteq> S"
    and "\<And>a. a \<in> set acks \<Longrightarrow> acked a \<subseteq> S" "received_pns evs \<subseteq> S"
  shows "packets (ranges (packetHistory h')) \<subseteq> S \<and> (\<forall>a \<in> set acks'. acked a \<subseteq> S)"
  using assms
proof (induction evs arbitrary: h acks)
  case (Cons ev evs)
  show ?case
  proof (cases ev)
    case (Recv pn t b)
    then obtain h1 where h1: "tracker_ReceivedPacket h rtt pn t b = Inr h1" "tracker_run rtt h1 acks evs = Inr (h', acks')"
      using Cons.prems(1) by (auto simp: tryE_eq_Inr)
    have "0 \<le> pn" "pn < 2 ^ 62" using Cons.prems(2) [of pn] Recv by simp_all
    then have "history_ok (packetHistory h1)" "packets (ranges (packetHistory h1)) \<subseteq> insert pn (packets (ranges (packetHistory h)))"
      using tracker_ReceivedPacket_history [OF h1(1)] history.add [OF Cons.prems(3)] Cons.prems(3)
      by (auto split: if_splits)
    then show ?thesis using Cons.IH [OF h1(2)] Cons.prems Recv by auto
  next
    case (Ignore p)
    have "history_ok (packetHistory (tracker_IgnoreBelow h p))"
      "packets (ranges (packetHistory (tracker_IgnoreBelow h p))) \<subseteq> packets (ranges (packetHistory h))"
      using history.below [OF Cons.prems(3)] Cons.prems(3) by (auto simp: tracker_IgnoreBelow_def Let_def)
    then show ?thesis using Cons.IH [of "tracker_IgnoreBelow h p" acks] Cons.prems Ignore by auto
  next
    case (GetAck now)
    obtain ack h1 where g: "tracker_GetAckFrame now h = (ack, h1)" by (cases "tracker_GetAckFrame now h")
    have h1: "packetHistory h1 = packetHistory h" and ack: "\<And>a. ack = Some a \<Longrightarrow> acked a = packets (ranges (packetHistory h))"
      using g GetAckRanges_chain(3) [OF Cons.prems(3)]
      by (auto simp: tracker_GetAckFrame_def Let_def split: if_splits)
    let ?acks = "case ack of None \<Rightarrow> acks | Some a \<Rightarrow> a # acks"
    have run: "tracker_run rtt h1 ?acks evs = Inr (h', acks')" using Cons.prems(1) GetAck g by simp
    have "acked a \<subseteq> S" if "a \<in> set ?acks" for a
      using that ack Cons.prems(4,5) by (cases ack) auto
    then show ?thesis using Cons.prems GetAck h1 by (intro Cons.IH [OF run]) simp_all
  qed
qed simp

section \<open>Properties\<close>

text \<open>C24. Acknowledgements are sound: whatever packets arrive in whatever order, however often
  packets are to be ignored and whenever ACK frames are taken, every packet number that an ACK
  frame acknowledges is one that was received before.\<close>

theorem acks_only_received_packets:
  assumes "tracker_run rtt newReceivedPacketTracker [] evs = Inr (h, acks)"
    and "\<forall>pn \<in> received_pns evs. 0 \<le> pn \<and> pn < 2 ^ 62"
  shows "\<forall>a \<in> set acks. acked a \<subseteq> received_pns evs"
  using tracker_run_sound [OF assms(1), of "received_pns evs"] assms(2) history.empty
  by (simp add: newReceivedPacketTracker_def)

theorem acks_only_received_packets_witness:
  "\<exists>h a. tracker_run NewRTTStats newReceivedPacketTracker [] [Recv 4 10 True, Recv 2 20 True, GetAck 30] = Inr (h, [a]) \<and>
    AckRanges a = [\<lparr>Smallest = 4, Largest = 4\<rparr>, \<lparr>Smallest = 2, Largest = 2\<rparr>] \<and> acked a \<subseteq> {4, 2}"
proof -
  obtain h a where r: "tracker_run NewRTTStats newReceivedPacketTracker [] [Recv 4 10 True, Recv 2 20 True, GetAck 30] = Inr (h, [a])"
    "AckRanges a = [\<lparr>Smallest = 4, Largest = 4\<rparr>, \<lparr>Smallest = 2, Largest = 2\<rparr>]"
    by (simp add: tracker_ReceivedPacket_def newReceivedPacketTracker_def isMissing_def maybeQueueAck_def
        history_ReceivedPacket_def newReceivedPacketHistory_def addToRanges_def maybeDeleteOldRanges_def
        MaxNumAckRanges_def tracker_GetAckFrame_def GetAckRanges_def Let_def)
  then show ?thesis using acks_only_received_packets [OF r(1)] by auto
qed

text \<open>C25. A packet that is not below the ignored ones is in the next ACK frame, together with
  everything that was in the history, as long as fewer than 500 ranges are tracked; the ACK is
  valid on the wire.\<close>

theorem next_ack_contains_packet:
  assumes "tracker_ok h" "0 \<le> pn" "pn < 2 ^ 62" "ignoreBelow h \<le> pn" "length (ranges (packetHistory h)) < 500"
    and "tracker_ReceivedPacket h rtt pn t should = Inr h1" "tracker_GetAckFrame now h1 = (Some ack, h2)"
  shows "acked ack = insert pn (packets (ranges (packetHistory h))) \<and> validateAckRanges ack \<and> pn_ok (AckRanges ack) \<and>
    0 \<le> DelayTime ack \<and> tracker_ok h2"
proof -
  have hist: "packetHistory h1 = history_ReceivedPacket (packetHistory h) pn"
    using tracker_ReceivedPacket_history [OF assms(6)] assms(4) by simp
  have ok: "history_ok (packetHistory h)" "deletedBelow (packetHistory h) = ignoreBelow h"
    using assms(1) by (simp_all add: tracker_ok_def)
  have ok1: "history_ok (packetHistory h1)" "packets (ranges (packetHistory h1)) = insert pn (packets (ranges (packetHistory h)))"
    using history_ReceivedPacket_correct [OF ok(1) assms(2,3)] assms(4,5) ok(2) hist by auto
  have ack: "ack = \<lparr>AckRanges = GetAckRanges (packetHistory h1), DelayTime = max 0 (Time_Sub now (largestObservedReceivedTime h1))\<rparr>"
    "packetHistory h2 = packetHistory h1" "lastAck h2 = Some ack" "ignoreBelow h2 = ignoreBelow h1"
    using assms(7) by (auto simp: tracker_GetAckFrame_def Let_def split: if_splits)
  note g = GetAckRanges_chain [OF ok1(1)]
  have ne: "GetAckRanges (packetHistory h1) \<noteq> []" using g(4) ok1(2) by auto
  have va: "valid_ack ack" using g ne by (simp add: valid_ack_def ack(1))
  have "tracker_ok h1" using tracker_ReceivedPacket_total [OF assms(1-3), of rtt t should] assms(6) by auto
  then have "tracker_ok h2" using va ack by (simp add: tracker_ok_def)
  then show ?thesis using g ne ok1(2) ack(1) by (simp add: validateAckRanges_iff)
qed

lemmas tracker_eval = tracker_ReceivedPacket_def newReceivedPacketTracker_def isMissing_def maybeQueueAck_def
  history_ReceivedPacket_def newReceivedPacketHistory_def addToRanges_def maybeDeleteOldRanges_def
  MaxNumAckRanges_def tracker_GetAckFrame_def GetAckRanges_def Let_def

theorem next_ack_contains_packet_witness:
  "\<exists>h1 ack h2. tracker_ReceivedPacket newReceivedPacketTracker NewRTTStats 7 10 True = Inr h1 \<and>
    tracker_GetAckFrame 20 h1 = (Some ack, h2) \<and> acked ack = {7} \<and> validateAckRanges ack"
proof -
  obtain h1 ack h2 where r: "tracker_ReceivedPacket newReceivedPacketTracker NewRTTStats 7 10 True = Inr h1"
    "tracker_GetAckFrame 20 h1 = (Some ack, h2)"
    by (simp add: tracker_eval)
  have "tracker_ok newReceivedPacketTracker" "ignoreBelow newReceivedPacketTracker = 0" "packetHistory newReceivedPacketTracker = newReceivedPacketHistory"
    "ranges newReceivedPacketHistory = []"
    using history.empty by (simp_all add: tracker_ok_def newReceivedPacketTracker_def newReceivedPacketHistory_def)
  then show ?thesis using next_ack_contains_packet [OF _ _ _ _ _ r] r by auto
qed

text \<open>The alarm that a single packet sets is at most the maximum delay away.\<close>

lemma rtt_fraction_nonneg:
  assumes "0 \<le> m" "m < 2 ^ 53"
  shows "int64_of_float (f64 (float64_of_int m * (1 / 4))) = m div 4" "int64_of_float (f64 (float64_of_int m * (1 / 8))) = m div 8"
proof -
  have e: "float64_of_int m = of_int m" using assms by (simp add: float64_of_int_def f64_int)
  have "m < 2 ^ 53 * 4" "m < 2 ^ 53 * 8" using assms(2) by simp_all
  note d = div_range [OF assms(1) this(1)] div_range [OF assms(1) this(2)]
  have clip: "i64 x = x" if "0 \<le> x" "x < 2 ^ 53" for x
    using that by simp
  have q: "i64 (m div 4) = m div 4" "i64 (m div 8) = m div 8" by (intro clip d; simp)+
  have "f64 (of_int m * (1 / 4)) = of_int m / of_int 4" "f64 (of_int m * (1 / 8)) = of_int m / of_int 8"
    using f64_dyadic [of m 2] f64_dyadic [of m 3] assms by simp_all
  then show "int64_of_float (f64 (float64_of_int m * (1 / 4))) = m div 4" "int64_of_float (f64 (float64_of_int m * (1 / 8))) = m div 8"
    unfolding e int64_of_float_def using assms(1) by (simp_all only: trunc_frac q)
qed

lemma setAckTimer_deadline:
  assumes "0 \<le> minRTT rtt" "minRTT rtt < 2 ^ 53" "0 < t" "0 < rpt_maxAckDelay h"
    and "IsZero (ackAlarm h) \<or> 0 < ackAlarm h \<and> ackAlarm h \<le> t + rpt_maxAckDelay h"
  shows "let h' = setAckTimer h rtt pn t in
    ackQueued h' \<or> 0 < ackAlarm h' \<and> ackAlarm h' \<le> t + rpt_maxAckDelay h"
proof -
  have "0 \<le> minRTT rtt div 4" using assms(1) by (simp add: pos_imp_zdiv_nonneg_iff)
  then show ?thesis
    using assms(3-5) rtt_fraction_nonneg(1) [OF assms(1,2)]
    by (auto simp: setAckTimer_def Let_def ackDecimationDelay_def IsZero_def Time_Add_def)
qed

text \<open>No acknowledgement is later than announced. When an ack-eliciting packet arrives that is
  not ignored, the tracker either has an ACK to send at once, or its alarm is set for at most
  \<open>max_ack_delay\<close> after the arrival, provided no later alarm was pending.\<close>

theorem ack_within_max_delay:
  assumes "tracker_ok h" "0 \<le> pn" "pn < 2 ^ 62" "ignoreBelow h \<le> pn" "0 \<le> minRTT rtt" "minRTT rtt < 2 ^ 53"
    and "0 < t" "0 < rpt_maxAckDelay h" "ackAlarm h = 0 \<or> 0 < ackAlarm h \<and> ackAlarm h \<le> t + rpt_maxAckDelay h"
  shows "\<exists>h'. tracker_ReceivedPacket h rtt pn t True = Inr h' \<and>
    (ackQueued h' \<and> (ackAlarm h' = 0 \<or> lastAck h = None) \<or>
     0 < tracker_GetAlarmTimeout h' \<and> tracker_GetAlarmTimeout h' \<le> t + rpt_maxAckDelay h)"
proof -
  define h1 where "h1 = (if pn \<ge> largestObserved h then h\<lparr>largestObserved := pn, largestObservedReceivedTime := t\<rparr> else h)"
  define h2 where "h2 = h1\<lparr>packetHistory := history_ReceivedPacket (packetHistory h1) pn\<rparr>"
  obtain m where m: "isMissing h pn = Inr m" using isMissing_eq [OF assms(1)] by blast
  have run: "tracker_ReceivedPacket h rtt pn t True = maybeQueueAck h2 rtt pn t True m"
    using assms(4) m by (simp add: tracker_ReceivedPacket_def Let_def flip: h1_def h2_def)
  have f: "lastAck h2 = lastAck h" "ackAlarm h2 = ackAlarm h" "ackQueued h2 = ackQueued h" "rpt_maxAckDelay h2 = rpt_maxAckDelay h"
    by (simp_all add: h2_def h1_def)
  show ?thesis
  proof (cases "lastAck h")
    case None
    then show ?thesis using run f by (simp add: maybeQueueAck_def)
  next
    case (Some a)
    define g where "g = (if m then h2\<lparr>packetsReceivedSinceLastAck := packetsReceivedSinceLastAck h2 + 1, ackQueued := True\<rparr>
      else h2\<lparr>packetsReceivedSinceLastAck := packetsReceivedSinceLastAck h2 + 1\<rparr>)"
    have g: "ackAlarm g = ackAlarm h" "rpt_maxAckDelay g = rpt_maxAckDelay h" "lastAck g = Some a" using f Some by (simp_all add: g_def)
    have q: "maybeQueueAck h2 rtt pn t True m = tryE
         (if \<not> ackQueued g then
            let h = setAckTimer (g\<lparr>ackElicitingPacketsReceivedSinceLastAck := ackElicitingPacketsReceivedSinceLastAck g + 1\<rparr>) rtt pn t
            in tryE (hasNewMissingPackets h) (\<lambda>new.
              if new then
                let ackTime = Time_Add t (int64_of_float (f64 (float64_of_int (minRTT rtt) * shortAckDecimationDelay)))
                in Inr (if IsZero (ackAlarm h) \<or> ackAlarm h > ackTime then h\<lparr>ackAlarm := ackTime\<rparr> else h)
              else Inr h)
          else Inr g)
         (\<lambda>h. Inr (if ackQueued h then h\<lparr>ackAlarm := 0\<rparr> else h))"
      using f Some unfolding maybeQueueAck_def Let_def g_def by (simp cong: if_cong)
    define k where "k = setAckTimer (g\<lparr>ackElicitingPacketsReceivedSinceLastAck := ackElicitingPacketsReceivedSinceLastAck g + 1\<rparr>) rtt pn t"
    have k: "ackQueued k \<or> 0 < ackAlarm k \<and> ackAlarm k \<le> t + rpt_maxAckDelay h"
      unfolding k_def using setAckTimer_deadline [of rtt t "g\<lparr>ackElicitingPacketsReceivedSinceLastAck := ackElicitingPacketsReceivedSinceLastAck g + 1\<rparr>" pn]
        assms(5-9) g by (simp add: Let_def IsZero_def)
    have "lastAck k = Some a" by (simp add: k_def setAckTimer_frame g)
    then obtain b where b: "hasNewMissingPackets k = Inr b"
      using hasNewMissingPackets_total [of k] assms(1) Some by (metis tracker_ok_def option.inject)
    have short: "0 \<le> minRTT rtt div 8" using assms(5) by (simp add: pos_imp_zdiv_nonneg_iff)
    have short_eq: "int64_of_float (f64 (float64_of_int (minRTT rtt) * shortAckDecimationDelay)) = minRTT rtt div 8"
      unfolding shortAckDecimationDelay_def using rtt_fraction_nonneg(2) [OF assms(5,6)] .
    show ?thesis
      unfolding run q short_eq
      using b k assms(7) short
      by (auto simp: Let_def IsZero_def Time_Add_def tracker_GetAlarmTimeout_def simp flip: k_def)
  qed
qed

theorem ack_within_max_delay_witness:
  "\<exists>h'. tracker_ReceivedPacket newReceivedPacketTracker NewRTTStats 3 50 True = Inr h' \<and>
    (ackQueued h' \<and> (ackAlarm h' = 0 \<or> lastAck newReceivedPacketTracker = None) \<or>
     0 < tracker_GetAlarmTimeout h' \<and> tracker_GetAlarmTimeout h' \<le> 50 + rpt_maxAckDelay newReceivedPacketTracker)"
  by (rule ack_within_max_delay)
    (use history.empty in \<open>simp_all add: tracker_ok_def newReceivedPacketTracker_def newReceivedPacketHistory_def
      NewRTTStats_def MaxAckDelay_def Millisecond_def Microsecond_def\<close>)


section \<open>The handler\<close>

fun tracker_of :: "receivedPacketHandler \<Rightarrow> EncryptionLevel \<Rightarrow> receivedPacketTracker option" where
  "tracker_of h EncryptionInitial = initialPackets h"
| "tracker_of h EncryptionHandshake = handshakePackets h"
| "tracker_of h Encryption1RTT = Some (oneRTTPackets h)"
| "tracker_of h EncryptionUnspecified = None"

text \<open>The packet number spaces are kept apart: receiving a packet, and taking an ACK frame, at one
  encryption level changes the tracker of that level as the tracker's operation does and no other,
  and the ACK frames of the handshake carry no delay.\<close>

theorem handler_spaces_separate:
  "(case handler_ReceivedPacket h rtt pn lvl t b of
      Inl e \<Rightarrow> tracker_of h lvl = None \<or> tracker_ReceivedPacket (the (tracker_of h lvl)) rtt pn t b = Inl e
    | Inr h' \<Rightarrow> tracker_of h lvl \<noteq> None \<and>
        tracker_ReceivedPacket (the (tracker_of h lvl)) rtt pn t b = Inr (the (tracker_of h' lvl)) \<and>
        tracker_of h' = (tracker_of h)(lvl := tracker_of h' lvl)) \<and>
   (case handler_GetAckFrame now h lvl of (ack, h') \<Rightarrow>
      tracker_of h' = (tracker_of h)(lvl := tracker_of h' lvl) \<and>
      map_option AckRanges ack =
        (case tracker_of h lvl of None \<Rightarrow> None | Some tr \<Rightarrow> map_option AckRanges (fst (tracker_GetAckFrame now tr))) \<and>
      (lvl = Encryption1RTT \<or> (\<forall>a \<in> set_option ack. DelayTime a = 0)))"
proof -
  have ext: "f = (g)(lvl := f lvl)" if "\<And>l. l \<noteq> lvl \<Longrightarrow> f l = g l" for f g :: "EncryptionLevel \<Rightarrow> receivedPacketTracker option"
    using that by (intro ext) simp
  have others: "tracker_of h' l = tracker_of h l" if "handler_ReceivedPacket h rtt pn lvl t b = Inr h'" "l \<noteq> lvl" for h' l
    using that by (cases lvl; cases l) (auto simp: tryE_eq_Inr split: option.splits)
  have others2: "tracker_of (snd (handler_GetAckFrame now h lvl)) l = tracker_of h l" if "l \<noteq> lvl" for l
    using that by (cases lvl; cases l) (auto split: option.splits prod.splits)
  have 1: "case handler_ReceivedPacket h rtt pn lvl t b of
      Inl e \<Rightarrow> tracker_of h lvl = None \<or> tracker_ReceivedPacket (the (tracker_of h lvl)) rtt pn t b = Inl e
    | Inr h' \<Rightarrow> tracker_of h lvl \<noteq> None \<and>
        tracker_ReceivedPacket (the (tracker_of h lvl)) rtt pn t b = Inr (the (tracker_of h' lvl)) \<and>
        tracker_of h' = (tracker_of h)(lvl := tracker_of h' lvl)"
  proof (cases "handler_ReceivedPacket h rtt pn lvl t b")
    case (Inl e)
    then show ?thesis by (cases lvl) (auto simp: tryE_eq_Inl split: option.splits)
  next
    case (Inr h')
    have "tracker_of h' = (tracker_of h)(lvl := tracker_of h' lvl)" using others [OF Inr] by (intro ext) auto
    moreover have "tracker_of h lvl \<noteq> None \<and> tracker_ReceivedPacket (the (tracker_of h lvl)) rtt pn t b = Inr (the (tracker_of h' lvl))"
      using Inr by (cases lvl) (auto simp: tryE_eq_Inr split: option.splits)
    ultimately show ?thesis using Inr by simp
  qed
  have 2: "tracker_of (snd (handler_GetAckFrame now h lvl)) = (tracker_of h)(lvl := tracker_of (snd (handler_GetAckFrame now h lvl)) lvl)"
    using others2 by (intro ext) auto
  have 3: "map_option AckRanges (fst (handler_GetAckFrame now h lvl)) =
        (case tracker_of h lvl of None \<Rightarrow> None | Some tr \<Rightarrow> map_option AckRanges (fst (tracker_GetAckFrame now tr)))"
    by (cases lvl) (auto simp: clearDelay_def Let_def split: option.splits prod.splits)
  have 4: "lvl = Encryption1RTT \<or> (\<forall>a \<in> set_option (fst (handler_GetAckFrame now h lvl)). DelayTime a = 0)"
    by (cases lvl) (auto simp: clearDelay_def Let_def split: option.splits prod.splits)
  show ?thesis using 1 2 3 4 by (simp add: split_beta)
qed

theorem handler_spaces_separate_witness:
  "case handler_GetAckFrame 5 NewReceivedPacketHandler EncryptionInitial of (ack, h') \<Rightarrow>
      tracker_of h' = (tracker_of NewReceivedPacketHandler)(EncryptionInitial := tracker_of h' EncryptionInitial)"
  using handler_spaces_separate [where h = NewReceivedPacketHandler and lvl = EncryptionInitial and now = 5]
  by (auto split: prod.splits)

text \<open>The alarm of the handler is the earliest of the alarms that are set.\<close>

theorem handler_alarm_earliest:
  "let alarms = {a. a \<noteq> 0 \<and> (\<exists>lvl t. tracker_of h lvl = Some t \<and> ackAlarm t = a)}
   in if alarms = {} then handler_GetAlarmTimeout h = 0
      else handler_GetAlarmTimeout h \<in> alarms \<and> (\<forall>a \<in> alarms. handler_GetAlarmTimeout h \<le> a)"
proof -
  define alarms where "alarms = {a. a \<noteq> 0 \<and> (\<exists>lvl t. tracker_of h lvl = Some t \<and> ackAlarm t = a)}"
  define x where "x = (case initialPackets h of None \<Rightarrow> 0 | Some t \<Rightarrow> ackAlarm t)"
  define y where "y = (case handshakePackets h of None \<Rightarrow> 0 | Some t \<Rightarrow> ackAlarm t)"
  define z where "z = ackAlarm (oneRTTPackets h)"
  have al: "alarms = {x, y, z} - {0}"
  proof
    show "alarms \<subseteq> {x, y, z} - {0}"
    proof
      fix a assume "a \<in> alarms"
      then obtain lvl t where "a \<noteq> 0" "tracker_of h lvl = Some t" "ackAlarm t = a" by (auto simp: alarms_def)
      then show "a \<in> {x, y, z} - {0}" by (cases lvl) (auto simp: x_def y_def z_def)
    qed
    have "x = 0 \<or> (\<exists>t. tracker_of h EncryptionInitial = Some t \<and> ackAlarm t = x)"
      "y = 0 \<or> (\<exists>t. tracker_of h EncryptionHandshake = Some t \<and> ackAlarm t = y)"
      "\<exists>t. tracker_of h Encryption1RTT = Some t \<and> ackAlarm t = z"
      by (auto simp: x_def y_def z_def split: option.split)
    then show "{x, y, z} - {0} \<subseteq> alarms" unfolding alarms_def by blast
  qed
  have run: "handler_GetAlarmTimeout h = MinNonZeroTime (MinNonZeroTime x y) z"
    by (simp add: handler_GetAlarmTimeout_def tracker_GetAlarmTimeout_def x_def y_def z_def cong: option.case_cong)
  show ?thesis
    unfolding Let_def alarms_def [symmetric] al run
    by (cases "x = 0"; cases "y = 0"; cases "z = 0") (auto simp: MinNonZeroTime_def IsZero_def min_def)
qed

theorem handler_alarm_earliest_witness:
  "handler_GetAlarmTimeout (NewReceivedPacketHandler
     \<lparr>initialPackets := Some (newReceivedPacketTracker\<lparr>ackAlarm := 7\<rparr>),
      oneRTTPackets := newReceivedPacketTracker\<lparr>ackAlarm := 9\<rparr>\<rparr>) \<le> 9"
proof -
  let ?h = "NewReceivedPacketHandler
     \<lparr>initialPackets := Some (newReceivedPacketTracker\<lparr>ackAlarm := 7\<rparr>),
      oneRTTPackets := newReceivedPacketTracker\<lparr>ackAlarm := 9\<rparr>\<rparr>"
  let ?alarms = "{a. a \<noteq> 0 \<and> (\<exists>lvl t. tracker_of ?h lvl = Some t \<and> ackAlarm t = a)}"
  have "tracker_of ?h Encryption1RTT = Some (newReceivedPacketTracker\<lparr>ackAlarm := 9\<rparr>)" by simp
  moreover have "ackAlarm (newReceivedPacketTracker\<lparr>ackAlarm := 9\<rparr>) = 9" by simp
  moreover have "(9 :: Time) \<noteq> 0" by simp
  ultimately have "9 \<in> ?alarms" by blast
  then show ?thesis using handler_alarm_earliest [of ?h] unfolding Let_def by (metis (lifting) empty_iff)
qed

end
