(* ===== verification/Congestion.thy ===== *)
theory Congestion
  imports RttStats Protocol
begin

text \<open>
  Congestion control: \<open>hybrid_slow_start.go\<close>, \<open>prr_sender.go\<close>, \<open>cubic.go\<close>, \<open>bandwidth.go\<close> and
  \<open>cubic_sender.go\<close> of \<open>core/congestion\<close>. The round trip statistics, which the sender shares with the
  rest of the session, are an argument of the operations that read them. The lemmas show that the
  congestion window stays between its limits, when it grows and shrinks and by how much.
\<close>

section \<open>Hybrid slow start\<close>

definition DefaultTCPMSS :: ByteCount where "DefaultTCPMSS = 1460"
definition hybridStartLowWindow :: ByteCount where "hybridStartLowWindow = 16"
definition hybridStartMinSamples :: u32 where "hybridStartMinSamples = 8"
definition hybridStartDelayFactorExp :: nat where "hybridStartDelayFactorExp = 3"
definition hybridStartDelayMinThresholdUs :: int where "hybridStartDelayMinThresholdUs = 4000"
definition hybridStartDelayMaxThresholdUs :: int where "hybridStartDelayMaxThresholdUs = 16000"

definition MinInt64 :: "int \<Rightarrow> int \<Rightarrow> int" where
  "MinInt64 a b = (if a < b then a else b)"

definition MaxInt64 :: "int \<Rightarrow> int \<Rightarrow> int" where
  "MaxInt64 a b = (if a > b then a else b)"

definition utils_Max :: "int \<Rightarrow> int \<Rightarrow> int" where
  "utils_Max a b = (if a < b then b else a)"

record HybridSlowStart =
  endPacketNumber :: PacketNumber
  lastSentPacketNumber :: PacketNumber
  hss_started :: bool
  currentMinRTT :: Duration
  rttSampleCount :: u32
  hystartFound :: bool

definition zeroHybridSlowStart :: HybridSlowStart where
  "zeroHybridSlowStart = \<lparr>endPacketNumber = 0, lastSentPacketNumber = 0, hss_started = False, currentMinRTT = 0,
     rttSampleCount = 0, hystartFound = False\<rparr>"

definition StartReceiveRound :: "HybridSlowStart \<Rightarrow> PacketNumber \<Rightarrow> HybridSlowStart" where
  "StartReceiveRound s lastSent =
    s\<lparr>endPacketNumber := lastSent, currentMinRTT := 0, rttSampleCount := 0, hss_started := True\<rparr>"

definition IsEndOfRound :: "HybridSlowStart \<Rightarrow> PacketNumber \<Rightarrow> bool" where
  "IsEndOfRound s ack \<longleftrightarrow> endPacketNumber s < ack"

definition ShouldExitSlowStart :: "HybridSlowStart \<Rightarrow> Duration \<Rightarrow> Duration \<Rightarrow> ByteCount \<Rightarrow> bool \<times> HybridSlowStart" where
  "ShouldExitSlowStart s latest minR cwnd =
    (let s = (if \<not> hss_started s then StartReceiveRound s (lastSentPacketNumber s) else s)
     in if hystartFound s then (True, s)
     else
       let s = s\<lparr>rttSampleCount := rttSampleCount s + 1\<rparr>;
           s = (if rttSampleCount s \<le> hybridStartMinSamples \<and> (currentMinRTT s = 0 \<or> currentMinRTT s > latest)
                then s\<lparr>currentMinRTT := latest\<rparr> else s);
           s = (if rttSampleCount s = hybridStartMinSamples then
                  let thresholdUs = drop_bit hybridStartDelayFactorExp (minR sdiv Microsecond);
                      thresholdUs = MinInt64 thresholdUs hybridStartDelayMaxThresholdUs;
                      threshold = i64 (MaxInt64 thresholdUs hybridStartDelayMinThresholdUs * Microsecond)
                  in if currentMinRTT s > i64 (minR + threshold) then s\<lparr>hystartFound := True\<rparr> else s
                else s)
       in (cwnd \<ge> hybridStartLowWindow \<and> hystartFound s, s))"

definition hss_OnPacketSent :: "HybridSlowStart \<Rightarrow> PacketNumber \<Rightarrow> HybridSlowStart" where
  "hss_OnPacketSent s pn = s\<lparr>lastSentPacketNumber := pn\<rparr>"

definition hss_OnPacketAcked :: "HybridSlowStart \<Rightarrow> PacketNumber \<Rightarrow> HybridSlowStart" where
  "hss_OnPacketAcked s acked = (if IsEndOfRound s acked then s\<lparr>hss_started := False\<rparr> else s)"

definition hss_Restart :: "HybridSlowStart \<Rightarrow> HybridSlowStart" where
  "hss_Restart s = s\<lparr>hss_started := False, hystartFound := False\<rparr>"

section \<open>Proportional rate reduction\<close>

record PrrSender =
  bytesSentSinceLoss :: ByteCount
  bytesDeliveredSinceLoss :: ByteCount
  ackCountSinceLoss :: ByteCount
  bytesInFlightBeforeLoss :: ByteCount

definition zeroPrrSender :: PrrSender where
  "zeroPrrSender = \<lparr>bytesSentSinceLoss = 0, bytesDeliveredSinceLoss = 0, ackCountSinceLoss = 0, bytesInFlightBeforeLoss = 0\<rparr>"

definition prr_OnPacketSent :: "PrrSender \<Rightarrow> ByteCount \<Rightarrow> PrrSender" where
  "prr_OnPacketSent p sentBytes = p\<lparr>bytesSentSinceLoss := bytesSentSinceLoss p + sentBytes\<rparr>"

definition prr_OnPacketLost :: "PrrSender \<Rightarrow> ByteCount \<Rightarrow> PrrSender" where
  "prr_OnPacketLost p priorInFlight =
    p\<lparr>bytesSentSinceLoss := 0, bytesInFlightBeforeLoss := priorInFlight, bytesDeliveredSinceLoss := 0, ackCountSinceLoss := 0\<rparr>"

definition prr_OnPacketAcked :: "PrrSender \<Rightarrow> ByteCount \<Rightarrow> PrrSender" where
  "prr_OnPacketAcked p ackedBytes =
    p\<lparr>bytesDeliveredSinceLoss := bytesDeliveredSinceLoss p + ackedBytes, ackCountSinceLoss := ackCountSinceLoss p + 1\<rparr>"

definition prr_CanSend :: "PrrSender \<Rightarrow> ByteCount \<Rightarrow> ByteCount \<Rightarrow> ByteCount \<Rightarrow> bool" where
  "prr_CanSend p cwnd inFlight ssthresh =
    (if bytesSentSinceLoss p = 0 \<or> inFlight < DefaultTCPMSS then True
     else if cwnd > inFlight
     then bytesDeliveredSinceLoss p + ackCountSinceLoss p * DefaultTCPMSS > bytesSentSinceLoss p
     else bytesDeliveredSinceLoss p * ssthresh > bytesSentSinceLoss p * bytesInFlightBeforeLoss p)"

section \<open>Cubic\<close>

definition cubeScale :: nat where "cubeScale = 40"
definition cubeCongestionWindowScale :: int where "cubeCongestionWindowScale = 410"
definition cubeFactor :: ByteCount where "cubeFactor = 2 ^ 40 div 410 div 1460"
definition defaultNumConnections :: int where "defaultNumConnections = 1"
definition beta :: rat where "beta = f32 (7 / 10)"
definition betaLastMax :: rat where "betaLastMax = f32 (85 / 100)"

record Cubic =
  cu_numConnections :: int
  cu_epoch :: Time
  lastMaxCongestionWindow :: ByteCount
  ackedBytesCount :: ByteCount
  estimatedTCPcongestionWindow :: ByteCount
  originPointCongestionWindow :: ByteCount
  timeToOriginPoint :: u32
  lastTargetCongestionWindow :: ByteCount

definition cubic_Reset :: "Cubic \<Rightarrow> Cubic" where
  "cubic_Reset c = c\<lparr>cu_epoch := 0, lastMaxCongestionWindow := 0, ackedBytesCount := 0, estimatedTCPcongestionWindow := 0,
     originPointCongestionWindow := 0, timeToOriginPoint := 0, lastTargetCongestionWindow := 0\<rparr>"

definition NewCubic :: Cubic where
  "NewCubic = cubic_Reset \<lparr>cu_numConnections = defaultNumConnections, cu_epoch = 0, lastMaxCongestionWindow = 0,
     ackedBytesCount = 0, estimatedTCPcongestionWindow = 0, originPointCongestionWindow = 0, timeToOriginPoint = 0,
     lastTargetCongestionWindow = 0\<rparr>"

definition cubic_beta :: "Cubic \<Rightarrow> rat" where
  "cubic_beta c =
    (let n = float32_of_int (cu_numConnections c) in f32 (f32 (f32 (n - 1) + beta) / n))"

definition cubic_alpha :: "Cubic \<Rightarrow> rat" where
  "cubic_alpha c =
    (let b = cubic_beta c; n = float32_of_int (cu_numConnections c)
     in f32 (f32 (f32 (f32 (3 * n) * n) * f32 (1 - b)) / f32 (1 + b)))"

definition cubic_betaLastMax :: "Cubic \<Rightarrow> rat" where
  "cubic_betaLastMax c =
    (let n = float32_of_int (cu_numConnections c) in f32 (f32 (f32 (n - 1) + betaLastMax) / n))"

definition OnApplicationLimited :: "Cubic \<Rightarrow> Cubic" where
  "OnApplicationLimited c = c\<lparr>cu_epoch := 0\<rparr>"

definition float32_of_u64 :: "u64 \<Rightarrow> rat" where "float32_of_u64 w = f32 (of_int (uint w))"

definition CongestionWindowAfterPacketLoss :: "Cubic \<Rightarrow> ByteCount \<Rightarrow> ByteCount \<times> Cubic" where
  "CongestionWindowAfterPacketLoss c cwnd =
    (let c = (if cwnd + DefaultTCPMSS < lastMaxCongestionWindow c
              then c\<lparr>lastMaxCongestionWindow := u64_of_float (f32 (cubic_betaLastMax c * float32_of_u64 cwnd))\<rparr>
              else c\<lparr>lastMaxCongestionWindow := cwnd\<rparr>);
         c = c\<lparr>cu_epoch := 0\<rparr>
     in (u64_of_float (f32 (float32_of_u64 cwnd * cubic_beta c)), c))"

text \<open>\<open>math.Cbrt\<close>: the cube root with sixty binary places, rounded to a \<open>float64\<close>. The root of a natural
  number is found bit by bit.\<close>

fun root3 :: "nat \<Rightarrow> nat \<Rightarrow> nat \<Rightarrow> nat" where
  "root3 0 n r = r"
| "root3 (Suc k) n r = root3 k n (if (r + 2 ^ k) ^ 3 \<le> n then r + 2 ^ k else r)"

definition Cbrt :: "rat \<Rightarrow> rat" where
  "Cbrt x = f64 (of_nat (root3 90 (nat \<lfloor>x * 2 ^ 180\<rfloor>) 0) / 2 ^ 60)"

definition CongestionWindowAfterAck :: "Cubic \<Rightarrow> ByteCount \<Rightarrow> ByteCount \<Rightarrow> Duration \<Rightarrow> Time \<Rightarrow> ByteCount \<times> Cubic" where
  "CongestionWindowAfterAck c ackedBytes cwnd delayMin eventTime =
    (let c = c\<lparr>ackedBytesCount := ackedBytesCount c + ackedBytes\<rparr>;
         c = (if IsZero (cu_epoch c) then
                let c = c\<lparr>cu_epoch := eventTime, ackedBytesCount := ackedBytes, estimatedTCPcongestionWindow := cwnd\<rparr>
                in if lastMaxCongestionWindow c \<le> cwnd
                   then c\<lparr>timeToOriginPoint := 0, originPointCongestionWindow := cwnd\<rparr>
                   else c\<lparr>timeToOriginPoint := word_of_int (trunc (Cbrt (float64_of_u64 (cubeFactor * (lastMaxCongestionWindow c - cwnd))))),
                          originPointCongestionWindow := lastMaxCongestionWindow c\<rparr>
              else c);
         elapsedTime = i64 (push_bit 10 (Time_Sub (Time_Add eventTime delayMin) (cu_epoch c) sdiv Microsecond)) sdiv (1000 * 1000);
         offset = i64 (uint (timeToOriginPoint c) - elapsedTime);
         offset = (if offset < 0 then i64 (- offset) else offset);
         delta = drop_bit cubeScale (word_of_int (i64 (cubeCongestionWindowScale * offset * offset * offset)) * DefaultTCPMSS);
         target = (if elapsedTime > uint (timeToOriginPoint c) then originPointCongestionWindow c + delta
                   else originPointCongestionWindow c - delta);
         target = MinByteCount target (cwnd + ackedBytesCount c div 2);
         c = c\<lparr>estimatedTCPcongestionWindow := estimatedTCPcongestionWindow c +
                 u64_of_float (f32 (f32 (f32 (float32_of_u64 (ackedBytesCount c) * cubic_alpha c) * float32_of_u64 DefaultTCPMSS)
                   / float32_of_u64 (estimatedTCPcongestionWindow c))),
               ackedBytesCount := 0, lastTargetCongestionWindow := target\<rparr>
     in (if target < estimatedTCPcongestionWindow c then estimatedTCPcongestionWindow c else target, c))"

definition SetNumConnections :: "Cubic \<Rightarrow> int \<Rightarrow> Cubic" where
  "SetNumConnections c n = c\<lparr>cu_numConnections := n\<rparr>"

section \<open>Bandwidth\<close>

definition BytesPerSecond :: u64 where "BytesPerSecond = 8"

definition BandwidthFromDelta :: "ByteCount \<Rightarrow> Duration \<Rightarrow> go_error + u64" where
  "BandwidthFromDelta bytes d =
    (if (word_of_int d :: u64) = 0 then Inl (Panic (''integer divide by zero'', []))
     else Inr (bytes * word_of_int Second div word_of_int d * BytesPerSecond))"

section \<open>The sender\<close>

definition maxBurstBytes :: ByteCount where "maxBurstBytes = 3 * DefaultTCPMSS"
definition renoBeta :: rat where "renoBeta = f32 (7 / 10)"
definition defaultMinimumCongestionWindow :: ByteCount where "defaultMinimumCongestionWindow = 2 * DefaultTCPMSS"
definition defaultMaxCongestionWindowPackets :: nat where "defaultMaxCongestionWindowPackets = 1000"
definition DefaultMaxCongestionWindow :: ByteCount where "DefaultMaxCongestionWindow = of_nat defaultMaxCongestionWindowPackets * DefaultTCPMSS"
definition InitialCongestionWindow :: ByteCount where "InitialCongestionWindow = 32 * DefaultTCPMSS"

record connectionStats =
  slowstartPacketsLost :: PacketNumber
  slowstartBytesLost :: ByteCount

record cubicSender =
  hybridSlowStart :: HybridSlowStart
  prr :: PrrSender
  cs_stats :: connectionStats
  cubic :: Cubic
  noPRR :: bool
  reno :: bool
  largestSentPacketNumber :: PacketNumber
  largestAckedPacketNumber :: PacketNumber
  largestSentAtLastCutback :: PacketNumber
  lastCutbackExitedSlowstart :: bool
  slowStartLargeReduction :: bool
  congestionWindow :: ByteCount
  minCongestionWindow :: ByteCount
  maxCongestionWindow :: ByteCount
  slowstartThreshold :: ByteCount
  numConnections :: int
  numAckedPackets :: u64
  initialCongestionWindow :: ByteCount
  initialMaxCongestionWindow :: ByteCount
  minSlowStartExitWindow :: ByteCount

definition NewCubicSender :: "bool \<Rightarrow> ByteCount \<Rightarrow> ByteCount \<Rightarrow> cubicSender" where
  "NewCubicSender ren initial initialMax =
    \<lparr>hybridSlowStart = zeroHybridSlowStart, prr = zeroPrrSender,
     cs_stats = \<lparr>slowstartPacketsLost = 0, slowstartBytesLost = 0\<rparr>, cubic = NewCubic, noPRR = False, reno = ren,
     largestSentPacketNumber = InvalidPacketNumber, largestAckedPacketNumber = InvalidPacketNumber,
     largestSentAtLastCutback = InvalidPacketNumber, lastCutbackExitedSlowstart = False, slowStartLargeReduction = False,
     congestionWindow = initial, minCongestionWindow = defaultMinimumCongestionWindow, maxCongestionWindow = initialMax,
     slowstartThreshold = initialMax, numConnections = defaultNumConnections, numAckedPackets = 0,
     initialCongestionWindow = initial, initialMaxCongestionWindow = initialMax, minSlowStartExitWindow = 0\<rparr>"

definition InRecovery :: "cubicSender \<Rightarrow> bool" where
  "InRecovery c \<longleftrightarrow> largestAckedPacketNumber c \<noteq> InvalidPacketNumber \<and> largestAckedPacketNumber c \<le> largestSentAtLastCutback c"

definition GetCongestionWindow :: "cubicSender \<Rightarrow> ByteCount" where
  "GetCongestionWindow c = congestionWindow c"

definition GetSlowStartThreshold :: "cubicSender \<Rightarrow> ByteCount" where
  "GetSlowStartThreshold c = slowstartThreshold c"

definition InSlowStart :: "cubicSender \<Rightarrow> bool" where
  "InSlowStart c \<longleftrightarrow> GetCongestionWindow c < GetSlowStartThreshold c"

definition cc_TimeUntilSend :: "cubicSender \<Rightarrow> RTTStats \<Rightarrow> ByteCount \<Rightarrow> go_error + Duration" where
  "cc_TimeUntilSend c rtt inFlight =
    (if \<not> noPRR c \<and> InRecovery c \<and> prr_CanSend (prr c) (GetCongestionWindow c) inFlight (GetSlowStartThreshold c)
     then Inr 0
     else if 2 * GetCongestionWindow c = 0 then Inl (Panic (''integer divide by zero'', []))
     else Inr (i64 (i64 (smoothedRTT rtt * int64_of DefaultTCPMSS) sdiv int64_of (2 * GetCongestionWindow c))))"

definition cc_OnPacketSent :: "cubicSender \<Rightarrow> PacketNumber \<Rightarrow> ByteCount \<Rightarrow> bool \<Rightarrow> cubicSender" where
  "cc_OnPacketSent c pn bytes isRetransmittable =
    (if \<not> isRetransmittable then c
     else
       let c = (if InRecovery c then c\<lparr>prr := prr_OnPacketSent (prr c) bytes\<rparr> else c)
       in c\<lparr>largestSentPacketNumber := pn, hybridSlowStart := hss_OnPacketSent (hybridSlowStart c) pn\<rparr>)"

definition cc_CanSend :: "cubicSender \<Rightarrow> ByteCount \<Rightarrow> bool" where
  "cc_CanSend c inFlight =
    (if \<not> noPRR c \<and> InRecovery c
     then prr_CanSend (prr c) (GetCongestionWindow c) inFlight (GetSlowStartThreshold c)
     else inFlight < GetCongestionWindow c)"

definition ExitSlowstart :: "cubicSender \<Rightarrow> cubicSender" where
  "ExitSlowstart c = c\<lparr>slowstartThreshold := congestionWindow c\<rparr>"

definition MaybeExitSlowStart :: "cubicSender \<Rightarrow> RTTStats \<Rightarrow> cubicSender" where
  "MaybeExitSlowStart c rtt =
    (if InSlowStart c then
       case ShouldExitSlowStart (hybridSlowStart c) (latestRTT rtt) (minRTT rtt) (GetCongestionWindow c div DefaultTCPMSS) of
         (exit, h) \<Rightarrow> let c = c\<lparr>hybridSlowStart := h\<rparr> in if exit then ExitSlowstart c else c
     else c)"

definition RenoBeta :: "cubicSender \<Rightarrow> rat" where
  "RenoBeta c = (let n = float32_of_int (numConnections c) in f32 (f32 (f32 (n - 1) + renoBeta) / n))"

definition isCwndLimited :: "cubicSender \<Rightarrow> ByteCount \<Rightarrow> bool" where
  "isCwndLimited c inFlight =
    (let cwnd = GetCongestionWindow c
     in if inFlight \<ge> cwnd then True
        else
          let available = cwnd - inFlight;
              slowStartLimited = InSlowStart c \<and> inFlight > cwnd div 2
          in slowStartLimited \<or> available \<le> maxBurstBytes)"

definition maybeIncreaseCwnd :: "cubicSender \<Rightarrow> RTTStats \<Rightarrow> ByteCount \<Rightarrow> ByteCount \<Rightarrow> Time \<Rightarrow> cubicSender" where
  "maybeIncreaseCwnd c rtt ackedBytes priorInFlight eventTime =
    (if \<not> isCwndLimited c priorInFlight then c\<lparr>cubic := OnApplicationLimited (cubic c)\<rparr>
     else if congestionWindow c \<ge> maxCongestionWindow c then c
     else if InSlowStart c then c\<lparr>congestionWindow := congestionWindow c + DefaultTCPMSS\<rparr>
     else if reno c then
       let c = c\<lparr>numAckedPackets := numAckedPackets c + 1\<rparr>
       in if numAckedPackets c * word_of_int (numConnections c) \<ge> congestionWindow c div DefaultTCPMSS
          then c\<lparr>congestionWindow := congestionWindow c + DefaultTCPMSS, numAckedPackets := 0\<rparr>
          else c
     else
       case CongestionWindowAfterAck (cubic c) ackedBytes (congestionWindow c) (minRTT rtt) eventTime of
         (w, cu) \<Rightarrow> c\<lparr>cubic := cu, congestionWindow := MinByteCount (maxCongestionWindow c) w\<rparr>)"

definition cc_OnPacketAcked :: "cubicSender \<Rightarrow> RTTStats \<Rightarrow> PacketNumber \<Rightarrow> ByteCount \<Rightarrow> ByteCount \<Rightarrow> Time \<Rightarrow> cubicSender" where
  "cc_OnPacketAcked c rtt acked ackedBytes priorInFlight eventTime =
    (let c = c\<lparr>largestAckedPacketNumber := MaxPacketNumber acked (largestAckedPacketNumber c)\<rparr>
     in if InRecovery c then (if \<not> noPRR c then c\<lparr>prr := prr_OnPacketAcked (prr c) ackedBytes\<rparr> else c)
     else
       let c = maybeIncreaseCwnd c rtt ackedBytes priorInFlight eventTime
       in if InSlowStart c then c\<lparr>hybridSlowStart := hss_OnPacketAcked (hybridSlowStart c) acked\<rparr> else c)"

definition cc_OnPacketLost :: "cubicSender \<Rightarrow> PacketNumber \<Rightarrow> ByteCount \<Rightarrow> ByteCount \<Rightarrow> cubicSender" where
  "cc_OnPacketLost c pn lostBytes priorInFlight =
    (if pn \<le> largestSentAtLastCutback c then
       if lastCutbackExitedSlowstart c then
         let c = c\<lparr>cs_stats := \<lparr>slowstartPacketsLost = i64 (slowstartPacketsLost (cs_stats c) + 1),
                               slowstartBytesLost = slowstartBytesLost (cs_stats c) + lostBytes\<rparr>\<rparr>
         in if slowStartLargeReduction c then
              let c = c\<lparr>congestionWindow := utils_MaxByteCount (congestionWindow c - lostBytes) (minSlowStartExitWindow c)\<rparr>
              in c\<lparr>slowstartThreshold := congestionWindow c\<rparr>
            else c
       else c
     else
       let c = c\<lparr>lastCutbackExitedSlowstart := InSlowStart c\<rparr>;
           c = (if InSlowStart c
                then c\<lparr>cs_stats := (cs_stats c)\<lparr>slowstartPacketsLost := i64 (slowstartPacketsLost (cs_stats c) + 1)\<rparr>\<rparr> else c);
           c = (if \<not> noPRR c then c\<lparr>prr := prr_OnPacketLost (prr c) priorInFlight\<rparr> else c);
           c = (if slowStartLargeReduction c \<and> InSlowStart c then
                  let c = (if congestionWindow c \<ge> 2 * initialCongestionWindow c
                           then c\<lparr>minSlowStartExitWindow := congestionWindow c div 2\<rparr> else c)
                  in c\<lparr>congestionWindow := congestionWindow c - DefaultTCPMSS\<rparr>
                else if reno c
                then c\<lparr>congestionWindow := u64_of_float (f32 (float32_of_u64 (congestionWindow c) * RenoBeta c))\<rparr>
                else case CongestionWindowAfterPacketLoss (cubic c) (congestionWindow c) of
                       (w, cu) \<Rightarrow> c\<lparr>cubic := cu, congestionWindow := w\<rparr>);
           c = (if congestionWindow c < minCongestionWindow c then c\<lparr>congestionWindow := minCongestionWindow c\<rparr> else c)
       in c\<lparr>slowstartThreshold := congestionWindow c, largestSentAtLastCutback := largestSentPacketNumber c,
            numAckedPackets := 0\<rparr>)"

definition BandwidthEstimate :: "cubicSender \<Rightarrow> RTTStats \<Rightarrow> go_error + u64" where
  "BandwidthEstimate c rtt =
    (if smoothedRTT rtt = 0 then Inr 0 else BandwidthFromDelta (GetCongestionWindow c) (smoothedRTT rtt))"

definition SetNumEmulatedConnections :: "cubicSender \<Rightarrow> int \<Rightarrow> cubicSender" where
  "SetNumEmulatedConnections c n =
    (let c = c\<lparr>numConnections := utils_Max n 1\<rparr>
     in c\<lparr>cubic := SetNumConnections (cubic c) (numConnections c)\<rparr>)"

definition OnRetransmissionTimeout :: "cubicSender \<Rightarrow> bool \<Rightarrow> cubicSender" where
  "OnRetransmissionTimeout c packetsRetransmitted =
    (let c = c\<lparr>largestSentAtLastCutback := InvalidPacketNumber\<rparr>
     in if \<not> packetsRetransmitted then c
        else c\<lparr>hybridSlowStart := hss_Restart (hybridSlowStart c), cubic := cubic_Reset (cubic c),
               slowstartThreshold := congestionWindow c div 2, congestionWindow := minCongestionWindow c\<rparr>)"

definition cc_OnConnectionMigration :: "cubicSender \<Rightarrow> cubicSender" where
  "cc_OnConnectionMigration c =
    c\<lparr>hybridSlowStart := hss_Restart (hybridSlowStart c), prr := zeroPrrSender,
      largestSentPacketNumber := InvalidPacketNumber, largestAckedPacketNumber := InvalidPacketNumber,
      largestSentAtLastCutback := InvalidPacketNumber, lastCutbackExitedSlowstart := False, cubic := cubic_Reset (cubic c),
      numAckedPackets := 0, congestionWindow := initialCongestionWindow c,
      slowstartThreshold := initialMaxCongestionWindow c, maxCongestionWindow := initialMaxCongestionWindow c\<rparr>"

definition SetSlowStartLargeReduction :: "cubicSender \<Rightarrow> bool \<Rightarrow> cubicSender" where
  "SetSlowStartLargeReduction c enabled = c\<lparr>slowStartLargeReduction := enabled\<rparr>"

section \<open>The window of a Reno sender\<close>

lemma round_even_error: "\<bar>of_int (round_even y) - y\<bar> \<le> 1 / 2"
proof -
  define f where "f = \<lfloor>y\<rfloor>"
  have f: "of_int f \<le> y" "y < of_int f + 1" unfolding f_def by linarith+
  have r: "round_even y = (if y - of_int f < 1 / 2 then f else if y - of_int f > 1 / 2 then f + 1 else if even f then f else f + 1)"
    by (simp only: round_even_def Let_def f_def)
  consider "y - of_int f < 1 / 2" | "y - of_int f > 1 / 2" | "y - of_int f = 1 / 2" by linarith
  then show ?thesis
  proof cases
    case 1
    then have "round_even y = f" using r by simp
    then show ?thesis using 1 f by (simp only: abs_le_iff) linarith
  next
    case 2
    then have "round_even y = f + 1" using r by simp
    then show ?thesis using 2 f by (simp only: abs_le_iff of_int_add of_int_1) linarith
  next
    case 3
    then have "round_even y = f \<or> round_even y = f + 1" using r by auto
    then show ?thesis using 3 by (elim disjE) (simp_all only: abs_le_iff of_int_add of_int_1, linarith+)
  qed
qed

lemma round_float_error:
  assumes "0 < x"
  shows "\<bar>round_float p x - x\<bar> \<le> x / 2 ^ p"
proof -
  define e where "e = int p - 1 - exponent x"
  let ?r = "of_int (round_even (x * 2 powi e)) :: rat"
  have inv: "(2 :: rat) powi e * 2 powi (- e) = 1" by (simp flip: power_int_add)
  have "round_float p x - x = (?r - x * 2 powi e) * 2 powi (- e)"
    using assms inv by (simp add: round_float_def Let_def left_diff_distrib mult.assoc flip: e_def)
  then have "\<bar>round_float p x - x\<bar> = \<bar>?r - x * 2 powi e\<bar> * 2 powi (- e)" by (simp add: abs_mult)
  also have "\<dots> \<le> 1 / 2 * 2 powi (- e)" by (intro mult_right_mono round_even_error) simp
  also have "\<dots> = 2 powi exponent x / 2 ^ p"
  proof -
    have "(2 :: rat) powi (- e) = 2 powi (exponent x + 1 - int p)" by (simp add: e_def algebra_simps)
    also have "\<dots> = 2 powi exponent x * 2 / 2 ^ p" by (simp add: power_int_diff power_int_add)
    finally show ?thesis by simp
  qed
  also have "\<dots> \<le> x / 2 ^ p" using exponent_bounds(1) [OF assms] by (intro divide_right_mono) auto
  finally show ?thesis .
qed

text \<open>The sender that the session creates: Reno, with one connection and without the experiment of a large
  reduction.\<close>

definition reno_inv :: "cubicSender \<Rightarrow> bool" where
  "reno_inv c \<longleftrightarrow> reno c \<and> numConnections c = 1 \<and> \<not> slowStartLargeReduction c \<and> \<not> noPRR c \<and>
    minCongestionWindow c = defaultMinimumCongestionWindow \<and> maxCongestionWindow c = DefaultMaxCongestionWindow \<and>
    initialCongestionWindow c = InitialCongestionWindow \<and> initialMaxCongestionWindow c = DefaultMaxCongestionWindow \<and>
    unat defaultMinimumCongestionWindow \<le> unat (congestionWindow c) \<and>
    unat (congestionWindow c) < unat DefaultMaxCongestionWindow + unat DefaultTCPMSS"

lemmas cc_consts = defaultMinimumCongestionWindow_def DefaultMaxCongestionWindow_def DefaultTCPMSS_def
  defaultMaxCongestionWindowPackets_def InitialCongestionWindow_def defaultNumConnections_def

lemma f32_error: "0 < x \<Longrightarrow> \<bar>f32 x - x\<bar> \<le> x / 2 ^ 24"
  using round_float_error [of x 24] by (simp add: f32_def)

lemma renoBeta_eq: "renoBeta = of_int 11744051 / 2 ^ 24"
  by code_simp

text \<open>The backoff multiplies the window by seven tenths, up to the rounding of the float32 numbers.\<close>

definition backoff :: "ByteCount \<Rightarrow> ByteCount" where
  "backoff w = u64_of_float (f32 (float32_of_u64 w * renoBeta))"

lemma RenoBeta_eq: "numConnections c = 1 \<Longrightarrow> RenoBeta c = renoBeta"
proof -
  assume "numConnections c = 1"
  moreover have "f32 renoBeta = renoBeta" unfolding renoBeta_eq by (rule f32_dyadic) simp
  moreover have "float32_of_int 1 = 1" using f32_int [of 1] by (simp add: float32_of_int_def)
  moreover have "f32 0 = 0" using f32_int [of 0] by simp
  ultimately show ?thesis by (simp add: RenoBeta_def)
qed

lemma backoff_range:
  assumes "0 < unat w" and "unat w < 2 ^ 22"
  shows "69999 * unat w \<le> 100000 * (unat (backoff w) + 1)" "100000 * unat (backoff w) \<le> 70001 * unat w"
proof -
  define k where "k = unat w"
  define n where "n = int k"
  have u: "uint w = n" by (simp only: n_def k_def uint_nat)
  have n: "0 < n" "n < 2 ^ 22" using assms by (simp_all add: n_def flip: k_def)
  have w: "float32_of_u64 w = of_int n" unfolding float32_of_u64_def u by (rule f32_int) (use n in simp)
  define x where "x = of_int n * renoBeta"
  have x0: "0 < x" using n(1) by (simp add: x_def renoBeta_eq)
  have err: "f32 x \<le> x + x / 2 ^ 24" "x - x / 2 ^ 24 \<le> f32 x" using f32_error [OF x0] unfolding abs_le_iff by linarith+
  have beta: "100000 * (renoBeta + renoBeta / 2 ^ 24) \<le> 70001" "69999 \<le> 100000 * (renoBeta - renoBeta / 2 ^ 24)"
    by (simp_all add: renoBeta_eq)
  have n0: "(0 :: rat) \<le> of_int n" using n(1) by simp
  have hi: "100000 * f32 x \<le> 70001 * of_int n"
    using err(1) mult_right_mono [OF beta(1) n0] by (simp add: x_def algebra_simps)
  have lo: "69999 * of_int n \<le> 100000 * f32 x"
    using err(2) mult_right_mono [OF beta(2) n0] by (simp add: x_def algebra_simps)
  have fx: "0 \<le> f32 x" using lo n0 by linarith
  define m where "m = \<lfloor>f32 x\<rfloor>"
  have m: "0 \<le> m" "of_int m \<le> f32 x" "f32 x < of_int m + 1" using fx unfolding m_def by linarith+
  have "100000 * of_int m \<le> (70001 * of_int n :: rat)" using m(2) hi by linarith
  moreover have "100000 * f32 x \<le> 100000 * (of_int m + 1)" using m(3) by simp
  then have "(69999 * of_int n :: rat) \<le> 100000 * (of_int m + 1)" by (rule order_trans [OF lo])
  ultimately have "(of_int (100000 * m) :: rat) \<le> of_int (70001 * n)" "(of_int (69999 * n) :: rat) \<le> of_int (100000 * (m + 1))"
    by (simp_all only: of_int_mult of_int_numeral of_int_add of_int_1)
  then have mi: "100000 * m \<le> 70001 * n" "69999 * n \<le> 100000 * (m + 1)" by (simp_all only: of_int_le_iff)
  have "trunc (f32 x) = m" unfolding trunc_def m_def using fx by (rule if_P)
  then have b: "backoff w = word_of_int m" by (simp only: backoff_def w u64_of_float_def x_def)
  have "m < 2 ^ 64" using mi(1) n(2) by simp
  then have "unat (backoff w) = nat m" unfolding b using m(1) by (simp only: unat_eq_nat_uint uint_word_of_int) simp
  then have bm: "int (unat (backoff w)) = m" using m(1) by simp
  have "int (69999 * k) \<le> int (100000 * (unat (backoff w) + 1))" "int (100000 * unat (backoff w)) \<le> int (70001 * k)"
    unfolding of_nat_mult of_nat_add bm n_def [symmetric] using mi by simp_all
  then show "69999 * unat w \<le> 100000 * (unat (backoff w) + 1)" "100000 * unat (backoff w) \<le> 70001 * unat w"
    unfolding k_def by (simp_all only: of_nat_le_iff)
qed

lemma cwnd_after_loss:
  assumes "reno_inv c" and "largestSentAtLastCutback c < pn"
  shows "congestionWindow (cc_OnPacketLost c pn lostBytes prior) =
      (if backoff (congestionWindow c) < defaultMinimumCongestionWindow then defaultMinimumCongestionWindow
       else backoff (congestionWindow c))"
    "slowstartThreshold (cc_OnPacketLost c pn lostBytes prior) = congestionWindow (cc_OnPacketLost c pn lostBytes prior)"
    "largestSentAtLastCutback (cc_OnPacketLost c pn lostBytes prior) = largestSentPacketNumber c"
    "numAckedPackets (cc_OnPacketLost c pn lostBytes prior) = 0"
  using assms by (simp_all add: cc_OnPacketLost_def Let_def reno_inv_def backoff_def RenoBeta_eq)

lemma cwnd_small:
  assumes "reno_inv c"
  shows "0 < unat (congestionWindow c)" "unat (congestionWindow c) < 2 ^ 22"
  using assms by (simp_all add: reno_inv_def cc_consts)

lemma backoff_smaller:
  assumes "reno_inv c"
  shows "unat (backoff (congestionWindow c)) \<le> unat (congestionWindow c)"
  using backoff_range(2) [OF cwnd_small [OF assms]] by simp

lemma reno_inv_lost:
  assumes "reno_inv c"
  shows "reno_inv (cc_OnPacketLost c pn lostBytes prior)"
proof (cases "pn \<le> largestSentAtLastCutback c")
  case True
  then show ?thesis using assms by (simp add: cc_OnPacketLost_def reno_inv_def Let_def)
next
  case False
  then have w: "congestionWindow (cc_OnPacketLost c pn lostBytes prior) =
      (if backoff (congestionWindow c) < defaultMinimumCongestionWindow then defaultMinimumCongestionWindow
       else backoff (congestionWindow c))"
    using cwnd_after_loss(1) [OF assms] by simp
  have "unat defaultMinimumCongestionWindow \<le> unat (congestionWindow (cc_OnPacketLost c pn lostBytes prior))"
    "unat (congestionWindow (cc_OnPacketLost c pn lostBytes prior)) < unat DefaultMaxCongestionWindow + unat DefaultTCPMSS"
    unfolding w using backoff_smaller [OF assms] assms by (auto simp: reno_inv_def word_less_nat_alt)
  then show ?thesis using assms False unfolding reno_inv_def
    by (simp add: cc_OnPacketLost_def Let_def)
qed

lemma reno_inv_increase:
  assumes "reno_inv c"
  shows "reno_inv (maybeIncreaseCwnd c rtt ackedBytes prior t)"
proof -
  have step: "reno_inv (c'\<lparr>congestionWindow := congestionWindow c' + DefaultTCPMSS\<rparr>)"
    if c': "reno_inv c'" "congestionWindow c' < maxCongestionWindow c'" for c'
  proof -
    have "unat (congestionWindow c' + DefaultTCPMSS) = unat (congestionWindow c') + unat DefaultTCPMSS"
      using cwnd_small(2) [OF c'(1)] by (intro unat_plus_lt) (simp add: cc_consts)
    then show ?thesis using c' by (simp add: reno_inv_def word_less_nat_alt)
  qed
  have acked: "reno_inv (c'\<lparr>numAckedPackets := n\<rparr>)" if "reno_inv c'" for c' n using that by (simp add: reno_inv_def)
  show ?thesis
  proof (cases "isCwndLimited c prior \<and> congestionWindow c < maxCongestionWindow c")
    case False
    then show ?thesis using assms by (auto simp: maybeIncreaseCwnd_def reno_inv_def)
  next
    case True
    have "reno_inv (maybeIncreaseCwnd c rtt ackedBytes prior t) =
        reno_inv (let c1 = c\<lparr>numAckedPackets := numAckedPackets (maybeIncreaseCwnd c rtt ackedBytes prior t)\<rparr>
           in if congestionWindow (maybeIncreaseCwnd c rtt ackedBytes prior t) = congestionWindow c then c1
              else c1\<lparr>congestionWindow := congestionWindow c1 + DefaultTCPMSS\<rparr>)"
      using True assms by (auto simp: maybeIncreaseCwnd_def Let_def reno_inv_def DefaultTCPMSS_def)
    moreover have "reno_inv (c\<lparr>numAckedPackets := n, congestionWindow := congestionWindow c + DefaultTCPMSS\<rparr>)" for n
      using step [of "c\<lparr>numAckedPackets := n\<rparr>"] acked [OF assms] True by simp
    ultimately show ?thesis using acked assms by (simp add: Let_def)
  qed
qed

text \<open>The events that the rest of the program reports to the sender.\<close>

datatype cc_event = CcSent PacketNumber ByteCount bool | CcMaybeExit | CcAcked PacketNumber ByteCount ByteCount Time
  | CcLost PacketNumber ByteCount ByteCount | CcTimeout bool | CcMigration

fun cc_step :: "cubicSender \<Rightarrow> RTTStats \<times> cc_event \<Rightarrow> cubicSender" where
  "cc_step c (rtt, CcSent pn bytes b) = cc_OnPacketSent c pn bytes b"
| "cc_step c (rtt, CcMaybeExit) = MaybeExitSlowStart c rtt"
| "cc_step c (rtt, CcAcked pn bytes prior t) = cc_OnPacketAcked c rtt pn bytes prior t"
| "cc_step c (rtt, CcLost pn bytes prior) = cc_OnPacketLost c pn bytes prior"
| "cc_step c (rtt, CcTimeout b) = OnRetransmissionTimeout c b"
| "cc_step c (rtt, CcMigration) = cc_OnConnectionMigration c"

lemma reno_inv_frame:
  "reno_inv (c\<lparr>prr := p\<rparr>) = reno_inv c" "reno_inv (c\<lparr>hybridSlowStart := h\<rparr>) = reno_inv c"
  "reno_inv (c\<lparr>largestSentPacketNumber := n\<rparr>) = reno_inv c" "reno_inv (c\<lparr>largestAckedPacketNumber := n\<rparr>) = reno_inv c"
  "reno_inv (c\<lparr>slowstartThreshold := w\<rparr>) = reno_inv c"
  by (simp_all add: reno_inv_def)

lemma reno_inv_step: "reno_inv c \<Longrightarrow> reno_inv (cc_step c re)"
proof (induction c re rule: cc_step.induct)
  case (1 c rtt pn bytes b)
  then show ?case by (simp add: cc_OnPacketSent_def reno_inv_frame Let_def)
next
  case (2 c rtt)
  then show ?case by (simp add: MaybeExitSlowStart_def ExitSlowstart_def reno_inv_frame Let_def split: prod.split)
next
  case (3 c rtt pn bytes prior t)
  then have "reno_inv (c\<lparr>largestAckedPacketNumber := MaxPacketNumber pn (largestAckedPacketNumber c)\<rparr>)"
    by (simp add: reno_inv_frame)
  then show ?case using reno_inv_increase by (simp add: cc_OnPacketAcked_def reno_inv_frame Let_def)
next
  case (4 c rtt pn bytes prior)
  then show ?case by (simp add: reno_inv_lost)
qed (simp_all add: OnRetransmissionTimeout_def cc_OnConnectionMigration_def reno_inv_def Let_def cc_consts)

lemma reno_inv_new: "reno_inv (NewCubicSender True InitialCongestionWindow DefaultMaxCongestionWindow)"
  by (simp add: NewCubicSender_def reno_inv_def cc_consts)

text \<open>C31. Whatever is sent, acknowledged and lost, the congestion window of the sender of a session stays
  between two packets and less than one packet above its maximum of 1000 packets, so that no division by
  the window fails and the window never wraps around.\<close>

theorem cwnd_bounds:
  "let c = fold (\<lambda>e c. cc_step c e) es (NewCubicSender True InitialCongestionWindow DefaultMaxCongestionWindow)
   in 2 * 1460 \<le> unat (GetCongestionWindow c) \<and> unat (GetCongestionWindow c) < 1001 * 1460 \<and>
      (\<exists>d. cc_TimeUntilSend c rtt inFlight = Inr d)"
proof -
  have inv: "reno_inv (fold (\<lambda>e c. cc_step c e) es c)" if "reno_inv c" for c
    using that by (induction es arbitrary: c) (simp_all add: reno_inv_step)
  define c where "c = fold (\<lambda>e c. cc_step c e) es (NewCubicSender True InitialCongestionWindow DefaultMaxCongestionWindow)"
  have c: "reno_inv c" unfolding c_def by (rule inv [OF reno_inv_new])
  have "unat (2 * congestionWindow c) = 2 * unat (congestionWindow c)"
    using cwnd_small(2) [OF c] by (simp add: unat_word_ariths)
  then have "2 * congestionWindow c \<noteq> 0" using cwnd_small(1) [OF c] by (metis mult_is_0 unsigned_0 zero_neq_numeral less_irrefl)
  then have "\<exists>d. cc_TimeUntilSend c rtt inFlight = Inr d" by (simp add: cc_TimeUntilSend_def GetCongestionWindow_def)
  moreover have "2 * 1460 \<le> unat (congestionWindow c)" "unat (congestionWindow c) < 1001 * 1460"
    using c by (simp_all add: reno_inv_def cc_consts)
  ultimately show ?thesis unfolding c_def [symmetric] Let_def GetCongestionWindow_def by blast
qed

text \<open>One backoff per round trip: the first loss of a packet sent after the last backoff multiplies the window by
  seven tenths, up to the rounding, but not below the minimum, and ends slow start; the loss of
  any other packet sent until then leaves the window alone.\<close>

theorem one_backoff_per_round:
  assumes "reno_inv c" and "largestSentAtLastCutback c < pn" and "pn' \<le> largestSentPacketNumber c"
  shows "let c' = cc_OnPacketLost c pn bytes prior
    in 69999 * unat (congestionWindow c) \<le> 100000 * (unat (congestionWindow c') + 1) \<and>
      100000 * unat (congestionWindow c') \<le> max (100000 * 2920) (70001 * unat (congestionWindow c)) \<and>
      \<not> InSlowStart c' \<and>
      congestionWindow (cc_OnPacketLost c' pn' bytes' prior') = congestionWindow c'"
proof -
  define c' where "c' = cc_OnPacketLost c pn bytes prior"
  note lost = cwnd_after_loss [OF assms(1,2), of bytes prior, folded c'_def]
  note range = backoff_range [OF cwnd_small [OF assms(1)]]
  have min: "unat defaultMinimumCongestionWindow = 2920" by (simp add: cc_consts)
  have "69999 * unat (congestionWindow c) \<le> 100000 * (unat (congestionWindow c') + 1)"
    unfolding lost(1) using range(1) by (simp add: word_less_nat_alt)
  moreover have "100000 * unat (congestionWindow c') \<le> max (100000 * 2920) (70001 * unat (congestionWindow c))"
    unfolding lost(1) using range(2) min by (simp add: word_less_nat_alt)
  moreover have "\<not> InSlowStart c'" by (simp add: InSlowStart_def GetCongestionWindow_def GetSlowStartThreshold_def lost(2))
  moreover have "\<not> slowStartLargeReduction c'" using reno_inv_lost [OF assms(1)] by (simp add: reno_inv_def c'_def)
  then have "congestionWindow (cc_OnPacketLost c' pn' bytes' prior') = congestionWindow c'"
    using assms(3) by (simp add: cc_OnPacketLost_def lost(3) Let_def)
  ultimately show ?thesis by (simp add: Let_def flip: c'_def)
qed

theorem one_backoff_per_round_witness:
  "let c = (NewCubicSender True InitialCongestionWindow DefaultMaxCongestionWindow)\<lparr>largestSentPacketNumber := 9\<rparr>;
       c' = cc_OnPacketLost c 7 1200 40000
   in \<not> InSlowStart c' \<and> congestionWindow (cc_OnPacketLost c' 8 1200 40000) = congestionWindow c'"
proof -
  let ?c = "(NewCubicSender True InitialCongestionWindow DefaultMaxCongestionWindow)\<lparr>largestSentPacketNumber := 9\<rparr>"
  have "reno_inv ?c" using reno_inv_new by (simp add: reno_inv_frame)
  from one_backoff_per_round [OF this, of 7 8] show ?thesis
    by (simp add: NewCubicSender_def InvalidPacketNumber_def Let_def)
qed

text \<open>A sequence of acknowledgements.\<close>

fun ack_all :: "cubicSender \<Rightarrow> RTTStats \<Rightarrow> (PacketNumber \<times> ByteCount \<times> ByteCount \<times> Time) list \<Rightarrow> cubicSender" where
  "ack_all c rtt [] = c"
| "ack_all c rtt ((pn, bytes, prior, t) # acks) = ack_all (cc_OnPacketAcked c rtt pn bytes prior t) rtt acks"

lemma ack_in_avoidance:
  assumes "reno_inv c" and "\<not> InSlowStart c" and "congestionWindow c < maxCongestionWindow c"
    and "largestSentAtLastCutback c < pn" and "congestionWindow c \<le> prior"
    and "unat (numAckedPackets c) < 2 ^ 32"
  shows "let c' = cc_OnPacketAcked c rtt pn bytes prior t; n = unat (numAckedPackets c) + 1
    in reno_inv c' \<and> largestSentAtLastCutback c' = largestSentAtLastCutback c \<and> maxCongestionWindow c' = maxCongestionWindow c \<and>
      slowstartThreshold c' = slowstartThreshold c \<and>
      (if unat (congestionWindow c div DefaultTCPMSS) \<le> n
       then congestionWindow c' = congestionWindow c + DefaultTCPMSS
       else congestionWindow c' = congestionWindow c \<and> unat (numAckedPackets c') = n)"
proof -
  define c1 where "c1 = c\<lparr>largestAckedPacketNumber := MaxPacketNumber pn (largestAckedPacketNumber c)\<rparr>"
  define n1 where "n1 = numAckedPackets c + 1"
  have n1: "unat n1 = unat (numAckedPackets c) + 1" using assms(6) by (simp add: n1_def unat_word_ariths)
  have lim: "isCwndLimited c1 prior" using assms(5) by (simp add: isCwndLimited_def c1_def GetCongestionWindow_def)
  have rec: "\<not> InRecovery c1" using assms(4) by (simp add: InRecovery_def c1_def)
  have slow: "\<not> InSlowStart c1" using assms(2) by (simp add: InSlowStart_def c1_def GetCongestionWindow_def GetSlowStartThreshold_def)
  define c2 where "c2 = (if congestionWindow c div DefaultTCPMSS \<le> n1
      then c1\<lparr>congestionWindow := congestionWindow c + DefaultTCPMSS, numAckedPackets := 0\<rparr> else c1\<lparr>numAckedPackets := n1\<rparr>)"
  have inc: "maybeIncreaseCwnd c1 rtt bytes prior t = c2"
    using lim slow assms(1,3) by (simp add: maybeIncreaseCwnd_def c2_def Let_def c1_def n1_def reno_inv_def not_le [symmetric])
  have "\<not> slowstartThreshold c > congestionWindow c"
    using assms(2) by (simp add: InSlowStart_def GetCongestionWindow_def GetSlowStartThreshold_def)
  moreover have "unat (congestionWindow c + DefaultTCPMSS) = unat (congestionWindow c) + unat DefaultTCPMSS"
    using cwnd_small(2) [OF assms(1)] by (intro unat_plus_lt) (simp add: DefaultTCPMSS_def)
  ultimately have "\<not> InSlowStart c2"
    by (auto simp: InSlowStart_def GetCongestionWindow_def GetSlowStartThreshold_def c2_def c1_def word_less_nat_alt)
  then have run: "cc_OnPacketAcked c rtt pn bytes prior t = c2"
    using rec inc unfolding cc_OnPacketAcked_def c1_def [symmetric] Let_def by simp
  have "reno_inv c2" using reno_inv_step [OF assms(1), of "(rtt, CcAcked pn bytes prior t)"] run by simp
  then show ?thesis unfolding run Let_def by (simp add: c2_def c1_def word_le_nat_alt n1)
qed

lemma ack_all_counts:
  assumes "reno_inv c" and "\<not> InSlowStart c" and "congestionWindow c < maxCongestionWindow c"
    and "\<forall>(pn, bytes, prior, t) \<in> set acks. largestSentAtLastCutback c < pn \<and> congestionWindow c \<le> prior"
    and "unat (numAckedPackets c) + length acks < unat (congestionWindow c div DefaultTCPMSS)"
  shows "reno_inv (ack_all c rtt acks) \<and> congestionWindow (ack_all c rtt acks) = congestionWindow c \<and>
    \<not> InSlowStart (ack_all c rtt acks) \<and> maxCongestionWindow (ack_all c rtt acks) = maxCongestionWindow c \<and>
    largestSentAtLastCutback (ack_all c rtt acks) = largestSentAtLastCutback c \<and>
    unat (numAckedPackets (ack_all c rtt acks)) = unat (numAckedPackets c) + length acks"
  using assms
proof (induction acks arbitrary: c)
  case Nil
  then show ?case by simp
next
  case (Cons a acks)
  obtain pn bytes prior t where a: "a = (pn, bytes, prior, t)" by (cases a)
  have "unat (congestionWindow c div DefaultTCPMSS) \<le> unat (congestionWindow c)" by (simp add: unat_div)
  then have small: "unat (numAckedPackets c) < 2 ^ 32" using Cons.prems(5) cwnd_small(2) [OF Cons.prems(1)] by simp
  have ack: "largestSentAtLastCutback c < pn" "congestionWindow c \<le> prior" using Cons.prems(4) a by auto
  define c' where "c' = cc_OnPacketAcked c rtt pn bytes prior t"
  have step: "reno_inv c'" "largestSentAtLastCutback c' = largestSentAtLastCutback c" "maxCongestionWindow c' = maxCongestionWindow c"
    "slowstartThreshold c' = slowstartThreshold c" "congestionWindow c' = congestionWindow c"
    "unat (numAckedPackets c') = unat (numAckedPackets c) + 1"
    using ack_in_avoidance [OF Cons.prems(1-3) ack small, of rtt bytes t] Cons.prems(5) by (auto simp: c'_def Let_def split: if_splits)
  have "\<not> InSlowStart c'" using Cons.prems(2) step by (simp add: InSlowStart_def GetCongestionWindow_def GetSlowStartThreshold_def)
  moreover have "\<forall>(pn, bytes, prior, t) \<in> set acks. largestSentAtLastCutback c' < pn \<and> congestionWindow c' \<le> prior"
    using Cons.prems(4) step by auto
  ultimately show ?case using Cons.IH [OF step(1)] Cons.prems(3,5) step a by (simp flip: c'_def)
qed

text \<open>Congestion avoidance adds one packet per window: when the sender is out of slow start and recovery and
  uses its window up, as many acknowledgements as there are packets in the window enlarge it by one packet,
  and fewer leave it alone.\<close>

theorem avoidance_adds_one_packet:
  assumes "reno_inv c" and "\<not> InSlowStart c" and "congestionWindow c < maxCongestionWindow c" and "numAckedPackets c = 0"
    and "\<forall>(pn, bytes, prior, t) \<in> set acks. largestSentAtLastCutback c < pn \<and> congestionWindow c \<le> prior"
    and "length acks \<le> unat (congestionWindow c) div 1460"
  shows "congestionWindow (ack_all c rtt acks) =
    (if length acks = unat (congestionWindow c) div 1460 then congestionWindow c + DefaultTCPMSS else congestionWindow c)"
proof -
  have div: "unat (congestionWindow c div DefaultTCPMSS) = unat (congestionWindow c) div 1460" by (simp add: unat_div DefaultTCPMSS_def)
  show ?thesis
  proof (cases "length acks = unat (congestionWindow c) div 1460")
    case False
    then show ?thesis using ack_all_counts [OF assms(1-3,5), of rtt] assms(4,6) div by simp
  next
    case True
    have "0 < unat (congestionWindow c) div 1460" using assms(1) by (simp add: reno_inv_def cc_consts div_greater_zero_iff)
    then obtain acks' pn bytes prior t where acks: "acks = acks' @ [(pn, bytes, prior, t)]"
      using True by (cases acks rule: rev_cases) auto
    define c1 where "c1 = ack_all c rtt acks'"
    have c1: "reno_inv c1" "congestionWindow c1 = congestionWindow c" "\<not> InSlowStart c1" "maxCongestionWindow c1 = maxCongestionWindow c"
      "largestSentAtLastCutback c1 = largestSentAtLastCutback c" "unat (numAckedPackets c1) = length acks'"
      using ack_all_counts [OF assms(1-3), of acks' rtt] assms(4,5) True div acks by (auto simp: c1_def)
    have "ack_all c rtt (xs @ [(pn, bytes, prior, t)]) = cc_OnPacketAcked (ack_all c rtt xs) rtt pn bytes prior t" for xs
      by (induction c rtt xs rule: ack_all.induct) simp_all
    then have run: "ack_all c rtt acks = cc_OnPacketAcked c1 rtt pn bytes prior t" by (simp add: acks c1_def)
    have "unat (numAckedPackets c1) < 2 ^ 32"
      using c1(6) True acks cwnd_small(2) [OF assms(1)] div_le_dividend [of "unat (congestionWindow c)" 1460] by simp
    then show ?thesis
      using ack_in_avoidance [of c1 pn prior rtt bytes t] c1 assms(3,5) True acks div run
      by (simp add: Let_def split: if_splits)
  qed
qed

theorem avoidance_adds_one_packet_witness:
  "let c = (NewCubicSender True InitialCongestionWindow DefaultMaxCongestionWindow)
       \<lparr>congestionWindow := 2920, slowstartThreshold := 2920, largestSentAtLastCutback := 3\<rparr>
   in congestionWindow (ack_all c NewRTTStats [(4, 1200, 2920, 5), (5, 1200, 2920, 6)]) = 4380"
proof -
  let ?c = "(NewCubicSender True InitialCongestionWindow DefaultMaxCongestionWindow)
       \<lparr>congestionWindow := 2920, slowstartThreshold := 2920, largestSentAtLastCutback := 3\<rparr>"
  have "reno_inv ?c" by (simp add: NewCubicSender_def reno_inv_def cc_consts)
  from avoidance_adds_one_packet [OF this, of "[(4, 1200, 2920, 5), (5, 1200, 2920, 6)]" NewRTTStats]
  show ?thesis
    by (auto simp: NewCubicSender_def InSlowStart_def GetCongestionWindow_def GetSlowStartThreshold_def cc_consts Let_def)
qed

end
