(* ===== verification/SentHistory.thy ===== *)
theory SentHistory
  imports ReceivedTracker Congestion "HOL-Library.AList"
begin

text \<open>
  Packet numbers and the packets in flight: \<open>packet_number_generator.go\<close>, \<open>sent_packet_history.go\<close> and
  the data types of \<open>interfaces.go\<close> and \<open>frame.go\<close> in \<open>core/ackhandler\<close>. A random number is an argument.
  The elements of the linked list of the history have numbers of their own, to which the map refers.
  The callbacks of a frame are numbers, too; calling one is an event. The lemmas show that packet
  numbers are never reused and that skipped ones are detected in acknowledgements, and that the
  history is a map from packet numbers to packets that remembers the order of sending.
\<close>

section \<open>Packet numbers\<close>

definition SkipPacketAveragePeriodLength :: PacketNumber where "SkipPacketAveragePeriodLength = 500"
definition MaxTrackedSkippedPackets :: nat where "MaxTrackedSkippedPackets = 10"

record packetNumberGenerator =
  averagePeriod :: PacketNumber
  pg_next :: PacketNumber
  nextToSkip :: PacketNumber
  pg_history :: "PacketNumber list"

definition generateNewSkip :: "packetNumberGenerator \<Rightarrow> u16 \<Rightarrow> packetNumberGenerator" where
  "generateNewSkip p num =
    (let skip = i64 (uint num * i64 (averagePeriod p - 1)) sdiv 32767
     in p\<lparr>nextToSkip := i64 (i64 (pg_next p + 2) + skip)\<rparr>)"

definition newPacketNumberGenerator :: "PacketNumber \<Rightarrow> PacketNumber \<Rightarrow> u16 \<Rightarrow> packetNumberGenerator" where
  "newPacketNumberGenerator initial period num =
    generateNewSkip \<lparr>averagePeriod = period, pg_next = initial, nextToSkip = 0, pg_history = []\<rparr> num"

definition getRandomNumber :: "byte \<Rightarrow> byte \<Rightarrow> u16" where
  "getRandomNumber b0 b1 = push_bit 8 (ucast b0) + ucast b1"

definition Peek :: "packetNumberGenerator \<Rightarrow> PacketNumber" where
  "Peek p = pg_next p"

definition generator_Pop :: "packetNumberGenerator \<Rightarrow> u16 \<Rightarrow> PacketNumber \<times> packetNumberGenerator" where
  "generator_Pop p num =
    (let pn = pg_next p;
         p = p\<lparr>pg_next := i64 (pg_next p + 1)\<rparr>
     in if pg_next p = nextToSkip p then
          let h = (if length (pg_history p) + 1 > MaxTrackedSkippedPackets then tl (pg_history p) else pg_history p);
              p = p\<lparr>pg_history := h @ [pg_next p]\<rparr>;
              p = p\<lparr>pg_next := i64 (pg_next p + 1)\<rparr>
          in (pn, generateNewSkip p num)
        else (pn, p))"

fun validate_loop :: "AckFrame \<Rightarrow> PacketNumber list \<Rightarrow> go_error + bool" where
  "validate_loop ack [] = Inr True"
| "validate_loop ack (pn # pns) = tryE (AcksPacket ack pn) (\<lambda>b. if b then Inr False else validate_loop ack pns)"

definition Validate :: "packetNumberGenerator \<Rightarrow> AckFrame \<Rightarrow> go_error + bool" where
  "Validate p ack = validate_loop ack (pg_history p)"

section \<open>Packets\<close>

record ah_Frame =
  ahf_Frame :: "Frame option"
  ahf_OnLost :: "nat option"
  ahf_OnAcked :: "nat option"

record Packet =
  pk_PacketNumber :: PacketNumber
  pk_Frames :: "ah_Frame list"
  pk_LargestAcked :: PacketNumber
  pk_Length :: ByteCount
  pk_EncryptionLevel :: EncryptionLevel
  pk_SendTime :: Time
  includedInBytesInFlight :: bool

record sentPacketHistory =
  packetList :: "(nat \<times> Packet) list"
  packetMap :: "(PacketNumber \<times> nat) list"
  nextElement :: nat

definition newSentPacketHistory :: sentPacketHistory where
  "newSentPacketHistory = \<lparr>packetList = [], packetMap = [], nextElement = 0\<rparr>"

definition history_SentPacket :: "sentPacketHistory \<Rightarrow> Packet \<Rightarrow> sentPacketHistory" where
  "history_SentPacket h p =
    h\<lparr>packetList := packetList h @ [(nextElement h, p)],
      packetMap := AList.update (pk_PacketNumber p) (nextElement h) (packetMap h),
      nextElement := nextElement h + 1\<rparr>"

definition GetPacket :: "sentPacketHistory \<Rightarrow> PacketNumber \<Rightarrow> Packet option" where
  "GetPacket h pn = (case map_of (packetMap h) pn of None \<Rightarrow> None | Some el \<Rightarrow> map_of (packetList h) el)"

definition HasOutstandingPackets :: "sentPacketHistory \<Rightarrow> bool" where
  "HasOutstandingPackets h \<longleftrightarrow> length (packetList h) > 0"

definition FirstOutstanding :: "sentPacketHistory \<Rightarrow> Packet option" where
  "FirstOutstanding h = (if \<not> HasOutstandingPackets h then None else Some (snd (hd (packetList h))))"

definition history_Len :: "sentPacketHistory \<Rightarrow> nat" where
  "history_Len h = length (packetMap h)"

definition history_Remove :: "sentPacketHistory \<Rightarrow> PacketNumber \<Rightarrow> go_error + sentPacketHistory" where
  "history_Remove h pn =
    (case map_of (packetMap h) pn of
       None \<Rightarrow> Inl (Errorf (''packet %d not found in sent packet history'', [pn]))
     | Some el \<Rightarrow> Inr (h\<lparr>packetList := AList.delete el (packetList h), packetMap := AList.delete pn (packetMap h)\<rparr>))"

text \<open>\<open>Iterate\<close> calls its callback on the packets in the order of the list, until it says to stop.\<close>

definition logged :: "sentPacketHistory \<Rightarrow> Packet list" where
  "logged h = map snd (packetList h)"

fun Iterate :: "('s \<Rightarrow> Packet \<Rightarrow> go_error + bool \<times> 's) \<Rightarrow> Packet list \<Rightarrow> 's \<Rightarrow> go_error + 's" where
  "Iterate cb [] s = Inr s"
| "Iterate cb (p # ps) s = tryE (cb s p) (\<lambda>(cont, s). if cont then Iterate cb ps s else Inr s)"

section \<open>The generator\<close>

text \<open>The numbers popped by a sequence of calls.\<close>

fun popAll :: "packetNumberGenerator \<Rightarrow> u16 list \<Rightarrow> PacketNumber list \<times> packetNumberGenerator" where
  "popAll g [] = ([], g)"
| "popAll g (num # nums) = (case generator_Pop g num of (pn, g) \<Rightarrow> case popAll g nums of (pns, g) \<Rightarrow> (pn # pns, g))"

lemma generateNewSkip_range:
  assumes "averagePeriod g = SkipPacketAveragePeriodLength" "0 \<le> pg_next g" "pg_next g < 2 ^ 62"
  shows "pg_next g + 2 \<le> nextToSkip (generateNewSkip g num)" "nextToSkip (generateNewSkip g num) < pg_next g + 2 + 1000"
    "pg_next (generateNewSkip g num) = pg_next g" "pg_history (generateNewSkip g num) = pg_history g"
    "averagePeriod (generateNewSkip g num) = averagePeriod g"
proof -
  define n where "n = uint num"
  have n: "0 \<le> n" "n < 65536" using uint_lt2p [of num] by (simp_all add: n_def)
  define s where "s = n * 499 div 32767"
  have r: "0 \<le> n * 499" "n * 499 < 1000 * 32767" "(0 :: int) < 32767" using n by simp_all
  have s: "0 \<le> s" "s < 1000" unfolding s_def by (rule div_range [OF r])+
  have "i64 (n * i64 (averagePeriod g - 1)) = n * 499" using n assms(1) by (simp add: SkipPacketAveragePeriodLength_def)
  then have "i64 (n * i64 (averagePeriod g - 1)) sdiv 32767 = s" using n by (simp only: s_def) (simp add: sdiv_nonneg)
  then have e: "nextToSkip (generateNewSkip g num) = pg_next g + 2 + s"
    using assms(2,3) s by (simp add: generateNewSkip_def Let_def flip: n_def)
  show "pg_next g + 2 \<le> nextToSkip (generateNewSkip g num)" "nextToSkip (generateNewSkip g num) < pg_next g + 2 + 1000"
    using s by (simp_all add: e)
qed (simp_all add: generateNewSkip_def Let_def)

text \<open>The numbers from \<open>initial\<close> on that were passed over.\<close>

definition passedOver :: "PacketNumber \<Rightarrow> PacketNumber list \<Rightarrow> PacketNumber \<Rightarrow> PacketNumber list" where
  "passedOver initial used nxt = filter (\<lambda>p. p \<notin> set used) [initial .. nxt - 1]"

definition lastTen :: "PacketNumber list \<Rightarrow> PacketNumber list" where
  "lastTen xs = drop (length xs - 10) xs"

definition generator_inv :: "PacketNumber \<Rightarrow> PacketNumber list \<Rightarrow> packetNumberGenerator \<Rightarrow> bool" where
  "generator_inv initial used g \<longleftrightarrow> averagePeriod g = SkipPacketAveragePeriodLength \<and> initial \<le> pg_next g \<and>
     pg_next g < nextToSkip g \<and> nextToSkip g < pg_next g + 1002 \<and>
     sorted_wrt (<) used \<and> (\<forall>p \<in> set used. initial \<le> p \<and> p < pg_next g) \<and>
     (\<forall>i. Suc i < length used \<longrightarrow> used ! Suc i \<le> used ! i + 2) \<and> (used = [] \<or> pg_next g \<le> last used + 2) \<and>
     pg_history g = lastTen (passedOver initial used (pg_next g))"

lemma lastTen_snoc: "lastTen (xs @ [x]) = (if length (lastTen xs) + 1 > 10 then tl (lastTen xs) else lastTen xs) @ [x]"
proof (cases "length xs < 10")
  case False
  then have "length xs - 9 = Suc (length xs - 10)" by simp
  then show ?thesis using False by (simp add: lastTen_def tl_drop drop_Suc)
qed (simp add: lastTen_def)

lemma passedOver_step:
  assumes "initial \<le> n" and "\<forall>p \<in> set used. p < n"
  shows "passedOver initial (used @ [n]) (n + 1) = passedOver initial used n"
    "passedOver initial (used @ [n]) (n + 2) = passedOver initial used n @ [n + 1]"
proof -
  have "[initial .. n - 1] @ [n] = [initial .. n]" using assms(1) by (simp add: upto_rec2)
  then have 1: "[initial .. n + 1 - 1] = [initial .. n - 1] @ [n]" by simp
  have 2: "[initial .. n + 2 - 1] = [initial .. n - 1] @ [n, n + 1]"
    using 1 assms(1) upto_rec2 [of initial "n + 1"] by (simp add: add.commute)
  have f: "filter (\<lambda>p. p \<notin> set (used @ [n])) [initial .. n - 1] = filter (\<lambda>p. p \<notin> set used) [initial .. n - 1]"
    by (rule filter_cong) auto
  show "passedOver initial (used @ [n]) (n + 1) = passedOver initial used n" unfolding passedOver_def 1 filter_append f by simp
  show "passedOver initial (used @ [n]) (n + 2) = passedOver initial used n @ [n + 1]"
    unfolding passedOver_def 2 filter_append f using assms(2) by auto
qed

lemma generator_Pop_inv:
  assumes inv: "generator_inv initial used g" and lim: "0 \<le> initial" "pg_next g < 2 ^ 61"
    and pop: "generator_Pop g num = (pn, g')"
  shows "pn = pg_next g \<and> generator_inv initial (used @ [pn]) g' \<and> pg_next g' \<le> pg_next g + 2"
proof -
  have n: "0 \<le> pg_next g" "initial \<le> pg_next g" "\<forall>p \<in> set used. p < pg_next g" using inv lim by (auto simp: generator_inv_def)
  have e: "i64 (pg_next g + 1) = pg_next g + 1" "i64 (pg_next g + 2) = pg_next g + 2" using n(1) lim(2) by simp_all
  have steps: "(used @ [pg_next g]) ! Suc i \<le> (used @ [pg_next g]) ! i + 2" if "Suc i < length (used @ [pg_next g])" for i
  proof (cases "Suc i < length used")
    case True
    then show ?thesis using inv by (simp add: nth_append generator_inv_def)
  next
    case False
    then have "Suc i = length used" using that by simp
    then have i: "i = length used - 1" "used \<noteq> []" by auto
    then have "pg_next g \<le> used ! i + 2" using inv by (auto simp: generator_inv_def last_conv_nth)
    then show ?thesis using i \<open>Suc i = length used\<close> by (simp add: nth_append)
  qed
  have used: "sorted_wrt (<) (used @ [pg_next g])" "\<forall>p \<in> set (used @ [pg_next g]). initial \<le> p \<and> p < pg_next g + 1"
    using inv by (auto simp: generator_inv_def sorted_wrt_append)
  show ?thesis
  proof (cases "pg_next g + 1 = nextToSkip g")
    case False
    then have "pn = pg_next g" "g' = g\<lparr>pg_next := pg_next g + 1\<rparr>" using pop e by (auto simp: generator_Pop_def Let_def)
    then show ?thesis using inv used steps False passedOver_step(1) [OF n(2,3)] by (auto simp: generator_inv_def)
  next
    case True
    let ?h = "(if length (pg_history g) + 1 > MaxTrackedSkippedPackets then tl (pg_history g) else pg_history g) @ [pg_next g + 1]"
    define g1 where "g1 = g\<lparr>pg_history := ?h, pg_next := pg_next g + 2\<rparr>"
    have "nextToSkip g + 1 = pg_next g + 2" using True by simp
    then have "i64 (nextToSkip g + 1) = pg_next g + 2" using e(2) by (simp only:)
    then have "pn = pg_next g" "g' = generateNewSkip g1 num"
      using pop e True by (auto simp: generator_Pop_def Let_def g1_def add.assoc)
    moreover have "averagePeriod g1 = SkipPacketAveragePeriodLength" "0 \<le> pg_next g1" "pg_next g1 < 2 ^ 62"
      using inv n(1) lim(2) by (simp_all add: g1_def generator_inv_def)
    note g1 = generateNewSkip_range [OF this, of num]
    moreover have "?h = lastTen (passedOver initial (used @ [pg_next g]) (pg_next g + 2))"
      unfolding passedOver_step(2) [OF n(2,3)] lastTen_snoc using inv by (simp add: generator_inv_def MaxTrackedSkippedPackets_def)
    ultimately show ?thesis using inv used steps by (auto simp: generator_inv_def g1_def SkipPacketAveragePeriodLength_def)
  qed
qed

lemma popAll_inv:
  assumes "generator_inv initial used g" and "0 \<le> initial" and "pg_next g + 2 * int (length nums) < 2 ^ 61"
    and "popAll g nums = (pns, g')"
  shows "generator_inv initial (used @ pns) g'"
  using assms
proof (induction nums arbitrary: used g pns)
  case Nil
  then show ?case by simp
next
  case (Cons num nums)
  obtain pn g1 pns1 where pop: "generator_Pop g num = (pn, g1)" "popAll g1 nums = (pns1, g')" "pns = pn # pns1"
    using Cons.prems(4) by (auto split: prod.splits)
  have "generator_inv initial (used @ [pn]) g1" "pg_next g1 \<le> pg_next g + 2"
    using generator_Pop_inv [OF Cons.prems(1,2) _ pop(1)] Cons.prems(3) by auto
  then show ?case using Cons.IH [of "used @ [pn]" g1 pns1] Cons.prems(2,3) pop by simp
qed

lemma newPacketNumberGenerator_inv:
  assumes "0 \<le> initial" "initial < 2 ^ 62"
  shows "generator_inv initial [] (newPacketNumberGenerator initial SkipPacketAveragePeriodLength num)"
  using generateNewSkip_range [of "\<lparr>averagePeriod = SkipPacketAveragePeriodLength, pg_next = initial, nextToSkip = 0, pg_history = []\<rparr>" num] assms
  by (auto simp: generator_inv_def newPacketNumberGenerator_def passedOver_def lastTen_def)

lemma Validate_iff:
  assumes "valid_ack ack"
  shows "Validate g ack = Inr (\<forall>pn \<in> set (pg_history g). pn \<notin> acked ack)"
proof -
  have "validate_loop ack pns = Inr (\<forall>pn \<in> set pns. pn \<notin> acked ack)" for pns
    using valid_ack_AcksPacket [OF assms] by (induction pns) auto
  then show ?thesis by (simp add: Validate_def)
qed

text \<open>C32. Packet numbers grow strictly, so none is used twice, and no two consecutive numbers are skipped. An ACK
  frame passes \<open>Validate\<close> exactly when it acknowledges none of the last ten skipped numbers.\<close>

theorem packet_numbers_fresh:
  assumes "0 \<le> initial" and "initial + 2 * int (length nums) < 2 ^ 61" and "valid_ack ack"
    and "popAll (newPacketNumberGenerator initial SkipPacketAveragePeriodLength num) nums = (pns, g)"
  shows "sorted_wrt (<) pns \<and> (\<forall>i. Suc i < length pns \<longrightarrow> pns ! Suc i \<le> pns ! i + 2) \<and>
    Validate g ack = Inr (\<forall>pn \<in> set (lastTen (passedOver initial pns (Peek g))). pn \<notin> acked ack)"
proof -
  have "initial < 2 ^ 62" using assms(2) by simp
  note start = newPacketNumberGenerator_inv [OF assms(1) this, of num]
  have "pg_next (newPacketNumberGenerator initial SkipPacketAveragePeriodLength num) = initial"
    by (simp add: newPacketNumberGenerator_def generateNewSkip_def Let_def)
  then have "generator_inv initial pns g" using popAll_inv [OF start assms(1) _ assms(4)] assms(2) by simp
  then show ?thesis using Validate_iff [OF assms(3), of g] by (auto simp: generator_inv_def Peek_def)
qed

theorem packet_numbers_fresh_witness:
  "\<exists>pns g. popAll (newPacketNumberGenerator 0 SkipPacketAveragePeriodLength 0) [0, 0] = (pns, g) \<and> sorted_wrt (<) pns \<and>
     Validate g \<lparr>AckRanges = [\<lparr>Smallest = 0, Largest = 3\<rparr>], DelayTime = 0\<rparr> = Inr False"
proof -
  let ?ack = "\<lparr>AckRanges = [\<lparr>Smallest = 0, Largest = 3\<rparr>], DelayTime = 0\<rparr>"
  obtain pns g where run: "popAll (newPacketNumberGenerator 0 SkipPacketAveragePeriodLength 0) [0, 0] = (pns, g)"
    by (metis prod.collapse)
  then have "pns = [0, 1]" "Peek g = 3"
    by (auto simp: newPacketNumberGenerator_def generateNewSkip_def generator_Pop_def Let_def Peek_def SkipPacketAveragePeriodLength_def
        MaxTrackedSkippedPackets_def)
  moreover have "valid_ack ?ack" by (simp add: valid_ack_def ack_chain_def pn_ok_def)
  ultimately show ?thesis using packet_numbers_fresh [OF _ _ _ run, of ?ack] run
    by (auto simp: passedOver_def lastTen_def acked_def upto.simps)
qed

section \<open>The history as a log of packets\<close>

text \<open>What the handler of sent packets relies on: the history holds packets with different numbers in the order of
  sending, and packets are looked up and removed by their numbers.\<close>

locale packet_log =
  fixes inv :: "'h \<Rightarrow> bool"
    and contents :: "'h \<Rightarrow> Packet list"
    and add :: "'h \<Rightarrow> Packet \<Rightarrow> 'h"
    and get :: "'h \<Rightarrow> PacketNumber \<Rightarrow> Packet option"
    and rem :: "'h \<Rightarrow> PacketNumber \<Rightarrow> go_error + 'h"
  assumes distinct: "inv h \<Longrightarrow> distinct (map pk_PacketNumber (contents h))"
    and add: "inv h \<Longrightarrow> pk_PacketNumber p \<notin> pk_PacketNumber ` set (contents h) \<Longrightarrow>
      inv (add h p) \<and> contents (add h p) = contents h @ [p]"
    and get: "inv h \<Longrightarrow> get h pn = find (\<lambda>p. pk_PacketNumber p = pn) (contents h)"
    and rem: "inv h \<Longrightarrow> pn \<in> pk_PacketNumber ` set (contents h) \<Longrightarrow>
      \<exists>h'. rem h pn = Inr h' \<and> inv h' \<and> contents h' = filter (\<lambda>p. pk_PacketNumber p \<noteq> pn) (contents h)"
    and rem_missing: "inv h \<Longrightarrow> pn \<notin> pk_PacketNumber ` set (contents h) \<Longrightarrow> \<exists>e. rem h pn = Inl e"
begin

lemma get_in: "inv h \<Longrightarrow> p \<in> set (contents h) \<Longrightarrow> get h (pk_PacketNumber p) = Some p"
proof -
  assume inv: "inv h" and p: "p \<in> set (contents h)"
  have "find (\<lambda>q. pk_PacketNumber q = pk_PacketNumber p) ps = Some p" if "p \<in> set ps" "distinct (map pk_PacketNumber ps)" for ps
    using that by (induction ps) (auto simp: image_iff)
  then show ?thesis using p distinct [OF inv] get [OF inv] by simp
qed

lemma get_None: "inv h \<Longrightarrow> get h pn = None \<longleftrightarrow> pn \<notin> pk_PacketNumber ` set (contents h)"
  by (auto simp: get find_None_iff)

end

definition history_inv :: "sentPacketHistory \<Rightarrow> bool" where
  "history_inv h \<longleftrightarrow> distinct (map fst (packetList h)) \<and> (\<forall>el \<in> fst ` set (packetList h). el < nextElement h) \<and>
     distinct (map pk_PacketNumber (logged h)) \<and> distinct (map fst (packetMap h)) \<and>
     (\<forall>pn el. map_of (packetMap h) pn = Some el \<longleftrightarrow> (\<exists>p. (el, p) \<in> set (packetList h) \<and> pk_PacketNumber p = pn))"

lemma find_logged:
  assumes "distinct (map snd ps)" and "(el, p) \<in> set ps" and "distinct (map pk_PacketNumber (map snd ps))"
  shows "find (\<lambda>q. pk_PacketNumber q = pk_PacketNumber p) (map snd ps) = Some p"
  using assms by (induction ps) (auto simp: image_iff)

lemma history_GetPacket:
  assumes "history_inv h"
  shows "GetPacket h pn = find (\<lambda>p. pk_PacketNumber p = pn) (logged h)"
proof (cases "map_of (packetMap h) pn")
  case None
  have "\<not> (\<exists>p \<in> set (logged h). pk_PacketNumber p = pn)"
  proof
    assume "\<exists>p \<in> set (logged h). pk_PacketNumber p = pn"
    then obtain el p where "(el, p) \<in> set (packetList h)" "pk_PacketNumber p = pn" by (auto simp: logged_def)
    then have "map_of (packetMap h) pn = Some el" using assms unfolding history_inv_def by blast
    then show False using None by simp
  qed
  then show ?thesis using None by (auto simp: GetPacket_def find_None_iff eq_commute [of None])
next
  case (Some el)
  then obtain p where p: "(el, p) \<in> set (packetList h)" "pk_PacketNumber p = pn" using assms unfolding history_inv_def by blast
  have "map_of (packetList h) el = Some p" using p(1) assms by (simp add: history_inv_def map_of_is_SomeI)
  moreover have "find (\<lambda>q. pk_PacketNumber q = pn) (logged h) = Some p"
    using find_logged [OF _ p(1)] assms p(2) distinct_map [of pk_PacketNumber "logged h"]
    by (simp add: history_inv_def logged_def)
  ultimately show ?thesis using Some by (simp add: GetPacket_def)
qed

interpretation log: packet_log history_inv logged history_SentPacket GetPacket history_Remove
proof
  fix h assume "history_inv h"
  then show "distinct (map pk_PacketNumber (logged h))" by (simp add: history_inv_def)
next
  fix h and p :: Packet assume inv: "history_inv h" and new: "pk_PacketNumber p \<notin> pk_PacketNumber ` set (logged h)"
  have c: "logged (history_SentPacket h p) = logged h @ [p]" by (simp add: logged_def history_SentPacket_def)
  have fresh: "nextElement h \<notin> fst ` set (packetList h)" using inv by (auto simp: history_inv_def)
  have "map_of (packetMap (history_SentPacket h p)) pn = Some el \<longleftrightarrow>
      (\<exists>q. (el, q) \<in> set (packetList (history_SentPacket h p)) \<and> pk_PacketNumber q = pn)" for pn el
  proof -
    have "map_of (packetMap (history_SentPacket h p)) = (map_of (packetMap h))(pk_PacketNumber p \<mapsto> nextElement h)"
      by (simp add: history_SentPacket_def update_conv')
    moreover have "map_of (packetMap h) pn = Some el \<longleftrightarrow> (\<exists>p. (el, p) \<in> set (packetList h) \<and> pk_PacketNumber p = pn)"
      using inv by (simp add: history_inv_def)
    moreover have "\<not> (\<exists>q. (el, q) \<in> set (packetList h) \<and> pk_PacketNumber q = pk_PacketNumber p)"
      using new by (auto simp: logged_def image_iff)
    ultimately show ?thesis by (auto simp: history_SentPacket_def)
  qed
  moreover have "distinct (map fst (packetList (history_SentPacket h p)))" "distinct (map fst (packetMap (history_SentPacket h p)))"
    "\<forall>el \<in> fst ` set (packetList (history_SentPacket h p)). el < nextElement (history_SentPacket h p)"
    using inv fresh by (auto simp: history_inv_def history_SentPacket_def distinct_update less_Suc_eq)
  moreover have "distinct (map pk_PacketNumber (logged (history_SentPacket h p)))" using inv new by (simp add: c history_inv_def)
  ultimately show "history_inv (history_SentPacket h p) \<and> logged (history_SentPacket h p) = logged h @ [p]"
    using c by (simp add: history_inv_def)
next
  fix h pn assume "history_inv h"
  then show "GetPacket h pn = find (\<lambda>p. pk_PacketNumber p = pn) (logged h)" by (rule history_GetPacket)
next
  fix h pn assume inv: "history_inv h" and "pn \<in> pk_PacketNumber ` set (logged h)"
  then obtain el p where p: "(el, p) \<in> set (packetList h)" "pk_PacketNumber p = pn" by (auto simp: logged_def)
  have m: "map_of (packetMap h) pn = Some el" using p inv unfolding history_inv_def by blast
  define h' where "h' = h\<lparr>packetList := AList.delete el (packetList h), packetMap := AList.delete pn (packetMap h)\<rparr>"
  have same: "el' = el \<longleftrightarrow> pk_PacketNumber q = pn" if q: "(el', q) \<in> set (packetList h)" for el' q
  proof
    assume "el' = el"
    then show "pk_PacketNumber q = pn" using p q inv by (auto simp: history_inv_def dest: eq_key_imp_eq_value)
  next
    assume "pk_PacketNumber q = pn"
    then have "map_of (packetMap h) pn = Some el'" using q inv unfolding history_inv_def by blast
    then show "el' = el" using m by simp
  qed
  have l: "packetList h' = filter (\<lambda>(el', q). pk_PacketNumber q \<noteq> pn) (packetList h)"
    unfolding h'_def using same by (auto simp: AList.delete_eq intro!: filter_cong)
  then have c: "logged h' = filter (\<lambda>p. pk_PacketNumber p \<noteq> pn) (logged h)"
    by (simp add: logged_def filter_map comp_def case_prod_unfold)
  have "map_of (packetMap h') n = Some e \<longleftrightarrow> (\<exists>q. (e, q) \<in> set (packetList h') \<and> pk_PacketNumber q = n)" for n e
  proof -
    have "map_of (packetMap h') = (map_of (packetMap h))(pn := None)" by (simp add: h'_def delete_conv')
    then show ?thesis using inv by (auto simp: l history_inv_def)
  qed
  moreover have "distinct (map fst (packetList h'))" "distinct (map fst (packetMap h'))"
    using inv by (simp_all add: h'_def history_inv_def distinct_delete)
  moreover have "\<forall>el \<in> fst ` set (packetList h'). el < nextElement h'"
    using inv unfolding l by (auto simp: history_inv_def h'_def)
  moreover have "distinct (map pk_PacketNumber (logged h'))" using inv by (simp add: c history_inv_def distinct_map_filter)
  ultimately have "history_inv h'" by (simp add: history_inv_def)
  moreover have "history_Remove h pn = Inr h'" by (simp add: history_Remove_def m h'_def)
  ultimately show "\<exists>h'. history_Remove h pn = Inr h' \<and> history_inv h' \<and> logged h' = filter (\<lambda>p. pk_PacketNumber p \<noteq> pn) (logged h)"
    using c by blast
next
  fix h pn assume inv: "history_inv h" and "pn \<notin> pk_PacketNumber ` set (logged h)"
  then have "map_of (packetMap h) pn = None"
    unfolding history_inv_def logged_def by (cases "map_of (packetMap h) pn") force+
  then show "\<exists>e. history_Remove h pn = Inl e" by (simp add: history_Remove_def)
qed

lemma newSentPacketHistory_inv: "history_inv newSentPacketHistory" "logged newSentPacketHistory = []"
  by (simp_all add: history_inv_def newSentPacketHistory_def logged_def)

end
