(* ===== verification/SentPackets.thy ===== *)
theory SentPackets
  imports SentHistory
begin

text \<open>
  Acknowledgements, losses and timers of sent packets: \<open>sent_packet_handler.go\<close>. The record
  \<open>sentPacketHandler\<close> has the state of the handler, with the congestion controller and the round trip
  statistics; the spaces of the handshake are \<open>None\<close> once they are dropped. Operations return the calls
  of the callbacks of frames as events, or an error, after which the session is closed. Tracing and
  logging are left out. The theory \<open>LossRecovery\<close> has the lemmas.
\<close>

section \<open>The handler\<close>

definition timeThreshold :: rat where "timeThreshold = 9 / 8"
definition packetThreshold :: PacketNumber where "packetThreshold = 3"
definition MaxOutstandingSentPackets :: nat where "MaxOutstandingSentPackets = 2 * defaultMaxCongestionWindowPackets"
definition MaxTrackedSentPackets :: nat where "MaxTrackedSentPackets = MaxOutstandingSentPackets * 5 div 4"
definition MinPacingDelay :: Duration where "MinPacingDelay = 100 * Microsecond"

datatype SendMode = SendNone | SendAck | SendPTO | SendAny

fun SendMode_String :: "SendMode \<Rightarrow> string" where
  "SendMode_String SendNone = ''none''"
| "SendMode_String SendAck = ''ack''"
| "SendMode_String SendPTO = ''pto''"
| "SendMode_String SendAny = ''any''"

datatype frame_event = OnAcked nat "Frame option" | OnLost nat "Frame option"

record packetNumberSpace =
  ps_history :: sentPacketHistory
  ps_pns :: packetNumberGenerator
  lossTime :: Time
  ps_largestAcked :: PacketNumber
  largestSent :: PacketNumber

definition newPacketNumberSpace :: "PacketNumber \<Rightarrow> u16 \<Rightarrow> packetNumberSpace" where
  "newPacketNumberSpace initialPN num =
    \<lparr>ps_history = newSentPacketHistory, ps_pns = newPacketNumberGenerator initialPN SkipPacketAveragePeriodLength num,
     lossTime = 0, ps_largestAcked = InvalidPacketNumber, largestSent = InvalidPacketNumber\<rparr>"

record sentPacketHandler =
  lastSentAckElicitingPacketTime :: Time
  lastSentCryptoPacketTime :: Time
  nextSendTime :: Time
  sp_initial :: "packetNumberSpace option"
  sp_handshake :: "packetNumberSpace option"
  sp_oneRTT :: packetNumberSpace
  lowestNotConfirmedAcked :: PacketNumber
  bytesInFlight :: ByteCount
  congestion :: cubicSender
  sp_rttStats :: RTTStats
  ptoCount :: u32
  numProbesToSend :: int
  alarm :: Time

definition NewSentPacketHandler :: "PacketNumber \<Rightarrow> RTTStats \<Rightarrow> u16 \<Rightarrow> u16 \<Rightarrow> u16 \<Rightarrow> sentPacketHandler" where
  "NewSentPacketHandler initialPacketNumber rtt n1 n2 n3 =
    \<lparr>lastSentAckElicitingPacketTime = 0, lastSentCryptoPacketTime = 0, nextSendTime = 0,
     sp_initial = Some (newPacketNumberSpace initialPacketNumber n1), sp_handshake = Some (newPacketNumberSpace 0 n2),
     sp_oneRTT = newPacketNumberSpace 0 n3, lowestNotConfirmedAcked = 0, bytesInFlight = 0,
     congestion = NewCubicSender True InitialCongestionWindow DefaultMaxCongestionWindow, sp_rttStats = rtt,
     ptoCount = 0, numProbesToSend = 0, alarm = 0\<rparr>"

text \<open>The space of an encryption level. The callers use the pointer at once, so a nil pointer is a panic.\<close>

definition nilSpace :: "packetNumberSpace option \<Rightarrow> go_error + packetNumberSpace" where
  "nilSpace sp = (case sp of Some sp \<Rightarrow> Inr sp
     | None \<Rightarrow> Inl (Panic (''invalid memory address or nil pointer dereference'', [])))"

fun getPacketNumberSpace :: "sentPacketHandler \<Rightarrow> EncryptionLevel \<Rightarrow> go_error + packetNumberSpace" where
  "getPacketNumberSpace h EncryptionInitial = nilSpace (sp_initial h)"
| "getPacketNumberSpace h EncryptionHandshake = nilSpace (sp_handshake h)"
| "getPacketNumberSpace h Encryption1RTT = Inr (sp_oneRTT h)"
| "getPacketNumberSpace h EncryptionUnspecified = Inl (Panic (''invalid packet number space'', []))"

fun setSpace :: "sentPacketHandler \<Rightarrow> EncryptionLevel \<Rightarrow> packetNumberSpace \<Rightarrow> sentPacketHandler" where
  "setSpace h EncryptionInitial sp = h\<lparr>sp_initial := Some sp\<rparr>"
| "setSpace h EncryptionHandshake sp = h\<lparr>sp_handshake := Some sp\<rparr>"
| "setSpace h Encryption1RTT sp = h\<lparr>sp_oneRTT := sp\<rparr>"
| "setSpace h EncryptionUnspecified sp = h"

section \<open>The timer\<close>

definition getEarliestLossTime :: "sentPacketHandler \<Rightarrow> Time \<times> EncryptionLevel" where
  "getEarliestLossTime h =
    (let (t, lvl) = (case sp_initial h of Some sp \<Rightarrow> (lossTime sp, EncryptionInitial) | None \<Rightarrow> (0, EncryptionUnspecified));
         (t, lvl) = (case sp_handshake h of
            Some sp \<Rightarrow> if IsZero t \<or> \<not> IsZero (lossTime sp) \<and> lossTime sp < t then (lossTime sp, EncryptionHandshake) else (t, lvl)
          | None \<Rightarrow> (t, lvl))
     in if IsZero t \<or> \<not> IsZero (lossTime (sp_oneRTT h)) \<and> lossTime (sp_oneRTT h) < t
        then (lossTime (sp_oneRTT h), Encryption1RTT) else (t, lvl))"

definition hasOutstandingCryptoPackets :: "sentPacketHandler \<Rightarrow> bool" where
  "hasOutstandingCryptoPackets h =
    (let hasInitial = (case sp_initial h of Some sp \<Rightarrow> HasOutstandingPackets (ps_history sp) | None \<Rightarrow> False);
         hasHandshake = (case sp_handshake h of Some sp \<Rightarrow> HasOutstandingPackets (ps_history sp) | None \<Rightarrow> False)
     in hasInitial \<or> hasHandshake)"

definition hasOutstandingPackets :: "sentPacketHandler \<Rightarrow> bool" where
  "hasOutstandingPackets h = (HasOutstandingPackets (ps_history (sp_oneRTT h)) \<or> hasOutstandingCryptoPackets h)"

definition setLossDetectionTimer :: "sentPacketHandler \<Rightarrow> sentPacketHandler" where
  "setLossDetectionTimer h =
    (let lt = fst (getEarliestLossTime h);
         h = (if \<not> IsZero lt then h\<lparr>alarm := lt\<rparr> else h)
     in if \<not> hasOutstandingPackets h then h\<lparr>alarm := 0\<rparr>
        else h\<lparr>alarm := Time_Add (lastSentAckElicitingPacketTime h) (i64 (push_bit (unat (ptoCount h)) (PTO (sp_rttStats h))))\<rparr>)"

section \<open>Sending\<close>

definition sentPacketImpl :: "sentPacketHandler \<Rightarrow> Packet \<Rightarrow> go_error + bool \<times> Packet \<times> sentPacketHandler" where
  "sentPacketImpl h packet =
    tryE (getPacketNumberSpace h (pk_EncryptionLevel packet)) (\<lambda>sp.
    let h = setSpace h (pk_EncryptionLevel packet) (sp\<lparr>largestSent := pk_PacketNumber packet\<rparr>);
        isAckEliciting = length (pk_Frames packet) > 0;
        packet = (if isAckEliciting then packet\<lparr>includedInBytesInFlight := True\<rparr> else packet);
        h = (if isAckEliciting then
               let h = (if pk_EncryptionLevel packet \<noteq> Encryption1RTT then h\<lparr>lastSentCryptoPacketTime := pk_SendTime packet\<rparr> else h)
               in h\<lparr>lastSentAckElicitingPacketTime := pk_SendTime packet, bytesInFlight := bytesInFlight h + pk_Length packet,
                    numProbesToSend := (if numProbesToSend h > 0 then numProbesToSend h - 1 else numProbesToSend h)\<rparr>
             else h);
        h = h\<lparr>congestion := cc_OnPacketSent (congestion h) (pk_PacketNumber packet) (pk_Length packet) isAckEliciting\<rparr>
    in tryE (cc_TimeUntilSend (congestion h) (sp_rttStats h) (bytesInFlight h)) (\<lambda>d.
       Inr (isAckEliciting, packet, h\<lparr>nextSendTime := Time_Add (MaxTime (nextSendTime h) (pk_SendTime packet)) d\<rparr>)))"

definition SentPacket :: "sentPacketHandler \<Rightarrow> Packet \<Rightarrow> go_error + sentPacketHandler" where
  "SentPacket h packet =
    tryE (sentPacketImpl h packet) (\<lambda>(isAckEliciting, packet, h).
    if isAckEliciting then
      tryE (getPacketNumberSpace h (pk_EncryptionLevel packet)) (\<lambda>sp.
      Inr (setLossDetectionTimer
        (setSpace h (pk_EncryptionLevel packet) (sp\<lparr>ps_history := history_SentPacket (ps_history sp) packet\<rparr>))))
    else Inr h)"

section \<open>Losses\<close>

fun lostFrames :: "ah_Frame list \<Rightarrow> go_error + frame_event list" where
  "lostFrames [] = Inr []"
| "lostFrames (f # fs) =
    (case ahf_OnLost f of
       None \<Rightarrow> Inl (Panic (''invalid memory address or nil pointer dereference'', []))
     | Some cb \<Rightarrow> tryE (lostFrames fs) (\<lambda>es. Inr (OnLost cb (ahf_Frame f) # es)))"

definition queueFramesForRetransmission :: "Packet \<Rightarrow> go_error + frame_event list" where
  "queueFramesForRetransmission p = lostFrames (pk_Frames p)"

text \<open>The iteration that collects the lost packets and sets the loss time of the space.\<close>

fun lostLoop :: "PacketNumber \<Rightarrow> Time \<Rightarrow> Duration \<Rightarrow> Packet list \<Rightarrow> Time \<Rightarrow> Packet list \<times> Time" where
  "lostLoop largest lostSendTime lossDelay [] lt = ([], lt)"
| "lostLoop largest lostSendTime lossDelay (p # ps) lt =
    (if pk_PacketNumber p > largest then ([], lt)
     else if pk_SendTime p < lostSendTime \<or> largest \<ge> i64 (pk_PacketNumber p + packetThreshold) then
       case lostLoop largest lostSendTime lossDelay ps lt of (lost, lt) \<Rightarrow> (p # lost, lt)
     else if IsZero lt then lostLoop largest lostSendTime lossDelay ps (Time_Add (pk_SendTime p) lossDelay)
     else lostLoop largest lostSendTime lossDelay ps lt)"

fun loseAll :: "sentPacketHandler \<Rightarrow> EncryptionLevel \<Rightarrow> ByteCount \<Rightarrow> Packet list \<Rightarrow> go_error + sentPacketHandler \<times> frame_event list" where
  "loseAll h lvl prior [] = Inr (h, [])"
| "loseAll h lvl prior (p # ps) =
    tryE (queueFramesForRetransmission p) (\<lambda>es.
    let h = (if includedInBytesInFlight p
             then h\<lparr>bytesInFlight := bytesInFlight h - pk_Length p,
                    congestion := cc_OnPacketLost (congestion h) (pk_PacketNumber p) (pk_Length p) prior\<rparr>
             else h)
    in tryE (getPacketNumberSpace h lvl) (\<lambda>sp.
       let h = (case history_Remove (ps_history sp) (pk_PacketNumber p) of
                  Inl _ \<Rightarrow> h | Inr hist \<Rightarrow> setSpace h lvl (sp\<lparr>ps_history := hist\<rparr>))
       in tryE (loseAll h lvl prior ps) (\<lambda>(h, es'). Inr (h, es @ es'))))"

definition lossDelayOf :: "RTTStats \<Rightarrow> Duration" where
  "lossDelayOf rtt =
    (let maxRTT = float64_of_int (MaxDuration (latestRTT rtt) (smoothedRTT rtt))
     in MaxDuration (int64_of_float (f64 (timeThreshold * maxRTT))) TimerGranularity)"

definition detectLostPackets :: "sentPacketHandler \<Rightarrow> Time \<Rightarrow> EncryptionLevel \<Rightarrow> ByteCount \<Rightarrow>
    go_error + sentPacketHandler \<times> frame_event list" where
  "detectLostPackets h now lvl prior =
    tryE (getPacketNumberSpace h lvl) (\<lambda>sp.
    let lossDelay = lossDelayOf (sp_rttStats h);
        lostSendTime = Time_Add now (- lossDelay)
    in case lostLoop (ps_largestAcked sp) lostSendTime lossDelay (logged (ps_history sp)) 0 of
         (lost, lt) \<Rightarrow> loseAll (setSpace h lvl (sp\<lparr>lossTime := lt\<rparr>)) lvl prior lost)"

definition onVerifiedLossDetectionTimeout :: "sentPacketHandler \<Rightarrow> Time \<Rightarrow> go_error + sentPacketHandler \<times> frame_event list" where
  "onVerifiedLossDetectionTimeout h now =
    (case getEarliestLossTime h of (lt, lvl) \<Rightarrow>
       if \<not> IsZero lt then detectLostPackets h now lvl (bytesInFlight h)
       else Inr (h\<lparr>ptoCount := ptoCount h + 1, numProbesToSend := numProbesToSend h + 2\<rparr>, []))"

definition OnLossDetectionTimeout :: "sentPacketHandler \<Rightarrow> Time \<Rightarrow> go_error + sentPacketHandler \<times> frame_event list" where
  "OnLossDetectionTimeout h now =
    tryE (if hasOutstandingPackets h then onVerifiedLossDetectionTimeout h now else Inr (h, []))
      (\<lambda>(h, es). Inr (setLossDetectionTimer h, es))"

section \<open>Acknowledgements\<close>

text \<open>The inner loop over the ranges, from the lowest one up.\<close>

function advanceRange :: "AckRange list \<Rightarrow> PacketNumber \<Rightarrow> nat \<Rightarrow> nat" where
  "advanceRange rs pn i =
    (if pn > Largest (rs ! (length rs - 1 - i)) \<and> i < length rs - 1 then advanceRange rs pn (i + 1) else i)"
  by auto
termination by (relation "measure (\<lambda>(rs, pn, i). length rs - i)") auto

declare advanceRange.simps [simp del]

fun ackedLoop :: "AckFrame \<Rightarrow> PacketNumber \<Rightarrow> PacketNumber \<Rightarrow> Packet list \<Rightarrow> nat \<Rightarrow> go_error + Packet list" where
  "ackedLoop ack lowest largest [] i = Inr []"
| "ackedLoop ack lowest largest (p # ps) i =
    (if pk_PacketNumber p < lowest then ackedLoop ack lowest largest ps i
     else if pk_PacketNumber p > largest then Inr []
     else if HasMissingRanges ack then
       let i = advanceRange (AckRanges ack) (pk_PacketNumber p) i;
           r = AckRanges ack ! (length (AckRanges ack) - 1 - i)
       in if pk_PacketNumber p \<ge> Smallest r then
            if pk_PacketNumber p > Largest r
            then Inl (Errorf (''BUG: ackhandler would have acked wrong packet 0x%x, while evaluating range 0x%x -> 0x%x'',
                   [pk_PacketNumber p, Smallest r, Largest r]))
            else tryE (ackedLoop ack lowest largest ps i) (\<lambda>acked. Inr (p # acked))
          else ackedLoop ack lowest largest ps i
     else tryE (ackedLoop ack lowest largest ps i) (\<lambda>acked. Inr (p # acked)))"

definition determineNewlyAckedPackets :: "sentPacketHandler \<Rightarrow> AckFrame \<Rightarrow> EncryptionLevel \<Rightarrow> go_error + Packet list" where
  "determineNewlyAckedPackets h ack lvl =
    tryE (getPacketNumberSpace h lvl) (\<lambda>sp.
    tryE (LowestAcked ack) (\<lambda>lowest.
    tryE (LargestAcked ack) (\<lambda>largest.
    ackedLoop ack lowest largest (logged (ps_history sp)) 0)))"

definition ackedFrames :: "ah_Frame list \<Rightarrow> frame_event list" where
  "ackedFrames fs = concat (map (\<lambda>f. case ahf_OnAcked f of Some cb \<Rightarrow> [OnAcked cb (ahf_Frame f)] | None \<Rightarrow> []) fs)"

definition onPacketAcked :: "sentPacketHandler \<Rightarrow> Packet \<Rightarrow> go_error + sentPacketHandler \<times> frame_event list" where
  "onPacketAcked h p =
    tryE (getPacketNumberSpace h (pk_EncryptionLevel p)) (\<lambda>sp.
    case GetPacket (ps_history sp) (pk_PacketNumber p) of
      None \<Rightarrow> Inr (h, [])
    | Some _ \<Rightarrow>
        let h = (if includedInBytesInFlight p then h\<lparr>bytesInFlight := bytesInFlight h - pk_Length p\<rparr> else h)
        in tryE (history_Remove (ps_history sp) (pk_PacketNumber p)) (\<lambda>hist.
           Inr (setSpace h (pk_EncryptionLevel p) (sp\<lparr>ps_history := hist\<rparr>), ackedFrames (pk_Frames p))))"

fun ackAll :: "sentPacketHandler \<Rightarrow> EncryptionLevel \<Rightarrow> ByteCount \<Rightarrow> Time \<Rightarrow> Packet list \<Rightarrow> go_error + sentPacketHandler \<times> frame_event list" where
  "ackAll h lvl prior rcvTime [] = Inr (h, [])"
| "ackAll h lvl prior rcvTime (p # ps) =
    (let h = (if pk_LargestAcked p \<noteq> InvalidPacketNumber \<and> lvl = Encryption1RTT
              then h\<lparr>lowestNotConfirmedAcked := MaxPacketNumber (lowestNotConfirmedAcked h) (i64 (pk_LargestAcked p + 1))\<rparr> else h)
     in tryE (onPacketAcked h p) (\<lambda>(h, es).
        let h = (if includedInBytesInFlight p
                 then h\<lparr>congestion := cc_OnPacketAcked (congestion h) (sp_rttStats h) (pk_PacketNumber p) (pk_Length p) prior rcvTime\<rparr>
                 else h)
        in tryE (ackAll h lvl prior rcvTime ps) (\<lambda>(h, es'). Inr (h, es @ es'))))"

definition ReceivedAck :: "sentPacketHandler \<Rightarrow> AckFrame \<Rightarrow> EncryptionLevel \<Rightarrow> Time \<Rightarrow> go_error + sentPacketHandler \<times> frame_event list" where
  "ReceivedAck h ack lvl rcvTime =
    tryE (getPacketNumberSpace h lvl) (\<lambda>sp.
    tryE (LargestAcked ack) (\<lambda>largest.
    if largest > largestSent sp then Inl (qerr_Error ProtocolViolation (''Received ACK for an unsent packet'', []))
    else
      let sp = sp\<lparr>ps_largestAcked := MaxPacketNumber (ps_largestAcked sp) largest\<rparr>;
          h = setSpace h lvl sp
      in tryE (Validate (ps_pns sp) ack) (\<lambda>ok.
      if \<not> ok then Inl (qerr_Error ProtocolViolation (''Received an ACK for a skipped packet number'', []))
      else
        let h = (case GetPacket (ps_history sp) largest of
                   None \<Rightarrow> h
                 | Some p \<Rightarrow>
                     let ackDelay = (if lvl = Encryption1RTT then MinDuration (DelayTime ack) (maxAckDelay (sp_rttStats h)) else 0);
                         h = h\<lparr>sp_rttStats := UpdateRTT (sp_rttStats h) (Time_Sub rcvTime (pk_SendTime p)) ackDelay\<rparr>
                     in h\<lparr>congestion := MaybeExitSlowStart (congestion h) (sp_rttStats h)\<rparr>)
        in tryE (determineNewlyAckedPackets h ack lvl) (\<lambda>acked.
        if length acked = 0 then Inr (h, [])
        else
          let prior = bytesInFlight h in
          tryE (ackAll h lvl prior rcvTime acked) (\<lambda>(h, es).
          tryE (detectLostPackets h rcvTime lvl prior) (\<lambda>(h, es').
          Inr (setLossDetectionTimer (h\<lparr>ptoCount := 0, numProbesToSend := 0\<rparr>), es @ es')))))))"

section \<open>The other operations\<close>

fun dropLoop :: "Packet list \<Rightarrow> ByteCount \<Rightarrow> ByteCount" where
  "dropLoop [] b = b"
| "dropLoop (p # ps) b = dropLoop ps (if includedInBytesInFlight p then b - pk_Length p else b)"

definition sp_DropPackets :: "sentPacketHandler \<Rightarrow> EncryptionLevel \<Rightarrow> go_error + sentPacketHandler" where
  "sp_DropPackets h lvl =
    tryE (getPacketNumberSpace h lvl) (\<lambda>sp.
    let h = h\<lparr>bytesInFlight := dropLoop (logged (ps_history sp)) (bytesInFlight h)\<rparr>
    in if lvl = EncryptionInitial then Inr (h\<lparr>sp_initial := None\<rparr>)
       else if lvl = EncryptionHandshake then Inr (h\<lparr>sp_handshake := None\<rparr>)
       else Inl (Panic (''Cannot drop keys for encryption level '' @ EncryptionLevel_String lvl, [])))"

definition PeekPacketNumber :: "sentPacketHandler \<Rightarrow> EncryptionLevel \<Rightarrow> go_error + PacketNumber \<times> PacketNumberLen" where
  "PeekPacketNumber h lvl =
    tryE (getPacketNumberSpace h lvl) (\<lambda>sp.
    let lowestUnacked = (case FirstOutstanding (ps_history sp) of
          Some p \<Rightarrow> pk_PacketNumber p | None \<Rightarrow> i64 (ps_largestAcked sp + 1));
        pn = Peek (ps_pns sp)
    in Inr (pn, GetPacketNumberLengthForHeader pn lowestUnacked))"

definition PopPacketNumber :: "sentPacketHandler \<Rightarrow> EncryptionLevel \<Rightarrow> u16 \<Rightarrow> go_error + PacketNumber \<times> sentPacketHandler" where
  "PopPacketNumber h lvl num =
    tryE (getPacketNumberSpace h lvl) (\<lambda>sp.
    case generator_Pop (ps_pns sp) num of (pn, g) \<Rightarrow> Inr (pn, setSpace h lvl (sp\<lparr>ps_pns := g\<rparr>)))"

definition sp_SendMode :: "sentPacketHandler \<Rightarrow> SendMode" where
  "sp_SendMode h =
    (let len = (\<lambda>sp. case sp of Some sp \<Rightarrow> history_Len (ps_history sp) | None \<Rightarrow> 0);
         numTrackedPackets = history_Len (ps_history (sp_oneRTT h)) + len (sp_initial h) + len (sp_handshake h)
     in if numTrackedPackets \<ge> MaxTrackedSentPackets then SendNone
        else if numProbesToSend h > 0 then SendPTO
        else if \<not> cc_CanSend (congestion h) (bytesInFlight h) then SendAck
        else if numTrackedPackets \<ge> MaxOutstandingSentPackets then SendAck
        else SendAny)"

definition sp_TimeUntilSend :: "sentPacketHandler \<Rightarrow> Time" where
  "sp_TimeUntilSend h = nextSendTime h"

definition ShouldSendNumPackets :: "sentPacketHandler \<Rightarrow> go_error + int" where
  "ShouldSendNumPackets h =
    (if numProbesToSend h > 0 then Inr (numProbesToSend h)
     else tryE (cc_TimeUntilSend (congestion h) (sp_rttStats h) (bytesInFlight h)) (\<lambda>delay.
       if delay = 0 \<or> delay > MinPacingDelay then Inr 1
       else Inr \<lceil>f64 (float64_of_int MinPacingDelay / float64_of_int delay)\<rceil>))"

definition QueueProbePacket :: "sentPacketHandler \<Rightarrow> go_error + bool \<times> sentPacketHandler \<times> frame_event list" where
  "QueueProbePacket h =
    (let first = (\<lambda>sp. case sp of Some sp \<Rightarrow> FirstOutstanding (ps_history sp) | None \<Rightarrow> None);
         p = first (sp_initial h);
         p = (if p = None then first (sp_handshake h) else p);
         p = (if p = None then FirstOutstanding (ps_history (sp_oneRTT h)) else p)
     in case p of
          None \<Rightarrow> Inr (False, h, [])
        | Some p \<Rightarrow>
            tryE (queueFramesForRetransmission p) (\<lambda>es.
            let h = (if includedInBytesInFlight p then h\<lparr>bytesInFlight := bytesInFlight h - pk_Length p\<rparr> else h)
            in tryE (getPacketNumberSpace h (pk_EncryptionLevel p)) (\<lambda>sp.
               case history_Remove (ps_history sp) (pk_PacketNumber p) of
                 Inl e \<Rightarrow> Inl (Panic (''packet not found'', []))
               | Inr hist \<Rightarrow> Inr (True, setSpace h (pk_EncryptionLevel p) (sp\<lparr>ps_history := hist\<rparr>), es))))"

fun loseFrames :: "Packet list \<Rightarrow> go_error + frame_event list" where
  "loseFrames [] = Inr []"
| "loseFrames (p # ps) = tryE (queueFramesForRetransmission p) (\<lambda>es. tryE (loseFrames ps) (\<lambda>es'. Inr (es @ es')))"

definition ResetForRetry :: "sentPacketHandler \<Rightarrow> u16 \<Rightarrow> u16 \<Rightarrow> go_error + sentPacketHandler \<times> frame_event list" where
  "ResetForRetry h n1 n2 =
    tryE (nilSpace (sp_initial h)) (\<lambda>sp.
    tryE (loseFrames (logged (ps_history sp))) (\<lambda>es.
    case generator_Pop (ps_pns sp) n1 of (pn, _) \<Rightarrow>
      Inr (setLossDetectionTimer (h\<lparr>bytesInFlight := 0, sp_initial := Some (newPacketNumberSpace pn n2)\<rparr>), es)))"

definition GetLossDetectionTimeout :: "sentPacketHandler \<Rightarrow> Time" where
  "GetLossDetectionTimeout h = alarm h"

definition GetLowestPacketNotConfirmedAcked :: "sentPacketHandler \<Rightarrow> PacketNumber" where
  "GetLowestPacketNotConfirmedAcked h = lowestNotConfirmedAcked h"

record TransportState =
  ts_MinRTT :: Duration
  ts_SmoothedRTT :: Duration
  ts_LatestRTT :: Duration
  ts_BytesInFlight :: ByteCount
  ts_CongestionWindow :: ByteCount
  ts_InSlowStart :: bool
  ts_InRecovery :: bool

definition GetStats :: "sentPacketHandler \<Rightarrow> TransportState" where
  "GetStats h =
    \<lparr>ts_MinRTT = minRTT (sp_rttStats h), ts_SmoothedRTT = smoothedRTT (sp_rttStats h), ts_LatestRTT = latestRTT (sp_rttStats h),
     ts_BytesInFlight = bytesInFlight h, ts_CongestionWindow = GetCongestionWindow (congestion h),
     ts_InSlowStart = InSlowStart (congestion h), ts_InRecovery = InRecovery (congestion h)\<rparr>"

end
