(* ===== verification/LossRecovery.thy ===== *)
theory LossRecovery
  imports SentPackets
begin

text \<open>
  Correctness of the handler of sent packets. The first part describes which packets the two loops over the history
  choose; the second one has the invariant of the handler, \<open>handler_inv\<close>, and shows that removing packets from the
  history keeps it; the last one gives the effect of each operation and what holds of every run: the bytes in flight
  are those of the packets in the history, and every frame that was sent is reported as acknowledged or as lost once.
\<close>

section \<open>Choosing packets\<close>

abbreviation pns :: "Packet list \<Rightarrow> PacketNumber list" where
  "pns ps \<equiv> map pk_PacketNumber ps"

text \<open>The ranges of an ACK frame from the lowest one up.\<close>

lemma advanceRange_spec:
  "i < length rs \<Longrightarrow> i \<le> advanceRange rs pn i \<and> advanceRange rs pn i < length rs \<and>
    (\<forall>k. i \<le> k \<and> k < advanceRange rs pn i \<longrightarrow> Largest (rs ! (length rs - 1 - k)) < pn) \<and>
    (pn \<le> Largest (rs ! (length rs - 1 - advanceRange rs pn i)) \<or> advanceRange rs pn i = length rs - 1)"
proof (induction rs pn i rule: advanceRange.induct)
  case (1 rs pn i)
  let ?c = "pn > Largest (rs ! (length rs - 1 - i)) \<and> i < length rs - 1"
  have step: "advanceRange rs pn i = (if ?c then advanceRange rs pn (i + 1) else i)" by (rule advanceRange.simps)
  show ?case
  proof (cases ?c)
    case True
    have first: "Largest (rs ! (length rs - 1 - k)) < pn" if "i \<le> k" "\<not> i + 1 \<le> k" for k
    proof -
      have "k = i" using that by simp
      then show ?thesis using True by simp
    qed
    have "i + 1 < length rs" using True by linarith
    from 1(1) [OF True this] show ?thesis unfolding step if_P [OF True] using first by (meson Suc_leD add_leD1)
  next
    case False
    then show ?thesis unfolding step if_not_P [OF False] using 1(2) by linarith
  qed
qed

lemma acked_at:
  assumes "ack_chain (AckRanges ack)" and "j < length (AckRanges ack)"
    and below: "\<And>k. k < j \<Longrightarrow> Largest (AckRanges ack ! (length (AckRanges ack) - 1 - k)) < pn"
    and "pn \<le> Largest (AckRanges ack ! (length (AckRanges ack) - 1 - j))"
  shows "pn \<in> acked ack \<longleftrightarrow> Smallest (AckRanges ack ! (length (AckRanges ack) - 1 - j)) \<le> pn"
proof
  let ?rs = "AckRanges ack" and ?n = "length (AckRanges ack)"
  assume "pn \<in> acked ack"
  then obtain m where m: "m < ?n" "Smallest (?rs ! m) \<le> pn" "pn \<le> Largest (?rs ! m)"
    by (auto simp: acked_def in_set_conv_nth)
  have "m \<le> ?n - 1 - j"
  proof (rule ccontr)
    assume "\<not> m \<le> ?n - 1 - j"
    then have "?n - 1 - m < j" "?n - 1 - (?n - 1 - m) = m" using m(1) by auto
    then show False using below [of "?n - 1 - m"] m(3) by simp
  qed
  then show "Smallest (?rs ! (?n - 1 - j)) \<le> pn"
    using m(2) chain_Smallest_mono [OF assms(1), of m "?n - 1 - j"] assms(2) by linarith
next
  let ?rs = "AckRanges ack" and ?n = "length (AckRanges ack)"
  assume "Smallest (?rs ! (?n - 1 - j)) \<le> pn"
  moreover have "?rs ! (?n - 1 - j) \<in> set ?rs" using assms(2) by simp
  ultimately show "pn \<in> acked ack" using assms(4) by (auto simp: acked_def)
qed

lemma ackedLoop_filter:
  assumes "ack_chain (AckRanges ack)" and "AckRanges ack \<noteq> []" and "sorted_wrt (<) (pns ps)"
    and "i < length (AckRanges ack)"
    and "\<forall>p \<in> set ps. \<forall>k < i. Largest (AckRanges ack ! (length (AckRanges ack) - 1 - k)) < pk_PacketNumber p"
  shows "ackedLoop ack (Smallest (last (AckRanges ack))) (Largest (hd (AckRanges ack))) ps i =
    Inr (filter (\<lambda>p. pk_PacketNumber p \<in> acked ack) ps)"
  using assms(3-5)
proof (induction ps arbitrary: i)
  case (Cons p ps)
  let ?rs = "AckRanges ack" and ?n = "length (AckRanges ack)" and ?pn = "pk_PacketNumber p"
  have srt: "sorted_wrt (<) (pns ps)" "\<forall>q \<in> set ps. ?pn < pk_PacketNumber q" using Cons.prems(1) by auto
  have bounds: "Smallest (last ?rs) \<le> q \<and> q \<le> Largest (hd ?rs)" if q: "q \<in> acked ack" for q
  proof -
    obtain m where m: "m < ?n" "Smallest (?rs ! m) \<le> q" "q \<le> Largest (?rs ! m)" using q by (auto simp: acked_def in_set_conv_nth)
    moreover from this have "m \<le> ?n - 1" by linarith
    ultimately show ?thesis using chain_Smallest_mono [OF assms(1), of m "?n - 1"] chain_Largest_mono [OF assms(1), of 0 m] assms(2)
      by (simp add: last_conv_nth hd_conv_nth)
  qed
  note IH = Cons.IH [OF srt(1)]
  consider "?pn < Smallest (last ?rs)" | "Largest (hd ?rs) < ?pn" | "Smallest (last ?rs) \<le> ?pn" "?pn \<le> Largest (hd ?rs)" by linarith
  then show ?case
  proof cases
    case 1
    then show ?thesis using IH [OF Cons.prems(2)] Cons.prems(3) bounds [of ?pn] by auto
  next
    case 2
    have "pk_PacketNumber q \<notin> acked ack" if "q \<in> set (p # ps)" for q
      using that 2 srt(2) bounds [of "pk_PacketNumber q"] by fastforce
    moreover have "\<not> ?pn < Smallest (last ?rs)" using 2 bounds chain_ok [OF assms(1), of "?n - 1"]
        chain_Largest_mono [OF assms(1), of 0 "?n - 1"] assms(2) by (simp add: last_conv_nth hd_conv_nth)
    ultimately show ?thesis using 2 by (simp add: filter_empty_conv)
  next
    case 3
    show ?thesis
    proof (cases "HasMissingRanges ack")
      case False
      then obtain r where r: "?rs = [r]" using assms(2) by (cases ?rs) (auto simp: HasMissingRanges_def)
      then have "?pn \<in> acked ack" using 3 by (simp add: acked_def)
      then show ?thesis using 3 False IH [OF Cons.prems(2)] Cons.prems(3) by simp
    next
      case True
      define j where "j = advanceRange ?rs ?pn i"
      have adv: "i \<le> j" "j < ?n" "\<forall>k. i \<le> k \<and> k < j \<longrightarrow> Largest (?rs ! (?n - 1 - k)) < ?pn"
        "?pn \<le> Largest (?rs ! (?n - 1 - j)) \<or> j = ?n - 1"
        using advanceRange_spec [OF Cons.prems(2), of ?pn] unfolding j_def by blast+
      have below: "Largest (?rs ! (?n - 1 - k)) < ?pn" if "k < j" for k
        using that adv(3) Cons.prems(3) by (cases "k < i") auto
      have top: "?pn \<le> Largest (?rs ! (?n - 1 - j))" using adv(2,4) 3(2) assms(2) by (auto simp: hd_conv_nth)
      have inv: "\<forall>q \<in> set ps. \<forall>k < j. Largest (?rs ! (?n - 1 - k)) < pk_PacketNumber q"
        using below srt(2) by fastforce
      note at = acked_at [OF assms(1) adv(2) below top]
      show ?thesis using 3 True top IH [OF adv(2) inv] by (simp add: Let_def at flip: j_def)
    qed
  qed
qed simp

definition too_late :: "PacketNumber \<Rightarrow> Time \<Rightarrow> Packet \<Rightarrow> bool" where
  "too_late largest lostSendTime p \<longleftrightarrow> pk_PacketNumber p \<le> largest \<and>
    (pk_SendTime p < lostSendTime \<or> pk_PacketNumber p + packetThreshold \<le> largest)"

lemma lostLoop_filter:
  assumes "sorted_wrt (<) (pns ps)" and "\<forall>p \<in> set ps. 0 \<le> pk_PacketNumber p \<and> pk_PacketNumber p < 2 ^ 62"
  shows "fst (lostLoop largest lostSendTime lossDelay ps lt) = filter (too_late largest lostSendTime) ps"
  using assms
proof (induction ps arbitrary: lt)
  case (Cons p ps)
  have i: "i64 (pk_PacketNumber p + packetThreshold) = pk_PacketNumber p + packetThreshold"
    using Cons.prems(2) by (simp add: packetThreshold_def)
  have "\<not> too_late largest lostSendTime q" if "largest < pk_PacketNumber p" "q \<in> set (p # ps)" for q
    using that Cons.prems(1) by (fastforce simp: too_late_def)
  then show ?case using Cons by (auto simp: i too_late_def filter_empty_conv case_prod_unfold)
qed simp

section \<open>The invariant\<close>

text \<open>The packets in flight at each level.\<close>

definition live :: "sentPacketHandler \<Rightarrow> EncryptionLevel \<Rightarrow> Packet list" where
  "live h lvl = (case getPacketNumberSpace h lvl of Inr sp \<Rightarrow> logged (ps_history sp) | Inl _ \<Rightarrow> [])"

definition inFlightSum :: "(Packet \<Rightarrow> 'a :: ab_group_add) \<Rightarrow> (EncryptionLevel \<Rightarrow> Packet list) \<Rightarrow> 'a" where
  "inFlightSum w f = (\<Sum>lvl \<leftarrow> [EncryptionInitial, EncryptionHandshake, Encryption1RTT]. sum_list (map w (f lvl)))"

definition packet_ok :: "EncryptionLevel \<Rightarrow> Packet \<Rightarrow> bool" where
  "packet_ok lvl p \<longleftrightarrow> pk_EncryptionLevel p = lvl \<and> includedInBytesInFlight p \<and> 0 \<le> pk_PacketNumber p \<and>
    pk_PacketNumber p < 2 ^ 62 \<and> (\<forall>f \<in> set (pk_Frames p). ahf_OnLost f \<noteq> None)"

definition space_ok :: "EncryptionLevel \<Rightarrow> packetNumberSpace \<Rightarrow> bool" where
  "space_ok lvl sp \<longleftrightarrow> history_inv (ps_history sp) \<and> sorted_wrt (<) (pns (logged (ps_history sp))) \<and>
    (\<forall>p \<in> set (logged (ps_history sp)). packet_ok lvl p \<and> pk_PacketNumber p \<le> largestSent sp) \<and>
    largestSent sp < Peek (ps_pns sp) \<and> (\<exists>initial used. 0 \<le> initial \<and> generator_inv initial used (ps_pns sp))"

definition handler_inv :: "sentPacketHandler \<Rightarrow> bool" where
  "handler_inv h \<longleftrightarrow> (\<forall>lvl sp. getPacketNumberSpace h lvl = Inr sp \<longrightarrow> space_ok lvl sp) \<and>
    bytesInFlight h = inFlightSum pk_Length (live h) \<and> reno_inv (congestion h)"

lemma getPacketNumberSpace_set [simp]:
  "lvl \<noteq> EncryptionUnspecified \<Longrightarrow>
   getPacketNumberSpace (setSpace h lvl sp) lvl' = (if lvl' = lvl then Inr sp else getPacketNumberSpace h lvl')"
  by (cases lvl; cases lvl') (simp_all add: nilSpace_def)

lemma getPacketNumberSpace_level: "getPacketNumberSpace h lvl = Inr sp \<Longrightarrow> lvl \<noteq> EncryptionUnspecified"
  by auto

lemma setSpace_frame [simp]:
  "bytesInFlight (setSpace h lvl sp) = bytesInFlight h" "congestion (setSpace h lvl sp) = congestion h"
  "sp_rttStats (setSpace h lvl sp) = sp_rttStats h" "ptoCount (setSpace h lvl sp) = ptoCount h"
  "lastSentAckElicitingPacketTime (setSpace h lvl sp) = lastSentAckElicitingPacketTime h"
  "numProbesToSend (setSpace h lvl sp) = numProbesToSend h" "nextSendTime (setSpace h lvl sp) = nextSendTime h"
  by (cases lvl; simp)+

lemma getPacketNumberSpace_frame [simp]:
  "getPacketNumberSpace (h\<lparr>bytesInFlight := b\<rparr>) lvl = getPacketNumberSpace h lvl"
  "getPacketNumberSpace (h\<lparr>congestion := c\<rparr>) lvl = getPacketNumberSpace h lvl"
  "getPacketNumberSpace (h\<lparr>sp_rttStats := r\<rparr>) lvl = getPacketNumberSpace h lvl"
  "getPacketNumberSpace (h\<lparr>ptoCount := n\<rparr>) lvl = getPacketNumberSpace h lvl"
  "getPacketNumberSpace (h\<lparr>numProbesToSend := k\<rparr>) lvl = getPacketNumberSpace h lvl"
  "getPacketNumberSpace (h\<lparr>alarm := t\<rparr>) lvl = getPacketNumberSpace h lvl"
  "getPacketNumberSpace (h\<lparr>lowestNotConfirmedAcked := pn\<rparr>) lvl = getPacketNumberSpace h lvl"
  "getPacketNumberSpace (h\<lparr>nextSendTime := t\<rparr>) lvl = getPacketNumberSpace h lvl"
  "getPacketNumberSpace (h\<lparr>lastSentAckElicitingPacketTime := t\<rparr>) lvl = getPacketNumberSpace h lvl"
  "getPacketNumberSpace (h\<lparr>lastSentCryptoPacketTime := t\<rparr>) lvl = getPacketNumberSpace h lvl"
  by (cases lvl; simp)+

lemma live_set: "lvl \<noteq> EncryptionUnspecified \<Longrightarrow> live (setSpace h lvl sp) = (live h)(lvl := logged (ps_history sp))"
  by (rule ext) (simp add: live_def)

lemma live_get: "getPacketNumberSpace h lvl = Inr sp \<Longrightarrow> live h lvl = logged (ps_history sp)"
  by (simp add: live_def)

lemma inFlightSum_upd:
  "lvl \<noteq> EncryptionUnspecified \<Longrightarrow> inFlightSum w (f(lvl := ps)) = inFlightSum w f - sum_list (map w (f lvl)) + sum_list (map w ps)"
  by (cases lvl) (simp_all add: inFlightSum_def algebra_simps)

lemma sum_list_remove:
  fixes f :: "Packet \<Rightarrow> 'a :: ab_group_add"
  assumes "p \<in> set ps" and "distinct (pns ps)"
  shows "sum_list (map f (filter (\<lambda>q. pk_PacketNumber q \<noteq> pk_PacketNumber p) ps)) = sum_list (map f ps) - f p"
  using assms
proof (induction ps)
  case (Cons q ps)
  show ?case
  proof (cases "q = p")
    case True
    then have "filter (\<lambda>q. pk_PacketNumber q \<noteq> pk_PacketNumber p) ps = ps" using Cons.prems by (auto intro!: filter_True simp: image_iff)
    then show ?thesis using True by simp
  next
    case False
    then have "p \<in> set ps" "pk_PacketNumber q \<noteq> pk_PacketNumber p" using Cons.prems by (auto simp: image_iff)
    then show ?thesis using Cons by simp
  qed
qed simp

text \<open>The rest of the spaces, and the fields that removing packets leaves alone.\<close>

definition bare :: "sentPacketHandler \<Rightarrow> EncryptionLevel \<Rightarrow> packetNumberSpace option" where
  "bare h lvl = (case getPacketNumberSpace h lvl of Inr sp \<Rightarrow> Some (sp\<lparr>ps_history := newSentPacketHistory\<rparr>) | Inl _ \<Rightarrow> None)"

definition timers :: "sentPacketHandler \<Rightarrow> RTTStats \<times> Time \<times> u32 \<times> int \<times> Time" where
  "timers h = (sp_rttStats h, lastSentAckElicitingPacketTime h, ptoCount h, numProbesToSend h, alarm h)"

lemma bare_set: "lvl \<noteq> EncryptionUnspecified \<Longrightarrow> bare (setSpace h lvl sp) = (bare h)(lvl \<mapsto> sp\<lparr>ps_history := newSentPacketHistory\<rparr>)"
  by (rule ext) (simp add: bare_def)

lemma bare_get: "getPacketNumberSpace h lvl = Inr sp \<Longrightarrow> bare h lvl = Some (sp\<lparr>ps_history := newSentPacketHistory\<rparr>)"
  by (simp add: bare_def)

definition gens :: "sentPacketHandler \<Rightarrow> EncryptionLevel \<Rightarrow> packetNumberGenerator option" where
  "gens h lvl = map_option ps_pns (bare h lvl)"

lemma gens_set: "lvl \<noteq> EncryptionUnspecified \<Longrightarrow> gens (setSpace h lvl sp) = (gens h)(lvl \<mapsto> ps_pns sp)"
  by (rule ext) (simp add: gens_def bare_set)

lemma gens_get: "getPacketNumberSpace h lvl = Inr sp \<Longrightarrow> gens h lvl = Some (ps_pns sp)"
  by (simp add: gens_def bare_get)

lemma timers_set [simp]: "timers (setSpace h lvl sp) = timers h"
  by (cases lvl) (simp_all add: timers_def)

lemma timers_frame [simp]: "timers (h\<lparr>bytesInFlight := b\<rparr>) = timers h" "timers (h\<lparr>congestion := c\<rparr>) = timers h"
  by (simp_all add: timers_def)

lemma bare_SomeD:
  assumes "bare h' lvl = bare h lvl" and "getPacketNumberSpace h lvl = Inr sp"
  obtains sp' where "getPacketNumberSpace h' lvl = Inr sp'" and "live h' lvl = logged (ps_history sp')"
    and "ps_pns sp' = ps_pns sp" "largestSent sp' = largestSent sp" "ps_largestAcked sp' = ps_largestAcked sp"
proof -
  obtain sp' where "getPacketNumberSpace h' lvl = Inr sp'" "sp'\<lparr>ps_history := newSentPacketHistory\<rparr> = sp\<lparr>ps_history := newSentPacketHistory\<rparr>"
    using assms by (auto simp: bare_def split: sum.splits)
  moreover from this(2) have "ps_pns sp' = ps_pns sp" "largestSent sp' = largestSent sp" "ps_largestAcked sp' = ps_largestAcked sp"
    by (metis packetNumberSpace.select_convs(2-5) packetNumberSpace.surjective packetNumberSpace.update_convs(1))+
  ultimately show ?thesis using that live_get by blast
qed

lemma handler_inv_frame [simp]:
  "handler_inv (h\<lparr>ptoCount := n\<rparr>) = handler_inv h" "handler_inv (h\<lparr>numProbesToSend := k\<rparr>) = handler_inv h"
  "handler_inv (h\<lparr>alarm := t\<rparr>) = handler_inv h" "handler_inv (h\<lparr>lowestNotConfirmedAcked := pn\<rparr>) = handler_inv h"
  "handler_inv (h\<lparr>sp_rttStats := r\<rparr>) = handler_inv h" "handler_inv (h\<lparr>nextSendTime := t\<rparr>) = handler_inv h"
  by (simp_all add: handler_inv_def live_def [abs_def])

lemma live_frame [simp]:
  "live (h\<lparr>ptoCount := n\<rparr>) = live h" "live (h\<lparr>numProbesToSend := k\<rparr>) = live h" "live (h\<lparr>alarm := t\<rparr>) = live h"
  "live (h\<lparr>lowestNotConfirmedAcked := pn\<rparr>) = live h" "live (h\<lparr>sp_rttStats := r\<rparr>) = live h"
  "live (h\<lparr>nextSendTime := t\<rparr>) = live h" "live (h\<lparr>congestion := c\<rparr>) = live h" "live (h\<lparr>bytesInFlight := b\<rparr>) = live h"
  "live (h\<lparr>lastSentAckElicitingPacketTime := t\<rparr>) = live h" "live (h\<lparr>lastSentCryptoPacketTime := t\<rparr>) = live h"
  by (simp_all add: live_def [abs_def])

lemma bare_frame [simp]:
  "bare (h\<lparr>ptoCount := n\<rparr>) = bare h" "bare (h\<lparr>numProbesToSend := k\<rparr>) = bare h" "bare (h\<lparr>alarm := t\<rparr>) = bare h"
  "bare (h\<lparr>lowestNotConfirmedAcked := pn\<rparr>) = bare h" "bare (h\<lparr>sp_rttStats := r\<rparr>) = bare h"
  "bare (h\<lparr>nextSendTime := t\<rparr>) = bare h" "bare (h\<lparr>congestion := c\<rparr>) = bare h" "bare (h\<lparr>bytesInFlight := b\<rparr>) = bare h"
  "bare (h\<lparr>lastSentAckElicitingPacketTime := t\<rparr>) = bare h" "bare (h\<lparr>lastSentCryptoPacketTime := t\<rparr>) = bare h"
  by (simp_all add: bare_def [abs_def])

lemma gens_frame [simp]:
  "gens (h\<lparr>ptoCount := n\<rparr>) = gens h" "gens (h\<lparr>numProbesToSend := k\<rparr>) = gens h" "gens (h\<lparr>alarm := t\<rparr>) = gens h"
  "gens (h\<lparr>nextSendTime := t\<rparr>) = gens h" "gens (h\<lparr>congestion := c\<rparr>) = gens h" "gens (h\<lparr>bytesInFlight := b\<rparr>) = gens h"
  "gens (h\<lparr>lastSentAckElicitingPacketTime := t\<rparr>) = gens h" "gens (h\<lparr>lastSentCryptoPacketTime := t\<rparr>) = gens h"
  by (simp_all add: gens_def [abs_def])

lemma handler_inv_congestion: "handler_inv h \<Longrightarrow> reno_inv c \<Longrightarrow> handler_inv (h\<lparr>congestion := c\<rparr>)"
  by (simp add: handler_inv_def)

text \<open>Taking packets out of the history.\<close>

definition without :: "Packet list \<Rightarrow> Packet list \<Rightarrow> Packet list" where
  "without ps qs = filter (\<lambda>q. pk_PacketNumber q \<notin> set (pns ps)) qs"

definition removes :: "sentPacketHandler \<Rightarrow> EncryptionLevel \<Rightarrow> Packet list \<Rightarrow> sentPacketHandler \<Rightarrow> bool" where
  "removes h lvl ps h' \<longleftrightarrow> handler_inv h' \<and> live h' = (live h)(lvl := without ps (live h lvl)) \<and> bare h' = bare h \<and> timers h' = timers h"

lemma without_simps [simp]: "without [] qs = qs" "without qs (without ps xs) = without (ps @ qs) xs"
  by (auto simp: without_def intro: filter_cong)

lemma removes_Nil: "handler_inv h \<Longrightarrow> removes h lvl [] h"
  by (simp add: removes_def)

lemma removes_trans: "removes h lvl ps h1 \<Longrightarrow> removes h1 lvl qs h2 \<Longrightarrow> removes h lvl (ps @ qs) h2"
  by (simp add: removes_def)

lemma remove_packet:
  assumes inv: "handler_inv h" and sp: "getPacketNumberSpace h lvl = Inr sp" and p: "p \<in> set (live h lvl)"
  shows "\<exists>hist. history_Remove (ps_history sp) (pk_PacketNumber p) = Inr hist \<and>
    (\<forall>c. reno_inv c \<longrightarrow> removes h lvl [p]
      (setSpace (h\<lparr>bytesInFlight := bytesInFlight h - pk_Length p, congestion := c\<rparr>) lvl (sp\<lparr>ps_history := hist\<rparr>)))"
proof -
  have ok: "space_ok lvl sp" using inv sp by (simp add: handler_inv_def)
  have l: "lvl \<noteq> EncryptionUnspecified" "live h lvl = logged (ps_history sp)" using sp by (auto simp: live_get)
  have hi: "history_inv (ps_history sp)" using ok by (simp add: space_ok_def)
  obtain hist where r: "history_Remove (ps_history sp) (pk_PacketNumber p) = Inr hist" "history_inv hist"
    "logged hist = filter (\<lambda>q. pk_PacketNumber q \<noteq> pk_PacketNumber p) (logged (ps_history sp))"
    using log.rem [OF hi, of "pk_PacketNumber p"] p l(2) by auto
  let ?h = "\<lambda>c. setSpace (h\<lparr>bytesInFlight := bytesInFlight h - pk_Length p, congestion := c\<rparr>) lvl (sp\<lparr>ps_history := hist\<rparr>)"
  have v: "live (?h c) = (live h)(lvl := without [p] (live h lvl))" for c using l r(3) by (simp add: live_set without_def)
  have b: "bare (?h c) = bare h" for c
  proof -
    have "bare (?h c) = (bare h)(lvl \<mapsto> sp\<lparr>ps_history := newSentPacketHistory\<rparr>)" using l(1) by (simp add: bare_set)
    also have "\<dots> = bare h" using bare_get [OF sp] by auto
    finally show ?thesis .
  qed
  have s: "space_ok lvl (sp\<lparr>ps_history := hist\<rparr>)"
    using ok r(2,3) by (auto simp: space_ok_def sorted_wrt_map intro: sorted_wrt_filter)
  have "removes h lvl [p] (?h c)" if c: "reno_inv c" for c
  proof -
    have "inFlightSum pk_Length (live (?h c)) = inFlightSum pk_Length (live h) - pk_Length p"
      unfolding v inFlightSum_upd [OF l(1)] without_def using sum_list_remove [OF p, of pk_Length] log.distinct [OF hi] l(2) by simp
    then have "handler_inv (?h c)" using inv s c l(1) by (simp add: handler_inv_def)
    moreover have "timers (?h c) = timers h" by simp
    ultimately show ?thesis using v b by (simp add: removes_def)
  qed
  with r(1) show ?thesis by blast
qed

section \<open>Losing and acknowledging packets\<close>

definition lostEvents :: "Packet \<Rightarrow> frame_event list" where
  "lostEvents p = map (\<lambda>f. OnLost (the (ahf_OnLost f)) (ahf_Frame f)) (pk_Frames p)"

definition ackedEvents :: "Packet \<Rightarrow> frame_event list" where
  "ackedEvents p = ackedFrames (pk_Frames p)"

lemma lostFrames_events:
  "\<forall>f \<in> set fs. ahf_OnLost f \<noteq> None \<Longrightarrow> lostFrames fs = Inr (map (\<lambda>f. OnLost (the (ahf_OnLost f)) (ahf_Frame f)) fs)"
  by (induction fs) auto

lemma queueFrames_events: "packet_ok lvl p \<Longrightarrow> queueFramesForRetransmission p = Inr (lostEvents p)"
  by (simp add: queueFramesForRetransmission_def lostEvents_def lostFrames_events packet_ok_def)

lemma live_packet_ok:
  assumes "handler_inv h" and "p \<in> set (live h lvl)"
  shows "packet_ok lvl p"
proof (cases "getPacketNumberSpace h lvl")
  case (Inr sp)
  then have "space_ok lvl sp" using assms(1) by (simp add: handler_inv_def)
  then show ?thesis using assms(2) by (simp add: live_get [OF Inr] space_ok_def)
qed (use assms in \<open>simp add: live_def\<close>)

lemma reno_inv_acked: "reno_inv c \<Longrightarrow> reno_inv (cc_OnPacketAcked c rtt pn bytes prior t)"
  using reno_inv_step [of c "(rtt, CcAcked pn bytes prior t)"] by simp

lemma reno_inv_exit: "reno_inv c \<Longrightarrow> reno_inv (MaybeExitSlowStart c rtt)"
  using reno_inv_step [of c "(rtt, CcMaybeExit)"] by simp

lemma reno_inv_sent: "reno_inv c \<Longrightarrow> reno_inv (cc_OnPacketSent c pn bytes b)"
  using reno_inv_step [of c "(undefined, CcSent pn bytes b)"] by simp

text \<open>A list of packets of a level that are in flight.\<close>

definition some_live :: "sentPacketHandler \<Rightarrow> EncryptionLevel \<Rightarrow> Packet list \<Rightarrow> bool" where
  "some_live h lvl ps \<longleftrightarrow> set ps \<subseteq> set (live h lvl) \<and> distinct (pns ps)"

lemma some_live_removes: "some_live h lvl (p # ps) \<Longrightarrow> removes h lvl [p] h' \<Longrightarrow> some_live h' lvl ps"
  by (auto simp: some_live_def removes_def without_def image_iff)

lemma loseAll_run:
  assumes "handler_inv h" and "getPacketNumberSpace h lvl = Inr sp" and "some_live h lvl ps"
  shows "\<exists>h'. loseAll h lvl prior ps = Inr (h', concat (map lostEvents ps)) \<and> removes h lvl ps h'"
  using assms
proof (induction ps arbitrary: h sp)
  case (Cons p ps)
  have p: "p \<in> set (live h lvl)" "packet_ok lvl p" using Cons.prems live_packet_ok by (auto simp: some_live_def)
  define c where "c = cc_OnPacketLost (congestion h) (pk_PacketNumber p) (pk_Length p) prior"
  have "reno_inv c" using Cons.prems(1) by (simp add: c_def handler_inv_def reno_inv_lost)
  then obtain hist h1 where r: "history_Remove (ps_history sp) (pk_PacketNumber p) = Inr hist"
    and h1: "h1 = setSpace (h\<lparr>bytesInFlight := bytesInFlight h - pk_Length p, congestion := c\<rparr>) lvl (sp\<lparr>ps_history := hist\<rparr>)"
      "removes h lvl [p] h1"
    using remove_packet [OF Cons.prems(1,2) p(1)] by blast
  have g: "getPacketNumberSpace h1 lvl = Inr (sp\<lparr>ps_history := hist\<rparr>)" using getPacketNumberSpace_level [OF Cons.prems(2)] by (simp add: h1(1))
  have "handler_inv h1" using h1(2) by (simp add: removes_def)
  then obtain h' where h': "loseAll h1 lvl prior ps = Inr (h', concat (map lostEvents ps))" "removes h1 lvl ps h'"
    using Cons.IH [OF _ g some_live_removes [OF Cons.prems(3) h1(2)]] by blast
  have "loseAll h lvl prior (p # ps) = Inr (h', concat (map lostEvents (p # ps)))"
    using p(2) Cons.prems(2) r h'(1) by (simp add: queueFrames_events [OF p(2)] packet_ok_def Let_def flip: c_def h1(1))
  then show ?case using removes_trans [OF h1(2) h'(2)] by auto
qed (simp add: removes_Nil)

lemma onPacketAcked_run:
  assumes "handler_inv h" and "getPacketNumberSpace h lvl = Inr sp" and "p \<in> set (live h lvl)"
  shows "\<exists>h'. onPacketAcked h p = Inr (h', ackedEvents p) \<and> removes h lvl [p] h' \<and> congestion h' = congestion h"
proof -
  have p: "packet_ok lvl p" using live_packet_ok [OF assms(1,3)] .
  have inv: "history_inv (ps_history sp)" "reno_inv (congestion h)" using assms(1,2) by (auto simp: handler_inv_def space_ok_def)
  obtain hist where r: "history_Remove (ps_history sp) (pk_PacketNumber p) = Inr hist"
    "removes h lvl [p] (setSpace (h\<lparr>bytesInFlight := bytesInFlight h - pk_Length p, congestion := congestion h\<rparr>) lvl (sp\<lparr>ps_history := hist\<rparr>))"
    using remove_packet [OF assms] inv(2) by blast
  have "h\<lparr>bytesInFlight := bytesInFlight h - pk_Length p, congestion := congestion h\<rparr> = h\<lparr>bytesInFlight := bytesInFlight h - pk_Length p\<rparr>" by simp
  moreover have "GetPacket (ps_history sp) (pk_PacketNumber p) = Some p"
    using log.get_in [OF inv(1)] assms(3) live_get [OF assms(2)] by simp
  ultimately show ?thesis using p r assms(2) by (simp add: onPacketAcked_def packet_ok_def Let_def ackedEvents_def)
qed

lemma ackAll_run:
  assumes "handler_inv h" and "getPacketNumberSpace h lvl = Inr sp" and "some_live h lvl ps"
  shows "\<exists>h'. ackAll h lvl prior t ps = Inr (h', concat (map ackedEvents ps)) \<and> removes h lvl ps h'"
  using assms
proof (induction ps arbitrary: h sp)
  case (Cons p ps)
  have p: "p \<in> set (live h lvl)" "packet_ok lvl p" using Cons.prems live_packet_ok by (auto simp: some_live_def)
  define h1 where "h1 = (if pk_LargestAcked p \<noteq> InvalidPacketNumber \<and> lvl = Encryption1RTT
      then h\<lparr>lowestNotConfirmedAcked := MaxPacketNumber (lowestNotConfirmedAcked h) (i64 (pk_LargestAcked p + 1))\<rparr> else h)"
  have h1: "handler_inv h1" "getPacketNumberSpace h1 lvl = Inr sp" "live h1 = live h" "bare h1 = bare h" "timers h1 = timers h"
    using Cons.prems by (auto simp: h1_def timers_def)
  obtain h2 where h2: "onPacketAcked h1 p = Inr (h2, ackedEvents p)" "removes h1 lvl [p] h2"
    using onPacketAcked_run [OF h1(1,2)] p(1) h1(3) by auto
  define h3 where "h3 = h2\<lparr>congestion := cc_OnPacketAcked (congestion h2) (sp_rttStats h2) (pk_PacketNumber p) (pk_Length p) prior t\<rparr>"
  have "handler_inv h3" using h2(2) unfolding h3_def
    by (intro handler_inv_congestion reno_inv_acked) (auto simp: removes_def handler_inv_def)
  then have h3: "removes h lvl [p] h3" using h2(2) h1(3-5) by (simp add: removes_def h3_def timers_def)
  then obtain sp3 where g: "getPacketNumberSpace h3 lvl = Inr sp3" using bare_SomeD [of h3 lvl h sp] Cons.prems(2) by (auto simp: removes_def)
  obtain h' where h': "ackAll h3 lvl prior t ps = Inr (h', concat (map ackedEvents ps))" "removes h3 lvl ps h'"
    using Cons.IH [OF \<open>handler_inv h3\<close> g some_live_removes [OF Cons.prems(3) h3]] by blast
  have "ackAll h lvl prior t (p # ps) = Inr (h', concat (map ackedEvents (p # ps)))"
    using p(2) h2(1) h'(1) by (simp add: packet_ok_def Let_def flip: h1_def h3_def)
  then show ?case using removes_trans [OF h3 h'(2)] by auto
qed (simp add: removes_Nil)

lemma without_filter: "distinct (pns qs) \<Longrightarrow> without (filter P qs) qs = filter (\<lambda>q. \<not> P q) qs"
  unfolding without_def by (rule filter_cong) (auto simp: distinct_map dest: inj_onD)

lemma live_facts:
  assumes "handler_inv h"
  shows "sorted_wrt (<) (pns (live h lvl))" "distinct (pns (live h lvl))"
    "\<forall>p \<in> set (live h lvl). 0 \<le> pk_PacketNumber p \<and> pk_PacketNumber p < 2 ^ 62"
proof -
  show s: "sorted_wrt (<) (pns (live h lvl))"
    using assms by (cases "getPacketNumberSpace h lvl") (auto simp: live_def handler_inv_def space_ok_def)
  then show "distinct (pns (live h lvl))" by (simp add: strict_sorted_iff)
  show "\<forall>p \<in> set (live h lvl). 0 \<le> pk_PacketNumber p \<and> pk_PacketNumber p < 2 ^ 62"
    using live_packet_ok [OF assms] by (auto simp: packet_ok_def)
qed

lemma some_live_filter: "handler_inv h \<Longrightarrow> some_live h lvl (filter P (live h lvl))"
  using live_facts(2) [of h lvl] by (auto simp: some_live_def distinct_map_filter)

lemma handler_inv_set:
  assumes "handler_inv h" and "getPacketNumberSpace h lvl = Inr sp" and "ps_history sp' = ps_history sp"
    and "ps_pns sp' = ps_pns sp" "largestSent sp' = largestSent sp"
  shows "handler_inv (setSpace h lvl sp')" "live (setSpace h lvl sp') = live h" "gens (setSpace h lvl sp') = gens h"
proof -
  have l: "lvl \<noteq> EncryptionUnspecified" using assms(2) by (rule getPacketNumberSpace_level)
  show v: "live (setSpace h lvl sp') = live h" using live_set [OF l] assms(3) live_get [OF assms(2)] by auto
  show "gens (setSpace h lvl sp') = gens h" using gens_set [OF l] gens_get [OF assms(2)] assms(4) by auto
  show "handler_inv (setSpace h lvl sp')" using assms v l by (simp add: handler_inv_def space_ok_def)
qed

lemma detectLostPackets_run:
  fixes now :: Time
  assumes inv: "handler_inv h" and sp: "getPacketNumberSpace h lvl = Inr sp"
  defines "L \<equiv> filter (too_late (ps_largestAcked sp) (Time_Add now (- lossDelayOf (sp_rttStats h)))) (live h lvl)"
  shows "\<exists>h' lt. detectLostPackets h now lvl prior = Inr (h', concat (map lostEvents L)) \<and> handler_inv h' \<and>
    live h' = (live h)(lvl := without L (live h lvl)) \<and> timers h' = timers h \<and> gens h' = gens h \<and>
    bare h' = (bare h)(lvl \<mapsto> sp\<lparr>lossTime := lt, ps_history := newSentPacketHistory\<rparr>)"
proof -
  have l: "lvl \<noteq> EncryptionUnspecified" using sp by (rule getPacketNumberSpace_level)
  let ?loop = "lostLoop (ps_largestAcked sp) (Time_Add now (- lossDelayOf (sp_rttStats h))) (lossDelayOf (sp_rttStats h)) (logged (ps_history sp)) 0"
  obtain lt where loop: "?loop = (L, lt)"
    using lostLoop_filter [OF live_facts(1,3) [OF inv, of lvl]] unfolding L_def live_get [OF sp] by (metis prod.collapse)
  define h1 where "h1 = setSpace h lvl (sp\<lparr>lossTime := lt\<rparr>)"
  have h1: "handler_inv h1" "live h1 = live h" "gens h1 = gens h" unfolding h1_def by (rule handler_inv_set [OF inv sp]; simp)+
  have g: "getPacketNumberSpace h1 lvl = Inr (sp\<lparr>lossTime := lt\<rparr>)" using l by (simp add: h1_def)
  have "some_live h1 lvl L" using some_live_filter [OF h1(1), of lvl] unfolding h1(2) L_def .
  then obtain h' where h': "loseAll h1 lvl prior L = Inr (h', concat (map lostEvents L))" "removes h1 lvl L h'"
    using loseAll_run [OF h1(1) g] by blast
  moreover have "detectLostPackets h now lvl prior = loseAll h1 lvl prior L"
    by (simp add: detectLostPackets_def sp loop Let_def h1_def)
  moreover have "bare h1 = (bare h)(lvl \<mapsto> sp\<lparr>lossTime := lt, ps_history := newSentPacketHistory\<rparr>)"
    unfolding h1_def using bare_set [OF l] by simp
  moreover have "timers h1 = timers h" by (simp add: h1_def)
  moreover have "gens h' = gens h1" using h'(2) by (simp add: gens_def [abs_def] removes_def)
  ultimately show ?thesis using h1(2,3) unfolding removes_def by auto
qed

section \<open>Acknowledgements\<close>

lemma LowestAcked_valid: "valid_ack ack \<Longrightarrow> LowestAcked ack = Inr (Smallest (last (AckRanges ack)))"
  by (simp add: valid_ack_def LowestAcked_def last_conv_nth)

lemma LargestAcked_valid: "valid_ack ack \<Longrightarrow> LargestAcked ack = Inr (Largest (hd (AckRanges ack)))"
  by (simp add: valid_ack_def LargestAcked_def hd_conv_nth)

lemma determineNewlyAckedPackets_filter:
  assumes "handler_inv h" and "getPacketNumberSpace h lvl = Inr sp" and ack: "valid_ack ack"
  shows "determineNewlyAckedPackets h ack lvl = Inr (filter (\<lambda>p. pk_PacketNumber p \<in> acked ack) (live h lvl))"
proof -
  have "ack_chain (AckRanges ack)" "AckRanges ack \<noteq> []" using ack by (auto simp: valid_ack_def)
  moreover from this have "0 < length (AckRanges ack)" by simp
  ultimately have "ackedLoop ack (Smallest (last (AckRanges ack))) (Largest (hd (AckRanges ack))) (live h lvl) 0 =
      Inr (filter (\<lambda>p. pk_PacketNumber p \<in> acked ack) (live h lvl))"
    using live_facts(1) [OF assms(1), of lvl] by (intro ackedLoop_filter) auto
  then show ?thesis
    by (simp add: determineNewlyAckedPackets_def assms(2) LowestAcked_valid [OF ack] LargestAcked_valid [OF ack] live_get [OF assms(2)])
qed

lemma timers_eq: "timers h' = timers h \<Longrightarrow> sp_rttStats h' = sp_rttStats h \<and> ptoCount h' = ptoCount h \<and>
    lastSentAckElicitingPacketTime h' = lastSentAckElicitingPacketTime h"
  by (simp add: timers_def)

lemma setLossDetectionTimer_frame [simp]:
  "handler_inv (setLossDetectionTimer h) = handler_inv h" "live (setLossDetectionTimer h) = live h"
  "sp_rttStats (setLossDetectionTimer h) = sp_rttStats h" "bare (setLossDetectionTimer h) = bare h"
  "gens (setLossDetectionTimer h) = gens h"
  by (simp_all add: setLossDetectionTimer_def Let_def)

text \<open>The two ways in which an ACK frame is refused.\<close>

definition unsent :: "packetNumberSpace \<Rightarrow> AckFrame \<Rightarrow> bool" where
  "unsent sp ack \<longleftrightarrow> largestSent sp < Largest (hd (AckRanges ack))"

definition acks_skipped :: "packetNumberSpace \<Rightarrow> AckFrame \<Rightarrow> bool" where
  "acks_skipped sp ack \<longleftrightarrow> (\<exists>pn \<in> set (pg_history (ps_pns sp)). pn \<in> acked ack)"

definition newlyAcked :: "sentPacketHandler \<Rightarrow> AckFrame \<Rightarrow> EncryptionLevel \<Rightarrow> Packet list" where
  "newlyAcked h ack lvl = filter (\<lambda>p. pk_PacketNumber p \<in> acked ack) (live h lvl)"

text \<open>The packets that an accepted ACK frame leaves in flight, and those of them that are declared lost.\<close>

definition leftOver :: "sentPacketHandler \<Rightarrow> AckFrame \<Rightarrow> EncryptionLevel \<Rightarrow> Packet list" where
  "leftOver h ack lvl = filter (\<lambda>p. pk_PacketNumber p \<notin> acked ack) (live h lvl)"

definition declaredLost :: "RTTStats \<Rightarrow> PacketNumber \<Rightarrow> Time \<Rightarrow> Packet list \<Rightarrow> Packet list" where
  "declaredLost rtt largest now = filter (too_late largest (Time_Add now (- lossDelayOf rtt)))"

text \<open>An accepted ACK frame: the packet it names first may update the round trip time; then the acknowledged packets are
  taken out of the history, if there are any.\<close>

lemma ReceivedAck_eq:
  assumes inv: "handler_inv h" and sp: "getPacketNumberSpace h lvl = Inr sp" and ack: "valid_ack ack"
    and ok: "\<not> unsent sp ack" "\<not> acks_skipped sp ack"
  shows "\<exists>h2 sp2. handler_inv h2 \<and> live h2 = live h \<and> gens h2 = gens h \<and> getPacketNumberSpace h2 lvl = Inr sp2 \<and>
    ps_largestAcked sp2 = max (ps_largestAcked sp) (Largest (hd (AckRanges ack))) \<and>
    (newlyAcked h ack lvl = [] \<longrightarrow> timers h2 = timers h) \<and>
    ReceivedAck h ack lvl t = (if newlyAcked h ack lvl = [] then Inr (h2, [])
      else tryE (ackAll h2 lvl (bytesInFlight h2) t (newlyAcked h ack lvl)) (\<lambda>(h, es).
          tryE (detectLostPackets h t lvl (bytesInFlight h2)) (\<lambda>(h, es').
          Inr (setLossDetectionTimer (h\<lparr>ptoCount := 0, numProbesToSend := 0\<rparr>), es @ es'))))"
proof -
  have l: "lvl \<noteq> EncryptionUnspecified" using sp by (rule getPacketNumberSpace_level)
  let ?la = "Largest (hd (AckRanges ack))"
  define sp1 where "sp1 = sp\<lparr>ps_largestAcked := MaxPacketNumber (ps_largestAcked sp) ?la\<rparr>"
  define h1 where "h1 = setSpace h lvl sp1"
  have h1: "handler_inv h1" "live h1 = live h" "gens h1 = gens h" unfolding h1_def sp1_def by (rule handler_inv_set [OF inv sp]; simp)+
  have g1: "getPacketNumberSpace h1 lvl = Inr sp1" using l by (simp add: h1_def)
  have la: "ps_largestAcked sp1 = max (ps_largestAcked sp) ?la" by (simp add: sp1_def MaxPacketNumber_def max_def)
  define h2 where "h2 = (case GetPacket (ps_history sp1) ?la of None \<Rightarrow> h1
      | Some p \<Rightarrow> let ackDelay = (if lvl = Encryption1RTT then MinDuration (DelayTime ack) (maxAckDelay (sp_rttStats h1)) else 0);
                      h = h1\<lparr>sp_rttStats := UpdateRTT (sp_rttStats h1) (Time_Sub t (pk_SendTime p)) ackDelay\<rparr>
                  in h\<lparr>congestion := MaybeExitSlowStart (congestion h) (sp_rttStats h)\<rparr>)"
  have i2: "handler_inv h2" "live h2 = live h" "getPacketNumberSpace h2 lvl = Inr sp1" "gens h2 = gens h"
    using h1 g1 by (auto simp: h2_def gens_def [abs_def] Let_def handler_inv_def reno_inv_exit split: option.split)
  have v: "Validate (ps_pns sp1) ack = Inr True" using Validate_iff [OF ack] ok(2) by (simp add: sp1_def acks_skipped_def)
  have d: "determineNewlyAckedPackets h2 ack lvl = Inr (newlyAcked h ack lvl)"
    using determineNewlyAckedPackets_filter [OF i2(1,3) ack] i2(2) by (simp add: newlyAcked_def)
  have no: "\<not> largestSent sp < ?la" using ok(1) by (simp add: unsent_def)
  have run: "ReceivedAck h ack lvl t = (if newlyAcked h ack lvl = [] then Inr (h2, [])
      else tryE (ackAll h2 lvl (bytesInFlight h2) t (newlyAcked h ack lvl)) (\<lambda>(h, es).
          tryE (detectLostPackets h t lvl (bytesInFlight h2)) (\<lambda>(h, es').
          Inr (setLossDetectionTimer (h\<lparr>ptoCount := 0, numProbesToSend := 0\<rparr>), es @ es'))))"
    unfolding ReceivedAck_def sp LargestAcked_valid [OF ack] tryE_simps if_not_P [OF no] Let_def sp1_def [symmetric] h1_def [symmetric]
      h2_def [unfolded Let_def, symmetric] v d by (simp add: Let_def)
  have "timers h2 = timers h" if none: "newlyAcked h ack lvl = []"
  proof -
    have "?la \<in> acked ack" using ack by (auto simp: acked_def valid_ack_def ack_chain_def intro!: bexI [of _ "hd (AckRanges ack)"])
    then have "?la \<notin> pk_PacketNumber ` set (live h lvl)" using none by (auto simp: newlyAcked_def filter_empty_conv)
    moreover have "history_inv (ps_history sp)" using inv sp by (auto simp: handler_inv_def space_ok_def)
    ultimately have "GetPacket (ps_history sp1) ?la = None"
      using log.get_None [of "ps_history sp" ?la] live_get [OF sp] by (simp add: sp1_def)
    then show ?thesis by (simp add: h2_def h1_def)
  qed
  then show ?thesis using i2 la run by blast
qed

lemma ReceivedAck_run:
  assumes inv: "handler_inv h" and sp: "getPacketNumberSpace h lvl = Inr sp" and ack: "valid_ack ack"
    and ok: "\<not> unsent sp ack" "\<not> acks_skipped sp ack"
  defines "A \<equiv> newlyAcked h ack lvl" and "largest \<equiv> max (ps_largestAcked sp) (Largest (hd (AckRanges ack)))"
  shows "\<exists>h' es. ReceivedAck h ack lvl t = Inr (h', es) \<and> handler_inv h' \<and> gens h' = gens h \<and>
    (if A = [] then live h' = live h \<and> es = [] \<and> timers h' = timers h
     else let L = declaredLost (sp_rttStats h') largest t (leftOver h ack lvl) in
       live h' = (live h)(lvl := without L (leftOver h ack lvl)) \<and>
       es = concat (map ackedEvents A) @ concat (map lostEvents L) \<and> (\<exists>h0. h' = setLossDetectionTimer h0))"
proof -
  obtain h2 sp2 where i2: "handler_inv h2" "live h2 = live h" "getPacketNumberSpace h2 lvl = Inr sp2" "gens h2 = gens h"
    and la: "ps_largestAcked sp2 = largest" and t: "A = [] \<Longrightarrow> timers h2 = timers h"
    and run: "ReceivedAck h ack lvl t = (if A = [] then Inr (h2, [])
      else tryE (ackAll h2 lvl (bytesInFlight h2) t A) (\<lambda>(h, es).
          tryE (detectLostPackets h t lvl (bytesInFlight h2)) (\<lambda>(h, es').
          Inr (setLossDetectionTimer (h\<lparr>ptoCount := 0, numProbesToSend := 0\<rparr>), es @ es'))))"
    using ReceivedAck_eq [OF assms(1-5), of t] unfolding A_def largest_def by blast
  show ?thesis
  proof (cases "A = []")
    case True
    then show ?thesis using run i2 t by simp
  next
    case False
    have "some_live h2 lvl A" unfolding A_def newlyAcked_def using some_live_filter [OF i2(1), of lvl] i2(2) by simp
    then obtain h3 where h3: "ackAll h2 lvl (bytesInFlight h2) t A = Inr (h3, concat (map ackedEvents A))" "removes h2 lvl A h3"
      using ackAll_run [OF i2(1,3)] by blast
    obtain sp3 where sp3: "getPacketNumberSpace h3 lvl = Inr sp3" "ps_largestAcked sp3 = largest"
      using bare_SomeD [OF _ i2(3), of h3] h3(2) la by (auto simp: removes_def)
    have v3: "live h3 lvl = leftOver h ack lvl"
      using h3(2) i2(2) without_filter [OF live_facts(2) [OF inv]] by (simp add: removes_def A_def newlyAcked_def leftOver_def)
    have inv3: "handler_inv h3" using h3(2) by (simp add: removes_def)
    obtain h4 where h4: "detectLostPackets h3 t lvl (bytesInFlight h2) =
        Inr (h4, concat (map lostEvents (declaredLost (sp_rttStats h3) largest t (leftOver h ack lvl))))"
      "handler_inv h4" "live h4 = (live h3)(lvl := without (declaredLost (sp_rttStats h3) largest t (leftOver h ack lvl)) (leftOver h ack lvl))"
      "timers h4 = timers h3" "gens h4 = gens h3"
      using detectLostPackets_run [OF inv3 sp3(1), of t "bytesInFlight h2"] unfolding sp3(2) v3 declaredLost_def by blast
    have "live h4 = (live h)(lvl := without (declaredLost (sp_rttStats h3) largest t (leftOver h ack lvl)) (leftOver h ack lvl))"
      using h4(3) h3(2) i2(2) by (simp add: removes_def)
    moreover have "gens h3 = gens h" using h3(2) i2(4) by (simp add: gens_def [abs_def] removes_def)
    ultimately show ?thesis using run False h3(1) h4 timers_eq [OF h4(4)] by (auto simp: Let_def)
  qed
qed

section \<open>Sending\<close>

text \<open>The packer takes a packet number for every packet it builds, and the session reports the packet when it is sent.\<close>

definition numbered :: "EncryptionLevel \<Rightarrow> PacketNumber \<Rightarrow> Packet \<Rightarrow> Packet" where
  "numbered lvl pn p = p\<lparr>pk_PacketNumber := pn, pk_EncryptionLevel := lvl, includedInBytesInFlight := False\<rparr>"

definition sendPacket :: "sentPacketHandler \<Rightarrow> EncryptionLevel \<Rightarrow> u16 \<Rightarrow> Packet \<Rightarrow> go_error + sentPacketHandler" where
  "sendPacket h lvl num p = tryE (PopPacketNumber h lvl num) (\<lambda>(pn, h). SentPacket h (numbered lvl pn p))"

definition frames_ok :: "Packet \<Rightarrow> bool" where
  "frames_ok p \<longleftrightarrow> (\<forall>f \<in> set (pk_Frames p). ahf_OnLost f \<noteq> None)"

lemma TimeUntilSend_ok: "reno_inv c \<Longrightarrow> \<exists>d. cc_TimeUntilSend c rtt b = Inr d"
proof -
  assume c: "reno_inv c"
  have "2 * congestionWindow c \<noteq> 0"
  proof
    assume z: "2 * congestionWindow c = 0"
    have "unat (2 * congestionWindow c) = 2 * unat (congestionWindow c)"
      using cwnd_small(2) [OF c] by (simp add: unat_word_ariths)
    then show False using cwnd_small(1) [OF c] z by simp
  qed
  then show ?thesis by (simp add: cc_TimeUntilSend_def GetCongestionWindow_def)
qed

lemma PopPacketNumber_run:
  assumes inv: "handler_inv h" and sp: "getPacketNumberSpace h lvl = Inr sp" and lim: "Peek (ps_pns sp) < 2 ^ 61"
  obtains g where "PopPacketNumber h lvl num = Inr (Peek (ps_pns sp), setSpace h lvl (sp\<lparr>ps_pns := g\<rparr>))"
    and "\<exists>initial used. 0 \<le> initial \<and> generator_inv initial used g"
    and "Peek (ps_pns sp) < Peek g" "Peek g \<le> Peek (ps_pns sp) + 2" "0 \<le> Peek (ps_pns sp)"
proof -
  obtain initial used where gi: "0 \<le> initial" "generator_inv initial used (ps_pns sp)"
    using inv sp unfolding handler_inv_def space_ok_def by blast
  obtain pn g where pop: "generator_Pop (ps_pns sp) num = (pn, g)" by fastforce
  have "pn = Peek (ps_pns sp)" "generator_inv initial (used @ [pn]) g" "Peek g \<le> Peek (ps_pns sp) + 2"
    using generator_Pop_inv [OF gi(2,1) _ pop] lim by (auto simp: Peek_def)
  moreover from this have "Peek (ps_pns sp) < Peek g" by (simp add: generator_inv_def Peek_def)
  moreover have "0 \<le> Peek (ps_pns sp)" using gi by (simp add: generator_inv_def Peek_def)
  moreover have "PopPacketNumber h lvl num = Inr (pn, setSpace h lvl (sp\<lparr>ps_pns := g\<rparr>))"
    by (simp add: PopPacketNumber_def sp pop)
  ultimately show ?thesis using that gi(1) by blast
qed

lemma space_ok_sent:
  assumes "space_ok lvl sp" and "largestSent sp < pn" "pn < Peek g" "0 \<le> pn" "pn < 2 ^ 62" and "frames_ok p"
    and "\<exists>initial used. 0 \<le> initial \<and> generator_inv initial used g"
  defines "q \<equiv> (numbered lvl pn p)\<lparr>includedInBytesInFlight := True\<rparr>"
  shows "space_ok lvl (sp\<lparr>ps_pns := g, largestSent := pn\<rparr>)"
    "space_ok lvl (sp\<lparr>ps_pns := g, largestSent := pn, ps_history := history_SentPacket (ps_history sp) q\<rparr>)"
    "logged (history_SentPacket (ps_history sp) q) = logged (ps_history sp) @ [q]"
proof -
  have old: "\<forall>r \<in> set (logged (ps_history sp)). packet_ok lvl r \<and> pk_PacketNumber r < pn"
    using assms(1,2) by (auto simp: space_ok_def)
  have q: "pk_PacketNumber q = pn" "packet_ok lvl q" using assms by (auto simp: q_def numbered_def packet_ok_def frames_ok_def)
  have new: "pk_PacketNumber q \<notin> pk_PacketNumber ` set (logged (ps_history sp))" using old q(1) by fastforce
  have hi: "history_inv (ps_history sp)" using assms(1) by (simp add: space_ok_def)
  show l: "logged (history_SentPacket (ps_history sp) q) = logged (ps_history sp) @ [q]" using log.add [OF hi new] by simp
  show "space_ok lvl (sp\<lparr>ps_pns := g, largestSent := pn\<rparr>)" using assms(1,3,7) old by (auto simp: space_ok_def order.order_iff_strict)
  show "space_ok lvl (sp\<lparr>ps_pns := g, largestSent := pn, ps_history := history_SentPacket (ps_history sp) q\<rparr>)"
    using assms(1,3,7) old q log.add [OF hi new] by (auto simp: space_ok_def l sorted_wrt_append)
qed

lemma handler_inv_update:
  assumes "handler_inv h" and "lvl \<noteq> EncryptionUnspecified" and "space_ok lvl sp" and "reno_inv c"
    and "b = bytesInFlight h - sum_list (map pk_Length (live h lvl)) + sum_list (map pk_Length (logged (ps_history sp)))"
  shows "handler_inv (setSpace (h\<lparr>bytesInFlight := b, congestion := c\<rparr>) lvl sp)"
  using assms by (simp add: handler_inv_def live_set inFlightSum_upd)

lemma setSpace_commute:
  "lastSentAckElicitingPacketTime_update f (setSpace h lvl sp) = setSpace (lastSentAckElicitingPacketTime_update f h) lvl sp"
  "lastSentCryptoPacketTime_update f (setSpace h lvl sp) = setSpace (lastSentCryptoPacketTime_update f h) lvl sp"
  "nextSendTime_update f (setSpace h lvl sp) = setSpace (nextSendTime_update f h) lvl sp"
  "bytesInFlight_update b (setSpace h lvl sp) = setSpace (bytesInFlight_update b h) lvl sp"
  "congestion_update c (setSpace h lvl sp) = setSpace (congestion_update c h) lvl sp"
  "numProbesToSend_update k (setSpace h lvl sp) = setSpace (numProbesToSend_update k h) lvl sp"
  "setSpace (setSpace h lvl sp) lvl sp' = setSpace h lvl sp'"
  by (cases lvl; simp)+

lemma handler_inv_times:
  "handler_inv (h\<lparr>lastSentAckElicitingPacketTime := t\<rparr>) = handler_inv h" "handler_inv (h\<lparr>lastSentCryptoPacketTime := t\<rparr>) = handler_inv h"
  by (simp_all add: handler_inv_def)

definition sentAs :: "EncryptionLevel \<Rightarrow> PacketNumber \<Rightarrow> Packet \<Rightarrow> Packet list" where
  "sentAs lvl pn p = (if pk_Frames p = [] then [] else [(numbered lvl pn p)\<lparr>includedInBytesInFlight := True\<rparr>])"

lemma sendPacket_run:
  assumes inv: "handler_inv h" and sp: "getPacketNumberSpace h lvl = Inr sp" and lim: "Peek (ps_pns sp) < 2 ^ 61" and p: "frames_ok p"
  shows "\<exists>h' g. sendPacket h lvl num p = Inr h' \<and> handler_inv h' \<and> Peek g \<le> Peek (ps_pns sp) + 2 \<and> gens h' = (gens h)(lvl \<mapsto> g) \<and>
    live h' = (live h)(lvl := live h lvl @ sentAs lvl (Peek (ps_pns sp)) p)"
proof -
  have l: "lvl \<noteq> EncryptionUnspecified" using sp by (rule getPacketNumberSpace_level)
  let ?pn = "Peek (ps_pns sp)"
  obtain g where pop: "PopPacketNumber h lvl num = Inr (?pn, setSpace h lvl (sp\<lparr>ps_pns := g\<rparr>))"
    and g: "\<exists>initial used. 0 \<le> initial \<and> generator_inv initial used g" "?pn < Peek g" "Peek g \<le> ?pn + 2" "0 \<le> ?pn"
    using PopPacketNumber_run [OF inv sp lim] by blast
  have ok: "space_ok lvl sp" using inv sp by (simp add: handler_inv_def)
  have "largestSent sp < ?pn" "?pn < 2 ^ 62" using ok lim by (simp_all add: space_ok_def)
  note sent = space_ok_sent [OF ok this(1) g(2,4) this(2) p g(1)]
  define e where "e = (pk_Frames p \<noteq> [])"
  define c where "c = cc_OnPacketSent (congestion h) ?pn (pk_Length p) e"
  have c: "reno_inv c" using inv by (simp add: c_def handler_inv_def reno_inv_sent)
  define b where "b = (if e then bytesInFlight h + pk_Length p else bytesInFlight h)"
  obtain d where d: "cc_TimeUntilSend c (sp_rttStats h) b = Inr d" using TimeUntilSend_ok [OF c] by blast
  define sp' where "sp' = (if e then sp\<lparr>ps_pns := g, largestSent := ?pn, ps_history := history_SentPacket (ps_history sp)
      ((numbered lvl ?pn p)\<lparr>includedInBytesInFlight := True\<rparr>)\<rparr> else sp\<lparr>ps_pns := g, largestSent := ?pn\<rparr>)"
  have sp': "space_ok lvl sp'" "logged (ps_history sp') = live h lvl @ sentAs lvl ?pn p" "ps_pns sp' = g"
    using sent live_get [OF sp] by (auto simp: sp'_def e_def sentAs_def)
  define h1 where "h1 = setSpace (h\<lparr>bytesInFlight := b, congestion := c\<rparr>) lvl sp'"
  have h1: "handler_inv h1" unfolding h1_def
    by (rule handler_inv_update [OF inv l sp'(1) c]) (simp add: sp'(2) b_def e_def sentAs_def numbered_def)
  have v1: "live h1 = (live h)(lvl := live h lvl @ sentAs lvl ?pn p)" "gens h1 = (gens h)(lvl \<mapsto> g)"
    using l sp'(2,3) by (simp_all add: h1_def live_set gens_set)
  obtain h' where h': "sendPacket h lvl num p = Inr h'" "handler_inv h' = handler_inv h1" "live h' = live h1" "gens h' = gens h1"
  proof (cases e)
    case False
    then have "\<exists>t. sendPacket h lvl num p = Inr (h1\<lparr>nextSendTime := t\<rparr>)"
      using l d unfolding sendPacket_def pop SentPacket_def sentPacketImpl_def h1_def sp'_def c_def b_def
      by (auto simp: e_def numbered_def Let_def setSpace_commute)
    then show ?thesis using that by auto
  next
    case True
    define H where "H = (if lvl \<noteq> Encryption1RTT then h\<lparr>lastSentCryptoPacketTime := pk_SendTime p\<rparr> else h)"
    let ?H = "H\<lparr>lastSentAckElicitingPacketTime := pk_SendTime p, bytesInFlight := b,
      numProbesToSend := (if numProbesToSend h > 0 then numProbesToSend h - 1 else numProbesToSend h),
      congestion := c, nextSendTime := Time_Add (MaxTime (nextSendTime h) (pk_SendTime p)) d\<rparr>"
    have cb: "cc_OnPacketSent (congestion h) ?pn (pk_Length p) True = c" "bytesInFlight h + pk_Length p = b"
      using True by (simp_all add: c_def b_def)
    have "sendPacket h lvl num p = Inr (setLossDetectionTimer (setSpace ?H lvl sp'))"
      using True l d unfolding sendPacket_def pop SentPacket_def sentPacketImpl_def sp'_def
      by (simp add: e_def [symmetric] numbered_def Let_def setSpace_commute cb H_def)
    moreover have "handler_inv (setSpace ?H lvl sp') = handler_inv h1" "live (setSpace ?H lvl sp') = live h1" "gens (setSpace ?H lvl sp') = gens h1"
      using l by (auto simp: h1_def H_def handler_inv_def live_set gens_set)
    ultimately show ?thesis using that by simp
  qed
  show ?thesis using h' h1 v1 g(3) by auto
qed

section \<open>The other operations\<close>

lemma dropLoop_eq: "\<forall>p \<in> set ps. includedInBytesInFlight p \<Longrightarrow> dropLoop ps b = b - sum_list (map pk_Length ps)"
  by (induction ps arbitrary: b) (simp_all add: diff_diff_eq)

lemma sp_DropPackets_run:
  assumes inv: "handler_inv h" and run: "sp_DropPackets h lvl = Inr h'"
  shows "handler_inv h'" "live h' = (live h)(lvl := [])" "gens h' = (gens h)(lvl := None)" "lvl \<noteq> EncryptionUnspecified"
proof -
  obtain sp where sp: "getPacketNumberSpace h lvl = Inr sp" and lvl: "lvl = EncryptionInitial \<or> lvl = EncryptionHandshake"
    using run by (auto simp: sp_DropPackets_def tryE_eq_Inr Let_def split: if_splits)
  let ?b = "bytesInFlight h - sum_list (map pk_Length (live h lvl))"
  have "dropLoop (logged (ps_history sp)) (bytesInFlight h) = ?b"
    using dropLoop_eq [of "live h lvl"] live_packet_ok [OF inv, of _ lvl] by (simp add: packet_ok_def live_get [OF sp])
  then have h': "h' = (if lvl = EncryptionInitial then h\<lparr>bytesInFlight := ?b, sp_initial := None\<rparr> else h\<lparr>bytesInFlight := ?b, sp_handshake := None\<rparr>)"
    using run lvl by (auto simp: sp_DropPackets_def sp Let_def)
  have g: "getPacketNumberSpace h' lvl' = (if lvl' = lvl then nilSpace None else getPacketNumberSpace h lvl')" for lvl'
    using lvl unfolding h' by (cases lvl') auto
  show l: "live h' = (live h)(lvl := [])" by (rule ext) (simp add: live_def g nilSpace_def)
  show "gens h' = (gens h)(lvl := None)" by (rule ext) (simp add: gens_def bare_def g nilSpace_def)
  show ne: "lvl \<noteq> EncryptionUnspecified" using lvl by auto
  have "bytesInFlight h' = ?b" "congestion h' = congestion h" using lvl by (auto simp: h')
  then show "handler_inv h'" using inv unfolding handler_inv_def l inFlightSum_upd [OF ne] by (auto simp: g nilSpace_def split: if_splits)
qed

lemma OnLossDetectionTimeout_run:
  assumes inv: "handler_inv h" and run: "OnLossDetectionTimeout h now = Inr (h', es)"
  shows "\<exists>lvl L. some_live h lvl L \<and> es = concat (map lostEvents L) \<and> handler_inv h' \<and> gens h' = gens h \<and>
    live h' = (live h)(lvl := without L (live h lvl))"
proof -
  obtain h1 where h1: "(if hasOutstandingPackets h then onVerifiedLossDetectionTimeout h now else Inr (h, [])) = Inr (h1, es)"
    "h' = setLossDetectionTimer h1"
    using run by (auto simp: OnLossDetectionTimeout_def tryE_eq_Inr)
  obtain lt lvl where e: "getEarliestLossTime h = (lt, lvl)" by fastforce
  show ?thesis
  proof (cases "hasOutstandingPackets h \<and> \<not> IsZero lt")
    case True
    then have d: "detectLostPackets h now lvl (bytesInFlight h) = Inr (h1, es)"
      using h1(1) e by (simp add: onVerifiedLossDetectionTimeout_def)
    then obtain sp where sp: "getPacketNumberSpace h lvl = Inr sp" by (auto simp: detectLostPackets_def tryE_eq_Inr)
    show ?thesis using detectLostPackets_run [OF inv sp, of now "bytesInFlight h"] d h1(2) some_live_filter [OF inv, of lvl] by auto
  next
    case False
    then have "handler_inv h1" "live h1 = live h" "gens h1 = gens h" "es = []"
      using h1(1) e inv by (auto simp: onVerifiedLossDetectionTimeout_def split: if_splits)
    then have "some_live h lvl [] \<and> es = concat (map lostEvents []) \<and> handler_inv h' \<and> gens h' = gens h \<and>
        live h' = (live h)(lvl := without [] (live h lvl))" by (simp add: h1(2) some_live_def)
    then show ?thesis by blast
  qed
qed

lemma FirstOutstanding_logged: "FirstOutstanding h = (case logged h of [] \<Rightarrow> None | p # _ \<Rightarrow> Some p)"
  by (cases "packetList h") (auto simp: FirstOutstanding_def HasOutstandingPackets_def logged_def)

text \<open>The oldest packet of the first level that has one.\<close>

definition probe :: "sentPacketHandler \<Rightarrow> Packet option" where
  "probe h = (case live h EncryptionInitial @ live h EncryptionHandshake @ live h Encryption1RTT of [] \<Rightarrow> None | p # _ \<Rightarrow> Some p)"

lemma QueueProbePacket_run:
  assumes inv: "handler_inv h"
  shows "case probe h of
      None \<Rightarrow> QueueProbePacket h = Inr (False, h, [])
    | Some p \<Rightarrow> p \<in> set (live h (pk_EncryptionLevel p)) \<and> (\<exists>h'. QueueProbePacket h = Inr (True, h', lostEvents p) \<and> removes h (pk_EncryptionLevel p) [p] h')"
proof -
  let ?first = "\<lambda>sp. case sp of Some sp \<Rightarrow> FirstOutstanding (ps_history sp) | None \<Rightarrow> None"
  have ini: "?first (sp_initial h) = (case live h EncryptionInitial of [] \<Rightarrow> None | p # _ \<Rightarrow> Some p)"
    and hs: "?first (sp_handshake h) = (case live h EncryptionHandshake of [] \<Rightarrow> None | p # _ \<Rightarrow> Some p)"
    and one: "FirstOutstanding (ps_history (sp_oneRTT h)) = (case live h Encryption1RTT of [] \<Rightarrow> None | p # _ \<Rightarrow> Some p)"
    by (simp_all add: live_def nilSpace_def FirstOutstanding_logged split: option.split)
  have find: "(let p = ?first (sp_initial h); p = (if p = None then ?first (sp_handshake h) else p)
      in if p = None then FirstOutstanding (ps_history (sp_oneRTT h)) else p) = probe h"
    by (simp add: ini hs one probe_def Let_def split: list.split)
  show ?thesis
  proof (cases "probe h")
    case None
    then show ?thesis using find by (simp add: QueueProbePacket_def Let_def)
  next
    case (Some p)
    obtain lvl where lvl: "p \<in> set (live h lvl)" using Some by (auto simp: probe_def split: list.splits) (metis Un_iff list.set_intros(1) set_append)
    have p: "packet_ok lvl p" by (rule live_packet_ok [OF inv lvl])
    obtain sp where sp: "getPacketNumberSpace h lvl = Inr sp" using lvl by (cases "getPacketNumberSpace h lvl") (auto simp: live_def)
    have "reno_inv (congestion h)" using inv by (simp add: handler_inv_def)
    then obtain hist where r: "history_Remove (ps_history sp) (pk_PacketNumber p) = Inr hist"
      "removes h lvl [p] (setSpace (h\<lparr>bytesInFlight := bytesInFlight h - pk_Length p, congestion := congestion h\<rparr>) lvl (sp\<lparr>ps_history := hist\<rparr>))"
      using remove_packet [OF inv sp lvl] by blast
    have "h\<lparr>bytesInFlight := bytesInFlight h - pk_Length p, congestion := congestion h\<rparr> = h\<lparr>bytesInFlight := bytesInFlight h - pk_Length p\<rparr>" by simp
    moreover have "QueueProbePacket h = tryE (queueFramesForRetransmission p) (\<lambda>es.
            let h = (if includedInBytesInFlight p then h\<lparr>bytesInFlight := bytesInFlight h - pk_Length p\<rparr> else h)
            in tryE (getPacketNumberSpace h (pk_EncryptionLevel p)) (\<lambda>sp.
               case history_Remove (ps_history sp) (pk_PacketNumber p) of
                 Inl e \<Rightarrow> Inl (Panic (''packet not found'', []))
               | Inr hist \<Rightarrow> Inr (True, setSpace h (pk_EncryptionLevel p) (sp\<lparr>ps_history := hist\<rparr>), es)))"
      using find Some by (simp only: QueueProbePacket_def Let_def option.case)
    moreover have "pk_EncryptionLevel p = lvl" using p by (simp add: packet_ok_def)
    ultimately show ?thesis using p r Some sp lvl by (simp add: queueFrames_events [OF p] packet_ok_def Let_def)
  qed
qed

section \<open>Runs\<close>

text \<open>The calls of the session, and what they report: the calls of callbacks and the packets dropped with their keys.\<close>

datatype sp_op = OpSend EncryptionLevel u16 Packet | OpAck AckFrame EncryptionLevel Time | OpAlarm Time | OpProbe
  | OpDropKeys EncryptionLevel

fun sp_step :: "sentPacketHandler \<Rightarrow> sp_op \<Rightarrow> go_error + sentPacketHandler \<times> frame_event list \<times> Packet list" where
  "sp_step h (OpSend lvl num p) = tryE (sendPacket h lvl num p) (\<lambda>h. Inr (h, [], []))"
| "sp_step h (OpAck ack lvl t) = tryE (ReceivedAck h ack lvl t) (\<lambda>(h, es). Inr (h, es, []))"
| "sp_step h (OpAlarm t) = tryE (OnLossDetectionTimeout h t) (\<lambda>(h, es). Inr (h, es, []))"
| "sp_step h OpProbe = tryE (QueueProbePacket h) (\<lambda>(_, h, es). Inr (h, es, []))"
| "sp_step h (OpDropKeys lvl) = tryE (sp_DropPackets h lvl) (\<lambda>h'. Inr (h', [], live h lvl))"

fun sp_run :: "sentPacketHandler \<Rightarrow> sp_op list \<Rightarrow> go_error + sentPacketHandler \<times> frame_event list \<times> Packet list" where
  "sp_run h [] = Inr (h, [], [])"
| "sp_run h (op # ops) = tryE (sp_step h op) (\<lambda>(h, es, ds). tryE (sp_run h ops) (\<lambda>(h, es', ds'). Inr (h, es @ es', ds @ ds')))"

fun op_ok :: "sp_op \<Rightarrow> bool" where
  "op_ok (OpSend lvl num p) = frames_ok p"
| "op_ok (OpAck ack lvl t) = valid_ack ack"
| "op_ok _ = True"

fun sentBy :: "sp_op \<Rightarrow> Packet list" where
  "sentBy (OpSend lvl num p) = [p]"
| "sentBy _ = []"

fun event_id :: "frame_event \<Rightarrow> nat" where
  "event_id (OnAcked n f) = n"
| "event_id (OnLost n f) = n"

text \<open>How often the callback \<open>i\<close> is called, and in how many frames of a packet it is.\<close>

definition calls :: "nat \<Rightarrow> frame_event list \<Rightarrow> int" where
  "calls i es = (\<Sum>e \<leftarrow> es. if event_id e = i then 1 else 0)"

definition carries :: "nat \<Rightarrow> Packet \<Rightarrow> int" where
  "carries i p = (\<Sum>f \<leftarrow> pk_Frames p. if ahf_OnLost f = Some i then 1 else 0)"

definition paired :: "nat \<Rightarrow> Packet \<Rightarrow> bool" where
  "paired i p \<longleftrightarrow> (\<forall>f \<in> set (pk_Frames p). ahf_OnLost f = Some i \<longleftrightarrow> ahf_OnAcked f = Some i)"

abbreviation carried :: "nat \<Rightarrow> Packet list \<Rightarrow> int" where
  "carried i ps \<equiv> sum_list (map (carries i) ps)"

definition all_live :: "(Packet \<Rightarrow> bool) \<Rightarrow> sentPacketHandler \<Rightarrow> bool" where
  "all_live P h \<longleftrightarrow> (\<forall>lvl. \<forall>p \<in> set (live h lvl). P p)"

definition numbers_below :: "int \<Rightarrow> sentPacketHandler \<Rightarrow> bool" where
  "numbers_below b h \<longleftrightarrow> (\<forall>lvl g. gens h lvl = Some g \<longrightarrow> Peek g \<le> b)"

lemma calls_append [simp]: "calls i (es @ es') = calls i es + calls i es'" "calls i [] = 0"
  by (simp_all add: calls_def)

lemma calls_lost: "frames_ok p \<Longrightarrow> calls i (lostEvents p) = carries i p"
  unfolding calls_def carries_def lostEvents_def frames_ok_def
  by (simp add: comp_def) (intro arg_cong [of _ _ sum_list] map_cong, auto)

lemma calls_acked:
  assumes "paired i p"
  shows "calls i (ackedEvents p) = carries i p"
proof -
  have "calls i (ackedFrames fs) = (\<Sum>f \<leftarrow> fs. if ahf_OnLost f = Some i then 1 else 0)"
    if "\<forall>f \<in> set fs. ahf_OnLost f = Some i \<longleftrightarrow> ahf_OnAcked f = Some i" for fs
    using that by (induction fs) (auto simp: ackedFrames_def calls_def split: option.splits)
  then show ?thesis using assms by (simp add: ackedEvents_def carries_def paired_def)
qed

lemma calls_concat: "\<forall>p \<in> set ps. calls i (f p) = carries i p \<Longrightarrow> calls i (concat (map f ps)) = carried i ps"
  by (induction ps) simp_all

lemma sum_list_without:
  fixes w :: "Packet \<Rightarrow> 'a :: ab_group_add"
  assumes "set ps \<subseteq> set qs" and "distinct (pns ps)" and "distinct (pns qs)"
  shows "sum_list (map w (without ps qs)) = sum_list (map w qs) - sum_list (map w ps)"
  using assms
proof (induction ps arbitrary: qs)
  case (Cons p ps)
  have one: "without [p] qs = filter (\<lambda>q. pk_PacketNumber q \<noteq> pk_PacketNumber p) qs" by (simp add: without_def)
  have "set ps \<subseteq> set (without [p] qs)" "distinct (pns (without [p] qs))"
    using Cons.prems unfolding one by (auto simp: image_iff distinct_map_filter)
  then have "sum_list (map w (without ps (without [p] qs))) = sum_list (map w (without [p] qs)) - sum_list (map w ps)"
    using Cons.prems(2) by (intro Cons.IH) auto
  then have "sum_list (map w (without (p # ps) qs)) = sum_list (map w (without [p] qs)) - sum_list (map w ps)" by simp
  moreover have "sum_list (map w (without [p] qs)) = sum_list (map w qs) - w p"
    unfolding one using Cons.prems by (intro sum_list_remove) auto
  ultimately show ?case by (simp add: diff_diff_eq)
qed simp

lemma carried_without:
  assumes "handler_inv h" and "some_live h lvl ps" and "lvl \<noteq> EncryptionUnspecified"
  shows "inFlightSum w ((live h)(lvl := without ps (live h lvl))) = inFlightSum w (live h) - sum_list (map w ps)"
  unfolding inFlightSum_upd [OF assms(3)]
  using assms(2) live_facts(2) [OF assms(1)] by (simp add: sum_list_without some_live_def)

text \<open>What each operation keeps and how it accounts for the frames that carry the callback \<open>i\<close>.\<close>

definition accounted :: "nat \<Rightarrow> sentPacketHandler \<Rightarrow> Packet list \<Rightarrow> sentPacketHandler \<Rightarrow> frame_event list \<Rightarrow> Packet list \<Rightarrow> bool" where
  "accounted i h sent h' es ds \<longleftrightarrow> all_live (paired i) h' \<and>
    calls i es + carried i ds + inFlightSum (carries i) (live h') = inFlightSum (carries i) (live h) + carried i sent"

lemma live_frames_ok: "handler_inv h \<Longrightarrow> p \<in> set (live h lvl) \<Longrightarrow> frames_ok p"
  using live_packet_ok [of h p lvl] by (simp add: packet_ok_def frames_ok_def)

lemma some_live_level: "some_live h lvl ps \<Longrightarrow> ps \<noteq> [] \<Longrightarrow> lvl \<noteq> EncryptionUnspecified"
  by (cases lvl) (auto simp: some_live_def live_def)

lemma accounted_removal:
  assumes "handler_inv h" and "some_live h lvl ps" and "live h' = (live h)(lvl := without ps (live h lvl))"
    and "calls i es = carried i ps" and "all_live (paired i) h"
  shows "accounted i h [] h' es []"
proof -
  have "inFlightSum (carries i) (live h') = inFlightSum (carries i) (live h) - carried i ps"
    using carried_without [OF assms(1,2)] some_live_level [OF assms(2)] assms(3) by (cases "ps = []") auto
  moreover have "all_live (paired i) h'" using assms(3,5) by (auto simp: all_live_def without_def)
  ultimately show ?thesis using assms(4) by (simp add: accounted_def)
qed

lemma calls_lost_live:
  assumes "handler_inv h" and "set ps \<subseteq> set (live h lvl)"
  shows "calls i (concat (map lostEvents ps)) = carried i ps"
  using assms live_frames_ok calls_lost by (intro calls_concat) blast

lemma ReceivedAck_accepted:
  assumes "valid_ack ack" and "ReceivedAck h ack lvl t = Inr (h', es)"
  obtains sp where "getPacketNumberSpace h lvl = Inr sp" and "\<not> unsent sp ack" "\<not> acks_skipped sp ack"
  using assms(2) by (auto simp: ReceivedAck_def tryE_eq_Inr LargestAcked_valid [OF assms(1)] Validate_iff [OF assms(1)] unsent_def
      acks_skipped_def Let_def split: if_splits)

lemma ReceivedAck_accounted:
  assumes inv: "handler_inv h" and ack: "valid_ack ack" and run: "ReceivedAck h ack lvl t = Inr (h', es)"
  shows "handler_inv h' \<and> gens h' = gens h \<and> (all_live (paired i) h \<longrightarrow> accounted i h [] h' es [])"
proof -
  obtain sp where sp: "getPacketNumberSpace h lvl = Inr sp" and ok: "\<not> unsent sp ack" "\<not> acks_skipped sp ack"
    using run by (rule ReceivedAck_accepted [OF ack])
  define A where "A = newlyAcked h ack lvl"
  define L where "L = declaredLost (sp_rttStats h') (max (ps_largestAcked sp) (Largest (hd (AckRanges ack)))) t (leftOver h ack lvl)"
  have e: "handler_inv h'" "gens h' = gens h" "A = [] \<Longrightarrow> live h' = live h \<and> es = []"
    "A \<noteq> [] \<Longrightarrow> live h' = (live h)(lvl := without L (leftOver h ack lvl)) \<and> es = concat (map ackedEvents A) @ concat (map lostEvents L)"
    using ReceivedAck_run [OF inv sp ack ok, of t] run unfolding A_def L_def by (auto simp: Let_def split: if_splits)
  have sub: "set A \<subseteq> set (live h lvl)" "set L \<subseteq> set (live h lvl)" "set A \<inter> set L = {}"
    by (auto simp: A_def L_def newlyAcked_def leftOver_def declaredLost_def)
  have "without A (live h lvl) = leftOver h ack lvl"
    unfolding A_def newlyAcked_def leftOver_def using without_filter [OF live_facts(2) [OF inv]] by simp
  then have w: "without (A @ L) (live h lvl) = without L (leftOver h ack lvl)" by (simp flip: without_simps(2))
  have "inj_on pk_PacketNumber (set (live h lvl))" using live_facts(2) [OF inv] by (simp add: distinct_map)
  then have "pk_PacketNumber ` set A \<inter> pk_PacketNumber ` set L = {}" using sub by (metis image_empty inj_on_image_Int)
  moreover have "distinct (pns A)" "distinct (pns L)" using live_facts(2) [OF inv, of lvl]
    by (simp_all add: A_def L_def newlyAcked_def leftOver_def declaredLost_def distinct_map_filter)
  ultimately have some: "some_live h lvl (A @ L)" using sub by (simp add: some_live_def)
  have "accounted i h [] h' es []" if all: "all_live (paired i) h"
  proof (cases "A = []")
    case True
    then show ?thesis using e(3) all by (simp add: accounted_def all_live_def)
  next
    case False
    have "calls i (concat (map ackedEvents A)) = carried i A"
      using all sub(1) by (intro calls_concat) (auto simp: all_live_def calls_acked)
    then have "calls i es = carried i (A @ L)" using e(4) [OF False] calls_lost_live [OF inv sub(2), of i] by simp
    then show ?thesis using accounted_removal [OF inv some _ _ all] e(4) [OF False] w by simp
  qed
  then show ?thesis using e(1,2) by blast
qed

lemma accounted_send:
  assumes "live h' = (live h)(lvl := live h lvl @ sentAs lvl pn p)" and "lvl \<noteq> EncryptionUnspecified"
    and "all_live (paired i) h" and "paired i p"
  shows "accounted i h [p] h' [] []"
proof -
  have "carried i (sentAs lvl pn p) = carries i p" by (simp add: sentAs_def numbered_def carries_def)
  then have "inFlightSum (carries i) (live h') = inFlightSum (carries i) (live h) + carries i p"
    unfolding assms(1) inFlightSum_upd [OF assms(2)] by simp
  moreover have "all_live (paired i) h'"
    using assms(1,3,4) by (auto simp: all_live_def sentAs_def numbered_def paired_def)
  ultimately show ?thesis by (simp add: accounted_def)
qed

lemma gens_bare: "bare h' = bare h \<Longrightarrow> gens h' = gens h"
  by (simp add: gens_def [abs_def])

lemma numbers_below_mono: "numbers_below b h \<Longrightarrow> gens h' = gens h \<Longrightarrow> numbers_below (b + 2) h'"
  by (force simp: numbers_below_def)

lemma sp_step_run:
  assumes inv: "handler_inv h" and b: "numbers_below b h" "b < 2 ^ 61" and ok: "op_ok op"
    and run: "sp_step h op = Inr (h', es, ds)"
  shows "handler_inv h' \<and> numbers_below (b + 2) h' \<and>
    (all_live (paired i) h \<and> (\<forall>p \<in> set (sentBy op). paired i p) \<longrightarrow> accounted i h (sentBy op) h' es ds)"
proof (cases op)
  case (OpSend lvl num p)
  have s: "sendPacket h lvl num p = Inr h'" "es = []" "ds = []" using run OpSend by (auto simp: tryE_eq_Inr)
  then obtain sp where sp: "getPacketNumberSpace h lvl = Inr sp" by (auto simp: sendPacket_def PopPacketNumber_def tryE_eq_Inr)
  then have pk: "Peek (ps_pns sp) \<le> b" using b(1) gens_get [OF sp] by (simp add: numbers_below_def)
  obtain g where e: "handler_inv h'" "Peek g \<le> Peek (ps_pns sp) + 2" "gens h' = (gens h)(lvl \<mapsto> g)"
    "live h' = (live h)(lvl := live h lvl @ sentAs lvl (Peek (ps_pns sp)) p)"
    using sendPacket_run [OF inv sp, of p num] pk b(2) ok OpSend s(1) by auto
  have "numbers_below (b + 2) h'" using e(2,3) pk b(1) by (force simp: numbers_below_def)
  then show ?thesis using e(1) accounted_send [OF e(4) getPacketNumberSpace_level [OF sp]] s OpSend by auto
next
  case (OpAck ack lvl t)
  then have "ReceivedAck h ack lvl t = Inr (h', es)" "valid_ack ack" "ds = []" using run ok by (auto simp: tryE_eq_Inr)
  then show ?thesis using ReceivedAck_accounted [OF inv] numbers_below_mono [OF b(1)] OpAck by auto
next
  case (OpAlarm t)
  then have "OnLossDetectionTimeout h t = Inr (h', es)" "ds = []" using run by (auto simp: tryE_eq_Inr)
  then obtain lvl L where e: "some_live h lvl L" "es = concat (map lostEvents L)" "handler_inv h'" "gens h' = gens h"
    "live h' = (live h)(lvl := without L (live h lvl))" "ds = []"
    using OnLossDetectionTimeout_run [OF inv] by blast
  have "calls i es = carried i L" unfolding e(2) using e(1) calls_lost_live [OF inv] by (auto simp: some_live_def)
  then show ?thesis using e accounted_removal [OF inv e(1,5)] numbers_below_mono [OF b(1) e(4)] OpAlarm by auto
next
  case OpProbe
  then obtain f where q: "QueueProbePacket h = Inr (f, h', es)" "ds = []" using run by (auto simp: tryE_eq_Inr)
  show ?thesis
  proof (cases "probe h")
    case None
    then have "h' = h" "es = []" using QueueProbePacket_run [OF inv] q(1) by auto
    then show ?thesis using inv numbers_below_mono [OF b(1), of h] OpProbe q(2) by (simp add: accounted_def)
  next
    case (Some p)
    let ?l = "pk_EncryptionLevel p"
    have e: "p \<in> set (live h ?l)" "es = lostEvents p" "removes h ?l [p] h'" using QueueProbePacket_run [OF inv] q(1) Some by auto
    have s: "some_live h ?l [p]" using e(1) by (simp add: some_live_def)
    have c: "calls i es = carried i [p]" using calls_lost [OF live_frames_ok [OF inv e(1)]] e(2) by simp
    have r: "live h' = (live h)(?l := without [p] (live h ?l))" "handler_inv h'" "gens h' = gens h"
      using e(3) gens_bare unfolding removes_def by blast+
    show ?thesis using accounted_removal [OF inv s r(1) c] numbers_below_mono [OF b(1) r(3)] r(2) OpProbe q(2) by simp
  qed
next
  case (OpDropKeys lvl)
  then have d: "sp_DropPackets h lvl = Inr h'" "es = []" "ds = live h lvl" using run by (auto simp: tryE_eq_Inr)
  note r = sp_DropPackets_run [OF inv d(1)]
  have "numbers_below (b + 2) h'" using b(1) r(3) by (force simp: numbers_below_def)
  moreover have "accounted i h [] h' [] (live h lvl)" if "all_live (paired i) h"
    using that unfolding accounted_def all_live_def r(2) inFlightSum_upd [OF r(4)] by simp
  ultimately show ?thesis using r(1) d OpDropKeys by auto
qed

lemma sp_run_inv:
  assumes "handler_inv h" and "numbers_below b h" and "b + 2 * int (length ops) < 2 ^ 61" and "\<forall>op \<in> set ops. op_ok op"
    and "sp_run h ops = Inr (h', es, ds)"
  shows "handler_inv h' \<and> (all_live (paired i) h \<and> (\<forall>op \<in> set ops. \<forall>p \<in> set (sentBy op). paired i p) \<longrightarrow>
    accounted i h (concat (map sentBy ops)) h' es ds)"
  using assms
proof (induction ops arbitrary: h b es ds)
  case Nil
  then show ?case by (simp add: accounted_def)
next
  case (Cons op ops)
  obtain h1 es1 ds1 es2 ds2 where s: "sp_step h op = Inr (h1, es1, ds1)" "sp_run h1 ops = Inr (h', es2, ds2)"
    "es = es1 @ es2" "ds = ds1 @ ds2"
    using Cons.prems(5) by (auto simp: tryE_eq_Inr)
  have "b < 2 ^ 61" using Cons.prems(3) by simp
  then have 1: "handler_inv h1" "numbers_below (b + 2) h1"
    "all_live (paired i) h \<and> (\<forall>p \<in> set (sentBy op). paired i p) \<longrightarrow> accounted i h (sentBy op) h1 es1 ds1"
    using sp_step_run [OF Cons.prems(1,2) _ _ s(1)] Cons.prems(4) by auto
  have "handler_inv h' \<and> (all_live (paired i) h1 \<and> (\<forall>op \<in> set ops. \<forall>p \<in> set (sentBy op). paired i p) \<longrightarrow>
      accounted i h1 (concat (map sentBy ops)) h' es2 ds2)"
    using Cons.IH [OF 1(1,2) _ _ s(2)] Cons.prems(3,4) by simp
  then show ?case using 1(3) s(3,4) by (auto simp: accounted_def)
qed

lemma newPacketNumberSpace_ok:
  assumes "0 \<le> pn" "pn < 2 ^ 61"
  shows "space_ok lvl (newPacketNumberSpace pn num)" "Peek (ps_pns (newPacketNumberSpace pn num)) = pn"
proof -
  show p: "Peek (ps_pns (newPacketNumberSpace pn num)) = pn"
    by (simp add: newPacketNumberSpace_def newPacketNumberGenerator_def generateNewSkip_def Let_def Peek_def)
  have "generator_inv pn [] (newPacketNumberGenerator pn SkipPacketAveragePeriodLength num)"
    using assms by (intro newPacketNumberGenerator_inv) auto
  then show "space_ok lvl (newPacketNumberSpace pn num)" using assms p newSentPacketHistory_inv
    by (auto simp: space_ok_def newPacketNumberSpace_def InvalidPacketNumber_def)
qed

lemma handler_inv_new:
  assumes "0 \<le> pn" "pn < 2 ^ 61"
  shows "handler_inv (NewSentPacketHandler pn rtt n1 n2 n3)" "numbers_below pn (NewSentPacketHandler pn rtt n1 n2 n3)"
    "live (NewSentPacketHandler pn rtt n1 n2 n3) = (\<lambda>_. [])"
proof -
  let ?h = "NewSentPacketHandler pn rtt n1 n2 n3"
  have g: "getPacketNumberSpace ?h lvl = (case lvl of EncryptionInitial \<Rightarrow> Inr (newPacketNumberSpace pn n1)
      | EncryptionHandshake \<Rightarrow> Inr (newPacketNumberSpace 0 n2) | Encryption1RTT \<Rightarrow> Inr (newPacketNumberSpace 0 n3)
      | EncryptionUnspecified \<Rightarrow> Inl (Panic (''invalid packet number space'', [])))" for lvl
    by (cases lvl) (simp_all add: NewSentPacketHandler_def nilSpace_def)
  show l: "live ?h = (\<lambda>_. [])"
    by (rule ext) (simp add: live_def g newPacketNumberSpace_def newSentPacketHistory_inv split: EncryptionLevel.split)
  show "numbers_below pn ?h" using assms newPacketNumberSpace_ok(2) [of pn] newPacketNumberSpace_ok(2) [of 0]
    by (auto simp: numbers_below_def gens_def bare_def g split: EncryptionLevel.splits)
  have "space_ok lvl sp" if sp: "getPacketNumberSpace ?h lvl = Inr sp" for lvl sp
    using sp assms newPacketNumberSpace_ok(1) by (auto simp: g split: EncryptionLevel.splits)
  moreover have "bytesInFlight ?h = 0" "reno_inv (congestion ?h)" by (simp_all add: NewSentPacketHandler_def reno_inv_new)
  ultimately show "handler_inv ?h" by (simp add: handler_inv_def l inFlightSum_def)
qed

text \<open>A run with four packets: the first one is sent again as a probe, the third one is acknowledged, the others are in flight.\<close>

definition demo_packet :: "nat \<Rightarrow> Packet" where
  "demo_packet n = \<lparr>pk_PacketNumber = 0, pk_Frames = [\<lparr>ahf_Frame = None, ahf_OnLost = Some n, ahf_OnAcked = Some n\<rparr>],
     pk_LargestAcked = InvalidPacketNumber, pk_Length = 1000, pk_EncryptionLevel = Encryption1RTT,
     pk_SendTime = 1, includedInBytesInFlight = False\<rparr>"

definition demo_ack :: "PacketNumber \<Rightarrow> AckFrame" where
  "demo_ack pn = \<lparr>AckRanges = [\<lparr>Smallest = pn, Largest = pn\<rparr>], DelayTime = 0\<rparr>"

definition demo_ops :: "sp_op list" where
  "demo_ops = map (\<lambda>n. OpSend Encryption1RTT 0 (demo_packet n)) [1, 2, 3, 4] @ [OpProbe, OpAck (demo_ack 2) Encryption1RTT 21]"

definition demo_start :: sentPacketHandler where
  "demo_start = NewSentPacketHandler 0 NewRTTStats 2000 2000 2000"

lemma demo_result:
  "map_sum id (\<lambda>(h, es, ds). (bytesInFlight h, largestSent (sp_oneRTT h), hasOutstandingPackets h, ds)) (sp_run demo_start demo_ops) =
    Inr (2000, 3, True, [])"
  by code_simp

lemma demo_run:
  obtains h es where "sp_run (NewSentPacketHandler 0 NewRTTStats 2000 2000 2000) demo_ops = Inr (h, es, [])"
    and "bytesInFlight h = 2000" "largestSent (sp_oneRTT h) = 3" "hasOutstandingPackets h"
  using demo_result by (cases "sp_run demo_start demo_ops") (auto simp: demo_start_def)

lemma demo_ack_valid: "0 \<le> pn \<Longrightarrow> pn < 2 ^ 62 \<Longrightarrow> valid_ack (demo_ack pn)"
  by (simp add: valid_ack_def demo_ack_def ack_chain_def pn_ok_def)

lemma demo_ok: "0 + 2 * int (length demo_ops) < 2 ^ 61" "\<forall>op \<in> set demo_ops. op_ok op"
    "\<forall>op \<in> set demo_ops. \<forall>p \<in> set (sentBy op). paired i p" "carried 3 (concat (map sentBy demo_ops)) = 1"
  by (auto simp: demo_ops_def demo_ack_valid frames_ok_def demo_packet_def paired_def carries_def)



text \<open>C34. Every frame is reported once: a callback that is both the \<open>OnLost\<close> and the \<open>OnAcked\<close> of its frames is called as
  often as these frames were sent, less those that are in flight and those that were dropped with their keys.\<close>

theorem frames_reported_once:
  assumes "0 \<le> pn" and "pn + 2 * int (length ops) < 2 ^ 61" and "\<forall>op \<in> set ops. op_ok op"
    and "sp_run (NewSentPacketHandler pn rtt n1 n2 n3) ops = Inr (h, es, ds)"
    and "\<forall>op \<in> set ops. \<forall>p \<in> set (sentBy op). paired i p"
  shows "calls i es + carried i ds + inFlightSum (carries i) (live h) = carried i (concat (map sentBy ops))"
proof -
  have "pn < 2 ^ 61" using assms(2) by simp
  note new = handler_inv_new [OF assms(1) this, of rtt n1 n2 n3]
  have "accounted i (NewSentPacketHandler pn rtt n1 n2 n3) (concat (map sentBy ops)) h es ds"
    using sp_run_inv [OF new(1,2) assms(2-4), of i] assms(5) new(3) by (simp add: all_live_def)
  then show ?thesis by (simp add: accounted_def new(3) inFlightSum_def)
qed

theorem frames_reported_once_witness:
  "\<exists>h es. sp_run (NewSentPacketHandler 0 NewRTTStats 2000 2000 2000) demo_ops = Inr (h, es, []) \<and>
     calls 3 es + inFlightSum (carries 3) (live h) = 1"
proof (rule demo_run)
  fix h es assume run: "sp_run (NewSentPacketHandler 0 NewRTTStats 2000 2000 2000) demo_ops = Inr (h, es, [])"
  then show ?thesis using frames_reported_once [OF _ demo_ok(1,2) run demo_ok(3), of 3] demo_ok(4) by auto
qed

text \<open>C35. An ACK frame for a level whose keys are there is refused exactly if it acknowledges a packet that was not sent or one
  of the last ten skipped ones, with the errors of the protocol. Otherwise the packets it acknowledges leave the
  history and their frames are reported; and if there was one, the packets that are three behind the largest
  acknowledged one or older than the loss delay leave it as well, reported as lost.\<close>

theorem ReceivedAck_correct:
  assumes "0 \<le> pn" and "pn + 2 * int (length ops) < 2 ^ 61" and "\<forall>op \<in> set ops. op_ok op"
    and "sp_run (NewSentPacketHandler pn rtt n1 n2 n3) ops = Inr (h, es, ds)"
    and "getPacketNumberSpace h lvl = Inr sp" and "valid_ack ack"
  shows "(\<forall>e. ReceivedAck h ack lvl t = Inl e \<longleftrightarrow>
      unsent sp ack \<and> e = qerr_Error ProtocolViolation (''Received ACK for an unsent packet'', []) \<or>
      \<not> unsent sp ack \<and> acks_skipped sp ack \<and> e = qerr_Error ProtocolViolation (''Received an ACK for a skipped packet number'', [])) \<and>
    (\<forall>h' es. ReceivedAck h ack lvl t = Inr (h', es) \<longrightarrow>
      (if newlyAcked h ack lvl = [] then live h' = live h \<and> es = []
       else let L = declaredLost (sp_rttStats h') (max (ps_largestAcked sp) (Largest (hd (AckRanges ack)))) t (leftOver h ack lvl) in
         live h' = (live h)(lvl := without L (leftOver h ack lvl)) \<and>
         es = concat (map ackedEvents (newlyAcked h ack lvl)) @ concat (map lostEvents L)))"
proof -
  have "pn < 2 ^ 61" using assms(2) by simp
  note new = handler_inv_new [OF assms(1) this]
  have inv: "handler_inv h" using sp_run_inv [OF new(1,2) assms(2-4)] by blast
  consider "unsent sp ack" | "\<not> unsent sp ack" "acks_skipped sp ack" | "\<not> unsent sp ack" "\<not> acks_skipped sp ack" by blast
  then show ?thesis
  proof cases
    case 1
    then have "ReceivedAck h ack lvl t = Inl (qerr_Error ProtocolViolation (''Received ACK for an unsent packet'', []))"
      by (simp add: ReceivedAck_def assms(5) LargestAcked_valid [OF assms(6)] unsent_def)
    then show ?thesis using 1 by auto
  next
    case 2
    then have "ReceivedAck h ack lvl t = Inl (qerr_Error ProtocolViolation (''Received an ACK for a skipped packet number'', []))"
      using Validate_iff [OF assms(6)] by (auto simp: ReceivedAck_def assms(5) LargestAcked_valid [OF assms(6)] unsent_def acks_skipped_def Let_def)
    then show ?thesis using 2 by auto
  next
    case 3
    then show ?thesis using ReceivedAck_run [OF inv assms(5,6) 3, of t] by (auto simp: Let_def)
  qed
qed

theorem ReceivedAck_correct_witness:
  "\<exists>h es. sp_run (NewSentPacketHandler 0 NewRTTStats 2000 2000 2000) demo_ops = Inr (h, es, []) \<and>
     ReceivedAck h (demo_ack 4) Encryption1RTT 30 = Inl (qerr_Error ProtocolViolation (''Received ACK for an unsent packet'', []))"
proof (rule demo_run)
  fix h es assume run: "sp_run (NewSentPacketHandler 0 NewRTTStats 2000 2000 2000) demo_ops = Inr (h, es, [])"
    and sent: "largestSent (sp_oneRTT h) = 3"
  have "getPacketNumberSpace h Encryption1RTT = Inr (sp_oneRTT h)" "valid_ack (demo_ack 4)" by (simp_all add: demo_ack_valid)
  note ReceivedAck_correct [OF _ demo_ok(1,2) run this, of 30]
  moreover have "unsent (sp_oneRTT h) (demo_ack 4)" by (simp add: unsent_def sent demo_ack_def)
  ultimately show ?thesis using run by auto
qed

section \<open>The alarm\<close>

definition armed :: "sentPacketHandler \<Rightarrow> bool" where
  "armed h \<longleftrightarrow> (hasOutstandingPackets h \<longrightarrow>
     alarm h = Time_Add (lastSentAckElicitingPacketTime h) (i64 (push_bit (unat (ptoCount h)) (PTO (sp_rttStats h)))))"

lemma hasOutstandingPackets_live: "hasOutstandingPackets h \<longleftrightarrow> (\<exists>lvl. live h lvl \<noteq> [])"
proof -
  have o: "HasOutstandingPackets hist \<longleftrightarrow> logged hist \<noteq> []" for hist by (simp add: HasOutstandingPackets_def logged_def)
  have "(\<exists>lvl. live h lvl \<noteq> []) \<longleftrightarrow> live h EncryptionInitial \<noteq> [] \<or> live h EncryptionHandshake \<noteq> [] \<or> live h Encryption1RTT \<noteq> []"
  proof
    assume "\<exists>lvl. live h lvl \<noteq> []"
    then obtain lvl where "live h lvl \<noteq> []" by blast
    then show "live h EncryptionInitial \<noteq> [] \<or> live h EncryptionHandshake \<noteq> [] \<or> live h Encryption1RTT \<noteq> []"
      by (cases lvl) (simp_all add: live_def)
  qed blast
  then show ?thesis
    by (auto simp: hasOutstandingPackets_def hasOutstandingCryptoPackets_def o live_def nilSpace_def split: option.splits)
qed

lemma armed_set [simp]: "armed (setLossDetectionTimer h)"
  by (auto simp: armed_def setLossDetectionTimer_def Let_def hasOutstandingPackets_live)

lemma armed_fewer: "armed h \<Longrightarrow> timers h' = timers h \<Longrightarrow> \<forall>lvl. live h lvl = [] \<longrightarrow> live h' lvl = [] \<Longrightarrow> armed h'"
  by (auto simp: armed_def timers_def hasOutstandingPackets_live)

lemma armed_removes: "armed h \<Longrightarrow> removes h lvl ps h' \<Longrightarrow> armed h'"
  by (rule armed_fewer) (auto simp: removes_def without_def)

lemma sendPacket_timers:
  assumes "sendPacket h lvl num p = Inr h'"
  shows "if pk_Frames p = [] then timers h' = timers h else \<exists>h0. h' = setLossDetectionTimer h0"
proof -
  obtain pn h1 where pop: "PopPacketNumber h lvl num = Inr (pn, h1)" and sent: "SentPacket h1 (numbered lvl pn p) = Inr h'"
    using assms by (auto simp: sendPacket_def tryE_eq_Inr)
  have "timers h1 = timers h" using pop by (auto simp: PopPacketNumber_def tryE_eq_Inr case_prod_unfold)
  moreover have "timers (h2\<lparr>congestion := c, nextSendTime := t\<rparr>) = timers h2" for h2 c t by (simp add: timers_def)
  ultimately show ?thesis
    using sent by (auto simp: SentPacket_def sentPacketImpl_def numbered_def tryE_eq_Inr Let_def)
qed

lemma armed_step:
  assumes inv: "handler_inv h" and b: "numbers_below b h" "b < 2 ^ 61" and ok: "op_ok op"
    and run: "sp_step h op = Inr (h', es, ds)" and armed: "armed h"
  shows "armed h'"
proof (cases op)
  case (OpSend lvl num p)
  then have s: "sendPacket h lvl num p = Inr h'" using run by (auto simp: tryE_eq_Inr)
  show ?thesis
  proof (cases "pk_Frames p = []")
    case True
    obtain sp where sp: "getPacketNumberSpace h lvl = Inr sp" using s by (auto simp: sendPacket_def PopPacketNumber_def tryE_eq_Inr)
    have "Peek (ps_pns sp) < 2 ^ 61" using b gens_get [OF sp] by (force simp: numbers_below_def)
    then have "live h' = (live h)(lvl := live h lvl @ sentAs lvl (Peek (ps_pns sp)) p)"
      using sendPacket_run [OF inv sp, of p num] ok OpSend s by auto
    then show ?thesis using sendPacket_timers [OF s] armed_fewer [OF armed] True by (simp add: sentAs_def)
  qed (use sendPacket_timers [OF s] in auto)
next
  case (OpAck ack lvl t)
  then have r: "ReceivedAck h ack lvl t = Inr (h', es)" and ack: "valid_ack ack" using run ok by (auto simp: tryE_eq_Inr)
  obtain sp where sp: "getPacketNumberSpace h lvl = Inr sp" "\<not> unsent sp ack" "\<not> acks_skipped sp ack"
    using r by (rule ReceivedAck_accepted [OF ack])
  show ?thesis using ReceivedAck_run [OF inv sp(1) ack sp(2,3), of t] r armed_fewer [OF armed, of h'] by (auto simp: Let_def split: if_splits)
next
  case (OpAlarm t)
  then show ?thesis using run by (auto simp: OnLossDetectionTimeout_def tryE_eq_Inr)
next
  case OpProbe
  then obtain f where q: "QueueProbePacket h = Inr (f, h', es)" using run by (auto simp: tryE_eq_Inr)
  show ?thesis using QueueProbePacket_run [OF inv] q armed armed_removes [OF armed] by (auto split: option.splits)
next
  case (OpDropKeys lvl)
  then have d: "sp_DropPackets h lvl = Inr h'" using run by (auto simp: tryE_eq_Inr)
  then have "timers h' = timers h" by (auto simp: sp_DropPackets_def tryE_eq_Inr Let_def timers_def split: if_splits)
  then show ?thesis using sp_DropPackets_run(2) [OF inv d] armed_fewer [OF armed] by simp
qed

lemma armed_run:
  assumes "handler_inv h" and "numbers_below b h" and "b + 2 * int (length ops) < 2 ^ 61" and "\<forall>op \<in> set ops. op_ok op"
    and "sp_run h ops = Inr (h', es, ds)" and "armed h"
  shows "armed h'"
  using assms
proof (induction ops arbitrary: h b es ds)
  case (Cons op ops)
  obtain h1 es1 ds1 es2 ds2 where s: "sp_step h op = Inr (h1, es1, ds1)" "sp_run h1 ops = Inr (h', es2, ds2)"
    using Cons.prems(5) by (auto simp: tryE_eq_Inr)
  have b: "b < 2 ^ 61" "op_ok op" using Cons.prems(3,4) by auto
  have "handler_inv h1" "numbers_below (b + 2) h1" using sp_step_run [OF Cons.prems(1,2) b s(1)] by auto
  moreover have "armed h1" by (rule armed_step [OF Cons.prems(1,2) b s(1) Cons.prems(6)])
  ultimately show ?case using Cons.IH [of h1 "b + 2"] s(2) Cons.prems(3,4) by simp
qed simp



text \<open>The loss times of the spaces have no effect on the alarm: the time at which a packet is to be declared lost is overwritten
  by the probe timeout.\<close>

theorem loss_time_never_armed:
  "GetLossDetectionTimeout (setLossDetectionTimer (h\<lparr>sp_oneRTT := (sp_oneRTT h)\<lparr>lossTime := lt\<rparr>\<rparr>)) =
   GetLossDetectionTimeout (setLossDetectionTimer h)"
  by (simp add: GetLossDetectionTimeout_def setLossDetectionTimer_def hasOutstandingPackets_def hasOutstandingCryptoPackets_def Let_def)

end
