(* ===== verification/LinkedList.thy ===== *)
theory LinkedList
  imports QPrelude
begin

text \<open>
  The doubly linked list of \<open>core/utils/linkedlist/linkedlist.go\<close>, of which the lists of byte intervals, packet intervals
  and packets are generated copies. Pointers are explicit: a list \<open>l\<close> has a sentinel \<open>Root l\<close>, and elements are numbered in the order
  in which they are allocated. A heap has one function per field.

  The lemmas relate the heap to an abstract state that is just a list of elements for each list, and show that all
  operations refine the evident operations on lists, without a nil pointer ever being followed. The other theories use lists
  where the code uses linked lists.
\<close>

section \<open>The heap\<close>

datatype ptr = Root nat | Elem nat

record 'a lheap =
  l_next :: "ptr \<Rightarrow> ptr option"
  l_prev :: "ptr \<Rightarrow> ptr option"
  l_list :: "nat \<Rightarrow> nat option"
  l_value :: "nat \<Rightarrow> 'a option"
  l_len :: "nat \<Rightarrow> int"
  l_fresh :: nat

definition emptyHeap :: "'a lheap" where
  "emptyHeap = \<lparr>l_next = \<lambda>_. None, l_prev = \<lambda>_. None, l_list = \<lambda>_. None, l_value = \<lambda>_. None, l_len = \<lambda>_. 0, l_fresh = 0\<rparr>"

definition nilPointer :: go_error where
  "nilPointer = Panic (''invalid memory address or nil pointer dereference'', [])"

section \<open>The operations\<close>

definition elem_Next :: "'a lheap \<Rightarrow> nat \<Rightarrow> ptr option" where
  "elem_Next h e = (case l_list h e of Some l \<Rightarrow> if l_next h (Elem e) \<noteq> Some (Root l) then l_next h (Elem e) else None | None \<Rightarrow> None)"

definition elem_Prev :: "'a lheap \<Rightarrow> nat \<Rightarrow> ptr option" where
  "elem_Prev h e = (case l_list h e of Some l \<Rightarrow> if l_prev h (Elem e) \<noteq> Some (Root l) then l_prev h (Elem e) else None | None \<Rightarrow> None)"

definition list_Init :: "'a lheap \<Rightarrow> nat \<Rightarrow> 'a lheap" where
  "list_Init h l = h\<lparr>l_next := (l_next h)(Root l := Some (Root l)), l_prev := (l_prev h)(Root l := Some (Root l)), l_len := (l_len h)(l := 0)\<rparr>"

definition list_Len :: "'a lheap \<Rightarrow> nat \<Rightarrow> int" where
  "list_Len h l = l_len h l"

definition list_Front :: "'a lheap \<Rightarrow> nat \<Rightarrow> ptr option" where
  "list_Front h l = (if l_len h l = 0 then None else l_next h (Root l))"

definition list_Back :: "'a lheap \<Rightarrow> nat \<Rightarrow> ptr option" where
  "list_Back h l = (if l_len h l = 0 then None else l_prev h (Root l))"

definition lazyInit :: "'a lheap \<Rightarrow> nat \<Rightarrow> 'a lheap" where
  "lazyInit h l = (if l_next h (Root l) = None then list_Init h l else h)"

definition list_insert :: "'a lheap \<Rightarrow> nat \<Rightarrow> nat \<Rightarrow> ptr option \<Rightarrow> go_error + 'a lheap" where
  "list_insert h l e at =
    (case at of
       None \<Rightarrow> Inl nilPointer
     | Some at \<Rightarrow>
         (case l_next h at of
            None \<Rightarrow> Inl nilPointer
          | Some n \<Rightarrow>
              let h = h\<lparr>l_next := (l_next h)(at := Some (Elem e))\<rparr>;
                  h = h\<lparr>l_prev := (l_prev h)(Elem e := Some at)\<rparr>;
                  h = h\<lparr>l_next := (l_next h)(Elem e := Some n)\<rparr>;
                  h = h\<lparr>l_prev := (l_prev h)(n := Some (Elem e))\<rparr>;
                  h = h\<lparr>l_list := (l_list h)(e := Some l)\<rparr>
              in Inr (h\<lparr>l_len := (l_len h)(l := i64 (l_len h l + 1))\<rparr>)))"

definition insertValue :: "'a lheap \<Rightarrow> nat \<Rightarrow> 'a \<Rightarrow> ptr option \<Rightarrow> go_error + nat \<times> 'a lheap" where
  "insertValue h l v at =
    (let e = l_fresh h;
         h = h\<lparr>l_fresh := Suc e, l_value := (l_value h)(e := Some v), l_next := (l_next h)(Elem e := None), l_prev := (l_prev h)(Elem e := None),
               l_list := (l_list h)(e := None)\<rparr>
     in tryE (list_insert h l e at) (\<lambda>h. Inr (e, h)))"

definition list_remove :: "'a lheap \<Rightarrow> nat \<Rightarrow> nat \<Rightarrow> go_error + 'a lheap" where
  "list_remove h l e =
    (case l_prev h (Elem e) of
       None \<Rightarrow> Inl nilPointer
     | Some p \<Rightarrow>
         let h = h\<lparr>l_next := (l_next h)(p := l_next h (Elem e))\<rparr> in
         (case l_next h (Elem e) of
            None \<Rightarrow> Inl nilPointer
          | Some n \<Rightarrow>
              let h = h\<lparr>l_prev := (l_prev h)(n := l_prev h (Elem e))\<rparr>;
                  h = h\<lparr>l_next := (l_next h)(Elem e := None)\<rparr>;
                  h = h\<lparr>l_prev := (l_prev h)(Elem e := None)\<rparr>;
                  h = h\<lparr>l_list := (l_list h)(e := None)\<rparr>
              in Inr (h\<lparr>l_len := (l_len h)(l := i64 (l_len h l - 1))\<rparr>)))"

definition list_Remove :: "'a lheap \<Rightarrow> nat \<Rightarrow> nat \<Rightarrow> go_error + 'a option \<times> 'a lheap" where
  "list_Remove h l e =
    (if l_list h e = Some l then tryE (list_remove h l e) (\<lambda>h. Inr (l_value h e, h)) else Inr (l_value h e, h))"

definition PushFront :: "'a lheap \<Rightarrow> nat \<Rightarrow> 'a \<Rightarrow> go_error + nat \<times> 'a lheap" where
  "PushFront h l v = (let h = lazyInit h l in insertValue h l v (Some (Root l)))"

definition PushBack :: "'a lheap \<Rightarrow> nat \<Rightarrow> 'a \<Rightarrow> go_error + nat \<times> 'a lheap" where
  "PushBack h l v = (let h = lazyInit h l in insertValue h l v (l_prev h (Root l)))"

definition InsertBefore :: "'a lheap \<Rightarrow> nat \<Rightarrow> 'a \<Rightarrow> nat \<Rightarrow> go_error + nat option \<times> 'a lheap" where
  "InsertBefore h l v mark =
    (if l_list h mark \<noteq> Some l then Inr (None, h)
     else tryE (insertValue h l v (l_prev h (Elem mark))) (\<lambda>(e, h). Inr (Some e, h)))"

definition InsertAfter :: "'a lheap \<Rightarrow> nat \<Rightarrow> 'a \<Rightarrow> nat \<Rightarrow> go_error + nat option \<times> 'a lheap" where
  "InsertAfter h l v mark =
    (if l_list h mark \<noteq> Some l then Inr (None, h)
     else tryE (insertValue h l v (Some (Elem mark))) (\<lambda>(e, h). Inr (Some e, h)))"

definition MoveToFront :: "'a lheap \<Rightarrow> nat \<Rightarrow> nat \<Rightarrow> go_error + 'a lheap" where
  "MoveToFront h l e =
    (if l_list h e \<noteq> Some l \<or> l_next h (Root l) = Some (Elem e) then Inr h
     else tryE (list_remove h l e) (\<lambda>h. list_insert h l e (Some (Root l))))"

definition MoveToBack :: "'a lheap \<Rightarrow> nat \<Rightarrow> nat \<Rightarrow> go_error + 'a lheap" where
  "MoveToBack h l e =
    (if l_list h e \<noteq> Some l \<or> l_prev h (Root l) = Some (Elem e) then Inr h
     else tryE (list_remove h l e) (\<lambda>h. list_insert h l e (l_prev h (Root l))))"

definition MoveBefore :: "'a lheap \<Rightarrow> nat \<Rightarrow> nat \<Rightarrow> nat \<Rightarrow> go_error + 'a lheap" where
  "MoveBefore h l e mark =
    (if l_list h e \<noteq> Some l \<or> e = mark \<or> l_list h mark \<noteq> Some l then Inr h
     else tryE (list_remove h l e) (\<lambda>h. list_insert h l e (l_prev h (Elem mark))))"

definition MoveAfter :: "'a lheap \<Rightarrow> nat \<Rightarrow> nat \<Rightarrow> nat \<Rightarrow> go_error + 'a lheap" where
  "MoveAfter h l e mark =
    (if l_list h e \<noteq> Some l \<or> e = mark \<or> l_list h mark \<noteq> Some l then Inr h
     else tryE (list_remove h l e) (\<lambda>h. list_insert h l e (Some (Elem mark))))"

text \<open>The loops of the last two operations, with \<open>i\<close> rounds to go.\<close>

fun pushBackLoop :: "'a lheap \<Rightarrow> nat \<Rightarrow> nat \<Rightarrow> ptr option \<Rightarrow> go_error + 'a lheap" where
  "pushBackLoop h l 0 p = Inr h"
| "pushBackLoop h l (Suc i) (Some (Elem e)) =
    (case l_value h e of
       None \<Rightarrow> Inl nilPointer
     | Some v \<Rightarrow> tryE (insertValue h l v (l_prev h (Root l))) (\<lambda>(_, h). pushBackLoop h l i (elem_Next h e)))"
| "pushBackLoop h l (Suc i) p = Inl nilPointer"

fun pushFrontLoop :: "'a lheap \<Rightarrow> nat \<Rightarrow> nat \<Rightarrow> ptr option \<Rightarrow> go_error + 'a lheap" where
  "pushFrontLoop h l 0 p = Inr h"
| "pushFrontLoop h l (Suc i) (Some (Elem e)) =
    (case l_value h e of
       None \<Rightarrow> Inl nilPointer
     | Some v \<Rightarrow> tryE (insertValue h l v (Some (Root l))) (\<lambda>(_, h). pushFrontLoop h l i (elem_Prev h e)))"
| "pushFrontLoop h l (Suc i) p = Inl nilPointer"

definition PushBackList :: "'a lheap \<Rightarrow> nat \<Rightarrow> nat \<Rightarrow> go_error + 'a lheap" where
  "PushBackList h l other = (let h = lazyInit h l in pushBackLoop h l (nat (list_Len h other)) (list_Front h other))"

definition PushFrontList :: "'a lheap \<Rightarrow> nat \<Rightarrow> nat \<Rightarrow> go_error + 'a lheap" where
  "PushFrontList h l other = (let h = lazyInit h l in pushFrontLoop h l (nat (list_Len h other)) (list_Back h other))"

section \<open>The heap as lists\<close>

fun linked :: "'a lheap \<Rightarrow> ptr list \<Rightarrow> bool" where
  "linked h (x # y # zs) \<longleftrightarrow> l_next h x = Some y \<and> l_prev h y = Some x \<and> linked h (y # zs)"
| "linked h _ \<longleftrightarrow> True"

definition ring :: "nat \<Rightarrow> nat list \<Rightarrow> ptr list" where
  "ring l es = Root l # map Elem es @ [Root l]"

text \<open>A list that was never used has not been initialised.\<close>

definition list_ok :: "'a lheap \<Rightarrow> nat \<Rightarrow> nat list \<Rightarrow> bool" where
  "list_ok h l es \<longleftrightarrow> l_len h l = int (length es) \<and> (linked h (ring l es) \<or> es = [] \<and> l_next h (Root l) = None)"

definition refines :: "'a lheap \<Rightarrow> (nat \<Rightarrow> nat list) \<Rightarrow> bool" where
  "refines h A \<longleftrightarrow> (\<forall>l. list_ok h l (A l) \<and> distinct (A l)) \<and> (\<forall>e l. l_list h e = Some l \<longleftrightarrow> e \<in> set (A l)) \<and>
     (\<forall>l. \<forall>e \<in> set (A l). e < l_fresh h \<and> l_value h e \<noteq> None)"

lemma linked_append: "linked h (xs @ y # zs) \<longleftrightarrow> linked h (xs @ [y]) \<and> linked h (y # zs)"
proof (induction xs)
  case (Cons x xs)
  then show ?case by (cases xs) auto
qed simp

text \<open>Only the next pointers of all but the last and the previous pointers of all but the first matter.\<close>

lemma linked_cong:
  assumes "\<forall>x \<in> set (butlast ps). l_next h' x = l_next h x" and "\<forall>x \<in> set (tl ps). l_prev h' x = l_prev h x"
  shows "linked h' ps = linked h ps"
  using assms by (induction h ps rule: linked.induct) auto

lemma refines_disjoint: "refines h A \<Longrightarrow> l \<noteq> l2 \<Longrightarrow> set (A l) \<inter> set (A l2) = {}"
  unfolding refines_def by (metis disjoint_iff option.inject)

lemma refines_distinct: "refines h A \<Longrightarrow> distinct (A l)"
  by (simp add: refines_def)

lemma refines_member: "refines h A \<Longrightarrow> l_list h e = Some l \<longleftrightarrow> e \<in> set (A l)"
  unfolding refines_def by blast

lemma refines_alloc: "refines h A \<Longrightarrow> e \<in> set (A l) \<Longrightarrow> e < l_fresh h \<and> l_value h e \<noteq> None"
  unfolding refines_def by blast

lemma refines_linked: "refines h A \<Longrightarrow> l_next h (Root l) \<noteq> None \<or> A l \<noteq> [] \<Longrightarrow> linked h (ring l (A l))"
  unfolding refines_def list_ok_def by auto

lemma last_ring: "Root l # map Elem xs = butlast (Root l # map Elem xs) @ [last (Root l # map Elem xs)]"
  by simp

lemma ring_split: "ring l (xs @ ys) = (Root l # map Elem xs) @ map Elem ys @ [Root l]"
  by (simp add: ring_def)

lemma snoc_ptr:
  obtains us at where "Root l # map Elem xs = us @ [at]" "at \<notin> set us \<or> \<not> distinct xs" "at = Root l \<longrightarrow> us = []" "at = Root l \<or> at \<in> Elem ` set xs"
    "set us \<subseteq> insert (Root l) (Elem ` set xs)" "Root l \<notin> set (tl (us @ [at]))" "set (tl (us @ [at])) = Elem ` set xs"
proof (cases xs rule: rev_cases)
  case Nil
  then show ?thesis using that [of "[]" "Root l"] by simp
next
  case (snoc init e)
  then show ?thesis by (intro that [of "Root l # map Elem init" "Elem e"]) auto
qed

lemma cons_ptr:
  obtains n vs where "map Elem ys @ [Root l] = n # vs" "n \<notin> set vs \<or> \<not> distinct ys" "n = Root l \<or> n \<in> Elem ` set ys"
    "set (butlast (n # vs)) = Elem ` set ys" "set vs \<subseteq> insert (Root l) (Elem ` set ys)"
proof (cases ys)
  case Nil
  then show ?thesis using that [of "Root l" "[]"] by simp
next
  case (Cons e rest)
  then show ?thesis by (intro that [of "Elem e" "map Elem rest @ [Root l]"]) (auto simp: butlast_append)
qed

lemma ring_other:
  assumes "refines h A" and "l2 \<noteq> l" and "\<forall>p. p \<noteq> Root l \<and> p \<notin> Elem ` insert e (set (A l)) \<longrightarrow> l_next h' p = l_next h p \<and> l_prev h' p = l_prev h p"
    and "e \<notin> set (A l2)"
  shows "linked h' (ring l2 (A l2)) = linked h (ring l2 (A l2)) \<and> l_next h' (Root l2) = l_next h (Root l2)"
proof -
  have "x \<noteq> Root l \<and> x \<notin> Elem ` insert e (set (A l))" if "x \<in> set (ring l2 (A l2))" for x
    using that assms(2,4) refines_disjoint [OF assms(1,2)] by (auto simp: ring_def)
  then have "\<forall>x \<in> set (ring l2 (A l2)). l_next h' x = l_next h x \<and> l_prev h' x = l_prev h x" using assms(3) by blast
  then show ?thesis using assms(2,3) by (intro conjI linked_cong) (auto dest: in_set_butlastD list.set_sel(2) [rotated] simp: ring_def)
qed

lemma insert_ok:
  assumes r: "refines h A" and A: "A l = xs @ ys" and init: "l_next h (Root l) \<noteq> None"
    and e: "l_list h e = None" "e < l_fresh h" "l_value h e \<noteq> None" and small: "length (A l) < 2 ^ 62"
  shows "\<exists>h'. list_insert h l e (Some (last (Root l # map Elem xs))) = Inr h' \<and> refines h' (A(l := xs @ e # ys)) \<and>
    l_value h' = l_value h \<and> l_fresh h' = l_fresh h \<and> l_next h' (Root l) \<noteq> None"
proof -
  have lk: "linked h (ring l (xs @ ys))" using refines_linked [OF r] init A by metis
  have e_new: "e \<notin> set (A k)" for k using r e(1) unfolding refines_def by (metis option.distinct(1))
  have dist: "distinct xs" "distinct ys" "set xs \<inter> set ys = {}" using refines_distinct [OF r, of l] unfolding A by auto
  obtain us at where us: "Root l # map Elem xs = us @ [at]" "at \<notin> set us" "at = Root l \<longrightarrow> us = []" "at = Root l \<or> at \<in> Elem ` set xs"
    "set us \<subseteq> insert (Root l) (Elem ` set xs)" "Root l \<notin> set (tl (us @ [at]))" "set (tl (us @ [at])) = Elem ` set xs"
    using snoc_ptr [of l xs] dist(1) by metis
  obtain n vs where vs: "map Elem ys @ [Root l] = n # vs" "n \<notin> set vs" "n = Root l \<or> n \<in> Elem ` set ys"
    "set (butlast (n # vs)) = Elem ` set ys" "set vs \<subseteq> insert (Root l) (Elem ` set ys)"
    using cons_ptr [of ys l] dist(2) by metis
  have old: "ring l (xs @ ys) = us @ at # n # vs" unfolding ring_split us(1) vs(1) by simp
  have lk1: "linked h (us @ [at])" "linked h (n # vs)" "l_next h at = Some n" using lk linked_append [of h us at "n # vs"] unfolding old by auto
  have at: "last (Root l # map Elem xs) = at" unfolding us(1) by simp
  define h' where "h' = h\<lparr>l_next := (l_next h)(at := Some (Elem e), Elem e := Some n), l_prev := (l_prev h)(Elem e := Some at, n := Some (Elem e)),
      l_list := (l_list h)(e := Some l), l_len := (l_len h)(l := i64 (l_len h l + 1))\<rparr>"
  have run: "list_insert h l e (Some at) = Inr h'" using lk1(3) by (simp add: list_insert_def h'_def)
  have ne: "Elem e \<noteq> at" "Elem e \<noteq> n" "Elem e \<notin> set us" "Elem e \<notin> set vs" using us vs e_new [of l] A by auto
  have "linked h' (us @ [at])"
  proof (subst linked_cong [of _ h' h])
    show "\<forall>x \<in> set (butlast (us @ [at])). l_next h' x = l_next h x" using us(2) ne by (auto simp: h'_def)
    show "\<forall>x \<in> set (tl (us @ [at])). l_prev h' x = l_prev h x" unfolding us(7) using vs(3) dist(3) e_new [of l] A by (auto simp: h'_def)
  qed (rule lk1)
  moreover have "linked h' (n # vs)"
  proof (subst linked_cong [of _ h' h])
    show "\<forall>x \<in> set (butlast (n # vs)). l_next h' x = l_next h x" unfolding vs(4) using us(4) dist(3) e_new [of l] A by (auto simp: h'_def)
    show "\<forall>x \<in> set (tl (n # vs)). l_prev h' x = l_prev h x" using vs(2) ne by (auto simp: h'_def)
  qed (rule lk1)
  ultimately have "linked h' (us @ at # Elem e # n # vs)" using ne linked_append [of h' us at "Elem e # n # vs"] by (simp add: h'_def)
  moreover have "ring l (xs @ e # ys) = us @ at # Elem e # n # vs" using us(1) vs(1) by (simp add: ring_def)
  ultimately have ring: "linked h' (ring l (xs @ e # ys))" by simp
  have "list_ok h' k ((A(l := xs @ e # ys)) k)" for k
  proof (cases "k = l")
    case True
    have "l_len h l = int (length (A l))" using r by (simp add: refines_def list_ok_def)
    then show ?thesis using True ring small A by (simp add: list_ok_def h'_def)
  next
    case False
    have "\<forall>p. p \<noteq> Root l \<and> p \<notin> Elem ` insert e (set (A l)) \<longrightarrow> l_next h' p = l_next h p \<and> l_prev h' p = l_prev h p"
      using us(4) vs(3) A by (auto simp: h'_def)
    then have "linked h' (ring k (A k)) = linked h (ring k (A k)) \<and> l_next h' (Root k) = l_next h (Root k)"
      by (rule ring_other [OF r False _ e_new])
    moreover have "list_ok h k (A k)" using r by (simp add: refines_def)
    ultimately show ?thesis using False by (auto simp: list_ok_def h'_def)
  qed
  moreover have "distinct ((A(l := xs @ e # ys)) k)" for k using refines_distinct [OF r] dist A e_new [of l] by (cases "k = l") auto
  moreover have "l_list h' x = Some k \<longleftrightarrow> x \<in> set ((A(l := xs @ e # ys)) k)" for x k
  proof (cases "x = e")
    case True
    then show ?thesis using e_new [of k] by (auto simp: h'_def)
  next
    case False
    then have "l_list h' x = Some k \<longleftrightarrow> x \<in> set (A k)" using refines_member [OF r] by (simp add: h'_def)
    then show ?thesis using False A by (cases "k = l") simp_all
  qed
  moreover have "x < l_fresh h' \<and> l_value h' x \<noteq> None" if "x \<in> set ((A(l := xs @ e # ys)) k)" for x k
  proof -
    have "x = e \<or> x \<in> set (A k)" using that A by (cases "k = l") auto
    then show ?thesis using e(2,3) refines_alloc [OF r, of x k] by (auto simp: h'_def)
  qed
  ultimately have "refines h' (A(l := xs @ e # ys))" unfolding refines_def by blast
  moreover have "l_next h' (Root l) \<noteq> None" using init by (simp add: h'_def)
  ultimately show ?thesis using run at by (auto simp: h'_def)
qed

lemma remove_ok:
  assumes r: "refines h A" and A: "A l = xs @ e # ys" and small: "length (A l) < 2 ^ 62"
  shows "\<exists>h'. list_remove h l e = Inr h' \<and> refines h' (A(l := xs @ ys)) \<and> l_value h' = l_value h \<and> l_fresh h' = l_fresh h \<and>
    l_next h' (Root l) \<noteq> None \<and> l_list h' e = None"
proof -
  have lk: "linked h (ring l (xs @ e # ys))" using refines_linked [OF r, of l] A by auto
  have dist: "distinct xs" "distinct ys" "set xs \<inter> set ys = {}" "e \<notin> set xs" "e \<notin> set ys" using refines_distinct [OF r, of l] unfolding A by auto
  obtain us at where us: "Root l # map Elem xs = us @ [at]" "at \<notin> set us" "at = Root l \<longrightarrow> us = []" "at = Root l \<or> at \<in> Elem ` set xs"
    "set us \<subseteq> insert (Root l) (Elem ` set xs)" "Root l \<notin> set (tl (us @ [at]))" "set (tl (us @ [at])) = Elem ` set xs"
    using snoc_ptr [of l xs] dist(1) by metis
  obtain n vs where vs: "map Elem ys @ [Root l] = n # vs" "n \<notin> set vs" "n = Root l \<or> n \<in> Elem ` set ys"
    "set (butlast (n # vs)) = Elem ` set ys" "set vs \<subseteq> insert (Root l) (Elem ` set ys)"
    using cons_ptr [of ys l] dist(2) by metis
  have old: "ring l (xs @ e # ys) = us @ at # Elem e # n # vs" using us(1) vs(1) by (simp add: ring_def)
  have lk1: "linked h (us @ [at])" "linked h (n # vs)" "l_next h at = Some (Elem e)" "l_prev h (Elem e) = Some at" "l_next h (Elem e) = Some n" "l_prev h n = Some (Elem e)"
    using lk linked_append [of h us at "Elem e # n # vs"] unfolding old by auto
  have ne: "Elem e \<noteq> at" "Elem e \<noteq> n" "Elem e \<notin> set us" "Elem e \<notin> set vs" using us vs dist by auto
  define h' where "h' = h\<lparr>l_next := (l_next h)(at := Some n, Elem e := None), l_prev := (l_prev h)(n := Some at, Elem e := None),
      l_list := (l_list h)(e := None), l_len := (l_len h)(l := i64 (l_len h l - 1))\<rparr>"
  have run: "list_remove h l e = Inr h'" using lk1 ne by (simp add: list_remove_def h'_def Let_def)
  have "linked h' (us @ [at])"
  proof (subst linked_cong [of _ h' h])
    show "\<forall>x \<in> set (butlast (us @ [at])). l_next h' x = l_next h x" using us(2) ne by (auto simp: h'_def)
    show "\<forall>x \<in> set (tl (us @ [at])). l_prev h' x = l_prev h x" unfolding us(7) using vs(3) dist by (auto simp: h'_def)
  qed (rule lk1)
  moreover have "linked h' (n # vs)"
  proof (subst linked_cong [of _ h' h])
    show "\<forall>x \<in> set (butlast (n # vs)). l_next h' x = l_next h x" unfolding vs(4) using us(4) dist by (auto simp: h'_def)
    show "\<forall>x \<in> set (tl (n # vs)). l_prev h' x = l_prev h x" using vs(2) ne by (auto simp: h'_def)
  qed (rule lk1)
  ultimately have "linked h' (us @ at # n # vs)" using ne linked_append [of h' us at "n # vs"] by (simp add: h'_def)
  moreover have "ring l (xs @ ys) = us @ at # n # vs" unfolding ring_split us(1) vs(1) by simp
  ultimately have ring: "linked h' (ring l (xs @ ys))" by simp
  have e_in: "e \<in> set (A k) \<longrightarrow> k = l" for k using refines_member [OF r, of e] A by (metis in_set_conv_decomp option.inject)
  have "list_ok h' k ((A(l := xs @ ys)) k)" for k
  proof (cases "k = l")
    case True
    have "l_len h l = int (length (A l))" using r by (simp add: refines_def list_ok_def)
    then show ?thesis using True ring small A by (simp add: list_ok_def h'_def)
  next
    case False
    have "\<forall>p. p \<noteq> Root l \<and> p \<notin> Elem ` insert e (set (A l)) \<longrightarrow> l_next h' p = l_next h p \<and> l_prev h' p = l_prev h p"
      using us(4) vs(3) A by (auto simp: h'_def)
    then have "linked h' (ring k (A k)) = linked h (ring k (A k)) \<and> l_next h' (Root k) = l_next h (Root k)"
      by (rule ring_other [OF r False]) (use e_in [of k] False in blast)
    moreover have "list_ok h k (A k)" using r by (simp add: refines_def)
    ultimately show ?thesis using False by (auto simp: list_ok_def h'_def)
  qed
  moreover have "distinct ((A(l := xs @ ys)) k)" for k using refines_distinct [OF r] dist by (cases "k = l") auto
  moreover have "l_list h' x = Some k \<longleftrightarrow> x \<in> set ((A(l := xs @ ys)) k)" for x k
  proof (cases "x = e")
    case True
    then show ?thesis using e_in [of k] dist by (auto simp: h'_def)
  next
    case False
    then have "l_list h' x = Some k \<longleftrightarrow> x \<in> set (A k)" using refines_member [OF r] by (simp add: h'_def)
    then show ?thesis using False A by (cases "k = l") simp_all
  qed
  moreover have "x < l_fresh h' \<and> l_value h' x \<noteq> None" if "x \<in> set ((A(l := xs @ ys)) k)" for x k
  proof -
    have "x \<in> set (A k)" using that A by (cases "k = l") auto
    then show ?thesis using refines_alloc [OF r, of x k] by (simp add: h'_def)
  qed
  ultimately have "refines h' (A(l := xs @ ys))" unfolding refines_def by blast
  moreover have "l_next h' (Root l) \<noteq> None" using lk1 us(1) ring by (cases "xs @ ys") (auto simp: ring_def)
  ultimately show ?thesis using run by (auto simp: h'_def)
qed

section \<open>The abstract lists\<close>

record 'a alists =
  a_lists :: "nat \<Rightarrow> nat list"
  a_vals :: "nat \<Rightarrow> 'a option"
  a_fresh :: nat

definition noLists :: "'a alists" where
  "noLists = \<lparr>a_lists = \<lambda>_. [], a_vals = \<lambda>_. None, a_fresh = 0\<rparr>"

datatype 'a ll_op = LPushFront nat 'a | LPushBack nat 'a | LInsertBefore nat 'a nat | LInsertAfter nat 'a nat | LRemove nat nat
  | LMoveToFront nat nat | LMoveToBack nat nat | LMoveBefore nat nat nat | LMoveAfter nat nat nat | LPushBackList nat nat | LPushFrontList nat nat

definition put_before :: "nat \<Rightarrow> nat \<Rightarrow> nat list \<Rightarrow> nat list" where
  "put_before m x es = takeWhile (\<lambda>y. y \<noteq> m) es @ x # dropWhile (\<lambda>y. y \<noteq> m) es"

definition put_after :: "nat \<Rightarrow> nat \<Rightarrow> nat list \<Rightarrow> nat list" where
  "put_after m x es = takeWhile (\<lambda>y. y \<noteq> m) es @ m # x # tl (dropWhile (\<lambda>y. y \<noteq> m) es)"

definition with_new :: "'a alists \<Rightarrow> nat \<Rightarrow> 'a option \<Rightarrow> (nat \<Rightarrow> nat list \<Rightarrow> nat list) \<Rightarrow> 'a alists" where
  "with_new s l v f = \<lparr>a_lists = (a_lists s)(l := f (a_fresh s) (a_lists s l)), a_vals = (a_vals s)(a_fresh s := v), a_fresh = Suc (a_fresh s)\<rparr>"

definition upd_list :: "'a alists \<Rightarrow> nat \<Rightarrow> (nat list \<Rightarrow> nat list) \<Rightarrow> 'a alists" where
  "upd_list s l f = s\<lparr>a_lists := (a_lists s)(l := f (a_lists s l))\<rparr>"

fun abs_step :: "'a alists \<Rightarrow> 'a ll_op \<Rightarrow> 'a alists" where
  "abs_step s (LPushFront l v) = with_new s l (Some v) (\<lambda>x es. x # es)"
| "abs_step s (LPushBack l v) = with_new s l (Some v) (\<lambda>x es. es @ [x])"
| "abs_step s (LInsertBefore l v m) = (if m \<in> set (a_lists s l) then with_new s l (Some v) (put_before m) else s)"
| "abs_step s (LInsertAfter l v m) = (if m \<in> set (a_lists s l) then with_new s l (Some v) (put_after m) else s)"
| "abs_step s (LRemove l e) = upd_list s l (remove1 e)"
| "abs_step s (LMoveToFront l e) = (if e \<in> set (a_lists s l) then upd_list s l (\<lambda>es. e # remove1 e es) else s)"
| "abs_step s (LMoveToBack l e) = (if e \<in> set (a_lists s l) then upd_list s l (\<lambda>es. remove1 e es @ [e]) else s)"
| "abs_step s (LMoveBefore l e m) = (if e \<noteq> m \<and> {e, m} \<subseteq> set (a_lists s l) then upd_list s l (\<lambda>es. put_before m e (remove1 e es)) else s)"
| "abs_step s (LMoveAfter l e m) = (if e \<noteq> m \<and> {e, m} \<subseteq> set (a_lists s l) then upd_list s l (\<lambda>es. put_after m e (remove1 e es)) else s)"
| "abs_step s (LPushBackList l k) = foldl (\<lambda>t e. with_new t l (a_vals t e) (\<lambda>x es. es @ [x])) s (a_lists s k)"
| "abs_step s (LPushFrontList l k) = foldl (\<lambda>t e. with_new t l (a_vals t e) (\<lambda>x es. x # es)) s (rev (a_lists s k))"

fun ll_step :: "'a lheap \<Rightarrow> 'a ll_op \<Rightarrow> go_error + 'a lheap" where
  "ll_step h (LPushFront l v) = tryE (PushFront h l v) (\<lambda>(_, h). Inr h)"
| "ll_step h (LPushBack l v) = tryE (PushBack h l v) (\<lambda>(_, h). Inr h)"
| "ll_step h (LInsertBefore l v m) = tryE (InsertBefore h l v m) (\<lambda>(_, h). Inr h)"
| "ll_step h (LInsertAfter l v m) = tryE (InsertAfter h l v m) (\<lambda>(_, h). Inr h)"
| "ll_step h (LRemove l e) = tryE (list_Remove h l e) (\<lambda>(_, h). Inr h)"
| "ll_step h (LMoveToFront l e) = MoveToFront h l e"
| "ll_step h (LMoveToBack l e) = MoveToBack h l e"
| "ll_step h (LMoveBefore l e m) = MoveBefore h l e m"
| "ll_step h (LMoveAfter l e m) = MoveAfter h l e m"
| "ll_step h (LPushBackList l k) = PushBackList h l k"
| "ll_step h (LPushFrontList l k) = PushFrontList h l k"

definition represents :: "'a lheap \<Rightarrow> 'a alists \<Rightarrow> bool" where
  "represents h s \<longleftrightarrow> refines h (a_lists s) \<and> l_value h = a_vals s \<and> l_fresh h = a_fresh s"

lemma length_le_fresh: "refines h A \<Longrightarrow> length (A l) \<le> l_fresh h"
proof -
  assume r: "refines h A"
  have "set (A l) \<subseteq> {..< l_fresh h}" using refines_alloc [OF r, of _ l] by auto
  then have "card (set (A l)) \<le> l_fresh h" using card_mono [of "{..< l_fresh h}"] by auto
  then show ?thesis using distinct_card [OF refines_distinct [OF r, of l]] by simp
qed

lemma ring_next: "linked h (ring l es) \<Longrightarrow> l_next h (Root l) \<noteq> None \<and> l_prev h (Root l) \<noteq> None"
proof (cases es rule: rev_cases)
  case (snoc init e)
  assume "linked h (ring l es)"
  then have "linked h ((Root l # map Elem init) @ Elem e # [Root l])" by (simp add: snoc ring_def)
  then have "linked h (Elem e # [Root l])" "linked h ((Root l # map Elem init) @ [Elem e])" using linked_append [of h "Root l # map Elem init"] by blast+
  then show ?thesis by (cases init) auto
qed (simp add: ring_def)

lemma lazyInit_ok:
  assumes "represents h s"
  shows "represents (lazyInit h l) s \<and> l_next (lazyInit h l) (Root l) \<noteq> None"
proof (cases "l_next h (Root l) = None")
  case True
  have r: "refines h (a_lists s)" using assms by (simp add: represents_def)
  let ?h = "list_Init h l"
  have empty: "a_lists s l = []" using r True ring_next [of h l "a_lists s l"] by (auto simp: refines_def list_ok_def)
  have "list_ok ?h k (a_lists s k)" for k
  proof (cases "k = l")
    case True
    then show ?thesis using empty by (simp add: list_ok_def list_Init_def ring_def)
  next
    case False
    have "linked ?h (ring k (a_lists s k)) = linked h (ring k (a_lists s k)) \<and> l_next ?h (Root k) = l_next h (Root k)"
      using False by (intro conjI linked_cong) (auto simp: ring_def list_Init_def butlast_append)
    then show ?thesis using r False by (auto simp: refines_def list_ok_def list_Init_def)
  qed
  then have "refines ?h (a_lists s)" using r by (simp add: refines_def) (simp add: list_Init_def)
  then show ?thesis using True assms by (simp add: represents_def lazyInit_def) (simp add: list_Init_def)
next
  case False
  then have "lazyInit h l = h" unfolding lazyInit_def by (rule if_not_P)
  then show ?thesis using assms False by simp
qed

text \<open>A new element behind a prefix of the list.\<close>

lemma insertValue_ok:
  assumes rep: "represents h s" and A: "a_lists s l = xs @ ys" and init: "l_next h (Root l) \<noteq> None" and small: "a_fresh s < 2 ^ 62"
    and f: "f (a_fresh s) (xs @ ys) = xs @ a_fresh s # ys"
  shows "\<exists>h'. insertValue h l v (Some (last (Root l # map Elem xs))) = Inr (a_fresh s, h') \<and> represents h' (with_new s l (Some v) f) \<and>
    l_next h' (Root l) \<noteq> None"
proof -
  let ?e = "a_fresh s"
  have r: "refines h (a_lists s)" and fr: "l_fresh h = ?e" "l_value h = a_vals s" using rep by (simp_all add: represents_def)
  define h1 where "h1 = h\<lparr>l_fresh := Suc ?e, l_value := (l_value h)(?e := Some v), l_next := (l_next h)(Elem ?e := None),
      l_prev := (l_prev h)(Elem ?e := None), l_list := (l_list h)(?e := None)\<rparr>"
  have e_new: "?e \<notin> set (a_lists s k)" for k using refines_alloc [OF r, of ?e k] fr by auto
  have "linked h1 (ring k (a_lists s k)) = linked h (ring k (a_lists s k)) \<and> l_next h1 (Root k) = l_next h (Root k)" for k
    using e_new [of k] by (intro conjI linked_cong) (auto simp: ring_def h1_def butlast_append)
  then have "list_ok h1 k (a_lists s k)" for k using r by (simp add: refines_def list_ok_def) (simp add: h1_def)
  moreover have "l_list h1 x = Some k \<longleftrightarrow> x \<in> set (a_lists s k)" for x k
    using refines_member [OF r, of x k] e_new [of k] by (cases "x = ?e") (simp_all add: h1_def)
  moreover have "x < l_fresh h1 \<and> l_value h1 x \<noteq> None" if "x \<in> set (a_lists s k)" for x k
    using refines_alloc [OF r that] fr by (simp add: h1_def)
  ultimately have r1: "refines h1 (a_lists s)" using refines_distinct [OF r] unfolding refines_def by blast
  have sm: "length (a_lists s l) < 2 ^ 62" using length_le_fresh [OF r, of l] fr small by simp
  obtain h' where h': "list_insert h1 l ?e (Some (last (Root l # map Elem xs))) = Inr h'" "refines h' ((a_lists s)(l := xs @ ?e # ys))"
    "l_value h' = l_value h1" "l_fresh h' = l_fresh h1" "l_next h' (Root l) \<noteq> None"
    using insert_ok [OF r1 A _ _ _ _ sm, of ?e] init by (auto simp: h1_def)
  have "insertValue h l v (Some (last (Root l # map Elem xs))) = Inr (?e, h')"
    using h'(1) unfolding insertValue_def Let_def fr(1) h1_def [symmetric] by simp
  moreover have "represents h' (with_new s l (Some v) f)" using h'(2-4) A f fr by (simp add: represents_def with_new_def h1_def)
  ultimately show ?thesis using h'(5) by blast
qed

lemma linked_adjacent: "linked h (us @ x # y # vs) \<Longrightarrow> l_next h x = Some y \<and> l_prev h y = Some x"
  using linked_append [of h us x "y # vs"] by simp

lemma prev_ptr: "linked h (ring l (xs @ ys)) \<Longrightarrow> l_prev h (hd (map Elem ys @ [Root l])) = Some (last (Root l # map Elem xs))"
proof -
  assume lk: "linked h (ring l (xs @ ys))"
  have "ring l (xs @ ys) = butlast (Root l # map Elem xs) @ last (Root l # map Elem xs) # hd (map Elem ys @ [Root l]) # tl (map Elem ys @ [Root l])"
    unfolding ring_split by (subst last_ring) (simp del: last.simps butlast.simps)
  then show ?thesis using lk linked_adjacent by metis
qed

lemma next_ptr: "linked h (ring l (xs @ ys)) \<Longrightarrow> l_next h (last (Root l # map Elem xs)) = Some (hd (map Elem ys @ [Root l]))"
proof -
  assume lk: "linked h (ring l (xs @ ys))"
  have "ring l (xs @ ys) = butlast (Root l # map Elem xs) @ last (Root l # map Elem xs) # hd (map Elem ys @ [Root l]) # tl (map Elem ys @ [Root l])"
    unfolding ring_split by (subst last_ring) (simp del: last.simps butlast.simps)
  then show ?thesis using lk linked_adjacent by metis
qed

lemma rep_linked: "represents h s \<Longrightarrow> l_next h (Root l) \<noteq> None \<or> a_lists s l \<noteq> [] \<Longrightarrow> linked h (ring l (a_lists s l))"
  using refines_linked by (auto simp: represents_def)

lemma rep_member:
  assumes "represents h s" and "m \<in> set (a_lists s l)"
  shows "linked h (ring l (a_lists s l))" "l_list h m = Some l" "l_next h (Root l) \<noteq> None"
proof -
  have "a_lists s l \<noteq> []" using assms(2) by auto
  then show lk: "linked h (ring l (a_lists s l))" using rep_linked [OF assms(1)] by blast
  show "l_next h (Root l) \<noteq> None" using ring_next [OF lk] by blast
  show "l_list h m = Some l" using assms refines_member by (auto simp: represents_def)
qed

lemma split_at:
  assumes "m \<in> set es"
  shows "es = takeWhile (\<lambda>y. y \<noteq> m) es @ m # tl (dropWhile (\<lambda>y. y \<noteq> m) es)" "dropWhile (\<lambda>y. y \<noteq> m) es = m # tl (dropWhile (\<lambda>y. y \<noteq> m) es)"
proof -
  have "dropWhile (\<lambda>y. y \<noteq> m) es \<noteq> []" using assms by (auto simp: dropWhile_eq_Nil_conv)
  moreover from hd_dropWhile [OF this] have "hd (dropWhile (\<lambda>y. y \<noteq> m) es) = m" by simp
  ultimately show *: "dropWhile (\<lambda>y. y \<noteq> m) es = m # tl (dropWhile (\<lambda>y. y \<noteq> m) es)" by (metis list.collapse)
  show "es = takeWhile (\<lambda>y. y \<noteq> m) es @ m # tl (dropWhile (\<lambda>y. y \<noteq> m) es)"
    using takeWhile_dropWhile_id [of "\<lambda>y. y \<noteq> m" es] * by simp
qed

lemma PushBack_ok:
  assumes rep: "represents h s" and small: "a_fresh s < 2 ^ 62"
  shows "\<exists>h'. PushBack h l v = Inr (a_fresh s, h') \<and> represents h' (with_new s l (Some v) (\<lambda>x es. es @ [x])) \<and> l_next h' (Root l) \<noteq> None"
proof -
  note li = lazyInit_ok [OF rep, of l]
  have "linked (lazyInit h l) (ring l (a_lists s l @ []))" using rep_linked [of "lazyInit h l" s l] li by simp
  from prev_ptr [OF this] have "l_prev (lazyInit h l) (Root l) = Some (last (Root l # map Elem (a_lists s l)))" by simp
  then show ?thesis using insertValue_ok [of "lazyInit h l" s l "a_lists s l" "[]" "\<lambda>x es. es @ [x]" v] li small by (simp add: PushBack_def Let_def del: last.simps not_None_eq)
qed

lemma PushFront_ok:
  assumes rep: "represents h s" and small: "a_fresh s < 2 ^ 62"
  shows "\<exists>h'. PushFront h l v = Inr (a_fresh s, h') \<and> represents h' (with_new s l (Some v) (\<lambda>x es. x # es)) \<and> l_next h' (Root l) \<noteq> None"
  using insertValue_ok [of "lazyInit h l" s l "[]" "a_lists s l" "\<lambda>x es. x # es" v] lazyInit_ok [OF rep, of l] small
  by (simp add: PushFront_def Let_def del: not_None_eq)

lemma InsertBefore_ok:
  assumes rep: "represents h s" and small: "a_fresh s < 2 ^ 62"
  shows "\<exists>r h'. InsertBefore h l v m = Inr (r, h') \<and> represents h' (abs_step s (LInsertBefore l v m))"
proof (cases "m \<in> set (a_lists s l)")
  case True
  let ?xs = "takeWhile (\<lambda>y. y \<noteq> m) (a_lists s l)" and ?ys = "dropWhile (\<lambda>y. y \<noteq> m) (a_lists s l)"
  have A: "a_lists s l = ?xs @ ?ys" by simp
  have lk: "linked h (ring l (?xs @ ?ys))" using rep_member(1) [OF rep True] by simp
  have "l_prev h (Elem m) = Some (last (Root l # map Elem ?xs))" using prev_ptr [OF lk] split_at(2) [OF True] by (metis append_Cons list.sel(1) list.simps(9))
  then show ?thesis using insertValue_ok [OF rep A rep_member(3) [OF rep True], where f = "put_before m" and v = v] rep_member(2) [OF rep True] True small
    by (auto simp: InsertBefore_def put_before_def simp del: last.simps not_None_eq)
next
  case False
  then have "l_list h m \<noteq> Some l" using refines_member rep by (auto simp: represents_def)
  then show ?thesis using False rep by (simp add: InsertBefore_def)
qed

lemma InsertAfter_ok:
  assumes rep: "represents h s" and small: "a_fresh s < 2 ^ 62"
  shows "\<exists>r h'. InsertAfter h l v m = Inr (r, h') \<and> represents h' (abs_step s (LInsertAfter l v m))"
proof (cases "m \<in> set (a_lists s l)")
  case True
  let ?xs = "takeWhile (\<lambda>y. y \<noteq> m) (a_lists s l)" and ?ys = "tl (dropWhile (\<lambda>y. y \<noteq> m) (a_lists s l))"
  have A: "a_lists s l = (?xs @ [m]) @ ?ys" using split_at(1) [OF True] by simp
  have "put_after m x ((?xs @ [m]) @ ?ys) = (?xs @ [m]) @ x # ?ys" for x unfolding A [symmetric] put_after_def by simp
  then show ?thesis using insertValue_ok [OF rep A rep_member(3) [OF rep True], where f = "put_after m" and v = v] rep_member(2) [OF rep True] True small
    by (auto simp: InsertAfter_def simp del: not_None_eq)
next
  case False
  then have "l_list h m \<noteq> Some l" using refines_member rep by (auto simp: represents_def)
  then show ?thesis using False rep by (simp add: InsertAfter_def)
qed

lemma remove1_split: "e \<in> set es \<Longrightarrow> \<exists>xs ys. es = xs @ e # ys \<and> remove1 e es = xs @ ys"
proof -
  assume "e \<in> set es"
  then obtain xs ys where xs: "es = xs @ e # ys" "e \<notin> set xs" using split_list_first by metis
  then have "remove1 e es = xs @ ys" by (simp add: remove1_append)
  then show ?thesis using xs(1) by blast
qed

lemma upd_list_id: "a_lists s l = f (a_lists s l) \<Longrightarrow> upd_list s l f = s"
  by (simp add: upd_list_def)

lemma Remove_ok:
  assumes rep: "represents h s" and small: "a_fresh s < 2 ^ 62"
  shows "\<exists>h'. list_Remove h l e = Inr (a_vals s e, h') \<and> represents h' (upd_list s l (remove1 e))"
proof (cases "e \<in> set (a_lists s l)")
  case True
  have r: "refines h (a_lists s)" using rep by (simp add: represents_def)
  obtain xs ys where A: "a_lists s l = xs @ e # ys" "remove1 e (a_lists s l) = xs @ ys" using remove1_split [OF True] by blast
  have sm: "length (a_lists s l) < 2 ^ 62" using length_le_fresh [OF r, of l] rep small by (simp add: represents_def)
  from remove_ok [OF r A(1) sm] show ?thesis using rep_member(2) [OF rep True] rep A(2)
    by (auto simp: list_Remove_def represents_def upd_list_def)
next
  case False
  then have "l_list h e \<noteq> Some l" using rep refines_member by (auto simp: represents_def)
  moreover have "upd_list s l (remove1 e) = s" using False by (intro upd_list_id) (simp add: remove1_idem)
  ultimately show ?thesis using rep by (simp add: list_Remove_def represents_def)
qed

lemma move_ok:
  assumes rep: "represents h s" and small: "a_fresh s < 2 ^ 62" and e: "e \<in> set (a_lists s l)"
  shows "\<exists>h1. list_remove h l e = Inr h1 \<and> linked h1 (ring l (remove1 e (a_lists s l))) \<and>
    (\<forall>xs ys. remove1 e (a_lists s l) = xs @ ys \<longrightarrow>
      (\<exists>h2. list_insert h1 l e (Some (last (Root l # map Elem xs))) = Inr h2 \<and> represents h2 (upd_list s l (\<lambda>_. xs @ e # ys))))"
proof -
  have r: "refines h (a_lists s)" using rep by (simp add: represents_def)
  obtain us vs where A: "a_lists s l = us @ e # vs" "remove1 e (a_lists s l) = us @ vs" using remove1_split [OF e] by blast
  have sm: "length (a_lists s l) < 2 ^ 62" using length_le_fresh [OF r, of l] rep small by (simp add: represents_def)
  obtain h1 where h1: "list_remove h l e = Inr h1" "refines h1 ((a_lists s)(l := us @ vs))" "l_value h1 = l_value h" "l_fresh h1 = l_fresh h"
    "l_next h1 (Root l) \<noteq> None" "l_list h1 e = None" using remove_ok [OF r A(1) sm] by blast
  have lk: "linked h1 (ring l (us @ vs))" using refines_linked [OF h1(2), of l] h1(5) by (metis fun_upd_same)
  have al: "e < l_fresh h1" "l_value h1 e \<noteq> None" using refines_alloc [OF r e] h1(3,4) by simp_all
  have "\<exists>h2. list_insert h1 l e (Some (last (Root l # map Elem xs))) = Inr h2 \<and> represents h2 (upd_list s l (\<lambda>_. xs @ e # ys))"
    if "us @ vs = xs @ ys" for xs ys
  proof -
    have "((a_lists s)(l := us @ vs)) l = xs @ ys" using that by simp
    moreover have "length (((a_lists s)(l := us @ vs)) l) < 2 ^ 62" using sm A(1) by simp
    ultimately obtain h2 where
      "list_insert h1 l e (Some (last (Root l # map Elem xs))) = Inr h2" "refines h2 ((a_lists s)(l := xs @ e # ys))" "l_value h2 = l_value h1" "l_fresh h2 = l_fresh h1"
      using insert_ok [OF h1(2) _ h1(5,6) al] by (metis fun_upd_upd)
    then show ?thesis using rep h1(3,4) by (auto simp: represents_def upd_list_def)
  qed
  then show ?thesis using h1(1) lk A(2) by auto
qed

lemma MoveToFront_ok:
  assumes rep: "represents h s" and small: "a_fresh s < 2 ^ 62"
  shows "\<exists>h'. MoveToFront h l e = Inr h' \<and> represents h' (abs_step s (LMoveToFront l e))"
proof (cases "e \<in> set (a_lists s l)")
  case True
  obtain h1 where h1: "list_remove h l e = Inr h1" "\<forall>xs ys. remove1 e (a_lists s l) = xs @ ys \<longrightarrow>
      (\<exists>h2. list_insert h1 l e (Some (last (Root l # map Elem xs))) = Inr h2 \<and> represents h2 (upd_list s l (\<lambda>_. xs @ e # ys)))"
    using move_ok [OF rep small True] by blast
  from h1(2) [rule_format, of "[]" "remove1 e (a_lists s l)"]
  obtain h2 where h2: "list_insert h1 l e (Some (Root l)) = Inr h2" "represents h2 (upd_list s l (\<lambda>es. e # remove1 e es))" by (auto simp: upd_list_def)
  have "upd_list s l (\<lambda>es. e # remove1 e es) = s" if "l_next h (Root l) = Some (Elem e)"
  proof -
    have "a_lists s l = e # tl (a_lists s l)" using next_ptr [of h l "[]" "a_lists s l"] rep_member(1) [OF rep True] that True by (cases "a_lists s l") auto
    then show ?thesis by (intro upd_list_id) (metis remove1.simps(2))
  qed
  then show ?thesis using h1(1) h2 rep rep_member(2) [OF rep True] True by (auto simp: MoveToFront_def)
next
  case False
  then have "l_list h e \<noteq> Some l" using rep refines_member by (auto simp: represents_def)
  then show ?thesis using False rep by (simp add: MoveToFront_def)
qed

lemma MoveToBack_ok:
  assumes rep: "represents h s" and small: "a_fresh s < 2 ^ 62"
  shows "\<exists>h'. MoveToBack h l e = Inr h' \<and> represents h' (abs_step s (LMoveToBack l e))"
proof (cases "e \<in> set (a_lists s l)")
  case True
  let ?r = "remove1 e (a_lists s l)"
  obtain h1 where h1: "list_remove h l e = Inr h1" "linked h1 (ring l ?r)" "\<forall>xs ys. ?r = xs @ ys \<longrightarrow>
      (\<exists>h2. list_insert h1 l e (Some (last (Root l # map Elem xs))) = Inr h2 \<and> represents h2 (upd_list s l (\<lambda>_. xs @ e # ys)))"
    using move_ok [OF rep small True] by blast
  have p: "l_prev h1 (Root l) = Some (last (Root l # map Elem ?r))" using prev_ptr [of h1 l ?r "[]"] h1(2) by simp
  from h1(3) [rule_format, of ?r "[]"]
  obtain h2 where h2: "list_insert h1 l e (l_prev h1 (Root l)) = Inr h2" "represents h2 (upd_list s l (\<lambda>es. remove1 e es @ [e]))"
    unfolding p by (auto simp: upd_list_def)
  have "upd_list s l (\<lambda>es. remove1 e es @ [e]) = s" if "l_prev h (Root l) = Some (Elem e)"
  proof -
    have "last (Root l # map Elem (a_lists s l)) = Elem e" using prev_ptr [of h l "a_lists s l" "[]"] rep_member(1) [OF rep True] that by simp
    then have "last (a_lists s l) = e" using True by (auto simp: last_map split: if_splits)
    then obtain init where i: "a_lists s l = init @ [e]" using True by (metis append_butlast_last_id empty_iff empty_set)
    then have "e \<notin> set init" using refines_distinct [of h "a_lists s" l] rep by (simp add: represents_def)
    then show ?thesis using i by (intro upd_list_id) (simp add: remove1_append)
  qed
  then show ?thesis using h1(1) h2 rep rep_member(2) [OF rep True] True by (auto simp: MoveToBack_def)
next
  case False
  then have "l_list h e \<noteq> Some l" using rep refines_member by (auto simp: represents_def)
  then show ?thesis using False rep by (simp add: MoveToBack_def)
qed

lemma Move_near_ok:
  assumes rep: "represents h s" and small: "a_fresh s < 2 ^ 62"
  shows "\<exists>h'. MoveBefore h l e m = Inr h' \<and> represents h' (abs_step s (LMoveBefore l e m))"
    "\<exists>h'. MoveAfter h l e m = Inr h' \<and> represents h' (abs_step s (LMoveAfter l e m))"
proof -
  let ?A = "a_lists s l" and ?r = "remove1 e (a_lists s l)"
  have mem: "l_list h x = Some l \<longleftrightarrow> x \<in> set ?A" for x using rep refines_member by (auto simp: represents_def)
  have "(\<exists>h'. MoveBefore h l e m = Inr h' \<and> represents h' (abs_step s (LMoveBefore l e m))) \<and>
    (\<exists>h'. MoveAfter h l e m = Inr h' \<and> represents h' (abs_step s (LMoveAfter l e m)))"
  proof (cases "e \<noteq> m \<and> {e, m} \<subseteq> set ?A")
    case True
    then have e: "e \<in> set ?A" and m: "m \<in> set ?r" by auto
    obtain h1 where h1: "list_remove h l e = Inr h1" "linked h1 (ring l ?r)" "\<forall>xs ys. ?r = xs @ ys \<longrightarrow>
        (\<exists>h2. list_insert h1 l e (Some (last (Root l # map Elem xs))) = Inr h2 \<and> represents h2 (upd_list s l (\<lambda>_. xs @ e # ys)))"
      using move_ok [OF rep small e] by blast
    let ?xs = "takeWhile (\<lambda>y. y \<noteq> m) ?r" and ?ys = "dropWhile (\<lambda>y. y \<noteq> m) ?r"
    have p: "l_prev h1 (Elem m) = Some (last (Root l # map Elem ?xs))"
      using prev_ptr [of h1 l ?xs ?ys] h1(2) split_at(2) [OF m] by (metis append_Cons list.sel(1) list.simps(9) takeWhile_dropWhile_id)
    obtain h2 where h2: "list_insert h1 l e (l_prev h1 (Elem m)) = Inr h2" "represents h2 (upd_list s l (\<lambda>es. put_before m e (remove1 e es)))"
      using h1(3) [rule_format, of ?xs ?ys] unfolding p by (auto simp: upd_list_def put_before_def)
    have sp: "?r = (?xs @ [m]) @ tl ?ys" using split_at(1) [OF m] by simp
    obtain h3 where h3: "list_insert h1 l e (Some (Elem m)) = Inr h3" "represents h3 (upd_list s l (\<lambda>es. put_after m e (remove1 e es)))"
      using h1(3) [rule_format, OF sp] by (auto simp: upd_list_def put_after_def)
    show ?thesis using h1(1) h2 h3 True mem by (simp add: MoveBefore_def MoveAfter_def)
  next
    case False
    then show ?thesis using rep mem by (auto simp: MoveBefore_def MoveAfter_def)
  qed
  then show "\<exists>h'. MoveBefore h l e m = Inr h' \<and> represents h' (abs_step s (LMoveBefore l e m))"
    "\<exists>h'. MoveAfter h l e m = Inr h' \<and> represents h' (abs_step s (LMoveAfter l e m))" by blast+
qed

text \<open>Going along a list.\<close>

lemma elem_Next_ok:
  assumes rep: "represents h s" and A: "a_lists s l = xs @ e # ys"
  shows "elem_Next h e = (case ys of [] \<Rightarrow> None | y # _ \<Rightarrow> Some (Elem y))" "elem_Prev h e = (if xs = [] then None else Some (Elem (last xs)))"
proof -
  have e: "e \<in> set (a_lists s l)" using A by simp
  have lk: "linked h (ring l ((xs @ [e]) @ ys))" "linked h (ring l (xs @ e # ys))" using rep_member(1) [OF rep e] A by simp_all
  have "l_next h (Elem e) = Some (hd (map Elem ys @ [Root l]))" using next_ptr [OF lk(1)] by simp
  then show "elem_Next h e = (case ys of [] \<Rightarrow> None | y # _ \<Rightarrow> Some (Elem y))"
    using rep_member(2) [OF rep e] by (cases ys) (auto simp: elem_Next_def)
  have "l_prev h (Elem e) = Some (last (Root l # map Elem xs))" using prev_ptr [OF lk(2)] by simp
  then show "elem_Prev h e = (if xs = [] then None else Some (Elem (last xs)))"
    using rep_member(2) [OF rep e] by (auto simp: elem_Prev_def last_map)
qed

lemma observers_ok:
  assumes rep: "represents h s"
  shows "list_Len h l = int (length (a_lists s l))" "list_Front h l = (case a_lists s l of [] \<Rightarrow> None | e # _ \<Rightarrow> Some (Elem e))"
    "list_Back h l = (if a_lists s l = [] then None else Some (Elem (last (a_lists s l))))"
proof -
  show len: "list_Len h l = int (length (a_lists s l))" using rep by (simp add: represents_def refines_def list_ok_def list_Len_def)
  have "linked h (ring l ([] @ a_lists s l))" "linked h (ring l (a_lists s l @ []))" if "a_lists s l \<noteq> []" using rep_linked [OF rep, of l] that by simp_all
  then show "list_Front h l = (case a_lists s l of [] \<Rightarrow> None | e # _ \<Rightarrow> Some (Elem e))"
    "list_Back h l = (if a_lists s l = [] then None else Some (Elem (last (a_lists s l))))"
    using len next_ptr [of h l "[]" "a_lists s l"] prev_ptr [of h l "a_lists s l" "[]"]
    by (auto simp: list_Front_def list_Back_def list_Len_def last_map split: list.splits)
qed

lemma with_new_list: "a_lists (with_new s l v f) k = (if k = l then f (a_fresh s) (a_lists s l) else a_lists s k)"
  "a_fresh (with_new s l v f) = Suc (a_fresh s)"
  by (simp_all add: with_new_def)

text \<open>The copying loops; the list that is copied may be the one that grows.\<close>

lemma pushBackLoop_ok:
  assumes "represents h s" and "l_next h (Root l) \<noteq> None" and "a_lists s k = pre @ es @ rest" and "es = [] \<or> p = Some (Elem (hd es))"
    and "a_fresh s + length es \<le> 2 ^ 62" and "k \<noteq> l \<longrightarrow> rest = []"
  shows "\<exists>h'. pushBackLoop h l (length es) p = Inr h' \<and> represents h' (foldl (\<lambda>t e. with_new t l (a_vals t e) (\<lambda>x es. es @ [x])) s es)"
  using assms
proof (induction es arbitrary: h s p pre rest)
  case (Cons e es)
  let ?s = "with_new s l (a_vals s e) (\<lambda>x es. es @ [x])"
  have "e \<in> set (a_lists s k)" using Cons.prems(3) by simp
  then obtain v where v: "l_value h e = Some v" "a_vals s e = Some v" using Cons.prems(1) refines_alloc [of h "a_lists s" e k] by (auto simp: represents_def)
  have "linked h (ring l (a_lists s l @ []))" using rep_linked [OF Cons.prems(1)] Cons.prems(2) by simp
  then have pv: "l_prev h (Root l) = Some (last (Root l # map Elem (a_lists s l)))" using prev_ptr [of h l "a_lists s l" "[]"] by simp
  obtain h1 where h1: "insertValue h l v (l_prev h (Root l)) = Inr (a_fresh s, h1)" "represents h1 ?s" "l_next h1 (Root l) \<noteq> None"
    using insertValue_ok [OF Cons.prems(1) _ Cons.prems(2), of "a_lists s l" "[]" "\<lambda>x es. es @ [x]" v] Cons.prems(5) v(2) unfolding pv by auto
  define rest' where "rest' = (if k = l then rest @ [a_fresh s] else rest)"
  have A: "a_lists ?s k = (pre @ [e]) @ es @ rest'" using Cons.prems(3) by (cases "k = l") (simp_all add: with_new_list rest'_def)
  have "es = [] \<or> elem_Next h1 e = Some (Elem (hd es))"
    using elem_Next_ok(1) [OF h1(2), of k pre e "es @ rest'"] A by (cases es) auto
  moreover have "k \<noteq> l \<longrightarrow> rest' = []" using Cons.prems(6) by (simp add: rest'_def)
  moreover have "a_fresh ?s + length es \<le> 2 ^ 62" using Cons.prems(5) by (simp add: with_new_list)
  ultimately have "\<exists>h'. pushBackLoop h1 l (length es) (elem_Next h1 e) = Inr h' \<and>
      represents h' (foldl (\<lambda>t e. with_new t l (a_vals t e) (\<lambda>x es. es @ [x])) ?s es)"
    using Cons.IH [OF h1(2,3) A] by blast
  then show ?case using Cons.prems(4) v h1(1) by auto
qed auto

lemma pushFrontLoop_ok:
  assumes "represents h s" and "l_next h (Root l) \<noteq> None" and "a_lists s k = rest @ rev es @ pre" and "es = [] \<or> p = Some (Elem (hd es))"
    and "a_fresh s + length es \<le> 2 ^ 62" and "k \<noteq> l \<longrightarrow> rest = []"
  shows "\<exists>h'. pushFrontLoop h l (length es) p = Inr h' \<and> represents h' (foldl (\<lambda>t e. with_new t l (a_vals t e) (\<lambda>x es. x # es)) s es)"
  using assms
proof (induction es arbitrary: h s p pre rest)
  case (Cons e es)
  let ?s = "with_new s l (a_vals s e) (\<lambda>x es. x # es)"
  have "e \<in> set (a_lists s k)" using Cons.prems(3) by simp
  then obtain v where v: "l_value h e = Some v" "a_vals s e = Some v" using Cons.prems(1) refines_alloc [of h "a_lists s" e k] by (auto simp: represents_def)
  obtain h1 where h1: "insertValue h l v (Some (Root l)) = Inr (a_fresh s, h1)" "represents h1 ?s" "l_next h1 (Root l) \<noteq> None"
    using insertValue_ok [OF Cons.prems(1) _ Cons.prems(2), of "[]" "a_lists s l" "\<lambda>x es. x # es" v] Cons.prems(5) v(2) by auto
  define rest' where "rest' = (if k = l then a_fresh s # rest else rest)"
  have A: "a_lists ?s k = rest' @ rev es @ e # pre" using Cons.prems(3) by (cases "k = l") (simp_all add: with_new_list rest'_def)
  have "es = [] \<or> elem_Prev h1 e = Some (Elem (hd es))"
    using elem_Next_ok(2) [OF h1(2), of k "rest' @ rev es" e pre] A by (cases es) auto
  moreover have "k \<noteq> l \<longrightarrow> rest' = []" using Cons.prems(6) by (simp add: rest'_def)
  moreover have "a_fresh ?s + length es \<le> 2 ^ 62" using Cons.prems(5) by (simp add: with_new_list)
  ultimately have "\<exists>h'. pushFrontLoop h1 l (length es) (elem_Prev h1 e) = Inr h' \<and>
      represents h' (foldl (\<lambda>t e. with_new t l (a_vals t e) (\<lambda>x es. x # es)) ?s es)"
    using Cons.IH [OF h1(2,3) A] by blast
  then show ?case using Cons.prems(4) v h1(1) by auto
qed auto

lemma PushList_ok:
  assumes rep: "represents h s" and small: "a_fresh s + length (a_lists s k) \<le> 2 ^ 62"
  shows "\<exists>h'. PushBackList h l k = Inr h' \<and> represents h' (abs_step s (LPushBackList l k))"
    "\<exists>h'. PushFrontList h l k = Inr h' \<and> represents h' (abs_step s (LPushFrontList l k))"
proof -
  note li = lazyInit_ok [OF rep, of l]
  have o: "nat (list_Len (lazyInit h l) k) = length (a_lists s k)" "list_Front (lazyInit h l) k = (case a_lists s k of [] \<Rightarrow> None | e # _ \<Rightarrow> Some (Elem e))"
    "list_Back (lazyInit h l) k = (if a_lists s k = [] then None else Some (Elem (last (a_lists s k))))" using observers_ok [of "lazyInit h l" s k] li by simp_all
  have "\<exists>h'. pushBackLoop (lazyInit h l) l (length (a_lists s k)) (list_Front (lazyInit h l) k) = Inr h' \<and>
      represents h' (foldl (\<lambda>t e. with_new t l (a_vals t e) (\<lambda>x es. es @ [x])) s (a_lists s k))"
    by (rule pushBackLoop_ok [of _ s l k "[]" _ "[]"]) (use li o small in \<open>auto split: list.splits\<close>)
  then show "\<exists>h'. PushBackList h l k = Inr h' \<and> represents h' (abs_step s (LPushBackList l k))" using o by (simp add: PushBackList_def Let_def)
  have "\<exists>h'. pushFrontLoop (lazyInit h l) l (length (rev (a_lists s k))) (list_Back (lazyInit h l) k) = Inr h' \<and>
      represents h' (foldl (\<lambda>t e. with_new t l (a_vals t e) (\<lambda>x es. x # es)) s (rev (a_lists s k)))"
    by (rule pushFrontLoop_ok [of _ s l k "[]" _ "[]"]) (use li o small in \<open>auto simp: hd_rev\<close>)
  then show "\<exists>h'. PushFrontList h l k = Inr h' \<and> represents h' (abs_step s (LPushFrontList l k))" using o by (simp add: PushFrontList_def Let_def)
qed

text \<open>The simulation.\<close>

lemma fold_fresh: "a_fresh (foldl (\<lambda>t e. with_new t l (g t e) f) s es) = a_fresh s + length es"
  by (induction es arbitrary: s) (simp_all add: with_new_list)

lemma abs_step_fresh: "a_fresh s \<le> a_fresh (abs_step s op)"
  by (cases op) (auto simp: with_new_list upd_list_def fold_fresh)

lemma ll_step_ok:
  assumes rep: "represents h s" and small: "a_fresh (abs_step s op) < 2 ^ 62"
  shows "\<exists>h'. ll_step h op = Inr h' \<and> represents h' (abs_step s op)"
proof -
  have sm: "a_fresh s < 2 ^ 62" using abs_step_fresh [of s op] small by simp
  note oks = PushFront_ok [OF rep sm] PushBack_ok [OF rep sm] InsertBefore_ok [OF rep sm] InsertAfter_ok [OF rep sm] Remove_ok [OF rep sm]
    MoveToFront_ok [OF rep sm] MoveToBack_ok [OF rep sm] Move_near_ok [OF rep sm]
  show ?thesis
  proof (cases op)
    case (LPushFront l v)
    then show ?thesis using oks(1) [of l v] by auto
  next
    case (LPushBack l v)
    then show ?thesis using oks(2) [of l v] by auto
  next
    case (LInsertBefore l v m)
    then show ?thesis using oks(3) [of l v m] by (auto simp del: abs_step.simps)
  next
    case (LInsertAfter l v m)
    then show ?thesis using oks(4) [of l v m] by (auto simp del: abs_step.simps)
  next
    case (LRemove l e)
    then show ?thesis using oks(5) [of l e] by auto
  next
    case (LPushBackList l k)
    then show ?thesis using PushList_ok(1) [OF rep, of k l] small by (auto simp: fold_fresh)
  next
    case (LPushFrontList l k)
    then show ?thesis using PushList_ok(2) [OF rep, of k l] small by (auto simp: fold_fresh)
  qed (use oks(6-) in \<open>simp_all del: abs_step.simps\<close>)
qed

fun ll_run :: "'a lheap \<Rightarrow> 'a ll_op list \<Rightarrow> go_error + 'a lheap" where
  "ll_run h [] = Inr h"
| "ll_run h (op # ops) = tryE (ll_step h op) (\<lambda>h. ll_run h ops)"

lemma ll_run_ok:
  "represents h s \<Longrightarrow> a_fresh (foldl abs_step s ops) < 2 ^ 62 \<Longrightarrow> \<exists>h'. ll_run h ops = Inr h' \<and> represents h' (foldl abs_step s ops)"
proof (induction ops arbitrary: h s)
  case (Cons op ops)
  have "a_fresh t \<le> a_fresh (foldl abs_step t ops)" for t :: "'a alists"
    by (induction ops arbitrary: t) (auto intro: order_trans [OF abs_step_fresh])
  then have "a_fresh (abs_step s op) < 2 ^ 62" using Cons.prems(2) by (metis foldl_Cons le_less_trans)
  then obtain h1 where "ll_step h op = Inr h1" "represents h1 (abs_step s op)" using ll_step_ok [OF Cons.prems(1)] by blast
  then show ?case using Cons.IH [of h1 "abs_step s op"] Cons.prems(2) by simp
qed simp

lemma represents_empty: "represents emptyHeap noLists"
  by (simp add: represents_def refines_def emptyHeap_def noLists_def list_ok_def)

text \<open>C13. The linked lists refine lists: after any sequence of insertions, removals, moves and copies on any number of lists, starting from
  unused ones, no nil pointer was followed, every list has the elements that the same operations on lists give, with the length that \<open>Len\<close> reports;
  \<open>Front\<close> and \<open>Back\<close> are the ends of a list, and \<open>Next\<close> and \<open>Prev\<close> go from an element to its neighbours.\<close>

theorem linked_list_refines:
  assumes "a_fresh (foldl abs_step noLists ops) < 2 ^ 62"
  shows "\<exists>h. ll_run emptyHeap ops = Inr h \<and> l_value h = a_vals (foldl abs_step noLists ops) \<and>
    (\<forall>l. let es = a_lists (foldl abs_step noLists ops) l in
       list_Len h l = int (length es) \<and> list_Front h l = (case es of [] \<Rightarrow> None | e # _ \<Rightarrow> Some (Elem e)) \<and>
       list_Back h l = (if es = [] then None else Some (Elem (last es))) \<and>
       (\<forall>xs e ys. es = xs @ e # ys \<longrightarrow> elem_Next h e = (case ys of [] \<Rightarrow> None | y # _ \<Rightarrow> Some (Elem y)) \<and>
         elem_Prev h e = (if xs = [] then None else Some (Elem (last xs)))))"
proof -
  obtain h where h: "ll_run emptyHeap ops = Inr h" "represents h (foldl abs_step noLists ops)" using ll_run_ok [OF represents_empty assms] by blast
  then have "l_value h = a_vals (foldl abs_step noLists ops)" by (simp add: represents_def)
  then show ?thesis using h(1) observers_ok [OF h(2)] elem_Next_ok [OF h(2)] by (intro exI [of _ h]) (simp add: Let_def)
qed

definition ll_demo :: "string ll_op list" where
  "ll_demo = [LPushBack 0 ''b'', LPushFront 0 ''a'', LInsertAfter 0 ''c'' 0, LPushBack 1 ''x'', LPushBackList 1 0, LMoveBefore 0 2 0, LRemove 1 3, LMoveToBack 0 1]"

theorem linked_list_refines_witness:
  "\<exists>h. ll_run emptyHeap ll_demo = Inr h \<and> list_Len h 0 = 3 \<and> list_Front h 0 = Some (Elem 2) \<and> elem_Next h 2 = Some (Elem 0) \<and> elem_Next h 0 = Some (Elem 1) \<and>
    list_Front h 1 = Some (Elem 4) \<and> l_value h 4 = Some ''a''"
proof -
  have f: "a_fresh (foldl abs_step noLists ll_demo) < 2 ^ 62" "a_lists (foldl abs_step noLists ll_demo) 0 = [2, 0, 1]"
    "a_lists (foldl abs_step noLists ll_demo) 1 = [4, 5, 6]" "a_vals (foldl abs_step noLists ll_demo) 4 = Some ''a''"
    by (simp_all add: ll_demo_def noLists_def with_new_def upd_list_def put_after_def put_before_def)
  obtain h where h: "ll_run emptyHeap ll_demo = Inr h" "l_value h = a_vals (foldl abs_step noLists ll_demo)"
    and o: "\<forall>l. list_Len h l = int (length (a_lists (foldl abs_step noLists ll_demo) l)) \<and>
      list_Front h l = (case a_lists (foldl abs_step noLists ll_demo) l of [] \<Rightarrow> None | e # _ \<Rightarrow> Some (Elem e))"
    and n: "\<forall>l xs e ys. a_lists (foldl abs_step noLists ll_demo) l = xs @ e # ys \<longrightarrow> elem_Next h e = (case ys of [] \<Rightarrow> None | y # _ \<Rightarrow> Some (Elem y))"
    using linked_list_refines [OF f(1)] unfolding Let_def by blast
  have "elem_Next h 2 = Some (Elem 0)" "elem_Next h 0 = Some (Elem 1)"
    using n [rule_format, of 0 "[]" 2 "[0, 1]"] n [rule_format, of 0 "[2]" 0 "[1]"] f(2) by simp_all
  moreover have "list_Len h 0 = 3" "list_Front h 0 = Some (Elem 2)" "list_Front h 1 = Some (Elem 4)" using o f(2,3) by simp_all
  ultimately show ?thesis using h f(4) by simp
qed

end
