(* ===== verification/FlowControl.thy ===== *)
theory FlowControl
  imports RttStats QErr
begin

text \<open>
  Flow control: \<open>core/flowcontrol\<close>. The record \<open>baseFlowController\<close> is shared by the controller of
  the connection and, extended, by the ones of the streams; an operation of a stream controller that
  calls its connection controller takes and returns both. The clock and the round trip statistics
  are arguments; calls of the callback \<open>queueWindowUpdate\<close> are returned as a flag. The lemmas show
  what each operation does on every branch, and that the whole system of one connection and its
  streams keeps within the limits of both sides.
\<close>

section \<open>The base controller\<close>

record baseFlowController =
  bytesSent :: ByteCount
  sendWindow :: ByteCount
  lastBlockedAt :: ByteCount
  bytesRead :: ByteCount
  highestReceived :: ByteCount
  receiveWindow :: ByteCount
  receiveWindowSize :: ByteCount
  maxReceiveWindowSize :: ByteCount
  epochStartTime :: Time
  epochStartOffset :: ByteCount

definition WindowUpdateThreshold :: rat where "WindowUpdateThreshold = 1 / 4"
definition ConnectionFlowControlMultiplier :: rat where "ConnectionFlowControlMultiplier = 3 / 2"

definition sendWindowSize :: "'a baseFlowController_scheme \<Rightarrow> ByteCount" where
  "sendWindowSize c = (if bytesSent c > sendWindow c then 0 else sendWindow c - bytesSent c)"

definition IsNewlyBlocked :: "'a baseFlowController_scheme \<Rightarrow> (bool \<times> ByteCount) \<times> 'a baseFlowController_scheme" where
  "IsNewlyBlocked c =
    (if sendWindowSize c \<noteq> 0 \<or> sendWindow c = lastBlockedAt c then ((False, 0), c)
     else let c = c\<lparr>lastBlockedAt := sendWindow c\<rparr> in ((True, sendWindow c), c))"

definition AddBytesSent :: "'a baseFlowController_scheme \<Rightarrow> ByteCount \<Rightarrow> 'a baseFlowController_scheme" where
  "AddBytesSent c n = c\<lparr>bytesSent := bytesSent c + n\<rparr>"

definition UpdateSendWindow :: "'a baseFlowController_scheme \<Rightarrow> ByteCount \<Rightarrow> 'a baseFlowController_scheme" where
  "UpdateSendWindow c offset = (if offset > sendWindow c then c\<lparr>sendWindow := offset\<rparr> else c)"

definition startNewAutoTuningEpoch :: "Time \<Rightarrow> 'a baseFlowController_scheme \<Rightarrow> 'a baseFlowController_scheme" where
  "startNewAutoTuningEpoch now c = c\<lparr>epochStartTime := now, epochStartOffset := bytesRead c\<rparr>"

definition AddBytesRead :: "Time \<Rightarrow> 'a baseFlowController_scheme \<Rightarrow> ByteCount \<Rightarrow> 'a baseFlowController_scheme" where
  "AddBytesRead now c n =
    (let c = (if bytesRead c = 0 then startNewAutoTuningEpoch now c else c)
     in c\<lparr>bytesRead := bytesRead c + n\<rparr>)"

definition hasWindowUpdate :: "'a baseFlowController_scheme \<Rightarrow> bool" where
  "hasWindowUpdate c =
    (let bytesRemaining = receiveWindow c - bytesRead c
     in bytesRemaining \<le> u64_of_float (f64 (float64_of_u64 (receiveWindowSize c) * (1 - WindowUpdateThreshold))))"

definition maybeAdjustWindowSize :: "Time \<Rightarrow> RTTStats \<Rightarrow> 'a baseFlowController_scheme \<Rightarrow> 'a baseFlowController_scheme" where
  "maybeAdjustWindowSize now rttStats c =
    (let bytesReadInEpoch = bytesRead c - epochStartOffset c
     in if bytesReadInEpoch \<le> receiveWindowSize c div 2 then c
     else
       let rtt = smoothedRTT rttStats
       in if rtt = 0 then c
       else
         let fraction = f64 (float64_of_u64 bytesReadInEpoch / float64_of_u64 (receiveWindowSize c));
             c = (if Time_Sub now (epochStartTime c) < int64_of_float (f64 (f64 (4 * fraction) * float64_of_int rtt))
                  then c\<lparr>receiveWindowSize := MinByteCount (2 * receiveWindowSize c) (maxReceiveWindowSize c)\<rparr>
                  else c)
         in startNewAutoTuningEpoch now c)"

definition getWindowUpdate :: "Time \<Rightarrow> RTTStats \<Rightarrow> 'a baseFlowController_scheme \<Rightarrow> ByteCount \<times> 'a baseFlowController_scheme" where
  "getWindowUpdate now rttStats c =
    (if \<not> hasWindowUpdate c then (0, c)
     else
       let c = maybeAdjustWindowSize now rttStats c;
           c = c\<lparr>receiveWindow := bytesRead c + receiveWindowSize c\<rparr>
       in (receiveWindow c, c))"

definition checkFlowControlViolation :: "'a baseFlowController_scheme \<Rightarrow> bool" where
  "checkFlowControlViolation c \<longleftrightarrow> highestReceived c > receiveWindow c"

section \<open>The connection controller\<close>

type_synonym connectionFlowController = baseFlowController

definition NewConnectionFlowController :: "ByteCount \<Rightarrow> ByteCount \<Rightarrow> connectionFlowController" where
  "NewConnectionFlowController rw maxReceiveWindow =
    \<lparr>bytesSent = 0, sendWindow = 0, lastBlockedAt = 0, bytesRead = 0, highestReceived = 0, receiveWindow = rw,
     receiveWindowSize = rw, maxReceiveWindowSize = maxReceiveWindow, epochStartTime = 0, epochStartOffset = 0\<rparr>"

definition conn_SendWindowSize :: "connectionFlowController \<Rightarrow> ByteCount" where
  "conn_SendWindowSize c = sendWindowSize c"

definition IncrementHighestReceived ::
  "connectionFlowController \<Rightarrow> ByteCount \<Rightarrow> connectionFlowController \<times> go_error option" where
  "IncrementHighestReceived c increment =
    (let c = c\<lparr>highestReceived := highestReceived c + increment\<rparr>
     in if checkFlowControlViolation c
        then (c, Some (qerr_Error FlowControlError
               (''Received %d bytes for the connection, allowed %d bytes'',
                [uint (highestReceived c), uint (receiveWindow c)])))
        else (c, None))"

text \<open>Returns whether \<open>queueWindowUpdate\<close> was called.\<close>

definition conn_maybeQueueWindowUpdate :: "connectionFlowController \<Rightarrow> bool" where
  "conn_maybeQueueWindowUpdate c = hasWindowUpdate c"

definition conn_AddBytesRead :: "Time \<Rightarrow> connectionFlowController \<Rightarrow> ByteCount \<Rightarrow> connectionFlowController \<times> bool" where
  "conn_AddBytesRead now c n = (let c = AddBytesRead now c n in (c, conn_maybeQueueWindowUpdate c))"

definition conn_GetWindowUpdate :: "Time \<Rightarrow> RTTStats \<Rightarrow> connectionFlowController \<Rightarrow> ByteCount \<times> connectionFlowController" where
  "conn_GetWindowUpdate now rttStats c = getWindowUpdate now rttStats c"

definition EnsureMinimumWindowSize :: "Time \<Rightarrow> connectionFlowController \<Rightarrow> ByteCount \<Rightarrow> connectionFlowController" where
  "EnsureMinimumWindowSize now c inc =
    (if inc > receiveWindowSize c
     then startNewAutoTuningEpoch now (c\<lparr>receiveWindowSize := MinByteCount inc (maxReceiveWindowSize c)\<rparr>)
     else c)"

section \<open>The stream controller\<close>

record streamFlowController = baseFlowController +
  streamID :: StreamID
  receivedFinalOffset :: bool

definition NewStreamFlowController :: "StreamID \<Rightarrow> ByteCount \<Rightarrow> ByteCount \<Rightarrow> ByteCount \<Rightarrow> streamFlowController" where
  "NewStreamFlowController sid rw maxReceiveWindow initialSendWindow =
    \<lparr>bytesSent = 0, sendWindow = initialSendWindow, lastBlockedAt = 0, bytesRead = 0, highestReceived = 0, receiveWindow = rw,
     receiveWindowSize = rw, maxReceiveWindowSize = maxReceiveWindow, epochStartTime = 0, epochStartOffset = 0,
     streamID = sid, receivedFinalOffset = False\<rparr>"

definition UpdateHighestReceived ::
  "streamFlowController \<Rightarrow> connectionFlowController \<Rightarrow> ByteCount \<Rightarrow> bool \<Rightarrow>
   (streamFlowController \<times> connectionFlowController) \<times> go_error option" where
  "UpdateHighestReceived c conn offset final =
    (if receivedFinalOffset c \<and> final \<and> offset \<noteq> highestReceived c
     then ((c, conn), Some (qerr_Error FinalSizeError
       (''Received inconsistent final offset for stream %d (old: %#x, new: %#x bytes)'',
        [streamID c, uint (highestReceived c), uint offset])))
     else if receivedFinalOffset c \<and> offset > highestReceived c
     then ((c, conn), Some (qerr_Error FinalSizeError
       (''Received offset %#x for stream %d. Final offset was already received at %#x'',
        [uint offset, streamID c, uint (highestReceived c)])))
     else
       let c = (if final then c\<lparr>receivedFinalOffset := True\<rparr> else c)
       in if offset = highestReceived c then ((c, conn), None)
       else if offset \<le> highestReceived c
       then if final
         then ((c, conn), Some (qerr_Error FinalSizeError
           (''Received final offset %#x for stream %d, but already received offset %#x before'',
            [uint offset, streamID c, uint (highestReceived c)])))
         else ((c, conn), None)
       else
         let increment = offset - highestReceived c;
             c = c\<lparr>highestReceived := offset\<rparr>
         in if checkFlowControlViolation c
            then ((c, conn), Some (qerr_Error FlowControlError
              (''Received %#x bytes on stream %d, allowed %#x bytes'', [uint offset, streamID c, uint (receiveWindow c)])))
            else let (conn, err) = IncrementHighestReceived conn increment in ((c, conn), err))"

definition stream_maybeQueueWindowUpdate :: "streamFlowController \<Rightarrow> bool" where
  "stream_maybeQueueWindowUpdate c \<longleftrightarrow> \<not> receivedFinalOffset c \<and> hasWindowUpdate c"

definition stream_AddBytesRead ::
  "Time \<Rightarrow> streamFlowController \<Rightarrow> connectionFlowController \<Rightarrow> ByteCount \<Rightarrow>
   (streamFlowController \<times> connectionFlowController) \<times> bool \<times> bool" where
  "stream_AddBytesRead now c conn n =
    (let c = AddBytesRead now c n;
         queued = stream_maybeQueueWindowUpdate c;
         (conn, connQueued) = conn_AddBytesRead now conn n
     in ((c, conn), (queued, connQueued)))"

definition Abandon ::
  "Time \<Rightarrow> streamFlowController \<Rightarrow> connectionFlowController \<Rightarrow> connectionFlowController \<times> bool" where
  "Abandon now c conn =
    (let unread = highestReceived c - bytesRead c
     in if unread > 0 then conn_AddBytesRead now conn unread else (conn, False))"

definition stream_AddBytesSent ::
  "streamFlowController \<Rightarrow> connectionFlowController \<Rightarrow> ByteCount \<Rightarrow> streamFlowController \<times> connectionFlowController" where
  "stream_AddBytesSent c conn n = (AddBytesSent c n, AddBytesSent conn n)"

definition stream_SendWindowSize :: "streamFlowController \<Rightarrow> connectionFlowController \<Rightarrow> ByteCount" where
  "stream_SendWindowSize c conn = MinByteCount (sendWindowSize c) (conn_SendWindowSize conn)"

definition stream_GetWindowUpdate ::
  "Time \<Rightarrow> RTTStats \<Rightarrow> streamFlowController \<Rightarrow> connectionFlowController \<Rightarrow>
   ByteCount \<times> streamFlowController \<times> connectionFlowController" where
  "stream_GetWindowUpdate now rttStats c conn =
    (if receivedFinalOffset c then (0, c, conn)
     else
       let oldWindowSize = receiveWindowSize c;
           (offset, c) = getWindowUpdate now rttStats c;
           conn = (if receiveWindowSize c > oldWindowSize
             then EnsureMinimumWindowSize now conn
                    (u64_of_float (f64 (float64_of_u64 (receiveWindowSize c) * ConnectionFlowControlMultiplier)))
             else conn)
       in (offset, c, conn))"

section \<open>Sending\<close>

text \<open>What a sender relies on: the window shrinks by what is sent, and updates never shrink it.\<close>

locale flow_sender =
  fixes window :: "'s \<Rightarrow> ByteCount"
    and add_sent :: "'s \<Rightarrow> ByteCount \<Rightarrow> 's"
    and update :: "'s \<Rightarrow> ByteCount \<Rightarrow> 's"
  assumes window_sent: "n \<le> window s \<Longrightarrow> unat (window (add_sent s n)) = unat (window s) - unat n"
    and window_update: "window s \<le> window (update s offset)"
begin

text \<open>A run of sends, each of at most the window at that moment.\<close>

fun sends_fit :: "ByteCount list \<Rightarrow> 's \<Rightarrow> bool" where
  "sends_fit [] s = True"
| "sends_fit (n # ns) s = (n \<le> window s \<and> sends_fit ns (add_sent s n))"

lemma total_sent: "sends_fit ns s \<Longrightarrow>
    sum_list (map unat ns) + unat (window (foldl add_sent s ns)) = unat (window s)"
proof (induction ns arbitrary: s)
  case (Cons n ns)
  then have "n \<le> window s" and "unat n \<le> unat (window s)" by (simp_all add: word_le_nat_alt)
  then show ?case using Cons.IH [of "add_sent s n"] Cons.prems window_sent [of n s] by simp
qed simp

lemma window_exhausted: "window (add_sent s (window s)) = 0"
  using window_sent [of "window s" s] by (simp add: unat_eq_0)

lemma total_sent_bound: "sends_fit ns s \<Longrightarrow> sum_list (map unat ns) \<le> unat (window s)"
  using total_sent [of ns s] by simp

end

lemma unat_sendWindowSize: "unat (sendWindowSize c) = unat (sendWindow c) - unat (bytesSent c)"
  by (simp add: sendWindowSize_def word_less_nat_alt unat_minus_le)

lemma sendWindowSize_AddBytesSent:
  assumes "n \<le> sendWindowSize c"
  shows "unat (sendWindowSize (AddBytesSent c n)) = unat (sendWindowSize c) - unat n"
proof (cases "bytesSent c > sendWindow c")
  case True
  then have "n = 0" using assms by (simp add: sendWindowSize_def word_le_nat_alt flip: unat_eq_0)
  then show ?thesis by (simp add: AddBytesSent_def)
next
  case False
  then have le: "unat n + unat (bytesSent c) \<le> unat (sendWindow c)"
    using assms by (simp add: word_le_nat_alt unat_sendWindowSize word_less_nat_alt)
  then have "unat (bytesSent c + n) = unat (bytesSent c) + unat n"
    using unat_lt_u64 [of "sendWindow c"] by (intro unat_plus_lt) simp
  then show ?thesis by (simp add: unat_sendWindowSize AddBytesSent_def)
qed

lemma sendWindowSize_UpdateSendWindow: "unat (sendWindowSize c) \<le> unat (sendWindowSize (UpdateSendWindow c offset))"
  by (auto simp: unat_sendWindowSize UpdateSendWindow_def word_less_nat_alt)

interpretation conn_sender: flow_sender conn_SendWindowSize AddBytesSent UpdateSendWindow
  by unfold_locales
    (simp_all add: conn_SendWindowSize_def sendWindowSize_AddBytesSent sendWindowSize_UpdateSendWindow word_le_nat_alt)

interpretation stream_sender: flow_sender
  "\<lambda>(c, conn). stream_SendWindowSize c conn"
  "\<lambda>(c, conn) n. stream_AddBytesSent c conn n"
  "\<lambda>(c, conn) offset. (UpdateSendWindow c offset, conn)"
proof unfold_locales
  fix n and s :: "streamFlowController \<times> connectionFlowController"
  obtain c conn where s: "s = (c, conn)" by (cases s)
  assume "n \<le> (case s of (c, conn) \<Rightarrow> stream_SendWindowSize c conn)"
  then have "n \<le> sendWindowSize c" "n \<le> sendWindowSize conn"
    by (auto simp: s stream_SendWindowSize_def conn_SendWindowSize_def word_le_nat_alt unat_MinByteCount)
  then show "unat (case (case s of (c, conn) \<Rightarrow> stream_AddBytesSent c conn) n of (c, conn) \<Rightarrow> stream_SendWindowSize c conn) =
      unat (case s of (c, conn) \<Rightarrow> stream_SendWindowSize c conn) - unat n"
    by (simp add: s stream_SendWindowSize_def conn_SendWindowSize_def stream_AddBytesSent_def unat_MinByteCount
        sendWindowSize_AddBytesSent min_def)
next
  fix offset and s :: "streamFlowController \<times> connectionFlowController"
  show "(case s of (c, conn) \<Rightarrow> stream_SendWindowSize c conn) \<le>
      (case (case s of (c, conn) \<Rightarrow> \<lambda>offset. (UpdateSendWindow c offset, conn)) offset of (c, conn) \<Rightarrow> stream_SendWindowSize c conn)"
    using sendWindowSize_UpdateSendWindow [of "fst s" offset]
    by (auto simp: split_beta stream_SendWindowSize_def conn_SendWindowSize_def word_le_nat_alt unat_MinByteCount)
qed

section \<open>Receiving\<close>

text \<open>A controller whose receiving half is in order, for windows below \<open>2^51\<close> bytes and fewer than
  \<open>2^62\<close> bytes read.\<close>

definition recv_ok :: "'a baseFlowController_scheme \<Rightarrow> bool" where
  "recv_ok c \<longleftrightarrow> unat (bytesRead c) \<le> unat (highestReceived c) \<and>
     unat (highestReceived c) \<le> unat (receiveWindow c) \<and>
     unat (receiveWindow c) \<le> unat (bytesRead c) + unat (receiveWindowSize c) \<and>
     0 < unat (receiveWindowSize c) \<and>
     unat (receiveWindowSize c) \<le> unat (maxReceiveWindowSize c) \<and> unat (maxReceiveWindowSize c) < 2 ^ 51 \<and>
     unat (bytesRead c) < 2 ^ 62"

lemma threshold_exact:
  assumes "unat w < 2 ^ 51"
  shows "u64_of_float (f64 (float64_of_u64 w * (1 - WindowUpdateThreshold))) = word_of_nat (3 * unat w div 4)"
proof -
  define i where "i = uint w"
  have "int (unat w) < int (2 ^ 51)" using assms by (rule of_nat_less_iff [THEN iffD2])
  then have i: "i < 2 ^ 51" unfolding i_def by (simp only: uint_nat of_nat_power of_nat_numeral)
  have i0: "0 \<le> i" unfolding i_def by (rule uint_ge_0)
  have "f64 (of_int i) = of_int i" using i i0 by (intro f64_int) simp
  then have "f64 (float64_of_u64 w * (1 - WindowUpdateThreshold)) = f64 (of_int (3 * i) / 2 ^ 2)"
    unfolding float64_of_u64_def WindowUpdateThreshold_def i_def [symmetric] by (simp add: mult.commute)
  also have "\<dots> = of_int (3 * i) / 2 ^ 2" using i i0 by (intro f64_dyadic) simp
  also have "\<dots> = of_int (3 * i) / of_int 4" by simp
  finally have "trunc (f64 (float64_of_u64 w * (1 - WindowUpdateThreshold))) = 3 * i div 4"
    using trunc_frac [of "3 * i" 4] i0 by (simp only:)
  moreover have "word_of_int (3 * i div 4) = (word_of_nat (3 * unat w div 4) :: u64)"
  proof -
    have "int (3 * unat w div 4) = 3 * i div 4" unfolding i_def uint_nat by (simp only: zdiv_int of_nat_mult of_nat_numeral)
    then show ?thesis by (metis of_int_of_nat_eq)
  qed
  ultimately show ?thesis unfolding u64_of_float_def by (simp only:)
qed

lemma hasWindowUpdate_iff:
  assumes "recv_ok c"
  shows "hasWindowUpdate c \<longleftrightarrow> 4 * (unat (receiveWindow c) - unat (bytesRead c)) \<le> 3 * unat (receiveWindowSize c)"
proof -
  have w: "unat (receiveWindowSize c) < 2 ^ 51" "unat (bytesRead c) \<le> unat (receiveWindow c)"
    using assms by (auto simp: recv_ok_def)
  then have "unat (word_of_nat (3 * unat (receiveWindowSize c) div 4) :: u64) = 3 * unat (receiveWindowSize c) div 4"
    by (intro unat_word_of_nat_id le_less_trans [OF div_le_dividend]) simp
  then show ?thesis
    using w unfolding hasWindowUpdate_def Let_def threshold_exact [OF w(1)] word_le_nat_alt
    by (simp add: unat_minus_le less_eq_div_iff_mult_less_eq mult.commute)
qed

lemma MinByteCount_double:
  assumes "unat w \<le> unat m" "unat m < 2 ^ 51"
  shows "unat w \<le> unat (MinByteCount (2 * w) m)" "unat (MinByteCount (2 * w) m) \<le> unat m"
proof -
  have "unat (2 * w) = 2 * unat w"
    unfolding mult_2 using assms by (intro unat_plus_lt) simp
  then show "unat w \<le> unat (MinByteCount (2 * w) m)" "unat (MinByteCount (2 * w) m) \<le> unat m"
    using assms by (simp_all add: unat_MinByteCount)
qed

lemma maybeAdjustWindowSize_frame:
  "bytesRead (maybeAdjustWindowSize now rtt c) = bytesRead c"
  "highestReceived (maybeAdjustWindowSize now rtt c) = highestReceived c"
  "receiveWindow (maybeAdjustWindowSize now rtt c) = receiveWindow c"
  "maxReceiveWindowSize (maybeAdjustWindowSize now rtt c) = maxReceiveWindowSize c"
  "bytesSent (maybeAdjustWindowSize now rtt c) = bytesSent c"
  "sendWindow (maybeAdjustWindowSize now rtt c) = sendWindow c"
  by (simp_all add: maybeAdjustWindowSize_def startNewAutoTuningEpoch_def Let_def)

lemma maybeAdjustWindowSize_size:
  assumes "recv_ok c"
  shows "unat (receiveWindowSize c) \<le> unat (receiveWindowSize (maybeAdjustWindowSize now rtt c))"
    "unat (receiveWindowSize (maybeAdjustWindowSize now rtt c)) \<le> unat (maxReceiveWindowSize c)"
  using assms MinByteCount_double [of "receiveWindowSize c" "maxReceiveWindowSize c"]
  by (auto simp: recv_ok_def maybeAdjustWindowSize_def startNewAutoTuningEpoch_def Let_def)

lemma getWindowUpdate_frame:
  "bytesRead (snd (getWindowUpdate now rtt c)) = bytesRead c"
  "highestReceived (snd (getWindowUpdate now rtt c)) = highestReceived c"
  "bytesSent (snd (getWindowUpdate now rtt c)) = bytesSent c"
  "sendWindow (snd (getWindowUpdate now rtt c)) = sendWindow c"
  "maxReceiveWindowSize (snd (getWindowUpdate now rtt c)) = maxReceiveWindowSize c"
  by (simp_all add: getWindowUpdate_def Let_def maybeAdjustWindowSize_frame)

lemma getWindowUpdate_correct:
  assumes "recv_ok c" "getWindowUpdate now rtt c = (offset, c')"
  shows "recv_ok c' \<and> unat (receiveWindowSize c) \<le> unat (receiveWindowSize c') \<and>
    (if 4 * (unat (receiveWindow c) - unat (bytesRead c)) \<le> 3 * unat (receiveWindowSize c)
     then offset = receiveWindow c' \<and> unat (receiveWindow c) < unat (receiveWindow c') \<and>
       unat (receiveWindow c') = unat (bytesRead c) + unat (receiveWindowSize c')
     else offset = 0 \<and> c' = c)"
proof (cases "hasWindowUpdate c")
  case False
  then show ?thesis using assms by (auto simp: getWindowUpdate_def hasWindowUpdate_iff [OF assms(1)])
next
  case True
  let ?d = "maybeAdjustWindowSize now rtt c"
  have c': "c' = ?d\<lparr>receiveWindow := bytesRead ?d + receiveWindowSize ?d\<rparr>" "offset = receiveWindow c'"
    using assms(2) True by (auto simp: getWindowUpdate_def Let_def)
  note sz = maybeAdjustWindowSize_size [OF assms(1), of now rtt]
  have rw: "unat (receiveWindow c') = unat (bytesRead c) + unat (receiveWindowSize c')"
    using assms(1) sz by (simp add: c' maybeAdjustWindowSize_frame recv_ok_def unat_plus_lt)
  show ?thesis
    using True assms(1) sz rw unfolding hasWindowUpdate_iff [OF assms(1)]
    by (auto simp: c' maybeAdjustWindowSize_frame recv_ok_def)
qed

lemma AddBytesRead_recv_ok:
  assumes "recv_ok c" "unat (bytesRead c) + unat n \<le> unat (highestReceived c)" "unat (bytesRead c) + unat n < 2 ^ 62"
  shows "recv_ok (AddBytesRead now c n)" "unat (bytesRead (AddBytesRead now c n)) = unat (bytesRead c) + unat n"
  using assms by (auto simp: recv_ok_def AddBytesRead_def startNewAutoTuningEpoch_def Let_def unat_plus_lt)

lemma AddBytesRead_frame:
  "highestReceived (AddBytesRead now c n) = highestReceived c" "receiveWindow (AddBytesRead now c n) = receiveWindow c"
  "bytesSent (AddBytesRead now c n) = bytesSent c" "sendWindow (AddBytesRead now c n) = sendWindow c"
  by (simp_all add: AddBytesRead_def startNewAutoTuningEpoch_def Let_def)

lemma EnsureMinimumWindowSize_recv_ok: "recv_ok c \<Longrightarrow> recv_ok (EnsureMinimumWindowSize now c inc)"
  by (auto simp: recv_ok_def EnsureMinimumWindowSize_def startNewAutoTuningEpoch_def unat_MinByteCount word_less_nat_alt)

lemma EnsureMinimumWindowSize_frame:
  "bytesRead (EnsureMinimumWindowSize now c inc) = bytesRead c"
  "highestReceived (EnsureMinimumWindowSize now c inc) = highestReceived c"
  "receiveWindow (EnsureMinimumWindowSize now c inc) = receiveWindow c"
  "bytesSent (EnsureMinimumWindowSize now c inc) = bytesSent c"
  "sendWindow (EnsureMinimumWindowSize now c inc) = sendWindow c"
  by (simp_all add: EnsureMinimumWindowSize_def startNewAutoTuningEpoch_def)

lemma IncrementHighestReceived_ok:
  assumes "IncrementHighestReceived conn inc = (conn', None)" "recv_ok conn" "unat inc < 2 ^ 62"
  shows "recv_ok conn'" "unat (highestReceived conn') = unat (highestReceived conn) + unat inc"
    "bytesRead conn' = bytesRead conn" "bytesSent conn' = bytesSent conn" "sendWindow conn' = sendWindow conn"
proof -
  have c: "conn' = conn\<lparr>highestReceived := highestReceived conn + inc\<rparr>" "\<not> highestReceived conn' > receiveWindow conn'"
    using assms(1) by (auto simp: IncrementHighestReceived_def checkFlowControlViolation_def Let_def split: if_splits)
  have "unat (highestReceived conn) < 2 ^ 63" using assms(2) by (auto simp: recv_ok_def)
  then show h: "unat (highestReceived conn') = unat (highestReceived conn) + unat inc"
    using assms(3) by (simp add: c(1) unat_plus_lt)
  then show "recv_ok conn'" using assms(2) c by (auto simp: recv_ok_def word_less_nat_alt)
  show "bytesRead conn' = bytesRead conn" "bytesSent conn' = bytesSent conn" "sendWindow conn' = sendWindow conn"
    by (simp_all add: c(1))
qed

text \<open>Data that is accepted: both controllers count the same new bytes.\<close>

lemma UpdateHighestReceived_ok:
  assumes "UpdateHighestReceived c conn offset final = ((c', conn'), None)" "recv_ok c" "recv_ok conn" "unat offset < 2 ^ 62"
  shows "recv_ok c' \<and> recv_ok conn' \<and>
    unat (highestReceived c') = max (unat (highestReceived c)) (unat offset) \<and>
    unat (highestReceived conn') + unat (highestReceived c) = unat (highestReceived conn) + unat (highestReceived c') \<and>
    bytesRead c' = bytesRead c \<and> bytesRead conn' = bytesRead conn \<and>
    bytesSent c' = bytesSent c \<and> bytesSent conn' = bytesSent conn \<and> sendWindow c' = sendWindow c \<and> sendWindow conn' = sendWindow conn"
proof -
  let ?c = "if final then c\<lparr>receivedFinalOffset := True\<rparr> else c"
  consider (old) "unat offset \<le> unat (highestReceived c)" "c' = ?c" "conn' = conn"
    | (new) "unat offset > unat (highestReceived c)" "c' = ?c\<lparr>highestReceived := offset\<rparr>"
      "unat offset \<le> unat (receiveWindow c)" "IncrementHighestReceived conn (offset - highestReceived c) = (conn', None)"
    using assms(1)
    by (fastforce simp: UpdateHighestReceived_def checkFlowControlViolation_def Let_def word_le_nat_alt word_less_nat_alt
        split: if_splits prod.splits)
  then show ?thesis
  proof cases
    case old
    then show ?thesis using assms(2,3) by (simp add: recv_ok_def)
  next
    case new
    have inc: "unat (offset - highestReceived c) = unat offset - unat (highestReceived c)"
      using new(1) by (simp add: unat_minus_le)
    then have "unat (offset - highestReceived c) < 2 ^ 62" using assms(4) by simp
    note i = IncrementHighestReceived_ok [OF new(4) assms(3) this]
    then show ?thesis using new inc assms(2) by (simp add: recv_ok_def)
  qed
qed

section \<open>One connection and its streams\<close>

record flow_state =
  fs_streams :: "StreamID \<rightharpoonup> streamFlowController"
  fs_conn :: connectionFlowController

text \<open>
  The steps of the system. A sender sends at most its window, an application reads at most what was
  received, offsets on the wire are below \<open>2^62\<close>, and an error ends the connection, so it is not a
  step. A stream may be opened with any window up to its maximum, below \<open>2^51\<close>.
\<close>

inductive fc_step :: "flow_state \<Rightarrow> flow_state \<Rightarrow> bool" where
  Open: "fs_streams s sid = None \<Longrightarrow> 0 < unat rw \<Longrightarrow> unat rw \<le> unat maxw \<Longrightarrow> unat maxw < 2 ^ 51 \<Longrightarrow>
    fc_step s (s\<lparr>fs_streams := (fs_streams s)(sid \<mapsto> NewStreamFlowController sid rw maxw sw)\<rparr>)"
| Send: "fs_streams s sid = Some c \<Longrightarrow> n \<le> stream_SendWindowSize c (fs_conn s) \<Longrightarrow>
    stream_AddBytesSent c (fs_conn s) n = (c', conn') \<Longrightarrow>
    fc_step s (s\<lparr>fs_streams := (fs_streams s)(sid \<mapsto> c'), fs_conn := conn'\<rparr>)"
| MaxStreamData: "fs_streams s sid = Some c \<Longrightarrow>
    fc_step s (s\<lparr>fs_streams := (fs_streams s)(sid \<mapsto> UpdateSendWindow c offset)\<rparr>)"
| MaxData: "fc_step s (s\<lparr>fs_conn := UpdateSendWindow (fs_conn s) offset\<rparr>)"
| Receive: "fs_streams s sid = Some c \<Longrightarrow> unat offset < 2 ^ 62 \<Longrightarrow>
    UpdateHighestReceived c (fs_conn s) offset final = ((c', conn'), None) \<Longrightarrow>
    fc_step s (s\<lparr>fs_streams := (fs_streams s)(sid \<mapsto> c'), fs_conn := conn'\<rparr>)"
| Read: "fs_streams s sid = Some c \<Longrightarrow> unat (bytesRead c) + unat n \<le> unat (highestReceived c) \<Longrightarrow>
    unat (bytesRead (fs_conn s)) + unat n < 2 ^ 62 \<Longrightarrow>
    stream_AddBytesRead now c (fs_conn s) n = ((c', conn'), queued) \<Longrightarrow>
    fc_step s (s\<lparr>fs_streams := (fs_streams s)(sid \<mapsto> c'), fs_conn := conn'\<rparr>)"
| StreamWindowUpdate: "fs_streams s sid = Some c \<Longrightarrow>
    stream_GetWindowUpdate now rtt c (fs_conn s) = (offset, c', conn') \<Longrightarrow>
    fc_step s (s\<lparr>fs_streams := (fs_streams s)(sid \<mapsto> c'), fs_conn := conn'\<rparr>)"
| ConnWindowUpdate: "conn_GetWindowUpdate now rtt (fs_conn s) = (offset, conn') \<Longrightarrow>
    fc_step s (s\<lparr>fs_conn := conn'\<rparr>)"

inductive fc_reachable :: "flow_state \<Rightarrow> bool" where
  start: "0 < unat rw \<Longrightarrow> unat rw \<le> unat maxw \<Longrightarrow> unat maxw < 2 ^ 51 \<Longrightarrow>
    fc_reachable \<lparr>fs_streams = Map.empty, fs_conn = NewConnectionFlowController rw maxw\<rparr>"
| step: "fc_reachable s \<Longrightarrow> fc_step s s' \<Longrightarrow> fc_reachable s'"

definition total :: "(streamFlowController \<Rightarrow> ByteCount) \<Rightarrow> (StreamID \<rightharpoonup> streamFlowController) \<Rightarrow> nat" where
  "total f m = (\<Sum>sid \<in> dom m. unat (f (the (m sid))))"

definition fc_inv :: "flow_state \<Rightarrow> bool" where
  "fc_inv s \<longleftrightarrow> finite (dom (fs_streams s)) \<and> recv_ok (fs_conn s) \<and>
     unat (bytesSent (fs_conn s)) \<le> unat (sendWindow (fs_conn s)) \<and>
     (\<forall>sid c. fs_streams s sid = Some c \<longrightarrow> recv_ok c \<and> unat (bytesSent c) \<le> unat (sendWindow c)) \<and>
     unat (bytesSent (fs_conn s)) = total bytesSent (fs_streams s) \<and>
     unat (highestReceived (fs_conn s)) = total highestReceived (fs_streams s) \<and>
     unat (bytesRead (fs_conn s)) = total bytesRead (fs_streams s)"

lemma total_update:
  assumes "finite (dom m)" "m sid = Some c"
  shows "total f (m(sid \<mapsto> c')) + unat (f c) = total f m + unat (f c')"
proof -
  have d: "dom (m(sid \<mapsto> c')) = insert sid (dom m - {sid})" "dom m = insert sid (dom m - {sid})" using assms(2) by auto
  have "(\<Sum>i \<in> dom m - {sid}. unat (f (the ((m(sid \<mapsto> c')) i)))) = (\<Sum>i \<in> dom m - {sid}. unat (f (the (m i))))"
    by (rule sum.cong) auto
  then show ?thesis
    using assms(1,2) unfolding total_def by (subst d(1), subst (2) d(2)) (simp add: sum.insert_remove)
qed

lemma total_new: "finite (dom m) \<Longrightarrow> m sid = None \<Longrightarrow> total f (m(sid \<mapsto> c')) = total f m + unat (f c')"
proof -
  assume m: "finite (dom m)" "m sid = None"
  have "(\<Sum>i \<in> dom m. unat (f (the ((m(sid \<mapsto> c')) i)))) = (\<Sum>i \<in> dom m. unat (f (the (m i))))"
    using m(2) by (intro sum.cong) auto
  then show ?thesis using m by (simp add: total_def domIff)
qed

lemma fc_inv_update:
  assumes "fc_inv s" "fs_streams s sid = Some c" "recv_ok c'" "recv_ok conn'"
    and "unat (bytesSent c') \<le> unat (sendWindow c')" "unat (bytesSent conn') \<le> unat (sendWindow conn')"
    and "unat (bytesSent conn') + unat (bytesSent c) = unat (bytesSent (fs_conn s)) + unat (bytesSent c')"
    and "unat (highestReceived conn') + unat (highestReceived c) = unat (highestReceived (fs_conn s)) + unat (highestReceived c')"
    and "unat (bytesRead conn') + unat (bytesRead c) = unat (bytesRead (fs_conn s)) + unat (bytesRead c')"
  shows "fc_inv (s\<lparr>fs_streams := (fs_streams s)(sid \<mapsto> c'), fs_conn := conn'\<rparr>)"
proof -
  have f: "finite (dom (fs_streams s))" using assms(1) by (simp add: fc_inv_def)
  note t = total_update [OF f assms(2), of _ c']
  show ?thesis
    using assms t [of bytesSent] t [of highestReceived] t [of bytesRead] f by (auto simp: fc_inv_def)
qed

lemma fc_inv_stream: "fc_inv s \<Longrightarrow> fs_streams s sid = Some c \<Longrightarrow> recv_ok c \<and> unat (bytesSent c) \<le> unat (sendWindow c)"
  by (simp add: fc_inv_def)

lemma fc_inv_conn: "fc_inv s \<Longrightarrow> recv_ok (fs_conn s) \<and> unat (bytesSent (fs_conn s)) \<le> unat (sendWindow (fs_conn s))"
  by (simp add: fc_inv_def)

lemma fc_inv_set_conn:
  assumes "fc_inv s" "recv_ok conn'" "unat (bytesSent conn') \<le> unat (sendWindow conn')"
    "bytesSent conn' = bytesSent (fs_conn s)" "highestReceived conn' = highestReceived (fs_conn s)"
    "bytesRead conn' = bytesRead (fs_conn s)"
  shows "fc_inv (s\<lparr>fs_conn := conn'\<rparr>)"
  using assms by (simp add: fc_inv_def)

lemma recv_ok_sending [simp]:
  "recv_ok (AddBytesSent c n) = recv_ok c" "recv_ok (UpdateSendWindow c offset) = recv_ok c"
  by (simp_all add: recv_ok_def AddBytesSent_def UpdateSendWindow_def)

lemma UpdateSendWindow_frame:
  "bytesSent (UpdateSendWindow c offset) = bytesSent c" "highestReceived (UpdateSendWindow c offset) = highestReceived c"
  "bytesRead (UpdateSendWindow c offset) = bytesRead c" "unat (sendWindow c) \<le> unat (sendWindow (UpdateSendWindow c offset))"
  by (simp_all add: UpdateSendWindow_def word_less_nat_alt)

lemma AddBytesSent_within:
  assumes "n \<le> sendWindowSize c" "unat (bytesSent c) \<le> unat (sendWindow c)"
  shows "unat (bytesSent (AddBytesSent c n)) = unat (bytesSent c) + unat n"
    "unat (bytesSent c) + unat n \<le> unat (sendWindow c)"
proof -
  show le: "unat (bytesSent c) + unat n \<le> unat (sendWindow c)"
    using assms by (simp add: word_le_nat_alt unat_sendWindowSize)
  then show "unat (bytesSent (AddBytesSent c n)) = unat (bytesSent c) + unat n"
    using unat_lt_u64 [of "sendWindow c"] by (simp add: AddBytesSent_def unat_plus_lt)
qed

lemma stream_GetWindowUpdate_ok:
  assumes "stream_GetWindowUpdate now rtt c conn = (offset, c', conn')" "recv_ok c" "recv_ok conn"
  shows "recv_ok c' \<and> recv_ok conn' \<and> bytesSent c' = bytesSent c \<and> sendWindow c' = sendWindow c \<and>
    highestReceived c' = highestReceived c \<and> bytesRead c' = bytesRead c \<and>
    bytesSent conn' = bytesSent conn \<and> sendWindow conn' = sendWindow conn \<and>
    highestReceived conn' = highestReceived conn \<and> bytesRead conn' = bytesRead conn"
proof (cases "receivedFinalOffset c")
  case True
  then show ?thesis using assms by (simp add: stream_GetWindowUpdate_def)
next
  case False
  obtain o2 d where d: "getWindowUpdate now rtt c = (o2, d)" by (cases "getWindowUpdate now rtt c")
  have ok: "recv_ok d" using getWindowUpdate_correct [OF assms(2) d] by simp
  have fr: "bytesRead d = bytesRead c" "highestReceived d = highestReceived c" "bytesSent d = bytesSent c" "sendWindow d = sendWindow c"
    using getWindowUpdate_frame [of now rtt c] d by simp_all
  have "c' = d" "conn' = conn \<or> (\<exists>inc. conn' = EnsureMinimumWindowSize now conn inc)"
    using assms(1) False d by (auto simp: stream_GetWindowUpdate_def Let_def split: if_splits)
  then show ?thesis
    using ok fr assms(3) EnsureMinimumWindowSize_recv_ok EnsureMinimumWindowSize_frame by auto
qed

lemma total_mono:
  "(\<And>sid c. m sid = Some c \<Longrightarrow> unat (f c) \<le> unat (g c)) \<Longrightarrow> total f m \<le> total g m"
  unfolding total_def by (rule sum_mono) auto

lemma total_ge: "finite (dom m) \<Longrightarrow> m sid = Some c \<Longrightarrow> unat (f c) \<le> total f m"
  unfolding total_def using member_le_sum [of sid "dom m" "\<lambda>i. unat (f (the (m i)))"] by (simp add: domI)

text \<open>What a stream still has to read, the connection has as well.\<close>

lemma fc_inv_unread:
  assumes "fc_inv s" "fs_streams s sid = Some c" "unat (bytesRead c) + k \<le> unat (highestReceived c)"
  shows "unat (bytesRead (fs_conn s)) + k \<le> unat (highestReceived (fs_conn s))" "unat (bytesRead c) \<le> unat (bytesRead (fs_conn s))"
proof -
  let ?m = "fs_streams s"
  have fin: "finite (dom ?m)" using assms(1) by (simp add: fc_inv_def)
  have le: "unat (bytesRead d) \<le> unat (highestReceived d)" if "?m i = Some d" for i d
    using fc_inv_stream [OF assms(1) that] by (simp add: recv_ok_def)
  have kk: "unat (bytesRead c) + k < 2 ^ 64"
    using assms(3) unat_lt_u64 [of "highestReceived c"] by linarith
  define c' where "c' = c\<lparr>bytesRead := word_of_nat (unat (bytesRead c) + k)\<rparr>"
  have c': "unat (bytesRead c') = unat (bytesRead c) + k" "highestReceived c' = highestReceived c"
    unfolding c'_def using unat_word_of_nat_id [OF kk] by simp_all
  have "total bytesRead (?m(sid \<mapsto> c')) \<le> total highestReceived (?m(sid \<mapsto> c'))"
    using le c' assms(3) by (intro total_mono) (auto split: if_splits)
  then have "total bytesRead ?m + k \<le> total highestReceived ?m"
    using total_update [OF fin assms(2), of bytesRead c'] total_update [OF fin assms(2), of highestReceived c'] c' by simp
  then show "unat (bytesRead (fs_conn s)) + k \<le> unat (highestReceived (fs_conn s))"
    using assms(1) by (simp add: fc_inv_def)
  show "unat (bytesRead c) \<le> unat (bytesRead (fs_conn s))"
    using total_ge [OF fin assms(2), of bytesRead] assms(1) by (simp add: fc_inv_def)
qed

lemma fc_step_inv:
  assumes "fc_step s s'" "fc_inv s"
  shows "fc_inv s'"
  using assms
proof cases
  case (Open sid rw maxw sw)
  then show ?thesis using assms(2) total_new [of "fs_streams s" sid]
    by (auto simp: fc_inv_def NewStreamFlowController_def recv_ok_def)
next
  case (Send sid c n c' conn')
  note i = fc_inv_stream [OF assms(2) Send(2)] fc_inv_conn [OF assms(2)]
  have le: "n \<le> sendWindowSize c" "n \<le> sendWindowSize (fs_conn s)"
    using Send(3) by (auto simp: stream_SendWindowSize_def conn_SendWindowSize_def word_le_nat_alt unat_MinByteCount)
  have c: "c' = AddBytesSent c n" "conn' = AddBytesSent (fs_conn s) n"
    using Send(4) by (auto simp: stream_AddBytesSent_def)
  show ?thesis unfolding Send(1)
    using i AddBytesSent_within [OF le(1)] AddBytesSent_within [OF le(2)]
    by (intro fc_inv_update [OF assms(2) Send(2)]) (auto simp: c, auto simp: AddBytesSent_def)
next
  case (MaxStreamData sid c offset)
  have "fc_inv (s\<lparr>fs_streams := (fs_streams s)(sid \<mapsto> UpdateSendWindow c offset), fs_conn := fs_conn s\<rparr>)"
    using fc_inv_stream [OF assms(2) MaxStreamData(2)] fc_inv_conn [OF assms(2)] UpdateSendWindow_frame(4) [of c offset]
    by (intro fc_inv_update [OF assms(2) MaxStreamData(2)]) (auto simp: UpdateSendWindow_frame(1-3))
  then show ?thesis using MaxStreamData(1) by simp
next
  case (MaxData offset)
  show ?thesis unfolding MaxData(1)
    using fc_inv_conn [OF assms(2)] UpdateSendWindow_frame(4) [of "fs_conn s" offset]
    by (intro fc_inv_set_conn [OF assms(2)]) (auto simp: UpdateSendWindow_frame(1-3))
next
  case (Receive sid c offset final c' conn')
  note i = fc_inv_stream [OF assms(2) Receive(2)] fc_inv_conn [OF assms(2)]
  have u: "recv_ok c' \<and> recv_ok conn' \<and>
    unat (highestReceived c') = max (unat (highestReceived c)) (unat offset) \<and>
    unat (highestReceived conn') + unat (highestReceived c) = unat (highestReceived (fs_conn s)) + unat (highestReceived c') \<and>
    bytesRead c' = bytesRead c \<and> bytesRead conn' = bytesRead (fs_conn s) \<and>
    bytesSent c' = bytesSent c \<and> bytesSent conn' = bytesSent (fs_conn s) \<and> sendWindow c' = sendWindow c \<and>
    sendWindow conn' = sendWindow (fs_conn s)"
    using i by (intro UpdateHighestReceived_ok [OF Receive(4)]) (use Receive(3) in auto)
  show ?thesis unfolding Receive(1)
    using i u by (intro fc_inv_update [OF assms(2) Receive(2)]) auto
next
  case (Read sid c n now c' conn' queued)
  note i = fc_inv_stream [OF assms(2) Read(2)] fc_inv_conn [OF assms(2)]
  have c: "c' = AddBytesRead now c n" "conn' = AddBytesRead now (fs_conn s) n"
    using Read(5) by (auto simp: stream_AddBytesRead_def conn_AddBytesRead_def Let_def)
  note u = fc_inv_unread [OF assms(2) Read(2,3)]
  have rs: "recv_ok c'" "unat (bytesRead c') = unat (bytesRead c) + unat n"
    unfolding c using i Read(3,4) u by (auto intro!: AddBytesRead_recv_ok)
  have rc: "recv_ok conn'" "unat (bytesRead conn') = unat (bytesRead (fs_conn s)) + unat n"
    unfolding c using i Read(4) u by (auto intro!: AddBytesRead_recv_ok)
  show ?thesis unfolding Read(1)
    using i rs rc by (intro fc_inv_update [OF assms(2) Read(2)]) (auto simp: c AddBytesRead_frame)
next
  case (StreamWindowUpdate sid c now rtt offset c' conn')
  note i = fc_inv_stream [OF assms(2) StreamWindowUpdate(2)] fc_inv_conn [OF assms(2)]
  show ?thesis unfolding StreamWindowUpdate(1)
    using i stream_GetWindowUpdate_ok [OF StreamWindowUpdate(3)]
    by (intro fc_inv_update [OF assms(2) StreamWindowUpdate(2)]) auto
next
  case (ConnWindowUpdate now rtt offset conn')
  note i = fc_inv_conn [OF assms(2)]
  have "getWindowUpdate now rtt (fs_conn s) = (offset, conn')" using ConnWindowUpdate(2) by (simp add: conn_GetWindowUpdate_def)
  with i have "recv_ok conn'" using getWindowUpdate_correct by blast
  with \<open>getWindowUpdate now rtt (fs_conn s) = (offset, conn')\<close> show ?thesis unfolding ConnWindowUpdate(1)
    using i getWindowUpdate_frame [of now rtt "fs_conn s"]
    by (intro fc_inv_set_conn [OF assms(2)]) auto
qed

lemma fc_reachable_inv: "fc_reachable s \<Longrightarrow> fc_inv s"
proof (induction rule: fc_reachable.induct)
  case (start rw maxw)
  then show ?case by (simp add: fc_inv_def total_def NewConnectionFlowController_def recv_ok_def)
next
  case (step s s')
  then show ?case using fc_step_inv by blast
qed

section \<open>Properties\<close>


definition demo_conn :: connectionFlowController where
  "demo_conn = UpdateSendWindow (NewConnectionFlowController 1000 2000) 500"

definition demo_state :: flow_state where
  "demo_state = \<lparr>fs_streams = [4 \<mapsto> AddBytesSent (NewStreamFlowController 4 100 200 400) 300], fs_conn = AddBytesSent demo_conn 300\<rparr>"

lemma demo_reachable: "fc_reachable demo_state"
proof -
  let ?s0 = "\<lparr>fs_streams = Map.empty, fs_conn = NewConnectionFlowController 1000 2000\<rparr>"
  let ?s1 = "\<lparr>fs_streams = Map.empty, fs_conn = demo_conn\<rparr>"
  let ?c = "NewStreamFlowController 4 100 200 400"
  let ?s2 = "\<lparr>fs_streams = [4 \<mapsto> ?c], fs_conn = demo_conn\<rparr>"
  have 0: "fc_reachable ?s0" by (rule fc_reachable.start) simp_all
  have 1: "fc_step ?s0 ?s1" using fc_step.MaxData [of ?s0 500] by (simp add: demo_conn_def)
  have 2: "fc_step ?s1 ?s2" using fc_step.Open [of ?s1 4 100 200 400] by simp
  have 3: "fc_step ?s2 demo_state"
    using fc_step.Send [of ?s2 4 ?c 300 "AddBytesSent ?c 300" "AddBytesSent demo_conn 300"]
    by (simp add: demo_state_def stream_AddBytesSent_def stream_SendWindowSize_def conn_SendWindowSize_def sendWindowSize_def
        MinByteCount_def NewStreamFlowController_def demo_conn_def NewConnectionFlowController_def UpdateSendWindow_def)
  show ?thesis using 0 1 2 3 by (meson fc_reachable.step)
qed


text \<open>C23. The window updates a stream announces are useful: \<open>GetWindowUpdate\<close> announces a limit
  exactly when at most three quarters of the window are left and the final offset is not known, the
  announced limit is then strictly beyond the previous one and is the limit enforced from now on,
  one window beyond what was read; auto-tuning never shrinks the window nor passes its maximum.\<close>

theorem stream_GetWindowUpdate_correct:
  assumes "recv_ok c" "recv_ok conn"
  shows "case stream_GetWindowUpdate now rtt c conn of (offset, c', conn') \<Rightarrow>
    unat (receiveWindowSize c) \<le> unat (receiveWindowSize c') \<and> unat (receiveWindowSize c') \<le> unat (maxReceiveWindowSize c) \<and>
    (if \<not> receivedFinalOffset c \<and> 4 * (unat (receiveWindow c) - unat (bytesRead c)) \<le> 3 * unat (receiveWindowSize c)
     then offset = receiveWindow c' \<and> receiveWindow c < offset \<and> unat offset = unat (bytesRead c) + unat (receiveWindowSize c')
     else offset = 0 \<and> receiveWindow c' = receiveWindow c)"
proof (cases "receivedFinalOffset c")
  case True
  then show ?thesis using assms by (simp add: stream_GetWindowUpdate_def recv_ok_def)
next
  case False
  obtain offset d where d: "getWindowUpdate now rtt c = (offset, d)" by (cases "getWindowUpdate now rtt c")
  have mx: "maxReceiveWindowSize d = maxReceiveWindowSize c" using getWindowUpdate_frame(5) [of now rtt c] d by simp
  show ?thesis
    using getWindowUpdate_correct [OF assms(1) d] False d mx
    by (auto simp: stream_GetWindowUpdate_def Let_def recv_ok_def word_less_nat_alt split: if_splits)
qed

theorem stream_GetWindowUpdate_correct_witness:
  "case stream_GetWindowUpdate 5 NewRTTStats ((NewStreamFlowController 4 100 200 0)\<lparr>bytesRead := 40, highestReceived := 60\<rparr>)
      (NewConnectionFlowController 1000 2000) of (offset, c', conn') \<Rightarrow> receiveWindow c' = offset \<and> 100 < offset"
  using stream_GetWindowUpdate_correct [of "(NewStreamFlowController 4 100 200 0)\<lparr>bytesRead := 40, highestReceived := 60\<rparr>"
      "NewConnectionFlowController 1000 2000" 5 NewRTTStats]
  by (auto simp: recv_ok_def NewStreamFlowController_def NewConnectionFlowController_def split: prod.splits)

fun error_code :: "go_error \<Rightarrow> u64" where
  "error_code (QuicError c m t a) = c"
| "error_code _ = 0"

text \<open>\<open>UpdateHighestReceived\<close> reports exactly the violations of the protocol: a final size error
  when the final size changes, is exceeded, or is below what was received, and otherwise a flow
  control error when new data passes the limit of the stream or of the connection.\<close>

theorem UpdateHighestReceived_errors:
  "map_option error_code (snd (UpdateHighestReceived c conn offset final)) =
    (if (if receivedFinalOffset c then (if final then offset \<noteq> highestReceived c else offset > highestReceived c)
         else final \<and> offset < highestReceived c)
     then Some FinalSizeError
     else if offset > highestReceived c \<and>
       (offset > receiveWindow c \<or> highestReceived conn + (offset - highestReceived c) > receiveWindow conn)
     then Some FlowControlError
     else None)"
  by (auto simp: UpdateHighestReceived_def IncrementHighestReceived_def checkFlowControlViolation_def qerr_Error_def Let_def
      split: prod.splits)

text \<open>\<open>IsNewlyBlocked\<close> reports a sender that has used up its window, with the offset of the block,
  once: until the window grows it does not report it again, and after the window has grown and is
  used up again it does.\<close>

theorem IsNewlyBlocked_once:
  assumes "IsNewlyBlocked c = ((blocked, offset), c')"
  shows "(blocked \<longleftrightarrow> sendWindowSize c = 0 \<and> sendWindow c \<noteq> lastBlockedAt c) \<and>
    offset = (if blocked then sendWindow c else 0) \<and> sendWindowSize c' = sendWindowSize c \<and>
    \<not> fst (fst (IsNewlyBlocked c')) \<and>
    (blocked \<and> w > sendWindow c \<longrightarrow> IsNewlyBlocked ((UpdateSendWindow c' w)\<lparr>bytesSent := w\<rparr>) =
       ((True, w), c'\<lparr>sendWindow := w, bytesSent := w, lastBlockedAt := w\<rparr>))"
proof (cases "sendWindowSize c \<noteq> 0 \<or> sendWindow c = lastBlockedAt c")
  case True
  then have "c' = c" "\<not> blocked" "offset = 0" using assms by (auto simp: IsNewlyBlocked_def)
  then show ?thesis using True assms by (simp add: IsNewlyBlocked_def)
next
  case False
  then have c': "c' = c\<lparr>lastBlockedAt := sendWindow c\<rparr>" "blocked" "offset = sendWindow c"
    using assms by (auto simp: IsNewlyBlocked_def Let_def)
  have "sendWindowSize c' = sendWindowSize c" by (simp add: c' sendWindowSize_def)
  moreover have "IsNewlyBlocked ((UpdateSendWindow c' w)\<lparr>bytesSent := w\<rparr>) =
       ((True, w), c'\<lparr>sendWindow := w, bytesSent := w, lastBlockedAt := w\<rparr>)" if "w > sendWindow c"
    using that by (simp add: c' IsNewlyBlocked_def UpdateSendWindow_def sendWindowSize_def Let_def)
  ultimately show ?thesis using False c' by (simp add: IsNewlyBlocked_def)
qed

theorem IsNewlyBlocked_once_witness:
  "fst (IsNewlyBlocked (AddBytesSent demo_conn 500)) = (True, 500) \<and>
   \<not> fst (fst (IsNewlyBlocked (snd (IsNewlyBlocked (AddBytesSent demo_conn 500)))))"
  using IsNewlyBlocked_once [of "AddBytesSent demo_conn 500" True 500 "snd (IsNewlyBlocked (AddBytesSent demo_conn 500))"]
  by (simp add: IsNewlyBlocked_def sendWindowSize_def demo_conn_def AddBytesSent_def UpdateSendWindow_def
      NewConnectionFlowController_def)

text \<open>A stream that never sends more than \<open>SendWindowSize\<close> at a time sends at most the window it
  started with, and what is left of the window is what it has not sent.\<close>

theorem stream_sends_within_window:
  assumes "stream_sender.sends_fit ns (c, conn)"
  shows "sum_list (map unat ns) + unat (case foldl (\<lambda>(c, conn) n. stream_AddBytesSent c conn n) (c, conn) ns of
      (c, conn) \<Rightarrow> stream_SendWindowSize c conn) = unat (stream_SendWindowSize c conn)"
  using stream_sender.total_sent [OF assms] by simp

theorem stream_sends_within_window_witness:
  "sum_list (map unat [100, 200 :: u64]) + unat (case foldl (\<lambda>(c, conn) n. stream_AddBytesSent c conn n)
      (NewStreamFlowController 4 100 200 400, demo_conn) [100, 200] of (c, conn) \<Rightarrow> stream_SendWindowSize c conn)
   = unat (stream_SendWindowSize (NewStreamFlowController 4 100 200 400) demo_conn)"
  by (rule stream_sends_within_window)
    (simp only: stream_sender.sends_fit.simps, simp add: stream_AddBytesSent_def stream_SendWindowSize_def conn_SendWindowSize_def
      sendWindowSize_def MinByteCount_def NewStreamFlowController_def demo_conn_def NewConnectionFlowController_def
      UpdateSendWindow_def AddBytesSent_def)

end
