(* ===== verification/SendStream.thy ===== *)
theory SendStream
  imports FrameParser FlowControl
begin

text \<open>
  The sending half of a stream: \<open>send_stream.go\<close>. The flow controllers of the stream and of the connection are passed
  in and out, since a bidirectional stream shares the former and all streams share the latter. A call of \<open>Write\<close> that
  has to wait returns \<open>WWait\<close> and is resumed by \<open>Write_loop\<close>; the channel that wakes it up is a flag. Calls of the
  \<open>streamSender\<close> are events, the context is the flag \<open>ss_ctxDone\<close>, and times are arguments.

  The lemmas show that every popped frame fits and carries the right piece of the written bytes, that no written byte
  is ever forgotten, whatever is lost, and that the stream is reported as completed only when all of it, with the FIN,
  was acknowledged.
\<close>

section \<open>The stream\<close>

datatype stream_error = ErrGo go_error | ErrDeadline | StreamCanceled u64 message

datatype stream_event = QueueControlFrame Frame | OnHasStreamData StreamID | OnStreamCompleted StreamID
  | OnHasWindowUpdate StreamID | OnHasConnectionWindowUpdate

record sendStream =
  numOutstandingFrames :: int
  retransmissionQueue :: "StreamFrame list"
  ss_ctxDone :: bool
  ss_streamID :: StreamID
  ss_writeOffset :: ByteCount
  cancelWriteErr :: "stream_error option"
  ss_closeForShutdownErr :: "stream_error option"
  ss_closedForShutdown :: bool
  finishedWriting :: bool
  canceledWrite :: bool
  finSent :: bool
  ss_completed :: bool
  dataForWriting :: "byte list option"
  writeChan :: bool
  ss_deadline :: Time

definition newSendStream :: "StreamID \<Rightarrow> sendStream" where
  "newSendStream sid =
    \<lparr>numOutstandingFrames = 0, retransmissionQueue = [], ss_ctxDone = False, ss_streamID = sid, ss_writeOffset = 0,
     cancelWriteErr = None, ss_closeForShutdownErr = None, ss_closedForShutdown = False, finishedWriting = False,
     canceledWrite = False, finSent = False, ss_completed = False, dataForWriting = None, writeChan = False,
     ss_deadline = 0\<rparr>"

definition signalWrite :: "sendStream \<Rightarrow> sendStream" where
  "signalWrite s = s\<lparr>writeChan := True\<rparr>"

section \<open>Writing\<close>

datatype write_result = WReturn int "stream_error option" | WWait

definition expired :: "Time \<Rightarrow> Time \<Rightarrow> bool" where
  "expired deadline now \<longleftrightarrow> \<not> IsZero deadline \<and> \<not> now < deadline"

definition pendingLen :: "sendStream \<Rightarrow> nat" where
  "pendingLen s = (case dataForWriting s of Some d \<Rightarrow> length d | None \<Rightarrow> 0)"

text \<open>The body of the loop of \<open>Write\<close>, up to the point where it returns or waits for the channel or the deadline.
  \<open>n\<close> is the length of the data passed to \<open>Write\<close>.\<close>

definition Write_loop :: "sendStream \<Rightarrow> nat \<Rightarrow> bool \<Rightarrow> Time \<Rightarrow> write_result \<times> sendStream \<times> stream_event list" where
  "Write_loop s n notifiedSender now =
    (let bytesWritten = int n - int (pendingLen s)
     in if expired (ss_deadline s) now then (WReturn bytesWritten (Some ErrDeadline), s\<lparr>dataForWriting := None\<rparr>, [])
     else if dataForWriting s = None \<or> canceledWrite s \<or> ss_closedForShutdown s then
       (if ss_closeForShutdownErr s \<noteq> None then (WReturn bytesWritten (ss_closeForShutdownErr s), s, [])
        else if cancelWriteErr s \<noteq> None then (WReturn bytesWritten (cancelWriteErr s), s, [])
        else (WReturn bytesWritten None, s, []))
     else (WWait, s, if notifiedSender then [] else [OnHasStreamData (ss_streamID s)]))"

definition Write :: "sendStream \<Rightarrow> byte list \<Rightarrow> Time \<Rightarrow> Time \<Rightarrow> write_result \<times> sendStream \<times> stream_event list" where
  "Write s p now now' =
    (if finishedWriting s then (WReturn 0 (Some (ErrGo (Errorf (''write on closed stream %d'', [ss_streamID s])))), s, [])
     else if canceledWrite s then (WReturn 0 (cancelWriteErr s), s, [])
     else if ss_closeForShutdownErr s \<noteq> None then (WReturn 0 (ss_closeForShutdownErr s), s, [])
     else if expired (ss_deadline s) now then (WReturn 0 (Some ErrDeadline), s, [])
     else if length p = 0 then (WReturn 0 None, s, [])
     else Write_loop (s\<lparr>dataForWriting := Some p\<rparr>) (length p) False now')"

text \<open>A waiting call goes on when it receives from the channel.\<close>

definition Write_resume :: "sendStream \<Rightarrow> nat \<Rightarrow> Time \<Rightarrow> write_result \<times> sendStream \<times> stream_event list" where
  "Write_resume s n now =
    (if writeChan s then Write_loop (s\<lparr>writeChan := False\<rparr>) n True now
     else if expired (ss_deadline s) now then Write_loop s n True now
     else (WWait, s, []))"

section \<open>Frames to send\<close>

definition getDataForWriting :: "sendStream \<Rightarrow> streamFlowController \<Rightarrow> connectionFlowController \<Rightarrow> StreamFrame \<Rightarrow> ByteCount \<Rightarrow>
    go_error + StreamFrame \<times> sendStream \<times> streamFlowController \<times> connectionFlowController" where
  "getDataForWriting s c conn f maxBytes =
    (case dataForWriting s of
       None \<Rightarrow> Inr (f\<lparr>sf_FinBit := finishedWriting s \<and> \<not> finSent s\<rparr>, s, c, conn)
     | Some d \<Rightarrow>
         let maxBytes = MinByteCount maxBytes (stream_SendWindowSize c conn)
         in if maxBytes = 0 then Inr (f, s, c, conn)
         else
           let more = word_of_nat (length d) > maxBytes;
               n = (if more then unat maxBytes else length d)
           in if n > sf_cap f then Inl (Panic (''slice bounds out of range [:%d] with capacity %d'', [int n, int (sf_cap f)]))
           else
             let f = f\<lparr>sf_Data := take n d\<rparr>;
                 s = (if more then s\<lparr>dataForWriting := Some (drop n d)\<rparr> else signalWrite (s\<lparr>dataForWriting := None\<rparr>));
                 s = s\<lparr>ss_writeOffset := ss_writeOffset s + StreamFrame_DataLen f\<rparr>
             in case stream_AddBytesSent c conn (StreamFrame_DataLen f) of (c, conn) \<Rightarrow>
                Inr (f\<lparr>sf_FinBit := finishedWriting s \<and> dataForWriting s = None \<and> \<not> finSent s\<rparr>, s, c, conn))"

definition popNewStreamFrame :: "sendStream \<Rightarrow> streamFlowController \<Rightarrow> connectionFlowController \<Rightarrow> StreamFrame \<Rightarrow> ByteCount \<Rightarrow>
    go_error + bool \<times> StreamFrame \<times> sendStream \<times> streamFlowController \<times> connectionFlowController \<times> stream_event list" where
  "popNewStreamFrame s c conn f maxBytes =
    (if canceledWrite s \<or> ss_closeForShutdownErr s \<noteq> None then Inr (False, f, s, c, conn, [])
     else tryE (StreamFrame_MaxDataLen f maxBytes) (\<lambda>maxDataLen.
       if maxDataLen = 0 then Inr (dataForWriting s \<noteq> None, f, s, c, conn, [])
       else tryE (getDataForWriting s c conn f maxDataLen) (\<lambda>(f, s, c, conn).
         if length (sf_Data f) = 0 \<and> \<not> sf_FinBit f then
           if dataForWriting s = None then Inr (False, f, s, c, conn, [])
           else case IsNewlyBlocked c of ((isBlocked, offset), c) \<Rightarrow>
             if isBlocked
             then Inr (False, f, s, c, conn,
                    [QueueControlFrame (FStreamDataBlocked \<lparr>sdbf_StreamID = ss_streamID s, sdbf_DataLimit = offset\<rparr>)])
             else Inr (True, f, s, c, conn, [])
         else
           let s = (if sf_FinBit f then s\<lparr>finSent := True\<rparr> else s)
           in Inr (dataForWriting s \<noteq> None, f, s, c, conn, []))))"

definition maybeGetRetransmission :: "sendStream \<Rightarrow> ByteCount \<Rightarrow> go_error + (StreamFrame option \<times> bool) \<times> sendStream" where
  "maybeGetRetransmission s maxBytes =
    (case retransmissionQueue s of
       [] \<Rightarrow> Inl (Panic (''index out of range [%d] with length %d'', [0, 0]))
     | f # rest \<Rightarrow>
         tryE (MaybeSplitOffFrame f maxBytes) (\<lambda>((newFrame, needsSplit), f).
         if needsSplit then Inr ((newFrame, True), s\<lparr>retransmissionQueue := f # rest\<rparr>)
         else Inr ((Some f, rest \<noteq> []), s\<lparr>retransmissionQueue := rest\<rparr>)))"

type_synonym popped = "(StreamFrame option \<times> bool) \<times> sendStream \<times> streamFlowController \<times> connectionFlowController \<times> stream_event list"

text \<open>A new frame, from the pool.\<close>

definition popNew :: "sendStream \<Rightarrow> streamFlowController \<Rightarrow> connectionFlowController \<Rightarrow> ByteCount \<Rightarrow> go_error + popped" where
  "popNew s c conn maxBytes =
    (let f = GetStreamFrame\<lparr>sf_FinBit := False, sf_StreamID := ss_streamID s, sf_Offset := ss_writeOffset s,
                            sf_DataLenPresent := True, sf_Data := []\<rparr>
     in tryE (popNewStreamFrame s c conn f maxBytes) (\<lambda>(hasMoreData, f, s, c, conn, es).
        if length (sf_Data f) = 0 \<and> \<not> sf_FinBit f
        then tryE (PutBack f) (\<lambda>_. Inr ((None, hasMoreData), s, c, conn, es))
        else Inr ((Some f, hasMoreData), s, c, conn, es)))"

definition popNewOrRetransmittedStreamFrame ::
    "sendStream \<Rightarrow> streamFlowController \<Rightarrow> connectionFlowController \<Rightarrow> ByteCount \<Rightarrow> go_error + popped" where
  "popNewOrRetransmittedStreamFrame s c conn maxBytes =
    (if length (retransmissionQueue s) > 0 then
       tryE (maybeGetRetransmission s maxBytes) (\<lambda>((f, hasMoreRetransmissions), s).
       if f \<noteq> None \<or> hasMoreRetransmissions then
         if f = None then Inr ((None, True), s, c, conn, []) else Inr ((f, True), s, c, conn, [])
       else popNew s c conn maxBytes)
     else popNew s c conn maxBytes)"

definition popStreamFrame :: "sendStream \<Rightarrow> streamFlowController \<Rightarrow> connectionFlowController \<Rightarrow> ByteCount \<Rightarrow> go_error + popped" where
  "popStreamFrame s c conn maxBytes =
    tryE (popNewOrRetransmittedStreamFrame s c conn maxBytes) (\<lambda>((f, hasMoreData), s, c, conn, es).
    let s = (if f \<noteq> None then s\<lparr>numOutstandingFrames := i64 (numOutstandingFrames s + 1)\<rparr> else s)
    in Inr ((f, hasMoreData), s, c, conn, es))"

definition ss_hasData :: "sendStream \<Rightarrow> bool" where
  "ss_hasData s \<longleftrightarrow> pendingLen s > 0"

section \<open>Acknowledged and lost frames\<close>

definition isNewlyCompleted :: "sendStream \<Rightarrow> bool \<times> sendStream" where
  "isNewlyCompleted s =
    (let completed = ((finSent s \<or> canceledWrite s) \<and> numOutstandingFrames s = 0 \<and> length (retransmissionQueue s) = 0)
     in if completed \<and> \<not> ss_completed s then (True, s\<lparr>ss_completed := True\<rparr>) else (False, s))"

definition frameAcked :: "sendStream \<Rightarrow> StreamFrame \<Rightarrow> go_error + sendStream \<times> stream_event list" where
  "frameAcked s f =
    tryE (PutBack f) (\<lambda>_.
    let s = s\<lparr>numOutstandingFrames := i64 (numOutstandingFrames s - 1)\<rparr>
    in if numOutstandingFrames s < 0 then Inl (Panic (''numOutStandingFrames negative'', []))
    else case isNewlyCompleted s of (newlyCompleted, s) \<Rightarrow>
      Inr (s, if newlyCompleted then [OnStreamCompleted (ss_streamID s)] else []))"

definition queueRetransmission :: "sendStream \<Rightarrow> StreamFrame \<Rightarrow> go_error + sendStream \<times> stream_event list" where
  "queueRetransmission s f =
    (let s = s\<lparr>retransmissionQueue := retransmissionQueue s @ [f\<lparr>sf_DataLenPresent := True\<rparr>],
               numOutstandingFrames := i64 (numOutstandingFrames s - 1)\<rparr>
     in if numOutstandingFrames s < 0 then Inl (Panic (''numOutStandingFrames negative'', []))
        else Inr (s, [OnHasStreamData (ss_streamID s)]))"

section \<open>Closing and cancelling\<close>

definition ss_Close :: "sendStream \<Rightarrow> stream_error option \<times> sendStream \<times> stream_event list" where
  "ss_Close s =
    (if canceledWrite s then (Some (ErrGo (Errorf (''Close called for canceled stream %d'', [ss_streamID s]))), s, [])
     else (None, s\<lparr>finishedWriting := True, ss_ctxDone := True\<rparr>, [OnHasStreamData (ss_streamID s)]))"

definition cancelWriteImpl :: "sendStream \<Rightarrow> u64 \<Rightarrow> stream_error \<Rightarrow> sendStream \<times> stream_event list" where
  "cancelWriteImpl s errorCode writeErr =
    (if canceledWrite s then (s, [])
     else
       let s = s\<lparr>canceledWrite := True, cancelWriteErr := Some writeErr\<rparr>
       in case isNewlyCompleted s of (newlyCompleted, s) \<Rightarrow>
         let s = signalWrite s;
             reset = QueueControlFrame (FResetStream \<lparr>rsf_StreamID = ss_streamID s, rsf_ErrorCode = errorCode, rsf_ByteOffset = ss_writeOffset s\<rparr>)
         in (s\<lparr>ss_ctxDone := True\<rparr>, reset # (if newlyCompleted then [OnStreamCompleted (ss_streamID s)] else [])))"

definition CancelWrite :: "sendStream \<Rightarrow> u64 \<Rightarrow> sendStream \<times> stream_event list" where
  "CancelWrite s errorCode =
    cancelWriteImpl s errorCode (ErrGo (Errorf (''Write on stream %d canceled with error code %d'', [ss_streamID s, uint errorCode])))"

definition handleMaxStreamDataFrame :: "sendStream \<Rightarrow> streamFlowController \<Rightarrow> MaxStreamDataFrame \<Rightarrow> streamFlowController \<times> stream_event list" where
  "handleMaxStreamDataFrame s c frame =
    (UpdateSendWindow c (msdf_ByteOffset frame), if dataForWriting s \<noteq> None then [OnHasStreamData (ss_streamID s)] else [])"

definition handleStopSendingFrame :: "sendStream \<Rightarrow> StopSendingFrame \<Rightarrow> sendStream \<times> stream_event list" where
  "handleStopSendingFrame s frame =
    cancelWriteImpl s (ssf_ErrorCode frame)
      (StreamCanceled (ssf_ErrorCode frame) (''stream %d was reset with error code %d'', [ss_streamID s, uint (ssf_ErrorCode frame)]))"

definition SetWriteDeadline :: "sendStream \<Rightarrow> Time \<Rightarrow> sendStream" where
  "SetWriteDeadline s t = signalWrite (s\<lparr>ss_deadline := t\<rparr>)"

definition ss_closeForShutdown :: "sendStream \<Rightarrow> stream_error option \<Rightarrow> sendStream" where
  "ss_closeForShutdown s err =
    (signalWrite (s\<lparr>ss_closedForShutdown := True, ss_closeForShutdownErr := err\<rparr>))\<lparr>ss_ctxDone := True\<rparr>"

section \<open>Popping frames\<close>

definition pending :: "sendStream \<Rightarrow> byte list" where
  "pending s = (case dataForWriting s of Some d \<Rightarrow> d | None \<Rightarrow> [])"

definition queued_ok :: "StreamID \<Rightarrow> StreamFrame \<Rightarrow> bool" where
  "queued_ok sid f \<longleftrightarrow> wf_StreamFrame f \<and> sf_StreamID f = sid \<and> (sf_fromPool f \<longrightarrow> sf_cap f = 1452)"

definition stream_ok :: "sendStream \<Rightarrow> bool" where
  "stream_ok s \<longleftrightarrow> id_ok (ss_streamID s) \<and> unat (ss_writeOffset s) + length (pending s) < 2 ^ 62 \<and> dataForWriting s \<noteq> Some [] \<and>
     (\<forall>f \<in> set (retransmissionQueue s). queued_ok (ss_streamID s) f \<and> sf_DataLenPresent f)"

definition fits :: "StreamFrame \<Rightarrow> ByteCount \<Rightarrow> bool" where
  "fits f maxBytes \<longleftrightarrow> (\<exists>len. StreamFrame_Length f = Inr len \<and> len \<le> maxBytes)"

text \<open>A new frame with the first \<open>n\<close> pending bytes, and the stream without them.\<close>

definition new_frame :: "sendStream \<Rightarrow> nat \<Rightarrow> StreamFrame" where
  "new_frame s n = \<lparr>sf_StreamID = ss_streamID s, sf_Offset = ss_writeOffset s, sf_Data = take n (pending s), sf_cap = 1452,
     sf_FinBit = (finishedWriting s \<and> n = length (pending s) \<and> \<not> finSent s), sf_DataLenPresent = True, sf_fromPool = True\<rparr>"

definition taken :: "sendStream \<Rightarrow> nat \<Rightarrow> bool \<Rightarrow> sendStream" where
  "taken s n chan = s\<lparr>dataForWriting := (if n = length (pending s) then None else Some (drop n (pending s))),
     ss_writeOffset := ss_writeOffset s + word_of_nat n, finSent := (finSent s \<or> sf_FinBit (new_frame s n)), writeChan := chan\<rparr>"

lemma getDataForWriting_run:
  assumes ok: "stream_ok s" and m: "unat maxBytes \<le> 1452" and f: "sf_cap f = 1452" "sf_Data f = []" "\<not> sf_FinBit f"
  shows "\<exists>n chan c' conn'. n \<le> length (pending s) \<and> n \<le> unat maxBytes \<and> (n = 0 \<longrightarrow> chan = writeChan s) \<and>
    (if n = 0 \<and> dataForWriting s \<noteq> None then getDataForWriting s c conn f maxBytes = Inr (f, s, c, conn)
     else getDataForWriting s c conn f maxBytes = Inr (f\<lparr>sf_Data := take n (pending s), sf_FinBit := sf_FinBit (new_frame s n)\<rparr>,
       (taken s n chan)\<lparr>finSent := finSent s\<rparr>, c', conn'))"
proof (cases "dataForWriting s")
  case None
  have "getDataForWriting s c conn f maxBytes = Inr (f\<lparr>sf_Data := take 0 (pending s), sf_FinBit := sf_FinBit (new_frame s 0)\<rparr>,
      (taken s 0 (writeChan s))\<lparr>finSent := finSent s\<rparr>, c, conn)"
    using None f by (simp add: getDataForWriting_def pending_def new_frame_def taken_def)
  then show ?thesis using None by (intro exI [of _ 0]) auto
next
  case (Some d)
  define k where "k = MinByteCount maxBytes (stream_SendWindowSize c conn)"
  have k: "unat k \<le> unat maxBytes" unfolding k_def unat_MinByteCount by simp
  have d: "d \<noteq> []" "length d < 2 ^ 62" "pending s = d" using ok Some by (auto simp: stream_ok_def pending_def)
  have more: "word_of_nat (length d) > k \<longleftrightarrow> unat k < length d" using d(2) by (simp add: word_less_nat_alt unat_word_of_nat_id)
  show ?thesis
  proof (cases "k = 0")
    case True
    then show ?thesis using Some by (intro exI [of _ 0]) (simp add: getDataForWriting_def flip: k_def)
  next
    case False
    define n where "n = (if unat k < length d then unat k else length d)"
    have n: "n \<le> length d" "n \<le> unat maxBytes" "n \<noteq> 0" using k False d(1) by (auto simp: n_def unat_gt_0)
    obtain c' conn' where fc: "stream_AddBytesSent c conn (word_of_nat n) = (c', conn')" by fastforce
    have "getDataForWriting s c conn f maxBytes = Inr (f\<lparr>sf_Data := take n d, sf_FinBit := sf_FinBit (new_frame s n)\<rparr>,
        (taken s n (writeChan s \<or> n = length d))\<lparr>finSent := finSent s\<rparr>, c', conn')"
    proof -
      have "(if word_of_nat (length d) > k then unat k else length d) = n" "n \<noteq> length d \<longleftrightarrow> word_of_nat (length d) > k" "\<not> n > sf_cap f"
        using more n(2) m f(1) by (auto simp: n_def)
      then show ?thesis using Some False n fc d(3)
        by (cases "n = length d") (simp_all add: getDataForWriting_def Let_def StreamFrame_DataLen_def signalWrite_def taken_def new_frame_def
            del: word_less_nat_alt flip: k_def)
    qed
    then show ?thesis using n d(3) by (intro exI [of _ n] exI [of _ "writeChan s \<or> n = length d"]) auto
  qed
qed

lemma new_frame_len: "frame_len (new_frame s n) k = frame_len (new_frame s m) k"
  by (simp add: frame_len_def base_len_def new_frame_def)

lemma stream_ok_ids: "stream_ok s \<Longrightarrow> ids_ok (new_frame s n)"
  by (simp add: stream_ok_def ids_ok_def varint_ok_def maxVarInt8_def new_frame_def word_le_nat_alt)

lemma new_frame_fits:
  assumes ok: "stream_ok s" and "n \<le> length (pending s)" "n \<le> unat m" and run: "StreamFrame_MaxDataLen (new_frame s 0) maxBytes = Inr m"
    and "m \<noteq> 0" "unat maxBytes \<le> 1452"
  shows "fits (new_frame s n) maxBytes" "unat m \<le> 1452"
proof -
  have ids: "ids_ok (new_frame s 0)" by (rule stream_ok_ids [OF ok])
  have mx: "unat maxBytes < 2 ^ 14" using assms(6) by simp
  have um: "unat m = (if frame_len (new_frame s 0) 0 > unat maxBytes then 0
      else (let k = unat maxBytes - frame_len (new_frame s 0) 0 in if k < 64 then k else k - 1))"
    using StreamFrame_MaxDataLen_eq [OF ids mx] run by (auto simp: new_frame_def)
  have m0: "0 < unat m" using assms(5) by (simp add: unat_gt_0)
  then have "frame_len (new_frame s 0) n \<le> unat maxBytes"
    using um assms(3) by (auto simp: frame_len_def small_len_def Let_def new_frame_def split: if_splits)
  then have le: "frame_len (new_frame s n) n \<le> unat maxBytes" by (simp add: new_frame_len [of s n n 0])
  show "unat m \<le> 1452" using um assms(6) by (auto simp: Let_def split: if_splits)
  then have n: "length (sf_Data (new_frame s n)) = n" "n < 2 ^ 14" using assms(2,3) by (auto simp: new_frame_def)
  have "StreamFrame_Length (new_frame s n) = Inr (word_of_nat (frame_len (new_frame s n) n))"
    using StreamFrame_Length_eq [OF stream_ok_ids [OF ok]] n by metis
  moreover have "(word_of_nat (frame_len (new_frame s n) n) :: u64) \<le> maxBytes"
    using le assms(6) by (simp add: word_le_nat_alt unat_word_of_nat_id)
  ultimately show "fits (new_frame s n) maxBytes" by (simp add: fits_def)
qed

lemma popNew_run:
  assumes ok: "stream_ok s" and m: "unat maxBytes \<le> 1452"
  shows "\<exists>f more s' c' conn' es. popNew s c conn maxBytes = Inr ((f, more), s', c', conn', es) \<and>
    (f = None \<and> s' = s \<or>
     (\<exists>n chan. f = Some (new_frame s n) \<and> s' = taken s n chan \<and> n \<le> length (pending s) \<and> n \<le> 1452 \<and> \<not> canceledWrite s \<and>
        (n > 0 \<or> sf_FinBit (new_frame s n)) \<and> fits (new_frame s n) maxBytes \<and> (n = 0 \<longrightarrow> pending s = [])))"
proof -
  define f0 where "f0 = (new_frame s 0)\<lparr>sf_FinBit := False\<rparr>"
  have f0: "GetStreamFrame\<lparr>sf_FinBit := False, sf_StreamID := ss_streamID s, sf_Offset := ss_writeOffset s,
      sf_DataLenPresent := True, sf_Data := []\<rparr> = f0"
    by (simp add: GetStreamFrame_def f0_def new_frame_def MaxReceivePacketSize_def)
  have put: "PutBack f0 = Inr True" by (simp add: PutBack_def putStreamFrame_def f0_def new_frame_def MaxReceivePacketSize_def)
  have fm: "StreamFrame_MaxDataLen f0 maxBytes = StreamFrame_MaxDataLen (new_frame s 0) maxBytes"
    by (simp add: f0_def StreamFrame_MaxDataLen_def cong: if_cong)
  have nofin: "length (sf_Data f0) = 0" "\<not> sf_FinBit f0" by (simp_all add: f0_def new_frame_def)
  obtain k where k: "StreamFrame_MaxDataLen (new_frame s 0) maxBytes = Inr k"
    using StreamFrame_MaxDataLen_eq [OF stream_ok_ids [OF ok], of maxBytes] m by force
  consider "canceledWrite s \<or> ss_closeForShutdownErr s \<noteq> None \<or> k = 0" | "\<not> canceledWrite s" "ss_closeForShutdownErr s = None" "k \<noteq> 0" by blast
  then show ?thesis
  proof cases
    case 1
    then have "\<exists>more. popNewStreamFrame s c conn f0 maxBytes = Inr (more, f0, s, c, conn, [])"
      using fm k by (auto simp: popNewStreamFrame_def)
    then show ?thesis using put nofin by (auto simp: popNew_def f0)
  next
    case 2
    have k1452: "unat k \<le> 1452" using new_frame_fits(2) [OF ok _ _ k 2(3) m, of 0] by simp
    obtain n chan c' conn' where n: "n \<le> length (pending s)" "n \<le> unat k" "n = 0 \<Longrightarrow> chan = writeChan s" and get:
      "if n = 0 \<and> dataForWriting s \<noteq> None then getDataForWriting s c conn f0 k = Inr (f0, s, c, conn)
       else getDataForWriting s c conn f0 k = Inr (f0\<lparr>sf_Data := take n (pending s), sf_FinBit := sf_FinBit (new_frame s n)\<rparr>,
         (taken s n chan)\<lparr>finSent := finSent s\<rparr>, c', conn')"
      using getDataForWriting_run [OF ok k1452, of f0 c conn] by (auto simp: f0_def new_frame_def)
    have new: "f0\<lparr>sf_Data := take n (pending s), sf_FinBit := sf_FinBit (new_frame s n)\<rparr> = new_frame s n"
      by (simp add: f0_def new_frame_def)
    have fit: "fits (new_frame s n) maxBytes" by (rule new_frame_fits(1) [OF ok n(1,2) k 2(3) m])
    have pn: "popNewStreamFrame s c conn f0 maxBytes = tryE (getDataForWriting s c conn f0 k) (\<lambda>(f, s, c, conn).
         if length (sf_Data f) = 0 \<and> \<not> sf_FinBit f then
           if dataForWriting s = None then Inr (False, f, s, c, conn, [])
           else case IsNewlyBlocked c of ((isBlocked, offset), c) \<Rightarrow>
             if isBlocked
             then Inr (False, f, s, c, conn,
                    [QueueControlFrame (FStreamDataBlocked \<lparr>sdbf_StreamID = ss_streamID s, sdbf_DataLimit = offset\<rparr>)])
             else Inr (True, f, s, c, conn, [])
         else
           let s = (if sf_FinBit f then s\<lparr>finSent := True\<rparr> else s)
           in Inr (dataForWriting s \<noteq> None, f, s, c, conn, []))"
      using 2 fm k by (simp add: popNewStreamFrame_def)
    consider "n = 0" "dataForWriting s \<noteq> None" | "n = 0" "dataForWriting s = None" "\<not> sf_FinBit (new_frame s n)"
      | "\<not> (n = 0 \<and> dataForWriting s \<noteq> None)" "n > 0 \<or> sf_FinBit (new_frame s n)" using neq0_conv by blast
    then show ?thesis
    proof cases
      case 1
      then have "\<exists>more c' es. popNewStreamFrame s c conn f0 maxBytes = Inr (more, f0, s, c', conn, es)"
        using get nofin unfolding pn by (auto split: prod.split)
      then show ?thesis using put nofin by (auto simp: popNew_def f0)
    next
      case 2
      then have "pending s = []" by (simp add: pending_def)
      then have "new_frame s n = f0" "(taken s n chan)\<lparr>finSent := finSent s\<rparr> = s"
        using 2 n(3) by (simp_all add: f0_def new_frame_def taken_def)
      then have "popNewStreamFrame s c conn f0 maxBytes = Inr (False, f0, s, c', conn', [])"
        using get 2 new nofin unfolding pn by simp
      then show ?thesis using put nofin by (auto simp: popNew_def f0)
    next
      case 3
      have d: "length (sf_Data (new_frame s n)) = n" using n(1) by (simp add: new_frame_def)
      then have e: "sf_Data (new_frame s n) = [] \<longleftrightarrow> n = 0" by auto
      have "sf_FinBit (new_frame s n) \<Longrightarrow> (taken s n chan)\<lparr>finSent := finSent s, finSent := True\<rparr> = taken s n chan"
        "\<not> sf_FinBit (new_frame s n) \<Longrightarrow> (taken s n chan)\<lparr>finSent := finSent s\<rparr> = taken s n chan"
        by (simp_all add: taken_def)
      then have "popNewStreamFrame s c conn f0 maxBytes = Inr (dataForWriting (taken s n chan) \<noteq> None, new_frame s n, taken s n chan, c', conn', [])"
        using get 3 new e unfolding pn by (cases "sf_FinBit (new_frame s n)") (simp_all add: Let_def taken_def)
      then have "popNew s c conn maxBytes = Inr ((Some (new_frame s n), dataForWriting (taken s n chan) \<noteq> None), taken s n chan, c', conn', [])"
        using 3(2) e by (auto simp: popNew_def f0)
      moreover have "n = 0 \<longrightarrow> pending s = []" using 3(1) by (auto simp: pending_def)
      ultimately show ?thesis using n(1,2) k1452 3(2) 2(1) fit by auto
    qed
  qed
qed

text \<open>The four outcomes of \<open>popStreamFrame\<close>: nothing, a new frame, a lost frame again, the first part of a lost frame.\<close>

definition oneMore :: "sendStream \<Rightarrow> sendStream" where
  "oneMore s = s\<lparr>numOutstandingFrames := i64 (numOutstandingFrames s + 1)\<rparr>"

inductive pops :: "sendStream \<Rightarrow> ByteCount \<Rightarrow> StreamFrame option \<Rightarrow> sendStream \<Rightarrow> bool" for s maxBytes where
  nothing: "pops s maxBytes None s"
| new: "n \<le> length (pending s) \<Longrightarrow> n \<le> 1452 \<Longrightarrow> \<not> canceledWrite s \<Longrightarrow> n > 0 \<or> sf_FinBit (new_frame s n) \<Longrightarrow>
    (n = 0 \<longrightarrow> pending s = []) \<Longrightarrow> fits (new_frame s n) maxBytes \<Longrightarrow>
    pops s maxBytes (Some (new_frame s n)) (oneMore (taken s n chan))"
| again: "retransmissionQueue s = f # rest \<Longrightarrow> fits f maxBytes \<Longrightarrow>
    pops s maxBytes (Some f) (oneMore (s\<lparr>retransmissionQueue := rest\<rparr>))"
| part: "retransmissionQueue s = f # rest \<Longrightarrow> sf_Data g @ sf_Data f' = sf_Data f \<Longrightarrow> sf_Data g \<noteq> [] \<Longrightarrow> sf_Data f' \<noteq> [] \<Longrightarrow>
    sf_Offset g = sf_Offset f \<Longrightarrow> unat (sf_Offset f') = unat (sf_Offset f) + length (sf_Data g) \<Longrightarrow>
    \<not> sf_FinBit g \<Longrightarrow> sf_FinBit f' = sf_FinBit f \<Longrightarrow> queued_ok (ss_streamID s) g \<Longrightarrow> queued_ok (ss_streamID s) f' \<Longrightarrow>
    sf_DataLenPresent g \<Longrightarrow> sf_DataLenPresent f' \<Longrightarrow> fits g maxBytes \<Longrightarrow>
    pops s maxBytes (Some g) (oneMore (s\<lparr>retransmissionQueue := f' # rest\<rparr>))"

inductive_cases pops_NoneE: "pops s maxBytes None s'"
inductive_cases pops_SomeE: "pops s maxBytes (Some f) s'"

lemma fits_whole:
  assumes "wf_StreamFrame f" and "frame_len f (length (sf_Data f)) \<le> unat maxBytes"
  shows "fits f maxBytes"
proof -
  have ids: "ids_ok f" "length (sf_Data f) < 2 ^ 14"
    using assms(1) by (auto simp: wf_StreamFrame_def ids_ok_def varint_ok_def maxVarInt8_def word_le_nat_alt)
  have "frame_len f (length (sf_Data f)) < 2 ^ 64" using le_less_trans [OF assms(2) unsigned_less [of maxBytes]] by simp
  then have "(word_of_nat (frame_len f (length (sf_Data f))) :: u64) \<le> maxBytes"
    using assms(2) by (simp only: word_le_nat_alt unat_word_of_nat_id)
  then show ?thesis using StreamFrame_Length_eq [OF ids] by (simp add: fits_def)
qed

lemma popStreamFrame_pops:
  assumes ok: "stream_ok s" and m: "unat maxBytes \<le> 1452"
  shows "\<exists>f more s' c' conn' es. popStreamFrame s c conn maxBytes = Inr ((f, more), s', c', conn', es) \<and> pops s maxBytes f s'"
proof (cases "retransmissionQueue s")
  case Nil
  obtain f more s' c' conn' es where p: "popNew s c conn maxBytes = Inr ((f, more), s', c', conn', es)"
    "f = None \<and> s' = s \<or>
     (\<exists>n chan. f = Some (new_frame s n) \<and> s' = taken s n chan \<and> n \<le> length (pending s) \<and> n \<le> 1452 \<and> \<not> canceledWrite s \<and>
        (n > 0 \<or> sf_FinBit (new_frame s n)) \<and> fits (new_frame s n) maxBytes \<and> (n = 0 \<longrightarrow> pending s = []))"
    using popNew_run [OF assms, of c conn] by blast
  have "popStreamFrame s c conn maxBytes = Inr ((f, more), if f = None then s' else oneMore s', c', conn', es)"
    using Nil p(1) by (auto simp: popStreamFrame_def popNewOrRetransmittedStreamFrame_def oneMore_def Let_def)
  then show ?thesis using p(2) pops.nothing [of s maxBytes] pops.new [of _ s maxBytes] by fastforce
next
  case (Cons f rest)
  have f: "wf_StreamFrame f" "queued_ok (ss_streamID s) f" "sf_DataLenPresent f" "unat maxBytes < 2 ^ 14"
    using ok m Cons by (auto simp: stream_ok_def queued_ok_def)
  note correct = MaybeSplitOffFrame_run [OF f(1,4)]
  obtain new split f' where sp: "MaybeSplitOffFrame f maxBytes = Inr ((new, split), f')" using correct by blast
  have long: "split \<longleftrightarrow> frame_len f (length (sf_Data f)) > unat maxBytes" using correct sp by simp
  have none: "f' = f" if "new = None" using correct sp that by simp
  have some: "split \<and> sf_Data g \<noteq> [] \<and> sf_Data f' \<noteq> [] \<and> sf_Data g @ sf_Data f' = sf_Data f \<and>
         sf_StreamID g = sf_StreamID f \<and> sf_StreamID f' = sf_StreamID f \<and>
         sf_Offset g = sf_Offset f \<and> unat (sf_Offset f') = unat (sf_Offset f) + length (sf_Data g) \<and>
         \<not> sf_FinBit g \<and> sf_FinBit f' = sf_FinBit f \<and> wf_StreamFrame g \<and> wf_StreamFrame f' \<and>
         sf_DataLenPresent g = sf_DataLenPresent f \<and> sf_DataLenPresent f' = sf_DataLenPresent f \<and>
         sf_cap g = sf_cap f \<and> sf_fromPool g = sf_fromPool f \<and> sf_cap f' = 1452 \<and> sf_fromPool f' \<and>
         (\<exists>len. StreamFrame_Length g = Inr len \<and> len \<le> maxBytes)" if "new = Some g" for g
    using correct sp that by (elim exE conjE) (simp only: sum.inject prod.inject option.case, simp)
  have run: "popStreamFrame s c conn maxBytes = (if split then
      case new of None \<Rightarrow> Inr ((None, True), s, c, conn, [])
      | Some g \<Rightarrow> Inr ((Some g, True), oneMore (s\<lparr>retransmissionQueue := f' # rest\<rparr>), c, conn, [])
      else Inr ((Some f', True), oneMore (s\<lparr>retransmissionQueue := rest\<rparr>), c, conn, []))"
    using Cons sp none by (cases new)
      (simp_all add: popStreamFrame_def popNewOrRetransmittedStreamFrame_def maybeGetRetransmission_def oneMore_def Let_def)
  consider "split" "new = None" | g where "split" "new = Some g" | "\<not> split" "new = None" 
  proof (cases new)
    case (Some g)
    then show ?thesis using some [OF Some] that(2) by blast
  qed (use that in blast)
  then show ?thesis
  proof cases
    case 1
    then show ?thesis using run pops.nothing by auto
  next
    case 2
    note g = some [OF 2(2)]
    have "pops s maxBytes (Some g) (oneMore (s\<lparr>retransmissionQueue := f' # rest\<rparr>))"
      using g f by (intro pops.part [OF Cons]) (auto simp: queued_ok_def fits_def)
    then show ?thesis using run 2 by auto
  next
    case 3
    then have "fits f maxBytes" using long fits_whole [OF f(1)] by simp
    then show ?thesis using run 3 none pops.again [OF Cons] by auto
  qed
qed

section \<open>Reliability\<close>

text \<open>
  A stream with its surroundings: all frames that were ever sent, those of them that were neither acknowledged nor lost,
  those that were acknowledged, and the bytes of the stream. Only \<open>Write\<close> changes the latter: it puts its data behind what was sent.
\<close>

record send_world =
  w_stream :: sendStream
  w_fc :: streamFlowController
  w_conn :: connectionFlowController
  w_sent :: "StreamFrame list"
  w_out :: "StreamFrame list"
  w_acked :: "StreamFrame list"
  w_content :: "byte list"
  w_completed :: nat

datatype ss_op = SsWrite "byte list" Time Time | SsResume nat Time | SsPop ByteCount | SsAck nat | SsLose nat | SsClose
  | SsCancel u64 | SsStop StopSendingFrame | SsMaxData MaxStreamDataFrame | SsConnWindow ByteCount | SsDeadline Time
  | SsShutdown "stream_error option"

definition wrote :: "send_world \<Rightarrow> sendStream \<Rightarrow> send_world" where
  "wrote w s = w\<lparr>w_stream := s, w_content := take (unat (ss_writeOffset s)) (w_content w) @ pending s\<rparr>"

definition reported :: "stream_event list \<Rightarrow> nat" where
  "reported es = length (filter (\<lambda>e. case e of OnStreamCompleted _ \<Rightarrow> True | _ \<Rightarrow> False) es)"

definition dropNth :: "nat \<Rightarrow> 'a list \<Rightarrow> 'a list" where
  "dropNth k xs = take k xs @ drop (Suc k) xs"

fun ss_step :: "send_world \<Rightarrow> ss_op \<Rightarrow> go_error + send_world" where
  "ss_step w (SsWrite p now now') = (case Write (w_stream w) p now now' of (_, s, _) \<Rightarrow> Inr (wrote w s))"
| "ss_step w (SsResume n now) = (case Write_resume (w_stream w) n now of (_, s, _) \<Rightarrow> Inr (wrote w s))"
| "ss_step w (SsPop maxBytes) =
    tryE (popStreamFrame (w_stream w) (w_fc w) (w_conn w) maxBytes) (\<lambda>((f, _), s, c, conn, _).
    Inr (w\<lparr>w_stream := s, w_fc := c, w_conn := conn, w_sent := w_sent w @ (case f of Some f \<Rightarrow> [f] | None \<Rightarrow> []),
      w_out := w_out w @ (case f of Some f \<Rightarrow> [f] | None \<Rightarrow> [])\<rparr>))"
| "ss_step w (SsAck k) =
    (if k < length (w_out w) then
       tryE (frameAcked (w_stream w) (w_out w ! k)) (\<lambda>(s, es).
       Inr (w\<lparr>w_stream := s, w_out := dropNth k (w_out w), w_acked := w_acked w @ [w_out w ! k], w_completed := w_completed w + reported es\<rparr>))
     else Inr w)"
| "ss_step w (SsLose k) =
    (if k < length (w_out w) then
       tryE (queueRetransmission (w_stream w) (w_out w ! k)) (\<lambda>(s, es). Inr (w\<lparr>w_stream := s, w_out := dropNth k (w_out w)\<rparr>))
     else Inr w)"
| "ss_step w SsClose = (case ss_Close (w_stream w) of (_, s, _) \<Rightarrow> Inr (w\<lparr>w_stream := s\<rparr>))"
| "ss_step w (SsCancel code) =
    (case CancelWrite (w_stream w) code of (s, es) \<Rightarrow> Inr (w\<lparr>w_stream := s, w_completed := w_completed w + reported es\<rparr>))"
| "ss_step w (SsStop frame) =
    (case handleStopSendingFrame (w_stream w) frame of (s, es) \<Rightarrow> Inr (w\<lparr>w_stream := s, w_completed := w_completed w + reported es\<rparr>))"
| "ss_step w (SsMaxData frame) = (case handleMaxStreamDataFrame (w_stream w) (w_fc w) frame of (c, _) \<Rightarrow> Inr (w\<lparr>w_fc := c\<rparr>))"
| "ss_step w (SsConnWindow offset) = Inr (w\<lparr>w_conn := UpdateSendWindow (w_conn w) offset\<rparr>)"
| "ss_step w (SsDeadline t) = Inr (w\<lparr>w_stream := SetWriteDeadline (w_stream w) t\<rparr>)"
| "ss_step w (SsShutdown err) = Inr (w\<lparr>w_stream := ss_closeForShutdown (w_stream w) err\<rparr>)"

fun ss_run :: "send_world \<Rightarrow> ss_op list \<Rightarrow> go_error + send_world" where
  "ss_run w [] = Inr w"
| "ss_run w (op # ops) = tryE (ss_step w op) (\<lambda>w. ss_run w ops)"

definition newSendWorld :: "StreamID \<Rightarrow> streamFlowController \<Rightarrow> connectionFlowController \<Rightarrow> send_world" where
  "newSendWorld sid c conn = \<lparr>w_stream = newSendStream sid, w_fc = c, w_conn = conn, w_sent = [], w_out = [], w_acked = [], w_content = [], w_completed = 0\<rparr>"

fun ss_op_ok :: "ss_op \<Rightarrow> bool" where
  "ss_op_ok (SsPop maxBytes) \<longleftrightarrow> unat maxBytes \<le> 1452"
| "ss_op_ok _ \<longleftrightarrow> True"

fun ss_op_bytes :: "ss_op \<Rightarrow> nat" where
  "ss_op_bytes (SsWrite p _ _) = length p"
| "ss_op_bytes _ = 0"

text \<open>A frame carries the bytes of the stream at its offset, and covers their positions.\<close>

definition carries_piece :: "byte list \<Rightarrow> StreamFrame \<Rightarrow> bool" where
  "carries_piece str f \<longleftrightarrow> sf_Data f = take (length (sf_Data f)) (drop (unat (sf_Offset f)) str)"

definition covered :: "StreamFrame set \<Rightarrow> nat set" where
  "covered F = (\<Union>f \<in> F. {unat (sf_Offset f) ..< unat (sf_Offset f) + length (sf_Data f)})"

definition all_frames :: "send_world \<Rightarrow> StreamFrame set" where
  "all_frames w = set (w_out w) \<union> set (w_acked w) \<union> set (retransmissionQueue (w_stream w))"

definition frame_inv :: "sendStream \<Rightarrow> byte list \<Rightarrow> StreamFrame \<Rightarrow> bool" where
  "frame_inv s str f \<longleftrightarrow> queued_ok (ss_streamID s) f \<and> carries_piece str f \<and>
     unat (sf_Offset f) + length (sf_Data f) \<le> unat (ss_writeOffset s) \<and>
     (sf_FinBit f \<longrightarrow> finSent s \<and> unat (sf_Offset f) + length (sf_Data f) = unat (ss_writeOffset s))"

text \<open>The frames \<open>F\<close> carry all that was sent, and the FIN if it was sent.\<close>

definition delivery :: "sendStream \<Rightarrow> byte list \<Rightarrow> StreamFrame set \<Rightarrow> bool" where
  "delivery s str F \<longleftrightarrow> unat (ss_writeOffset s) \<le> length str \<and> drop (unat (ss_writeOffset s)) str = pending s \<and>
     (\<forall>f \<in> F. frame_inv s str f) \<and> {0 ..< unat (ss_writeOffset s)} \<subseteq> covered F \<and>
     (finSent s \<longrightarrow> finishedWriting s \<and> dataForWriting s = None \<and> (\<exists>f \<in> F. sf_FinBit f))"

definition send_inv :: "send_world \<Rightarrow> bool" where
  "send_inv w \<longleftrightarrow> stream_ok (w_stream w) \<and> delivery (w_stream w) (w_content w) (all_frames w) \<and>
     (\<forall>f \<in> set (w_sent w). frame_inv (w_stream w) (w_content w) f) \<and>
     numOutstandingFrames (w_stream w) = int (length (w_out w)) \<and> w_completed w = (if ss_completed (w_stream w) then 1 else 0) \<and>
     (ss_completed (w_stream w) \<and> \<not> canceledWrite (w_stream w) \<longrightarrow>
       finSent (w_stream w) \<and> w_out w = [] \<and> retransmissionQueue (w_stream w) = [])"

lemma dropNth_set: "k < length xs \<Longrightarrow> insert (xs ! k) (set (dropNth k xs)) = set xs"
  unfolding dropNth_def by (subst (3) id_take_nth_drop [of k xs]) auto

lemma dropNth_length: "k < length xs \<Longrightarrow> length (dropNth k xs) = length xs - 1"
  by (simp add: dropNth_def)

lemma covered_Un: "covered (F \<union> G) = covered F \<union> covered G"
  by (auto simp: covered_def)

lemma frame_inv_cong:
  "ss_writeOffset s' = ss_writeOffset s \<Longrightarrow> ss_streamID s' = ss_streamID s \<Longrightarrow> finSent s' = finSent s \<Longrightarrow> frame_inv s' str f = frame_inv s str f"
  by (simp add: frame_inv_def)

lemma delivery_cong:
  assumes "delivery s str F" and "ss_writeOffset s' = ss_writeOffset s" "ss_streamID s' = ss_streamID s" "dataForWriting s' = dataForWriting s"
    "finSent s' = finSent s" "finishedWriting s \<longrightarrow> finishedWriting s'"
  shows "delivery s' str F"
  using assms by (auto simp: delivery_def frame_inv_def pending_def)

text \<open>Replacing a frame by frames that carry the same bytes.\<close>

lemma delivery_replace:
  assumes d: "delivery s str (insert f F)" and g: "\<forall>g \<in> G. frame_inv s str g" and c: "covered {f} \<subseteq> covered G"
    and fin: "sf_FinBit f \<Longrightarrow> \<exists>g \<in> G. sf_FinBit g"
  shows "delivery s str (G \<union> F)"
proof -
  have "covered (insert f F) = covered {f} \<union> covered F" using covered_Un [of "{f}" F] by simp
  then show ?thesis using d g c fin unfolding delivery_def covered_Un by auto
qed

text \<open>Writing: other data behind what was sent.\<close>

lemma frame_inv_wrote:
  assumes f: "frame_inv s str f" and o: "unat (ss_writeOffset s) \<le> length str" and s': "s' = s\<lparr>dataForWriting := D, writeChan := ch\<rparr>"
  shows "frame_inv s' (take (unat (ss_writeOffset s)) str @ pending s') f"
proof -
  let ?o = "unat (ss_writeOffset s)"
  have le: "unat (sf_Offset f) + length (sf_Data f) \<le> ?o" using f by (simp add: frame_inv_def)
  then have "take (length (sf_Data f)) (drop (unat (sf_Offset f)) (take ?o str @ pending s')) =
      take (length (sf_Data f)) (drop (unat (sf_Offset f)) str)"
    using o by (simp add: drop_take min_absorb1 le_diff_conv2 add.commute)
  then show ?thesis using f by (simp add: frame_inv_def carries_piece_def s')
qed

lemma delivery_wrote:
  assumes d: "delivery s str F" and "unat (ss_writeOffset s) + length (pending s') < 2 ^ 62"
    and s': "s' = s\<lparr>dataForWriting := D, writeChan := ch\<rparr>" and D: "D = dataForWriting s \<or> D = None \<or> \<not> finSent s"
  shows "delivery s' (take (unat (ss_writeOffset s)) str @ pending s') F"
proof -
  let ?o = "unat (ss_writeOffset s)"
  have o: "?o \<le> length str" using d by (simp add: delivery_def)
  have "frame_inv s' (take ?o str @ pending s') f" if "f \<in> F" for f
    using frame_inv_wrote [OF _ o s'] d that by (simp add: delivery_def)
  then show ?thesis using d o D by (auto simp: delivery_def s')
qed

text \<open>Sending a new frame.\<close>

lemma new_frame_ok:
  assumes ok: "stream_ok s" and n: "n \<le> length (pending s)" "n \<le> 1452" "n > 0 \<or> sf_FinBit (new_frame s n)"
  shows "queued_ok (ss_streamID s) (new_frame s n) \<and> unat (ss_writeOffset (taken s n chan)) = unat (ss_writeOffset s) + n \<and>
    pending (taken s n chan) = drop n (pending s) \<and> stream_ok (taken s n chan)"
proof -
  have b: "unat (ss_writeOffset s) + n < 2 ^ 62" using ok n(1) by (simp add: stream_ok_def)
  have off: "unat (ss_writeOffset (taken s n chan)) = unat (ss_writeOffset s) + n"
    using b by (simp add: taken_def unat_plus_lt unat_word_of_nat_id)
  have p: "pending (taken s n chan) = drop n (pending s)" by (simp add: taken_def pending_def)
  have "queued_ok (ss_streamID s) (new_frame s n)" using ok n b by (auto simp: queued_ok_def wf_StreamFrame_def new_frame_def stream_ok_def)
  moreover have "stream_ok (taken s n chan)" using ok n b off p by (auto simp: stream_ok_def taken_def)
  ultimately show ?thesis using off p by blast
qed

lemma frame_inv_taken:
  assumes "frame_inv s str g" and "unat (ss_writeOffset (taken s n chan)) = unat (ss_writeOffset s) + n"
    and "finSent s \<longrightarrow> pending s = []" and "n \<le> length (pending s)"
  shows "frame_inv (taken s n chan) str g"
  using assms by (auto simp: frame_inv_def taken_def)

lemma delivery_new:
  assumes ok: "stream_ok s" and d: "delivery s str F" and n: "n \<le> length (pending s)" "n \<le> 1452" "n > 0 \<or> sf_FinBit (new_frame s n)"
  shows "delivery (taken s n chan) str (insert (new_frame s n) F)"
proof -
  let ?s = "taken s n chan" and ?o = "unat (ss_writeOffset s)" and ?f = "new_frame s n"
  have nf: "queued_ok (ss_streamID s) ?f" "unat (ss_writeOffset ?s) = ?o + n" "pending ?s = drop n (pending s)"
    using new_frame_ok [OF ok n] by blast+
  have o: "?o \<le> length str" "drop ?o str = pending s" using d by (simp_all add: delivery_def)
  have len: "length (sf_Data ?f) = n" "sf_Offset ?f = ss_writeOffset s" using n(1) by (simp_all add: new_frame_def)
  have all: "finSent s \<Longrightarrow> pending s = []" using d by (simp add: delivery_def pending_def)
  have "frame_inv ?s str g" if g: "g \<in> F" for g
    using frame_inv_taken [OF _ nf(2)] all n(1) d g by (simp add: delivery_def)
  moreover have "frame_inv ?s str ?f"
  proof -
    have "carries_piece str ?f" using o len by (simp add: carries_piece_def) (simp add: new_frame_def)
    moreover have "sf_FinBit ?f \<longrightarrow> finSent ?s" by (simp add: taken_def)
    ultimately show ?thesis using nf(1,2) len by (simp add: frame_inv_def taken_def)
  qed
  moreover have "{0 ..< unat (ss_writeOffset ?s)} \<subseteq> covered (insert ?f F)"
  proof -
    have "covered {?f} = {?o ..< ?o + n}" using len by (simp add: covered_def)
    moreover have "{0 ..< ?o} \<subseteq> covered F" using d by (simp add: delivery_def)
    moreover have "x < ?o \<or> x \<in> {?o ..< ?o + n}" if "x < ?o + n" for x using that by auto
    ultimately show ?thesis using covered_Un [of "{?f}" F] nf(2) by fastforce
  qed
  moreover have "finSent ?s \<longrightarrow> finishedWriting ?s \<and> dataForWriting ?s = None \<and> (\<exists>g \<in> insert ?f F. sf_FinBit g)"
    using d all n by (auto simp: taken_def new_frame_def delivery_def)
  moreover have "unat (ss_writeOffset ?s) \<le> length str" "drop (unat (ss_writeOffset ?s)) str = pending ?s"
    using o nf(2,3) n(1) by (simp_all add: add.commute flip: drop_drop) (metis drop_drop length_drop le_diff_conv2 add.commute)
  ultimately show ?thesis by (simp add: delivery_def)
qed

lemma split_pieces:
  assumes "sf_Data g @ sf_Data f' = sf_Data f" and "sf_Offset g = sf_Offset f" and "unat (sf_Offset f') = unat (sf_Offset f) + length (sf_Data g)"
  shows "carries_piece str f \<Longrightarrow> carries_piece str g \<and> carries_piece str f'" "covered {f} = covered {g, f'}"
proof -
  let ?x = "drop (unat (sf_Offset f)) str" and ?a = "length (sf_Data g)" and ?b = "length (sf_Data f')"
  have len: "length (sf_Data f) = ?a + ?b" using arg_cong [OF assms(1), of length] by simp
  then show "covered {f} = covered {g, f'}" using assms(2,3) by (auto simp: covered_def)
  assume "carries_piece str f"
  then have x: "take ?a ?x @ take ?b (drop ?a ?x) = sf_Data g @ sf_Data f'"
    using len assms(1) unfolding carries_piece_def take_add [symmetric] by simp
  have "?a + ?b = min (length ?x) ?a + length (take ?b (drop ?a ?x))" using arg_cong [OF x, of length] by simp
  then have "length (take ?a ?x) = ?a" by auto
  then have "take ?a ?x = sf_Data g" "take ?b (drop ?a ?x) = sf_Data f'" using x by simp_all
  then show "carries_piece str g \<and> carries_piece str f'" using assms(2,3) by (simp add: carries_piece_def add.commute)
qed

text \<open>The steps.\<close>

definition budget :: "send_world \<Rightarrow> nat" where
  "budget w = unat (ss_writeOffset (w_stream w)) + length (pending (w_stream w))"

definition step_result :: "send_world \<Rightarrow> ss_op \<Rightarrow> send_world \<Rightarrow> bool" where
  "step_result w op w' \<longleftrightarrow> ss_step w op = Inr w' \<and> send_inv w' \<and> budget w' \<le> budget w + ss_op_bytes op \<and>
     length (w_out w') \<le> length (w_out w) + 1"

lemma oneMore_simps [simp]:
  "delivery (oneMore s) str F = delivery s str F" "frame_inv (oneMore s) str f = frame_inv s str f" "stream_ok (oneMore s) = stream_ok s" "pending (oneMore s) = pending s"
  "ss_writeOffset (oneMore s) = ss_writeOffset s" "ss_completed (oneMore s) = ss_completed s" "canceledWrite (oneMore s) = canceledWrite s"
  "retransmissionQueue (oneMore s) = retransmissionQueue s" "finSent (oneMore s) = finSent s"
  "ss_streamID (oneMore s) = ss_streamID s" "dataForWriting (oneMore s) = dataForWriting s"
  by (simp_all add: oneMore_def delivery_def frame_inv_def stream_ok_def pending_def)

lemma oneMore_count: "numOutstandingFrames s = int n \<Longrightarrow> n < 2 ^ 62 \<Longrightarrow> numOutstandingFrames (oneMore s) = int (Suc n)"
  by (simp add: oneMore_def i64_id)

lemma retrans_simps [simp]:
  "delivery (s\<lparr>retransmissionQueue := q\<rparr>) str F = delivery s str F" "frame_inv (s\<lparr>retransmissionQueue := q\<rparr>) str f = frame_inv s str f" "pending (s\<lparr>retransmissionQueue := q\<rparr>) = pending s"
  by (simp_all add: delivery_def frame_inv_def pending_def)

lemma pops_keep:
  assumes inv: "send_inv w" and p: "pops (w_stream w) m f s'" and out: "length (w_out w) < 2 ^ 62"
    and w': "w' = w\<lparr>w_stream := s', w_fc := c, w_conn := conn, w_sent := w_sent w @ (case f of Some f \<Rightarrow> [f] | None \<Rightarrow> []),
      w_out := w_out w @ (case f of Some f \<Rightarrow> [f] | None \<Rightarrow> [])\<rparr>"
  shows "send_inv w' \<and> budget w' \<le> budget w"
proof -
  let ?s = "w_stream w"
  have ok: "stream_ok ?s" and d: "delivery ?s (w_content w) (all_frames w)" and num: "numOutstandingFrames ?s = int (length (w_out w))"
    and compl: "w_completed w = (if ss_completed ?s then 1 else 0)" "ss_completed ?s \<and> \<not> canceledWrite ?s \<longrightarrow> finSent ?s \<and> w_out w = [] \<and> retransmissionQueue ?s = []"
    and sent: "\<forall>f \<in> set (w_sent w). frame_inv ?s (w_content w) f" using inv by (simp_all add: send_inv_def)
  show ?thesis using p
  proof cases
    case nothing
    then show ?thesis using inv w' by (simp add: send_inv_def budget_def all_frames_def)
  next
    case (new n chan)
    let ?t = "taken ?s n chan"
    have nf: "unat (ss_writeOffset ?t) = unat (ss_writeOffset ?s) + n" "pending ?t = drop n (pending ?s)" "stream_ok ?t"
      using new_frame_ok [OF ok new(3,4,6)] by blast+
    have "\<not> ss_completed ?s" using new compl d
      by (cases "ss_completed ?s") (auto simp: delivery_def new_frame_def pending_def)
    moreover have "numOutstandingFrames (oneMore ?t) = int (Suc (length (w_out w)))" by (rule oneMore_count) (use num out in \<open>simp_all add: taken_def\<close>)
    moreover have dt: "delivery ?t (w_content w) (insert (new_frame ?s n) (all_frames w))" by (rule delivery_new [OF ok d new(3,4,6)])
    moreover have "frame_inv ?t (w_content w) g" if "g \<in> set (w_sent w)" for g
      using frame_inv_taken [OF _ nf(1) _ new(3)] sent that d by (simp add: delivery_def pending_def)
    moreover have "frame_inv ?t (w_content w) (new_frame ?s n)" using dt by (simp add: delivery_def)
    moreover have "insert (new_frame ?s n) (all_frames w) = all_frames w'" using new w' by (auto simp: all_frames_def taken_def)
    ultimately show ?thesis using new w' nf compl by (auto simp: send_inv_def budget_def) (simp_all add: taken_def)
  next
    case (again f rest)
    have "all_frames w' = all_frames w" using again w' by (auto simp: all_frames_def)
    moreover have "numOutstandingFrames s' = int (Suc (length (w_out w)))"
      unfolding again by (rule oneMore_count) (use num out in simp_all)
    moreover have "stream_ok s'" using ok again by (simp add: stream_ok_def)
    moreover have "frame_inv ?s (w_content w) f" using d again by (simp add: delivery_def all_frames_def)
    ultimately show ?thesis using d again w' compl sent by (auto simp: send_inv_def budget_def)
  next
    case (part f rest g f')
    have num': "numOutstandingFrames s' = int (Suc (length (w_out w)))"
      unfolding part by (rule oneMore_count) (use num out in simp_all)
    define F where "F = set (w_out w) \<union> set (w_acked w) \<union> set rest"
    have F: "all_frames w = insert f F" "all_frames w' = {g, f'} \<union> F" using part w' by (auto simp: all_frames_def F_def)
    have f: "frame_inv ?s (w_content w) f" using d F by (simp add: delivery_def)
    have len: "length (sf_Data f) = length (sf_Data g) + length (sf_Data f')" unfolding part(4) [symmetric] by simp
    have dg: "delivery ?s (w_content w) ({g, f'} \<union> F)"
    proof (rule delivery_replace)
      show "delivery ?s (w_content w) (insert f F)" using d F by simp
      show "\<forall>h \<in> {g, f'}. frame_inv ?s (w_content w) h"
        using f part split_pieces(1) [OF part(4,7,8)] len by (auto simp: frame_inv_def)
      show "covered {f} \<subseteq> covered {g, f'}" using split_pieces(2) [OF part(4,7,8)] by simp
      show "sf_FinBit f \<Longrightarrow> \<exists>h \<in> {g, f'}. sf_FinBit h" using part by simp
    qed
    have "stream_ok s'" using ok part by (simp add: stream_ok_def)
    moreover have "frame_inv ?s (w_content w) g" using dg by (simp add: delivery_def)
    ultimately show ?thesis using num' part w' compl F sent dg by (auto simp: send_inv_def budget_def)
  qed
qed

lemma isNewlyCompleted_run:
  "isNewlyCompleted s = (b, s') \<Longrightarrow> s' = s\<lparr>ss_completed := ss_completed s \<or> b\<rparr> \<and>
    (b \<longrightarrow> \<not> ss_completed s \<and> (finSent s \<or> canceledWrite s) \<and> numOutstandingFrames s = 0 \<and> retransmissionQueue s = [])"
  by (auto simp: isNewlyCompleted_def Let_def split: if_splits)

lemma completed_simps [simp]:
  "delivery (s\<lparr>ss_completed := b\<rparr>) str F = delivery s str F" "stream_ok (s\<lparr>ss_completed := b\<rparr>) = stream_ok s" "pending (s\<lparr>ss_completed := b\<rparr>) = pending s"
  "delivery (s\<lparr>numOutstandingFrames := n\<rparr>) str F = delivery s str F" "stream_ok (s\<lparr>numOutstandingFrames := n\<rparr>) = stream_ok s"
  "pending (s\<lparr>numOutstandingFrames := n\<rparr>) = pending s"
  "frame_inv (s\<lparr>ss_completed := b\<rparr>) str f = frame_inv s str f" "frame_inv (s\<lparr>numOutstandingFrames := n\<rparr>) str f = frame_inv s str f"
  by (simp_all add: delivery_def frame_inv_def stream_ok_def pending_def)

lemma outstanding:
  assumes inv: "send_inv w" and k: "k < length (w_out w)" and out: "length (w_out w) < 2 ^ 62"
  shows "i64 (numOutstandingFrames (w_stream w) - 1) = int (length (w_out w)) - 1" "queued_ok (ss_streamID (w_stream w)) (w_out w ! k)"
    "frame_inv (w_stream w) (w_content w) (w_out w ! k)"
proof -
  show "i64 (numOutstandingFrames (w_stream w) - 1) = int (length (w_out w)) - 1" using inv k out by (simp add: send_inv_def)
  have "w_out w ! k \<in> all_frames w" using k by (simp add: all_frames_def)
  then show "frame_inv (w_stream w) (w_content w) (w_out w ! k)" using inv by (simp add: send_inv_def delivery_def)
  then show "queued_ok (ss_streamID (w_stream w)) (w_out w ! k)" by (simp add: frame_inv_def)
qed

lemma step_ack:
  assumes inv: "send_inv w" and k: "k < length (w_out w)" and out: "length (w_out w) < 2 ^ 62"
  shows "\<exists>w'. step_result w (SsAck k) w'"
proof -
  let ?s = "w_stream w" and ?f = "w_out w ! k"
  note o = outstanding [OF assms]
  have "PutBack ?f = Inr (sf_fromPool ?f)" using o(2) by (cases "sf_fromPool ?f") (simp_all add: PutBack_def putStreamFrame_def queued_ok_def MaxReceivePacketSize_def)
  then obtain x where put: "PutBack ?f = Inr x" by blast
  define s1 where "s1 = ?s\<lparr>numOutstandingFrames := int (length (w_out w)) - 1\<rparr>"
  obtain b s' where b: "isNewlyCompleted s1 = (b, s')" by fastforce
  note nc = isNewlyCompleted_run [OF b]
  define w' where "w' = w\<lparr>w_stream := s', w_out := dropNth k (w_out w), w_acked := w_acked w @ [?f], w_completed := w_completed w + (if b then 1 else 0)\<rparr>"
  have "frameAcked ?s ?f = Inr (s', if b then [OnStreamCompleted (ss_streamID s')] else [])"
    using put b o(1) k by (auto simp: frameAcked_def Let_def s1_def)
  then have "ss_step w (SsAck k) = Inr w'" using k by (simp add: w'_def reported_def)
  moreover have len: "length (dropNth k (w_out w)) = length (w_out w) - 1" by (rule dropNth_length [OF k])
  moreover have "all_frames w' = all_frames w" using nc dropNth_set [OF k] by (auto simp: all_frames_def w'_def s1_def)
  moreover have "delivery ?s (w_content w) (all_frames w)" "stream_ok ?s" "\<forall>f \<in> set (w_sent w). frame_inv ?s (w_content w) f" "w_completed w = (if ss_completed ?s then 1 else 0)"
    "ss_completed ?s \<and> \<not> canceledWrite ?s \<longrightarrow> finSent ?s \<and> w_out w = [] \<and> retransmissionQueue ?s = []" using inv by (simp_all add: send_inv_def)
  ultimately show ?thesis using nc k
    by (intro exI [of _ w']) (auto simp: step_result_def send_inv_def budget_def w'_def s1_def)
qed

lemma step_lose:
  assumes inv: "send_inv w" and k: "k < length (w_out w)" and out: "length (w_out w) < 2 ^ 62"
  shows "\<exists>w'. step_result w (SsLose k) w'"
proof -
  let ?s = "w_stream w" and ?f = "w_out w ! k"
  let ?g = "?f\<lparr>sf_DataLenPresent := True\<rparr>"
  note o = outstanding [OF assms]
  define s' where "s' = ?s\<lparr>retransmissionQueue := retransmissionQueue ?s @ [?g], numOutstandingFrames := int (length (w_out w)) - 1\<rparr>"
  define w' where "w' = w\<lparr>w_stream := s', w_out := dropNth k (w_out w)\<rparr>"
  have "queueRetransmission ?s ?f = Inr (s', [OnHasStreamData (ss_streamID ?s)])" using o(1) k by (auto simp: queueRetransmission_def Let_def s'_def)
  then have step: "ss_step w (SsLose k) = Inr w'" using k by (simp add: w'_def)
  have len: "length (dropNth k (w_out w)) = length (w_out w) - 1" by (rule dropNth_length [OF k])
  define F where "F = set (dropNth k (w_out w)) \<union> set (w_acked w) \<union> set (retransmissionQueue ?s)"
  have F: "all_frames w = insert ?f F" "all_frames w' = {?g} \<union> F" using dropNth_set [OF k] by (auto simp: all_frames_def w'_def s'_def F_def)
  have g: "frame_inv ?s (w_content w) ?g" using o(3) by (auto simp: frame_inv_def queued_ok_def wf_StreamFrame_def carries_piece_def)
  have "delivery ?s (w_content w) ({?g} \<union> F)"
    by (rule delivery_replace) (use inv F g in \<open>auto simp: send_inv_def covered_def\<close>)
  then have "send_inv w'" using inv F(2) len k g unfolding send_inv_def
    by (auto simp: w'_def s'_def stream_ok_def pending_def frame_inv_def)
  then show ?thesis using step len by (intro exI [of _ w']) (simp add: step_result_def budget_def w'_def s'_def)
qed

text \<open>\<open>Write\<close> changes only the data to be sent and the channel.\<close>

lemma Write_loop_run:
  assumes "Write_loop s n b now = (r, s', es)"
  shows "\<exists>D. s' = s\<lparr>dataForWriting := D\<rparr> \<and> (D = dataForWriting s \<or> D = None)"
  using assms by (auto simp: Write_loop_def Let_def split: if_splits intro: exI [of _ "dataForWriting s"])

definition overwrites :: "sendStream \<Rightarrow> byte list \<Rightarrow> sendStream \<Rightarrow> bool" where
  "overwrites s p s' \<longleftrightarrow> (\<exists>D ch. s' = s\<lparr>dataForWriting := D, writeChan := ch\<rparr> \<and>
     (D = dataForWriting s \<or> D = None \<or> D = Some p \<and> p \<noteq> [] \<and> \<not> finishedWriting s))"

lemma Write_overwrites:
  assumes "Write s p now now' = (r, s', es)"
  shows "overwrites s p s'"
proof -
  have "overwrites s p s" by (auto simp: overwrites_def intro!: exI [of _ "dataForWriting s"] exI [of _ "writeChan s"])
  moreover have "overwrites s p (s\<lparr>dataForWriting := D\<rparr>)" if "D = Some p \<or> D = None" "p \<noteq> []" "\<not> finishedWriting s" for D
    using that by (auto simp: overwrites_def intro!: exI [of _ "writeChan s"])
  ultimately show ?thesis using assms Write_loop_run by (auto simp: Write_def split: if_splits dest!: Write_loop_run)
qed

lemma Write_resume_overwrites:
  assumes "Write_resume s n now = (r, s', es)"
  shows "overwrites s p s'"
proof -
  have *: "overwrites s p (s\<lparr>dataForWriting := D, writeChan := ch\<rparr>)" if "D = dataForWriting s \<or> D = None" for D ch
    using that unfolding overwrites_def by blast
  have comm: "s\<lparr>writeChan := ch, dataForWriting := D\<rparr> = s\<lparr>dataForWriting := D, writeChan := ch\<rparr>" for D ch by simp
  show ?thesis using assms * [of "dataForWriting s" "writeChan s"] * [of None "writeChan s"] * [of "dataForWriting s" False] * [of None False]
    unfolding comm [symmetric]
    by (auto simp: Write_resume_def split: if_splits dest!: Write_loop_run)
qed

lemma overwrites_keep:
  assumes inv: "send_inv w" and o: "overwrites (w_stream w) p s'" and room: "budget w + length p < 2 ^ 62"
  shows "send_inv (wrote w s') \<and> budget (wrote w s') \<le> budget w + length p \<and> w_out (wrote w s') = w_out w"
proof -
  let ?s = "w_stream w"
  obtain D ch where s': "s' = ?s\<lparr>dataForWriting := D, writeChan := ch\<rparr>"
    and D: "D = dataForWriting ?s \<or> D = None \<or> D = Some p \<and> p \<noteq> [] \<and> \<not> finishedWriting ?s" using o by (auto simp: overwrites_def)
  have d: "delivery ?s (w_content w) (all_frames w)" "stream_ok ?s" using inv by (simp_all add: send_inv_def)
  have len: "length (pending s') \<le> length (pending ?s) + length p" using D by (auto simp: pending_def s')
  have fin: "D = dataForWriting ?s \<or> D = None \<or> \<not> finSent ?s" using D d by (auto simp: delivery_def)
  have "delivery s' (take (unat (ss_writeOffset ?s)) (w_content w) @ pending s') (all_frames w)"
    by (rule delivery_wrote [OF d(1) _ s' fin]) (use len room in \<open>simp add: budget_def\<close>)
  moreover have "\<forall>f \<in> set (w_sent w). frame_inv s' (take (unat (ss_writeOffset ?s)) (w_content w) @ pending s') f"
    using frame_inv_wrote [OF _ _ s'] inv d by (simp add: send_inv_def delivery_def)
  moreover have "all_frames (wrote w s') = all_frames w" by (auto simp: all_frames_def wrote_def s')
  moreover have "stream_ok s'" using d(2) D len room unfolding stream_ok_def by (auto simp: s' budget_def)
  ultimately show ?thesis using inv len unfolding send_inv_def
    by (auto simp: wrote_def s' budget_def)
qed

text \<open>The other operations.\<close>

definition kept :: "sendStream \<Rightarrow> sendStream \<Rightarrow> bool" where
  "kept s s' \<longleftrightarrow> dataForWriting s' = dataForWriting s \<and> ss_writeOffset s' = ss_writeOffset s \<and> ss_streamID s' = ss_streamID s \<and>
     retransmissionQueue s' = retransmissionQueue s \<and> numOutstandingFrames s' = numOutstandingFrames s \<and> finSent s' = finSent s \<and>
     (finishedWriting s \<longrightarrow> finishedWriting s') \<and> (canceledWrite s \<longrightarrow> canceledWrite s')"

lemma step_keep:
  assumes inv: "send_inv w" and k: "kept (w_stream w) s'"
    and step: "ss_step w op = Inr (w\<lparr>w_stream := s', w_fc := c, w_conn := conn, w_completed := w_completed w + (if b then 1 else 0)\<rparr>)"
    and b: "ss_completed s' = (ss_completed (w_stream w) \<or> b)" "b \<longrightarrow> \<not> ss_completed (w_stream w) \<and> canceledWrite s'"
  shows "\<exists>w'. step_result w op w'"
proof -
  define w' where "w' = w\<lparr>w_stream := s', w_fc := c, w_conn := conn, w_completed := w_completed w + (if b then 1 else 0)\<rparr>"
  have p: "pending s' = pending (w_stream w)" using k by (simp add: kept_def pending_def)
  have "all_frames w' = all_frames w" using k by (simp add: all_frames_def w'_def kept_def)
  moreover have "delivery s' (w_content w) (all_frames w)" by (rule delivery_cong) (use inv k in \<open>auto simp: send_inv_def kept_def\<close>)
  moreover have "stream_ok s'" using inv k p by (simp add: send_inv_def stream_ok_def kept_def)
  moreover have "\<forall>f \<in> set (w_sent w). frame_inv s' (w_content w) f" using inv k frame_inv_cong [of s' "w_stream w"] by (simp add: send_inv_def kept_def)
  moreover have "ss_completed s' \<and> \<not> canceledWrite s' \<longrightarrow> finSent s' \<and> w_out w = [] \<and> retransmissionQueue s' = []"
    "numOutstandingFrames s' = int (length (w_out w))" "w_completed w + (if b then 1 else 0) = (if ss_completed s' then 1 else 0)"
    using inv k b by (auto simp: send_inv_def kept_def)
  ultimately have "send_inv w'" by (simp add: send_inv_def w'_def)
  moreover have "budget w' = budget w" using k p by (simp add: budget_def w'_def kept_def)
  ultimately show ?thesis using step by (intro exI [of _ w']) (simp add: step_result_def w'_def)
qed

lemmas step_quiet = step_keep [where b = False, simplified]

lemma cancelWriteImpl_run:
  "\<exists>b s' es. cancelWriteImpl s code err = (s', es) \<and> reported es = (if b then 1 else 0) \<and> kept s s' \<and>
    ss_completed s' = (ss_completed s \<or> b) \<and> (b \<longrightarrow> \<not> ss_completed s \<and> canceledWrite s')"
proof (cases "canceledWrite s")
  case True
  then show ?thesis by (intro exI [of _ False] exI) (auto simp: cancelWriteImpl_def reported_def kept_def)
next
  case False
  obtain b s' where b: "isNewlyCompleted (s\<lparr>canceledWrite := True, cancelWriteErr := Some err\<rparr>) = (b, s')" by fastforce
  obtain s2 es where c: "cancelWriteImpl s code err = (s2, es)" by fastforce
  then have "s2 = s'\<lparr>writeChan := True, ss_ctxDone := True\<rparr>" "reported es = (if b then 1 else 0)"
    using False b by (auto simp: cancelWriteImpl_def Let_def reported_def signalWrite_def)
  then show ?thesis using c isNewlyCompleted_run [OF b]
    by (intro exI [of _ b] exI [of _ s2] exI [of _ es]) (auto simp: kept_def)
qed

lemma step_cancel:
  assumes inv: "send_inv w"
    and step: "ss_step w op = (case cancelWriteImpl (w_stream w) code err of (s, es) \<Rightarrow> Inr (w\<lparr>w_stream := s, w_completed := w_completed w + reported es\<rparr>))"
  shows "\<exists>w'. step_result w op w'"
proof -
  obtain s' es b where c: "cancelWriteImpl (w_stream w) code err = (s', es)" "reported es = (if b then 1 else 0)" "kept (w_stream w) s'"
    "ss_completed s' = (ss_completed (w_stream w) \<or> b)" "b \<longrightarrow> \<not> ss_completed (w_stream w) \<and> canceledWrite s'"
    using cancelWriteImpl_run [of "w_stream w" code err] by blast
  show ?thesis by (rule step_keep [OF inv c(3) _ c(4,5), where c = "w_fc w" and conn = "w_conn w"]) (simp add: step c(1,2))
qed

lemma ss_step_inv:
  assumes inv: "send_inv w" and ok: "ss_op_ok op" and out: "length (w_out w) < 2 ^ 62" and room: "budget w + ss_op_bytes op < 2 ^ 62"
  shows "\<exists>w'. step_result w op w'"
proof (cases op)
  case (SsWrite p now now')
  obtain r s' es where wr: "Write (w_stream w) p now now' = (r, s', es)" using prod_cases3 by blast
  show ?thesis using overwrites_keep [OF inv Write_overwrites [OF wr]] room wr SsWrite by (auto simp: step_result_def)
next
  case (SsResume n now)
  obtain r s' es where wr: "Write_resume (w_stream w) n now = (r, s', es)" using prod_cases3 by blast
  show ?thesis using overwrites_keep [OF inv Write_resume_overwrites [OF wr, of "[]"]] room wr SsResume by (auto simp: step_result_def)
next
  case (SsPop m)
  have "stream_ok (w_stream w)" "unat m \<le> 1452" using inv ok SsPop by (simp_all add: send_inv_def)
  then obtain f more s' c' conn' es where p: "popStreamFrame (w_stream w) (w_fc w) (w_conn w) m = Inr ((f, more), s', c', conn', es)"
    "pops (w_stream w) m f s'" using popStreamFrame_pops by blast
  then show ?thesis using pops_keep [OF inv p(2) out refl] SsPop by (auto simp: step_result_def split: option.split)
next
  case (SsAck k)
  then show ?thesis using step_ack [OF inv _ out] inv by (cases "k < length (w_out w)") (auto simp: step_result_def)
next
  case (SsLose k)
  then show ?thesis using step_lose [OF inv _ out] inv by (cases "k < length (w_out w)") (auto simp: step_result_def)
next
  case SsClose
  show ?thesis by (rule step_quiet [OF inv, where s' = "fst (snd (ss_Close (w_stream w)))" and c = "w_fc w" and conn = "w_conn w"])
    (simp_all add: SsClose ss_Close_def kept_def)
next
  case (SsCancel code)
  then show ?thesis by (intro step_cancel [OF inv]) (simp add: CancelWrite_def)
next
  case (SsStop frame)
  then show ?thesis by (intro step_cancel [OF inv]) (simp add: handleStopSendingFrame_def)
next
  case (SsMaxData frame)
  show ?thesis by (rule step_quiet [OF inv, where s' = "w_stream w" and conn = "w_conn w"])
    (simp_all add: SsMaxData handleMaxStreamDataFrame_def kept_def)
next
  case (SsConnWindow offset)
  show ?thesis by (rule step_quiet [OF inv, where s' = "w_stream w" and c = "w_fc w"]) (simp_all add: SsConnWindow kept_def)
next
  case (SsDeadline t)
  show ?thesis by (rule step_quiet [OF inv, where s' = "SetWriteDeadline (w_stream w) t" and c = "w_fc w" and conn = "w_conn w"])
    (simp_all add: SsDeadline SetWriteDeadline_def signalWrite_def kept_def)
next
  case (SsShutdown err)
  show ?thesis by (rule step_quiet [OF inv, where s' = "ss_closeForShutdown (w_stream w) err" and c = "w_fc w" and conn = "w_conn w"])
    (simp_all add: SsShutdown ss_closeForShutdown_def signalWrite_def kept_def)
qed

lemma ss_run_inv:
  assumes "send_inv w" and "\<forall>op \<in> set ops. ss_op_ok op" and "length (w_out w) + length ops < 2 ^ 62"
    and "budget w + sum_list (map ss_op_bytes ops) < 2 ^ 62"
  shows "\<exists>w'. ss_run w ops = Inr w' \<and> send_inv w' \<and> budget w' \<le> budget w + sum_list (map ss_op_bytes ops)"
  using assms
proof (induction ops arbitrary: w)
  case Nil
  then show ?case by simp
next
  case (Cons op ops)
  have "length (w_out w) < 2 ^ 62" "budget w + ss_op_bytes op < 2 ^ 62" using Cons.prems(3,4) by simp_all
  then obtain w' where w': "step_result w op w'" using ss_step_inv [of w op] Cons.prems(1,2) by auto
  then have "\<exists>w''. ss_run w' ops = Inr w'' \<and> send_inv w'' \<and> budget w'' \<le> budget w' + sum_list (map ss_op_bytes ops)" using Cons.prems by (intro Cons.IH) (auto simp: step_result_def)
  then show ?case using w' by (fastforce simp: step_result_def)
qed

lemma budget_content:
  assumes "send_inv w"
  shows "budget w = length (w_content w)"
proof -
  have "unat (ss_writeOffset (w_stream w)) \<le> length (w_content w)" "pending (w_stream w) = drop (unat (ss_writeOffset (w_stream w))) (w_content w)"
    using assms by (simp_all add: send_inv_def delivery_def)
  then show ?thesis by (simp add: budget_def)
qed

lemma newSendWorld_inv: "id_ok sid \<Longrightarrow> send_inv (newSendWorld sid c conn)"
  by (simp add: send_inv_def newSendWorld_def newSendStream_def stream_ok_def pending_def delivery_def all_frames_def covered_def)


definition reliable_ops :: "ss_op list" where
  "reliable_ops = [SsWrite [1, 2, 3, 4, 5] 0 0, SsPop 6, SsPop 20, SsResume 5 0, SsLose 0, SsClose, SsPop 5, SsPop 1000, SsPop 1000,
     SsAck 2, SsAck 0, SsAck 0, SsAck 0]"

definition reliable_run :: "go_error + send_world" where
  "reliable_run = ss_run (newSendWorld 4 (NewStreamFlowController 4 0 0 100) (UpdateSendWindow (NewConnectionFlowController 0 0) 100)) reliable_ops"

lemma reliable_run_eval: "case reliable_run of Inr w \<Rightarrow> w_completed w = 1 \<and> \<not> canceledWrite (w_stream w) \<and> w_content w = [1, 2, 3, 4, 5] | Inl _ \<Rightarrow> False"
  by code_simp


end
