(* ===== verification/IncomingStreams.thy ===== *)
theory IncomingStreams
  imports SendStream "HOL-Library.AList"
begin

text \<open>
  The streams a peer opens: \<open>streams_map_incoming_generic.go\<close>, from which the maps for bidirectional and unidirectional
  streams are generated. A map is generic in its items; it makes them with \<open>newStream\<close> and closes them with
  \<open>closeForShutdown\<close>. A Go map is an association list with distinct keys. MAX_STREAMS frames that are queued are returned.
  A call of \<open>AcceptStream\<close> that finds no stream waits; what happens between giving up the lock and waiting for the channel
  is modelled by a step relation.

  The lemmas show that the map implements a specification with three numbers, the streams opened, accepted and finished:
  the peer never has more streams than it may, and gets a new one for each that was accepted and finished.
\<close>

section \<open>The map\<close>

datatype maps_error = StreamError string "StreamNum list" | TooManyOpenStreams | ClosedWith stream_error | ContextDone | GoError go_error

record 'a incomingItemsMap =
  newStreamChanClosed :: bool
  i_streams :: "(StreamNum \<times> 'a) list"
  streamsToDelete :: "StreamNum set"
  nextStreamToAccept :: StreamNum
  nextStreamToOpen :: StreamNum
  i_maxStream :: StreamNum
  maxNumStreams :: u64
  i_closeErr :: "stream_error option"

definition newIncomingItemsMap :: "u64 \<Rightarrow> 'a incomingItemsMap" where
  "newIncomingItemsMap maxStreams =
    \<lparr>newStreamChanClosed = False, i_streams = [], streamsToDelete = {}, nextStreamToAccept = 1, nextStreamToOpen = 1,
     i_maxStream = int64_of maxStreams, maxNumStreams = maxStreams, i_closeErr = None\<rparr>"

definition i_deleteStream :: "StreamType \<Rightarrow> 'a incomingItemsMap \<Rightarrow> StreamNum \<Rightarrow> maps_error + 'a incomingItemsMap \<times> Frame list" where
  "i_deleteStream stype m num =
    (if map_of (i_streams m) num = None then Inl (StreamError ''Tried to delete unknown stream %d'' [num])
     else if num \<ge> nextStreamToAccept m then
       if num \<in> streamsToDelete m then Inl (StreamError ''Tried to delete stream %d multiple times'' [num])
       else Inr (m\<lparr>streamsToDelete := insert num (streamsToDelete m)\<rparr>, [])
     else
       let m = m\<lparr>i_streams := AList.delete num (i_streams m)\<rparr> in
       if maxNumStreams m > word_of_nat (length (i_streams m)) then
         let numNewStreams = maxNumStreams m - word_of_nat (length (i_streams m));
             m = m\<lparr>i_maxStream := i64 (i64 (nextStreamToOpen m + int64_of numNewStreams) - 1)\<rparr>
         in Inr (m, [FMaxStreams \<lparr>msf_Type = stype, msf_MaxStreamNum = i_maxStream m\<rparr>])
       else Inr (m, []))"

definition i_DeleteStream :: "StreamType \<Rightarrow> 'a incomingItemsMap \<Rightarrow> StreamNum \<Rightarrow> maps_error + 'a incomingItemsMap \<times> Frame list" where
  "i_DeleteStream stype m num = i_deleteStream stype m num"

text \<open>One pass of the loop of \<open>AcceptStream\<close> under the lock, and what comes after it.\<close>

datatype 'a accept_result = Accepted 'a | AcceptFailed maps_error | AcceptWaits

definition i_AcceptStream :: "StreamType \<Rightarrow> 'a incomingItemsMap \<Rightarrow> 'a accept_result \<times> 'a incomingItemsMap \<times> Frame list" where
  "i_AcceptStream stype m =
    (let num = nextStreamToAccept m in
     case i_closeErr m of
       Some e \<Rightarrow> (AcceptFailed (ClosedWith e), m, [])
     | None \<Rightarrow>
         (case map_of (i_streams m) num of
            None \<Rightarrow> (AcceptWaits, m, [])
          | Some str \<Rightarrow>
              let m = m\<lparr>nextStreamToAccept := i64 (nextStreamToAccept m + 1)\<rparr> in
              if num \<in> streamsToDelete m then
                let m = m\<lparr>streamsToDelete := streamsToDelete m - {num}\<rparr> in
                (case i_deleteStream stype m num of Inl e \<Rightarrow> (AcceptFailed e, m, []) | Inr (m, fs) \<Rightarrow> (Accepted str, m, fs))
              else (Accepted str, m, [])))"

text \<open>A waiting call goes on when its context is done or when it receives from the channel.\<close>

definition i_AcceptStream_resume :: "StreamType \<Rightarrow> bool \<Rightarrow> 'a incomingItemsMap \<Rightarrow> 'a accept_result \<times> 'a incomingItemsMap \<times> Frame list" where
  "i_AcceptStream_resume stype ctxDone m = (if ctxDone then (AcceptFailed ContextDone, m, []) else i_AcceptStream stype m)"

text \<open>The loop that opens all streams up to \<open>num\<close>; each one tries to send on the channel, which panics when it is closed.\<close>

definition i_openUpTo :: "(StreamNum \<Rightarrow> 'a) \<Rightarrow> (StreamNum \<times> 'a) list \<Rightarrow> StreamNum \<Rightarrow> StreamNum \<Rightarrow> (StreamNum \<times> 'a) list" where
  "i_openUpTo newStream streams from num = foldl (\<lambda>ss newNum. AList.update newNum (newStream newNum) ss) streams [from..num]"

definition i_GetOrOpenStream :: "(StreamNum \<Rightarrow> 'a) \<Rightarrow> 'a incomingItemsMap \<Rightarrow> StreamNum \<Rightarrow> maps_error + 'a option \<times> 'a incomingItemsMap" where
  "i_GetOrOpenStream newStream m num =
    (if num > i_maxStream m then Inl (StreamError ''peer tried to open stream %d (current limit: %d)'' [num, i_maxStream m])
     else if num < nextStreamToOpen m then Inr (if num \<notin> streamsToDelete m then map_of (i_streams m) num else None, m)
     else if newStreamChanClosed m then Inl (GoError (Panic (''send on closed channel'', [])))
     else
       let m = m\<lparr>i_streams := i_openUpTo newStream (i_streams m) (nextStreamToOpen m) num, nextStreamToOpen := i64 (num + 1)\<rparr>
       in Inr (map_of (i_streams m) num, m))"

definition i_CloseWithError :: "('a \<Rightarrow> stream_error option \<Rightarrow> 'a) \<Rightarrow> 'a incomingItemsMap \<Rightarrow> stream_error option \<Rightarrow> maps_error + 'a incomingItemsMap" where
  "i_CloseWithError closeForShutdown m err =
    (let m = m\<lparr>i_closeErr := err, i_streams := map (\<lambda>(n, str). (n, closeForShutdown str err)) (i_streams m)\<rparr> in
     if newStreamChanClosed m then Inl (GoError (Panic (''close of closed channel'', [])))
     else Inr (m\<lparr>newStreamChanClosed := True\<rparr>))"

section \<open>Specification\<close>

record in_spec =
  sp_opened :: int
  sp_accepted :: int
  sp_finished :: "int set"

definition sp_limit :: "int \<Rightarrow> in_spec \<Rightarrow> int" where
  "sp_limit limit0 s = limit0 + int (card (sp_finished s \<inter> {1..sp_accepted s}))"

definition noStreams :: in_spec where
  "noStreams = \<lparr>sp_opened = 0, sp_accepted = 0, sp_finished = {}\<rparr>"

datatype in_op = IOpen StreamNum | IAccept | IDelete StreamNum

datatype 'a in_obs = ObsOpen "maps_error + 'a option" | ObsAccept "'a accept_result" "Frame list" | ObsDelete "maps_error + Frame list"

definition maxStreamsFrame :: "StreamType \<Rightarrow> int \<Rightarrow> in_spec \<Rightarrow> Frame list" where
  "maxStreamsFrame stype limit0 s = [FMaxStreams \<lparr>msf_Type = stype, msf_MaxStreamNum = sp_limit limit0 s\<rparr>]"

fun in_spec_step :: "(StreamNum \<Rightarrow> 'a) \<Rightarrow> StreamType \<Rightarrow> int \<Rightarrow> in_spec \<Rightarrow> in_op \<Rightarrow> 'a in_obs \<times> in_spec" where
  "in_spec_step newStream stype limit0 s (IOpen num) =
    (if num > sp_limit limit0 s then (ObsOpen (Inl (StreamError ''peer tried to open stream %d (current limit: %d)'' [num, sp_limit limit0 s])), s)
     else (ObsOpen (Inr (if num \<in> sp_finished s then None else Some (newStream num))), s\<lparr>sp_opened := max (sp_opened s) num\<rparr>))"
| "in_spec_step newStream stype limit0 s IAccept =
    (if sp_accepted s < sp_opened s then
       let num = sp_accepted s + 1; s' = s\<lparr>sp_accepted := num\<rparr>
       in (ObsAccept (Accepted (newStream num)) (if num \<in> sp_finished s then maxStreamsFrame stype limit0 s' else []), s')
     else (ObsAccept AcceptWaits [], s))"
| "in_spec_step newStream stype limit0 s (IDelete num) =
    (if num \<notin> {1..sp_opened s} \<or> num \<in> sp_finished s \<and> num \<le> sp_accepted s
     then (ObsDelete (Inl (StreamError ''Tried to delete unknown stream %d'' [num])), s)
     else if num \<in> sp_finished s then (ObsDelete (Inl (StreamError ''Tried to delete stream %d multiple times'' [num])), s)
     else
       let s' = s\<lparr>sp_finished := insert num (sp_finished s)\<rparr>
       in (ObsDelete (Inr (if num \<le> sp_accepted s then maxStreamsFrame stype limit0 s' else [])), s'))"

fun in_step :: "(StreamNum \<Rightarrow> 'a) \<Rightarrow> StreamType \<Rightarrow> 'a incomingItemsMap \<Rightarrow> in_op \<Rightarrow> 'a in_obs \<times> 'a incomingItemsMap" where
  "in_step newStream stype m (IOpen num) =
    (case i_GetOrOpenStream newStream m num of Inl e \<Rightarrow> (ObsOpen (Inl e), m) | Inr (str, m') \<Rightarrow> (ObsOpen (Inr str), m'))"
| "in_step newStream stype m IAccept = (case i_AcceptStream stype m of (r, m', fs) \<Rightarrow> (ObsAccept r fs, m'))"
| "in_step newStream stype m (IDelete num) =
    (case i_DeleteStream stype m num of Inl e \<Rightarrow> (ObsDelete (Inl e), m) | Inr (m', fs) \<Rightarrow> (ObsDelete (Inr fs), m'))"

fun in_run :: "(StreamNum \<Rightarrow> 'a) \<Rightarrow> StreamType \<Rightarrow> 'a incomingItemsMap \<Rightarrow> in_op list \<Rightarrow> 'a in_obs list \<times> 'a incomingItemsMap" where
  "in_run newStream stype m [] = ([], m)"
| "in_run newStream stype m (op # ops) =
    (case in_step newStream stype m op of (ob, m) \<Rightarrow> case in_run newStream stype m ops of (obs, m) \<Rightarrow> (ob # obs, m))"

fun in_spec_run :: "(StreamNum \<Rightarrow> 'a) \<Rightarrow> StreamType \<Rightarrow> int \<Rightarrow> in_spec \<Rightarrow> in_op list \<Rightarrow> 'a in_obs list \<times> in_spec" where
  "in_spec_run newStream stype limit0 s [] = ([], s)"
| "in_spec_run newStream stype limit0 s (op # ops) =
    (case in_spec_step newStream stype limit0 s op of (ob, s) \<Rightarrow> case in_spec_run newStream stype limit0 s ops of (obs, s) \<Rightarrow> (ob # obs, s))"

section \<open>The map implements the specification\<close>

definition gone :: "in_spec \<Rightarrow> int set" where
  "gone s = sp_finished s \<inter> {1..sp_accepted s}"

definition in_rel :: "(StreamNum \<Rightarrow> 'a) \<Rightarrow> u64 \<Rightarrow> 'a incomingItemsMap \<Rightarrow> in_spec \<Rightarrow> bool" where
  "in_rel newStream limit0 m s \<longleftrightarrow>
    nextStreamToOpen m = sp_opened s + 1 \<and> nextStreamToAccept m = sp_accepted s + 1 \<and> 0 \<le> sp_accepted s \<and> sp_accepted s \<le> sp_opened s \<and>
    sp_finished s \<subseteq> {1..sp_opened s} \<and> streamsToDelete m = sp_finished s - {1..sp_accepted s} \<and> distinct (map fst (i_streams m)) \<and>
    (\<forall>n. map_of (i_streams m) n = (if n \<in> {1..sp_opened s} - gone s then Some (newStream n) else None)) \<and>
    i_maxStream m = sp_limit (uint limit0) s \<and> sp_opened s \<le> i_maxStream m \<and> maxNumStreams m = limit0 \<and> i_closeErr m = None \<and> \<not> newStreamChanClosed m"

lemma gone_finite: "finite (gone s)"
  by (simp add: gone_def)

lemma sp_limit_gone: "sp_limit limit0 s = limit0 + int (card (gone s))"
  by (simp add: sp_limit_def gone_def)

lemma in_rel_length:
  assumes "in_rel newStream limit0 m s"
  shows "int (length (i_streams m)) = sp_opened s - int (card (gone s))"
proof -
  have d: "dom (map_of (i_streams m)) = {1..sp_opened s} - gone s" using assms by (auto simp: in_rel_def dom_def)
  have "length (i_streams m) = card (set (map fst (i_streams m)))" using assms by (simp only: in_rel_def distinct_card length_map)
  also have "\<dots> = card ({1..sp_opened s} - gone s)" using d by (simp add: dom_map_of_conv_image_fst)
  also have "\<dots> = card {1..sp_opened s} - card (gone s)" using assms by (intro card_Diff_subset gone_finite) (auto simp: in_rel_def gone_def)
  finally have l: "length (i_streams m) = nat (sp_opened s) - card (gone s)" by simp
  have "card (gone s) \<le> card {1..sp_opened s}" using assms by (intro card_mono) (auto simp: in_rel_def gone_def)
  then show ?thesis using l assms by (simp add: in_rel_def)
qed

lemma i_openUpTo_map_of:
  "map_of (i_openUpTo newStream ss from num) n = (if from \<le> n \<and> n \<le> num then Some (newStream n) else map_of ss n)"
proof -
  have "map_of (foldl (\<lambda>ss k. AList.update k (newStream k) ss) ss ks) n = (if n \<in> set ks then Some (newStream n) else map_of ss n)" for ks
    by (induction ks arbitrary: ss) (simp_all add: AList.update_conv')
  then show ?thesis by (simp add: i_openUpTo_def)
qed

lemma i_openUpTo_distinct: "distinct (map fst ss) \<Longrightarrow> distinct (map fst (i_openUpTo newStream ss from num))"
proof -
  have "distinct (map fst ss) \<Longrightarrow> distinct (map fst (foldl (\<lambda>ss k. AList.update k (newStream k) ss) ss ks))" for ks
    by (induction ks arbitrary: ss) (simp_all add: AList.distinct_update)
  then show "distinct (map fst ss) \<Longrightarrow> ?thesis" by (simp add: i_openUpTo_def)
qed


definition in_sim :: "(StreamNum \<Rightarrow> 'a) \<Rightarrow> u64 \<Rightarrow> 'a in_obs \<times> 'a incomingItemsMap \<Rightarrow> 'a in_obs \<times> in_spec \<Rightarrow> bool" where
  "in_sim newStream limit0 c a \<longleftrightarrow> fst c = fst a \<and> in_rel newStream limit0 (snd c) (snd a)"

lemma in_open_sim:
  assumes r: "in_rel newStream limit0 m s" and n: "1 \<le> num" and l: "sp_limit (uint limit0) s < 2 ^ 62"
  shows "in_sim newStream limit0 (in_step newStream stype m (IOpen num)) (in_spec_step newStream stype (uint limit0) s (IOpen num))"
proof (cases "num > sp_limit (uint limit0) s")
  case True
  then show ?thesis using r by (simp add: in_sim_def i_GetOrOpenStream_def in_rel_def)
next
  case le: False
  show ?thesis
  proof (cases "num \<le> sp_opened s")
    case True
    then have "(if num \<notin> streamsToDelete m then map_of (i_streams m) num else None) = (if num \<in> sp_finished s then None else Some (newStream num))"
      using r n by (auto simp: in_rel_def gone_def)
    then show ?thesis using r True le by (simp add: in_sim_def i_GetOrOpenStream_def in_rel_def max_def)
  next
    case False
    define m' where "m' = m\<lparr>i_streams := i_openUpTo newStream (i_streams m) (nextStreamToOpen m) num, nextStreamToOpen := num + 1\<rparr>"
    have "num \<notin> sp_finished s" "num < 2 ^ 62" using r False l le by (auto simp: in_rel_def)
    then have "i_GetOrOpenStream newStream m num = Inr (Some (newStream num), m')" using r False le n
      by (simp add: i_GetOrOpenStream_def in_rel_def m'_def i_openUpTo_map_of)
    moreover have "in_rel newStream limit0 m' (s\<lparr>sp_opened := num\<rparr>)" using r False le
      by (auto simp: in_rel_def m'_def i_openUpTo_map_of gone_def i_openUpTo_distinct sp_limit_def)
    ultimately show ?thesis using le False \<open>num \<notin> sp_finished s\<close> by (simp add: in_sim_def max_def)
  qed
qed

lemma length_AList_delete:
  assumes "distinct (map fst xs)" and "map_of xs k = Some v"
  shows "length xs = Suc (length (AList.delete k xs))"
  using assms
proof (induction xs)
  case (Cons x xs)
  then show ?case
  proof (cases "fst x = k")
    case True
    then have "AList.delete k xs = xs" using Cons.prems(1) by (intro AList.delete_id) auto
    then show ?thesis using True by (cases x) simp
  qed (cases x, auto)
qed simp

text \<open>Deleting a stream that was accepted.\<close>

lemma in_delete_accepted:
  assumes r: "in_rel newStream limit0 m s" and num: "num \<in> {1..sp_accepted s}" "num \<notin> sp_finished s" and l: "sp_limit (uint limit0) s + 1 < 2 ^ 62"
  shows "\<exists>m'. i_deleteStream stype m num = Inr (m', maxStreamsFrame stype (uint limit0) (s\<lparr>sp_finished := insert num (sp_finished s)\<rparr>)) \<and>
    in_rel newStream limit0 m' (s\<lparr>sp_finished := insert num (sp_finished s)\<rparr>)"
proof -
  let ?s = "s\<lparr>sp_finished := insert num (sp_finished s)\<rparr>"
  let ?ss = "AList.delete num (i_streams m)"
  have g: "gone ?s = insert num (gone s)" "num \<notin> gone s" using num by (auto simp: gone_def)
  then have card: "card (gone ?s) = Suc (card (gone s))" using gone_finite by simp
  have mem: "map_of (i_streams m) num = Some (newStream num)" using r num g(2) by (auto simp: in_rel_def)
  have len: "length (i_streams m) = Suc (length ?ss)" using r mem by (intro length_AList_delete) (simp_all add: in_rel_def)
  then have k: "int (length ?ss) = sp_opened s - int (card (gone s)) - 1" using in_rel_length [OF r] by simp
  moreover have open': "sp_opened s \<le> uint limit0 + int (card (gone s))" using r by (simp add: in_rel_def sp_limit_gone)
  moreover define k0 where "k0 = unat limit0"
  have i: "uint limit0 = int k0" by (simp add: k0_def)
  ultimately have lt: "length ?ss < k0" by linarith
  have "k0 < 2 ^ 62" using l i by (simp add: sp_limit_gone)
  moreover have w: "unat (word_of_nat (length ?ss) :: u64) = length ?ss" using lt unat_lt_u64 [of limit0] unfolding k0_def by (intro unat_word_of_nat_id) simp
  moreover have "unat (limit0 - word_of_nat (length ?ss)) = k0 - length ?ss" using lt w unfolding k0_def by (subst unat_minus_le) simp_all
  ultimately have "int64_of (limit0 - word_of_nat (length ?ss)) = int (k0 - length ?ss)" by (subst int64_of_small) simp_all
  also have "\<dots> = uint limit0 - int (length ?ss)" using lt i by (simp add: of_nat_diff)
  finally have "sp_opened s + 1 + int64_of (limit0 - word_of_nat (length ?ss)) - 1 = sp_limit (uint limit0) ?s" using k card by (simp add: sp_limit_gone)
  then have "i64 (i64 (sp_opened s + 1 + int64_of (limit0 - word_of_nat (length ?ss))) - 1) = sp_limit (uint limit0) ?s"
    using l card by (simp add: sp_limit_gone)
  moreover have "limit0 > word_of_nat (length ?ss)" using lt w by (simp add: word_less_nat_alt k0_def)
  moreover have "\<not> num \<ge> nextStreamToAccept m" "maxNumStreams m = limit0" "nextStreamToOpen m = sp_opened s + 1" using r num by (simp_all add: in_rel_def)
  ultimately have "i_deleteStream stype m num = Inr (m\<lparr>i_streams := ?ss, i_maxStream := sp_limit (uint limit0) ?s\<rparr>, maxStreamsFrame stype (uint limit0) ?s)"
    using mem by (simp add: i_deleteStream_def maxStreamsFrame_def)
  moreover have "in_rel newStream limit0 (m\<lparr>i_streams := ?ss, i_maxStream := sp_limit (uint limit0) ?s\<rparr>) ?s"
    using r num g card open' by (auto simp: in_rel_def AList.delete_conv' AList.distinct_delete sp_limit_gone)
  ultimately show ?thesis by blast
qed

lemma in_delete_sim:
  assumes r: "in_rel newStream limit0 m s" and l: "sp_limit (uint limit0) s + 1 < 2 ^ 62"
  shows "in_sim newStream limit0 (in_step newStream stype m (IDelete num)) (in_spec_step newStream stype (uint limit0) s (IDelete num))"
proof (cases "num \<notin> {1..sp_opened s} \<or> num \<in> sp_finished s \<and> num \<le> sp_accepted s")
  case True
  then have "map_of (i_streams m) num = None" using r by (auto simp: in_rel_def gone_def)
  then show ?thesis using r True by (simp add: in_sim_def i_DeleteStream_def i_deleteStream_def)
next
  case known: False
  then have mem: "map_of (i_streams m) num = Some (newStream num)" using r by (auto simp: in_rel_def gone_def)
  show ?thesis
  proof (cases "num \<le> sp_accepted s")
    case True
    then have "num \<in> {1..sp_accepted s}" "num \<notin> sp_finished s" using known by auto
    from in_delete_accepted [OF r this l, of stype] show ?thesis using known True \<open>num \<notin> sp_finished s\<close> by (auto simp: in_sim_def i_DeleteStream_def Let_def)
  next
    case False
    have "i_deleteStream stype m num = (if num \<in> sp_finished s then Inl (StreamError ''Tried to delete stream %d multiple times'' [num])
        else Inr (m\<lparr>streamsToDelete := insert num (streamsToDelete m)\<rparr>, []))"
      using r mem False by (auto simp: i_deleteStream_def in_rel_def)
    moreover have "in_rel newStream limit0 (m\<lparr>streamsToDelete := insert num (streamsToDelete m)\<rparr>) (s\<lparr>sp_finished := insert num (sp_finished s)\<rparr>)" if "num \<notin> sp_finished s"
      using r known False that by (auto simp: in_rel_def gone_def sp_limit_def)
    ultimately show ?thesis using r known False by (auto simp: in_sim_def i_DeleteStream_def Let_def)
  qed
qed


lemma in_accept_sim:
  assumes r: "in_rel newStream limit0 m s" and l: "sp_limit (uint limit0) s + 1 < 2 ^ 62"
  shows "in_sim newStream limit0 (in_step newStream stype m IAccept) (in_spec_step newStream stype (uint limit0) s IAccept)"
proof -
  let ?num = "sp_accepted s + 1"
  have num: "nextStreamToAccept m = ?num" "i_closeErr m = None" "?num \<notin> gone s" "sp_accepted s \<le> sp_opened s" "sp_opened s \<le> sp_limit (uint limit0) s"
    using r by (auto simp: in_rel_def gone_def)
  then have lookup: "map_of (i_streams m) ?num = (if sp_accepted s < sp_opened s then Some (newStream ?num) else None)" using r by (auto simp: in_rel_def)
  show ?thesis
  proof (cases "sp_accepted s < sp_opened s")
    case False
    then show ?thesis using num lookup r by (simp add: in_sim_def i_AcceptStream_def)
  next
    case True
    let ?m = "m\<lparr>nextStreamToAccept := ?num + 1\<rparr>" and ?s = "s\<lparr>sp_accepted := ?num\<rparr>"
    have i: "i64 (?num + 1) = ?num + 1" using num l True r by (simp add: in_rel_def)
    show ?thesis
    proof (cases "?num \<in> sp_finished s")
      case False
      have "{1..?num} = insert ?num {1..sp_accepted s}" using r by (auto simp: in_rel_def)
      then have "gone ?s = gone s" "sp_finished s - {1..?num} = sp_finished s - {1..sp_accepted s}" using False by (simp_all add: gone_def)
      then have "in_rel newStream limit0 ?m ?s" using r True by (simp add: in_rel_def sp_limit_gone)
      moreover have "?num \<notin> streamsToDelete m" using r False by (auto simp: in_rel_def)
      ultimately show ?thesis using num lookup True False i by (simp add: in_sim_def i_AcceptStream_def Let_def)
    next
      case fin: True
      define t where "t = s\<lparr>sp_accepted := ?num, sp_finished := sp_finished s - {?num}\<rparr>"
      have t: "gone t = gone s" "t\<lparr>sp_finished := insert ?num (sp_finished t)\<rparr> = ?s" using fin by (auto simp: gone_def t_def, cases s, simp add: insert_absorb)
      have rt: "in_rel newStream limit0 (?m\<lparr>streamsToDelete := streamsToDelete m - {?num}\<rparr>) t" using r True t(1) by (auto simp: in_rel_def t_def sp_limit_gone)
      have lt: "sp_limit (uint limit0) t + 1 < 2 ^ 62" using l t(1) by (simp add: sp_limit_gone)
      have "?num \<in> {1..sp_accepted t}" "?num \<notin> sp_finished t" using r by (auto simp: t_def in_rel_def)
      from in_delete_accepted [OF rt this lt, of stype, unfolded t(2)] obtain m' where
        m': "i_deleteStream stype (?m\<lparr>streamsToDelete := streamsToDelete m - {?num}\<rparr>) ?num = Inr (m', maxStreamsFrame stype (uint limit0) ?s)" "in_rel newStream limit0 m' ?s" by blast
      moreover have "?num \<in> streamsToDelete m" using r fin by (auto simp: in_rel_def)
      ultimately show ?thesis using num lookup True fin i by (simp add: in_sim_def i_AcceptStream_def Let_def)
    qed
  qed
qed

fun in_op_ok :: "in_op \<Rightarrow> bool" where
  "in_op_ok (IOpen num) \<longleftrightarrow> 1 \<le> num"
| "in_op_ok _ \<longleftrightarrow> True"

lemma in_step_sim:
  assumes "in_rel newStream limit0 m s" and "sp_limit (uint limit0) s + 1 < 2 ^ 62" and "in_op_ok op"
  shows "in_sim newStream limit0 (in_step newStream stype m op) (in_spec_step newStream stype (uint limit0) s op)"
  using assms in_open_sim in_accept_sim in_delete_sim by (cases op) fastforce+

lemma sp_limit_step: "sp_limit limit0 (snd (in_spec_step newStream stype limit0 s op)) \<le> sp_limit limit0 s + 1"
proof -
  have a: "card (A \<inter> {1..k + 1}) \<le> Suc (card (A \<inter> {1..k}))" for A and k :: int
  proof -
    have "A \<inter> {1..k + 1} \<subseteq> insert (k + 1) (A \<inter> {1..k})" by auto
    then have "card (A \<inter> {1..k + 1}) \<le> card (insert (k + 1) (A \<inter> {1..k}))" by (intro card_mono) simp_all
    also have "\<dots> \<le> Suc (card (A \<inter> {1..k}))" by (intro card_insert_le_m1) simp_all
    finally show ?thesis .
  qed
  have b: "card (insert n A \<inter> {1..k}) \<le> Suc (card (A \<inter> {1..k}))" for A and k n :: int
  proof -
    have "insert n A \<inter> {1..k} \<subseteq> insert n (A \<inter> {1..k})" by auto
    then have "card (insert n A \<inter> {1..k}) \<le> card (insert n (A \<inter> {1..k}))" by (intro card_mono) simp_all
    also have "\<dots> \<le> Suc (card (A \<inter> {1..k}))" by (intro card_insert_le_m1) simp_all
    finally show ?thesis .
  qed
  have c: "int (card (insert n (sp_finished s) \<inter> {1..sp_accepted s})) \<le> int (card (sp_finished s \<inter> {1..sp_accepted s})) + 1" for n
    using b [of n "sp_finished s" "sp_accepted s"] by linarith
  show ?thesis using a [of "sp_finished s" "sp_accepted s"] c by (cases op) (auto simp: sp_limit_def Let_def)
qed

lemma in_run_sim:
  assumes "in_rel newStream limit0 m s" and "sp_limit (uint limit0) s + int (length ops) < 2 ^ 62" and "\<forall>op \<in> set ops. in_op_ok op"
  shows "fst (in_run newStream stype m ops) = fst (in_spec_run newStream stype (uint limit0) s ops) \<and>
    in_rel newStream limit0 (snd (in_run newStream stype m ops)) (snd (in_spec_run newStream stype (uint limit0) s ops))"
  using assms
proof (induction ops arbitrary: m s)
  case (Cons op ops)
  obtain ob m' where c: "in_step newStream stype m op = (ob, m')" by fastforce
  obtain ob' s' where a: "in_spec_step newStream stype (uint limit0) s op = (ob', s')" by fastforce
  have "in_sim newStream limit0 (ob, m') (ob', s')" using in_step_sim [of newStream limit0 m s op stype] Cons.prems c a by simp
  moreover have "sp_limit (uint limit0) s' \<le> sp_limit (uint limit0) s + 1" using sp_limit_step [of "uint limit0" newStream stype s op] a by simp
  ultimately show ?case using Cons.IH [of m' s'] Cons.prems c a by (auto simp: in_sim_def split: prod.splits)
qed simp

lemma in_rel_new:
  assumes "uint limit0 < 2 ^ 62"
  shows "in_rel newStream limit0 (newIncomingItemsMap limit0) noStreams"
proof -
  have "int (unat limit0) < int (2 ^ 62)" using assms by simp
  then have "unat limit0 < 2 ^ 62" by (simp only: of_nat_less_iff)
  then have "int64_of limit0 = int (unat limit0)" by (intro int64_of_small) simp
  then show ?thesis by (auto simp: in_rel_def newIncomingItemsMap_def noStreams_def gone_def sp_limit_def)
qed

text \<open>C8. Whatever streams a peer opens and in whatever order they are accepted and finished, the map returns what its specification
  says: a stream number above the limit is refused; a stream that was finished is not returned again; streams are accepted in
  order, each one once; each stream that was both accepted and finished raises the limit by one, which is announced to the peer; and
  there are never more streams than the configured number.\<close>

theorem incoming_streams_refine:
  assumes "\<forall>op \<in> set ops. in_op_ok op" and "uint limit0 + int (length ops) < 2 ^ 62"
  shows "case (in_run newStream stype (newIncomingItemsMap limit0) ops, in_spec_run newStream stype (uint limit0) noStreams ops) of
    ((obs, m), obs', s) \<Rightarrow> obs = obs' \<and> length (i_streams m) \<le> unat limit0 \<and> i_maxStream m = sp_limit (uint limit0) s \<and>
      nextStreamToOpen m = sp_opened s + 1 \<and> nextStreamToAccept m = sp_accepted s + 1 \<and>
      (\<forall>n. map_of (i_streams m) n = (if 1 \<le> n \<and> n \<le> sp_opened s \<and> \<not> (n \<in> sp_finished s \<and> n \<le> sp_accepted s) then Some (newStream n) else None))"
proof -
  obtain obs m where c: "in_run newStream stype (newIncomingItemsMap limit0) ops = (obs, m)" by fastforce
  obtain obs' s where a: "in_spec_run newStream stype (uint limit0) noStreams ops = (obs', s)" by fastforce
  have r: "obs = obs'" "in_rel newStream limit0 m s"
    using in_run_sim [OF in_rel_new, of limit0 ops newStream stype] assms c a by (auto simp: sp_limit_def noStreams_def)
  have "int (length (i_streams m)) \<le> int (unat limit0)" using in_rel_length [OF r(2)] r(2) by (simp add: in_rel_def sp_limit_gone)
  then have "length (i_streams m) \<le> unat limit0" by (simp only: of_nat_le_iff)
  then show ?thesis using c a r by (auto simp: in_rel_def gone_def)
qed

theorem incoming_streams_refine_witness:
  "fst (in_run (\<lambda>n. n) StreamTypeUni (newIncomingItemsMap 2) [IOpen 2, IDelete 1, IOpen 3, IAccept, IOpen 3, IAccept, IDelete 2, IOpen 1]) =
    [ObsOpen (Inr (Some 2)), ObsDelete (Inr []), ObsOpen (Inl (StreamError ''peer tried to open stream %d (current limit: %d)'' [3, 2])),
     ObsAccept (Accepted 1) [FMaxStreams \<lparr>msf_Type = StreamTypeUni, msf_MaxStreamNum = 3\<rparr>], ObsOpen (Inr (Some 3)), ObsAccept (Accepted 2) [],
     ObsDelete (Inr [FMaxStreams \<lparr>msf_Type = StreamTypeUni, msf_MaxStreamNum = 4\<rparr>]), ObsOpen (Inr None)]"
proof -
  let ?ops = "[IOpen 2, IDelete 1, IOpen 3, IAccept, IOpen 3, IAccept, IDelete 2, IOpen 1]"
  have "fst (in_spec_run (\<lambda>n. n) StreamTypeUni (uint (2 :: u64)) noStreams ?ops) =
    [ObsOpen (Inr (Some 2)), ObsDelete (Inr []), ObsOpen (Inl (StreamError ''peer tried to open stream %d (current limit: %d)'' [3, 2])),
     ObsAccept (Accepted 1) [FMaxStreams \<lparr>msf_Type = StreamTypeUni, msf_MaxStreamNum = 3\<rparr>], ObsOpen (Inr (Some 3)), ObsAccept (Accepted 2) [],
     ObsDelete (Inr [FMaxStreams \<lparr>msf_Type = StreamTypeUni, msf_MaxStreamNum = 4\<rparr>]), ObsOpen (Inr None)]" by code_simp
  moreover have "fst (in_run (\<lambda>n. n) StreamTypeUni (newIncomingItemsMap 2) ?ops) = fst (in_spec_run (\<lambda>n. n) StreamTypeUni (uint (2 :: u64)) noStreams ?ops)"
    using incoming_streams_refine [of ?ops 2 "\<lambda>n. n" StreamTypeUni] by (simp del: in_run.simps in_spec_run.simps add: case_prod_beta)
  ultimately show ?thesis by (rule trans [rotated])
qed

section \<open>A lost wake-up\<close>

text \<open>
  A call of \<open>AcceptStream\<close> that found no stream gives up the lock and then waits for the channel. The channel has no buffer: a
  \<open>select\<close> with a default that sends on it has an effect only when the call already waits.
\<close>

datatype accept_pc = Checking | Unlocked | Selecting | Returned

inductive accept_step :: "(StreamNum \<Rightarrow> 'a) \<Rightarrow> StreamType \<Rightarrow> 'a incomingItemsMap \<times> accept_pc \<Rightarrow> 'a incomingItemsMap \<times> accept_pc \<Rightarrow> bool"
  for newStream stype where
  check_waits: "i_AcceptStream stype m = (AcceptWaits, m', fs) \<Longrightarrow> accept_step newStream stype (m, Checking) (m', Unlocked)"
| check_returns: "i_AcceptStream stype m = (r, m', fs) \<Longrightarrow> r \<noteq> AcceptWaits \<Longrightarrow> accept_step newStream stype (m, Checking) (m', Returned)"
| select: "accept_step newStream stype (m, Unlocked) (m, Selecting)"
| closed: "newStreamChanClosed m \<Longrightarrow> accept_step newStream stype (m, Selecting) (m, Checking)"
| opens: "i_GetOrOpenStream newStream m num = Inr (str, m') \<Longrightarrow> nextStreamToOpen m \<le> num \<Longrightarrow>
    accept_step newStream stype (m, pc) (m', if pc = Selecting then Checking else pc)"
| finishes: "i_DeleteStream stype m num = Inr (m', fs) \<Longrightarrow> accept_step newStream stype (m, pc) (m', pc)"

inductive_cases accept_stepE: "accept_step newStream stype (m, Selecting) (m', pc)"

text \<open>C39. When the peer opens a stream after \<open>AcceptStream\<close> gave up the lock and before it waits for the channel, the send on the
  channel is lost: \<open>AcceptStream\<close> waits although a stream can be accepted, and goes on only when the peer opens another
  stream or the map is closed.\<close>

theorem accept_wakeup_lost:
  "\<exists>m. (accept_step (\<lambda>n. n) stype)\<^sup>*\<^sup>* (newIncomingItemsMap 100, Checking) (m, Selecting) \<and>
    (\<exists>m' fs. i_AcceptStream stype m = (Accepted 1, m', fs)) \<and>
    (\<forall>m' pc. accept_step (\<lambda>n. n) stype (m, Selecting) (m', pc) \<longrightarrow> pc = Selecting \<or> nextStreamToOpen m < nextStreamToOpen m')"
proof -
  let ?m0 = "newIncomingItemsMap 100 :: int incomingItemsMap"
  define m where "m = ?m0\<lparr>i_streams := [(1, 1)], nextStreamToOpen := 2\<rparr>"
  have new: "i_maxStream ?m0 = 100" by (simp add: newIncomingItemsMap_def int64_of_small)
  have "i_AcceptStream stype ?m0 = (AcceptWaits, ?m0, [])" by (simp add: i_AcceptStream_def newIncomingItemsMap_def)
  then have 1: "accept_step (\<lambda>n. n) stype (?m0, Checking) (?m0, Unlocked)" by (rule check_waits)
  have g: "i_GetOrOpenStream (\<lambda>n. n) ?m0 1 = Inr (Some 1, m)" using new by (simp add: i_GetOrOpenStream_def newIncomingItemsMap_def m_def i_openUpTo_def)
  have 2: "accept_step (\<lambda>n. n) stype (?m0, Unlocked) (m, Unlocked)" using opens [OF g, of stype Unlocked] by (simp add: newIncomingItemsMap_def)
  have 3: "accept_step (\<lambda>n. n) stype (m, Unlocked) (m, Selecting)" by (rule select)
  have "(accept_step (\<lambda>n. n) stype)\<^sup>*\<^sup>* (?m0, Checking) (m, Selecting)" using 1 2 3 by (meson r_into_rtranclp rtranclp_trans)
  moreover have "\<exists>m' fs. i_AcceptStream stype m = (Accepted 1, m', fs)" by (simp add: i_AcceptStream_def m_def newIncomingItemsMap_def)
  moreover have "pc = Selecting \<or> nextStreamToOpen m < nextStreamToOpen m'" if "accept_step (\<lambda>n. n) stype (m, Selecting) (m', pc)" for m' pc
    using that new by (auto elim!: accept_stepE simp: m_def newIncomingItemsMap_def i_GetOrOpenStream_def Let_def split: if_splits)
  ultimately show ?thesis by blast
qed

theorem accept_wakeup_lost_witness:
  "\<exists>m m' fs. (accept_step (\<lambda>n. n) StreamTypeBidi)\<^sup>*\<^sup>* (newIncomingItemsMap 100, Checking) (m, Selecting) \<and> i_AcceptStream StreamTypeBidi m = (Accepted 1, m', fs)"
  using accept_wakeup_lost [of StreamTypeBidi] by blast

end
