(* ===== verification/OutgoingStreams.thy ===== *)
theory OutgoingStreams
  imports IncomingStreams
begin

text \<open>
  The streams this endpoint opens: \<open>streams_map_outgoing_generic.go\<close>. Calls of \<open>OpenStreamSync\<close> that have to wait are queued by
  position; each has a channel that is closed to wake it up. The entry of a call in \<open>openQueue\<close> holds the channel, or nothing
  once the call was woken up; \<open>closedChans\<close> are the positions whose channels are closed. A waiting call is resumed by
  \<open>OpenStreamSync_resume\<close>.

  The lemmas show that streams are opened in order, within the limit of the peer, that STREAMS_BLOCKED is sent at most once for
  a limit, and that no channel is closed twice before the map is closed.
\<close>

section \<open>The map\<close>

record 'a outgoingItemsMap =
  o_streams :: "(StreamNum \<times> 'a) list"
  openQueue :: "(u64 \<times> bool) list"
  closedChans :: "u64 set"
  lowestInQueue :: u64
  highestInQueue :: u64
  nextStream :: StreamNum
  o_maxStream :: StreamNum
  blockedSent :: bool
  o_closeErr :: "stream_error option"

definition newOutgoingItemsMap :: "'a outgoingItemsMap" where
  "newOutgoingItemsMap =
    \<lparr>o_streams = [], openQueue = [], closedChans = {}, lowestInQueue = 0, highestInQueue = 0, nextStream = 1,
     o_maxStream = InvalidStreamNum, blockedSent = False, o_closeErr = None\<rparr>"

definition openStream :: "(StreamNum \<Rightarrow> 'a) \<Rightarrow> 'a outgoingItemsMap \<Rightarrow> 'a \<times> 'a outgoingItemsMap" where
  "openStream mk m =
    (let s = mk (nextStream m)
     in (s, m\<lparr>o_streams := AList.update (nextStream m) s (o_streams m), nextStream := i64 (nextStream m + 1)\<rparr>))"

definition maybeSendBlockedFrame :: "StreamType \<Rightarrow> 'a outgoingItemsMap \<Rightarrow> 'a outgoingItemsMap \<times> Frame list" where
  "maybeSendBlockedFrame stype m =
    (if blockedSent m then (m, [])
     else
       let streamNum = (if o_maxStream m \<noteq> InvalidStreamNum then o_maxStream m else 0)
       in (m\<lparr>blockedSent := True\<rparr>, [FStreamsBlocked \<lparr>sbf_Type = stype, sbf_StreamLimit = streamNum\<rparr>]))"

datatype 'a open_result = Opened 'a | OpenFailed maps_error | OpenWaits u64

definition o_OpenStream :: "(StreamNum \<Rightarrow> 'a) \<Rightarrow> StreamType \<Rightarrow> 'a outgoingItemsMap \<Rightarrow> 'a open_result \<times> 'a outgoingItemsMap \<times> Frame list" where
  "o_OpenStream mk stype m =
    (case o_closeErr m of
       Some e \<Rightarrow> (OpenFailed (ClosedWith e), m, [])
     | None \<Rightarrow>
         if length (openQueue m) > 0 \<or> nextStream m > o_maxStream m then
           (case maybeSendBlockedFrame stype m of (m, fs) \<Rightarrow> (OpenFailed TooManyOpenStreams, m, fs))
         else (case openStream mk m of (s, m) \<Rightarrow> (Opened s, m, [])))"

text \<open>\<open>OpenStreamSync\<close> up to the point where it returns or waits.\<close>

definition o_OpenStreamSync :: "(StreamNum \<Rightarrow> 'a) \<Rightarrow> StreamType \<Rightarrow> bool \<Rightarrow> 'a outgoingItemsMap \<Rightarrow> 'a open_result \<times> 'a outgoingItemsMap \<times> Frame list" where
  "o_OpenStreamSync mk stype ctxDone m =
    (case o_closeErr m of
       Some e \<Rightarrow> (OpenFailed (ClosedWith e), m, [])
     | None \<Rightarrow>
         if ctxDone then (OpenFailed ContextDone, m, [])
         else if length (openQueue m) = 0 \<and> nextStream m \<le> o_maxStream m then
           (case openStream mk m of (s, m) \<Rightarrow> (Opened s, m, []))
         else
           let queuePos = highestInQueue m;
               m = m\<lparr>highestInQueue := highestInQueue m + 1\<rparr>;
               m = (if length (openQueue m) = 0 then m\<lparr>lowestInQueue := queuePos\<rparr> else m);
               m = m\<lparr>openQueue := AList.update queuePos True (openQueue m)\<rparr>
           in case maybeSendBlockedFrame stype m of (m, fs) \<Rightarrow> (OpenWaits queuePos, m, fs))"

text \<open>The positions the loop of \<open>unblockOpenSync\<close> visits; positions are counted by a \<open>uint64\<close> and do not wrap around in practice.\<close>

fun unblockLoop :: "u64 list \<Rightarrow> 'a outgoingItemsMap \<Rightarrow> maps_error + 'a outgoingItemsMap" where
  "unblockLoop [] m = Inr m"
| "unblockLoop (qp # qps) m =
    (case map_of (openQueue m) qp of
       None \<Rightarrow> unblockLoop qps m
     | Some c \<Rightarrow>
         if \<not> c then Inl (GoError (Panic (''close of nil channel'', [])))
         else if qp \<in> closedChans m then Inl (GoError (Panic (''close of closed channel'', [])))
         else Inr (m\<lparr>closedChans := insert qp (closedChans m), openQueue := AList.update qp False (openQueue m), lowestInQueue := qp + 1\<rparr>))"

definition unblockOpenSync :: "'a outgoingItemsMap \<Rightarrow> maps_error + 'a outgoingItemsMap" where
  "unblockOpenSync m =
    (if length (openQueue m) = 0 then Inr m
     else unblockLoop (map word_of_nat [unat (lowestInQueue m) ..< Suc (unat (highestInQueue m))]) m)"

text \<open>A waiting call goes on: \<open>ctxDone\<close> when it is the context that is done, otherwise its channel was closed.\<close>

definition OpenStreamSync_resume :: "(StreamNum \<Rightarrow> 'a) \<Rightarrow> bool \<Rightarrow> 'a outgoingItemsMap \<Rightarrow> u64 \<Rightarrow> maps_error + 'a open_result \<times> 'a outgoingItemsMap" where
  "OpenStreamSync_resume mk ctxDone m queuePos =
    (if ctxDone then Inr (OpenFailed ContextDone, m\<lparr>openQueue := AList.delete queuePos (openQueue m)\<rparr>)
     else
       case o_closeErr m of
         Some e \<Rightarrow> Inr (OpenFailed (ClosedWith e), m)
       | None \<Rightarrow>
           if nextStream m > o_maxStream m then Inr (OpenWaits queuePos, m)
           else
             case openStream mk m of (str, m) \<Rightarrow>
             let m = m\<lparr>openQueue := AList.delete queuePos (openQueue m)\<rparr>
             in tryE (unblockOpenSync m) (\<lambda>m. Inr (Opened str, m)))"

definition o_GetStream :: "'a outgoingItemsMap \<Rightarrow> StreamNum \<Rightarrow> maps_error + 'a option" where
  "o_GetStream m num =
    (if num \<ge> nextStream m then Inl (StreamError ''peer attempted to open stream %d'' [num]) else Inr (map_of (o_streams m) num))"

definition o_DeleteStream :: "'a outgoingItemsMap \<Rightarrow> StreamNum \<Rightarrow> maps_error + 'a outgoingItemsMap" where
  "o_DeleteStream m num =
    (if map_of (o_streams m) num = None then Inl (StreamError ''Tried to delete unknown stream %d'' [num])
     else Inr (m\<lparr>o_streams := AList.delete num (o_streams m)\<rparr>))"

definition SetMaxStream :: "'a outgoingItemsMap \<Rightarrow> StreamNum \<Rightarrow> maps_error + 'a outgoingItemsMap" where
  "SetMaxStream m num =
    (if num \<le> o_maxStream m then Inr m
     else unblockOpenSync (m\<lparr>o_maxStream := num, blockedSent := False\<rparr>))"

text \<open>All channels in the queue are closed, and stay in it.\<close>

definition o_CloseWithError :: "('a \<Rightarrow> stream_error option \<Rightarrow> 'a) \<Rightarrow> 'a outgoingItemsMap \<Rightarrow> stream_error option \<Rightarrow> maps_error + 'a outgoingItemsMap" where
  "o_CloseWithError closeForShutdown m err =
    (let m = m\<lparr>o_closeErr := err, o_streams := map (\<lambda>(n, str). (n, closeForShutdown str err)) (o_streams m)\<rparr>;
         cs = fst ` set (filter snd (openQueue m))
     in if cs \<inter> closedChans m \<noteq> {} then Inl (GoError (Panic (''close of closed channel'', [])))
        else Inr (m\<lparr>closedChans := closedChans m \<union> cs\<rparr>))"

section \<open>Runs\<close>

datatype out_op = OOpen | OOpenSync bool | OResume bool u64 | ODelete StreamNum | OSetMax StreamNum

text \<open>The map, the positions of the calls that wait, the streams that were opened and the frames that were queued.\<close>

record 'a out_world =
  ow_map :: "'a outgoingItemsMap"
  ow_waiting :: "u64 set"
  ow_opened :: "'a list"
  ow_frames :: "Frame list"

definition newOutWorld :: "'a out_world" where
  "newOutWorld = \<lparr>ow_map = newOutgoingItemsMap, ow_waiting = {}, ow_opened = [], ow_frames = []\<rparr>"

text \<open>Result of a call: the stream is recorded, or the call waits at its position, or it is over.\<close>

definition ow_result :: "'a out_world \<Rightarrow> 'a open_result \<times> 'a outgoingItemsMap \<times> Frame list \<Rightarrow> 'a out_world" where
  "ow_result w x =
    (case x of (r, m, fs) \<Rightarrow>
     let w = w\<lparr>ow_map := m, ow_frames := ow_frames w @ fs\<rparr>
     in case r of
          Opened str \<Rightarrow> w\<lparr>ow_opened := ow_opened w @ [str]\<rparr>
        | OpenFailed _ \<Rightarrow> w
        | OpenWaits pos \<Rightarrow> w\<lparr>ow_waiting := insert pos (ow_waiting w)\<rparr>)"

text \<open>A call can only be resumed when it waits and when its context is done or its channel is closed.\<close>

fun out_step :: "(StreamNum \<Rightarrow> 'a) \<Rightarrow> StreamType \<Rightarrow> 'a out_world \<Rightarrow> out_op \<Rightarrow> maps_error + 'a out_world" where
  "out_step mk stype w OOpen = Inr (ow_result w (o_OpenStream mk stype (ow_map w)))"
| "out_step mk stype w (OOpenSync ctxDone) = Inr (ow_result w (o_OpenStreamSync mk stype ctxDone (ow_map w)))"
| "out_step mk stype w (OResume ctxDone pos) =
    (if pos \<in> ow_waiting w \<and> (ctxDone \<or> pos \<in> closedChans (ow_map w)) then
       tryE (OpenStreamSync_resume mk ctxDone (ow_map w) pos) (\<lambda>(r, m).
       Inr (ow_result (w\<lparr>ow_waiting := ow_waiting w - {pos}\<rparr>) (r, m, [])))
     else Inr w)"
| "out_step mk stype w (ODelete num) = (case o_DeleteStream (ow_map w) num of Inl _ \<Rightarrow> Inr w | Inr m \<Rightarrow> Inr (w\<lparr>ow_map := m\<rparr>))"
| "out_step mk stype w (OSetMax num) = tryE (SetMaxStream (ow_map w) num) (\<lambda>m. Inr (w\<lparr>ow_map := m\<rparr>))"

fun out_run :: "(StreamNum \<Rightarrow> 'a) \<Rightarrow> StreamType \<Rightarrow> 'a out_world \<Rightarrow> out_op list \<Rightarrow> maps_error + 'a out_world" where
  "out_run mk stype w [] = Inr w"
| "out_run mk stype w (op # ops) = tryE (out_step mk stype w op) (\<lambda>w. out_run mk stype w ops)"

fun out_op_ok :: "out_op \<Rightarrow> bool" where
  "out_op_ok (OSetMax num) \<longleftrightarrow> num \<le> MaxStreamCount"
| "out_op_ok _ \<longleftrightarrow> True"

section \<open>The queue\<close>

text \<open>Woken calls lie below \<open>lowestInQueue\<close>, the others at or above it.\<close>

definition queue_inv :: "'a outgoingItemsMap \<Rightarrow> u64 set \<Rightarrow> bool" where
  "queue_inv m waiting \<longleftrightarrow>
    distinct (map fst (openQueue m)) \<and> dom (map_of (openQueue m)) = waiting \<and> (\<forall>k \<in> waiting \<union> closedChans m. unat k < unat (highestInQueue m)) \<and>
    unat (lowestInQueue m) \<le> unat (highestInQueue m) \<and>
    (\<forall>k c. map_of (openQueue m) k = Some c \<longrightarrow> (c \<longleftrightarrow> k \<notin> closedChans m) \<and> (c \<longleftrightarrow> unat (lowestInQueue m) \<le> unat k))"

definition blocked_limits :: "Frame list \<Rightarrow> StreamNum list" where
  "blocked_limits fs = filter (\<lambda>l. 0 < l) (map (\<lambda>f. case f of FStreamsBlocked b \<Rightarrow> sbf_StreamLimit b | _ \<Rightarrow> 0) fs)"

definition streams_made :: "(StreamNum \<Rightarrow> 'a) \<Rightarrow> (StreamNum \<times> 'a) list \<Rightarrow> StreamNum \<Rightarrow> bool" where
  "streams_made mk ss n \<longleftrightarrow> (\<forall>k str. map_of ss k = Some str \<longrightarrow> str = mk k \<and> k \<in> {1..<n})"

definition out_inv :: "(StreamNum \<Rightarrow> 'a) \<Rightarrow> 'a out_world \<Rightarrow> bool" where
  "out_inv mk w \<longleftrightarrow> (let m = ow_map w in
    o_closeErr m = None \<and> queue_inv m (ow_waiting w) \<and> 1 \<le> nextStream m \<and> -1 \<le> o_maxStream m \<and> o_maxStream m \<le> MaxStreamCount \<and>
    nextStream m \<le> max 0 (o_maxStream m) + 1 \<and> ow_opened w = map mk [1..nextStream m - 1] \<and>
    streams_made mk (o_streams m) (nextStream m) \<and> sorted_wrt (<) (blocked_limits (ow_frames w)) \<and>
    (\<forall>l \<in> set (blocked_limits (ow_frames w)). l \<le> o_maxStream m \<and> (\<not> blockedSent m \<longrightarrow> l < o_maxStream m)))"

definition woken :: "'a outgoingItemsMap \<Rightarrow> u64 \<Rightarrow> 'a outgoingItemsMap" where
  "woken m k = m\<lparr>closedChans := insert k (closedChans m), openQueue := AList.update k False (openQueue m), lowestInQueue := k + 1\<rparr>"

lemma unblockLoop_run:
  assumes "queue_inv m waiting" and "\<forall>k \<in> set qps. unat (lowestInQueue m) \<le> unat k"
  shows "unblockLoop qps m = Inr (case find (\<lambda>k. k \<in> waiting) qps of None \<Rightarrow> m | Some k \<Rightarrow> woken m k)"
  using assms(2)
proof (induction qps)
  case (Cons k qps)
  have "map_of (openQueue m) k = (if k \<in> waiting then Some True else None)" "k \<in> waiting \<Longrightarrow> k \<notin> closedChans m"
    using assms(1) Cons.prems by (auto simp: queue_inv_def)
  with Cons show ?case by (simp add: woken_def)
qed simp

lemma woken_inv:
  assumes q: "queue_inv m waiting" and k: "k \<in> waiting" "k \<notin> closedChans m" "unat k < unat (highestInQueue m)" "unat (k + 1) = unat k + 1"
    and least: "\<And>j. j \<in> waiting \<Longrightarrow> unat (lowestInQueue m) \<le> unat j \<Longrightarrow> unat k \<le> unat j"
  shows "queue_inv (woken m k) waiting"
proof -
  have entry: "(c \<longleftrightarrow> j \<notin> insert k (closedChans m)) \<and> (c \<longleftrightarrow> unat k + 1 \<le> unat j)"
    if "map_of (AList.update k False (openQueue m)) j = Some c" for j c
  proof (cases "j = k")
    case False
    then have j: "map_of (openQueue m) j = Some c" "j \<in> waiting" using that q by (auto simp: AList.update_conv' queue_inv_def)
    then have "c \<longleftrightarrow> j \<notin> closedChans m" "c \<longleftrightarrow> unat (lowestInQueue m) \<le> unat j" using q by (auto simp: queue_inv_def)
    moreover have "map_of (openQueue m) k = Some True" using q k(1,2) by (auto simp: queue_inv_def)
    then have "unat (lowestInQueue m) \<le> unat k" using q by (auto simp: queue_inv_def)
    moreover have "unat j \<noteq> unat k" using False by (simp add: word_unat_eq_iff)
    ultimately show ?thesis using least [OF j(2)] False by auto
  qed (use that in \<open>simp add: AList.update_conv'\<close>)
  have "dom (map_of (AList.update k False (openQueue m))) = waiting" using q k(1) by (auto simp: AList.update_conv' queue_inv_def)
  moreover have "distinct (map fst (AList.update k False (openQueue m)))" using q by (simp add: queue_inv_def AList.distinct_update)
  moreover have "\<forall>j \<in> waiting \<union> insert k (closedChans m). unat j < unat (highestInQueue m)" using q k(3) by (auto simp: queue_inv_def)
  moreover have "unat (k + 1) \<le> unat (highestInQueue m)" using k(3,4) by simp
  ultimately show ?thesis using entry unfolding k(4) [symmetric] by (simp add: queue_inv_def woken_def)
qed

lemma find_least:
  assumes "find P (map word_of_nat [a..<b]) = Some (k :: u64)" and "b \<le> 2 ^ 64" and "P j" and "a \<le> unat j"
  shows "unat k \<le> unat j"
proof (rule ccontr)
  obtain i where i: "i < b - a" "P (word_of_nat (a + i))" "k = word_of_nat (a + i)" "\<forall>l < i. \<not> P (word_of_nat (a + l))"
    using assms(1) by (auto simp: find_Some_iff)
  assume "\<not> unat k \<le> unat j"
  moreover have "unat k = a + i" unfolding i(3) by (rule unat_word_of_nat_id) (use i(1) assms(2) in simp)
  ultimately have lt: "unat j - a < i" and eq: "a + (unat j - a) = unat j" using assms(4) by auto
  have "word_of_nat (a + (unat j - a)) = j" unfolding eq by simp
  then show False using i(4) lt assms(3) by metis
qed

lemma unblockOpenSync_run:
  assumes q: "queue_inv m waiting" and h: "unat (highestInQueue m) < 2 ^ 63"
  shows "(\<exists>k \<in> waiting - closedChans m. unblockOpenSync m = Inr (woken m k) \<and> queue_inv (woken m k) waiting) \<or>
    waiting \<subseteq> closedChans m \<and> unblockOpenSync m = Inr m"
proof -
  define qps :: "u64 list" where "qps = map word_of_nat [unat (lowestInQueue m) ..< Suc (unat (highestInQueue m))]"
  have set: "k \<in> set qps \<longleftrightarrow> unat (lowestInQueue m) \<le> unat k \<and> unat k \<le> unat (highestInQueue m)" for k
  proof -
    have u: "unat (word_of_nat i :: u64) = i" if "i \<le> unat (highestInQueue m)" for i using that h by (intro unat_word_of_nat_id) simp
    have "k \<in> set qps" if "unat (lowestInQueue m) \<le> unat k \<and> unat k \<le> unat (highestInQueue m)"
      using that unfolding qps_def set_map by (intro image_eqI [of _ _ "unat k"]) auto
    moreover have "unat (lowestInQueue m) \<le> unat k \<and> unat k \<le> unat (highestInQueue m)" if "k \<in> set qps"
      using that u unfolding qps_def set_map by auto
    ultimately show ?thesis by blast
  qed
  have woke: "k \<in> closedChans m \<longleftrightarrow> unat k < unat (lowestInQueue m)" if "k \<in> waiting" for k
    using that q by (fastforce simp: queue_inv_def dom_def not_le)
  have loop: "unblockLoop qps m = Inr (case find (\<lambda>k. k \<in> waiting) qps of None \<Rightarrow> m | Some k \<Rightarrow> woken m k)"
    using set by (intro unblockLoop_run [OF q]) simp
  have run: "unblockOpenSync m = Inr (case find (\<lambda>k. k \<in> waiting) qps of None \<Rightarrow> m | Some k \<Rightarrow> woken m k)"
  proof (cases "openQueue m = []")
    case True
    then have "waiting = {}" using q by (auto simp: queue_inv_def)
    then have "find (\<lambda>k. k \<in> waiting) qps = None" by (simp add: find_None_iff)
    then show ?thesis using True by (simp add: unblockOpenSync_def)
  qed (use loop in \<open>simp add: unblockOpenSync_def qps_def\<close>)
  show ?thesis
  proof (cases "find (\<lambda>k. k \<in> waiting) qps")
    case None
    have "k \<in> closedChans m" if k: "k \<in> waiting" for k
    proof -
      have "k \<notin> set qps" using None k by (auto simp: find_None_iff)
      moreover have "unat k < unat (highestInQueue m)" using q k by (simp add: queue_inv_def)
      ultimately show ?thesis using set [of k] woke [OF k] by simp
    qed
    then have "waiting \<subseteq> closedChans m" by blast
    then show ?thesis using run None by simp
  next
    case (Some k)
    then have k: "k \<in> waiting" "k \<in> set qps" by (auto simp: find_Some_iff)
    then have "k \<notin> closedChans m" using woke set by auto
    moreover have "unat k < unat (highestInQueue m)" using q k(1) by (simp add: queue_inv_def)
    moreover have "unat k \<le> unat j" if "j \<in> waiting" "unat (lowestInQueue m) \<le> unat j" for j
      using find_least [OF Some [unfolded qps_def], of j] that h by simp
    moreover have "unat (k + 1) = unat k + 1" using \<open>unat k < unat (highestInQueue m)\<close> h by (subst unat_plus_lt) simp_all
    ultimately have "queue_inv (woken m k) waiting" using q k(1) by (intro woken_inv) auto
    then show ?thesis using run Some k(1) \<open>k \<notin> closedChans m\<close> by auto
  qed
qed


section \<open>Every step keeps the invariant\<close>

lemma queue_inv_simps [simp]:
  "queue_inv (m\<lparr>blockedSent := b\<rparr>) ws = queue_inv m ws" "queue_inv (m\<lparr>o_maxStream := n\<rparr>) ws = queue_inv m ws"
  "queue_inv (m\<lparr>o_streams := ss\<rparr>) ws = queue_inv m ws" "queue_inv (m\<lparr>nextStream := n\<rparr>) ws = queue_inv m ws"
  by (simp_all add: queue_inv_def)

lemma blocked_limits_append [simp]: "blocked_limits (fs @ gs) = blocked_limits fs @ blocked_limits gs"
  by (simp add: blocked_limits_def)

lemma openStream_inv:
  assumes i: "out_inv mk w" and n: "nextStream (ow_map w) \<le> o_maxStream (ow_map w)"
  shows "\<exists>m. openStream mk (ow_map w) = (mk (nextStream (ow_map w)), m) \<and> openQueue m = openQueue (ow_map w) \<and> closedChans m = closedChans (ow_map w) \<and>
    highestInQueue m = highestInQueue (ow_map w) \<and> lowestInQueue m = lowestInQueue (ow_map w) \<and> nextStream m = nextStream (ow_map w) + 1 \<and> o_maxStream m = o_maxStream (ow_map w) \<and>
    out_inv mk (w\<lparr>ow_map := m, ow_opened := ow_opened w @ [mk (nextStream (ow_map w))]\<rparr>)"
proof -
  let ?m = "ow_map w" and ?n = "nextStream (ow_map w)"
  let ?m' = "?m\<lparr>o_streams := AList.update ?n (mk ?n) (o_streams ?m), nextStream := ?n + 1\<rparr>"
  have "?n < 2 ^ 62" using i n by (simp add: out_inv_def Let_def MaxStreamCount_def push_bit_eq_mult)
  then have o: "openStream mk ?m = (mk ?n, ?m')" using i by (simp add: openStream_def out_inv_def Let_def)
  have "[1..?n] = [1..?n - 1] @ [?n]" using i by (intro upto_rec2) (simp add: out_inv_def Let_def)
  moreover have "streams_made mk (AList.update ?n (mk ?n) (o_streams ?m)) (?n + 1)"
    using i by (fastforce simp: streams_made_def AList.update_conv' out_inv_def Let_def split: if_splits)
  ultimately have "out_inv mk (w\<lparr>ow_map := ?m', ow_opened := ow_opened w @ [mk ?n]\<rparr>)" using i n by (simp add: out_inv_def Let_def)
  then show ?thesis using o by simp
qed

lemma maybeSendBlockedFrame_inv:
  assumes i: "out_inv mk w" and b: "maybeSendBlockedFrame stype (ow_map w) = (m, fs)"
  shows "out_inv mk (w\<lparr>ow_map := m, ow_frames := ow_frames w @ fs\<rparr>)"
proof (cases "blockedSent (ow_map w)")
  case True
  then show ?thesis using i b by (auto simp: maybeSendBlockedFrame_def out_inv_def)
next
  case False
  define l where "l = (if o_maxStream (ow_map w) \<noteq> InvalidStreamNum then o_maxStream (ow_map w) else 0)"
  have "m = ow_map w\<lparr>blockedSent := True\<rparr>" "blocked_limits fs = (if 0 < l then [l] else [])"
    using b False by (auto simp: maybeSendBlockedFrame_def Let_def l_def blocked_limits_def)
  moreover have "0 < l \<Longrightarrow> l = o_maxStream (ow_map w)" by (simp add: l_def split: if_splits)
  moreover have "\<forall>x \<in> set (blocked_limits (ow_frames w)). x < o_maxStream (ow_map w)" using i False by (simp add: out_inv_def Let_def)
  ultimately show ?thesis using i False by (cases "0 < l") (simp_all add: out_inv_def Let_def sorted_wrt_append)
qed

lemma out_inv_map:
  assumes "out_inv mk w" and "queue_inv m (ow_waiting w)" and "o_streams m = o_streams (ow_map w)" "nextStream m = nextStream (ow_map w)" "o_maxStream m = o_maxStream (ow_map w)"
    "blockedSent m = blockedSent (ow_map w)" "o_closeErr m = o_closeErr (ow_map w)"
  shows "out_inv mk (w\<lparr>ow_map := m\<rparr>)"
  using assms by (simp add: out_inv_def Let_def)

lemma woken_simps [simp]:
  "o_streams (woken m k) = o_streams m" "nextStream (woken m k) = nextStream m" "o_maxStream (woken m k) = o_maxStream m"
  "blockedSent (woken m k) = blockedSent m" "o_closeErr (woken m k) = o_closeErr m" "highestInQueue (woken m k) = highestInQueue m"
  "closedChans (woken m k) = insert k (closedChans m)"
  by (simp_all add: woken_def)

lemma unblock_inv:
  assumes i: "out_inv mk w" and h: "unat (highestInQueue (ow_map w)) < 2 ^ 63"
  shows "\<exists>m. unblockOpenSync (ow_map w) = Inr m \<and> out_inv mk (w\<lparr>ow_map := m\<rparr>) \<and> highestInQueue m = highestInQueue (ow_map w) \<and>
    (ow_waiting w \<noteq> {} \<longrightarrow> ow_waiting w \<inter> closedChans m \<noteq> {}) \<and> nextStream m = nextStream (ow_map w) \<and> o_maxStream m = o_maxStream (ow_map w)"
proof -
  have q: "queue_inv (ow_map w) (ow_waiting w)" using i by (simp add: out_inv_def Let_def)
  from unblockOpenSync_run [OF q h] show ?thesis
  proof
    assume "\<exists>k \<in> ow_waiting w - closedChans (ow_map w). unblockOpenSync (ow_map w) = Inr (woken (ow_map w) k) \<and> queue_inv (woken (ow_map w) k) (ow_waiting w)"
    then obtain k where "k \<in> ow_waiting w" "unblockOpenSync (ow_map w) = Inr (woken (ow_map w) k)" "queue_inv (woken (ow_map w) k) (ow_waiting w)" by blast
    then show ?thesis using out_inv_map [OF i] by (intro exI [of _ "woken (ow_map w) k"]) auto
  next
    assume "ow_waiting w \<subseteq> closedChans (ow_map w) \<and> unblockOpenSync (ow_map w) = Inr (ow_map w)"
    then show ?thesis using i by auto
  qed
qed

lemma outqueue_inv:
  assumes "out_inv mk w"
  shows "out_inv mk (w\<lparr>ow_map := ow_map w\<lparr>openQueue := AList.delete pos (openQueue (ow_map w))\<rparr>, ow_waiting := ow_waiting w - {pos}\<rparr>)"
  using assms by (auto simp: out_inv_def Let_def queue_inv_def AList.delete_conv' AList.distinct_delete)


text \<open>A call that has to wait is put at the end of the queue.\<close>

definition enqueued :: "'a outgoingItemsMap \<Rightarrow> 'a outgoingItemsMap" where
  "enqueued m =
    (let queuePos = highestInQueue m;
         m = m\<lparr>highestInQueue := highestInQueue m + 1\<rparr>;
         m = (if length (openQueue m) = 0 then m\<lparr>lowestInQueue := queuePos\<rparr> else m)
     in m\<lparr>openQueue := AList.update queuePos True (openQueue m)\<rparr>)"

lemma enqueued_simps [simp]:
  "o_streams (enqueued m) = o_streams m" "nextStream (enqueued m) = nextStream m" "o_maxStream (enqueued m) = o_maxStream m"
  "blockedSent (enqueued m) = blockedSent m" "o_closeErr (enqueued m) = o_closeErr m" "closedChans (enqueued m) = closedChans m"
  "highestInQueue (enqueued m) = highestInQueue m + 1"
  by (simp_all add: enqueued_def Let_def)

lemma enqueue_inv:
  assumes i: "out_inv mk w" and h: "unat (highestInQueue (ow_map w)) < 2 ^ 63"
  shows "out_inv mk (w\<lparr>ow_map := enqueued (ow_map w), ow_waiting := insert (highestInQueue (ow_map w)) (ow_waiting w)\<rparr>)"
proof -
  let ?m = "ow_map w" and ?h = "highestInQueue (ow_map w)"
  have q: "queue_inv ?m (ow_waiting w)" using i by (simp add: out_inv_def Let_def)
  have h1: "unat (?h + 1) = unat ?h + 1" using h by (subst unat_plus_lt) simp_all
  have new: "?h \<notin> ow_waiting w" "?h \<notin> closedChans ?m" using q by (auto simp: queue_inv_def)
  have empty: "openQueue ?m = [] \<Longrightarrow> ow_waiting w = {}" using q by (auto simp: queue_inv_def)
  have "queue_inv (enqueued ?m) (insert ?h (ow_waiting w))"
  proof (cases "openQueue ?m = []")
    case True
    then show ?thesis using q h1 new empty by (auto simp: queue_inv_def enqueued_def Let_def)
  next
    case False
    have entry: "(c \<longleftrightarrow> k \<notin> closedChans ?m) \<and> (c \<longleftrightarrow> unat (lowestInQueue ?m) \<le> unat k)"
      if "map_of (AList.update ?h True (openQueue ?m)) k = Some c" for k c
      using that q new by (cases "k = ?h") (auto simp: AList.update_conv' queue_inv_def)
    have "\<forall>k \<in> ow_waiting w \<union> closedChans ?m. unat k < unat ?h" using q by (simp add: queue_inv_def)
    then have "\<forall>k \<in> insert ?h (ow_waiting w) \<union> closedChans ?m. unat k < unat (?h + 1)" unfolding h1 by (auto simp: less_Suc_eq)
    moreover have "unat (lowestInQueue ?m) \<le> unat (?h + 1)" using q h1 by (simp add: queue_inv_def)
    moreover have "dom (map_of (AList.update ?h True (openQueue ?m))) = insert ?h (ow_waiting w)" "distinct (map fst (AList.update ?h True (openQueue ?m)))"
      using q by (auto simp: queue_inv_def AList.update_conv' AList.distinct_update)
    ultimately show ?thesis using False entry unfolding queue_inv_def by (simp add: enqueued_def Let_def)
  qed
  then show ?thesis using i by (simp add: out_inv_def Let_def)
qed

definition progress :: "'a out_world \<Rightarrow> bool" where
  "progress w \<longleftrightarrow> (ow_waiting w \<noteq> {} \<and> nextStream (ow_map w) \<le> o_maxStream (ow_map w) \<longrightarrow> ow_waiting w \<inter> closedChans (ow_map w) \<noteq> {})"

fun cancels :: "out_op \<Rightarrow> bool" where
  "cancels (OResume ctxDone _) \<longleftrightarrow> ctxDone"
| "cancels _ \<longleftrightarrow> False"

definition step_ok :: "(StreamNum \<Rightarrow> 'a) \<Rightarrow> out_op \<Rightarrow> 'a out_world \<Rightarrow> 'a out_world \<Rightarrow> bool" where
  "step_ok mk op w w' \<longleftrightarrow> out_inv mk w' \<and> unat (highestInQueue (ow_map w')) \<le> unat (highestInQueue (ow_map w)) + 1 \<and>
    (progress w \<and> \<not> cancels op \<longrightarrow> progress w')"

lemma maybeSendBlockedFrame_frame:
  "maybeSendBlockedFrame stype m = (m', fs) \<Longrightarrow> nextStream m' = nextStream m \<and> o_maxStream m' = o_maxStream m \<and> closedChans m' = closedChans m \<and>
    highestInQueue m' = highestInQueue m \<and> openQueue m' = openQueue m"
  by (auto simp: maybeSendBlockedFrame_def Let_def split: if_splits)

lemma queue_empty: "out_inv mk w \<Longrightarrow> openQueue (ow_map w) = [] \<longleftrightarrow> ow_waiting w = {}"
  by (auto simp: out_inv_def Let_def queue_inv_def)

lemma step_open:
  assumes i: "out_inv mk w"
  shows "\<exists>w'. out_step mk stype w OOpen = Inr w' \<and> step_ok mk OOpen w w'"
proof (cases "length (openQueue (ow_map w)) > 0 \<or> nextStream (ow_map w) > o_maxStream (ow_map w)")
  case True
  obtain m fs where b: "maybeSendBlockedFrame stype (ow_map w) = (m, fs)" by fastforce
  show ?thesis using True i b maybeSendBlockedFrame_inv [OF i b] maybeSendBlockedFrame_frame [OF b]
    by (auto simp: o_OpenStream_def out_inv_def Let_def ow_result_def step_ok_def progress_def)
next
  case False
  obtain m where m: "openStream mk (ow_map w) = (mk (nextStream (ow_map w)), m)" "highestInQueue m = highestInQueue (ow_map w)"
    "out_inv mk (w\<lparr>ow_map := m, ow_opened := ow_opened w @ [mk (nextStream (ow_map w))]\<rparr>)"
    using openStream_inv [OF i] False by auto
  have "o_closeErr (ow_map w) = None" using i by (simp add: out_inv_def Let_def)
  then show ?thesis using False m queue_empty [OF i] by (simp add: o_OpenStream_def ow_result_def step_ok_def progress_def)
qed

lemma step_open_sync:
  assumes i: "out_inv mk w" and h: "unat (highestInQueue (ow_map w)) < 2 ^ 63"
  shows "\<exists>w'. out_step mk stype w (OOpenSync ctxDone) = Inr w' \<and> step_ok mk (OOpenSync ctxDone) w w'"
proof -
  have c: "o_closeErr (ow_map w) = None" using i by (simp add: out_inv_def Let_def)
  consider "ctxDone" | "\<not> ctxDone" "openQueue (ow_map w) = []" "nextStream (ow_map w) \<le> o_maxStream (ow_map w)"
    | "\<not> ctxDone" "\<not> (openQueue (ow_map w) = [] \<and> nextStream (ow_map w) \<le> o_maxStream (ow_map w))" by blast
  then show ?thesis
  proof cases
    case 1
    then show ?thesis using i c by (simp add: o_OpenStreamSync_def ow_result_def step_ok_def progress_def)
  next
    case 2
    obtain m where m: "openStream mk (ow_map w) = (mk (nextStream (ow_map w)), m)" "highestInQueue m = highestInQueue (ow_map w)"
      "out_inv mk (w\<lparr>ow_map := m, ow_opened := ow_opened w @ [mk (nextStream (ow_map w))]\<rparr>)"
      using openStream_inv [OF i] 2 by auto
    then show ?thesis using 2 c queue_empty [OF i] by (simp add: o_OpenStreamSync_def ow_result_def step_ok_def progress_def)
  next
    case 3
    let ?w = "w\<lparr>ow_map := enqueued (ow_map w), ow_waiting := insert (highestInQueue (ow_map w)) (ow_waiting w)\<rparr>"
    have e: "out_inv mk ?w" using enqueue_inv [OF i h] .
    obtain m fs where b: "maybeSendBlockedFrame stype (ow_map ?w) = (m, fs)" by fastforce
    have u: "unat (highestInQueue (ow_map w) + 1) = unat (highestInQueue (ow_map w)) + 1" using h by (subst unat_plus_lt) simp_all
    have "o_OpenStreamSync mk stype ctxDone (ow_map w) = (OpenWaits (highestInQueue (ow_map w)), m, fs)"
      using 3 c b by (auto simp: o_OpenStreamSync_def enqueued_def Let_def)
    moreover have "progress w \<longrightarrow> ow_waiting w \<noteq> {} \<and> nextStream (ow_map w) \<le> o_maxStream (ow_map w) \<longrightarrow> ow_waiting w \<inter> closedChans (ow_map w) \<noteq> {}" by (simp add: progress_def)
    moreover have "out_inv mk (w\<lparr>ow_map := m, ow_frames := ow_frames w @ fs, ow_waiting := insert (highestInQueue (ow_map w)) (ow_waiting w)\<rparr>)"
      by (rule back_subst [of "out_inv mk", OF maybeSendBlockedFrame_inv [OF e b]]) simp
    ultimately show ?thesis using 3 u maybeSendBlockedFrame_frame [OF b] queue_empty [OF i]
      by (auto simp: ow_result_def step_ok_def progress_def)
  qed
qed


lemma step_resume:
  assumes i: "out_inv mk w" and h: "unat (highestInQueue (ow_map w)) < 2 ^ 63"
  shows "\<exists>w'. out_step mk stype w (OResume ctxDone pos) = Inr w' \<and> step_ok mk (OResume ctxDone pos) w w'"
proof (cases "pos \<in> ow_waiting w \<and> (ctxDone \<or> pos \<in> closedChans (ow_map w))")
  case False
  then show ?thesis using i by (auto simp: step_ok_def)
next
  case enabled: True
  have c: "o_closeErr (ow_map w) = None" using i by (simp add: out_inv_def Let_def)
  consider "ctxDone" | "\<not> ctxDone" "nextStream (ow_map w) > o_maxStream (ow_map w)" | "\<not> ctxDone" "nextStream (ow_map w) \<le> o_maxStream (ow_map w)" by fastforce
  then show ?thesis
  proof cases
    case 1
    have "out_inv mk (w\<lparr>ow_waiting := ow_waiting w - {pos}, ow_map := ow_map w\<lparr>openQueue := AList.delete pos (openQueue (ow_map w))\<rparr>\<rparr>)"
      by (rule back_subst [of "out_inv mk", OF outqueue_inv [OF i, of pos]]) simp
    then show ?thesis using 1 enabled by (simp add: OpenStreamSync_resume_def ow_result_def step_ok_def)
  next
    case 2
    have "w\<lparr>ow_waiting := insert pos (ow_waiting w)\<rparr> = w" using enabled by (simp add: insert_absorb)
    then show ?thesis using 2 enabled c i by (simp add: OpenStreamSync_resume_def ow_result_def step_ok_def insert_absorb)
  next
    case 3
    let ?str = "mk (nextStream (ow_map w))"
    obtain m where m: "openStream mk (ow_map w) = (?str, m)" "highestInQueue m = highestInQueue (ow_map w)"
      and im: "out_inv mk (w\<lparr>ow_map := m, ow_opened := ow_opened w @ [?str]\<rparr>)"
      using openStream_inv [OF i 3(2)] by auto
    define v where "v = w\<lparr>ow_map := m\<lparr>openQueue := AList.delete pos (openQueue m)\<rparr>, ow_waiting := ow_waiting w - {pos}, ow_opened := ow_opened w @ [?str]\<rparr>"
    have "out_inv mk v" by (rule back_subst [of "out_inv mk", OF outqueue_inv [OF im, of pos]]) (simp add: v_def)
    moreover have "unat (highestInQueue (ow_map v)) < 2 ^ 63" using h m(2) by (simp add: v_def)
    ultimately obtain m' where m': "unblockOpenSync (ow_map v) = Inr m'" "out_inv mk (v\<lparr>ow_map := m'\<rparr>)" "highestInQueue m' = highestInQueue (ow_map v)"
      "ow_waiting v \<noteq> {} \<longrightarrow> ow_waiting v \<inter> closedChans m' \<noteq> {}" using unblock_inv by blast
    have "out_step mk stype w (OResume ctxDone pos) = Inr (v\<lparr>ow_map := m'\<rparr>)"
      using 3 enabled c m m'(1) by (simp add: OpenStreamSync_resume_def ow_result_def v_def)
    moreover have "step_ok mk (OResume ctxDone pos) w (v\<lparr>ow_map := m'\<rparr>)" using m m' by (simp add: step_ok_def progress_def v_def)
    ultimately show ?thesis by blast
  qed
qed

lemma step_set_max:
  assumes i: "out_inv mk w" and h: "unat (highestInQueue (ow_map w)) < 2 ^ 63" and n: "num \<le> MaxStreamCount"
  shows "\<exists>w'. out_step mk stype w (OSetMax num) = Inr w' \<and> step_ok mk (OSetMax num) w w'"
proof (cases "num \<le> o_maxStream (ow_map w)")
  case True
  then have "out_step mk stype w (OSetMax num) = Inr (w\<lparr>ow_map := ow_map w\<rparr>)" by (simp add: SetMaxStream_def)
  then show ?thesis using i by (simp add: step_ok_def)
next
  case False
  let ?v = "w\<lparr>ow_map := ow_map w\<lparr>o_maxStream := num, blockedSent := False\<rparr>\<rparr>"
  have "out_inv mk ?v" using i False n by (auto simp: out_inv_def Let_def)
  then obtain m where "unblockOpenSync (ow_map ?v) = Inr m" "out_inv mk (?v\<lparr>ow_map := m\<rparr>)" "highestInQueue m = highestInQueue (ow_map w)"
    "ow_waiting w \<noteq> {} \<longrightarrow> ow_waiting w \<inter> closedChans m \<noteq> {}" using unblock_inv [of mk ?v] h by auto
  then show ?thesis using False by (simp add: SetMaxStream_def step_ok_def progress_def)
qed

lemma step_delete:
  assumes i: "out_inv mk w"
  shows "\<exists>w'. out_step mk stype w (ODelete num) = Inr w' \<and> step_ok mk (ODelete num) w w'"
proof (cases "map_of (o_streams (ow_map w)) num = None")
  case True
  then show ?thesis using i by (simp add: o_DeleteStream_def step_ok_def)
next
  case False
  have "streams_made mk (AList.delete num (o_streams (ow_map w))) (nextStream (ow_map w))"
    using i by (auto simp: out_inv_def Let_def streams_made_def AList.delete_conv')
  then have "out_inv mk (w\<lparr>ow_map := ow_map w\<lparr>o_streams := AList.delete num (o_streams (ow_map w))\<rparr>\<rparr>)" using i by (simp add: out_inv_def Let_def)
  then show ?thesis using False by (auto simp: o_DeleteStream_def step_ok_def progress_def)
qed

lemma out_run_ok:
  assumes "out_inv mk w" and "\<forall>op \<in> set ops. out_op_ok op" and "unat (highestInQueue (ow_map w)) + length ops < 2 ^ 63"
  shows "\<exists>w'. out_run mk stype w ops = Inr w' \<and> out_inv mk w' \<and> (progress w \<and> (\<forall>op \<in> set ops. \<not> cancels op) \<longrightarrow> progress w')"
  using assms
proof (induction ops arbitrary: w)
  case (Cons op ops)
  then have h: "unat (highestInQueue (ow_map w)) < 2 ^ 63" by simp
  have "\<exists>w'. out_step mk stype w op = Inr w' \<and> step_ok mk op w w'"
    using Cons.prems step_open step_open_sync [OF _ h] step_resume [OF _ h] step_set_max [OF _ h] step_delete by (cases op) auto
  then obtain w' where w': "out_step mk stype w op = Inr w'" "step_ok mk op w w'" by blast
  then obtain w'' where "out_run mk stype w' ops = Inr w''" "out_inv mk w''" "progress w' \<and> (\<forall>op \<in> set ops. \<not> cancels op) \<longrightarrow> progress w''"
    using Cons.IH [of w'] Cons.prems by (auto simp: step_ok_def)
  then show ?case using w' by (auto simp: step_ok_def)
qed simp

lemma out_inv_new: "out_inv mk newOutWorld"
  by (simp add: out_inv_def newOutWorld_def newOutgoingItemsMap_def queue_inv_def streams_made_def blocked_limits_def InvalidStreamNum_def MaxStreamCount_def push_bit_eq_mult)


section \<open>Properties\<close>


definition out_demo :: "out_op list" where
  "out_demo = [OOpen, OSetMax 2, OOpen, OOpen, OOpenSync False, OOpenSync False, OSetMax 3, OResume False 0]"




lemma out_run_replicate: "out_step mk stype w op = Inr w \<Longrightarrow> out_run mk stype w (replicate n op) = Inr w"
  by (induction n) simp_all

lemmas out_eval = upt_conv_Cons newOutWorld_def newOutgoingItemsMap_def o_OpenStreamSync_def o_OpenStream_def maybeSendBlockedFrame_def ow_result_def SetMaxStream_def unblockOpenSync_def
  OpenStreamSync_resume_def openStream_def InvalidStreamNum_def Let_def


end
