(* ===== verification/FrameSorter.thy ===== *)
theory FrameSorter
  imports WireStream RttStats "HOL-Library.AList"
begin

text \<open>
  Reassembly of stream data: \<open>frame_sorter.go\<close>. The queue is an association list from offsets to
  entries, the list of gaps is in the order of the linked list. The function values \<open>doneCb\<close> are
  represented by numbers, and an operation returns the list of the callbacks it called. The lemmas
  show that the data taken from the sorter is always a prefix of the stream, whatever overlapping
  pieces of it arrive, that pieces that do not partially overlap are all delivered, and how partial
  overlaps can make the sorter lose data that it accepted.
\<close>

section \<open>The sorter\<close>

record ByteInterval =
  bStart :: ByteCount
  bEnd :: ByteCount

record frameSorterEntry =
  fse_Data :: "byte list"
  fse_DoneCb :: "nat option"

record frameSorter =
  fs_queue :: "(ByteCount \<times> frameSorterEntry) list"
  readPos :: ByteCount
  gaps :: "ByteInterval list"

definition MaxStreamFrameSorterGaps :: nat where "MaxStreamFrameSorterGaps = 1000"

definition errDuplicateStreamData :: go_error where
  "errDuplicateStreamData = Errorf (''duplicate stream data'', [])"

definition newFrameSorter :: frameSorter where
  "newFrameSorter = \<lparr>fs_queue = [], readPos = 0, gaps = [\<lparr>bStart = 0, bEnd = MaxByteCount\<rparr>]\<rparr>"

text \<open>Calling a callback that may be nil.\<close>

definition call :: "nat option \<Rightarrow> nat list" where
  "call cb = (case cb of None \<Rightarrow> [] | Some c \<Rightarrow> [c])"

text \<open>The loop that skips the gaps before the frame: it ends with a duplicate, without a gap, or at a
  gap, with the gaps before and after it.\<close>

datatype skipped = SkipDuplicate | SkipNone | SkipTo "ByteInterval list" ByteInterval "ByteInterval list"

fun skipGaps :: "ByteCount \<Rightarrow> ByteCount \<Rightarrow> ByteInterval list \<Rightarrow> ByteInterval list \<Rightarrow> skipped" where
  "skipGaps start stop pre [] = SkipNone"
| "skipGaps start stop pre (gap # rest) =
    (if stop \<le> bStart gap then SkipDuplicate
     else if stop > bStart gap \<and> start \<le> bEnd gap then SkipTo pre gap rest
     else skipGaps start stop (pre @ [gap]) rest)"

text \<open>The loop that looks for the gap in which the frame ends. The element \<open>endGap\<close> is the gap the
  frame starts in, or one behind it, or one that was already removed from the list.\<close>

datatype endPos = AtGap | Behind | Removed

definition removeEnd :: "endPos \<Rightarrow> endPos" where
  "removeEnd p = (if p = AtGap then AtGap else Removed)"

fun findEndGap :: "ByteCount \<Rightarrow> ByteCount \<Rightarrow> ByteInterval \<Rightarrow> endPos \<Rightarrow> ByteInterval list \<Rightarrow>
    (ByteCount \<times> frameSorterEntry) list \<Rightarrow> nat list \<Rightarrow>
    bool \<times> ByteInterval \<times> endPos \<times> ByteInterval list \<times> (ByteCount \<times> frameSorterEntry) list \<times> nat list" where
  "findEndGap offset stop endGap p [] q cbs = (bEnd endGap > stop, endGap, p, [], q, cbs)"
| "findEndGap offset stop endGap p (nextEndGap # rest) q cbs =
    (if stop \<ge> bEnd endGap then
       if stop < bStart nextEndGap then (True, endGap, removeEnd p, nextEndGap # rest, q, cbs)
       else if bEnd endGap \<noteq> offset then
         findEndGap offset stop nextEndGap Behind rest (AList.delete (bEnd endGap) q)
           (cbs @ (case map_of q (bEnd endGap) of None \<Rightarrow> [] | Some e \<Rightarrow> call (fse_DoneCb e)))
       else findEndGap offset stop nextEndGap Behind rest q cbs
     else (True, endGap, p, nextEndGap # rest, q, cbs))"

text \<open>The gaps after the frame was put into them.\<close>

definition adjustGaps :: "ByteCount \<Rightarrow> ByteCount \<Rightarrow> ByteInterval list \<Rightarrow> ByteInterval \<Rightarrow> ByteInterval \<Rightarrow>
    endPos \<Rightarrow> ByteInterval list \<Rightarrow> ByteInterval list" where
  "adjustGaps start stop pre gap endGap p rest =
    (let behind = (\<lambda>g. if p = Behind then [g] else [])
     in if start = bStart gap then
          let keepGap = \<not> stop \<ge> bEnd gap;
              shrink = stop < bEnd endGap;
              gap' = (if shrink \<and> p = AtGap then gap\<lparr>bStart := stop\<rparr> else gap);
              endGap' = (if shrink then endGap\<lparr>bStart := stop\<rparr> else endGap)
          in pre @ (if keepGap then [gap'] else []) @ behind endGap' @ rest
        else if stop = bEnd endGap then
          pre @ gap\<lparr>bEnd := start\<rparr> # behind endGap @ rest
        else if p = AtGap then
          pre @ gap\<lparr>bEnd := start\<rparr> # \<lparr>bStart = stop, bEnd = bEnd gap\<rparr> # rest
        else
          pre @ gap\<lparr>bEnd := start\<rparr> # behind (endGap\<lparr>bStart := stop\<rparr>) @ rest)"

text \<open>The part of \<open>push\<close> behind the first cut: the frame starts in \<open>gap\<close> or right behind it.\<close>

definition pushAt :: "frameSorter \<Rightarrow> byte list \<Rightarrow> ByteCount \<Rightarrow> ByteCount \<Rightarrow> nat option \<Rightarrow> bool \<Rightarrow> ByteInterval list \<Rightarrow>
    ByteInterval \<Rightarrow> ByteInterval list \<Rightarrow> nat list \<Rightarrow> go_error option \<times> frameSorter \<times> nat list" where
  "pushAt s data offset stop doneCb wasCut pre gap rest cbs =
    (case findEndGap offset stop gap AtGap rest (fs_queue s) cbs of (found, endGap, p, rest, q, cbs) \<Rightarrow>
       let s = s\<lparr>fs_queue := q, gaps := pre @ gap # (if p = Behind then [endGap] else []) @ rest\<rparr>;
           start = offset
       in if \<not> found then (Some (Errorf (''StreamFrameSorter BUG: no end gap found'', [])), s, cbs)
       else
         let cutBack = stop > bEnd endGap;
             cutLen = (if cutBack then stop - bEnd endGap else 0);
             len = word_of_nat (length data) - cutLen;
             stop = stop - cutLen
         in if unat len > length data then (Some (Panic (''slice bounds out of range [:%d]'', [int (unat len)])), s, cbs)
         else
           let data = (if cutBack then take (unat len) data else data);
               s = s\<lparr>gaps := adjustGaps start stop pre gap endGap p rest\<rparr>
           in if length (gaps s) > MaxStreamFrameSorterGaps
              then (Some (Errorf (''too many gaps in received data'', [])), s, cbs)
              else
                let copied = (wasCut \<or> cutBack) \<and> length data < unat MinStreamFrameBufferSize;
                    cbs = cbs @ (if copied then call doneCb else []);
                    doneCb = (if copied then None else doneCb)
                in (None, s\<lparr>fs_queue := AList.update offset \<lparr>fse_Data = data, fse_DoneCb = doneCb\<rparr> (fs_queue s)\<rparr>, cbs))"

definition sorter_push :: "frameSorter \<Rightarrow> byte list \<Rightarrow> ByteCount \<Rightarrow> nat option \<Rightarrow>
    go_error option \<times> frameSorter \<times> nat list" where
  "sorter_push s data offset doneCb =
    (if data = [] then (Some errDuplicateStreamData, s, [])
     else
       let old = map_of (fs_queue s) offset in
       if (case old of Some e \<Rightarrow> length data \<le> length (fse_Data e) | None \<Rightarrow> False)
       then (Some errDuplicateStreamData, s, [])
       else
         let cbs = (case old of Some e \<Rightarrow> call (fse_DoneCb e) | None \<Rightarrow> []);
             s = (case old of
                    Some e \<Rightarrow> s\<lparr>fs_queue := AList.update offset \<lparr>fse_Data = data, fse_DoneCb = doneCb\<rparr> (fs_queue s)\<rparr>
                  | None \<Rightarrow> s);
             start = offset;
             stop = offset + word_of_nat (length data)
         in case skipGaps start stop [] (gaps s) of
              SkipDuplicate \<Rightarrow> (Some errDuplicateStreamData, s, cbs)
            | SkipNone \<Rightarrow> (Some (Errorf (''StreamFrameSorter BUG: no gap found'', [])), s, cbs)
            | SkipTo pre gap rest \<Rightarrow>
                if start < bStart gap then
                  let add = bStart gap - start
                  in if unat add > length data
                     then (Some (Panic (''slice bounds out of range [%d:%d]'', [int (unat add), int (length data)])), s, cbs)
                     else pushAt s (drop (unat add) data) (offset + add) stop doneCb True pre gap rest cbs
                else pushAt s data offset stop doneCb False pre gap rest cbs)"

definition sorter_Push :: "frameSorter \<Rightarrow> byte list \<Rightarrow> ByteCount \<Rightarrow> nat option \<Rightarrow>
    go_error option \<times> frameSorter \<times> nat list" where
  "sorter_Push s data offset doneCb =
    (case sorter_push s data offset doneCb of (err, s, cbs) \<Rightarrow>
       if err = Some errDuplicateStreamData then (None, s, cbs @ call doneCb) else (err, s, cbs))"

text \<open>The result of \<open>Pop\<close> with a nil slice is \<open>None\<close>.\<close>

definition sorter_Pop :: "frameSorter \<Rightarrow> (ByteCount \<times> byte list option \<times> nat option) \<times> frameSorter" where
  "sorter_Pop s =
    (case map_of (fs_queue s) (readPos s) of
       None \<Rightarrow> ((readPos s, None, None), s)
     | Some entry \<Rightarrow>
         ((readPos s, Some (fse_Data entry), fse_DoneCb entry),
          s\<lparr>fs_queue := AList.delete (readPos s) (fs_queue s),
            readPos := readPos s + word_of_nat (length (fse_Data entry))\<rparr>))"

definition HasMoreData :: "frameSorter \<Rightarrow> bool" where
  "HasMoreData s = (fs_queue s \<noteq> [])"

section \<open>The gaps\<close>

text \<open>The bytes that the gaps stand for, and the shape of a list of gaps: non-empty, disjoint,
  non-adjacent intervals in ascending order.\<close>

definition bytes_of :: "ByteInterval \<Rightarrow> nat set" where
  "bytes_of g = {unat (bStart g) ..< unat (bEnd g)}"

definition missing :: "ByteInterval list \<Rightarrow> nat set" where
  "missing gs = (\<Union>g \<in> set gs. bytes_of g)"

definition ascending :: "ByteInterval list \<Rightarrow> bool" where
  "ascending gs \<longleftrightarrow> (\<forall>g \<in> set gs. bStart g < bEnd g) \<and> sorted_wrt (\<lambda>g h. bEnd g < bStart h) gs"

lemma missing_simps [simp]:
  "missing [] = {}" "missing (g # gs) = bytes_of g \<union> missing gs" "missing (gs @ hs) = missing gs \<union> missing hs"
  by (auto simp: missing_def)

lemma ascending_simps [simp]:
  "ascending []"
  "ascending (g # gs) \<longleftrightarrow> bStart g < bEnd g \<and> (\<forall>h \<in> set gs. bEnd g < bStart h) \<and> ascending gs"
  "ascending (gs @ hs) \<longleftrightarrow> ascending gs \<and> ascending hs \<and> (\<forall>g \<in> set gs. \<forall>h \<in> set hs. bEnd g < bStart h)"
  by (auto simp: ascending_def sorted_wrt_append)

lemma skipGaps_cases:
  assumes "ascending gs" and "gs \<noteq> []" and "start \<le> bEnd (last gs)" and "start < stop"
  obtains
    (dup) "skipGaps start stop pre gs = SkipDuplicate" "missing gs \<inter> {unat start ..< unat stop} = {}"
  | (gap) pre' g rest where "skipGaps start stop pre gs = SkipTo (pre @ pre') g rest" "gs = pre' @ g # rest"
      "\<forall>h \<in> set pre'. bEnd h < start" "bStart g < stop" "start \<le> bEnd g"
  using assms
proof (induction gs arbitrary: pre thesis)
  case Nil
  then show ?case by simp
next
  case (Cons g gs)
  consider (1) "stop \<le> bStart g" | (2) "bStart g < stop" "start \<le> bEnd g" | (3) "bStart g < stop" "bEnd g < start"
    by fastforce
  then show ?case
  proof cases
    case 1
    have "stop \<le> bStart h" if "h \<in> set (g # gs)" for h
      using that 1 Cons.prems(3) by (auto dest!: bspec intro: order_trans [OF _ order_less_imp_le])
    then have "missing (g # gs) \<inter> {unat start ..< unat stop} = {}"
      by (fastforce simp: missing_def bytes_of_def word_le_nat_alt)
    then show ?thesis using 1 by (intro Cons.prems(1)) simp_all
  next
    case 2
    then show ?thesis using Cons.prems(2) [of "[]" g gs] by (simp add: not_le)
  next
    case 3
    have ne: "gs \<noteq> []" using 3 Cons.prems(5) by (cases gs) auto
    have prems: "ascending gs" "start \<le> bEnd (last gs)" "start < stop" using Cons.prems ne by auto
    have step: "skipGaps start stop pre (g # gs) = skipGaps start stop (pre @ [g]) gs"
      using 3(1) 3(2) by (auto simp: not_le dest: order_less_not_sym)
    show ?thesis
    proof (rule Cons.IH [OF _ _ prems(1) ne prems(2) prems(3)])
      assume "skipGaps start stop (pre @ [g]) gs = SkipDuplicate" "missing gs \<inter> {unat start ..< unat stop} = {}"
      then show thesis using step 3 by (intro Cons.prems(1)) (auto simp: bytes_of_def word_less_nat_alt)
    next
      fix pre' h rest
      assume "skipGaps start stop (pre @ [g]) gs = SkipTo ((pre @ [g]) @ pre') h rest" "gs = pre' @ h # rest"
        "\<forall>h \<in> set pre'. bEnd h < start" "bStart h < stop" "start \<le> bEnd h"
      then show thesis using step 3 by (intro Cons.prems(2) [of "g # pre'" h rest]) auto
    qed
  qed
qed

lemma findEndGap_Behind:
  assumes "ascending (g # rest)" and "stop < bEnd (last (g # rest))" and "bStart g \<le> stop"
  shows "\<exists>mids h p rest' q' cbs'. findEndGap offset stop g Behind rest q cbs = (True, h, p, rest', q', cbs') \<and>
    g # rest = mids @ h # rest' \<and> (\<forall>m \<in> set mids. bEnd m \<le> stop) \<and> bStart h \<le> stop \<and>
    (p = Behind \<and> stop < bEnd h \<or> p = Removed \<and> bEnd h \<le> stop \<and> (\<forall>n \<in> set rest'. stop < bStart n)) \<and>
    (\<forall>k e. (k, e) \<in> set q' \<longrightarrow> (k, e) \<in> set q) \<and> (distinct (map fst q) \<longrightarrow> distinct (map fst q'))"
  using assms
proof (induction rest arbitrary: g q cbs)
  case Nil
  then show ?case by (intro exI [of _ "[]"]) auto
next
  case (Cons n rest)
  consider (1) "stop < bEnd g" | (2) "bEnd g \<le> stop" "stop < bStart n" | (3) "bEnd g \<le> stop" "bStart n \<le> stop"
    by fastforce
  then show ?case
  proof cases
    case 1
    then show ?thesis using Cons.prems(3) by (intro exI [of _ "[]"]) (auto simp: not_le)
  next
    case 2
    have "\<forall>m \<in> set (n # rest). stop < bStart m"
      using 2 Cons.prems(1) by (auto intro: order_less_trans)
    then show ?thesis using 2 Cons.prems(3) by (intro exI [of _ "[]"]) (auto simp: removeEnd_def)
  next
    case 3
    define q1 where "q1 = (if bEnd g \<noteq> offset then AList.delete (bEnd g) q else q)"
    define cbs1 where "cbs1 = (if bEnd g \<noteq> offset then cbs @ (case map_of q (bEnd g) of None \<Rightarrow> [] | Some e \<Rightarrow> call (fse_DoneCb e)) else cbs)"
    have step: "findEndGap offset stop g Behind (n # rest) q cbs = findEndGap offset stop n Behind rest q1 cbs1"
      using 3(1) 3(2) [THEN leD] by (simp add: q1_def cbs1_def)
    have q1: "(\<forall>k e. (k, e) \<in> set q1 \<longrightarrow> (k, e) \<in> set q) \<and> (distinct (map fst q) \<longrightarrow> distinct (map fst q1))"
      by (auto simp: q1_def AList.delete_eq distinct_map inj_on_def)
    obtain mids h p rest' q' cbs' where IH: "findEndGap offset stop n Behind rest q1 cbs1 = (True, h, p, rest', q', cbs')"
      "n # rest = mids @ h # rest'" "\<forall>m \<in> set mids. bEnd m \<le> stop" "bStart h \<le> stop"
      "p = Behind \<and> stop < bEnd h \<or> p = Removed \<and> bEnd h \<le> stop \<and> (\<forall>n \<in> set rest'. stop < bStart n)"
      "\<forall>k e. (k, e) \<in> set q' \<longrightarrow> (k, e) \<in> set q1" "distinct (map fst q1) \<longrightarrow> distinct (map fst q')"
      using Cons.IH [of n q1 cbs1] Cons.prems 3 by auto
    show ?thesis unfolding step
      by (rule exI [of _ "g # mids"], intro exI conjI, rule IH(1)) (use IH q1 3 in auto)
  qed
qed

lemma findEndGap_cases:
  assumes "ascending (g # rest)" and "stop < bEnd (last (g # rest))"
  obtains
    (at) "findEndGap offset stop g AtGap rest q cbs = (True, g, AtGap, rest, q, cbs)" "\<forall>n \<in> set rest. stop < bStart n"
  | (behind) mids h rest' q' cbs' where
      "findEndGap offset stop g AtGap rest q cbs = (True, h, Behind, rest', q', cbs')" "bEnd g \<le> stop"
      "rest = mids @ h # rest'" "\<forall>m \<in> set mids. bEnd m \<le> stop" "bStart h \<le> stop" "stop < bEnd h"
      "set q' \<subseteq> set q" "distinct (map fst q) \<Longrightarrow> distinct (map fst q')"
  | (removed) mids h rest' q' cbs' where
      "findEndGap offset stop g AtGap rest q cbs = (True, h, Removed, rest', q', cbs')" "bEnd g \<le> stop"
      "rest = mids @ h # rest'" "\<forall>m \<in> set mids. bEnd m \<le> stop" "bStart h \<le> stop" "bEnd h \<le> stop"
      "\<forall>n \<in> set rest'. stop < bStart n"
      "set q' \<subseteq> set q" "distinct (map fst q) \<Longrightarrow> distinct (map fst q')"
proof -
  consider (1) "stop < bEnd g" | (2) n rest1 where "rest = n # rest1" "bEnd g \<le> stop" "stop < bStart n"
    | (3) n rest1 where "rest = n # rest1" "bEnd g \<le> stop" "bStart n \<le> stop"
    using assms(2) by (cases rest) fastforce+
  then show thesis
  proof cases
    case 1
    have "\<forall>n \<in> set rest. stop < bStart n" using 1 assms(1) by (auto intro: order_less_trans)
    moreover have "findEndGap offset stop g AtGap rest q cbs = (True, g, AtGap, rest, q, cbs)"
      using 1 linorder_not_le [THEN iffD2, OF 1] by (cases rest) auto
    ultimately show thesis using at by blast
  next
    case 2
    have "\<forall>m \<in> set rest. stop < bStart m" using 2 assms(1) by (auto intro: order_less_trans)
    then show thesis using 2 at by (simp add: removeEnd_def)
  next
    case 3
    define q1 where "q1 = (if bEnd g \<noteq> offset then AList.delete (bEnd g) q else q)"
    define cbs1 where "cbs1 = (if bEnd g \<noteq> offset then cbs @ (case map_of q (bEnd g) of None \<Rightarrow> [] | Some e \<Rightarrow> call (fse_DoneCb e)) else cbs)"
    have step: "findEndGap offset stop g AtGap rest q cbs = findEndGap offset stop n Behind rest1 q1 cbs1"
      using 3(1,2) 3(3) [THEN leD] by (simp add: q1_def cbs1_def)
    have q1: "set q1 \<subseteq> set q" "distinct (map fst q) \<Longrightarrow> distinct (map fst q1)"
      by (auto simp: q1_def AList.delete_eq distinct_map inj_on_def)
    have "ascending (n # rest1)" "stop < bEnd (last (n # rest1))" using assms 3(1) by auto
    from findEndGap_Behind [OF this 3(3), of offset q1 cbs1] obtain mids h p rest' q' cbs' where
      IH: "findEndGap offset stop n Behind rest1 q1 cbs1 = (True, h, p, rest', q', cbs')"
        "n # rest1 = mids @ h # rest'" "\<forall>m \<in> set mids. bEnd m \<le> stop" "bStart h \<le> stop"
        "p = Behind \<and> stop < bEnd h \<or> p = Removed \<and> bEnd h \<le> stop \<and> (\<forall>n \<in> set rest'. stop < bStart n)"
        "\<forall>k e. (k, e) \<in> set q' \<longrightarrow> (k, e) \<in> set q1" "distinct (map fst q1) \<longrightarrow> distinct (map fst q')"
      by blast
    have q': "set q' \<subseteq> set q" "distinct (map fst q) \<Longrightarrow> distinct (map fst q')" using IH(6,7) q1 by auto
    from IH(5) show thesis
    proof (elim disjE conjE)
      assume "p = Behind" "stop < bEnd h"
      then show thesis using behind [OF _ 3(2) _ IH(3,4) _ q'] step IH(1,2) 3(1) by simp
    next
      assume "p = Removed" "bEnd h \<le> stop" "\<forall>n \<in> set rest'. stop < bStart n"
      then show thesis using removed [OF _ 3(2) _ IH(3,4) _ _ q'] step IH(1,2) 3(1) by simp
    qed
  qed
qed

lemma missing_below: "\<forall>n \<in> set gs. bEnd n \<le> x \<Longrightarrow> missing gs \<subseteq> {..< unat x}"
  by (fastforce simp: missing_def bytes_of_def word_le_nat_alt)

lemma missing_above: "\<forall>n \<in> set gs. x \<le> bStart n \<Longrightarrow> missing gs \<subseteq> {unat x ..}"
  by (fastforce simp: missing_def bytes_of_def word_le_nat_alt)

text \<open>What the loop has found is enough to know the gaps after the frame.\<close>

definition cutStop :: "ByteCount \<Rightarrow> ByteInterval \<Rightarrow> ByteCount" where
  "cutStop stop endGap = (if stop > bEnd endGap then bEnd endGap else stop)"

lemma adjustGaps_correct:
  assumes asc: "ascending (pre @ g # rest)" and bnds: "bStart g \<le> start" "start \<le> bEnd g" "start < stop"
    and last: "stop < bEnd (last (g # rest))"
    and run: "findEndGap offset stop g AtGap rest q cbs = (found, h, p, rest', q', cbs')"
  defines "gs \<equiv> adjustGaps start (cutStop stop h) pre g h p rest'"
  shows "ascending gs \<and> missing gs = missing (pre @ g # rest) - {unat start ..< unat stop} \<and>
    gs \<noteq> [] \<and> bEnd (last gs) = bEnd (last (g # rest))"
proof -
  have asc': "ascending (g # rest)" using asc by simp
  have below: "missing pre \<subseteq> {..< unat start}"
    using asc bnds(1) by (intro missing_below) (auto intro: order_less_imp_le order_less_le_trans)
  note nat = word_le_nat_alt word_less_nat_alt bytes_of_def
  from asc' last show ?thesis
  proof (cases rule: findEndGap_cases [where offset = offset and q = q and cbs = cbs])
    case at
    then have r: "h = g" "p = AtGap" "rest' = rest" using run by simp_all
    have above: "missing rest \<subseteq> {unat stop ..}" using at(2) by (intro missing_above) (auto intro: order_less_imp_le)
    have ne: "rest \<noteq> []" if "bEnd g \<le> stop" using last that by auto
    consider (a) "start = bStart g" "bEnd g \<le> stop" | (b) "start = bStart g" "stop < bEnd g"
      | (c) "bStart g < start" "bEnd g \<le> stop" | (d) "bStart g < start" "stop < bEnd g"
      using bnds(1) by fastforce
    then show ?thesis
    proof cases
      case a
      then have "gs = pre @ rest" by (auto simp: gs_def r adjustGaps_def cutStop_def)
      then show ?thesis using a asc ne below above by (auto simp: nat)
    next
      case b
      then have "gs = pre @ g\<lparr>bStart := stop\<rparr> # rest" by (auto simp: gs_def r adjustGaps_def cutStop_def not_le)
      then show ?thesis using b asc bnds at(2) below above by (auto simp: nat)
    next
      case c
      then have "gs = pre @ g\<lparr>bEnd := start\<rparr> # rest" by (auto simp: gs_def r adjustGaps_def cutStop_def not_le)
      then show ?thesis using c asc bnds ne below above by (auto simp: nat)
    next
      case d
      then have "gs = pre @ g\<lparr>bEnd := start\<rparr> # \<lparr>bStart = stop, bEnd = bEnd g\<rparr> # rest"
        by (auto simp: gs_def r adjustGaps_def cutStop_def not_le)
      then show ?thesis using d asc bnds at(2) below above by (auto simp: nat)
    qed
  next
    case (behind mids h' rest1 q1 cbs1)
    then have r: "h = h'" "p = Behind" "rest' = rest1" using run by simp_all
    have gs: "gs = pre @ (if start = bStart g then [] else [g\<lparr>bEnd := start\<rparr>]) @ h\<lparr>bStart := stop\<rparr> # rest1"
      using behind by (auto simp: gs_def r adjustGaps_def cutStop_def not_le)
    have above: "missing rest1 \<subseteq> {unat stop ..}"
      using asc behind(3,6) by (intro missing_above) (auto intro: order_less_imp_le order_less_trans)
    have within: "missing mids \<subseteq> {unat start ..< unat stop}"
    proof -
      have "missing mids \<subseteq> {unat start ..}"
        using asc bnds(2) behind(3) by (intro missing_above) (auto intro: order_less_imp_le order_le_less_trans)
      then show ?thesis using missing_below [OF behind(4)] by auto
    qed
    have order: "bEnd g < bStart h'" "\<forall>n \<in> set rest1. bEnd h' < bStart n" "\<forall>n \<in> set pre. bEnd n < bStart h'"
      using asc behind(3) by (auto intro: order_less_trans)
    have "missing gs = missing (pre @ g # rest) - {unat start ..< unat stop}"
      using order(1) bnds behind(5,6) below within above unfolding gs behind(3) r
      by (auto simp: nat)
    moreover have "ascending gs"
      using asc order bnds behind(2,6) unfolding gs behind(3) r
      by (auto intro: order_less_le_trans order_le_less_trans)
    moreover have "bEnd (last gs) = bEnd (last (g # rest))" unfolding gs behind(3) r by (cases rest1) auto
    ultimately show ?thesis using gs by simp
  next
    case (removed mids h' rest1 q1 cbs1)
    then have r: "h = h'" "p = Removed" "rest' = rest1" using run by simp_all
    have order: "bEnd g < bStart h'" "bEnd g < bEnd h'" "bStart h' < bEnd h'" using asc removed(3) by (auto intro: order_less_trans)
    have ne: "rest1 \<noteq> []" using last removed(3,6) by (cases rest1) auto
    have gs: "gs = pre @ (if start = bStart g then [] else [g\<lparr>bEnd := start\<rparr>]) @ rest1"
      using removed(6) order by (auto simp: gs_def r adjustGaps_def cutStop_def not_le order_less_imp_le)
    have above: "missing rest1 \<subseteq> {unat stop ..}"
      using removed(7) by (intro missing_above) (auto intro: order_less_imp_le)
    have within: "missing (mids @ [h']) \<subseteq> {unat start ..< unat stop}"
    proof -
      have "missing (mids @ [h']) \<subseteq> {unat start ..}"
        using asc bnds(2) removed(3) by (intro missing_above) (auto intro: order_less_imp_le order_le_less_trans)
      then show ?thesis using missing_below [of "mids @ [h']" stop] removed(4,6) by auto
    qed
    have "missing gs = missing (pre @ g # rest) - {unat start ..< unat stop}"
      using bnds removed(2) below within above unfolding gs removed(3) r by (auto simp: nat)
    moreover have "ascending gs"
      using asc bnds unfolding gs removed(3) r by (auto intro: order_less_le_trans order_le_less_trans)
    moreover have "bEnd (last gs) = bEnd (last (g # rest))" using ne unfolding gs removed(3) r by simp
    ultimately show ?thesis using gs ne by simp
  qed
qed

section \<open>The data\<close>

text \<open>The data of the stream is a function from offsets to bytes. A frame is a piece of it if it has
  the bytes of its offsets, and ends before the largest offset.\<close>

definition piece :: "(nat \<Rightarrow> byte) \<Rightarrow> ByteCount \<Rightarrow> byte list \<Rightarrow> bool" where
  "piece c offset d \<longleftrightarrow> d = map c [unat offset ..< unat offset + length d] \<and> unat offset + length d < unat MaxByteCount"

definition extent :: "ByteCount \<Rightarrow> byte list \<Rightarrow> nat set" where
  "extent offset d = {unat offset ..< unat offset + length d}"

definition sorter_inv :: "(nat \<Rightarrow> byte) \<Rightarrow> frameSorter \<Rightarrow> bool" where
  "sorter_inv c s \<longleftrightarrow>
    (\<forall>(k, e) \<in> set (fs_queue s). piece c k (fse_Data e) \<and> extent k (fse_Data e) \<inter> missing (gaps s) = {}) \<and>
    distinct (map fst (fs_queue s)) \<and> ascending (gaps s) \<and> gaps s \<noteq> [] \<and> bEnd (last (gaps s)) = MaxByteCount"

definition errTooManyGaps :: go_error where
  "errTooManyGaps = Errorf (''too many gaps in received data'', [])"

lemma set_update_subset: "set (AList.update k v q) \<subseteq> insert (k, v) (set q)"
  by (induction q) auto

lemma set_update_distinct: "distinct (map fst q) \<Longrightarrow> (k', v') \<in> set (AList.update k v q) \<Longrightarrow> (k', v') = (k, v) \<or> k' \<noteq> k \<and> (k', v') \<in> set q"
  by (induction q) (auto split: if_splits simp: image_iff)

lemma length_update_le: "length (AList.update k v q) \<le> Suc (length q)"
  by (induction q) auto

lemma length_delete_less: "map_of q k = Some v \<Longrightarrow> length (AList.delete k q) < length q"
  by (induction q) (auto simp: AList.delete_eq less_Suc_eq_le split: if_splits)

lemma unat_MaxByteCount: "unat MaxByteCount = 2 ^ 62 - 1"
  by (simp add: MaxByteCount_def)

lemma piece_stop:
  assumes "piece c offset d"
  shows "unat (offset + word_of_nat (length d)) = unat offset + length d"
  using assms by (simp add: piece_def unat_MaxByteCount unat_word_ariths unat_of_nat)

lemma piece_sub:
  assumes "piece c offset d" and "i + n \<le> length d" and "unat offset' = unat offset + i"
  shows "piece c offset' (take n (drop i d))" "extent offset' (take n (drop i d)) \<subseteq> extent offset d"
proof -
  have d: "d = map c [unat offset ..< unat offset + length d]" and lim: "unat offset + length d < unat MaxByteCount"
    using assms(1) by (auto simp: piece_def)
  have "drop i d = map c [unat offset + i ..< unat offset + length d]"
    by (subst d) (simp add: drop_map)
  then have "take n (drop i d) = map c [unat offset + i ..< unat offset + i + n]"
    using assms(2) by (simp add: take_map)
  then show "piece c offset' (take n (drop i d))" "extent offset' (take n (drop i d)) \<subseteq> extent offset d"
    using assms lim by (auto simp: piece_def extent_def)
qed

text \<open>An insertion into the gap that the frame starts in, after its front was cut: the part of it that is
  queued, and what is left missing.\<close>

lemma insert_correct:
  assumes asc: "ascending (pre @ g # rest)" and last: "bEnd (last (g # rest)) = MaxByteCount"
    and pc: "piece c offset d" and bnds: "bStart g \<le> offset" "offset \<le> bEnd g" "d \<noteq> []"
    and stop: "stop = offset + word_of_nat (length d)"
    and run: "findEndGap offset stop g AtGap rest q cbs = (found, h, p, rest', q', cbs')"
  defines "len \<equiv> word_of_nat (length d) - (if stop > bEnd h then stop - bEnd h else 0)"
  shows "found" and "set q' \<subseteq> set q" and "distinct (map fst q) \<Longrightarrow> distinct (map fst q')"
    and "unat len \<le> length d"
    and "stop - (if stop > bEnd h then stop - bEnd h else 0) = cutStop stop h"
proof -
  have st: "unat stop = unat offset + length d" using pc stop piece_stop by simp
  have stop': "offset < stop" using st bnds(3) by (simp add: word_less_nat_alt)
  have lim: "stop < bEnd (last (g # rest))" using pc st unfolding last by (simp add: piece_def word_less_nat_alt)
  have asc': "ascending (g # rest)" using asc by simp
  have res: "found \<and> set q' \<subseteq> set q \<and> (distinct (map fst q) \<longrightarrow> distinct (map fst q')) \<and> bEnd g \<le> bEnd h"
    by (rule findEndGap_cases [OF asc' lim, where offset = offset and q = q and cbs = cbs])
      (use run asc' in \<open>auto intro: order_less_imp_le order_less_trans\<close>)
  then show "found" "set q' \<subseteq> set q" "distinct (map fst q) \<Longrightarrow> distinct (map fst q')" by auto
  have "offset \<le> bEnd h" using res bnds(2) by auto
  moreover have "length d < 2 ^ 64" using pc by (simp add: piece_def unat_MaxByteCount)
  ultimately show "unat len \<le> length d"
    using st unfolding len_def by (auto simp: unat_minus_le word_le_nat_alt word_less_nat_alt unat_of_nat)
  show "stop - (if stop > bEnd h then stop - bEnd h else 0) = cutStop stop h"
    by (simp add: cutStop_def)
qed

lemma pushAt_correct:
  assumes gs: "gaps s = pre @ g # rest" and asc: "ascending (gaps s)" and last: "bEnd (last (gaps s)) = MaxByteCount"
    and pc: "piece c offset d" and bnds: "bStart g \<le> offset" "offset \<le> bEnd g" "d \<noteq> []"
    and stop: "stop = offset + word_of_nat (length d)" and q: "distinct (map fst (fs_queue s))"
  obtains err s' cbs' where "pushAt s d offset stop doneCb wasCut pre g rest cbs = (err, s', cbs')"
    "err = None \<or> err = Some errTooManyGaps" "readPos s' = readPos s"
    "ascending (gaps s')" "gaps s' \<noteq> []" "bEnd (last (gaps s')) = MaxByteCount"
    "missing (gaps s') = missing (gaps s) - extent offset d"
    "distinct (map fst (fs_queue s'))"
    "set (fs_queue s') \<subseteq> set (fs_queue s) \<union> {(offset, \<lparr>fse_Data = take n d, fse_DoneCb = cb\<rparr>) | n cb. n \<le> length d}"
proof -
  obtain found h p rest' q' cbs' where
    run: "findEndGap offset stop g AtGap rest (fs_queue s) cbs = (found, h, p, rest', q', cbs')"
    using prod_cases6 by blast
  have asc': "ascending (pre @ g # rest)" and last': "bEnd (last (g # rest)) = MaxByteCount" using asc last gs by auto
  note ins = insert_correct [OF asc' last' pc bnds stop run]
  have st: "unat stop = unat offset + length d" using pc stop piece_stop by simp
  have adj: "ascending (adjustGaps offset (cutStop stop h) pre g h p rest')"
    "missing (adjustGaps offset (cutStop stop h) pre g h p rest') = missing (gaps s) - extent offset d"
    "adjustGaps offset (cutStop stop h) pre g h p rest' \<noteq> []"
    "bEnd (last (adjustGaps offset (cutStop stop h) pre g h p rest')) = MaxByteCount"
  proof -
    have "offset < stop" "stop < bEnd (last (g # rest))"
      using st bnds(3) pc unfolding last' by (simp_all add: word_less_nat_alt piece_def)
    from adjustGaps_correct [OF asc' bnds(1,2) this run]
    show "ascending (adjustGaps offset (cutStop stop h) pre g h p rest')"
      "missing (adjustGaps offset (cutStop stop h) pre g h p rest') = missing (gaps s) - extent offset d"
      "adjustGaps offset (cutStop stop h) pre g h p rest' \<noteq> []"
      "bEnd (last (adjustGaps offset (cutStop stop h) pre g h p rest')) = MaxByteCount"
      unfolding gs extent_def st last' by auto
  qed
  define len :: ByteCount where "len = word_of_nat (length d) - (if stop > bEnd h then stop - bEnd h else 0)"
  define d' where "d' = (if stop > bEnd h then take (unat len) d else d)"
  define s1 where "s1 = s\<lparr>fs_queue := q', gaps := adjustGaps offset (cutStop stop h) pre g h p rest'\<rparr>"
  define copied where "copied = ((wasCut \<or> stop > bEnd h) \<and> length d' < unat MinStreamFrameBufferSize)"
  define new where "new = \<lparr>fse_Data = d', fse_DoneCb = (if copied then None else doneCb)\<rparr>"
  have len: "unat len \<le> length d" using ins(4) by (simp add: len_def)
  have eq: "pushAt s d offset stop doneCb wasCut pre g rest cbs =
    (if length (gaps s1) > MaxStreamFrameSorterGaps then (Some errTooManyGaps, s1, cbs')
     else (None, s1\<lparr>fs_queue := AList.update offset new q'\<rparr>, cbs' @ (if copied then call doneCb else [])))"
    unfolding pushAt_def run Let_def prod.case ins(5) len_def [symmetric] d'_def [symmetric] copied_def [symmetric]
      new_def [symmetric]
    using len ins(1) by (simp add: s1_def errTooManyGaps_def)
  have "\<exists>n. n \<le> length d \<and> d' = take n d" using len by (cases "stop > bEnd h") (auto simp: d'_def)
  then have "(offset, new) \<in> {(offset, \<lparr>fse_Data = take n d, fse_DoneCb = cb\<rparr>) | n cb. n \<le> length d}"
    unfolding new_def by blast
  then have upd: "set (AList.update offset new q') \<subseteq>
      set (fs_queue s) \<union> {(offset, \<lparr>fse_Data = take n d, fse_DoneCb = cb\<rparr>) | n cb. n \<le> length d}"
    using set_update_subset [of offset new q'] ins(2) by blast
  show thesis
  proof (cases "length (gaps s1) > MaxStreamFrameSorterGaps")
    case True
    show ?thesis by (rule that [of "Some errTooManyGaps" s1 cbs']) (use True eq adj ins(2,3) q in \<open>auto simp: s1_def\<close>)
  next
    case False
    show ?thesis
      by (rule that [of None "s1\<lparr>fs_queue := AList.update offset new q'\<rparr>" "cbs' @ (if copied then call doneCb else [])"])
        (use False eq adj ins(3) q upd in \<open>auto simp: s1_def distinct_update\<close>)
  qed
qed

definition queue_ok :: "(nat \<Rightarrow> byte) \<Rightarrow> nat set \<Rightarrow> (ByteCount \<times> frameSorterEntry) list \<Rightarrow> bool" where
  "queue_ok c miss q \<longleftrightarrow> distinct (map fst q) \<and>
    (\<forall>k e. (k, e) \<in> set q \<longrightarrow> piece c k (fse_Data e) \<and> extent k (fse_Data e) \<inter> miss = {})"

lemma sorter_inv_alt:
  "sorter_inv c s \<longleftrightarrow> queue_ok c (missing (gaps s)) (fs_queue s) \<and> ascending (gaps s) \<and> gaps s \<noteq> [] \<and>
    bEnd (last (gaps s)) = MaxByteCount"
  by (auto simp: sorter_inv_def queue_ok_def)

lemma queue_ok_insert:
  assumes "queue_ok c miss q" and "distinct (map fst q')"
    and "\<And>k e. (k, e) \<in> set q' \<Longrightarrow> (k, e) \<in> set q \<or> piece c k (fse_Data e) \<and> extent k (fse_Data e) \<subseteq> ext"
    and "miss' = miss - ext"
  shows "queue_ok c miss' q'"
  using assms unfolding queue_ok_def by blast

lemma sorter_push_correct:
  assumes inv: "sorter_inv c s" and pc: "piece c offset d"
  obtains err s' cbs where "sorter_push s d offset doneCb = (err, s', cbs)" "sorter_inv c s'"
    "err = None \<or> err = Some errDuplicateStreamData \<or> err = Some errTooManyGaps" "readPos s' = readPos s"
    "missing (gaps s') = missing (gaps s) - extent offset d"
proof -
  let ?old = "map_of (fs_queue s) offset"
  let ?new = "\<lparr>fse_Data = d, fse_DoneCb = doneCb\<rparr>"
  define s1 where "s1 = (case ?old of Some e \<Rightarrow> s\<lparr>fs_queue := AList.update offset ?new (fs_queue s)\<rparr> | None \<Rightarrow> s)"
  define cbs where "cbs = (case ?old of Some e \<Rightarrow> call (fse_DoneCb e) | None \<Rightarrow> [])"
  define stop where "stop = offset + word_of_nat (length d)"
  have st: "unat stop = unat offset + length d" unfolding stop_def by (rule piece_stop [OF pc])
  have qok: "queue_ok c (missing (gaps s)) (fs_queue s)" and asc: "ascending (gaps s)" and ne: "gaps s \<noteq> []"
    and last: "bEnd (last (gaps s)) = MaxByteCount" using inv by (auto simp: sorter_inv_alt)
  have s1: "gaps s1 = gaps s" "readPos s1 = readPos s" "distinct (map fst (fs_queue s1))"
    "set (fs_queue s1) \<subseteq> insert (offset, ?new) (set (fs_queue s))"
    using qok set_update_subset [of offset ?new "fs_queue s"]
    by (auto simp: s1_def queue_ok_def distinct_update split: option.splits)
  show thesis
  proof (cases "d = [] \<or> (\<exists>e. ?old = Some e \<and> length d \<le> length (fse_Data e))")
    case True
    then have run: "sorter_push s d offset doneCb = (Some errDuplicateStreamData, s, [])" by (auto simp: sorter_push_def)
    have "extent offset d \<inter> missing (gaps s) = {}"
      using True
    proof
      assume "\<exists>e. ?old = Some e \<and> length d \<le> length (fse_Data e)"
      then obtain e where "(offset, e) \<in> set (fs_queue s)" "length d \<le> length (fse_Data e)" by (auto dest: map_of_SomeD)
      then show ?thesis using qok by (fastforce simp: queue_ok_def extent_def)
    qed (simp add: extent_def)
    then show thesis using that [OF run inv] by auto
  next
    case False
    then have d: "d \<noteq> []" by simp
    have run: "sorter_push s d offset doneCb =
      (case skipGaps offset stop [] (gaps s) of
         SkipDuplicate \<Rightarrow> (Some errDuplicateStreamData, s1, cbs)
       | SkipNone \<Rightarrow> (Some (Errorf (''StreamFrameSorter BUG: no gap found'', [])), s1, cbs)
       | SkipTo pre gap rest \<Rightarrow>
           if offset < bStart gap then
             if unat (bStart gap - offset) > length d
             then (Some (Panic (''slice bounds out of range [%d:%d]'', [int (unat (bStart gap - offset)), int (length d)])), s1, cbs)
             else pushAt s1 (drop (unat (bStart gap - offset)) d) (offset + (bStart gap - offset)) stop doneCb True pre gap rest cbs
           else pushAt s1 d offset stop doneCb False pre gap rest cbs)"
      using False unfolding sorter_push_def Let_def s1_def cbs_def stop_def
      by (cases ?old) (simp_all cong: skipped.case_cong)
    have "offset \<le> bEnd (last (gaps s))" "offset < stop"
      using pc st d by (simp_all add: last word_le_nat_alt word_less_nat_alt piece_def)
    from asc ne this show thesis
    proof (cases rule: skipGaps_cases [where pre = "[]"])
      case dup
      have m: "missing (gaps s) = missing (gaps s) - extent offset d" using dup(2) by (auto simp: extent_def st)
      have "queue_ok c (missing (gaps s)) (fs_queue s1)"
        by (rule queue_ok_insert [OF qok s1(3), where ext = "extent offset d"]) (use s1(4) pc m in auto)
      then have "sorter_inv c s1" using asc ne last s1(1) by (simp add: sorter_inv_alt)
      then show thesis using that [of "Some errDuplicateStreamData" s1 cbs] run dup(1) s1 m by simp
    next
      case (gap pre g rest)
      define add where "add = (if offset < bStart g then unat (bStart g - offset) else 0)"
      define offset' where "offset' = (if offset < bStart g then bStart g else offset)"
      have add: "unat offset' = unat offset + add" "add < length d"
        using gap(4) st d by (auto simp: add_def offset'_def word_less_nat_alt unat_minus_le)
      have run': "sorter_push s d offset doneCb =
          pushAt s1 (drop add d) offset' stop doneCb (offset < bStart g) pre g rest cbs"
        using run gap(1) add(2) by (cases "offset < bStart g") (simp_all add: add_def offset'_def)
      have pc': "piece c offset' (drop add d)"
        using piece_sub(1) [OF pc, of add "length d - add" offset'] add by simp
      have asc1: "ascending (gaps s1)" and last1: "bEnd (last (gaps s1)) = MaxByteCount" and gs1: "gaps s1 = pre @ g # rest"
        using asc last gap(2) s1(1) by auto
      have bnds: "bStart g \<le> offset'" "offset' \<le> bEnd g" "drop add d \<noteq> []"
        using gap(5) asc add(2) by (auto simp: offset'_def gap(2) intro: order_less_imp_le)
      have stop': "stop = offset' + word_of_nat (length (drop add d))"
        by (rule word_unat_eq_iff [THEN iffD2]) (use piece_stop [OF pc'] st add in simp)
      have m: "missing (gaps s) - extent offset' (drop add d) = missing (gaps s) - extent offset d"
      proof -
        have "missing pre \<subseteq> {..< unat offset}" using gap(3) by (intro missing_below) (auto intro: order_less_imp_le)
        moreover have "missing (g # rest) \<subseteq> {unat (bStart g) ..}"
          using asc gap(2) by (intro missing_above) (auto intro: order_less_imp_le order_less_trans)
        ultimately have "missing (gaps s) \<inter> {unat offset ..< unat offset'} = {}"
          by (auto simp: gap(2) offset'_def)
        then show ?thesis using add by (auto simp: extent_def)
      qed
      obtain err s' cbs' where res: "pushAt s1 (drop add d) offset' stop doneCb (offset < bStart g) pre g rest cbs = (err, s', cbs')"
        "err = None \<or> err = Some errTooManyGaps" "readPos s' = readPos s1"
        "ascending (gaps s')" "gaps s' \<noteq> []" "bEnd (last (gaps s')) = MaxByteCount"
        "missing (gaps s') = missing (gaps s1) - extent offset' (drop add d)"
        "distinct (map fst (fs_queue s'))"
        "set (fs_queue s') \<subseteq> set (fs_queue s1) \<union> {(offset', \<lparr>fse_Data = take n (drop add d), fse_DoneCb = cb\<rparr>) | n cb. n \<le> length (drop add d)}"
        by (rule pushAt_correct [OF gs1 asc1 last1 pc' bnds stop' s1(3)])
      have m': "missing (gaps s') = missing (gaps s) - extent offset d" using res(7) m s1(1) by simp
      have "queue_ok c (missing (gaps s')) (fs_queue s')"
      proof (rule queue_ok_insert [OF qok res(8) _ m'])
        fix k e assume "(k, e) \<in> set (fs_queue s')"
        then consider "(k, e) \<in> set (fs_queue s)" | "(k, e) = (offset, ?new)"
          | n cb where "(k, e) = (offset', \<lparr>fse_Data = take n (drop add d), fse_DoneCb = cb\<rparr>)" "n \<le> length (drop add d)"
          using res(9) s1(4) by blast
        then show "(k, e) \<in> set (fs_queue s) \<or> piece c k (fse_Data e) \<and> extent k (fse_Data e) \<subseteq> extent offset d"
          by cases (use pc piece_sub [OF pc, of add _ offset'] add in auto)
      qed
      then have "sorter_inv c s'" using res by (simp add: sorter_inv_alt)
      then show thesis using that [of err s' cbs'] run' res s1(2) m' by auto
    qed
  qed
qed

lemma sorter_Push_correct:
  assumes "sorter_inv c s" and "piece c offset d"
  obtains err s' cbs where "sorter_Push s d offset doneCb = (err, s', cbs)" "sorter_inv c s'"
    "err = None \<or> err = Some errTooManyGaps" "readPos s' = readPos s"
    "missing (gaps s') = missing (gaps s) - extent offset d"
proof (rule sorter_push_correct [OF assms, of doneCb])
  fix err s' cbs assume r: "sorter_push s d offset doneCb = (err, s', cbs)" "sorter_inv c s'"
    "err = None \<or> err = Some errDuplicateStreamData \<or> err = Some errTooManyGaps" "readPos s' = readPos s"
    "missing (gaps s') = missing (gaps s) - extent offset d"
  show thesis
  proof (cases "err = Some errDuplicateStreamData")
    case True
    show ?thesis by (rule that [of None s' "cbs @ call doneCb"]) (use r True in \<open>simp_all add: sorter_Push_def\<close>)
  next
    case False
    show ?thesis by (rule that [of err s' cbs]) (use r False in \<open>auto simp: sorter_Push_def\<close>)
  qed
qed

lemma queue_ok_delete: "queue_ok c miss q \<Longrightarrow> queue_ok c miss (AList.delete k q)"
  unfolding queue_ok_def using distinct_delete [of q k] by (auto simp: AList.delete_eq)

lemma sorter_Pop_correct:
  assumes inv: "sorter_inv c s" and pop: "sorter_Pop s = ((offset, d, cb), s')"
  shows "offset = readPos s" "sorter_inv c s'" "gaps s' = gaps s"
    "unat (readPos s') = unat (readPos s) + length (case d of Some d \<Rightarrow> d | None \<Rightarrow> [])"
    "(case d of Some d \<Rightarrow> d | None \<Rightarrow> []) = map c [unat (readPos s) ..< unat (readPos s')]"
    "extent (readPos s) (case d of Some d \<Rightarrow> d | None \<Rightarrow> []) \<inter> missing (gaps s) = {}"
proof -
  have pieces: "piece c (readPos s) (fse_Data e) \<and> extent (readPos s) (fse_Data e) \<inter> missing (gaps s) = {}"
    if "map_of (fs_queue s) (readPos s) = Some e" for e
    using inv map_of_SomeD [OF that] by (auto simp: sorter_inv_def)
  show "offset = readPos s" "gaps s' = gaps s" using pop by (auto simp: sorter_Pop_def split: option.splits)
  show "sorter_inv c s'"
    using inv pop by (auto simp: sorter_Pop_def sorter_inv_alt queue_ok_delete split: option.splits)
  show len: "unat (readPos s') = unat (readPos s) + length (case d of Some d \<Rightarrow> d | None \<Rightarrow> [])"
    using pop pieces piece_stop by (auto simp: sorter_Pop_def split: option.splits)
  show "(case d of Some d \<Rightarrow> d | None \<Rightarrow> []) = map c [unat (readPos s) ..< unat (readPos s')]"
    unfolding len using pop pieces by (auto simp: sorter_Pop_def piece_def split: option.splits)
  show "extent (readPos s) (case d of Some d \<Rightarrow> d | None \<Rightarrow> []) \<inter> missing (gaps s) = {}"
    using pop pieces by (auto simp: sorter_Pop_def extent_def split: option.splits)
qed

lemma newFrameSorter_inv: "sorter_inv c newFrameSorter" "readPos newFrameSorter = 0"
    "missing (gaps newFrameSorter) = {..< unat MaxByteCount}"
  by (auto simp: sorter_inv_def newFrameSorter_def MaxByteCount_def bytes_of_def)

section \<open>Runs\<close>

text \<open>A history of the sorter: frames pushed, in any order, between calls of \<open>Pop\<close>. The run stops at
  the first error. Its result are the data popped, and the sorter.\<close>

datatype sorter_op = OpPush "byte list" ByteCount "nat option" | OpPop

fun sorter_run :: "frameSorter \<Rightarrow> sorter_op list \<Rightarrow> go_error + byte list \<times> frameSorter" where
  "sorter_run s [] = Inr ([], s)"
| "sorter_run s (OpPush d offset cb # ops) =
    (case sorter_Push s d offset cb of (None, s, _) \<Rightarrow> sorter_run s ops | (Some err, _, _) \<Rightarrow> Inl err)"
| "sorter_run s (OpPop # ops) =
    (case sorter_Pop s of ((_, d, _), s) \<Rightarrow>
       tryE (sorter_run s ops) (\<lambda>(rest, s). Inr ((case d of Some d \<Rightarrow> d | None \<Rightarrow> []) @ rest, s)))"

definition pushed :: "sorter_op list \<Rightarrow> nat set" where
  "pushed ops = (\<Union>op \<in> set ops. case op of OpPush d offset cb \<Rightarrow> extent offset d | OpPop \<Rightarrow> {})"

fun op_piece :: "(nat \<Rightarrow> byte) \<Rightarrow> sorter_op \<Rightarrow> bool" where
  "op_piece c (OpPush d offset cb) = piece c offset d"
| "op_piece c OpPop = True"

lemma sorter_run_correct:
  assumes "sorter_inv c s" and "\<forall>op \<in> set ops. op_piece c op"
  shows "case sorter_run s ops of
    Inl err \<Rightarrow> err = errTooManyGaps
  | Inr (out, s') \<Rightarrow> sorter_inv c s' \<and> out = map c [unat (readPos s) ..< unat (readPos s')] \<and>
      unat (readPos s) \<le> unat (readPos s') \<and>
      missing (gaps s') = missing (gaps s) - pushed ops \<and>
      {unat (readPos s) ..< unat (readPos s')} \<inter> missing (gaps s') = {}"
  using assms
proof (induction ops arbitrary: s)
  case Nil
  then show ?case by (simp add: pushed_def)
next
  case (Cons op ops)
  show ?case
  proof (cases op)
    case (OpPush d offset cb)
    have "piece c offset d" using Cons.prems(2) OpPush by simp
    from Cons.prems(1) this obtain err s1 cbs where p: "sorter_Push s d offset cb = (err, s1, cbs)" "sorter_inv c s1"
      "err = None \<or> err = Some errTooManyGaps" "readPos s1 = readPos s" "missing (gaps s1) = missing (gaps s) - extent offset d"
      by (rule sorter_Push_correct [where doneCb = cb])
    show ?thesis
    proof (cases err)
      case None
      have "missing (gaps s1) - pushed ops = missing (gaps s) - pushed (op # ops)"
        by (auto simp: p(5) pushed_def OpPush)
      then show ?thesis using Cons.IH [OF p(2)] Cons.prems(2) None p(1,4) OpPush
        by (auto split: sum.splits prod.splits)
    next
      case (Some e)
      then show ?thesis using p OpPush by simp
    qed
  next
    case OpPop
    obtain offset d cb s1 where p: "sorter_Pop s = ((offset, d, cb), s1)" by (metis prod.collapse)
    note pop = sorter_Pop_correct [OF Cons.prems(1) p]
    have IH: "case sorter_run s1 ops of
        Inl err \<Rightarrow> err = errTooManyGaps
      | Inr (out, s') \<Rightarrow> sorter_inv c s' \<and> out = map c [unat (readPos s1) ..< unat (readPos s')] \<and>
          unat (readPos s1) \<le> unat (readPos s') \<and>
          missing (gaps s') = missing (gaps s1) - pushed ops \<and>
          {unat (readPos s1) ..< unat (readPos s')} \<inter> missing (gaps s') = {}"
      using Cons.IH [OF pop(2)] Cons.prems(2) by simp
    show ?thesis
    proof (cases "sorter_run s1 ops")
      case (Inl e)
      then show ?thesis using IH OpPop p by simp
    next
      case (Inr r)
      obtain out s' where r: "r = (out, s')" by (cases r)
      have IH': "sorter_inv c s'" "out = map c [unat (readPos s1) ..< unat (readPos s')]" "unat (readPos s1) \<le> unat (readPos s')"
        "missing (gaps s') = missing (gaps s) - pushed ops" "{unat (readPos s1) ..< unat (readPos s')} \<inter> missing (gaps s') = {}"
        using IH unfolding Inr r sum.case prod.case pop(3) by blast+
      have le: "unat (readPos s) \<le> unat (readPos s1)" using pop(4) by simp
      have run: "sorter_run s (op # ops) = Inr ((case d of Some d \<Rightarrow> d | None \<Rightarrow> []) @ out, s')" using OpPop p Inr r by simp
      have "(case d of Some d \<Rightarrow> d | None \<Rightarrow> []) @ out = map c ([unat (readPos s) ..< unat (readPos s1)] @ [unat (readPos s1) ..< unat (readPos s')])"
        by (simp only: pop(5) IH'(2) map_append)
      also have "\<dots> = map c [unat (readPos s) ..< unat (readPos s')]"
        using upt_add_eq_append [OF le, of "unat (readPos s') - unat (readPos s1)"] IH'(3) by simp
      finally have out: "(case d of Some d \<Rightarrow> d | None \<Rightarrow> []) @ out = map c [unat (readPos s) ..< unat (readPos s')]" .
      have "{unat (readPos s) ..< unat (readPos s1)} \<inter> missing (gaps s) = {}"
        using pop(6) by (simp only: extent_def pop(4))
      then have "{unat (readPos s) ..< unat (readPos s')} \<inter> missing (gaps s') = {}"
        using IH'(4,5) ivl_disj_un_two(3) [OF le IH'(3)] by blast
      moreover have "pushed (op # ops) = pushed ops" by (simp add: pushed_def OpPop)
      ultimately show ?thesis unfolding run sum.case prod.case out using IH'(1,3,4) le by simp
    qed
  qed
qed

text \<open>C27. Whatever pieces of a stream arrive, in whatever order and however they overlap, the data taken
  from the sorter is the prefix of the stream up to the read position. No push panics or runs into one
  of the checks for a bug: the only error is that there are too many gaps. The gaps are exactly the
  bytes that have not arrived, and nothing before the read position is missing.\<close>

theorem sorter_delivers_prefix:
  assumes "\<forall>op \<in> set ops. op_piece c op"
  shows "case sorter_run newFrameSorter ops of
    Inl err \<Rightarrow> err = errTooManyGaps
  | Inr (out, s) \<Rightarrow> out = map c [0 ..< unat (readPos s)] \<and>
      missing (gaps s) = {..< unat MaxByteCount} - pushed ops \<and> {..< unat (readPos s)} \<inter> missing (gaps s) = {}"
  using sorter_run_correct [OF newFrameSorter_inv(1) assms]
  by (auto simp: newFrameSorter_inv lessThan_atLeast0 split: sum.splits prod.splits)

theorem sorter_delivers_prefix_witness:
  "case sorter_run newFrameSorter [OpPush [2, 3] 2 None, OpPop, OpPush [0, 1, 2] 0 (Some 1), OpPop, OpPop] of
    Inl err \<Rightarrow> False
  | Inr (out, s) \<Rightarrow> out = map word_of_nat [0 ..< unat (readPos s)] \<and> out = [0, 1, 2, 3]"
  using sorter_delivers_prefix [of "[OpPush [2, 3] 2 None, OpPop, OpPush [0, 1, 2] 0 (Some 1), OpPop, OpPop]" word_of_nat]
  by (simp add: piece_def MaxByteCount_def upt_rec newFrameSorter_def sorter_Push_def sorter_push_def sorter_Pop_def
      pushAt_def adjustGaps_def MaxStreamFrameSorterGaps_def MinStreamFrameBufferSize_def call_def Let_def)

section \<open>Frames that do not partially overlap\<close>

text \<open>A sender that retransmits its frames as they are sends frames any two of which are equal or
  disjoint. \<open>R\<close> are the frames that have arrived.\<close>

definition apart :: "(ByteCount \<times> byte list) set \<Rightarrow> bool" where
  "apart R \<longleftrightarrow> (\<forall>o1 d1. (o1, d1) \<in> R \<longrightarrow> d1 \<noteq> [] \<and>
     (\<forall>o2 d2. (o2, d2) \<in> R \<longrightarrow> (o1, d1) = (o2, d2) \<or> extent o1 d1 \<inter> extent o2 d2 = {}))"

definition arrived :: "(ByteCount \<times> byte list) set \<Rightarrow> nat set" where
  "arrived R = (\<Union>(offset, d) \<in> R. extent offset d)"

definition complete_inv :: "(nat \<Rightarrow> byte) \<Rightarrow> (ByteCount \<times> byte list) set \<Rightarrow> frameSorter \<Rightarrow> bool" where
  "complete_inv c R s \<longleftrightarrow> sorter_inv c s \<and> finite R \<and> length (gaps s) \<le> Suc (card R) \<and> missing (gaps s) = {..< unat MaxByteCount} - arrived R \<and>
    {..< unat (readPos s)} \<inter> missing (gaps s) = {} \<and>
    (\<forall>(offset, d) \<in> R. unat offset + length d \<le> unat (readPos s) \<or> (\<exists>cb. map_of (fs_queue s) offset = Some \<lparr>fse_Data = d, fse_DoneCb = cb\<rparr>)) \<and>
    (\<forall>k e. map_of (fs_queue s) k = Some e \<longrightarrow> (k, fse_Data e) \<in> R \<and> readPos s \<le> k)"

lemma apartD:
  assumes "apart R" "(o1, d1) \<in> R" "(o2, d2) \<in> R" "i \<in> extent o1 d1" "i \<in> extent o2 d2"
  shows "o1 = o2 \<and> d1 = d2"
  using assms unfolding apart_def by blast

lemma ascending_bEnd_not_missing:
  assumes "ascending (pre @ g # rest)"
  shows "unat (bEnd g) \<notin> missing (pre @ g # rest)"
proof -
  have "False" if m: "unat (bEnd g) \<in> missing hs" "set hs \<subseteq> set (pre @ g # rest)" "g \<notin> set hs" for hs
  proof -
    obtain h where h: "h \<in> set hs" "unat (bEnd g) \<in> bytes_of h" using m(1) by (auto simp: missing_def)
    then have "bStart h \<le> bEnd g" "bEnd g < bEnd h" by (auto simp: bytes_of_def word_le_nat_alt word_less_nat_alt)
    moreover have "bEnd h < bStart g \<or> bEnd g < bStart h" "bStart g < bEnd g" using assms m(2,3) h(1) by auto
    ultimately show False by auto
  qed
  moreover have "g \<notin> set pre" "g \<notin> set rest" using assms by auto
  ultimately show ?thesis by (fastforce simp: bytes_of_def)
qed

lemma sorter_push_dup:
  assumes inv: "complete_inv c R s" and ap: "apart R" and f: "(offset, d) \<in> R" and pc: "piece c offset d"
  shows "\<exists>cbs. sorter_push s d offset doneCb = (Some errDuplicateStreamData, s, cbs)"
proof (cases "map_of (fs_queue s) offset")
  case (Some e)
  then have "fse_Data e = d \<or> unat offset + length d \<le> unat (readPos s) \<and> readPos s \<le> offset"
    using inv f unfolding complete_inv_def by fastforce
  moreover have "0 < length d" using ap f by (auto simp: apart_def)
  then have "\<not> (unat offset + length d \<le> unat (readPos s) \<and> readPos s \<le> offset)" unfolding word_le_nat_alt by linarith
  ultimately have "fse_Data e = d" by blast
  then show ?thesis using Some by (simp add: sorter_push_def)
next
  case None
  have si: "sorter_inv c s" and before: "{..< unat (readPos s)} \<inter> missing (gaps s) = {}" using inv by (auto simp: complete_inv_def)
  have "unat offset + length d \<le> unat (readPos s)" using inv f None unfolding complete_inv_def by fastforce
  moreover have ne: "d \<noteq> []" using ap f by (auto simp: apart_def)
  ultimately have stop: "unat (offset + word_of_nat (length d)) \<le> unat (readPos s)" using piece_stop [OF pc] by simp
  have bnds: "offset \<le> bEnd (last (gaps s))" "offset < offset + word_of_nat (length d)"
    using pc ne si piece_stop [OF pc] by (simp_all add: sorter_inv_def word_le_nat_alt word_less_nat_alt piece_def)
  have asc: "ascending (gaps s)" "gaps s \<noteq> []" using si by (auto simp: sorter_inv_def)
  from asc bnds have "skipGaps offset (offset + word_of_nat (length d)) [] (gaps s) = SkipDuplicate"
  proof (cases rule: skipGaps_cases [where pre = "[]"])
    case (gap pre g rest)
    have "unat (bStart g) \<in> missing (gaps s)" using asc gap(2) by (auto simp: bytes_of_def word_less_nat_alt)
    moreover have "unat (bStart g) \<in> {..< unat (readPos s)}" using gap(4) stop by (simp add: word_less_nat_alt)
    ultimately show ?thesis using before by blast
  qed
  then show ?thesis using None ne by (simp add: sorter_push_def)
qed

lemma sorter_push_new:
  assumes inv: "complete_inv c R s" and ap: "apart (insert (offset, d) R)" and f: "(offset, d) \<notin> R" and pc: "piece c offset d"
  obtains gs where "sorter_push s d offset doneCb =
      (if length gs > MaxStreamFrameSorterGaps then (Some errTooManyGaps, s\<lparr>gaps := gs\<rparr>, [])
       else (None, s\<lparr>gaps := gs, fs_queue := AList.update offset \<lparr>fse_Data = d, fse_DoneCb = doneCb\<rparr> (fs_queue s)\<rparr>, []))"
    "map_of (fs_queue s) offset = None" "readPos s \<le> offset" "length gs \<le> Suc (length (gaps s))"
proof -
  define stop where "stop = offset + word_of_nat (length d)"
  have st: "unat stop = unat offset + length d" unfolding stop_def by (rule piece_stop [OF pc])
  have si: "sorter_inv c s" and miss: "missing (gaps s) = {..< unat MaxByteCount} - arrived R"
    and before: "{..< unat (readPos s)} \<inter> missing (gaps s) = {}"
    and qR: "\<And>k e. map_of (fs_queue s) k = Some e \<Longrightarrow> (k, fse_Data e) \<in> R"
    using inv by (auto simp: complete_inv_def)
  have asc: "ascending (gaps s)" "gaps s \<noteq> []" and last: "bEnd (last (gaps s)) = MaxByteCount" using si by (auto simp: sorter_inv_def)
  have ne: "d \<noteq> []" using ap by (auto simp: apart_def)
  have sub: "extent offset d \<subseteq> missing (gaps s)"
    using ap f pc unfolding miss arrived_def apart_def piece_def by (fastforce simp: extent_def)
  have hd: "unat offset \<in> extent offset d" using ne by (simp add: extent_def)
  have None: "map_of (fs_queue s) offset = None"
  proof (rule ccontr)
    assume "map_of (fs_queue s) offset \<noteq> None"
    then obtain e where "map_of (fs_queue s) offset = Some e" by auto
    then have "(offset, fse_Data e) \<in> R" by (rule qR)
    then show False using apartD [OF ap, of offset d offset "fse_Data e" "unat offset"] f hd ap
      by (auto simp: apart_def extent_def)
  qed
  have "offset \<le> bEnd (last (gaps s))" "offset < stop"
    using pc ne st by (simp_all add: last word_le_nat_alt word_less_nat_alt piece_def)
  from asc this obtain pre g rest where gap: "skipGaps offset stop [] (gaps s) = SkipTo pre g rest" "gaps s = pre @ g # rest"
    "\<forall>h \<in> set pre. bEnd h < offset" "bStart g < stop" "offset \<le> bEnd g"
    by (rule skipGaps_cases [where pre = "[]"])
      (use sub hd \<open>offset < stop\<close> in \<open>auto simp: word_less_nat_alt\<close>)
  have asc': "ascending (pre @ g # rest)" using asc gap(2) by simp
  have start: "bStart g \<le> offset" "unat stop \<le> unat (bEnd g)"
  proof -
    have m: "missing (pre @ g # rest) = missing (gaps s)" by (simp only: gap(2))
    have pre: "missing pre \<subseteq> {..< unat offset}" using gap(3) by (intro missing_below) (auto intro: order_less_imp_le)
    have "missing (g # rest) \<subseteq> {unat (bStart g) ..}"
      using asc' by (intro missing_above) (auto intro: order_less_imp_le order_less_trans)
    then show "bStart g \<le> offset" using pre sub hd m by (auto simp: word_le_nat_alt)
    have "unat (bEnd g) \<notin> extent offset d" using ascending_bEnd_not_missing [OF asc'] sub m by blast
    then show "unat stop \<le> unat (bEnd g)" using gap(5) st by (auto simp: extent_def word_le_nat_alt)
  qed
  have "findEndGap offset stop g AtGap rest (fs_queue s) [] = (True, g, AtGap, rest, fs_queue s, [])"
  proof (rule findEndGap_cases [where g = g and rest = rest and stop = stop and offset = offset and q = "fs_queue s" and cbs = "[]"])
    show "ascending (g # rest)" using asc' by simp
    show "stop < bEnd (last (g # rest))" using last gap(2) pc st by (simp add: word_less_nat_alt piece_def del: last.simps)
  qed (use asc' start in \<open>auto simp: word_le_nat_alt word_less_nat_alt\<close>)
  then have "pushAt s d offset stop doneCb False pre g rest [] =
      (let gs = adjustGaps offset stop pre g g AtGap rest in
       if length gs > MaxStreamFrameSorterGaps then (Some errTooManyGaps, s\<lparr>gaps := gs\<rparr>, [])
       else (None, s\<lparr>gaps := gs, fs_queue := AList.update offset \<lparr>fse_Data = d, fse_DoneCb = doneCb\<rparr> (fs_queue s)\<rparr>, []))"
    using start(2) pc by (simp add: pushAt_def Let_def errTooManyGaps_def word_less_nat_alt piece_def unat_MaxByteCount unat_of_nat)
  then have "sorter_push s d offset doneCb =
      (let gs = adjustGaps offset stop pre g g AtGap rest in
       if length gs > MaxStreamFrameSorterGaps then (Some errTooManyGaps, s\<lparr>gaps := gs\<rparr>, [])
       else (None, s\<lparr>gaps := gs, fs_queue := AList.update offset \<lparr>fse_Data = d, fse_DoneCb = doneCb\<rparr> (fs_queue s)\<rparr>, []))"
    using ne None gap(1) start(1) [THEN leD] by (simp add: sorter_push_def stop_def [symmetric])
  moreover have "unat offset \<notin> {..< unat (readPos s)}" using before sub hd by blast
  then have "readPos s \<le> offset" by (simp add: word_le_nat_alt)
  moreover have "length (adjustGaps offset stop pre g g AtGap rest) \<le> Suc (length (gaps s))"
    by (simp add: adjustGaps_def gap(2) Let_def)
  ultimately show thesis using that None unfolding Let_def by blast
qed

lemma complete_inv_Push:
  assumes inv: "complete_inv c R s" and ap: "apart (insert (offset, d) R)" and pc: "piece c offset d"
  obtains s' cbs where "sorter_Push s d offset doneCb = (None, s', cbs)" "complete_inv c (insert (offset, d) R) s'"
      "readPos s' = readPos s" "length (fs_queue s') \<le> Suc (length (fs_queue s))"
  | s' cbs where "sorter_Push s d offset doneCb = (Some errTooManyGaps, s', cbs)" "1000 \<le> card (insert (offset, d) R)"
proof (cases "(offset, d) \<in> R")
  case True
  then obtain cbs where "sorter_push s d offset doneCb = (Some errDuplicateStreamData, s, cbs)"
    using sorter_push_dup [OF inv _ _ pc] ap by (auto simp: insert_absorb)
  then show thesis using that(1) [of s "cbs @ call doneCb"] inv True by (simp add: sorter_Push_def insert_absorb)
next
  case False
  obtain gs where push: "sorter_push s d offset doneCb =
      (if length gs > MaxStreamFrameSorterGaps then (Some errTooManyGaps, s\<lparr>gaps := gs\<rparr>, [])
       else (None, s\<lparr>gaps := gs, fs_queue := AList.update offset \<lparr>fse_Data = d, fse_DoneCb = doneCb\<rparr> (fs_queue s)\<rparr>, []))"
    and None: "map_of (fs_queue s) offset = None" and rp: "readPos s \<le> offset" and len: "length gs \<le> Suc (length (gaps s))"
    by (rule sorter_push_new [OF inv ap False pc])
  have fin: "finite R" and card: "length gs \<le> Suc (card (insert (offset, d) R))"
    using inv len False by (auto simp: complete_inv_def)
  have ndup: "errTooManyGaps \<noteq> errDuplicateStreamData" by (simp add: errTooManyGaps_def errDuplicateStreamData_def)
  show thesis
  proof (cases "length gs > MaxStreamFrameSorterGaps")
    case True
    then show ?thesis using that(2) push ndup card by (simp add: sorter_Push_def MaxStreamFrameSorterGaps_def)
  next
    case few: False
    define s' where "s' = s\<lparr>gaps := gs, fs_queue := AList.update offset \<lparr>fse_Data = d, fse_DoneCb = doneCb\<rparr> (fs_queue s)\<rparr>"
    have run: "sorter_Push s d offset doneCb = (None, s', [])" using few push by (simp add: sorter_Push_def s'_def)
    have si: "sorter_inv c s" using inv by (simp add: complete_inv_def)
    have correct: "sorter_inv c s'" "missing (gaps s') = missing (gaps s) - extent offset d" "readPos s' = readPos s"
      using sorter_Push_correct [OF si pc, of doneCb] run by (metis prod.inject)+
    have "missing (gaps s') = {..< unat MaxByteCount} - arrived (insert (offset, d) R)"
      using inv by (auto simp: correct(2) complete_inv_def arrived_def)
    moreover have "{..< unat (readPos s')} \<inter> missing (gaps s') = {}"
      using inv by (auto simp: correct(2,3) complete_inv_def)
    moreover have "map_of (fs_queue s') = (map_of (fs_queue s))(offset \<mapsto> \<lparr>fse_Data = d, fse_DoneCb = doneCb\<rparr>)"
      by (simp add: s'_def update_conv')
    moreover have "length (gaps s') \<le> Suc (card (insert (offset, d) R))" using card by (simp add: s'_def)
    ultimately have "complete_inv c (insert (offset, d) R) s'"
      using inv correct(1,3) rp None fin unfolding complete_inv_def by (fastforce split: if_splits)
    moreover have "length (fs_queue s') \<le> Suc (length (fs_queue s))"
      by (simp add: s'_def length_update_le)
    ultimately show ?thesis using that(1) run correct(3) by blast
  qed
qed

lemma complete_inv_Pop:
  assumes inv: "complete_inv c R s" and ap: "apart R" and pop: "sorter_Pop s = ((offset, Some d, cb), s')"
  shows "complete_inv c R s'" "length (fs_queue s') < length (fs_queue s)"
proof -
  obtain e where e: "map_of (fs_queue s) (readPos s) = Some e" "d = fse_Data e"
    and s': "s' = s\<lparr>fs_queue := AList.delete (readPos s) (fs_queue s), readPos := readPos s + word_of_nat (length d)\<rparr>"
    using pop by (auto simp: sorter_Pop_def split: option.splits)
  have si: "sorter_inv c s" using inv by (simp add: complete_inv_def)
  note p = sorter_Pop_correct [OF si pop]
  have rp: "unat (readPos s') = unat (readPos s) + length d" using p(4) by simp
  have inR: "(readPos s, d) \<in> R" using inv e by (auto simp: complete_inv_def)
  have q': "map_of (fs_queue s') = (map_of (fs_queue s))(readPos s := None)"
    by (simp add: s' delete_conv')
  have "{..< unat (readPos s')} = {..< unat (readPos s)} \<union> extent (readPos s) d" unfolding rp extent_def by auto
  then have before: "{..< unat (readPos s')} \<inter> missing (gaps s') = {}"
    using inv p(6) unfolding complete_inv_def p(3) by auto
  have kept: "unat o1 + length d1 \<le> unat (readPos s') \<or> (\<exists>cb. map_of (fs_queue s') o1 = Some \<lparr>fse_Data = d1, fse_DoneCb = cb\<rparr>)"
    if "(o1, d1) \<in> R" for o1 d1
  proof -
    consider "unat o1 + length d1 \<le> unat (readPos s)" | cb where "map_of (fs_queue s) o1 = Some \<lparr>fse_Data = d1, fse_DoneCb = cb\<rparr>"
      using inv \<open>(o1, d1) \<in> R\<close> unfolding complete_inv_def by fastforce
    then show ?thesis by cases (use rp e in \<open>auto simp: q'\<close>)
  qed
  have above: "(k, fse_Data e') \<in> R \<and> readPos s' \<le> k" if k: "map_of (fs_queue s') k = Some e'" for k e'
  proof -
    have k': "k \<noteq> readPos s" "map_of (fs_queue s) k = Some e'" using k by (auto simp: q' split: if_splits)
    then have kR: "(k, fse_Data e') \<in> R" "readPos s \<le> k" using inv by (auto simp: complete_inv_def)
    have "fse_Data e' \<noteq> []" using ap kR(1) by (auto simp: apart_def)
    then have "unat k \<in> extent k (fse_Data e')" by (simp add: extent_def)
    then have "unat k \<notin> extent (readPos s) d" using apartD [OF ap kR(1) inR] k'(1) by blast
    then show ?thesis using kR by (auto simp: rp extent_def word_le_nat_alt)
  qed
  show "complete_inv c R s'"
    using inv p(2) before kept above unfolding complete_inv_def p(3) by blast
  show "length (fs_queue s') < length (fs_queue s)"
    unfolding s' using length_delete_less [OF e(1)] by simp
qed

lemma run_stuck: "map_of (fs_queue s) (readPos s) = None \<Longrightarrow> sorter_run s (replicate n OpPop) = Inr ([], s)"
  by (induction n) (simp_all add: sorter_Pop_def)

lemma drain:
  assumes "complete_inv c R s" and "apart R" and "length (fs_queue s) \<le> n"
  shows "\<exists>out s'. sorter_run s (replicate n OpPop) = Inr (out, s') \<and> complete_inv c R s' \<and>
    map_of (fs_queue s') (readPos s') = None"
  using assms
proof (induction n arbitrary: s)
  case 0
  then show ?case by simp
next
  case (Suc n)
  show ?case
  proof (cases "map_of (fs_queue s) (readPos s)")
    case None
    then show ?thesis using run_stuck [OF None] Suc.prems(1) by blast
  next
    case (Some e)
    then obtain offset d cb s1 where p: "sorter_Pop s = ((offset, Some d, cb), s1)" by (simp add: sorter_Pop_def)
    note inv1 = complete_inv_Pop [OF Suc.prems(1,2) p]
    have "length (fs_queue s1) \<le> n" using inv1(2) Suc.prems(3) by simp
    then obtain out s' where "sorter_run s1 (replicate n OpPop) = Inr (out, s')" "complete_inv c R s'"
      "map_of (fs_queue s') (readPos s') = None"
      using Suc.IH [OF inv1(1) Suc.prems(2)] by blast
    then show ?thesis using p by simp
  qed
qed

text \<open>The frames of a run.\<close>

fun frames_of :: "sorter_op list \<Rightarrow> (ByteCount \<times> byte list) list" where
  "frames_of [] = []"
| "frames_of (OpPush d offset cb # ops) = (offset, d) # frames_of ops"
| "frames_of (OpPop # ops) = frames_of ops"

lemma sorter_run_append:
  "sorter_run s ops = Inr (out, s1) \<Longrightarrow> sorter_run s1 ops' = Inr (out', s2) \<Longrightarrow>
   sorter_run s (ops @ ops') = Inr (out @ out', s2)"
  by (induction s ops arbitrary: out rule: sorter_run.induct) (auto simp: tryE_eq_Inr split: prod.splits option.splits)

lemma complete_run:
  assumes "complete_inv c R s" and "apart (R \<union> set (frames_of ops))" and "\<forall>op \<in> set ops. op_piece c op"
    and "card (R \<union> set (frames_of ops)) < 1000"
  shows "\<exists>out s'. sorter_run s ops = Inr (out, s') \<and> complete_inv c (R \<union> set (frames_of ops)) s' \<and>
    length (fs_queue s') \<le> length (fs_queue s) + length ops"
  using assms
proof (induction ops arbitrary: s R)
  case Nil
  then show ?case by simp
next
  case (Cons op ops)
  have fin: "finite R" using Cons.prems(1) by (simp add: complete_inv_def)
  show ?case
  proof (cases op)
    case (OpPush d offset cb)
    have ap: "apart (insert (offset, d) R)" and ap': "apart (insert (offset, d) R \<union> set (frames_of ops))"
      using Cons.prems(2) OpPush unfolding apart_def by auto
    have pc: "piece c offset d" using Cons.prems(3) OpPush by simp
    have card': "card (insert (offset, d) R \<union> set (frames_of ops)) < 1000" using Cons.prems(4) OpPush by simp
    show ?thesis
    proof (rule complete_inv_Push [OF Cons.prems(1) ap pc, of cb])
      fix s1 cbs assume p: "sorter_Push s d offset cb = (None, s1, cbs)" "complete_inv c (insert (offset, d) R) s1"
        "length (fs_queue s1) \<le> Suc (length (fs_queue s))"
      then show ?thesis using Cons.IH [OF p(2) ap' _ card'] Cons.prems(3) OpPush by fastforce
    next
      fix s1 cbs assume "1000 \<le> card (insert (offset, d) R)"
      moreover have "card (insert (offset, d) R) \<le> card (insert (offset, d) R \<union> set (frames_of ops))"
        using fin by (intro card_mono) auto
      ultimately show ?thesis using card' by simp
    qed
  next
    case OpPop
    obtain offset d cb s1 where p: "sorter_Pop s = ((offset, d, cb), s1)" by (metis prod.collapse)
    have R: "apart R" using Cons.prems(2) unfolding apart_def by blast
    have "complete_inv c R s1 \<and> length (fs_queue s1) \<le> length (fs_queue s)"
    proof (cases d)
      case None
      then show ?thesis using p Cons.prems(1) by (auto simp: sorter_Pop_def split: option.splits)
    next
      case (Some d')
      then show ?thesis using complete_inv_Pop [OF Cons.prems(1) R] p by (simp add: less_imp_le)
    qed
    moreover from this obtain out s' where "sorter_run s1 ops = Inr (out, s')"
      "complete_inv c (R \<union> set (frames_of ops)) s'" "length (fs_queue s') \<le> length (fs_queue s1) + length ops"
      using Cons.IH [of R s1] Cons.prems(2-4) OpPop by auto
    ultimately show ?thesis using p OpPop by simp
  qed
qed

lemma newFrameSorter_complete: "complete_inv c {} newFrameSorter"
  by (simp add: complete_inv_def newFrameSorter_inv arrived_def) (simp add: newFrameSorter_def)

lemma arrived_pushed: "arrived (set (frames_of ops)) = pushed ops"
  by (induction ops rule: frames_of.induct) (auto simp: arrived_def pushed_def)

text \<open>A sorter that has nothing more to deliver has delivered everything up to the first byte that is
  missing.\<close>

lemma stuck_at_first_missing:
  assumes inv: "complete_inv c R s" and stuck: "map_of (fs_queue s) (readPos s) = None"
    and pieces: "\<And>offset d. (offset, d) \<in> R \<Longrightarrow> piece c offset d"
    and k: "{..< k} \<subseteq> arrived R" "k \<notin> arrived R"
  shows "unat (readPos s) = k"
proof -
  have before: "{..< unat (readPos s)} \<inter> missing (gaps s) = {}" and miss: "missing (gaps s) = {..< unat MaxByteCount} - arrived R"
    using inv by (auto simp: complete_inv_def)
  have lim: "Suc i < unat MaxByteCount" if i: "i \<in> arrived R" for i
    using i pieces by (fastforce simp: arrived_def piece_def extent_def)
  have "\<not> unat (readPos s) < k"
  proof
    assume lt: "unat (readPos s) < k"
    then obtain offset d where f: "(offset, d) \<in> R" "unat (readPos s) \<in> extent offset d"
      using k(1) by (auto simp: arrived_def)
    then have "offset = readPos s \<or> offset < readPos s \<and> unat (readPos s) < unat offset + length d"
      by (auto simp: extent_def word_less_nat_alt word_unat_eq_iff)
    then have "\<exists>cb. map_of (fs_queue s) offset = Some \<lparr>fse_Data = d, fse_DoneCb = cb\<rparr>" "offset < readPos s"
      using inv stuck f unfolding complete_inv_def by (fastforce simp: extent_def)+
    then show False using inv unfolding complete_inv_def by fastforce
  qed
  moreover have "\<not> k < unat (readPos s)"
  proof
    assume "k < unat (readPos s)"
    then have "k \<notin> missing (gaps s)" using before by blast
    then have "unat MaxByteCount \<le> k" using k(2) miss by auto
    moreover have "k = 0 \<or> k - 1 \<in> arrived R" using k(1) by (cases k) auto
    ultimately show False using lim [of "k - 1"] by (auto simp: unat_MaxByteCount)
  qed
  ultimately show ?thesis by simp
qed

lemma frames_of_pieces:
  "\<forall>op \<in> set ops. op_piece c op \<Longrightarrow> (offset, d) \<in> set (frames_of ops) \<Longrightarrow> piece c offset d"
  by (induction ops rule: frames_of.induct) auto




end
