(* ===== verification/ReceiveStream.thy ===== *)
theory ReceiveStream
  imports SendStream FrameSorter
begin

text \<open>
  The receiving half of a stream, \<open>receive_stream.go\<close>, and \<open>stream.go\<close>, which puts the two halves together. The flow
  controllers are passed in and out. A call of \<open>Read\<close> that has to wait returns \<open>RWait\<close> and goes on with \<open>Read_resume\<close>
  when the channel, a flag, or the deadline wakes it up; it only ever waits before it has read anything. A call is one
  step between two such points. The clock of a call of \<open>Read\<close> is a function, since the call looks at it in every round.

  The lemmas show that what the application reads is the stream, from its start and in order, that the flow
  controller is credited with exactly these bytes, and that the end of the stream is reported at its final offset.
\<close>

section \<open>The stream\<close>

record receiveStream =
  rs_streamID :: StreamID
  frameQueue :: frameSorter
  rs_readOffset :: ByteCount
  finalOffset :: ByteCount
  currentFrame :: "byte list option"
  currentFrameDone :: "nat option"
  currentFrameIsLast :: bool
  readPosInFrame :: nat
  rs_closeForShutdownErr :: "stream_error option"
  cancelReadErr :: "stream_error option"
  resetRemotelyErr :: "stream_error option"
  rs_closedForShutdown :: bool
  finRead :: bool
  canceledRead :: bool
  resetRemotely :: bool
  readChan :: bool
  rs_deadline :: Time

definition newReceiveStream :: "StreamID \<Rightarrow> receiveStream" where
  "newReceiveStream sid =
    \<lparr>rs_streamID = sid, frameQueue = newFrameSorter, rs_readOffset = 0, finalOffset = MaxByteCount, currentFrame = None,
     currentFrameDone = None, currentFrameIsLast = False, readPosInFrame = 0, rs_closeForShutdownErr = None, cancelReadErr = None,
     resetRemotelyErr = None, rs_closedForShutdown = False, finRead = False, canceledRead = False, resetRemotely = False,
     readChan = False, rs_deadline = 0\<rparr>"

definition signalRead :: "receiveStream \<Rightarrow> receiveStream" where
  "signalRead s = s\<lparr>readChan := True\<rparr>"

section \<open>Reading\<close>

datatype read_result = RReturn bool "byte list" "stream_error option" | RWait

definition frameLen :: "receiveStream \<Rightarrow> nat" where
  "frameLen s = (case currentFrame s of Some d \<Rightarrow> length d | None \<Rightarrow> 0)"

text \<open>The second result are the callbacks that are called.\<close>

definition dequeueNextFrame :: "receiveStream \<Rightarrow> receiveStream \<times> nat list" where
  "dequeueNextFrame s =
    (case sorter_Pop (frameQueue s) of ((offset, frame, cb), q) \<Rightarrow>
     let t = s\<lparr>frameQueue := q, currentFrame := frame, currentFrameDone := cb\<rparr>
     in (t\<lparr>currentFrameIsLast := offset + word_of_nat (frameLen t) \<ge> finalOffset t, readPosInFrame := 0\<rparr>,
         call (currentFrameDone s)))"

text \<open>One round of the inner loop of \<open>readImpl\<close>: an error, or data or the end, or a reason to wait.\<close>

datatype awaited = AErr "stream_error option" | AReady | AWait

definition awaitFrame :: "receiveStream \<Rightarrow> Time \<Rightarrow> awaited" where
  "awaitFrame s now =
    (if rs_closedForShutdown s then AErr (rs_closeForShutdownErr s)
     else if canceledRead s then AErr (cancelReadErr s)
     else if resetRemotely s then AErr (resetRemotelyErr s)
     else if expired (rs_deadline s) now then AErr (Some ErrDeadline)
     else if currentFrame s \<noteq> None \<or> currentFrameIsLast s then AReady
     else AWait)"

record reading =
  rd_stream :: receiveStream
  rd_fc :: streamFlowController
  rd_conn :: connectionFlowController
  rd_events :: "stream_event list"
  rd_called :: "nat list"

definition windowEvents :: "streamFlowController \<Rightarrow> bool \<times> bool \<Rightarrow> stream_event list" where
  "windowEvents c queued =
    (if fst queued then [OnHasWindowUpdate (streamID c)] else []) @ (if snd queued then [OnHasConnectionWindowUpdate] else [])"

text \<open>The rest of a round of the outer loop, from the inner loop on: the call is over or waits, or it goes on with
  more bytes. \<open>n\<close> is the size of the buffer and \<open>got\<close> what was copied into it so far.\<close>

definition readFrame :: "reading \<Rightarrow> nat \<Rightarrow> byte list \<Rightarrow> Time \<Rightarrow> Time \<Rightarrow> read_result option \<times> byte list \<times> reading" where
  "readFrame r n got now now' =
    (let s = rd_stream r in
     case awaitFrame s now of
       AErr err \<Rightarrow> (Some (RReturn False got err), got, r)
     | AWait \<Rightarrow> (Some RWait, got, r)
     | AReady \<Rightarrow>
         if length got > n then
           (Some (RReturn False got (Some (ErrGo (Errorf (''BUG: bytesRead (%d) > len(p) (%d) in stream.Read'', [int (length got), int n]))))), got, r)
         else if readPosInFrame s > frameLen s then
           (Some (RReturn False got (Some (ErrGo (Errorf (''BUG: readPosInFrame (%d) > frame.DataLen (%d) in stream.Read'',
              [int (readPosInFrame s), int (frameLen s)]))))), got, r)
         else
           let chunk = take (n - length got) (drop (readPosInFrame s) (case currentFrame s of Some d \<Rightarrow> d | None \<Rightarrow> []));
               m = length chunk;
               s = s\<lparr>readPosInFrame := readPosInFrame s + m, rs_readOffset := rs_readOffset s + word_of_nat m\<rparr>;
               got = got @ chunk;
               r = (if resetRemotely s then r
                    else case stream_AddBytesRead now' (rd_fc r) (rd_conn r) (word_of_nat m) of ((c, conn), queued) \<Rightarrow>
                      r\<lparr>rd_fc := c, rd_conn := conn, rd_events := rd_events r @ windowEvents c queued\<rparr>)
           in if readPosInFrame s \<ge> frameLen s \<and> currentFrameIsLast s
              then (Some (RReturn True got (Some (ErrGo io_EOF))), got, r\<lparr>rd_stream := s\<lparr>finRead := True\<rparr>\<rparr>)
              else (None, got, r\<lparr>rd_stream := s\<rparr>))"

definition nextFrame :: "reading \<Rightarrow> reading" where
  "nextFrame r =
    (let s = rd_stream r in
     if currentFrame s = None \<or> readPosInFrame s \<ge> frameLen s
     then case dequeueNextFrame s of (s, cbs) \<Rightarrow> r\<lparr>rd_stream := s, rd_called := rd_called r @ cbs\<rparr>
     else r)"

definition queued :: "reading \<Rightarrow> nat" where
  "queued r = length (fs_queue (frameQueue (rd_stream r)))"

lemma sorter_Pop_queue:
  "sorter_Pop q = ((offset, d, cb), q') \<Longrightarrow> (if d = None then q' = q else length (fs_queue q') < length (fs_queue q))"
  by (auto simp: sorter_Pop_def length_delete_less split: option.splits)

lemma nextFrame_queue:
  "currentFrame (rd_stream (nextFrame r)) = None \<or> readPosInFrame (rd_stream (nextFrame r)) < frameLen (rd_stream (nextFrame r)) \<and> queued (nextFrame r) \<le> queued r \<or>
    queued (nextFrame r) < queued r"
  by (auto simp: nextFrame_def dequeueNextFrame_def queued_def Let_def frameLen_def not_le split: prod.splits option.splits dest!: sorter_Pop_queue)

lemma readFrame_goes_on:
  assumes "readFrame r n got now now' = (None, got', r')"
  shows "queued r' = queued r \<and> (readPosInFrame (rd_stream r) < frameLen (rd_stream r) \<and> length got < n \<longrightarrow> length got < length got') \<and> length got \<le> length got' \<and>
    currentFrame (rd_stream r) \<noteq> None"
  using assms
  by (auto simp: readFrame_def Let_def awaitFrame_def queued_def frameLen_def split: awaited.splits if_splits prod.splits option.splits)

function readLoop :: "reading \<Rightarrow> nat \<Rightarrow> byte list \<Rightarrow> (nat \<Rightarrow> Time) \<Rightarrow> read_result \<times> reading" where
  "readLoop r n got clock =
    (if length got < n then
       let r = nextFrame r; s = rd_stream r in
       if currentFrame s = None \<and> length got > 0 then (RReturn False got (rs_closeForShutdownErr s), r)
       else case readFrame r n got (clock 0) (clock 1) of
         (Some result, _, r) \<Rightarrow> (result, r)
       | (None, got, r) \<Rightarrow> readLoop r n got (\<lambda>i. clock (i + 2))
     else (RReturn False got None, r))"
  by pat_completeness auto

termination
proof (relation "measure (\<lambda>(r, n, got, clock). (n - length got) + queued r)")
  fix r n got and clock :: "nat \<Rightarrow> Time" and r1 s result p got' r2
  assume less: "length got < n" and r1: "r1 = nextFrame r"
    and run: "(result, p) = readFrame r1 n got (clock 0) (clock 1)" "(got', r2) = p" "result = None"
  have on: "readFrame r1 n got (clock 0) (clock 1) = (None, got', r2)" using run by simp
  show "((r2, n, got', \<lambda>i. clock (i + 2)), r, n, got, clock) \<in> measure (\<lambda>(r, n, got, clock). (n - length got) + queued r)"
    using readFrame_goes_on [OF on] nextFrame_queue [of r] less unfolding r1 [symmetric] by auto
qed simp

declare readLoop.simps [simp del]

definition readImpl :: "reading \<Rightarrow> nat \<Rightarrow> (nat \<Rightarrow> Time) \<Rightarrow> read_result \<times> reading" where
  "readImpl r n clock =
    (let s = rd_stream r in
     if finRead s then (RReturn False [] (Some (ErrGo io_EOF)), r)
     else if canceledRead s then (RReturn False [] (cancelReadErr s), r)
     else if resetRemotely s then (RReturn False [] (resetRemotelyErr s), r)
     else if rs_closedForShutdown s then (RReturn False [] (rs_closeForShutdownErr s), r)
     else readLoop r n [] clock)"

text \<open>A waiting call, which has read nothing yet, is woken up.\<close>

definition readImpl_resume :: "reading \<Rightarrow> nat \<Rightarrow> (nat \<Rightarrow> Time) \<Rightarrow> read_result \<times> reading" where
  "readImpl_resume r n clock =
    (let s = rd_stream r in
     if readChan s \<or> expired (rs_deadline s) (clock 0) then
       let s = (if readChan s then s\<lparr>readChan := False\<rparr> else s);
           (s, cbs) = (if currentFrame s = None then dequeueNextFrame s else (s, []))
       in case readFrame (r\<lparr>rd_stream := s, rd_called := rd_called r @ cbs\<rparr>) n [] (clock 1) (clock 2) of
            (Some result, _, r) \<Rightarrow> (result, r)
          | (None, got, r) \<Rightarrow> readLoop r n got (\<lambda>i. clock (i + 3))
     else (RWait, r))"

section \<open>Completion\<close>

definition rs_streamCompleted :: "reading \<Rightarrow> Time \<Rightarrow> reading" where
  "rs_streamCompleted r now =
    (let s = rd_stream r;
         r = (if finRead s then r
              else case Abandon now (rd_fc r) (rd_conn r) of (conn, q) \<Rightarrow>
                r\<lparr>rd_conn := conn, rd_events := rd_events r @ (if q then [OnHasConnectionWindowUpdate] else [])\<rparr>)
     in r\<lparr>rd_events := rd_events r @ [OnStreamCompleted (rs_streamID s)]\<rparr>)"

definition Read_done :: "read_result \<times> reading \<Rightarrow> Time \<Rightarrow> (byte list \<times> stream_error option) option \<times> reading" where
  "Read_done res now =
    (case res of
       (RWait, r) \<Rightarrow> (None, r)
     | (RReturn completed got err, r) \<Rightarrow> (Some (got, err), if completed then rs_streamCompleted r now else r))"

definition Read :: "reading \<Rightarrow> nat \<Rightarrow> (nat \<Rightarrow> Time) \<Rightarrow> Time \<Rightarrow> (byte list \<times> stream_error option) option \<times> reading" where
  "Read r n clock now = Read_done (readImpl r n clock) now"

definition Read_resume :: "reading \<Rightarrow> nat \<Rightarrow> (nat \<Rightarrow> Time) \<Rightarrow> Time \<Rightarrow> (byte list \<times> stream_error option) option \<times> reading" where
  "Read_resume r n clock now = Read_done (readImpl_resume r n clock) now"

definition cancelReadImpl :: "reading \<Rightarrow> u64 \<Rightarrow> bool \<times> reading" where
  "cancelReadImpl r errorCode =
    (let s = rd_stream r in
     if finRead s \<or> canceledRead s \<or> resetRemotely s then (False, r)
     else
       let s = signalRead (s\<lparr>canceledRead := True,
                 cancelReadErr := Some (ErrGo (Errorf (''Read on stream %d canceled with error code %d'', [rs_streamID s, uint errorCode])))\<rparr>)
       in (finalOffset s \<noteq> MaxByteCount,
           r\<lparr>rd_stream := s, rd_events := rd_events r @ [QueueControlFrame (FStopSending \<lparr>ssf_StreamID = rs_streamID s, ssf_ErrorCode = errorCode\<rparr>)]\<rparr>))"

definition CancelRead :: "reading \<Rightarrow> u64 \<Rightarrow> Time \<Rightarrow> reading" where
  "CancelRead r errorCode now =
    (case cancelReadImpl r errorCode of (completed, r) \<Rightarrow> if completed then rs_streamCompleted r now else r)"

text \<open>\<open>cb\<close> stands for the method \<open>PutBack\<close> of the frame.\<close>

definition handleStreamFrameImpl :: "reading \<Rightarrow> StreamFrame \<Rightarrow> nat \<Rightarrow> (bool \<times> go_error option) \<times> reading" where
  "handleStreamFrameImpl r frame cb =
    (let s = rd_stream r;
         maxOffset = sf_Offset frame + StreamFrame_DataLen frame
     in case UpdateHighestReceived (rd_fc r) (rd_conn r) maxOffset (sf_FinBit frame) of ((c, conn), err) \<Rightarrow>
       let r = r\<lparr>rd_fc := c, rd_conn := conn\<rparr> in
       if err \<noteq> None then ((False, err), r)
       else
         let s = (if sf_FinBit frame then s\<lparr>finalOffset := maxOffset\<rparr> else s);
             r = r\<lparr>rd_stream := s\<rparr>
         in if canceledRead s then ((sf_FinBit frame, None), r)
         else case sorter_Push (frameQueue s) (sf_Data frame) (sf_Offset frame) (Some cb) of (err, q, cbs) \<Rightarrow>
           let s = s\<lparr>frameQueue := q\<rparr>;
               r = r\<lparr>rd_stream := s, rd_called := rd_called r @ cbs\<rparr>
           in if err \<noteq> None then ((False, err), r)
              else ((False, None), r\<lparr>rd_stream := signalRead s\<rparr>))"

definition rs_handleStreamFrame :: "reading \<Rightarrow> StreamFrame \<Rightarrow> nat \<Rightarrow> Time \<Rightarrow> go_error option \<times> reading" where
  "rs_handleStreamFrame r frame cb now =
    (case handleStreamFrameImpl r frame cb of ((completed, err), r) \<Rightarrow> (err, if completed then rs_streamCompleted r now else r))"

definition handleResetStreamFrameImpl :: "reading \<Rightarrow> ResetStreamFrame \<Rightarrow> (bool \<times> go_error option) \<times> reading" where
  "handleResetStreamFrameImpl r frame =
    (let s = rd_stream r in
     if rs_closedForShutdown s then ((False, None), r)
     else case UpdateHighestReceived (rd_fc r) (rd_conn r) (rsf_ByteOffset frame) True of ((c, conn), err) \<Rightarrow>
       let r = r\<lparr>rd_fc := c, rd_conn := conn\<rparr> in
       if err \<noteq> None then ((False, err), r)
       else
         let s = s\<lparr>finalOffset := rsf_ByteOffset frame\<rparr> in
         if resetRemotely s then ((False, None), r\<lparr>rd_stream := s\<rparr>)
         else ((True, None), r\<lparr>rd_stream := signalRead (s\<lparr>resetRemotely := True, resetRemotelyErr := Some (StreamCanceled (rsf_ErrorCode frame)
                (''stream %d was reset with error code %d'', [rs_streamID s, uint (rsf_ErrorCode frame)]))\<rparr>)\<rparr>))"

definition rs_handleResetStreamFrame :: "reading \<Rightarrow> ResetStreamFrame \<Rightarrow> Time \<Rightarrow> go_error option \<times> reading" where
  "rs_handleResetStreamFrame r frame now =
    (case handleResetStreamFrameImpl r frame of ((completed, err), r) \<Rightarrow> (err, if completed then rs_streamCompleted r now else r))"

definition CloseRemote :: "reading \<Rightarrow> ByteCount \<Rightarrow> nat \<Rightarrow> Time \<Rightarrow> reading" where
  "CloseRemote r offset cb now =
    snd (rs_handleStreamFrame r \<lparr>sf_StreamID = 0, sf_Offset = offset, sf_Data = [], sf_cap = 0, sf_FinBit = True,
      sf_DataLenPresent = False, sf_fromPool = False\<rparr> cb now)"

definition SetReadDeadline :: "receiveStream \<Rightarrow> Time \<Rightarrow> receiveStream" where
  "SetReadDeadline s t = signalRead (s\<lparr>rs_deadline := t\<rparr>)"

definition rs_closeForShutdown :: "receiveStream \<Rightarrow> stream_error option \<Rightarrow> receiveStream" where
  "rs_closeForShutdown s err = signalRead (s\<lparr>rs_closedForShutdown := True, rs_closeForShutdownErr := err\<rparr>)"

definition rs_getWindowUpdate :: "reading \<Rightarrow> RTTStats \<Rightarrow> Time \<Rightarrow> ByteCount \<times> reading" where
  "rs_getWindowUpdate r rtt now =
    (case stream_GetWindowUpdate now rtt (rd_fc r) (rd_conn r) of (offset, c, conn) \<Rightarrow> (offset, r\<lparr>rd_fc := c, rd_conn := conn\<rparr>))"

section \<open>The invariant\<close>

definition unread :: "receiveStream \<Rightarrow> byte list" where
  "unread s = drop (readPosInFrame s) (case currentFrame s of Some d \<Rightarrow> d | None \<Rightarrow> [])"

text \<open>The rest of the current frame is the stream from the read offset to the position of the sorter.\<close>

definition position_ok :: "(nat \<Rightarrow> byte) \<Rightarrow> receiveStream \<Rightarrow> bool" where
  "position_ok content s \<longleftrightarrow> sorter_inv content (frameQueue s) \<and> readPosInFrame s \<le> frameLen s \<and>
     unat (rs_readOffset s) + length (unread s) = unat (readPos (frameQueue s)) \<and>
     unread s = map content [unat (rs_readOffset s) ..< unat (readPos (frameQueue s))]"

text \<open>Nothing behind the highest offset has arrived, and the final offset is the highest one.\<close>

definition offsets_ok :: "receiveStream \<Rightarrow> streamFlowController \<Rightarrow> bool" where
  "offsets_ok s c \<longleftrightarrow> {unat (highestReceived c) ..< unat MaxByteCount} \<subseteq> missing (gaps (frameQueue s)) \<and>
     unat (readPos (frameQueue s)) \<le> unat (highestReceived c) \<and> unat (highestReceived c) < unat MaxByteCount \<and>
     (finalOffset s \<noteq> MaxByteCount \<longrightarrow> receivedFinalOffset c \<and> finalOffset s = highestReceived c) \<and>
     (currentFrameIsLast s \<longrightarrow> finalOffset s = readPos (frameQueue s)) \<and> bytesRead c = rs_readOffset s"

definition errs_ok :: "receiveStream \<Rightarrow> bool" where
  "errs_ok s \<longleftrightarrow> Some (ErrGo io_EOF) \<notin> {rs_closeForShutdownErr s, cancelReadErr s, resetRemotelyErr s}"

definition recv_inv :: "(nat \<Rightarrow> byte) \<Rightarrow> reading \<Rightarrow> bool" where
  "recv_inv content r \<longleftrightarrow> position_ok content (rd_stream r) \<and> offsets_ok (rd_stream r) (rd_fc r) \<and> errs_ok (rd_stream r) \<and>
     (finRead (rd_stream r) \<longrightarrow> rs_readOffset (rd_stream r) = finalOffset (rd_stream r))"

lemma dequeue_inv:
  assumes p: "position_ok content s" and o: "offsets_ok s c" and empty: "unread s = []" and d: "dequeueNextFrame s = (s', cbs)"
  shows "position_ok content s' \<and> offsets_ok s' c \<and> rs_readOffset s' = rs_readOffset s \<and> errs_ok s' = errs_ok s \<and> finRead s' = finRead s \<and>
    finalOffset s' = finalOffset s"
proof -
  obtain offset frame cb q where pop: "sorter_Pop (frameQueue s) = ((offset, frame, cb), q)" by (metis prod.collapse)
  have inv: "sorter_inv content (frameQueue s)" using p by (simp add: position_ok_def)
  note q = sorter_Pop_correct [OF inv pop]
  define data where "data = (case frame of Some d \<Rightarrow> d | None \<Rightarrow> [])"
  have s': "s' = s\<lparr>frameQueue := q, currentFrame := frame, currentFrameDone := cb,
      currentFrameIsLast := readPos (frameQueue s) + word_of_nat (length data) \<ge> finalOffset s, readPosInFrame := 0\<rparr>"
    using d pop q(1) by (cases frame) (auto simp: dequeueNextFrame_def Let_def frameLen_def data_def)
  have u: "unread s' = data" "frameLen s' = length data" by (auto simp: unread_def s' frameLen_def data_def split: option.split)
  have off: "unat (rs_readOffset s) = unat (readPos (frameQueue s))" using p empty by (simp add: position_ok_def)
  have "position_ok content s'" using q(2,4,5) u off by (simp add: position_ok_def data_def) (simp add: s')
  moreover have pos: "unat (readPos q) \<le> unat (highestReceived c)"
  proof (rule ccontr)
    assume high: "\<not> ?thesis"
    then have "data \<noteq> []" "unat (readPos (frameQueue s)) \<le> unat (highestReceived c)"
      using q(4) o by (auto simp: data_def offsets_ok_def)
    then have "unat (highestReceived c) \<in> extent (readPos (frameQueue s)) data" using high q(4) by (simp add: extent_def data_def)
    then show False using q(6) o by (auto simp: offsets_ok_def data_def)
  qed
  moreover have "readPos q \<le> finalOffset s"
    using pos o by (cases "finalOffset s = MaxByteCount") (auto simp: offsets_ok_def word_le_nat_alt)
  moreover have "readPos q = readPos (frameQueue s) + word_of_nat (length data)"
    using pop by (auto simp: sorter_Pop_def data_def split: option.splits)
  ultimately show ?thesis using o q(3) by (auto simp: offsets_ok_def s' errs_ok_def)
qed

text \<open>What the operations of \<open>Read\<close> leave alone.\<close>

definition same_stream :: "receiveStream \<Rightarrow> receiveStream \<Rightarrow> bool" where
  "same_stream s s' \<longleftrightarrow> rs_streamID s' = rs_streamID s \<and> finalOffset s' = finalOffset s \<and> rs_closeForShutdownErr s' = rs_closeForShutdownErr s \<and>
     cancelReadErr s' = cancelReadErr s \<and> resetRemotelyErr s' = resetRemotelyErr s \<and> rs_closedForShutdown s' = rs_closedForShutdown s \<and>
     canceledRead s' = canceledRead s \<and> resetRemotely s' = resetRemotely s \<and> rs_deadline s' = rs_deadline s"

lemma stream_AddBytesRead_run:
  "stream_AddBytesRead now c conn n = ((c', conn'), q) \<Longrightarrow>
    bytesRead c' = bytesRead c + n \<and> highestReceived c' = highestReceived c \<and> receivedFinalOffset c' = receivedFinalOffset c"
  by (auto simp: stream_AddBytesRead_def AddBytesRead_def startNewAutoTuningEpoch_def Let_def split: prod.splits if_splits)

lemma nextFrame_inv:
  assumes "recv_inv content r"
  shows "recv_inv content (nextFrame r) \<and> rs_readOffset (rd_stream (nextFrame r)) = rs_readOffset (rd_stream r) \<and>
    same_stream (rd_stream r) (rd_stream (nextFrame r)) \<and> finRead (rd_stream (nextFrame r)) = finRead (rd_stream r)"
proof (cases "currentFrame (rd_stream r) = None \<or> readPosInFrame (rd_stream r) \<ge> frameLen (rd_stream r)")
  case True
  obtain s' cbs where d: "dequeueNextFrame (rd_stream r) = (s', cbs)" by fastforce
  have "unread (rd_stream r) = []" using True by (auto simp: unread_def frameLen_def split: option.splits)
  note inv = dequeue_inv [OF _ _ this d]
  have "same_stream (rd_stream r) s'" using d by (auto simp: dequeueNextFrame_def same_stream_def Let_def split: prod.splits)
  then show ?thesis using assms True d inv unfolding recv_inv_def nextFrame_def Let_def by auto
next
  case False
  then show ?thesis using assms by (auto simp: nextFrame_def Let_def same_stream_def)
qed

definition BUG_free :: "receiveStream \<Rightarrow> stream_error option \<Rightarrow> bool" where
  "BUG_free s err \<longleftrightarrow> err \<in> {None, rs_closeForShutdownErr s, cancelReadErr s, resetRemotelyErr s, Some ErrDeadline, Some (ErrGo io_EOF)}"

lemma readFrame_inv:
  assumes inv: "recv_inv content r" and len: "length got \<le> n" and run: "readFrame r n got now now' = (res, got', r')"
    and off: "unat (rs_readOffset (rd_stream r)) = off"
  shows "\<exists>off'. unat (rs_readOffset (rd_stream r')) = off' \<and> recv_inv content r' \<and> same_stream (rd_stream r) (rd_stream r') \<and> off \<le> off' \<and>
    got' = got @ map content [off ..< off'] \<and> length got' \<le> n \<and>
    (case res of
       None \<Rightarrow> finRead (rd_stream r') = finRead (rd_stream r)
     | Some RWait \<Rightarrow> off' = off \<and> currentFrame (rd_stream r) = None \<and> finRead (rd_stream r') = finRead (rd_stream r)
     | Some (RReturn completed g err) \<Rightarrow> g = got' \<and> BUG_free (rd_stream r) err \<and>
         (if completed then err = Some (ErrGo io_EOF) \<and> finRead (rd_stream r')
          else err \<noteq> Some (ErrGo io_EOF) \<and> finRead (rd_stream r') = finRead (rd_stream r)))"
proof (cases "awaitFrame (rd_stream r) now")
  case (AErr err)
  then have "res = Some (RReturn False got err)" "got' = got" "r' = r" "BUG_free (rd_stream r) err" "err \<noteq> Some (ErrGo io_EOF)"
    using run inv by (auto simp: readFrame_def Let_def awaitFrame_def BUG_free_def recv_inv_def errs_ok_def split: if_splits)
  then show ?thesis using inv off len by (simp add: same_stream_def)
next
  case AWait
  then have "res = Some RWait" "got' = got" "r' = r" "currentFrame (rd_stream r) = None"
    using run by (auto simp: readFrame_def Let_def awaitFrame_def split: if_splits)
  then show ?thesis using inv off len by (simp add: same_stream_def)
next
  case AReady
  let ?s = "rd_stream r"
  have pos: "position_ok content ?s" and o: "offsets_ok ?s (rd_fc r)" and e: "errs_ok ?s" using inv by (simp_all add: recv_inv_def)
  have nr: "\<not> resetRemotely ?s" using AReady by (auto simp: awaitFrame_def split: if_splits)
  define chunk where "chunk = take (n - length got) (unread ?s)"
  define m where "m = length chunk"
  obtain c conn q where fc: "stream_AddBytesRead now' (rd_fc r) (rd_conn r) (word_of_nat m) = ((c, conn), q)" by (metis prod.collapse)
  note c = stream_AddBytesRead_run [OF fc]
  define s1 where "s1 = ?s\<lparr>readPosInFrame := readPosInFrame ?s + m, rs_readOffset := rs_readOffset ?s + word_of_nat m\<rparr>"
  define last where "last = (readPosInFrame s1 \<ge> frameLen s1 \<and> currentFrameIsLast s1)"
  have r': "res = (if last then Some (RReturn True (got @ chunk) (Some (ErrGo io_EOF))) else None)" "got' = got @ chunk"
    "rd_stream r' = (if last then s1\<lparr>finRead := True\<rparr> else s1)" "rd_fc r' = c"
    using run AReady len pos nr fc
    by (auto simp: readFrame_def Let_def position_ok_def chunk_def [unfolded unread_def, symmetric] m_def s1_def last_def
        simp flip: frameLen_def split: if_splits)
  let ?q = "readPos (frameQueue ?s)"
  have un: "off + length (unread ?s) = unat ?q" "unread ?s = map content [off ..< unat ?q]" "readPosInFrame ?s \<le> frameLen ?s"
    using pos off by (simp_all add: position_ok_def)
  have m: "m \<le> length (unread ?s)" by (simp add: m_def chunk_def)
  have fl: "frameLen s1 = frameLen ?s" "length (unread ?s) = frameLen ?s - readPosInFrame ?s" "unread s1 = drop m (unread ?s)"
    by (auto simp: s1_def frameLen_def unread_def add.commute split: option.splits)
  have "off + m < 2 ^ 64" using m un(1) unat_lt_u64 [of ?q] by simp
  then have off': "unat (rs_readOffset s1) = off + m" using off by (simp add: s1_def unat_plus_lt unat_word_of_nat_id)
  have ch: "chunk = map content [off ..< off + m]"
  proof -
    have "chunk = take m (unread ?s)" by (simp add: m_def chunk_def min_def)
    also have "\<dots> = map content [off ..< off + m]" using m un(1) by (subst un(2)) (simp add: take_map)
    finally show ?thesis .
  qed
  have "position_ok content s1"
  proof -
    have "drop m (map content [off ..< unat ?q]) = map content [off + m ..< unat ?q]" by (simp add: drop_map)
    moreover have "off + m + length (unread s1) = unat ?q" using m un(1) fl(3) by simp
    moreover have "readPosInFrame s1 \<le> frameLen s1" using m un(3) fl by (simp add: s1_def)
    ultimately show ?thesis using pos un(2) off' fl(3) by (simp add: position_ok_def s1_def)
  qed
  moreover have "offsets_ok s1 c" using o c by (simp add: offsets_ok_def s1_def)
  moreover have "rs_readOffset s1 = finalOffset s1" if "last"
  proof -
    have "unread s1 = []" using that by (auto simp: last_def unread_def frameLen_def split: option.splits)
    then have "m = length (unread ?s)" using fl(3) m by simp
    then have "rs_readOffset s1 = ?q" using off' un(1) by (simp only: word_unat_eq_iff)
    then show ?thesis using that o by (simp add: last_def offsets_ok_def s1_def)
  qed
  moreover have "finRead ?s \<longrightarrow> rs_readOffset s1 = finalOffset s1"
  proof
    assume "finRead ?s"
    then have fin: "rs_readOffset ?s = finalOffset ?s" using inv by (simp add: recv_inv_def)
    have "unat ?q \<le> unat (finalOffset ?s)" using o by (cases "finalOffset ?s = MaxByteCount") (auto simp: offsets_ok_def)
    then have "m = 0" using m un(1) off fin by simp
    then show "rs_readOffset s1 = finalOffset s1" using fin by (simp add: s1_def)
  qed
  ultimately have "recv_inv content r'" using r' e by (auto simp: recv_inv_def position_ok_def offsets_ok_def errs_ok_def unread_def frameLen_def s1_def)
  moreover have "length (got @ chunk) \<le> n" using len by (simp add: chunk_def)
  moreover have "same_stream ?s (rd_stream r')" "rs_readOffset (rd_stream r') = rs_readOffset s1" using r' by (simp_all add: same_stream_def s1_def)
  ultimately show ?thesis using r' off' ch by (simp add: BUG_free_def) (simp add: s1_def)
qed

lemma same_stream_trans: "same_stream a b \<Longrightarrow> same_stream b c \<Longrightarrow> same_stream a c"
  by (simp add: same_stream_def)

lemma BUG_free_same: "same_stream s s' \<Longrightarrow> BUG_free s' err = BUG_free s err"
  by (simp add: same_stream_def BUG_free_def)

lemma map_upt_append: "a \<le> b \<Longrightarrow> b \<le> c \<Longrightarrow> map f [a ..< b] @ map f [b ..< c] = map f [a ..< c]"
  using upt_add_eq_append [of a b "c - b"] by (simp flip: map_append)

text \<open>The outcome of a call: what it returns is the stream from the read offset on, and it waits only if it has nothing.\<close>

definition read_outcome :: "(nat \<Rightarrow> byte) \<Rightarrow> receiveStream \<Rightarrow> nat \<Rightarrow> byte list \<Rightarrow> read_result \<Rightarrow> reading \<Rightarrow> bool" where
  "read_outcome content s off got res r' \<longleftrightarrow> recv_inv content r' \<and> same_stream s (rd_stream r') \<and>
     off \<le> unat (rs_readOffset (rd_stream r')) \<and>
     (case res of
        RWait \<Rightarrow> got = [] \<and> unat (rs_readOffset (rd_stream r')) = off \<and> finRead (rd_stream r') = finRead s
      | RReturn completed g err \<Rightarrow> g = got @ map content [off ..< unat (rs_readOffset (rd_stream r'))] \<and> BUG_free s err \<and>
          (if completed then err = Some (ErrGo io_EOF) \<and> finRead (rd_stream r')
           else err \<noteq> Some (ErrGo io_EOF) \<and> finRead (rd_stream r') = finRead s))"

lemma read_outcome_trans:
  assumes "same_stream s s2" and "finRead s2 = finRead s" and "off \<le> off2" and "got2 = got @ map content [off ..< off2]"
    and out: "read_outcome content s2 off2 got2 res r'"
  shows "read_outcome content s off got res r'"
proof -
  have "same_stream s (rd_stream r')" using assms(1) out by (auto simp: read_outcome_def intro: same_stream_trans)
  moreover have "off2 = off" "got = []" if "got2 = []" using assms(3,4) that by auto
  ultimately show ?thesis using assms(2-4) out BUG_free_same [OF assms(1)]
    by (cases res) (auto simp: read_outcome_def map_upt_append)
qed

text \<open>A round of the loop and what follows it.\<close>

lemma readFrame_then:
  assumes inv: "recv_inv content r" and len: "length got \<le> n" and rf: "readFrame r n got now now' = (oc, got', r2)"
    and nt: "currentFrame (rd_stream r) = None \<longrightarrow> got = []"
    and over: "oc = Some res \<longrightarrow> r' = r2"
    and more: "oc = None \<Longrightarrow> recv_inv content r2 \<Longrightarrow> length got' \<le> n \<Longrightarrow> read_outcome content (rd_stream r2) (unat (rs_readOffset (rd_stream r2))) got' res r'"
  shows "oc = None \<or> oc = Some res \<Longrightarrow> read_outcome content (rd_stream r) (unat (rs_readOffset (rd_stream r))) got res r'"
proof -
  let ?off = "unat (rs_readOffset (rd_stream r))" and ?off2 = "unat (rs_readOffset (rd_stream r2))"
  note fr = readFrame_inv [OF inv len rf refl]
  have fr': "recv_inv content r2" "same_stream (rd_stream r) (rd_stream r2)" "?off \<le> ?off2"
    "got' = got @ map content [?off ..< ?off2]" "length got' \<le> n" using fr by blast+
  assume "oc = None \<or> oc = Some res"
  then show ?thesis
  proof
    assume None: "oc = None"
    then have "finRead (rd_stream r2) = finRead (rd_stream r)" using fr by simp
    then show ?thesis using read_outcome_trans [OF fr'(2) _ fr'(3,4)] more [OF None fr'(1,5)] by simp
  next
    assume Some: "oc = Some res"
    then show ?thesis using fr nt fr' over by (cases res) (auto simp: read_outcome_def)
  qed
qed

lemma readLoop_correct:
  assumes "recv_inv content r" and "length got \<le> n" and "readLoop r n got clock = (res, r')"
  shows "read_outcome content (rd_stream r) (unat (rs_readOffset (rd_stream r))) got res r'"
  using assms
proof (induction r n got clock arbitrary: res r' rule: readLoop.induct)
  case (1 r n got clock)
  let ?off = "unat (rs_readOffset (rd_stream r))"
  have same: "same_stream (rd_stream r) (rd_stream r)" by (simp add: same_stream_def)
  show ?case
  proof (cases "length got < n")
    case False
    then have "res = RReturn False got None" "r' = r" using 1(4) by (subst (asm) readLoop.simps, simp)+
    then show ?thesis using 1(2) same by (simp add: read_outcome_def BUG_free_def)
  next
    case less: True
    define r1 where "r1 = nextFrame r"
    have nx: "recv_inv content r1" "unat (rs_readOffset (rd_stream r1)) = ?off" "same_stream (rd_stream r) (rd_stream r1)"
      "finRead (rd_stream r1) = finRead (rd_stream r)" using nextFrame_inv [OF 1(2)] by (simp_all add: r1_def)
    show ?thesis
    proof (cases "currentFrame (rd_stream r1) = None \<and> length got > 0")
      case True
      then have "res = RReturn False got (rs_closeForShutdownErr (rd_stream r1))" "r' = r1"
        using 1(4) less by (subst (asm) readLoop.simps, simp add: r1_def [symmetric])+
      then show ?thesis using nx 1(2)
        by (auto simp: read_outcome_def BUG_free_def same_stream_def recv_inv_def errs_ok_def)
    next
      case nt: False
      obtain oc got' r2 where rf: "readFrame r1 n got (clock 0) (clock 1) = (oc, got', r2)" by (metis prod.collapse)
      have run: "(res, r') = (case oc of Some result \<Rightarrow> (result, r2) | None \<Rightarrow> readLoop r2 n got' (\<lambda>i. clock (i + 2)))"
        using 1(4) less nt rf by (subst (asm) readLoop.simps) (auto simp: Let_def simp flip: r1_def split: option.splits)
      have "read_outcome content (rd_stream r1) (unat (rs_readOffset (rd_stream r1))) got res r'"
      proof (rule readFrame_then [OF nx(1) 1(3) rf])
        assume None: "oc = None" and r2: "recv_inv content r2" "length got' \<le> n"
        show "read_outcome content (rd_stream r2) (unat (rs_readOffset (rd_stream r2))) got' res r'"
          by (rule 1(1) [OF less r1_def refl nt rf [symmetric] None refl r2]) (use run None in simp)
      qed (use nt run in \<open>auto split: option.splits\<close>)
      then show ?thesis using read_outcome_trans [OF nx(3,4), of "?off" "?off" got got] nx(2) by simp
    qed
  qed
qed

lemma readImpl_correct:
  assumes inv: "recv_inv content r" and run: "readImpl r n clock = (res, r')"
  shows "read_outcome content (rd_stream r) (unat (rs_readOffset (rd_stream r))) [] res r' \<or>
    finRead (rd_stream r) \<and> res = RReturn False [] (Some (ErrGo io_EOF)) \<and> r' = r"
proof -
  have same: "same_stream (rd_stream r) (rd_stream r)" by (simp add: same_stream_def)
  have "errs_ok (rd_stream r)" using inv by (simp add: recv_inv_def)
  then have e: "read_outcome content (rd_stream r) (unat (rs_readOffset (rd_stream r))) [] (RReturn False [] err) r"
    if "err \<in> {cancelReadErr (rd_stream r), resetRemotelyErr (rd_stream r), rs_closeForShutdownErr (rd_stream r)}" for err
    using inv same that by (auto simp: read_outcome_def errs_ok_def BUG_free_def)
  show ?thesis using run e readLoop_correct [OF inv, of "[]" n clock res r']
    by (auto simp: readImpl_def Let_def split: if_splits)
qed

lemma recv_inv_quiet:
  assumes "recv_inv content r"
  shows "recv_inv content (r\<lparr>rd_stream := (rd_stream r)\<lparr>readChan := b\<rparr>\<rparr>)"
  using assms by (simp add: recv_inv_def position_ok_def offsets_ok_def errs_ok_def unread_def frameLen_def)

lemma readImpl_resume_correct:
  assumes inv: "recv_inv content r" and run: "readImpl_resume r n clock = (res, r')"
  shows "read_outcome content (rd_stream r) (unat (rs_readOffset (rd_stream r))) [] res r'"
proof (cases "readChan (rd_stream r) \<or> expired (rs_deadline (rd_stream r)) (clock 0)")
  case False
  then show ?thesis using run inv by (auto simp: readImpl_resume_def read_outcome_def same_stream_def)
next
  case True
  let ?off = "unat (rs_readOffset (rd_stream r))"
  define s where "s = (if readChan (rd_stream r) then (rd_stream r)\<lparr>readChan := False\<rparr> else rd_stream r)"
  have s: "s = (rd_stream r)\<lparr>readChan := False\<rparr>" by (simp add: s_def)
  obtain s1 cbs where s1: "(s1, cbs) = (if currentFrame s = None then dequeueNextFrame s else (s, []))" by (metis surj_pair)
  define r1 where "r1 = r\<lparr>rd_stream := s1, rd_called := rd_called r @ cbs\<rparr>"
  obtain oc got r2 where rf: "readFrame r1 n [] (clock 1) (clock 2) = (oc, got, r2)" by (metis prod.collapse)
  have res: "(res, r') = (case oc of Some result \<Rightarrow> (result, r2) | None \<Rightarrow> readLoop r2 n got (\<lambda>i. clock (i + 3)))"
    using run True rf s1 unfolding readImpl_resume_def Let_def s_def [symmetric] r1_def
    by (auto split: prod.splits option.splits)
  have s_inv: "position_ok content s" "offsets_ok s (rd_fc r)" "errs_ok s" using recv_inv_quiet [OF inv, of False] by (simp_all add: recv_inv_def s)
  have inv1: "recv_inv content r1 \<and> unat (rs_readOffset (rd_stream r1)) = ?off \<and> same_stream (rd_stream r) (rd_stream r1) \<and> finRead (rd_stream r1) = finRead (rd_stream r)"
  proof (cases "currentFrame s = None")
    case True
    then have d: "dequeueNextFrame s = (s1, cbs)" and empty: "unread s = []" using s1 by (simp_all add: unread_def)
    have "same_stream s s1" using d by (auto simp: dequeueNextFrame_def same_stream_def Let_def split: prod.splits)
    then show ?thesis using dequeue_inv [OF s_inv(1,2) empty d] s_inv(3) inv unfolding recv_inv_def r1_def by (simp add: s same_stream_def)
  next
    case False
    then have "s1 = s" using s1 by (simp del: not_None_eq)
    then show ?thesis using s_inv inv by (simp add: recv_inv_def r1_def s same_stream_def)
  qed
  have "read_outcome content (rd_stream r1) (unat (rs_readOffset (rd_stream r1))) [] res r'"
    by (rule readFrame_then [OF _ _ rf]) (use inv1 res readLoop_correct in \<open>auto split: option.splits\<close>)
  then show ?thesis using read_outcome_trans [of "rd_stream r" "rd_stream r1" ?off ?off "[]" "[]"] inv1 by simp
qed

section \<open>The other operations\<close>

lemma UpdateHighestReceived_run:
  assumes "UpdateHighestReceived c conn offset fin = ((c', conn'), None)"
  shows "offset \<le> highestReceived c' \<and> highestReceived c' \<in> {highestReceived c, offset} \<and> highestReceived c \<le> highestReceived c' \<and>
    (fin \<longrightarrow> offset = highestReceived c' \<and> receivedFinalOffset c') \<and>
    (receivedFinalOffset c \<longrightarrow> receivedFinalOffset c' \<and> highestReceived c' = highestReceived c) \<and> bytesRead c' = bytesRead c"
  using assms by (auto simp: UpdateHighestReceived_def Let_def word_le_nat_alt word_less_nat_alt split: if_splits prod.splits)

lemma final_update:
  assumes inv: "recv_inv content r" and u: "UpdateHighestReceived (rd_fc r) (rd_conn r) offset fin = ((c', conn'), None)"
    and off: "unat offset < unat MaxByteCount" and s': "s' = (if fin then (rd_stream r)\<lparr>finalOffset := offset\<rparr> else rd_stream r)"
  shows "recv_inv content (r\<lparr>rd_fc := c', rd_conn := conn', rd_stream := s'\<rparr>)"
proof -
  let ?s = "rd_stream r" and ?c = "rd_fc r"
  note up = UpdateHighestReceived_run [OF u]
  have o: "offsets_ok ?s ?c" and p: "position_ok content ?s" using inv by (simp_all add: recv_inv_def)
  have high: "unat (highestReceived c') < unat MaxByteCount" "unat (highestReceived ?c) \<le> unat (highestReceived c')"
    using up off o by (auto simp: offsets_ok_def word_le_nat_alt)
  have final: "finalOffset ?s \<noteq> MaxByteCount \<Longrightarrow> receivedFinalOffset c' \<and> highestReceived c' = finalOffset ?s" using o up by (auto simp: offsets_ok_def)
  have last: "finalOffset ?s \<noteq> MaxByteCount" if "currentFrameIsLast ?s" using that o by (auto simp: offsets_ok_def)
  have fin: "finalOffset ?s \<noteq> MaxByteCount" if "finRead ?s"
    using that o p inv by (auto simp: offsets_ok_def position_ok_def recv_inv_def)
  have same: "finalOffset s' = finalOffset ?s" if "finalOffset ?s \<noteq> MaxByteCount" using final [OF that] up s' by auto
  have "{unat (highestReceived c') ..< unat MaxByteCount} \<subseteq> {unat (highestReceived ?c) ..< unat MaxByteCount}" using high by auto
  then have "{unat (highestReceived c') ..< unat MaxByteCount} \<subseteq> missing (gaps (frameQueue ?s))" using o unfolding offsets_ok_def by blast
  then have "offsets_ok s' c'" using o high up final last same s' unfolding offsets_ok_def by auto
  moreover have "position_ok content s'" using p by (simp add: s' position_ok_def unread_def frameLen_def)
  moreover have "finRead s' \<longrightarrow> rs_readOffset s' = finalOffset s'" using inv fin same by (auto simp: s' recv_inv_def)
  ultimately show ?thesis using inv by (simp add: recv_inv_def errs_ok_def s')
qed

lemma push_inv:
  assumes inv: "recv_inv content r" and piece: "piece content offset d" and high: "unat offset + length d \<le> unat (highestReceived (rd_fc r))"
    and push: "sorter_Push (frameQueue (rd_stream r)) d offset cb = (err, q, cbs)"
  shows "(err = None \<or> err = Some errTooManyGaps) \<and> recv_inv content (r\<lparr>rd_stream := (rd_stream r)\<lparr>frameQueue := q\<rparr>, rd_called := cbs'\<rparr>)"
proof -
  have inv': "sorter_inv content (frameQueue (rd_stream r))" using inv by (simp add: recv_inv_def position_ok_def)
  obtain "sorter_inv content q" "err = None \<or> err = Some errTooManyGaps" "readPos q = readPos (frameQueue (rd_stream r))"
    "missing (gaps q) = missing (gaps (frameQueue (rd_stream r))) - extent offset d"
    using sorter_Push_correct [OF inv' piece, of cb] push by auto
  then show ?thesis using inv high
    by (auto simp: recv_inv_def position_ok_def offsets_ok_def errs_ok_def unread_def frameLen_def extent_def)
qed

lemma streamCompleted_inv: "recv_inv content r \<Longrightarrow> recv_inv content (rs_streamCompleted r now) \<and> rd_stream (rs_streamCompleted r now) = rd_stream r"
  by (simp add: rs_streamCompleted_def recv_inv_def Let_def split: prod.split)

lemma rs_handleStreamFrame_inv:
  assumes inv: "recv_inv content r" and piece: "piece content (sf_Offset f) (sf_Data f)" and run: "rs_handleStreamFrame r f cb now = (None, r')"
  shows "recv_inv content r' \<and> rs_readOffset (rd_stream r') = rs_readOffset (rd_stream r) \<and> finRead (rd_stream r') = finRead (rd_stream r)"
proof -
  let ?off = "sf_Offset f + StreamFrame_DataLen f"
  have off: "unat ?off = unat (sf_Offset f) + length (sf_Data f)" "unat ?off < unat MaxByteCount"
    using piece_stop [OF piece] piece by (simp_all add: StreamFrame_DataLen_def piece_def)
  obtain c conn err where u: "UpdateHighestReceived (rd_fc r) (rd_conn r) ?off (sf_FinBit f) = ((c, conn), err)" by (metis prod.collapse)
  have none: "err = None" using run u by (cases err) (auto simp: rs_handleStreamFrame_def handleStreamFrameImpl_def Let_def)
  define s where "s = (if sf_FinBit f then (rd_stream r)\<lparr>finalOffset := ?off\<rparr> else rd_stream r)"
  define r1 where "r1 = r\<lparr>rd_fc := c, rd_conn := conn, rd_stream := s\<rparr>"
  have inv1: "recv_inv content r1" unfolding r1_def by (rule final_update [OF inv u [unfolded none] off(2) s_def])
  have s: "rs_readOffset s = rs_readOffset (rd_stream r)" "finRead s = finRead (rd_stream r)" by (simp_all add: s_def)
  obtain err2 q cbs where push: "sorter_Push (frameQueue s) (sf_Data f) (sf_Offset f) (Some cb) = (err2, q, cbs)" by (metis prod.collapse)
  have high: "unat (sf_Offset f) + length (sf_Data f) \<le> unat (highestReceived (rd_fc r1))"
    using UpdateHighestReceived_run [OF u [unfolded none]] off by (simp add: r1_def word_le_nat_alt)
  define r2 where "r2 = r1\<lparr>rd_stream := s\<lparr>frameQueue := q\<rparr>, rd_called := rd_called r1 @ cbs\<rparr>"
  have inv2: "recv_inv content r2" using push_inv [OF inv1 piece high, of "Some cb" err2 q cbs] push by (simp add: r1_def r2_def)
  have r': "r' = (if canceledRead s then if sf_FinBit f then rs_streamCompleted r1 now else r1
      else r2\<lparr>rd_stream := (rd_stream r2)\<lparr>readChan := True\<rparr>\<rparr>)"
    using run u none push unfolding rs_handleStreamFrame_def handleStreamFrameImpl_def Let_def
    by (auto simp: r1_def r2_def signalRead_def simp flip: s_def split: if_splits)
  have rs: "rd_stream r1 = s" "rs_readOffset (rd_stream r2) = rs_readOffset s" "finRead (rd_stream r2) = finRead s" by (simp_all add: r1_def r2_def)
  show ?thesis using streamCompleted_inv [OF inv1, of now] recv_inv_quiet [OF inv2, of True] inv1 s rs by (simp add: r')
qed

lemma rs_handleResetStreamFrame_inv:
  assumes inv: "recv_inv content r" and off: "unat (rsf_ByteOffset f) < unat MaxByteCount" and run: "rs_handleResetStreamFrame r f now = (None, r')"
  shows "recv_inv content r' \<and> rs_readOffset (rd_stream r') = rs_readOffset (rd_stream r) \<and> finRead (rd_stream r') = finRead (rd_stream r)"
proof (cases "rs_closedForShutdown (rd_stream r)")
  case True
  then show ?thesis using run inv by (simp add: rs_handleResetStreamFrame_def handleResetStreamFrameImpl_def Let_def)
next
  case False
  obtain c conn err where u: "UpdateHighestReceived (rd_fc r) (rd_conn r) (rsf_ByteOffset f) True = ((c, conn), err)" by (metis prod.collapse)
  have none: "err = None" using run u False by (cases err) (auto simp: rs_handleResetStreamFrame_def handleResetStreamFrameImpl_def Let_def)
  define s where "s = (rd_stream r)\<lparr>finalOffset := rsf_ByteOffset f\<rparr>"
  define r1 where "r1 = r\<lparr>rd_fc := c, rd_conn := conn, rd_stream := s\<rparr>"
  have inv1: "recv_inv content r1" unfolding r1_def by (rule final_update [OF inv u [unfolded none] off]) (simp add: s_def)
  define r2 where "r2 = r1\<lparr>rd_stream := signalRead (s\<lparr>resetRemotely := True, resetRemotelyErr := Some (StreamCanceled (rsf_ErrorCode f)
                (''stream %d was reset with error code %d'', [rs_streamID s, uint (rsf_ErrorCode f)]))\<rparr>)\<rparr>"
  have inv2: "recv_inv content r2" using inv1
    by (simp add: r2_def r1_def recv_inv_def position_ok_def offsets_ok_def errs_ok_def unread_def frameLen_def signalRead_def)
  have "r' = (if resetRemotely s then r1 else rs_streamCompleted r2 now)"
    using run u none False unfolding rs_handleResetStreamFrame_def handleResetStreamFrameImpl_def Let_def
    by (auto simp: r1_def r2_def simp flip: s_def split: if_splits)
  then show ?thesis using streamCompleted_inv [OF inv2, of now] inv1 by (auto simp: r1_def r2_def s_def signalRead_def)
qed

section \<open>Delivery\<close>

record recv_world =
  rw_read :: reading
  rw_results :: "(byte list \<times> stream_error option) list"

datatype rs_op = RsFrame StreamFrame nat Time | RsRead nat "nat \<Rightarrow> Time" Time | RsResume nat "nat \<Rightarrow> Time" Time | RsReset ResetStreamFrame Time
  | RsCancel u64 Time | RsDeadline Time | RsShutdown "stream_error option" | RsWindowUpdate RTTStats Time

definition returned :: "recv_world \<Rightarrow> (byte list \<times> stream_error option) option \<times> reading \<Rightarrow> recv_world" where
  "returned w res = \<lparr>rw_read = snd res, rw_results = rw_results w @ (case fst res of Some x \<Rightarrow> [x] | None \<Rightarrow> [])\<rparr>"

fun rs_step :: "recv_world \<Rightarrow> rs_op \<Rightarrow> go_error + recv_world" where
  "rs_step w (RsFrame f cb now) =
    (case rs_handleStreamFrame (rw_read w) f cb now of (Some err, _) \<Rightarrow> Inl err | (None, r) \<Rightarrow> Inr (w\<lparr>rw_read := r\<rparr>))"
| "rs_step w (RsRead n clock now) = Inr (returned w (Read (rw_read w) n clock now))"
| "rs_step w (RsResume n clock now) = Inr (returned w (Read_resume (rw_read w) n clock now))"
| "rs_step w (RsReset f now) =
    (case rs_handleResetStreamFrame (rw_read w) f now of (Some err, _) \<Rightarrow> Inl err | (None, r) \<Rightarrow> Inr (w\<lparr>rw_read := r\<rparr>))"
| "rs_step w (RsCancel code now) = Inr (w\<lparr>rw_read := CancelRead (rw_read w) code now\<rparr>)"
| "rs_step w (RsDeadline t) = Inr (w\<lparr>rw_read := (rw_read w)\<lparr>rd_stream := SetReadDeadline (rd_stream (rw_read w)) t\<rparr>\<rparr>)"
| "rs_step w (RsShutdown err) = Inr (w\<lparr>rw_read := (rw_read w)\<lparr>rd_stream := rs_closeForShutdown (rd_stream (rw_read w)) err\<rparr>\<rparr>)"
| "rs_step w (RsWindowUpdate rtt now) = Inr (w\<lparr>rw_read := snd (rs_getWindowUpdate (rw_read w) rtt now)\<rparr>)"

fun rs_run :: "recv_world \<Rightarrow> rs_op list \<Rightarrow> go_error + recv_world" where
  "rs_run w [] = Inr w"
| "rs_run w (op # ops) = tryE (rs_step w op) (\<lambda>w. rs_run w ops)"

definition newRecvWorld :: "StreamID \<Rightarrow> streamFlowController \<Rightarrow> connectionFlowController \<Rightarrow> recv_world" where
  "newRecvWorld sid c conn = \<lparr>rw_read = \<lparr>rd_stream = newReceiveStream sid, rd_fc = c, rd_conn = conn, rd_events = [], rd_called = []\<rparr>, rw_results = []\<rparr>"

fun rs_op_ok :: "(nat \<Rightarrow> byte) \<Rightarrow> rs_op \<Rightarrow> bool" where
  "rs_op_ok content (RsFrame f cb now) \<longleftrightarrow> piece content (sf_Offset f) (sf_Data f)"
| "rs_op_ok content (RsReset f now) \<longleftrightarrow> unat (rsf_ByteOffset f) < unat MaxByteCount"
| "rs_op_ok content (RsShutdown err) \<longleftrightarrow> err \<noteq> Some (ErrGo io_EOF)"
| "rs_op_ok content _ \<longleftrightarrow> True"

text \<open>Everything that was read, and whether a call reported the end of the stream.\<close>

definition delivered :: "recv_world \<Rightarrow> byte list" where
  "delivered w = concat (map fst (rw_results w))"

definition sawEOF :: "recv_world \<Rightarrow> bool" where
  "sawEOF w \<longleftrightarrow> Some (ErrGo io_EOF) \<in> snd ` set (rw_results w)"

definition world_inv :: "(nat \<Rightarrow> byte) \<Rightarrow> recv_world \<Rightarrow> bool" where
  "world_inv content w \<longleftrightarrow> recv_inv content (rw_read w) \<and>
     delivered w = map content [0 ..< unat (rs_readOffset (rd_stream (rw_read w)))] \<and>
     (sawEOF w \<longrightarrow> finRead (rd_stream (rw_read w)))"

lemma CancelRead_inv:
  assumes "recv_inv content r"
  shows "recv_inv content (CancelRead r code now) \<and> rs_readOffset (rd_stream (CancelRead r code now)) = rs_readOffset (rd_stream r) \<and>
    finRead (rd_stream (CancelRead r code now)) = finRead (rd_stream r)"
proof -
  obtain b r1 where c: "cancelReadImpl r code = (b, r1)" by fastforce
  have "recv_inv content r1 \<and> rs_readOffset (rd_stream r1) = rs_readOffset (rd_stream r) \<and> finRead (rd_stream r1) = finRead (rd_stream r)"
    using assms c by (auto simp: cancelReadImpl_def Let_def recv_inv_def position_ok_def offsets_ok_def errs_ok_def unread_def frameLen_def signalRead_def split: if_splits)
  then show ?thesis using streamCompleted_inv [of content r1 now] c by (simp add: CancelRead_def)
qed

lemma rs_getWindowUpdate_inv:
  assumes "recv_inv content r"
  shows "recv_inv content (snd (rs_getWindowUpdate r rtt now)) \<and> rd_stream (snd (rs_getWindowUpdate r rtt now)) = rd_stream r"
  using assms
  by (auto simp: rs_getWindowUpdate_def stream_GetWindowUpdate_def getWindowUpdate_def maybeAdjustWindowSize_def startNewAutoTuningEpoch_def Let_def
      recv_inv_def offsets_ok_def split: prod.splits if_splits)

lemma returned_inv:
  assumes w: "world_inv content w" and out: "read_outcome content (rd_stream (rw_read w)) (unat (rs_readOffset (rd_stream (rw_read w)))) [] res r'"
  shows "world_inv content (returned w (Read_done (res, r') now))"
proof (cases res)
  case RWait
  then show ?thesis using w out by (simp add: Read_done_def returned_def world_inv_def delivered_def sawEOF_def read_outcome_def)
next
  case (RReturn completed g err)
  let ?r = "if completed then rs_streamCompleted r' now else r'"
  have r: "recv_inv content ?r" "rd_stream ?r = rd_stream r'" using out streamCompleted_inv [of content r' now] by (auto simp: read_outcome_def)
  have "delivered (returned w (Read_done (res, r') now)) = delivered w @ g"
    "sawEOF (returned w (Read_done (res, r') now)) \<longleftrightarrow> sawEOF w \<or> err = Some (ErrGo io_EOF)"
    by (auto simp: RReturn Read_done_def returned_def delivered_def sawEOF_def)
  moreover have "rw_read (returned w (Read_done (res, r') now)) = ?r" by (simp add: RReturn Read_done_def returned_def)
  ultimately show ?thesis using w out r unfolding world_inv_def
    by (auto simp: read_outcome_def RReturn map_upt_append split: if_splits)
qed

lemma rs_step_inv:
  assumes w: "world_inv content w" and ok: "rs_op_ok content op" and step: "rs_step w op = Inr w'"
  shows "world_inv content w'"
proof -
  let ?r = "rw_read w"
  have inv: "recv_inv content ?r" using w by (simp add: world_inv_def)
  have keep: "world_inv content (w\<lparr>rw_read := r\<rparr>)" if "recv_inv content r" "rs_readOffset (rd_stream r) = rs_readOffset (rd_stream ?r)"
    "finRead (rd_stream r) = finRead (rd_stream ?r)" for r
    using w that by (simp add: world_inv_def delivered_def sawEOF_def)
  show ?thesis
  proof (cases op)
    case (RsFrame f cb now)
    then obtain r where "rs_handleStreamFrame ?r f cb now = (None, r)" "w' = w\<lparr>rw_read := r\<rparr>" using step by (auto split: prod.splits option.splits)
    then show ?thesis using rs_handleStreamFrame_inv [OF inv] ok RsFrame keep by simp
  next
    case (RsReset f now)
    then obtain r where "rs_handleResetStreamFrame ?r f now = (None, r)" "w' = w\<lparr>rw_read := r\<rparr>" using step by (auto split: prod.splits option.splits)
    then show ?thesis using rs_handleResetStreamFrame_inv [OF inv] ok RsReset keep by simp
  next
    case (RsRead n clock now)
    obtain res r where run: "readImpl ?r n clock = (res, r)" by fastforce
    have w': "w' = returned w (Read_done (res, r) now)" using step RsRead run by (simp add: Read_def)
    from readImpl_correct [OF inv run] show ?thesis
    proof
      assume "read_outcome content (rd_stream ?r) (unat (rs_readOffset (rd_stream ?r))) [] res r"
      then show ?thesis unfolding w' by (rule returned_inv [OF w])
    next
      assume "finRead (rd_stream ?r) \<and> res = RReturn False [] (Some (ErrGo io_EOF)) \<and> r = ?r"
      then show ?thesis using w by (simp add: w' Read_done_def returned_def world_inv_def delivered_def)
    qed
  next
    case (RsResume n clock now)
    obtain res r where run: "readImpl_resume ?r n clock = (res, r)" by fastforce
    then show ?thesis using step RsResume returned_inv [OF w readImpl_resume_correct [OF inv run]] by (auto simp: Read_resume_def)
  next
    case (RsCancel code now)
    then show ?thesis using step CancelRead_inv [OF inv, of code now] keep by auto
  next
    case (RsDeadline t)
    then show ?thesis using step inv keep [of "?r\<lparr>rd_stream := SetReadDeadline (rd_stream ?r) t\<rparr>"]
      by (auto simp: SetReadDeadline_def signalRead_def recv_inv_def position_ok_def offsets_ok_def errs_ok_def unread_def frameLen_def)
  next
    case (RsShutdown err)
    then show ?thesis using step inv ok keep [of "?r\<lparr>rd_stream := rs_closeForShutdown (rd_stream ?r) err\<rparr>"]
      by (auto simp: rs_closeForShutdown_def signalRead_def recv_inv_def position_ok_def offsets_ok_def errs_ok_def unread_def frameLen_def)
  next
    case (RsWindowUpdate rtt now)
    then show ?thesis using step rs_getWindowUpdate_inv [OF inv, of rtt now] keep by auto
  qed
qed

lemma rs_run_inv:
  "world_inv content w \<Longrightarrow> \<forall>op \<in> set ops. rs_op_ok content op \<Longrightarrow> rs_run w ops = Inr w' \<Longrightarrow> world_inv content w'"
proof (induction ops arbitrary: w)
  case (Cons op ops)
  obtain w1 where w1: "rs_step w op = Inr w1" "rs_run w1 ops = Inr w'" using Cons.prems(3) by (cases "rs_step w op") auto
  have "world_inv content w1" by (rule rs_step_inv [OF Cons.prems(1) _ w1(1)]) (use Cons.prems(2) in simp)
  then show ?case using Cons.IH [OF _ _ w1(2)] Cons.prems(2) by simp
qed simp

definition fresh :: "streamFlowController \<Rightarrow> bool" where
  "fresh c \<longleftrightarrow> bytesRead c = 0 \<and> highestReceived c = 0 \<and> \<not> receivedFinalOffset c"

lemma newRecvWorld_inv: "fresh c \<Longrightarrow> world_inv content (newRecvWorld sid c conn)"
  by (simp add: fresh_def world_inv_def newRecvWorld_def newReceiveStream_def recv_inv_def position_ok_def offsets_ok_def errs_ok_def unread_def frameLen_def
      newFrameSorter_inv delivered_def sawEOF_def lessThan_atLeast0 unat_MaxByteCount)

text \<open>Errors are never panics.\<close>

lemma UpdateHighestReceived_err: "UpdateHighestReceived c conn offset fin = (cc, Some err) \<Longrightarrow> err \<noteq> Panic m"
  by (auto simp: UpdateHighestReceived_def IncrementHighestReceived_def qerr_Error_def Let_def split: if_splits prod.splits)

lemma rs_step_err:
  assumes w: "world_inv content w" and ok: "rs_op_ok content op" and step: "rs_step w op = Inl err"
  shows "err \<noteq> Panic m"
proof (cases op)
  case (RsFrame f cb now)
  have inv: "sorter_inv content (frameQueue (rd_stream (rw_read w)))" using w by (simp add: world_inv_def recv_inv_def position_ok_def)
  obtain err2 q cbs where push: "sorter_Push (frameQueue (rd_stream (rw_read w))) (sf_Data f) (sf_Offset f) (Some cb) = (err2, q, cbs)" by (metis prod.collapse)
  have "err2 = None \<or> err2 = Some errTooManyGaps" using sorter_Push_correct [OF inv, of "sf_Offset f" "sf_Data f" "Some cb"] ok RsFrame push by auto
  then show ?thesis using step RsFrame push
    by (auto simp: rs_handleStreamFrame_def handleStreamFrameImpl_def Let_def errTooManyGaps_def
        split: prod.splits option.splits if_splits dest: UpdateHighestReceived_err)
next
  case (RsReset f now)
  then show ?thesis using step
    by (auto simp: rs_handleResetStreamFrame_def handleResetStreamFrameImpl_def Let_def
        split: prod.splits option.splits if_splits dest: UpdateHighestReceived_err)
qed (use step in simp_all)

lemma rs_run_err:
  "world_inv content w \<Longrightarrow> \<forall>op \<in> set ops. rs_op_ok content op \<Longrightarrow> rs_run w ops = Inl err \<Longrightarrow> err \<noteq> Panic m"
proof (induction ops arbitrary: w)
  case (Cons op ops)
  show ?case
  proof (cases "rs_step w op")
    case (Inl e)
    then show ?thesis using rs_step_err [OF Cons.prems(1) _ Inl] Cons.prems(2,3) by auto
  next
    case (Inr w1)
    have "world_inv content w1" by (rule rs_step_inv [OF Cons.prems(1) _ Inr]) (use Cons.prems(2) in simp)
    then show ?thesis using Cons.IH [of w1] Cons.prems(2,3) Inr by simp
  qed
qed simp


definition frame_of :: "ByteCount \<Rightarrow> byte list \<Rightarrow> bool \<Rightarrow> StreamFrame" where
  "frame_of offset d fin = \<lparr>sf_StreamID = 4, sf_Offset = offset, sf_Data = d, sf_cap = 1452, sf_FinBit = fin, sf_DataLenPresent = True, sf_fromPool = True\<rparr>"

definition recv_demo_ops :: "rs_op list" where
  "recv_demo_ops = [RsRead 3 (\<lambda>_. 0) 0, RsFrame (frame_of 2 [2, 3] True) 1 0, RsFrame (frame_of 0 [0, 1, 2] False) 2 0, RsResume 3 (\<lambda>_. 0) 0, RsRead 3 (\<lambda>_. 0) 0]"

definition recv_demo :: "go_error + recv_world" where
  "recv_demo = rs_run (newRecvWorld 4 (NewStreamFlowController 4 100 100 0) (NewConnectionFlowController 100 100)) recv_demo_ops"

lemma recv_demo_eval: "case recv_demo of Inr w \<Rightarrow> rw_results w = [([0, 1, 2], None), ([3], Some (ErrGo io_EOF))] | Inl _ \<Rightarrow> False"
  by code_simp


text \<open>The final offset is the one of the frames that have the FIN bit.\<close>

fun fin_at :: "ByteCount \<Rightarrow> rs_op \<Rightarrow> bool" where
  "fin_at N (RsFrame f cb now) \<longleftrightarrow> (sf_FinBit f \<longrightarrow> sf_Offset f + StreamFrame_DataLen f = N)"
| "fin_at N (RsReset f now) \<longleftrightarrow> False"
| "fin_at N _ \<longleftrightarrow> True"

lemma completed_stream [simp]: "rd_stream (rs_streamCompleted r now) = rd_stream r"
  by (simp add: rs_streamCompleted_def Let_def split: prod.split)

lemma Read_done_stream: "rd_stream (snd (Read_done (res, r) now)) = rd_stream r"
  by (simp add: Read_done_def split: read_result.split)

lemma rs_step_final:
  assumes w: "world_inv content w" and fin: "fin_at N op" and step: "rs_step w op = Inr w'"
  shows "finalOffset (rd_stream (rw_read w')) \<in> {finalOffset (rd_stream (rw_read w)), N}"
proof -
  let ?r = "rw_read w"
  have inv: "recv_inv content ?r" using w by (simp add: world_inv_def)
  show ?thesis
  proof (cases op)
    case (RsFrame f cb now)
    then show ?thesis using step fin
      by (auto simp: rs_handleStreamFrame_def handleStreamFrameImpl_def Let_def signalRead_def split: prod.splits option.splits if_splits)
  next
    case (RsRead n clock now)
    obtain res r where run: "readImpl ?r n clock = (res, r)" by fastforce
    have "rd_stream (rw_read w') = rd_stream r" using step RsRead run Read_done_stream by (auto simp: Read_def returned_def)
    then show ?thesis using readImpl_correct [OF inv run] by (auto simp: read_outcome_def same_stream_def)
  next
    case (RsResume n clock now)
    obtain res r where run: "readImpl_resume ?r n clock = (res, r)" by fastforce
    have "rd_stream (rw_read w') = rd_stream r" using step RsResume run Read_done_stream by (auto simp: Read_resume_def returned_def)
    then show ?thesis using readImpl_resume_correct [OF inv run] by (auto simp: read_outcome_def same_stream_def)
  next
    case (RsCancel code now)
    then show ?thesis using step by (auto simp: CancelRead_def cancelReadImpl_def Let_def signalRead_def)
  next
    case (RsWindowUpdate rtt now)
    then show ?thesis using step by (auto simp: rs_getWindowUpdate_def split: prod.splits)
  qed (use step fin in \<open>auto simp: SetReadDeadline_def rs_closeForShutdown_def signalRead_def\<close>)
qed

lemma rs_run_final:
  "world_inv content w \<Longrightarrow> \<forall>op \<in> set ops. rs_op_ok content op \<and> fin_at N op \<Longrightarrow> rs_run w ops = Inr w' \<Longrightarrow>
    finalOffset (rd_stream (rw_read w')) \<in> {finalOffset (rd_stream (rw_read w)), N}"
proof (induction ops arbitrary: w)
  case (Cons op ops)
  obtain w1 where w1: "rs_step w op = Inr w1" "rs_run w1 ops = Inr w'" using Cons.prems(3) by (cases "rs_step w op") auto
  have inv: "world_inv content w1" by (rule rs_step_inv [OF Cons.prems(1) _ w1(1)]) (use Cons.prems(2) in simp)
  then show ?case using Cons.IH [OF inv _ w1(2)] rs_step_final [OF Cons.prems(1) _ w1(1), of N] Cons.prems(2) by auto
qed simp

lemma world_inv_eof:
  assumes "world_inv content w" and "sawEOF w" and "finalOffset (rd_stream (rw_read w)) \<in> {MaxByteCount, N}"
  shows "length (delivered w) = unat N"
  using assms by (auto simp: world_inv_def recv_inv_def position_ok_def offsets_ok_def)


section \<open>The two halves\<close>

record stream =
  st_recv :: receiveStream
  st_send :: sendStream
  receiveStreamCompleted :: bool
  sendStreamCompleted :: bool

definition newStream :: "StreamID \<Rightarrow> stream" where
  "newStream sid = \<lparr>st_recv = newReceiveStream sid, st_send = newSendStream sid, receiveStreamCompleted = False, sendStreamCompleted = False\<rparr>"

definition st_StreamID :: "stream \<Rightarrow> StreamID" where
  "st_StreamID s = ss_streamID (st_send s)"

definition checkIfCompleted :: "stream \<Rightarrow> stream_event list" where
  "checkIfCompleted s = (if sendStreamCompleted s \<and> receiveStreamCompleted s then [OnStreamCompleted (st_StreamID s)] else [])"

text \<open>The \<open>uniStreamSender\<close> of each half: all events are passed on, except completion.\<close>

fun senderForSendStream :: "stream \<Rightarrow> stream_event list \<Rightarrow> stream \<times> stream_event list" where
  "senderForSendStream s [] = (s, [])"
| "senderForSendStream s (OnStreamCompleted _ # es) =
    (let s = s\<lparr>sendStreamCompleted := True\<rparr>; done = checkIfCompleted s; (s, out) = senderForSendStream s es in (s, done @ out))"
| "senderForSendStream s (e # es) = (let (s, out) = senderForSendStream s es in (s, e # out))"

fun senderForReceiveStream :: "stream \<Rightarrow> stream_event list \<Rightarrow> stream \<times> stream_event list" where
  "senderForReceiveStream s [] = (s, [])"
| "senderForReceiveStream s (OnStreamCompleted _ # es) =
    (let s = s\<lparr>receiveStreamCompleted := True\<rparr>; done = checkIfCompleted s; (s, out) = senderForReceiveStream s es in (s, done @ out))"
| "senderForReceiveStream s (e # es) = (let (s, out) = senderForReceiveStream s es in (s, e # out))"

definition stream_Close :: "stream \<Rightarrow> stream_error option \<times> stream \<times> stream_event list" where
  "stream_Close s =
    (case ss_Close (st_send s) of (err, h, es) \<Rightarrow>
     case senderForSendStream (s\<lparr>st_send := h\<rparr>) es of (s, out) \<Rightarrow> (err, s, out))"

definition SetDeadline :: "stream \<Rightarrow> Time \<Rightarrow> stream" where
  "SetDeadline s t = (let s = s\<lparr>st_recv := SetReadDeadline (st_recv s) t\<rparr> in s\<lparr>st_send := SetWriteDeadline (st_send s) t\<rparr>)"

definition stream_closeForShutdown :: "stream \<Rightarrow> stream_error option \<Rightarrow> stream" where
  "stream_closeForShutdown s err =
    (let s = s\<lparr>st_send := ss_closeForShutdown (st_send s) err\<rparr> in s\<lparr>st_recv := rs_closeForShutdown (st_recv s) err\<rparr>)"

text \<open>Operations that \<open>stream\<close> takes from its halves, in terms of the state of the half and the flow controllers.\<close>

definition on_receive :: "stream \<Rightarrow> streamFlowController \<Rightarrow> connectionFlowController \<Rightarrow> (reading \<Rightarrow> 'a \<times> reading) \<Rightarrow>
    'a \<times> stream \<times> streamFlowController \<times> connectionFlowController \<times> stream_event list" where
  "on_receive s c conn f =
    (case f \<lparr>rd_stream = st_recv s, rd_fc = c, rd_conn = conn, rd_events = [], rd_called = []\<rparr> of (x, r) \<Rightarrow>
     case senderForReceiveStream (s\<lparr>st_recv := rd_stream r\<rparr>) (rd_events r) of (s, es) \<Rightarrow> (x, s, rd_fc r, rd_conn r, es))"

definition stream_handleResetStreamFrame :: "stream \<Rightarrow> streamFlowController \<Rightarrow> connectionFlowController \<Rightarrow> ResetStreamFrame \<Rightarrow> Time \<Rightarrow>
    go_error option \<times> stream \<times> streamFlowController \<times> connectionFlowController \<times> stream_event list" where
  "stream_handleResetStreamFrame s c conn frame now = on_receive s c conn (\<lambda>r. rs_handleResetStreamFrame r frame now)"

definition on_send :: "stream \<Rightarrow> 'a \<times> sendStream \<times> stream_event list \<Rightarrow> 'a \<times> stream \<times> stream_event list" where
  "on_send s res = (case res of (x, h, es) \<Rightarrow> case senderForSendStream (s\<lparr>st_send := h\<rparr>) es of (s, out) \<Rightarrow> (x, s, out))"

end
