(* ===== verification/WireHeader.thy ===== *)
theory WireHeader
  imports FrameParser
begin

text \<open>
  Packet headers: \<open>wire/header.go\<close>, \<open>wire/extended_header.go\<close> and \<open>wire/version_negotiation.go\<close>, with the packet types of
  \<open>protocol.go\<close> and the key phase bit of \<open>key_phase.go\<close>. Go embeds \<open>Header\<close> in \<open>ExtendedHeader\<close>; here the record
  \<open>ExtendedHeader\<close> extends the record \<open>Header\<close>. Random bytes are arguments.

  The lemmas show that every header that is written is parsed back, that \<open>GetLength\<close> is the number of bytes written, and
  that the parsers cut any datagram into a packet and a rest without a panic.
\<close>

section \<open>Types\<close>

datatype PacketType = PacketTypeNone | PacketTypeInitial | PacketTypeRetry | PacketTypeHandshake | PacketType0RTT

fun PacketType_String :: "PacketType \<Rightarrow> message" where
  "PacketType_String PacketTypeInitial = (''Initial'', [])"
| "PacketType_String PacketTypeRetry = (''Retry'', [])"
| "PacketType_String PacketTypeHandshake = (''Handshake'', [])"
| "PacketType_String PacketType0RTT = (''0-RTT Protected'', [])"
| "PacketType_String PacketTypeNone = (''unknown packet type: %d'', [0])"

type_synonym KeyPhaseBit = bool

definition KeyPhaseZero :: KeyPhaseBit where "KeyPhaseZero = False"
definition KeyPhaseOne :: KeyPhaseBit where "KeyPhaseOne = True"

definition KeyPhase_Bit :: "u64 \<Rightarrow> KeyPhaseBit" where
  "KeyPhase_Bit p = (p mod 2 = 1)"

record Header =
  IsLongHeader :: bool
  h_typeByte :: byte
  h_Type :: PacketType
  h_Version :: VersionNumber
  SrcConnectionID :: ConnectionID
  DestConnectionID :: ConnectionID
  h_Length :: ByteCount
  h_Token :: "byte list"
  h_SupportedVersions :: "VersionNumber list"
  OrigDestConnectionID :: ConnectionID
  parsedLen :: ByteCount

definition zeroHeader :: Header where
  "zeroHeader = \<lparr>IsLongHeader = False, h_typeByte = 0, h_Type = PacketTypeNone, h_Version = 0, SrcConnectionID = [],
    DestConnectionID = [], h_Length = 0, h_Token = [], h_SupportedVersions = [], OrigDestConnectionID = [], parsedLen = 0\<rparr>"

record ExtendedHeader = Header +
  eh_typeByte :: byte
  KeyPhase :: KeyPhaseBit
  eh_PacketNumberLen :: PacketNumberLen
  eh_PacketNumber :: PacketNumber

section \<open>The invariant part\<close>

definition ParseConnectionID :: "byte list \<Rightarrow> nat \<Rightarrow> go_error + ConnectionID" where
  "ParseConnectionID data shortHeaderConnIDLen =
    (if length data = 0 then Inl io_EOF
     else if \<not> data ! 0 AND 0x80 > 0 then
       if length data < shortHeaderConnIDLen + 1 then Inl io_EOF
       else Inr (take shortHeaderConnIDLen (drop 1 data))
     else if length data < 6 then Inl io_EOF
     else
       let destConnIDLen = unat (data ! 5) in
       if length data < 6 + destConnIDLen then Inl io_EOF
       else Inr (take destConnIDLen (drop 6 data)))"

definition IsVersionNegotiationPacket :: "byte list \<Rightarrow> bool" where
  "IsVersionNegotiationPacket b \<longleftrightarrow>
    \<not> length b < 5 \<and> b ! 0 AND 0x80 > 0 \<and> b ! 1 = 0 \<and> b ! 2 = 0 \<and> b ! 3 = 0 \<and> b ! 4 = 0"

section \<open>Parsing\<close>

definition errUnsupportedVersion :: go_error where
  "errUnsupportedVersion = Errorf (''unsupported version'', [])"

text \<open>A method that fails leaves the header the way it was filled so far: the error comes with the header.\<close>

type_synonym header_parse = "(Header \<times> go_error) + Header \<times> reader"

definition withH :: "Header \<Rightarrow> go_error + 'a \<Rightarrow> (Header \<times> go_error) + 'a" where
  "withH h m = (case m of Inl e \<Rightarrow> Inl (h, e) | Inr x \<Rightarrow> Inr x)"

definition parseShortHeader :: "Header \<Rightarrow> reader \<Rightarrow> nat \<Rightarrow> header_parse" where
  "parseShortHeader h b shortHeaderConnIDLen =
    tryE (withH h (ReadConnectionID b shortHeaderConnIDLen)) (\<lambda>(c, b). Inr (h\<lparr>DestConnectionID := c\<rparr>, b))"

lemma ReadUint32_shorter: "ReadUint32 b = Inr (v, b') \<Longrightarrow> length b = length b' + 4"
  by (auto simp: ReadUint32_def tryE_eq_Inr ReadByte_eq_Inr)

text \<open>The loop ends when the reader is empty; the list has one place for every four bytes.\<close>

function readVersions :: "VersionNumber list \<Rightarrow> reader \<Rightarrow> VersionNumber list parse" where
  "readVersions vs b =
    (if length b > 0 then tryE (ReadUint32 b) (\<lambda>(v, b). readVersions (vs @ [v]) b) else Inr (vs, b))"
  by pat_completeness auto
termination
  by (relation "measure (\<lambda>(_, b). length b)") (auto dest: ReadUint32_shorter)

declare readVersions.simps [simp del]

definition parseVersionNegotiationPacket :: "Header \<Rightarrow> reader \<Rightarrow> header_parse" where
  "parseVersionNegotiationPacket h b =
    (if length b = 0 then Inl (h, Errorf (''Version Negotiation packet has empty version list'', []))
     else if length b mod 4 \<noteq> 0 then Inl (h, Errorf (''Version Negotiation packet has a version list with an invalid length'', []))
     else tryE (withH h (readVersions [] b)) (\<lambda>(vs, b). Inr (h\<lparr>h_SupportedVersions := vs\<rparr>, b)))"

definition longHeaderType :: "byte \<Rightarrow> PacketType" where
  "longHeaderType typeByte =
    (let t = drop_bit 4 (typeByte AND 0x30)
     in if t = 0 then PacketTypeInitial else if t = 1 then PacketType0RTT else if t = 2 then PacketTypeHandshake
        else if t = 3 then PacketTypeRetry else PacketTypeNone)"

definition parseRetry :: "Header \<Rightarrow> reader \<Rightarrow> header_parse" where
  "parseRetry h b =
    tryE (withH h (ReadByte b)) (\<lambda>(origDestConnIDLen, b).
    tryE (withH h (ReadConnectionID b (unat origDestConnIDLen))) (\<lambda>(c, b).
    let h = h\<lparr>OrigDestConnectionID := c\<rparr> in
    tryE (withH h (ReadFull (length b) b)) (\<lambda>(token, b). Inr (h\<lparr>h_Token := token\<rparr>, b))))"

definition parseToken :: "Header \<Rightarrow> reader \<Rightarrow> header_parse" where
  "parseToken h b =
    (if h_Type h = PacketTypeInitial then
       tryE (withH h (ReadVarInt b)) (\<lambda>(tokenLen, b).
       if tokenLen > word_of_nat (length b) then Inl (h, io_EOF)
       else tryE (withH h (ReadFull (unat tokenLen) b)) (\<lambda>(token, b). Inr (h\<lparr>h_Token := token\<rparr>, b)))
     else Inr (h, b))"

definition parseVersionDependent :: "Header \<Rightarrow> reader \<Rightarrow> header_parse" where
  "parseVersionDependent h b =
    (if h_Version h = 0 then parseVersionNegotiationPacket h b
     else if \<not> IsSupportedVersion SupportedVersions (h_Version h) then Inl (h, errUnsupportedVersion)
     else
       let h = h\<lparr>h_Type := longHeaderType (h_typeByte h)\<rparr> in
       if h_Type h = PacketTypeRetry then parseRetry h b
       else
         tryE (parseToken h b) (\<lambda>(h, b).
         tryE (withH h (ReadVarInt b)) (\<lambda>(pl, b). Inr (h\<lparr>h_Length := pl\<rparr>, b))))"

definition parseLongHeader :: "Header \<Rightarrow> reader \<Rightarrow> header_parse" where
  "parseLongHeader h b =
    tryE (withH h (ReadUint32 b)) (\<lambda>(v, b).
    let h = h\<lparr>h_Version := v\<rparr> in
    if h_Version h \<noteq> 0 \<and> h_typeByte h AND 0x40 = 0 then Inl (h, Errorf (''not a QUIC packet'', []))
    else
      tryE (withH h (ReadByte b)) (\<lambda>(destConnIDLen, b).
      tryE (withH h (ReadConnectionID b (unat destConnIDLen))) (\<lambda>(dest, b).
      let h = h\<lparr>DestConnectionID := dest\<rparr> in
      tryE (withH h (ReadByte b)) (\<lambda>(srcConnIDLen, b).
      tryE (withH h (ReadConnectionID b (unat srcConnIDLen))) (\<lambda>(src, b).
      parseVersionDependent (h\<lparr>SrcConnectionID := src\<rparr>) b)))))"

text \<open>\<open>nil\<close> in place of the header is the zero header; its reader tests the error first.\<close>

definition parseHeaderImpl :: "reader \<Rightarrow> nat \<Rightarrow> header_parse" where
  "parseHeaderImpl b shortHeaderConnIDLen =
    tryE (withH zeroHeader (ReadByte b)) (\<lambda>(typeByte, b).
    let h = zeroHeader\<lparr>h_typeByte := typeByte, IsLongHeader := typeByte AND 0x80 > 0\<rparr> in
    if \<not> IsLongHeader h then
      if h_typeByte h AND 0x40 = 0 then Inl (zeroHeader, Errorf (''not a QUIC packet'', []))
      else (case parseShortHeader h b shortHeaderConnIDLen of Inl (_, e) \<Rightarrow> Inl (zeroHeader, e) | Inr x \<Rightarrow> Inr x)
    else parseLongHeader h b)"

definition parseHeader :: "reader \<Rightarrow> nat \<Rightarrow> header_parse" where
  "parseHeader b shortHeaderConnIDLen =
    tryE (parseHeaderImpl b shortHeaderConnIDLen) (\<lambda>(h, b').
    Inr (h\<lparr>parsedLen := word_of_nat (length b - length b')\<rparr>, b'))"

definition ParsedLen :: "'a Header_scheme \<Rightarrow> ByteCount" where
  "ParsedLen h = parsedLen h"

definition ParsePacket :: "byte list \<Rightarrow> nat \<Rightarrow> go_error + Header \<times> byte list \<times> byte list" where
  "ParsePacket data shortHeaderConnIDLen =
    (case parseHeader data shortHeaderConnIDLen of
       Inl (hdr, err) \<Rightarrow> if err = errUnsupportedVersion then Inr (hdr, [], []) else Inl err
     | Inr (hdr, _) \<Rightarrow>
         if IsLongHeader hdr then
           if word_of_nat (length data) < ParsedLen hdr + h_Length hdr then
             Inl (Errorf (''packet length (%d bytes) is smaller than the expected length (%d bytes)'',
               [i64 (int (length data) - int64_of (ParsedLen hdr)), uint (h_Length hdr)]))
           else
             let packetLen = int64_of (ParsedLen hdr + h_Length hdr) in
             if packetLen < 0 \<or> int (length data) < packetLen then Inl (Panic (''slice bounds out of range [%d:]'', [packetLen]))
             else Inr (hdr, take (nat packetLen) data, drop (nat packetLen) data)
         else Inr (hdr, data, []))"

section \<open>The extended header\<close>

definition ErrInvalidReservedBits :: go_error where
  "ErrInvalidReservedBits = Errorf (''invalid reserved bits'', [])"

definition toExtendedHeader :: "Header \<Rightarrow> ExtendedHeader" where
  "toExtendedHeader h = Header.extend h \<lparr>eh_typeByte = 0, KeyPhase = KeyPhaseZero, eh_PacketNumberLen = 0, eh_PacketNumber = 0\<rparr>"

definition readPacketNumber :: "ExtendedHeader \<Rightarrow> reader \<Rightarrow> ExtendedHeader parse" where
  "readPacketNumber h b =
    (let h = h\<lparr>eh_PacketNumberLen := (eh_typeByte h AND 0x3) + 1\<rparr>; l = eh_PacketNumberLen h
     in if l = 1 then tryE (ReadByte b) (\<lambda>(n, b). Inr (h\<lparr>eh_PacketNumber := uint n\<rparr>, b))
        else if l = 2 then tryE (ReadUint16 b) (\<lambda>(n, b). Inr (h\<lparr>eh_PacketNumber := uint n\<rparr>, b))
        else if l = 3 then tryE (ReadUint24 b) (\<lambda>(n, b). Inr (h\<lparr>eh_PacketNumber := uint n\<rparr>, b))
        else if l = 4 then tryE (ReadUint32 b) (\<lambda>(n, b). Inr (h\<lparr>eh_PacketNumber := uint n\<rparr>, b))
        else Inl (Errorf (''invalid packet number length: %d'', [uint l])))"

text \<open>Header and error are both returned when the reserved bits are set.\<close>

type_synonym extended_parse = "go_error + (ExtendedHeader \<times> go_error option) \<times> reader"

definition eh_parseLongHeader :: "ExtendedHeader \<Rightarrow> reader \<Rightarrow> extended_parse" where
  "eh_parseLongHeader h b =
    tryE (readPacketNumber h b) (\<lambda>(h, b). Inr ((h, if eh_typeByte h AND 0xc \<noteq> 0 then Some ErrInvalidReservedBits else None), b))"

definition eh_parseShortHeader :: "ExtendedHeader \<Rightarrow> reader \<Rightarrow> extended_parse" where
  "eh_parseShortHeader h b =
    (let h = h\<lparr>KeyPhase := if eh_typeByte h AND 0x4 > 0 then KeyPhaseOne else KeyPhaseZero\<rparr>
     in tryE (readPacketNumber h b) (\<lambda>(h, b). Inr ((h, if eh_typeByte h AND 0x18 \<noteq> 0 then Some ErrInvalidReservedBits else None), b)))"

text \<open>\<open>data\<close>: the bytes of the packet, with the reader at their start. \<open>Seek\<close> may go past the end, but not before the start.\<close>

definition eh_parse :: "ExtendedHeader \<Rightarrow> byte list \<Rightarrow> extended_parse" where
  "eh_parse h data =
    tryE (ReadByte data) (\<lambda>(t, _).
    let h = h\<lparr>eh_typeByte := t\<rparr>; abs = i64 (1 + i64 (int64_of (ParsedLen h) - 1)) in
    if abs < 0 then Inl (Errorf (''bytes.Reader.Seek: negative position'', []))
    else
      let b = drop (nat abs) data
      in if IsLongHeader h then eh_parseLongHeader h b else eh_parseShortHeader h b)"

definition ParseExtended :: "Header \<Rightarrow> byte list \<Rightarrow> extended_parse" where
  "ParseExtended h data = eh_parse (toExtendedHeader h) data"

section \<open>Writing\<close>

definition writePacketNumber :: "byte list \<Rightarrow> 'a ExtendedHeader_scheme \<Rightarrow> go_error + byte list" where
  "writePacketNumber b h =
    (let l = eh_PacketNumberLen h in
     if l = 1 then Inr (b @ [word_of_int (eh_PacketNumber h)])
     else if l = 2 then Inr (WriteUint16 b (word_of_int (eh_PacketNumber h)))
     else if l = 3 then Inr (WriteUint24 b (word_of_int (eh_PacketNumber h)))
     else if l = 4 then Inr (WriteUint32 b (word_of_int (eh_PacketNumber h)))
     else Inl (Errorf (''invalid packet number length: %d'', [uint l])))"

fun packetTypeBits :: "PacketType \<Rightarrow> byte" where
  "packetTypeBits PacketTypeInitial = 0x0"
| "packetTypeBits PacketType0RTT = 0x1"
| "packetTypeBits PacketTypeHandshake = 0x2"
| "packetTypeBits PacketTypeRetry = 0x3"
| "packetTypeBits PacketTypeNone = 0"

definition writeLongHeader :: "byte list \<Rightarrow> 'a ExtendedHeader_scheme \<Rightarrow> go_error + byte list" where
  "writeLongHeader b h =
    (let firstByte = 0xc0 OR push_bit 4 (packetTypeBits (h_Type h));
         firstByte = (if h_Type h \<noteq> PacketTypeRetry then firstByte OR (eh_PacketNumberLen h - 1) else firstByte);
         b = b @ [firstByte];
         b = WriteUint32 b (h_Version h);
         b = b @ [word_of_nat (length (DestConnectionID h))] @ DestConnectionID h;
         b = b @ [word_of_nat (length (SrcConnectionID h))] @ SrcConnectionID h
     in if h_Type h = PacketTypeRetry then
          Inr (b @ [word_of_nat (length (OrigDestConnectionID h))] @ OrigDestConnectionID h @ h_Token h)
        else
          tryE (if h_Type h = PacketTypeInitial
                then tryE (WriteVarInt b (word_of_nat (length (h_Token h)))) (\<lambda>b. Inr (b @ h_Token h)) else Inr b) (\<lambda>b.
          tryE (WriteVarInt b (h_Length h)) (\<lambda>b. writePacketNumber b h)))"

definition writeShortHeader :: "byte list \<Rightarrow> 'a ExtendedHeader_scheme \<Rightarrow> go_error + byte list" where
  "writeShortHeader b h =
    (let typeByte = 0x40 OR (eh_PacketNumberLen h - 1);
         typeByte = (if KeyPhase h = KeyPhaseOne then typeByte OR push_bit 2 1 else typeByte)
     in writePacketNumber (b @ [typeByte] @ DestConnectionID h) h)"

definition invalidConnIDLen :: "ConnectionID \<Rightarrow> go_error" where
  "invalidConnIDLen c = Errorf (''invalid connection ID length: %d bytes'', [int (length c)])"

definition ExtendedHeader_Write :: "byte list \<Rightarrow> 'a ExtendedHeader_scheme \<Rightarrow> go_error + byte list" where
  "ExtendedHeader_Write b h =
    (if length (DestConnectionID h) > MaxConnIDLen then Inl (invalidConnIDLen (DestConnectionID h))
     else if length (SrcConnectionID h) > MaxConnIDLen then Inl (invalidConnIDLen (SrcConnectionID h))
     else if length (OrigDestConnectionID h) > MaxConnIDLen then Inl (invalidConnIDLen (OrigDestConnectionID h))
     else if IsLongHeader h then writeLongHeader b h
     else writeShortHeader b h)"

definition GetLength :: "'a ExtendedHeader_scheme \<Rightarrow> go_error + ByteCount" where
  "GetLength h =
    (if IsLongHeader h then
       tryE (VarIntLen (h_Length h)) (\<lambda>lenLen.
       let len = 1 + 4 + 1 + word_of_nat (length (DestConnectionID h)) + 1 + word_of_nat (length (SrcConnectionID h)) +
                 ucast (eh_PacketNumberLen h) + lenLen
       in if h_Type h = PacketTypeInitial then
            tryE (VarIntLen (word_of_nat (length (h_Token h)))) (\<lambda>tokenLenLen. Inr (len + (tokenLenLen + word_of_nat (length (h_Token h)))))
          else Inr len)
     else Inr (word_of_nat (1 + length (DestConnectionID h)) + ucast (eh_PacketNumberLen h)))"

section \<open>Version negotiation\<close>

text \<open>\<open>b0\<close>, \<open>rnd\<close>: the random bytes of \<open>GetGreasedVersions\<close>; \<open>r0\<close>: the random byte of the unused bits.\<close>

definition ComposeVersionNegotiation ::
  "byte \<Rightarrow> u32 \<Rightarrow> byte \<Rightarrow> ConnectionID \<Rightarrow> ConnectionID \<Rightarrow> VersionNumber list \<Rightarrow> byte list" where
  "ComposeVersionNegotiation b0 rnd r0 destConnID srcConnID versions =
    (let greasedVersions = GetGreasedVersions b0 rnd versions;
         buf = [r0 OR 0xc0];
         buf = WriteUint32 buf 0;
         buf = buf @ [word_of_nat (length destConnID)] @ destConnID;
         buf = buf @ [word_of_nat (length srcConnID)] @ srcConnID
     in foldl WriteUint32 buf greasedVersions)"

section \<open>Parsers that return the header with the error\<close>

lemma withH_simps [simp]: "withH h (Inl e) = Inl (h, e)" "withH h (Inr x) = Inr x"
  by (simp_all add: withH_def)

text \<open>Without the header, these are parsers like all others.\<close>

definition noH :: "header_parse \<Rightarrow> Header parse" where
  "noH m = (case m of Inl (_, e) \<Rightarrow> Inl e | Inr x \<Rightarrow> Inr x)"

lemma noH_simps:
  "noH (Inl (h, e)) = Inl e" "noH (Inr x) = Inr x" "noH (tryE (withH h m) f) = tryE m (\<lambda>x. noH (f x))"
  "noH (tryE p g) = tryE (noH p) (\<lambda>x. noH (g x))" "noH (if c then p else q) = (if c then noH p else noH q)"
  "noH (case y of (a, b) \<Rightarrow> k a b) = (case y of (a, b) \<Rightarrow> noH (k a b))"
  by (auto simp: noH_def withH_def split: sum.split prod.split)

lemma clean_ReadUint32 [clean_intros]: "clean ReadUint32"
  unfolding ReadUint32_def by (intro clean_intros)

lemma clean_ReadUint24 [clean_intros]: "clean ReadUint24"
  unfolding ReadUint24_def by (intro clean_intros)

lemma clean_readVersions [clean_intros]: "clean (readVersions vs)"
proof -
  have "\<not> panics (readVersions vs b) \<and> (\<forall>x r'. readVersions vs b = Inr (x, r') \<longrightarrow> (\<exists>bs. b = bs @ r'))" for b
  proof (induction vs b rule: readVersions.induct)
    case (1 vs b)
    have c: "clean ReadUint32" by (rule clean_ReadUint32)
    show ?case
    proof (cases "ReadUint32 b")
      case (Inl e)
      then show ?thesis using clean_not_panics [OF c, of b] by (subst readVersions.simps)+ (simp add: panics_def)
    next
      case (Inr p)
      then obtain v b' where p: "ReadUint32 b = Inr (v, b')" by (cases p) simp
      then obtain bs where "b = bs @ b'" using cleanD [OF c] by blast
      moreover have l: "0 < length b" using ReadUint32_shorter [OF p] by simp
      then have "readVersions vs b = readVersions (vs @ [v]) b'" using p by (subst readVersions.simps) simp
      ultimately show ?thesis using 1 [OF l p refl] by auto
    qed
  qed
  then show ?thesis by (simp add: clean_def)
qed

lemma clean_readRest: "clean (\<lambda>r. tryE (ReadFull (length r) r) (\<lambda>(t, r). Inr (f t, r)))"
  by (simp add: clean_def ReadFull_def)

lemma clean_parseVersionDependent: "clean (\<lambda>r. noH (parseVersionDependent h r))"
proof -
  have vn: "clean (\<lambda>r. noH (parseVersionNegotiationPacket h r))" for h
    unfolding parseVersionNegotiationPacket_def noH_simps by (intro clean_intros)
  have retry: "clean (\<lambda>r. noH (parseRetry h r))" for h
    unfolding parseRetry_def Let_def noH_simps by (intro clean_intros clean_readRest)
  have token: "clean (\<lambda>r. noH (parseToken h r))" for h
    unfolding parseToken_def Let_def noH_simps by (intro clean_intros)
  show ?thesis unfolding parseVersionDependent_def Let_def noH_simps errUnsupportedVersion_def by (intro clean_intros vn retry token)
qed

lemma clean1_parseHeader: "clean1 (\<lambda>r. noH (parseHeaderImpl r n))"
proof -
  have short: "clean (\<lambda>r. noH (case parseShortHeader h r n of Inl (_, e) \<Rightarrow> Inl (g, e) | Inr x \<Rightarrow> Inr x))" for h g
  proof -
    have "noH (case parseShortHeader h r n of Inl (_, e) \<Rightarrow> Inl (g, e) | Inr x \<Rightarrow> Inr x) = noH (parseShortHeader h r n)" for r
      by (simp add: noH_def split: sum.split prod.split)
    then show ?thesis unfolding parseShortHeader_def noH_simps by (simp only:) (intro clean_intros)
  qed
  have long: "clean (\<lambda>r. noH (parseLongHeader h r))" for h
    unfolding parseLongHeader_def Let_def noH_simps by (intro clean_intros clean_parseVersionDependent)
  show ?thesis unfolding parseHeaderImpl_def Let_def noH_simps if_distrib [of "\<lambda>x. noH (x _)"]
    by (intro clean_intros clean1_byte_first short long)
qed

section \<open>Every datagram is cut without a panic\<close>

text \<open>The header that \<open>ParsePacket\<close> looks at.\<close>

definition outcome :: "header_parse \<Rightarrow> Header \<Rightarrow> bool" where
  "outcome m h \<longleftrightarrow> (\<exists>r. m = Inr (h, r)) \<or> m = Inl (h, errUnsupportedVersion)"

lemma outcome_Inr: "outcome (Inr (h, r)) h' \<longleftrightarrow> h' = h"
  by (auto simp: outcome_def)

lemma outcome_Inl: "outcome (Inl (h, e)) h' \<longleftrightarrow> h' = h \<and> e = errUnsupportedVersion"
  by (auto simp: outcome_def)

lemma outcome_tryE: "outcome (tryE (withH g m) f) h \<longleftrightarrow> m = Inl errUnsupportedVersion \<and> h = g \<or> (\<exists>x. m = Inr x \<and> outcome (f x) h)"
  by (cases m) (auto simp: outcome_def)

lemma ReadByte_supported: "ReadByte b \<noteq> Inl errUnsupportedVersion"
  by (simp add: ReadByte_def errUnsupportedVersion_def split: list.split)

lemma ReadFull_supported: "ReadFull n b \<noteq> Inl errUnsupportedVersion"
  by (simp add: ReadFull_def errUnsupportedVersion_def)

lemma ReadConnectionID_supported: "ReadConnectionID b n \<noteq> Inl errUnsupportedVersion"
  by (auto simp: ReadConnectionID_def ReadFull_def errUnsupportedVersion_def)

lemma ReadUint32_supported: "ReadUint32 b \<noteq> Inl errUnsupportedVersion"
  by (simp add: ReadUint32_def tryE_eq_Inl ReadByte_supported split: prod.split)

lemma ReadVarInt_supported: "ReadVarInt b \<noteq> Inl errUnsupportedVersion"
  by (simp add: ReadVarInt_def Let_def tryE_eq_Inl ReadByte_supported split: prod.split)

lemma readVersions_supported: "readVersions vs b \<noteq> Inl errUnsupportedVersion"
  by (induction vs b rule: readVersions.induct) (subst readVersions.simps, simp add: tryE_eq_Inl ReadUint32_supported split: prod.split)

lemma not_QUIC_supported: "Errorf (''not a QUIC packet'', []) \<noteq> errUnsupportedVersion"
  by (simp add: errUnsupportedVersion_def)

lemmas supported = not_QUIC_supported ReadByte_supported ReadFull_supported ReadConnectionID_supported ReadUint32_supported ReadVarInt_supported readVersions_supported

lemma ReadConnectionID_InrD: "ReadConnectionID b n = Inr (c, b') \<Longrightarrow> b = c @ b' \<and> length c = n"
  by (auto simp: ReadConnectionID_def dest: ReadFull_InrD split: if_splits sum.splits)

lemma withH_eq_Inr: "withH h m = Inr x \<longleftrightarrow> m = Inr x"
  by (cases m) (simp_all add: withH_def)

text \<open>A long header has at least seven bytes: the type, the version and two length bytes.\<close>

lemma parseLongHeader_min:
  assumes "parseLongHeader h b = Inr (g, r)"
  shows "length r + 6 \<le> length b"
proof -
  obtain v b1 d b2 c1 b3 e b4 c2 b5 h' where r: "ReadUint32 b = Inr (v, b1)" "ReadByte b1 = Inr (d, b2)" "ReadConnectionID b2 (unat d) = Inr (c1, b3)"
    "ReadByte b3 = Inr (e, b4)" "ReadConnectionID b4 (unat e) = Inr (c2, b5)" "parseVersionDependent h' b5 = Inr (g, r)"
    using assms by (auto simp: parseLongHeader_def Let_def tryE_eq_Inr withH_eq_Inr split: if_splits)
  have "noH (parseVersionDependent h' b5) = Inr (g, r)" using r(6) by (simp add: noH_simps)
  from cleanD [OF clean_parseVersionDependent this] have "length r \<le> length b5" by auto
  moreover have "length b3 \<le> length b2" "length b5 \<le> length b4" using ReadConnectionID_InrD r(3,5) by fastforce+
  ultimately show ?thesis using ReadUint32_shorter [OF r(1)] r(2,4) by (auto simp: ReadByte_eq_Inr)
qed

lemmas outcome_simps = outcome_tryE outcome_Inr outcome_Inl supported

lemma parseVersionDependent_keeps:
  assumes "outcome (parseVersionDependent h b) h'"
  shows "DestConnectionID h' = DestConnectionID h \<and> IsLongHeader h' = IsLongHeader h \<and> h_Version h' = h_Version h"
proof -
  let ?same = "\<lambda>g. DestConnectionID g = DestConnectionID h \<and> IsLongHeader g = IsLongHeader h \<and> h_Version g = h_Version h"
  have vn: "outcome (parseVersionNegotiationPacket h b) h' \<Longrightarrow> ?same h'"
    by (auto simp: parseVersionNegotiationPacket_def outcome_simps split: if_splits)
  have retry: "outcome (parseRetry (h\<lparr>h_Type := t\<rparr>) b) h' \<Longrightarrow> ?same h'" for t
    by (auto simp: parseRetry_def Let_def outcome_simps)
  have length: "outcome (tryE (parseToken g b) (\<lambda>(h, b). tryE (withH h (ReadVarInt b)) (\<lambda>(pl, b). Inr (h\<lparr>h_Length := pl\<rparr>, b)))) h' \<Longrightarrow>
      DestConnectionID h' = DestConnectionID g \<and> IsLongHeader h' = IsLongHeader g \<and> h_Version h' = h_Version g" for g
    by (auto simp: parseToken_def tryE_assoc outcome_simps if_distrib [of "\<lambda>m. outcome (tryE m _) _"] split: if_splits)
  show ?thesis using assms vn retry length unfolding parseVersionDependent_def Let_def
    by (auto simp: outcome_Inl split: if_splits)
qed

lemma parseLongHeader_dest:
  assumes "outcome (parseLongHeader h b) h'"
  obtains vs l r where "b = vs @ [l] @ DestConnectionID h' @ r" "length vs = 4" "length (DestConnectionID h') = unat l" "IsLongHeader h' = IsLongHeader h"
proof -
  from assms obtain v b1 l b2 dest b3 where 1: "ReadUint32 b = Inr (v, b1)" and b: "ReadByte b1 = Inr (l, b2)" "ReadConnectionID b2 (unat l) = Inr (dest, b3)"
    and g: "DestConnectionID h' = dest" "IsLongHeader h' = IsLongHeader h"
    unfolding parseLongHeader_def Let_def
    by (auto simp: outcome_simps split: if_splits dest!: parseVersionDependent_keeps)
  obtain vs where vs: "b = vs @ b1" using cleanD [OF clean_ReadUint32 1] by blast
  then have four: "length vs = 4" using ReadUint32_shorter [OF 1] by simp
  have "b1 = [l] @ dest @ b3" "length dest = unat l" using ReadByte_InrD [OF b(1)] ReadConnectionID_InrD [OF b(2)] by simp_all
  then show ?thesis using that [of vs l b3] vs four g by simp
qed


lemma parseVersionDependent_version:
  "parseVersionDependent h b = Inr (h', r) \<Longrightarrow> h_Version h = 0 \<or> IsSupportedVersion SupportedVersions (h_Version h)"
  "parseVersionDependent h b = Inl (h', errUnsupportedVersion) \<Longrightarrow> h_Version h \<noteq> 0 \<and> \<not> IsSupportedVersion SupportedVersions (h_Version h)"
proof -
  show "parseVersionDependent h b = Inr (h', r) \<Longrightarrow> h_Version h = 0 \<or> IsSupportedVersion SupportedVersions (h_Version h)"
    by (auto simp: parseVersionDependent_def split: if_splits)
  have "parseVersionNegotiationPacket h b \<noteq> Inl (h', errUnsupportedVersion)"
    by (auto simp: parseVersionNegotiationPacket_def tryE_eq_Inl withH_def supported errUnsupportedVersion_def [symmetric] split: sum.splits)
      (simp_all add: errUnsupportedVersion_def)
  moreover have "parseRetry g b \<noteq> Inl (h', errUnsupportedVersion)" for g
    by (auto simp: parseRetry_def Let_def tryE_eq_Inl withH_def supported split: sum.splits)
  moreover have "tryE (parseToken g b) (\<lambda>(h, b). tryE (withH h (ReadVarInt b)) (\<lambda>(pl, b). Inr (h\<lparr>h_Length := pl\<rparr>, b))) \<noteq> Inl (h', errUnsupportedVersion)" for g
    by (auto simp: parseToken_def tryE_eq_Inl withH_def supported split: sum.splits if_splits) (simp_all add: errUnsupportedVersion_def)
  ultimately show "parseVersionDependent h b = Inl (h', errUnsupportedVersion) \<Longrightarrow> h_Version h \<noteq> 0 \<and> \<not> IsSupportedVersion SupportedVersions (h_Version h)"
    by (auto simp: parseVersionDependent_def Let_def split: if_splits)
qed

lemma parseVersionDependent_Length:
  assumes "outcome (parseVersionDependent h b) h'"
  shows "h_Length h' = h_Length h \<or> h_Length h' \<le> maxVarInt8"
proof -
  have vn: "outcome (parseVersionNegotiationPacket h b) h' \<Longrightarrow> h_Length h' = h_Length h"
    by (auto simp: parseVersionNegotiationPacket_def outcome_simps split: if_splits)
  have retry: "outcome (parseRetry (h\<lparr>h_Type := t\<rparr>) b) h' \<Longrightarrow> h_Length h' = h_Length h" for t
    by (auto simp: parseRetry_def Let_def outcome_simps)
  have length: "outcome (tryE (parseToken g b) (\<lambda>(h, b). tryE (withH h (ReadVarInt b)) (\<lambda>(pl, b). Inr (h\<lparr>h_Length := pl\<rparr>, b)))) h' \<Longrightarrow>
      h_Length h' = h_Length g \<or> h_Length h' \<le> maxVarInt8" for g
    by (auto simp: parseToken_def tryE_assoc outcome_simps if_distrib [of "\<lambda>m. outcome (tryE m _) _"] split: if_splits dest: ReadVarInt_le_max)
  show ?thesis using assms vn retry length unfolding parseVersionDependent_def Let_def
    by (auto simp: outcome_Inl split: if_splits)
qed


text \<open>What \<open>ParsePacket\<close> knows of a header that was parsed.\<close>

lemma parseLongHeader_outcome:
  assumes "outcome (parseLongHeader h b) h'"
  shows "h_Length h' = h_Length h \<or> h_Length h' \<le> maxVarInt8"
    "parseLongHeader h b = Inr (h', r) \<Longrightarrow> h_Version h' = 0 \<or> IsSupportedVersion SupportedVersions (h_Version h')"
    "parseLongHeader h b = Inl (h', errUnsupportedVersion) \<Longrightarrow> h_Version h' \<noteq> 0 \<and> \<not> IsSupportedVersion SupportedVersions (h_Version h')"
proof -
  from assms obtain g c where g: "outcome (parseVersionDependent g c) h'" "h_Length g = h_Length h" "parseLongHeader h b = parseVersionDependent g c"
    unfolding parseLongHeader_def Let_def by (auto simp: outcome_simps split: if_splits)
  have v: "h_Version h' = h_Version g" using parseVersionDependent_keeps [OF g(1)] by simp
  show "h_Length h' = h_Length h \<or> h_Length h' \<le> maxVarInt8" using parseVersionDependent_Length [OF g(1)] g(2) by simp
  show "parseLongHeader h b = Inr (h', r) \<Longrightarrow> h_Version h' = 0 \<or> IsSupportedVersion SupportedVersions (h_Version h')"
    "parseLongHeader h b = Inl (h', errUnsupportedVersion) \<Longrightarrow> h_Version h' \<noteq> 0 \<and> \<not> IsSupportedVersion SupportedVersions (h_Version h')"
    using parseVersionDependent_version [of g c h'] unfolding g(3) v by blast+
qed

definition unsupported :: "Header \<Rightarrow> bool" where
  "unsupported h \<longleftrightarrow> IsLongHeader h \<and> h_Version h \<noteq> 0 \<and> \<not> IsSupportedVersion SupportedVersions (h_Version h)"

lemma long_outcome:
  assumes "outcome (parseLongHeader (zeroHeader\<lparr>h_typeByte := t, IsLongHeader := True\<rparr>) rest) g" and "t AND 0x80 > 0"
  shows "ParseConnectionID (t # rest) n = Inr (DestConnectionID g) \<and> h_Length g \<le> maxVarInt8 \<and> IsLongHeader g"
proof -
  from parseLongHeader_dest [OF assms(1)] obtain vs k r where
    k: "rest = vs @ [k] @ DestConnectionID g @ r" "length vs = 4" "length (DestConnectionID g) = unat k" "IsLongHeader g" by auto
  have "rest ! 4 = k" "drop 5 rest = DestConnectionID g @ r" by (simp_all add: k(1,2) nth_append)
  then have "ParseConnectionID (t # rest) n = Inr (DestConnectionID g)" using assms(2) k by (simp add: ParseConnectionID_def)
  then show ?thesis using parseLongHeader_outcome(1) [OF assms(1)] k(4) by (auto simp: zeroHeader_def maxVarInt8_def)
qed

lemma parseHeader_outcome:
  assumes "outcome (parseHeader data n) h" and "length data < 2 ^ 62"
  shows "ParseConnectionID data n = Inr (DestConnectionID h) \<and> h_Length h \<le> maxVarInt8 \<and>
    (if unsupported h then \<exists>e. parseHeader data n = Inl (h, e)
     else \<exists>bs r. parseHeader data n = Inr (h, r) \<and> data = bs @ r \<and> bs \<noteq> [] \<and> unat (ParsedLen h) = length bs)"
proof (cases "parseHeaderImpl data n")
  case (Inr p)
  then obtain g r where p: "parseHeaderImpl data n = Inr (g, r)" by (cases p) simp
  then have "noH (parseHeaderImpl data n) = Inr (g, r)" by (simp add: noH_simps)
  from clean1D [OF clean1_parseHeader this] obtain bs where bs: "bs \<noteq> []" "data = bs @ r" by blast
  have h: "parseHeader data n = Inr (h, r)" "h = g\<lparr>parsedLen := word_of_nat (length bs)\<rparr>" using assms(1) p bs by (auto simp: parseHeader_def outcome_Inr)
  have len: "unat (ParsedLen h) = length bs" using assms(2) bs h(2) by (simp add: ParsedLen_def unat_word_of_nat_id)
  obtain t rest where t: "data = t # rest" using bs by (metis append_is_Nil_conv list.exhaust)
  have "ParseConnectionID data n = Inr (DestConnectionID g) \<and> h_Length g \<le> maxVarInt8 \<and> \<not> unsupported g"
  proof (cases "t AND 0x80 > 0")
    case True
    let ?h = "zeroHeader\<lparr>h_typeByte := t, IsLongHeader := True\<rparr>"
    have l: "parseLongHeader ?h rest = Inr (g, r)" using p t True by (simp add: parseHeaderImpl_def Let_def)
    then have o: "outcome (parseLongHeader ?h rest) g" by (simp add: outcome_Inr)
    show ?thesis using long_outcome [OF o True, of n] parseLongHeader_outcome(2) [OF o l] t by (auto simp: unsupported_def)
  next
    case False
    then have "ReadConnectionID rest n = Inr (DestConnectionID g, r)" "\<not> IsLongHeader g" "h_Length g = 0"
      using p t by (auto simp: parseHeaderImpl_def Let_def parseShortHeader_def tryE_eq_Inr withH_def zeroHeader_def split: if_splits sum.splits prod.splits)
    then show ?thesis using ReadConnectionID_InrD [of rest n "DestConnectionID g" r] t False by (auto simp: ParseConnectionID_def unsupported_def maxVarInt8_def)
  qed
  then show ?thesis using h bs len by (auto simp: unsupported_def)
next
  case (Inl p)
  then have p: "parseHeaderImpl data n = Inl (h, errUnsupportedVersion)" "parseHeader data n = Inl (h, errUnsupportedVersion)"
    using assms(1) by (auto simp: parseHeader_def outcome_def)
  then obtain t rest where t: "data = t # rest" by (cases data) (auto simp: parseHeaderImpl_def errUnsupportedVersion_def)
  have b: "t AND 0x80 > 0"
    using p(1) t by (auto simp: parseHeaderImpl_def Let_def parseShortHeader_def tryE_eq_Inl withH_def supported split: if_splits sum.splits prod.splits)
  let ?h = "zeroHeader\<lparr>h_typeByte := t, IsLongHeader := True\<rparr>"
  have l: "parseLongHeader ?h rest = Inl (h, errUnsupportedVersion)" using p(1) t b by (simp add: parseHeaderImpl_def Let_def)
  then have o: "outcome (parseLongHeader ?h rest) h" by (simp add: outcome_Inl)
  show ?thesis using long_outcome [OF o b, of n] parseLongHeader_outcome(3) [OF o l] p(2) t by (auto simp: unsupported_def)
qed

lemma ParsePacket_outcome:
  assumes "length data < 2 ^ 62"
  shows "case ParsePacket data n of
      Inl e \<Rightarrow> \<not> panics (Inl e :: go_error + unit)
    | Inr (hdr, packet, rest) \<Rightarrow> ParseConnectionID data n = Inr (DestConnectionID hdr) \<and>
        (if unsupported hdr then packet = [] \<and> rest = []
         else data = packet @ rest \<and> 0 < unat (ParsedLen hdr) \<and> unat (ParsedLen hdr) \<le> length packet)"
proof (cases "parseHeader data n")
  case (Inl p)
  then obtain h e where p: "parseHeader data n = Inl (h, e)" by (cases p) simp
  have "\<not> panics (noH (parseHeaderImpl data n))" using clean1_parseHeader by (rule clean1_not_panics)
  then have e: "\<not> panics (Inl e :: go_error + unit)" using p by (auto simp: parseHeader_def noH_simps tryE_eq_Inl panics_def)
  show ?thesis
  proof (cases "e = errUnsupportedVersion")
    case True
    then have "outcome (parseHeader data n) h" using p by (simp add: outcome_Inl)
    from parseHeader_outcome [OF this assms] show ?thesis using p True by (simp add: ParsePacket_def split: if_splits)
  qed (use p e in \<open>simp add: ParsePacket_def\<close>)
next
  case (Inr p)
  then obtain h r where p: "parseHeader data n = Inr (h, r)" by (cases p) simp
  then have "outcome (parseHeader data n) h" by (simp add: outcome_Inr)
  note o = parseHeader_outcome [OF this assms]
  then obtain bs where bs: "data = bs @ r" "bs \<noteq> []" "unat (ParsedLen h) = length bs" "\<not> unsupported h" using p by (auto split: if_splits)
  have sum: "unat (ParsedLen h + h_Length h) = length bs + unat (h_Length h)" "unat (h_Length h) < 2 ^ 62" "length bs < 2 ^ 62"
    using o bs assms by (simp_all add: unat_plus_lt maxVarInt8_def word_le_nat_alt)
  define k where "k = length bs + unat (h_Length h)"
  have i: "int64_of (ParsedLen h + h_Length h) = int k" "unat (ParsedLen h + h_Length h) = k" "length bs \<le> k"
    using sum by (simp_all add: int64_of_small k_def)
  have d: "unat (word_of_nat (length data) :: ByteCount) = length data" using assms by (simp add: unat_word_of_nat_id)
  show ?thesis using o p bs(2-4) i d by (auto simp: ParsePacket_def Let_def panics_def word_less_nat_alt min_def bs(1))
qed

text \<open>C17. Whatever the bytes of a datagram are, \<open>ParsePacket\<close> does not panic. When it succeeds, the datagram is the packet followed
  by the rest, the packet is not empty and contains the parsed part of the header; only for a version that is not supported
  there is no packet. The destination connection id is the one \<open>ParseConnectionID\<close> found when it routed the datagram.\<close>

theorem ParsePacket_safe:
  assumes "length data < 2 ^ 62"
  shows "case ParsePacket data n of
      Inl e \<Rightarrow> \<not> panics (Inl e :: go_error + unit)
    | Inr (hdr, packet, rest) \<Rightarrow> ParseConnectionID data n = Inr (DestConnectionID hdr) \<and>
        (if unsupported hdr then packet = [] \<and> rest = []
         else data = packet @ rest \<and> 0 < unat (ParsedLen hdr) \<and> unat (ParsedLen hdr) \<le> length packet)"
  using assms by (rule ParsePacket_outcome)

text \<open>A Handshake packet of eleven bytes, followed by a padded rest.\<close>

theorem ParsePacket_safe_witness:
  "\<exists>hdr. ParsePacket ([0xe0] @ WriteUint32 [] VersionTLS @ [1, 7, 0, 3, 9, 8, 7] @ [0, 0]) 4 = Inr (hdr, [0xe0] @ WriteUint32 [] VersionTLS @ [1, 7, 0, 3, 9, 8, 7], [0, 0]) \<and>
    ParseConnectionID ([0xe0] @ WriteUint32 [] VersionTLS @ [1, 7, 0, 3, 9, 8, 7] @ [0, 0]) 4 = Inr (DestConnectionID hdr) \<and> 0 < unat (ParsedLen hdr)"
proof -
  let ?d = "[0xe0] @ WriteUint32 [] VersionTLS @ [1, 7, 0, 3, 9, 8, 7] @ [0, 0]"
  have "case ParsePacket ?d 4 of Inl _ \<Rightarrow> False | Inr (hdr, p, r) \<Rightarrow> \<not> unsupported hdr \<and> p = [0xe0] @ WriteUint32 [] VersionTLS @ [1, 7, 0, 3, 9, 8, 7] \<and> r = [0, 0]"
    by code_simp
  then show ?thesis using ParsePacket_safe [of ?d 4] by (auto simp: WriteUint32_def split: sum.splits)
qed

section \<open>Round trips\<close>

text \<open>A header that can be written: the fields that are not on the wire have their zero values.\<close>

definition wf_ExtendedHeader :: "ExtendedHeader \<Rightarrow> bool" where
  "wf_ExtendedHeader h \<longleftrightarrow>
    length (DestConnectionID h) \<le> MaxConnIDLen \<and> length (SrcConnectionID h) \<le> MaxConnIDLen \<and> OrigDestConnectionID h = [] \<and>
    h_SupportedVersions h = [] \<and> eh_PacketNumberLen h \<in> {1, 2, 3, 4} \<and>
    (if IsLongHeader h
     then h_Version h = VersionTLS \<and> h_Type h \<in> {PacketTypeInitial, PacketTypeHandshake, PacketType0RTT} \<and> h_Length h \<le> maxVarInt8 \<and>
       KeyPhase h = KeyPhaseZero \<and> (if h_Type h = PacketTypeInitial then length (h_Token h) < 2 ^ 61 else h_Token h = [])
     else h_Type h = PacketTypeNone \<and> h_Version h = 0 \<and> SrcConnectionID h = [] \<and> h_Length h = 0 \<and> h_Token h = [])"

lemma WriteUint32_append: "NO_MATCH [] b \<Longrightarrow> WriteUint32 b i = b @ WriteUint32 [] i"
  by (simp add: WriteUint32_def)

lemma WriteUint24_append: "NO_MATCH [] b \<Longrightarrow> WriteUint24 b i = b @ WriteUint24 [] i"
  by (simp add: WriteUint24_def)

text \<open>The packet number on the wire.\<close>

definition pn_bytes :: "PacketNumberLen \<Rightarrow> PacketNumber \<Rightarrow> byte list" where
  "pn_bytes l pn =
    (if l = 1 then [word_of_int pn] else if l = 2 then WriteUint16 [] (word_of_int pn)
     else if l = 3 then WriteUint24 [] (word_of_int pn) else WriteUint32 [] (word_of_int pn))"

lemma writePacketNumber_bytes:
  "eh_PacketNumberLen h \<in> {1, 2, 3, 4} \<Longrightarrow> writePacketNumber b h = Inr (b @ pn_bytes (eh_PacketNumberLen h) (eh_PacketNumber h))"
  by (auto simp: writePacketNumber_def pn_bytes_def WriteUint16_append WriteUint24_append WriteUint32_append)

lemma length_pn_bytes: "l \<in> {1, 2, 3, 4} \<Longrightarrow> length (pn_bytes l pn) = unat l"
  by (auto simp: pn_bytes_def WriteUint16_def WriteUint24_def WriteUint32_def)

lemma ReadUint24_word:
  "ReadUint24 (WriteUint24 [] i @ r) = Inr (take_bit 24 i, r)"
  by (simp add: ReadUint24_def WriteUint24_def ucast_ucast_byte join_bytes)

lemma readPacketNumber_bytes:
  assumes "l \<in> {1, 2, 3, 4}" and "(eh_typeByte h AND 0x3) + 1 = l"
  shows "readPacketNumber h (pn_bytes l pn @ r) = Inr (h\<lparr>eh_PacketNumberLen := l, eh_PacketNumber := pn mod 2 ^ (8 * unat l)\<rparr>, r)"
proof -
  have "uint (take_bit 24 (word_of_int pn :: u32)) = pn mod 2 ^ 24"
    by (simp only: unsigned_take_bit_eq uint_word_of_int) (simp add: take_bit_eq_mod mod_mod_cancel)
  then have "(if l = 1 then tryE (ReadByte (pn_bytes l pn @ r)) (\<lambda>(n, b). Inr (g\<lparr>eh_PacketNumber := uint n\<rparr>, b))
        else if l = 2 then tryE (ReadUint16 (pn_bytes l pn @ r)) (\<lambda>(n, b). Inr (g\<lparr>eh_PacketNumber := uint n\<rparr>, b))
        else if l = 3 then tryE (ReadUint24 (pn_bytes l pn @ r)) (\<lambda>(n, b). Inr (g\<lparr>eh_PacketNumber := uint n\<rparr>, b))
        else if l = 4 then tryE (ReadUint32 (pn_bytes l pn @ r)) (\<lambda>(n, b). Inr (g\<lparr>eh_PacketNumber := uint n\<rparr>, b))
        else Inl (Errorf (''invalid packet number length: %d'', [uint l]))) = Inr (g\<lparr>eh_PacketNumber := pn mod 2 ^ (8 * unat l)\<rparr>, r)" for g :: ExtendedHeader
    using assms(1) by (auto simp: pn_bytes_def ReadUint16_WriteUint16 ReadUint24_word ReadUint32_WriteUint32 uint_word_of_int)
  moreover have l: "eh_PacketNumberLen (h\<lparr>eh_PacketNumberLen := l\<rparr>) = l" by simp
  ultimately show ?thesis unfolding readPacketNumber_def Let_def assms(2) l by blast
qed

text \<open>The bits of the first byte.\<close>

lemma long_first_byte:
  assumes "l \<in> {1, 2, 3, 4 :: byte}" and "t \<in> {PacketTypeInitial, PacketTypeHandshake, PacketType0RTT}"
  shows "let f = (0xc0 OR push_bit 4 (packetTypeBits t)) OR (l - 1) in
    f AND 0x80 > 0 \<and> f AND 0x40 \<noteq> 0 \<and> longHeaderType f = t \<and> (f AND 0x3) + 1 = l \<and> f AND 0xc = 0"
  using assms by (auto simp: longHeaderType_def Let_def)

lemma short_first_byte:
  assumes "l \<in> {1, 2, 3, 4 :: byte}"
  shows "let f = (if k then (0x40 OR (l - 1)) OR push_bit 2 1 else 0x40 OR (l - 1)) in
    \<not> f AND 0x80 > 0 \<and> f AND 0x40 \<noteq> 0 \<and> (f AND 0x3) + 1 = l \<and> f AND 0x18 = 0 \<and> (f AND 0x4 > 0 \<longleftrightarrow> k)"
  using assms by (auto simp: Let_def)


text \<open>A long header, byte by byte.\<close>

definition token_bytes :: "ExtendedHeader \<Rightarrow> byte list" where
  "token_bytes h = (if h_Type h = PacketTypeInitial then varint_bytes (word_of_nat (length (h_Token h))) @ h_Token h else [])"

definition long_prefix :: "ExtendedHeader \<Rightarrow> byte list" where
  "long_prefix h =
    [(0xc0 OR push_bit 4 (packetTypeBits (h_Type h))) OR (eh_PacketNumberLen h - 1)] @ WriteUint32 [] (h_Version h) @
    [word_of_nat (length (DestConnectionID h))] @ DestConnectionID h @ [word_of_nat (length (SrcConnectionID h))] @ SrcConnectionID h @
    token_bytes h @ varint_bytes (h_Length h)"

definition short_prefix :: "ExtendedHeader \<Rightarrow> byte list" where
  "short_prefix h =
    (if KeyPhase h then (0x40 OR (eh_PacketNumberLen h - 1)) OR push_bit 2 1 else 0x40 OR (eh_PacketNumberLen h - 1)) # DestConnectionID h"

definition header_prefix :: "ExtendedHeader \<Rightarrow> byte list" where
  "header_prefix h = (if IsLongHeader h then long_prefix h else short_prefix h)"

lemma token_length_ok: "wf_ExtendedHeader h \<Longrightarrow> (word_of_nat (length (h_Token h)) :: u64) \<le> maxVarInt8"
  by (auto simp: wf_ExtendedHeader_def word_le_nat_alt unat_word_of_nat_id maxVarInt8_def split: if_splits)

lemma Write_header:
  assumes "wf_ExtendedHeader h"
  shows "ExtendedHeader_Write [] h = Inr (header_prefix h @ pn_bytes (eh_PacketNumberLen h) (eh_PacketNumber h))"
proof -
  have pn: "writePacketNumber b h = Inr (b @ pn_bytes (eh_PacketNumberLen h) (eh_PacketNumber h))" for b
    using assms by (intro writePacketNumber_bytes) (simp add: wf_ExtendedHeader_def)
  have lens: "\<not> MaxConnIDLen < length (DestConnectionID h)" "\<not> MaxConnIDLen < length (SrcConnectionID h)" "OrigDestConnectionID h = []"
    using assms by (simp_all add: wf_ExtendedHeader_def)
  show ?thesis
  proof (cases "IsLongHeader h")
    case True
    then have "h_Length h \<le> maxVarInt8" "h_Type h \<noteq> PacketTypeRetry" using assms by (auto simp: wf_ExtendedHeader_def)
    then show ?thesis using True lens token_length_ok [OF assms]
      by (auto simp: ExtendedHeader_Write_def writeLongHeader_def header_prefix_def long_prefix_def token_bytes_def Let_def WriteVarInt_ok pn WriteUint32_append)
  qed (use lens in \<open>simp add: ExtendedHeader_Write_def writeShortHeader_def header_prefix_def short_prefix_def pn Let_def KeyPhaseOne_def\<close>)
qed

lemma length_token_bytes:
  "wf_ExtendedHeader h \<Longrightarrow> length (token_bytes h) < 2 ^ 61 + 8"
  using length_varint_bytes token_length_ok [of h] by (fastforce simp: token_bytes_def wf_ExtendedHeader_def split: if_splits)


text \<open>The bits of the first byte that header protection changes do not matter here.\<close>

lemma parseHeader_long_byte:
  assumes "wf_ExtendedHeader h" and "IsLongHeader h" and "length (header_prefix h @ r) < 2 ^ 62"
    and f: "f AND 0x80 > 0" "f AND 0x40 \<noteq> 0" "longHeaderType f = h_Type h"
  shows "\<exists>hdr. parseHeader (f # tl (header_prefix h) @ r) n = Inr (hdr, r) \<and>
    hdr = \<lparr>IsLongHeader = True, h_typeByte = f, h_Type = h_Type h, h_Version = h_Version h, SrcConnectionID = SrcConnectionID h,
      DestConnectionID = DestConnectionID h, h_Length = h_Length h, h_Token = h_Token h, h_SupportedVersions = [], OrigDestConnectionID = [],
      parsedLen = word_of_nat (length (header_prefix h))\<rparr>"
proof -
  have w: "h_Version h = VersionTLS" "eh_PacketNumberLen h \<in> {1, 2, 3, 4}" "h_Type h \<in> {PacketTypeInitial, PacketTypeHandshake, PacketType0RTT}"
    "h_Length h \<le> maxVarInt8" "length (DestConnectionID h) \<le> 20" "length (SrcConnectionID h) \<le> 20" "h_Type h \<noteq> PacketTypeRetry"
    "h_Type h = PacketTypeInitial \<or> h_Token h = []"
    using assms(1,2) by (auto simp: wf_ExtendedHeader_def MaxConnIDLen_def split: if_splits)
  have v: "IsSupportedVersion SupportedVersions VersionTLS" "VersionTLS \<noteq> 0" by (simp_all add: SupportedVersions_def VersionTLS_def)
  have token: "parseToken g (token_bytes h @ c) = Inr (g\<lparr>h_Token := h_Token h\<rparr>, c)" if g: "h_Type g = h_Type h" "h_Token g = []" and c: "length (token_bytes h @ c) < 2 ^ 62" for g c
  proof (cases "h_Type h = PacketTypeInitial")
    case True
    then have t: "unat (word_of_nat (length (h_Token h)) :: u64) = length (h_Token h)" "unat (word_of_nat (length (h_Token h @ c)) :: u64) = length (h_Token h @ c)"
      using c by (intro unat_word_of_nat_id, simp add: token_bytes_def)+
    moreover have "\<not> length (h_Token h @ c) < length (h_Token h)" by simp
    ultimately show ?thesis using True g token_length_ok [OF assms(1)]
      by (simp add: parseToken_def token_bytes_def ReadVarInt_varint_bytes ReadFull_append word_less_nat_alt del: length_append of_nat_add)
  qed (use w(8) g in \<open>simp_all add: parseToken_def token_bytes_def\<close>)
  have lens: "unat (word_of_nat (length (DestConnectionID h)) :: byte) = length (DestConnectionID h)"
    "unat (word_of_nat (length (SrcConnectionID h)) :: byte) = length (SrcConnectionID h)" using w(5,6) by (simp_all add: unat_byte_small)
  have pre: "tl (header_prefix h) = WriteUint32 [] VersionTLS @ [word_of_nat (length (DestConnectionID h))] @ DestConnectionID h @
      [word_of_nat (length (SrcConnectionID h))] @ SrcConnectionID h @ token_bytes h @ varint_bytes (h_Length h)"
    using assms(2) w(1) by (simp add: header_prefix_def long_prefix_def)
  have small: "length (token_bytes h @ varint_bytes (h_Length h) @ r) < 2 ^ 62" using assms(2,3) by (simp add: header_prefix_def long_prefix_def)
  have "parseLongHeader (zeroHeader\<lparr>h_typeByte := f, IsLongHeader := True\<rparr>) (tl (header_prefix h) @ r) =
      Inr (zeroHeader\<lparr>h_typeByte := f, IsLongHeader := True, h_Version := VersionTLS, DestConnectionID := DestConnectionID h, SrcConnectionID := SrcConnectionID h,
        h_Type := h_Type h, h_Token := h_Token h, h_Length := h_Length h\<rparr>, r)"
    using small w(4,7) f v unfolding pre
    by (simp add: parseLongHeader_def parseVersionDependent_def Let_def ReadUint32_WriteUint32 ReadConnectionID_append lens token ReadVarInt_varint_bytes zeroHeader_def)
  then have "parseHeaderImpl (f # tl (header_prefix h) @ r) n = Inr (zeroHeader\<lparr>h_typeByte := f, IsLongHeader := True, h_Version := VersionTLS, DestConnectionID := DestConnectionID h,
        SrcConnectionID := SrcConnectionID h, h_Type := h_Type h, h_Token := h_Token h, h_Length := h_Length h\<rparr>, r)"
    using f(1) by (simp add: parseHeaderImpl_def Let_def)
  moreover have "length (header_prefix h) = Suc (length (tl (header_prefix h)))" using assms(2) by (simp add: header_prefix_def long_prefix_def)
  ultimately show ?thesis using w(1) by (simp add: parseHeader_def zeroHeader_def)
qed

lemma parseHeader_long:
  assumes "wf_ExtendedHeader h" and "IsLongHeader h" and "length (header_prefix h @ r) < 2 ^ 62"
  shows "\<exists>hdr. parseHeader (header_prefix h @ r) n = Inr (hdr, r) \<and>
    hdr = \<lparr>IsLongHeader = True, h_typeByte = hd (header_prefix h), h_Type = h_Type h, h_Version = h_Version h, SrcConnectionID = SrcConnectionID h,
      DestConnectionID = DestConnectionID h, h_Length = h_Length h, h_Token = h_Token h, h_SupportedVersions = [], OrigDestConnectionID = [],
      parsedLen = word_of_nat (length (header_prefix h))\<rparr>"
proof -
  have "eh_PacketNumberLen h \<in> {1, 2, 3, 4}" "h_Type h \<in> {PacketTypeInitial, PacketTypeHandshake, PacketType0RTT}"
    using assms(1,2) by (simp_all add: wf_ExtendedHeader_def)
  from long_first_byte [OF this] have f: "hd (header_prefix h) AND 0x80 > 0" "hd (header_prefix h) AND 0x40 \<noteq> 0" "longHeaderType (hd (header_prefix h)) = h_Type h"
    using assms(2) by (simp_all add: header_prefix_def long_prefix_def Let_def)
  have "header_prefix h = hd (header_prefix h) # tl (header_prefix h)" using assms(2) by (simp add: header_prefix_def long_prefix_def)
  then show ?thesis using parseHeader_long_byte [OF assms f, of n] by (metis append_Cons)
qed

lemma parseHeader_short_byte:
  assumes "\<not> f AND 0x80 > 0" and "f AND 0x40 \<noteq> 0"
  shows "parseHeader (f # dest @ r) (length dest) =
    Inr (zeroHeader\<lparr>h_typeByte := f, DestConnectionID := dest, parsedLen := word_of_nat (Suc (length dest))\<rparr>, r)"
  using assms by (simp add: parseHeader_def parseHeaderImpl_def parseShortHeader_def Let_def ReadConnectionID_append zeroHeader_def)

lemma parseHeader_short:
  assumes "wf_ExtendedHeader h" and "\<not> IsLongHeader h"
  shows "parseHeader (header_prefix h @ r) (length (DestConnectionID h)) =
    Inr (zeroHeader\<lparr>h_typeByte := hd (header_prefix h), DestConnectionID := DestConnectionID h, parsedLen := word_of_nat (length (header_prefix h))\<rparr>, r)"
proof -
  define f where "f = (if KeyPhase h then (0x40 OR (eh_PacketNumberLen h - 1)) OR push_bit 2 1 else 0x40 OR (eh_PacketNumberLen h - 1))"
  have f: "\<not> f AND 0x80 > 0" "f AND 0x40 \<noteq> 0" using short_first_byte [of "eh_PacketNumberLen h" "KeyPhase h"] assms(1)
    by (simp_all add: f_def Let_def wf_ExtendedHeader_def split: if_splits)
  have pre: "header_prefix h = f # DestConnectionID h" using assms(2) by (simp add: header_prefix_def short_prefix_def f_def)
  show ?thesis using parseHeader_short_byte [OF f] unfolding pre by simp
qed


lemma ParseExtended_bytes:
  assumes "l \<in> {1, 2, 3, 4}" and "ParsedLen hdr = word_of_nat (Suc (length pre))" and "length pre < 2 ^ 61" and "(t AND 0x3) + 1 = l"
    and "t AND (if IsLongHeader hdr then 0xc else 0x18) = 0"
  shows "ParseExtended hdr ((t # pre) @ pn_bytes l pn @ payload) = Inr (((toExtendedHeader hdr)\<lparr>eh_typeByte := t,
    KeyPhase := \<not> IsLongHeader hdr \<and> t AND 0x4 > 0, eh_PacketNumberLen := l, eh_PacketNumber := pn mod 2 ^ (8 * unat l)\<rparr>, None), payload)"
proof -
  have "int64_of (ParsedLen hdr) = int (Suc (length pre))" unfolding assms(2) by (subst int64_of_small) (use assms(3) in \<open>simp_all add: unat_word_of_nat_id del: of_nat_Suc\<close>)
  then have seek: "nat (i64 (1 + i64 (int64_of (ParsedLen hdr) - 1))) = Suc (length pre)" "\<not> i64 (1 + i64 (int64_of (ParsedLen hdr) - 1)) < 0"
    using assms(3) by simp_all
  have ext: "ParsedLen (toExtendedHeader hdr\<lparr>eh_typeByte := t\<rparr>) = ParsedLen hdr" "IsLongHeader (toExtendedHeader hdr) = IsLongHeader hdr"
    by (simp_all add: toExtendedHeader_def ParsedLen_def Header.defs)
  have "ParseExtended hdr ((t # pre) @ pn_bytes l pn @ payload) =
      (if IsLongHeader hdr then eh_parseLongHeader (toExtendedHeader hdr\<lparr>eh_typeByte := t\<rparr>) (pn_bytes l pn @ payload)
       else eh_parseShortHeader (toExtendedHeader hdr\<lparr>eh_typeByte := t\<rparr>) (pn_bytes l pn @ payload))"
    using seek ext by (simp add: ParseExtended_def eh_parse_def Let_def)
  also have "\<dots> = Inr (((toExtendedHeader hdr)\<lparr>eh_typeByte := t,
    KeyPhase := \<not> IsLongHeader hdr \<and> t AND 0x4 > 0, eh_PacketNumberLen := l, eh_PacketNumber := pn mod 2 ^ (8 * unat l)\<rparr>, None), payload)"
    using assms(4,5) by (simp add: eh_parseLongHeader_def eh_parseShortHeader_def Let_def readPacketNumber_bytes [OF assms(1)] toExtendedHeader_def Header.defs KeyPhaseZero_def KeyPhaseOne_def split: if_splits)
  finally show ?thesis .
qed

lemma GetLength_bytes:
  assumes "wf_ExtendedHeader h"
  shows "GetLength h = Inr (word_of_nat (length (header_prefix h) + unat (eh_PacketNumberLen h)))"
proof (cases "IsLongHeader h")
  case True
  then have "h_Length h \<le> maxVarInt8" using assms(1) by (simp add: wf_ExtendedHeader_def)
  then show ?thesis using True token_length_ok [OF assms(1)]
    by (auto simp: GetLength_def VarIntLen_varint_bytes header_prefix_def long_prefix_def token_bytes_def WriteUint32_def ac_simps)
qed (simp add: GetLength_def header_prefix_def short_prefix_def ac_simps)

lemma ParsePacket_long:
  assumes "parseHeader data n = Inr (hdr, r)" and "IsLongHeader hdr" and "data = packet @ rest" and "length data < 2 ^ 62"
    and "ParsedLen hdr + h_Length hdr = word_of_nat (length packet)"
  shows "ParsePacket data n = Inr (hdr, packet, rest)"
proof -
  have "int64_of (word_of_nat (length packet)) = int (length packet)" "unat (word_of_nat (length packet) :: u64) = length packet"
    "unat (word_of_nat (length data) :: u64) = length data"
    using assms(3,4) by (simp_all add: int64_of_small unat_word_of_nat_id del: of_nat_add)
  then show ?thesis using assms(1,2,3,5) by (simp add: ParsePacket_def word_less_nat_alt del: of_nat_add)
qed

lemma long_header_roundtrip:
  assumes "wf_ExtendedHeader h" and "unat (h_Length h) = unat (eh_PacketNumberLen h) + length payload" and "length (header_prefix h @ pn_bytes (eh_PacketNumberLen h) (eh_PacketNumber h)) + length payload + length rest < 2 ^ 61" and True: "IsLongHeader h"
  shows "\<exists>hdr eh. ParsePacket ((header_prefix h @ pn_bytes (eh_PacketNumberLen h) (eh_PacketNumber h)) @ payload @ rest) (length (DestConnectionID h)) =
      Inr (hdr, (header_prefix h @ pn_bytes (eh_PacketNumberLen h) (eh_PacketNumber h)) @ payload, rest) \<and>
    ParseExtended hdr ((header_prefix h @ pn_bytes (eh_PacketNumberLen h) (eh_PacketNumber h)) @ payload) = Inr ((eh, None), payload) \<and>
    eh = h\<lparr>h_typeByte := h_typeByte eh, parsedLen := parsedLen eh, eh_typeByte := eh_typeByte eh,
      eh_PacketNumber := eh_PacketNumber h mod 2 ^ (8 * unat (eh_PacketNumberLen h))\<rparr>"
proof -
  define l where "l = eh_PacketNumberLen h"
  define pn where "pn = pn_bytes l (eh_PacketNumber h)"
  define bs where "bs = header_prefix h @ pn"
  have l: "l \<in> {1, 2, 3, 4}" using assms(1) by (simp add: l_def wf_ExtendedHeader_def)
  have pnl: "length pn = unat l" using length_pn_bytes [OF l] by (simp add: pn_def)
  have small: "length bs + length payload + length rest < 2 ^ 61" using assms(3) by (simp add: bs_def pn_def l_def)
  obtain hdr where hdr: "parseHeader (bs @ payload @ rest) (length (DestConnectionID h)) = Inr (hdr, pn @ payload @ rest)"
    and eq: "hdr = \<lparr>IsLongHeader = True, h_typeByte = hd (header_prefix h), h_Type = h_Type h, h_Version = h_Version h, SrcConnectionID = SrcConnectionID h,
      DestConnectionID = DestConnectionID h, h_Length = h_Length h, h_Token = h_Token h, h_SupportedVersions = [], OrigDestConnectionID = [],
      parsedLen = word_of_nat (length (header_prefix h))\<rparr>"
    using parseHeader_long [OF assms(1) True, of "pn @ payload @ rest" "length (DestConnectionID h)"] small unfolding bs_def by auto
  have "h_Length h = word_of_nat (unat (h_Length h))" by simp
  also have "\<dots> = word_of_nat (length pn + length payload)" using assms(2) pnl by (simp add: l_def)
  finally have "h_Length h = word_of_nat (length pn + length payload)" .
  then have sum: "ParsedLen hdr + h_Length hdr = word_of_nat (length (bs @ payload))" by (simp add: eq ParsedLen_def bs_def)
  have pp: "ParsePacket (bs @ payload @ rest) (length (DestConnectionID h)) = Inr (hdr, bs @ payload, rest)"
    using ParsePacket_long [OF hdr, of "bs @ payload" rest] sum small by (simp add: eq)
  define t where "t = hd (header_prefix h)"
  define pre where "pre = tl (header_prefix h)"
  have pre: "header_prefix h = t # pre" by (simp add: header_prefix_def long_prefix_def True t_def pre_def)
  have t: "(t AND 0x3) + 1 = l" "t AND 0xc = 0" using long_first_byte [of l "h_Type h"] l assms(1) True
    by (simp_all add: t_def header_prefix_def long_prefix_def Let_def l_def wf_ExtendedHeader_def)
  have pe: "ParseExtended hdr (bs @ payload) = Inr (((toExtendedHeader hdr)\<lparr>eh_typeByte := t, KeyPhase := False, eh_PacketNumberLen := l,
      eh_PacketNumber := eh_PacketNumber h mod 2 ^ (8 * unat l)\<rparr>, None), payload)" (is "_ = Inr ((?eh, None), payload)")
    using ParseExtended_bytes [OF l, of hdr pre t "eh_PacketNumber h" payload] t small by (simp add: eq ParsedLen_def pre bs_def pn_def)
  have "?eh = h\<lparr>h_typeByte := h_typeByte ?eh, parsedLen := parsedLen ?eh, eh_typeByte := eh_typeByte ?eh, eh_PacketNumber := eh_PacketNumber h mod 2 ^ (8 * unat (eh_PacketNumberLen h))\<rparr>"
    using assms(1) True by (simp add: eq toExtendedHeader_def Header.defs l_def wf_ExtendedHeader_def KeyPhaseZero_def)
  then show ?thesis using pp pe unfolding bs_def pn_def l_def by blast
qed

lemma short_header_roundtrip:
  assumes "wf_ExtendedHeader h" and "rest = []" and "length (header_prefix h @ pn_bytes (eh_PacketNumberLen h) (eh_PacketNumber h)) + length payload + length rest < 2 ^ 61" and False: "\<not> IsLongHeader h"
  shows "\<exists>hdr eh. ParsePacket ((header_prefix h @ pn_bytes (eh_PacketNumberLen h) (eh_PacketNumber h)) @ payload @ rest) (length (DestConnectionID h)) =
      Inr (hdr, (header_prefix h @ pn_bytes (eh_PacketNumberLen h) (eh_PacketNumber h)) @ payload, rest) \<and>
    ParseExtended hdr ((header_prefix h @ pn_bytes (eh_PacketNumberLen h) (eh_PacketNumber h)) @ payload) = Inr ((eh, None), payload) \<and>
    eh = h\<lparr>h_typeByte := h_typeByte eh, parsedLen := parsedLen eh, eh_typeByte := eh_typeByte eh,
      eh_PacketNumber := eh_PacketNumber h mod 2 ^ (8 * unat (eh_PacketNumberLen h))\<rparr>"
proof -
  define l where "l = eh_PacketNumberLen h"
  define pn where "pn = pn_bytes l (eh_PacketNumber h)"
  define bs where "bs = header_prefix h @ pn"
  have l: "l \<in> {1, 2, 3, 4}" using assms(1) by (simp add: l_def wf_ExtendedHeader_def)
  have pnl: "length pn = unat l" using length_pn_bytes [OF l] by (simp add: pn_def)
  have small: "length bs + length payload + length rest < 2 ^ 61" using assms(3) by (simp add: bs_def pn_def l_def)
  define t where "t = hd (header_prefix h)"
  define hdr where "hdr = zeroHeader\<lparr>h_typeByte := t, DestConnectionID := DestConnectionID h, parsedLen := word_of_nat (length (header_prefix h))\<rparr>"
  have hdr: "parseHeader (bs @ payload @ rest) (length (DestConnectionID h)) = Inr (hdr, pn @ payload @ rest)" "rest = []"
    using parseHeader_short [OF assms(1) False, of "pn @ payload @ rest"] assms(2) by (simp_all add: bs_def hdr_def t_def)
  then have pp: "ParsePacket (bs @ payload @ rest) (length (DestConnectionID h)) = Inr (hdr, bs @ payload, rest)"
    by (simp add: ParsePacket_def hdr_def zeroHeader_def)
  have t: "(t AND 0x3) + 1 = l" "t AND 0x18 = 0" "t AND 0x4 > 0 \<longleftrightarrow> KeyPhase h" using short_first_byte [OF l, of "KeyPhase h"] False
    by (auto simp: t_def header_prefix_def short_prefix_def Let_def l_def)
  have pre: "header_prefix h = t # DestConnectionID h" by (simp add: header_prefix_def short_prefix_def False t_def)
  have pe: "ParseExtended hdr (bs @ payload) = Inr (((toExtendedHeader hdr)\<lparr>eh_typeByte := t, KeyPhase := KeyPhase h, eh_PacketNumberLen := l,
      eh_PacketNumber := eh_PacketNumber h mod 2 ^ (8 * unat l)\<rparr>, None), payload)" (is "_ = Inr ((?eh, None), payload)")
    using ParseExtended_bytes [OF l, of hdr "DestConnectionID h" t "eh_PacketNumber h" payload] t small
    by (simp add: hdr_def zeroHeader_def ParsedLen_def pre bs_def pn_def)
  have "?eh = h\<lparr>h_typeByte := h_typeByte ?eh, parsedLen := parsedLen ?eh, eh_typeByte := eh_typeByte ?eh, eh_PacketNumber := eh_PacketNumber h mod 2 ^ (8 * unat (eh_PacketNumberLen h))\<rparr>"
    using assms(1) False by (simp add: hdr_def zeroHeader_def toExtendedHeader_def Header.defs l_def wf_ExtendedHeader_def)
  then show ?thesis using pp pe unfolding bs_def pn_def l_def by blast
qed

text \<open>C16. A packet that was written is read back: the bytes of the header are as many as \<open>GetLength\<close> says; \<open>ParsePacket\<close> cuts the packet
  out of a datagram, with what follows a long header packet as the rest; and \<open>ParseExtended\<close> gives the header that was written,
  with its packet number truncated to the length on the wire, and leaves the payload.\<close>

theorem header_roundtrip:
  assumes "wf_ExtendedHeader h" and "if IsLongHeader h then unat (h_Length h) = unat (eh_PacketNumberLen h) + length payload else rest = []"
    and "\<forall>bs. ExtendedHeader_Write [] h = Inr bs \<longrightarrow> length bs + length payload + length rest < 2 ^ 61"
  shows "\<exists>bs hdr eh. ExtendedHeader_Write [] h = Inr bs \<and> GetLength h = Inr (word_of_nat (length bs)) \<and>
    ParsePacket (bs @ payload @ rest) (length (DestConnectionID h)) = Inr (hdr, bs @ payload, rest) \<and>
    ParseExtended hdr (bs @ payload) = Inr ((eh, None), payload) \<and>
    eh = h\<lparr>h_typeByte := h_typeByte eh, parsedLen := parsedLen eh, eh_typeByte := eh_typeByte eh,
      eh_PacketNumber := eh_PacketNumber h mod 2 ^ (8 * unat (eh_PacketNumberLen h))\<rparr>"
proof -
  define bs where "bs = header_prefix h @ pn_bytes (eh_PacketNumberLen h) (eh_PacketNumber h)"
  have wr: "ExtendedHeader_Write [] h = Inr bs" using Write_header [OF assms(1)] by (simp add: bs_def)
  then have small: "length bs + length payload + length rest < 2 ^ 61" using assms(3) by simp
  have "length (pn_bytes (eh_PacketNumberLen h) (eh_PacketNumber h)) = unat (eh_PacketNumberLen h)" using assms(1) by (intro length_pn_bytes) (simp add: wf_ExtendedHeader_def)
  then have len: "GetLength h = Inr (word_of_nat (length bs))" using GetLength_bytes [OF assms(1)] by (simp add: bs_def)
  show ?thesis
  proof (cases "IsLongHeader h")
    case True
    then show ?thesis using long_header_roundtrip [OF assms(1) _ small [unfolded bs_def] True] assms(2) wr len unfolding bs_def [symmetric] by fastforce
  next
    case False
    then show ?thesis using short_header_roundtrip [OF assms(1) _ small [unfolded bs_def] False] assms(2) wr len unfolding bs_def [symmetric] by fastforce
  qed
qed

theorem header_roundtrip_witness:
  "let h = Header.extend (zeroHeader\<lparr>IsLongHeader := True, h_Version := VersionTLS, h_Type := PacketTypeInitial, DestConnectionID := [1, 2, 3], SrcConnectionID := [4], h_Token := [9, 9], h_Length := 5\<rparr>)
      \<lparr>eh_typeByte = 0, KeyPhase = KeyPhaseZero, eh_PacketNumberLen = 2, eh_PacketNumber = 0x12345\<rparr>
   in \<exists>bs hdr eh. ExtendedHeader_Write [] h = Inr bs \<and> GetLength h = Inr (word_of_nat (length bs)) \<and>
    ParsePacket (bs @ [7, 7, 7] @ [8]) 3 = Inr (hdr, bs @ [7, 7, 7], [8]) \<and> ParseExtended hdr (bs @ [7, 7, 7]) = Inr ((eh, None), [7, 7, 7]) \<and> eh_PacketNumber eh = 0x2345"
proof -
  let ?h = "Header.extend (zeroHeader\<lparr>IsLongHeader := True, h_Version := VersionTLS, h_Type := PacketTypeInitial, DestConnectionID := [1, 2, 3], SrcConnectionID := [4], h_Token := [9, 9], h_Length := 5\<rparr>)
      \<lparr>eh_typeByte = 0, KeyPhase = KeyPhaseZero, eh_PacketNumberLen = 2, eh_PacketNumber = 0x12345\<rparr> :: ExtendedHeader"
  have "case ExtendedHeader_Write [] ?h of Inl _ \<Rightarrow> False | Inr bs \<Rightarrow> length bs = 17" by code_simp
  then have l: "\<forall>bs. ExtendedHeader_Write [] ?h = Inr bs \<longrightarrow> length bs + length [7, 7, 7 :: byte] + length [8 :: byte] < 2 ^ 61" by auto
  have w: "wf_ExtendedHeader ?h" "if IsLongHeader ?h then unat (h_Length ?h) = unat (eh_PacketNumberLen ?h) + length [7, 7, 7 :: byte] else [8 :: byte] = []"
    by (simp_all add: wf_ExtendedHeader_def zeroHeader_def Header.defs MaxConnIDLen_def maxVarInt8_def)
  obtain bs hdr eh where r: "ExtendedHeader_Write [] ?h = Inr bs" "GetLength ?h = Inr (word_of_nat (length bs))"
    "ParsePacket (bs @ [7, 7, 7] @ [8]) (length (DestConnectionID ?h)) = Inr (hdr, bs @ [7, 7, 7], [8])" "ParseExtended hdr (bs @ [7, 7, 7]) = Inr ((eh, None), [7, 7, 7])"
    and eq: "eh = ?h\<lparr>h_typeByte := h_typeByte eh, parsedLen := parsedLen eh, eh_typeByte := eh_typeByte eh,
      eh_PacketNumber := eh_PacketNumber ?h mod 2 ^ (8 * unat (eh_PacketNumberLen ?h))\<rparr>"
    using header_roundtrip [OF w l] by blast
  have "length (DestConnectionID ?h) = 3" by (simp add: zeroHeader_def Header.defs)
  moreover have "eh_PacketNumber eh = 0x2345" using arg_cong [OF eq, of eh_PacketNumber] by (simp add: Header.defs)
  ultimately show ?thesis using r unfolding Let_def by metis
qed

section \<open>Retry and version negotiation\<close>

lemma retry_roundtrip:
  assumes "h = Header.extend (zeroHeader\<lparr>IsLongHeader := True, h_Version := VersionTLS, h_Type := PacketTypeRetry, DestConnectionID := dest, SrcConnectionID := src,
      OrigDestConnectionID := orig, h_Token := token\<rparr>) x"
    and "length dest \<le> MaxConnIDLen" "length src \<le> MaxConnIDLen" "length orig \<le> MaxConnIDLen" "length token < 2 ^ 61"
  shows "\<exists>bs hdr. ExtendedHeader_Write [] (h :: ExtendedHeader) = Inr bs \<and> ParsePacket bs n = Inr (hdr, bs, []) \<and> h_Type hdr = PacketTypeRetry \<and>
    DestConnectionID hdr = dest \<and> SrcConnectionID hdr = src \<and> OrigDestConnectionID hdr = orig \<and> h_Token hdr = token"
proof -
  define bs where "bs = [0xf0] @ WriteUint32 [] VersionTLS @ [word_of_nat (length dest)] @ dest @ [word_of_nat (length src)] @ src @ [word_of_nat (length orig)] @ orig @ token"
  have wr: "ExtendedHeader_Write [] h = Inr bs"
    using assms by (simp add: ExtendedHeader_Write_def writeLongHeader_def bs_def Header.defs zeroHeader_def Let_def WriteUint32_append)
  have lens: "unat (word_of_nat (length dest) :: byte) = length dest" "unat (word_of_nat (length src) :: byte) = length src" "unat (word_of_nat (length orig) :: byte) = length orig"
    using assms(2-4) by (simp_all add: unat_byte_small MaxConnIDLen_def)
  have v: "IsSupportedVersion SupportedVersions VersionTLS" "VersionTLS \<noteq> 0" by (simp_all add: SupportedVersions_def VersionTLS_def)
  have "parseHeader bs n = Inr (zeroHeader\<lparr>h_typeByte := 0xf0, IsLongHeader := True, h_Version := VersionTLS, DestConnectionID := dest, SrcConnectionID := src, h_Type := PacketTypeRetry,
      OrigDestConnectionID := orig, h_Token := token, parsedLen := word_of_nat (length bs)\<rparr>, [])" (is "_ = Inr (?hdr, [])")
    using v lens by (simp add: bs_def parseHeader_def parseHeaderImpl_def parseLongHeader_def parseVersionDependent_def parseRetry_def longHeaderType_def Let_def ReadUint32_WriteUint32
        ReadConnectionID_append ReadFull_def zeroHeader_def)
  moreover have "length bs < 2 ^ 62" using assms(2-5) by (simp add: bs_def WriteUint32_def MaxConnIDLen_def)
  ultimately have "ParsePacket bs n = Inr (?hdr, bs, [])" by (intro ParsePacket_long) (simp_all add: ParsedLen_def zeroHeader_def)
  then show ?thesis using wr by (simp add: zeroHeader_def)
qed

lemma readVersions_bytes: "readVersions ws (concat (map (WriteUint32 []) vs)) = Inr (ws @ vs, [])"
proof (induction vs arbitrary: ws)
  case Nil
  then show ?case by (subst readVersions.simps) simp
next
  case (Cons v vs)
  have "0 < length (WriteUint32 [] v @ concat (map (WriteUint32 []) vs))" by (simp add: WriteUint32_def)
  then show ?case using Cons by (subst readVersions.simps) (simp add: ReadUint32_WriteUint32)
qed

lemma foldl_WriteUint32: "foldl WriteUint32 b vs = b @ concat (map (WriteUint32 []) vs)"
  by (induction vs arbitrary: b) (simp_all add: WriteUint32_def)

text \<open>C18. The Version Negotiation packet a server composes is recognised as such, and a client that parses it finds the connection ids and,
  once the reserved versions are removed, exactly the versions of the server.\<close>

theorem version_negotiation_roundtrip:
  assumes "length dest \<le> MaxConnIDLen" "length src \<le> MaxConnIDLen" and "\<forall>v \<in> set versions. v AND 0x0f0f0f0f \<noteq> 0x0a0a0a0a" and "length versions < 2 ^ 50"
  shows "let d = ComposeVersionNegotiation b0 rnd r0 dest src versions in IsVersionNegotiationPacket d \<and>
    (\<exists>hdr. ParsePacket d n = Inr (hdr, d, []) \<and> h_Version hdr = 0 \<and> DestConnectionID hdr = dest \<and> SrcConnectionID hdr = src \<and>
      StripGreasedVersions (h_SupportedVersions hdr) = versions)"
proof -
  define vs where "vs = GetGreasedVersions b0 rnd versions"
  define d where "d = [r0 OR 0xc0] @ WriteUint32 [] 0 @ [word_of_nat (length dest)] @ dest @ [word_of_nat (length src)] @ src @ concat (map (WriteUint32 []) vs)"
  have d: "ComposeVersionNegotiation b0 rnd r0 dest src versions = d"
    by (simp add: ComposeVersionNegotiation_def d_def vs_def foldl_WriteUint32 WriteUint32_append Let_def)
  have "bit ((r0 OR 0xc0) AND 0x80) 7" by (simp add: bit_simps)
  then have "(r0 OR 0xc0) AND 0x80 \<noteq> 0" by (metis bit_0_eq bot_apply bot_bool_def)
  then have r0: "(r0 OR 0xc0) AND 0x80 > 0" by (simp only: word_gt_0 not_False_eq_True eq_commute [of 0] simp_thms)
  have lens: "unat (word_of_nat (length dest) :: byte) = length dest" "unat (word_of_nat (length src) :: byte) = length src"
    using assms(1,2) by (simp_all add: unat_byte_small MaxConnIDLen_def)
  have len: "length (concat (map (WriteUint32 []) vs)) = 4 * length vs" by (induction vs) (simp_all add: WriteUint32_def)
  have n: "length vs = Suc (length versions)" by (simp add: vs_def GetGreasedVersions_def Let_def)
  have "parseHeader d n = Inr (zeroHeader\<lparr>h_typeByte := r0 OR 0xc0, IsLongHeader := True, DestConnectionID := dest, SrcConnectionID := src,
      h_SupportedVersions := vs, parsedLen := word_of_nat (length d)\<rparr>, [])" (is "_ = Inr (?hdr, [])")
    using r0 lens len n by (simp add: d_def parseHeader_def parseHeaderImpl_def parseLongHeader_def parseVersionDependent_def parseVersionNegotiationPacket_def Let_def
        ReadUint32_WriteUint32 ReadConnectionID_append readVersions_bytes zeroHeader_def del: length_concat)
  moreover have "length d < 2 ^ 62" using assms len n by (simp add: d_def WriteUint32_def MaxConnIDLen_def del: length_concat)
  ultimately have "ParsePacket d n = Inr (?hdr, d, [])" by (intro ParsePacket_long) (simp_all add: ParsedLen_def zeroHeader_def)
  moreover have "IsVersionNegotiationPacket d" using r0 by (simp add: d_def IsVersionNegotiationPacket_def WriteUint32_def)
  moreover have "StripGreasedVersions vs = versions" using greasing_transparent [OF assms(3)] by (simp add: vs_def)
  ultimately show ?thesis unfolding d by (simp add: zeroHeader_def Let_def)
qed

theorem version_negotiation_roundtrip_witness:
  "\<exists>hdr. ParsePacket (ComposeVersionNegotiation 5 0x12345678 9 [1, 2] [3] SupportedVersions) 4 = Inr (hdr, ComposeVersionNegotiation 5 0x12345678 9 [1, 2] [3] SupportedVersions, []) \<and>
    StripGreasedVersions (h_SupportedVersions hdr) = SupportedVersions"
proof -
  have "length [1, 2 :: byte] \<le> MaxConnIDLen" "length [3 :: byte] \<le> MaxConnIDLen" "\<forall>v \<in> set SupportedVersions. v AND 0x0f0f0f0f \<noteq> 0x0a0a0a0a" "length SupportedVersions < 2 ^ 50"
    by (simp_all add: MaxConnIDLen_def SupportedVersions_def VersionTLS_def)
  from version_negotiation_roundtrip [OF this] show ?thesis unfolding Let_def by blast
qed

end
