(* ===== verification/TransportParams.thy ===== *)
theory TransportParams
  imports WireHeader RttStats
begin

text \<open>
  Transport parameters, \<open>handshake/transport_parameters.go\<close>: how an endpoint encodes the parameters it announces in the TLS
  handshake, and how the peer decodes them. The random numbers of the greased parameter are arguments. The result of a decoding
  that fails is the error alone; the caller drops the partially filled parameters.

  The lemmas show that decoding undoes encoding, up to the rounding of times to milliseconds and the lower bound for the idle
  timeout.
\<close>

section \<open>Parameters\<close>

definition originalConnectionIDParameterID :: u16 where "originalConnectionIDParameterID = 0x0"
definition idleTimeoutParameterID :: u16 where "idleTimeoutParameterID = 0x1"
definition statelessResetTokenParameterID :: u16 where "statelessResetTokenParameterID = 0x2"
definition maxPacketSizeParameterID :: u16 where "maxPacketSizeParameterID = 0x3"
definition initialMaxDataParameterID :: u16 where "initialMaxDataParameterID = 0x4"
definition initialMaxStreamDataBidiLocalParameterID :: u16 where "initialMaxStreamDataBidiLocalParameterID = 0x5"
definition initialMaxStreamDataBidiRemoteParameterID :: u16 where "initialMaxStreamDataBidiRemoteParameterID = 0x6"
definition initialMaxStreamDataUniParameterID :: u16 where "initialMaxStreamDataUniParameterID = 0x7"
definition initialMaxStreamsBidiParameterID :: u16 where "initialMaxStreamsBidiParameterID = 0x8"
definition initialMaxStreamsUniParameterID :: u16 where "initialMaxStreamsUniParameterID = 0x9"
definition ackDelayExponentParameterID :: u16 where "ackDelayExponentParameterID = 0xa"
definition maxAckDelayParameterID :: u16 where "maxAckDelayParameterID = 0xb"
definition disableMigrationParameterID :: u16 where "disableMigrationParameterID = 0xc"

lemmas parameterID_defs = originalConnectionIDParameterID_def idleTimeoutParameterID_def statelessResetTokenParameterID_def
  maxPacketSizeParameterID_def initialMaxDataParameterID_def initialMaxStreamDataBidiLocalParameterID_def
  initialMaxStreamDataBidiRemoteParameterID_def initialMaxStreamDataUniParameterID_def initialMaxStreamsBidiParameterID_def
  initialMaxStreamsUniParameterID_def ackDelayExponentParameterID_def maxAckDelayParameterID_def disableMigrationParameterID_def

definition MaxAckDelayExponent :: u64 where "MaxAckDelayExponent = 20"
definition DefaultMaxAckDelay :: Duration where "DefaultMaxAckDelay = 25 * Millisecond"
definition MaxMaxAckDelay :: Duration where "MaxMaxAckDelay = 2 ^ 14 * Millisecond"
definition MinRemoteIdleTimeout :: Duration where "MinRemoteIdleTimeout = 5 * Second"

record TransportParameters =
  InitialMaxStreamDataBidiLocal :: ByteCount
  InitialMaxStreamDataBidiRemote :: ByteCount
  InitialMaxStreamDataUni :: ByteCount
  InitialMaxData :: ByteCount
  tp_MaxAckDelay :: Duration
  tp_AckDelayExponent :: byte
  DisableMigration :: bool
  MaxPacketSize :: ByteCount
  MaxUniStreamNum :: StreamNum
  MaxBidiStreamNum :: StreamNum
  IdleTimeout :: Duration
  StatelessResetToken :: "byte list option"
  OriginalConnectionID :: ConnectionID

definition zeroParameters :: TransportParameters where
  "zeroParameters =
    \<lparr>InitialMaxStreamDataBidiLocal = 0, InitialMaxStreamDataBidiRemote = 0, InitialMaxStreamDataUni = 0, InitialMaxData = 0,
     tp_MaxAckDelay = 0, tp_AckDelayExponent = 0, DisableMigration = False, MaxPacketSize = 0, MaxUniStreamNum = 0, MaxBidiStreamNum = 0,
     IdleTimeout = 0, StatelessResetToken = None, OriginalConnectionID = []\<rparr>"

section \<open>Decoding\<close>

definition setNumericParameter :: "TransportParameters \<Rightarrow> u16 \<Rightarrow> u64 \<Rightarrow> go_error + TransportParameters" where
  "setNumericParameter p paramID val =
    (if paramID = initialMaxStreamDataBidiLocalParameterID then Inr (p\<lparr>InitialMaxStreamDataBidiLocal := val\<rparr>)
     else if paramID = initialMaxStreamDataBidiRemoteParameterID then Inr (p\<lparr>InitialMaxStreamDataBidiRemote := val\<rparr>)
     else if paramID = initialMaxStreamDataUniParameterID then Inr (p\<lparr>InitialMaxStreamDataUni := val\<rparr>)
     else if paramID = initialMaxDataParameterID then Inr (p\<lparr>InitialMaxData := val\<rparr>)
     else if paramID = initialMaxStreamsBidiParameterID then Inr (p\<lparr>MaxBidiStreamNum := int64_of val\<rparr>)
     else if paramID = initialMaxStreamsUniParameterID then Inr (p\<lparr>MaxUniStreamNum := int64_of val\<rparr>)
     else if paramID = idleTimeoutParameterID then
       Inr (p\<lparr>IdleTimeout := MaxDuration MinRemoteIdleTimeout (i64 (int64_of val * Millisecond))\<rparr>)
     else if paramID = maxPacketSizeParameterID then
       if val < 1200 then Inl (Errorf (''invalid value for max_packet_size: %d (minimum 1200)'', [uint val]))
       else Inr (p\<lparr>MaxPacketSize := val\<rparr>)
     else if paramID = ackDelayExponentParameterID then
       if val > MaxAckDelayExponent then
         Inl (Errorf (''invalid value for ack_delay_exponent: %d (maximum %d)'', [uint val, uint MaxAckDelayExponent]))
       else Inr (p\<lparr>tp_AckDelayExponent := ucast val\<rparr>)
     else if paramID = maxAckDelayParameterID then
       let maxAckDelay = i64 (int64_of val * Millisecond) in
       if maxAckDelay \<ge> MaxMaxAckDelay then
         Inl (Errorf (''invalid value for max_ack_delay: %dms (maximum %dms)'',
           [maxAckDelay sdiv Millisecond, (MaxMaxAckDelay - Millisecond) sdiv Millisecond]))
       else
         let maxAckDelay = (if maxAckDelay < 0 then InfDuration else maxAckDelay)
         in Inr (p\<lparr>tp_MaxAckDelay := maxAckDelay\<rparr>)
     else Inl (Errorf (''TransportParameter BUG: transport parameter %d not found'', [uint paramID])))"

definition readNumericTransportParameter :: "TransportParameters \<Rightarrow> reader \<Rightarrow> u16 \<Rightarrow> nat \<Rightarrow> TransportParameters parse" where
  "readNumericTransportParameter p r paramID expectedLen =
    (case ReadVarInt r of
       Inl _ \<Rightarrow> Inl (Errorf (''error while reading transport parameter %d: %s'', [uint paramID]))
     | Inr (val, r') \<Rightarrow>
         if int (length r) - int (length r') \<noteq> int expectedLen
         then Inl (Errorf (''inconsistent transport parameter length for %d'', [uint paramID]))
         else tryE (setNumericParameter p paramID val) (\<lambda>p. Inr (p, r')))"

definition readOtherParameter :: "TransportParameters \<Rightarrow> Perspective \<Rightarrow> reader \<Rightarrow> u16 \<Rightarrow> nat \<Rightarrow> TransportParameters parse" where
  "readOtherParameter p sentBy r paramID paramLen =
    (if length r < paramLen then
       Inl (Errorf (''remaining length (%d) smaller than parameter length (%d)'', [int (length r), int paramLen]))
     else if paramID = disableMigrationParameterID then
       if paramLen \<noteq> 0 then Inl (Errorf (''wrong length for disable_migration: %d (expected empty)'', [int paramLen]))
       else Inr (p\<lparr>DisableMigration := True\<rparr>, r)
     else if paramID = statelessResetTokenParameterID then
       if sentBy = PerspectiveClient then Inl (Errorf (''client sent a stateless_reset_token'', []))
       else if paramLen \<noteq> 16 then Inl (Errorf (''wrong length for stateless_reset_token: %d (expected 16)'', [int paramLen]))
       else Inr (p\<lparr>StatelessResetToken := Some (take 16 r)\<rparr>, drop 16 r)
     else if paramID = originalConnectionIDParameterID then
       if sentBy = PerspectiveClient then Inl (Errorf (''client sent an original_connection_id'', []))
       else (case ReadConnectionID r paramLen of
               Inl _ \<Rightarrow> Inr (p\<lparr>OriginalConnectionID := []\<rparr>, [])
             | Inr (c, r) \<Rightarrow> Inr (p\<lparr>OriginalConnectionID := c\<rparr>, r))
     else Inr (p, drop paramLen r))"

definition isNumeric :: "u16 \<Rightarrow> bool" where
  "isNumeric paramID \<longleftrightarrow> paramID \<in> {ackDelayExponentParameterID, maxAckDelayParameterID, initialMaxStreamDataBidiLocalParameterID,
     initialMaxStreamDataBidiRemoteParameterID, initialMaxStreamDataUniParameterID, initialMaxDataParameterID,
     initialMaxStreamsBidiParameterID, initialMaxStreamsUniParameterID, idleTimeoutParameterID, maxPacketSizeParameterID}"

definition readParameter :: "TransportParameters \<Rightarrow> Perspective \<Rightarrow> reader \<Rightarrow> u16 \<Rightarrow> nat \<Rightarrow> TransportParameters parse" where
  "readParameter p sentBy r paramID paramLen =
    (if isNumeric paramID then readNumericTransportParameter p r paramID paramLen else readOtherParameter p sentBy r paramID paramLen)"

lemma readParameter_shorter: "readParameter p sentBy r paramID paramLen = Inr (p', r') \<Longrightarrow> length r' \<le> length r"
  by (auto simp: readParameter_def readNumericTransportParameter_def readOtherParameter_def ReadConnectionID_def ReadFull_def tryE_eq_Inr
      dest: ReadVarInt_suffix(2) split: sum.splits if_splits)

lemma ReadUint16_shorter: "ReadUint16 r = Inr (x, r') \<Longrightarrow> length r = length r' + 2"
  by (auto simp: ReadUint16_def tryE_eq_Inr ReadByte_eq_Inr)

text \<open>The identifiers that were read are kept in order; that \<open>ack_delay_exponent\<close> or \<open>max_ack_delay\<close> was read shows in them.\<close>

function readParameters :: "TransportParameters \<Rightarrow> u16 list \<Rightarrow> Perspective \<Rightarrow> reader \<Rightarrow> (TransportParameters \<times> u16 list) parse" where
  "readParameters p parameterIDs sentBy r =
    (if length r \<ge> 4 then
       tryE (ReadUint16 r) (\<lambda>(paramID, r).
       tryE (ReadUint16 r) (\<lambda>(paramLen, r).
       tryE (readParameter p sentBy r paramID (unat paramLen)) (\<lambda>(p, r).
       readParameters p (parameterIDs @ [paramID]) sentBy r)))
     else Inr ((p, parameterIDs), r))"
  by pat_completeness auto
termination
  by (relation "measure (\<lambda>(_, _, _, r). length r)") (auto dest!: ReadUint16_shorter readParameter_shorter)

declare readParameters.simps [simp del]

fun findDuplicate :: "u16 list \<Rightarrow> u16 option" where
  "findDuplicate (a # b # xs) = (if a = b then Some a else findDuplicate (b # xs))"
| "findDuplicate _ = None"

definition Unmarshal :: "TransportParameters \<Rightarrow> byte list \<Rightarrow> Perspective \<Rightarrow> go_error + TransportParameters" where
  "Unmarshal p data sentBy =
    (if length data < 2 then Inl (Errorf (''transport parameter data too short'', []))
     else
       let len = 256 * unat (data ! 0) + unat (data ! 1) in
       if length data - 2 < len then
         Inl (Errorf (''expected transport parameters to be %d bytes long, have %d'', [int len, int (length data - 2)]))
       else
         tryE (readParameters p [] sentBy (drop 2 data)) (\<lambda>((p, parameterIDs), r).
         let p = (if ackDelayExponentParameterID \<notin> set parameterIDs then p\<lparr>tp_AckDelayExponent := DefaultAckDelayExponent\<rparr> else p);
             p = (if maxAckDelayParameterID \<notin> set parameterIDs then p\<lparr>tp_MaxAckDelay := DefaultMaxAckDelay\<rparr> else p);
             p = (if MaxPacketSize p = 0 then p\<lparr>MaxPacketSize := MaxByteCount\<rparr> else p)
         in case findDuplicate (sort parameterIDs) of
              Some d \<Rightarrow> Inl (Errorf (''received duplicate transport parameter %#x'', [uint d]))
            | None \<Rightarrow>
                if length r \<noteq> 0 then Inl (Errorf (''should have read all data. Still have %d bytes'', [int (length r)]))
                else Inr p))"

section \<open>Encoding\<close>

definition marshalVarintParam :: "byte list \<Rightarrow> u16 \<Rightarrow> u64 \<Rightarrow> go_error + byte list" where
  "marshalVarintParam b paramID val =
    tryE (VarIntLen val) (\<lambda>len. WriteVarInt (WriteUint16 (WriteUint16 b paramID) (ucast len)) val)"

text \<open>\<open>grease\<close> and \<open>randomData\<close>: the results of \<open>rand.Intn(100)\<close> and \<open>rand.Read\<close>.\<close>

definition Marshal :: "nat \<Rightarrow> byte list \<Rightarrow> TransportParameters \<Rightarrow> go_error + byte list" where
  "Marshal grease randomData p =
    (let b = [0, 0];
         b = WriteUint16 b (word_of_nat (27 + 31 * grease));
         b = WriteUint16 b (word_of_nat (length randomData));
         b = b @ randomData
     in tryE (marshalVarintParam b initialMaxStreamDataBidiLocalParameterID (InitialMaxStreamDataBidiLocal p)) (\<lambda>b.
        tryE (marshalVarintParam b initialMaxStreamDataBidiRemoteParameterID (InitialMaxStreamDataBidiRemote p)) (\<lambda>b.
        tryE (marshalVarintParam b initialMaxStreamDataUniParameterID (InitialMaxStreamDataUni p)) (\<lambda>b.
        tryE (marshalVarintParam b initialMaxDataParameterID (InitialMaxData p)) (\<lambda>b.
        tryE (marshalVarintParam b initialMaxStreamsBidiParameterID (uint64_of (MaxBidiStreamNum p))) (\<lambda>b.
        tryE (marshalVarintParam b initialMaxStreamsUniParameterID (uint64_of (MaxUniStreamNum p))) (\<lambda>b.
        tryE (marshalVarintParam b idleTimeoutParameterID (uint64_of (IdleTimeout p sdiv Millisecond))) (\<lambda>b.
        tryE (marshalVarintParam b maxPacketSizeParameterID MaxReceivePacketSize) (\<lambda>b.
        tryE (if tp_MaxAckDelay p \<noteq> DefaultMaxAckDelay
              then marshalVarintParam b maxAckDelayParameterID (uint64_of (tp_MaxAckDelay p sdiv Millisecond)) else Inr b) (\<lambda>b.
        tryE (if tp_AckDelayExponent p \<noteq> DefaultAckDelayExponent
              then marshalVarintParam b ackDelayExponentParameterID (ucast (tp_AckDelayExponent p)) else Inr b) (\<lambda>b.
        let b = (if DisableMigration p then WriteUint16 (WriteUint16 b disableMigrationParameterID) 0 else b);
            b = (case StatelessResetToken p of
                   None \<Rightarrow> b | Some token \<Rightarrow> WriteUint16 (WriteUint16 b statelessResetTokenParameterID) 16 @ token);
            b = (if length (OriginalConnectionID p) > 0
                 then WriteUint16 (WriteUint16 b originalConnectionIDParameterID) (word_of_nat (length (OriginalConnectionID p))) @ OriginalConnectionID p
                 else b)
        in Inr (WriteUint16 [] (word_of_nat (length b - 2)) @ drop 2 b))))))))))))"

section \<open>Decoding what was encoded\<close>

definition param :: "u16 \<Rightarrow> byte list \<Rightarrow> byte list" where
  "param paramID body = WriteUint16 [] paramID @ WriteUint16 [] (word_of_nat (length body)) @ body"

lemma readParameters_param:
  assumes "readParameter p sentBy (body @ r) paramID (length body) = Inr (p', r)" and "length body < 2 ^ 16"
  shows "readParameters p ids sentBy (param paramID body @ r) = readParameters p' (ids @ [paramID]) sentBy r"
proof -
  have u: "unat (word_of_nat (length body) :: u16) = length body" using assms(2) by (simp add: unsigned_of_nat take_bit_nat_eq_self)
  have l: "4 \<le> length (param paramID body @ r)" by (simp add: param_def)
  show ?thesis using assms(1) u l by (subst readParameters.simps) (simp add: param_def ReadUint16_WriteUint16)
qed

lemma readParameters_end: "readParameters p ids sentBy [] = Inr ((p, ids), [])"
  by (subst readParameters.simps) simp

text \<open>A sequence of parameters, each with the effect it has on the reader's side.\<close>

type_synonym written = "u16 \<times> byte list \<times> (TransportParameters \<Rightarrow> TransportParameters)"

definition has_effect :: "Perspective \<Rightarrow> written \<Rightarrow> bool" where
  "has_effect sentBy x \<longleftrightarrow> (case x of (paramID, body, f) \<Rightarrow>
    length body < 2 ^ 16 \<and> (\<forall>p r. readParameter p sentBy (body @ r) paramID (length body) = Inr (f p, r)))"

definition bytes_of :: "written list \<Rightarrow> byte list" where
  "bytes_of xs = concat (map (\<lambda>(paramID, body, f). param paramID body) xs)"

definition effect_of :: "TransportParameters \<Rightarrow> written list \<Rightarrow> TransportParameters" where
  "effect_of p xs = foldl (\<lambda>p (paramID, body, f). f p) p xs"

lemma readParameters_written:
  "\<forall>x \<in> set xs. has_effect sentBy x \<Longrightarrow> readParameters p ids sentBy (bytes_of xs) = Inr ((effect_of p xs, ids @ map fst xs), [])"
proof (induction xs arbitrary: p ids)
  case (Cons x xs)
  obtain paramID body f where x: "x = (paramID, body, f)" by (cases x) auto
  then have "length body < 2 ^ 16" "\<And>p r. readParameter p sentBy (body @ r) paramID (length body) = Inr (f p, r)" using Cons.prems by (auto simp: has_effect_def)
  then show ?case using Cons x by (simp add: bytes_of_def effect_of_def readParameters_param)
qed (simp add: bytes_of_def effect_of_def readParameters_end)

lemma written_numeric:
  assumes "isNumeric paramID" and "v \<le> maxVarInt8" and "\<And>p. setNumericParameter p paramID v = Inr (f p)"
  shows "has_effect sentBy (paramID, varint_bytes v, f)"
  using assms length_varint_bytes [OF assms(2)]
  by (auto simp: has_effect_def readParameter_def readNumericTransportParameter_def ReadVarInt_varint_bytes)

lemma ucast_u64_u16: "n < 2 ^ 16 \<Longrightarrow> (ucast (word_of_nat n :: u64) :: u16) = word_of_nat n"
  by (simp add: word_unat_eq_iff unsigned_ucast_eq unsigned_of_nat take_bit_nat_eq_self unsigned_take_bit_eq)

lemma marshalVarintParam_bytes:
  assumes "v \<le> maxVarInt8"
  shows "marshalVarintParam b paramID v = Inr (b @ param paramID (varint_bytes v))"
  using assms length_varint_bytes(2) [OF assms]
  by (simp add: marshalVarintParam_def VarIntLen_varint_bytes WriteVarInt_ok param_def WriteUint16_append ucast_u64_u16)

lemma findDuplicate_distinct: "distinct ids \<Longrightarrow> findDuplicate (sort ids) = None"
proof -
  have "findDuplicate xs = None" if "distinct xs" for xs using that by (induction xs rule: findDuplicate.induct) auto
  then show "distinct ids \<Longrightarrow> findDuplicate (sort ids) = None" by simp
qed

definition wf_TransportParameters :: "Perspective \<Rightarrow> TransportParameters \<Rightarrow> bool" where
  "wf_TransportParameters sentBy p \<longleftrightarrow>
    InitialMaxStreamDataBidiLocal p \<le> maxVarInt8 \<and> InitialMaxStreamDataBidiRemote p \<le> maxVarInt8 \<and> InitialMaxStreamDataUni p \<le> maxVarInt8 \<and>
    InitialMaxData p \<le> maxVarInt8 \<and> 0 \<le> MaxBidiStreamNum p \<and> MaxBidiStreamNum p < 2 ^ 62 \<and> 0 \<le> MaxUniStreamNum p \<and> MaxUniStreamNum p < 2 ^ 62 \<and>
    0 \<le> IdleTimeout p \<and> IdleTimeout p < 2 ^ 63 \<and> 0 \<le> tp_MaxAckDelay p \<and> tp_MaxAckDelay p < MaxMaxAckDelay \<and> tp_AckDelayExponent p \<le> 20 \<and>
    (case StatelessResetToken p of None \<Rightarrow> True | Some token \<Rightarrow> length token = 16 \<and> sentBy = PerspectiveServer) \<and>
    length (OriginalConnectionID p) \<le> MaxConnIDLen \<and> (OriginalConnectionID p \<noteq> [] \<longrightarrow> sentBy = PerspectiveServer)"

definition inMilliseconds :: "Duration \<Rightarrow> Duration" where
  "inMilliseconds d = d div Millisecond * Millisecond"

definition written_parameters :: "nat \<Rightarrow> byte list \<Rightarrow> TransportParameters \<Rightarrow> written list" where
  "written_parameters grease randomData p =
    [(word_of_nat (27 + 31 * grease), randomData, \<lambda>q. q),
     (initialMaxStreamDataBidiLocalParameterID, varint_bytes (InitialMaxStreamDataBidiLocal p), \<lambda>q. q\<lparr>InitialMaxStreamDataBidiLocal := InitialMaxStreamDataBidiLocal p\<rparr>),
     (initialMaxStreamDataBidiRemoteParameterID, varint_bytes (InitialMaxStreamDataBidiRemote p), \<lambda>q. q\<lparr>InitialMaxStreamDataBidiRemote := InitialMaxStreamDataBidiRemote p\<rparr>),
     (initialMaxStreamDataUniParameterID, varint_bytes (InitialMaxStreamDataUni p), \<lambda>q. q\<lparr>InitialMaxStreamDataUni := InitialMaxStreamDataUni p\<rparr>),
     (initialMaxDataParameterID, varint_bytes (InitialMaxData p), \<lambda>q. q\<lparr>InitialMaxData := InitialMaxData p\<rparr>),
     (initialMaxStreamsBidiParameterID, varint_bytes (uint64_of (MaxBidiStreamNum p)), \<lambda>q. q\<lparr>MaxBidiStreamNum := MaxBidiStreamNum p\<rparr>),
     (initialMaxStreamsUniParameterID, varint_bytes (uint64_of (MaxUniStreamNum p)), \<lambda>q. q\<lparr>MaxUniStreamNum := MaxUniStreamNum p\<rparr>),
     (idleTimeoutParameterID, varint_bytes (uint64_of (IdleTimeout p sdiv Millisecond)), \<lambda>q. q\<lparr>IdleTimeout := max MinRemoteIdleTimeout (inMilliseconds (IdleTimeout p))\<rparr>),
     (maxPacketSizeParameterID, varint_bytes MaxReceivePacketSize, \<lambda>q. q\<lparr>MaxPacketSize := MaxReceivePacketSize\<rparr>)] @
    (if tp_MaxAckDelay p \<noteq> DefaultMaxAckDelay
     then [(maxAckDelayParameterID, varint_bytes (uint64_of (tp_MaxAckDelay p sdiv Millisecond)), \<lambda>q. q\<lparr>tp_MaxAckDelay := inMilliseconds (tp_MaxAckDelay p)\<rparr>)] else []) @
    (if tp_AckDelayExponent p \<noteq> DefaultAckDelayExponent
     then [(ackDelayExponentParameterID, varint_bytes (ucast (tp_AckDelayExponent p)), \<lambda>q. q\<lparr>tp_AckDelayExponent := tp_AckDelayExponent p\<rparr>)] else []) @
    (if DisableMigration p then [(disableMigrationParameterID, [], \<lambda>q. q\<lparr>DisableMigration := True\<rparr>)] else []) @
    (case StatelessResetToken p of None \<Rightarrow> [] | Some token \<Rightarrow> [(statelessResetTokenParameterID, token, \<lambda>q. q\<lparr>StatelessResetToken := Some token\<rparr>)]) @
    (if OriginalConnectionID p \<noteq> [] then [(originalConnectionIDParameterID, OriginalConnectionID p, \<lambda>q. q\<lparr>OriginalConnectionID := OriginalConnectionID p\<rparr>)] else [])"

lemma milliseconds:
  assumes "0 \<le> d" and "d < 2 ^ 63"
  shows "d sdiv Millisecond = d div Millisecond" "uint64_of (d div Millisecond) \<le> maxVarInt8" "int64_of (uint64_of (d div Millisecond)) = d div Millisecond"
    "i64 (d div Millisecond * Millisecond) = inMilliseconds d" "0 \<le> inMilliseconds d" "inMilliseconds d \<le> d"
proof -
  have M: "Millisecond = 1000000" by (simp add: Millisecond_def Microsecond_def)
  show "d sdiv Millisecond = d div Millisecond" using assms by (simp add: M sdiv_nonneg)
  have r: "0 \<le> d div 1000000" "d div 1000000 < 2 ^ 61" using assms by simp_all
  then show "uint64_of (d div Millisecond) \<le> maxVarInt8" "int64_of (uint64_of (d div Millisecond)) = d div Millisecond"
    by (simp_all add: M word_le_nat_alt unat_uint64_of maxVarInt8_def nat_le_iff)
  have "d div 1000000 * 1000000 \<le> d" "0 \<le> d div 1000000 * 1000000" using r div_mult_mod_eq [of d 1000000] pos_mod_sign [of 1000000 d] by linarith+
  then show "i64 (d div Millisecond * Millisecond) = inMilliseconds d" "0 \<le> inMilliseconds d" "inMilliseconds d \<le> d"
    using assms by (simp_all add: M inMilliseconds_def)
qed


lemma unat_ucast_byte: "unat (ucast (b :: byte) :: u64) = unat b"
  using unat_lt_byte [of b] by (simp add: unsigned_ucast_eq take_bit_nat_eq_self)

lemma ucast_byte_varint: "(ucast (b :: byte) :: u64) \<le> maxVarInt8"
  using unat_lt_byte [of b] by (simp add: word_le_nat_alt unat_ucast_byte maxVarInt8_def)

lemma written_values:
  assumes "wf_TransportParameters sentBy p"
  shows "uint64_of (IdleTimeout p sdiv Millisecond) \<le> maxVarInt8" "uint64_of (tp_MaxAckDelay p sdiv Millisecond) \<le> maxVarInt8"
    "uint64_of (MaxBidiStreamNum p) \<le> maxVarInt8" "uint64_of (MaxUniStreamNum p) \<le> maxVarInt8" "MaxReceivePacketSize \<le> maxVarInt8"
    "InitialMaxStreamDataBidiLocal p \<le> maxVarInt8" "InitialMaxStreamDataBidiRemote p \<le> maxVarInt8" "InitialMaxStreamDataUni p \<le> maxVarInt8" "InitialMaxData p \<le> maxVarInt8"
proof -
  have "tp_MaxAckDelay p < 2 ^ 63" using assms by (simp add: wf_TransportParameters_def MaxMaxAckDelay_def Millisecond_def Microsecond_def)
  then show "uint64_of (IdleTimeout p sdiv Millisecond) \<le> maxVarInt8" "uint64_of (tp_MaxAckDelay p sdiv Millisecond) \<le> maxVarInt8"
    using assms by (simp_all add: wf_TransportParameters_def milliseconds)
qed (use assms in \<open>simp_all add: wf_TransportParameters_def word_le_nat_alt unat_uint64_of maxVarInt8_def MaxReceivePacketSize_def nat_le_iff\<close>)

lemma param_bytes:
  "WriteUint16 (WriteUint16 b paramID) 0 = b @ param paramID []"
  "length token = 16 \<Longrightarrow> WriteUint16 (WriteUint16 b paramID) 16 @ token = b @ param paramID token"
  "WriteUint16 (WriteUint16 b paramID) (word_of_nat (length c)) @ c = b @ param paramID c"
  by (simp_all add: param_def WriteUint16_append)

lemma written_optional:
  "(if c then Inr (b @ x) else Inr b) = Inr (b @ (if c then x else []))"
  "(if c then b @ x else b) = b @ (if c then x else [])"
  "(case t of None \<Rightarrow> b | Some v \<Rightarrow> b @ f v) = b @ (case t of None \<Rightarrow> [] | Some v \<Rightarrow> f v)"
  by (simp_all split: option.splits)

lemma bytes_of_simps:
  "bytes_of [] = []" "bytes_of ((paramID, body, f) # xs) = param paramID body @ bytes_of xs" "bytes_of (xs @ ys) = bytes_of xs @ bytes_of ys"
  "bytes_of (if c then xs else []) = (if c then bytes_of xs else [])"
  "bytes_of (case t of None \<Rightarrow> [] | Some v \<Rightarrow> g v) = (case t of None \<Rightarrow> [] | Some v \<Rightarrow> bytes_of (g v))"
  by (simp_all add: bytes_of_def split: option.splits)

lemma token_bytes_param:
  assumes "wf_TransportParameters sentBy p"
  shows "(case StatelessResetToken p of None \<Rightarrow> b | Some token \<Rightarrow> WriteUint16 (WriteUint16 b paramID) 16 @ token) =
    b @ (case StatelessResetToken p of None \<Rightarrow> [] | Some token \<Rightarrow> param paramID token)"
  using assms by (cases "StatelessResetToken p") (simp_all add: wf_TransportParameters_def param_bytes)

lemma grease_bytes: "WriteUint16 (WriteUint16 [0, 0] g) (word_of_nat (length randomData)) @ randomData = [0, 0] @ param g randomData"
  "drop 2 ([0, 0] @ bs) = bs" "length ([0, 0] @ bs) - 2 = length bs"
  by (simp_all add: param_bytes)

lemma Marshal_written:
  assumes "wf_TransportParameters sentBy p"
  shows "Marshal grease randomData p =
    Inr (WriteUint16 [] (word_of_nat (length (bytes_of (written_parameters grease randomData p)))) @ bytes_of (written_parameters grease randomData p))"
  unfolding Marshal_def Let_def written_parameters_def grease_bytes(1) token_bytes_param [OF assms]
    marshalVarintParam_bytes [OF ucast_byte_varint] written_values [OF assms, THEN marshalVarintParam_bytes]
    param_bytes(1,3) written_optional tryE_simps bytes_of_simps length_greater_0_conv
  unfolding append_assoc grease_bytes(2,3) append_Nil append_Nil2 ..

lemma length_bytes_of:
  "\<forall>(paramID, body, f) \<in> set xs. length body \<le> 20 \<Longrightarrow> length (bytes_of xs) \<le> 24 * length xs"
  by (induction xs) (auto simp: bytes_of_def param_def)

lemma length_written:
  assumes "wf_TransportParameters sentBy p" and "length randomData < 16"
  shows "length (bytes_of (written_parameters grease randomData p)) < 2 ^ 16"
proof -
  have "\<forall>(paramID, body, f) \<in> set (written_parameters grease randomData p). length body \<le> 20"
    using assms written_values [OF assms(1)] ucast_byte_varint [of "tp_AckDelayExponent p"]
    by (auto simp: written_parameters_def wf_TransportParameters_def MaxConnIDLen_def split: option.splits if_splits
        dest!: length_varint_bytes(2))
  moreover have "length (written_parameters grease randomData p) \<le> 14" by (simp add: written_parameters_def split: option.splits)
  ultimately show ?thesis using length_bytes_of by fastforce
qed

lemmas numeric_defs = isNumeric_def setNumericParameter_def parameterID_defs

lemma written_numerics:
  assumes "v \<le> maxVarInt8"
  shows "has_effect sentBy (initialMaxStreamDataBidiLocalParameterID, varint_bytes v, \<lambda>q. q\<lparr>InitialMaxStreamDataBidiLocal := v\<rparr>)"
    and "has_effect sentBy (initialMaxStreamDataBidiRemoteParameterID, varint_bytes v, \<lambda>q. q\<lparr>InitialMaxStreamDataBidiRemote := v\<rparr>)"
    and "has_effect sentBy (initialMaxStreamDataUniParameterID, varint_bytes v, \<lambda>q. q\<lparr>InitialMaxStreamDataUni := v\<rparr>)"
    and "has_effect sentBy (initialMaxDataParameterID, varint_bytes v, \<lambda>q. q\<lparr>InitialMaxData := v\<rparr>)"
  by (rule written_numeric, simp add: numeric_defs, rule assms, simp add: numeric_defs)+

lemma written_stream_nums:
  assumes "0 \<le> n" and "n < 2 ^ 62"
  shows "has_effect sentBy (initialMaxStreamsBidiParameterID, varint_bytes (uint64_of n), \<lambda>q. q\<lparr>MaxBidiStreamNum := n\<rparr>)"
    and "has_effect sentBy (initialMaxStreamsUniParameterID, varint_bytes (uint64_of n), \<lambda>q. q\<lparr>MaxUniStreamNum := n\<rparr>)"
proof -
  have "uint64_of n \<le> maxVarInt8" using assms by (simp add: word_le_nat_alt unat_uint64_of maxVarInt8_def nat_le_iff)
  then show "has_effect sentBy (initialMaxStreamsBidiParameterID, varint_bytes (uint64_of n), \<lambda>q. q\<lparr>MaxBidiStreamNum := n\<rparr>)"
    "has_effect sentBy (initialMaxStreamsUniParameterID, varint_bytes (uint64_of n), \<lambda>q. q\<lparr>MaxUniStreamNum := n\<rparr>)"
    using assms by (auto intro!: written_numeric simp: numeric_defs)
qed

lemma written_times:
  assumes "0 \<le> d" and "d < 2 ^ 63"
  shows "has_effect sentBy (idleTimeoutParameterID, varint_bytes (uint64_of (d sdiv Millisecond)), \<lambda>q. q\<lparr>IdleTimeout := max MinRemoteIdleTimeout (inMilliseconds d)\<rparr>)"
    and "d < MaxMaxAckDelay \<Longrightarrow> has_effect sentBy (maxAckDelayParameterID, varint_bytes (uint64_of (d sdiv Millisecond)), \<lambda>q. q\<lparr>tp_MaxAckDelay := inMilliseconds d\<rparr>)"
  using milliseconds [OF assms] by (auto intro!: written_numeric simp: numeric_defs Let_def)

lemma written_others:
  shows "has_effect sentBy (maxPacketSizeParameterID, varint_bytes MaxReceivePacketSize, \<lambda>q. q\<lparr>MaxPacketSize := MaxReceivePacketSize\<rparr>)"
    and "e \<le> 20 \<Longrightarrow> has_effect sentBy (ackDelayExponentParameterID, varint_bytes (ucast (e :: byte)), \<lambda>q. q\<lparr>tp_AckDelayExponent := e\<rparr>)"
    and "has_effect sentBy (disableMigrationParameterID, [], \<lambda>q. q\<lparr>DisableMigration := True\<rparr>)"
    and "length token = 16 \<Longrightarrow> has_effect PerspectiveServer (statelessResetTokenParameterID, token, \<lambda>q. q\<lparr>StatelessResetToken := Some token\<rparr>)"
    and "length c \<le> 20 \<Longrightarrow> has_effect PerspectiveServer (originalConnectionIDParameterID, c, \<lambda>q. q\<lparr>OriginalConnectionID := c\<rparr>)"
proof -
  show "has_effect sentBy (maxPacketSizeParameterID, varint_bytes MaxReceivePacketSize, \<lambda>q. q\<lparr>MaxPacketSize := MaxReceivePacketSize\<rparr>)"
    by (rule written_numeric) (simp_all add: numeric_defs MaxReceivePacketSize_def maxVarInt8_def)
  have "ucast (ucast e :: u64) = e" by (rule bit_word_eqI) (simp add: bit_simps)
  moreover have "\<not> MaxAckDelayExponent < (ucast e :: u64)" if "e \<le> 20"
    using that by (simp add: word_le_nat_alt word_less_nat_alt unat_ucast_byte MaxAckDelayExponent_def)
  ultimately show "has_effect sentBy (ackDelayExponentParameterID, varint_bytes (ucast e), \<lambda>q. q\<lparr>tp_AckDelayExponent := e\<rparr>)" if "e \<le> 20"
    using that by (intro written_numeric ucast_byte_varint) (simp_all add: numeric_defs)
qed (simp_all add: has_effect_def readParameter_def readOtherParameter_def isNumeric_def parameterID_defs ReadConnectionID_append)

lemma grease_id:
  assumes "grease < 100"
  shows "27 \<le> unat (word_of_nat (27 + 31 * grease) :: u16)"
proof -
  have "unat (word_of_nat n :: u16) = n" if "n < 2 ^ 16" for n using that by (simp add: unsigned_of_nat take_bit_nat_eq_self)
  from this [of "27 + 31 * grease"] show ?thesis using assms by simp
qed

lemma written_grease:
  assumes "grease < 100" and "length randomData < 16"
  shows "has_effect sentBy (word_of_nat (27 + 31 * grease), randomData, \<lambda>q. q)"
proof -
  have "x \<noteq> 0 \<and> x \<noteq> 1 \<and> x \<noteq> 2 \<and> x \<noteq> 3 \<and> x \<noteq> 4 \<and> x \<noteq> 5 \<and> x \<noteq> 6 \<and> x \<noteq> 7 \<and> x \<noteq> 8 \<and> x \<noteq> 9 \<and> x \<noteq> 10 \<and> x \<noteq> 11 \<and> x \<noteq> 12" if "27 \<le> unat x" for x :: u16
    using that by auto
  from this [OF grease_id [OF assms(1)]] show ?thesis using assms(2)
    by (simp add: has_effect_def readParameter_def readOtherParameter_def isNumeric_def parameterID_defs del: of_nat_add of_nat_mult)
qed

lemma written_effects:
  assumes w: "wf_TransportParameters sentBy p" and g: "grease < 100" "length randomData < 16"
  shows "\<forall>x \<in> set (written_parameters grease randomData p). has_effect sentBy x"
proof -
  have "tp_MaxAckDelay p < 2 ^ 63" using w by (simp add: wf_TransportParameters_def MaxMaxAckDelay_def Millisecond_def Microsecond_def)
  then show ?thesis using w written_grease [OF g, of sentBy] unfolding written_parameters_def wf_TransportParameters_def
    by (auto simp: written_numerics written_stream_nums written_times written_others MaxConnIDLen_def split: option.splits if_splits)
qed

lemma written_distinct:
  assumes "grease < 100"
  shows "distinct (map fst (written_parameters grease randomData p))"
proof -
  define g :: u16 where "g = word_of_nat (27 + 31 * grease)"
  have "27 \<le> unat g" using grease_id [OF assms] by (simp add: g_def)
  then have "g \<noteq> 0 \<and> g \<noteq> 1 \<and> g \<noteq> 2 \<and> g \<noteq> 3 \<and> g \<noteq> 4 \<and> g \<noteq> 5 \<and> g \<noteq> 6 \<and> g \<noteq> 7 \<and> g \<noteq> 8 \<and> g \<noteq> 9 \<and> g \<noteq> 10 \<and> g \<noteq> 11 \<and> g \<noteq> 12" by auto
  then show ?thesis unfolding written_parameters_def g_def [symmetric] by (auto simp: parameterID_defs split: option.splits)
qed


lemma be16: "256 * unat (ucast (drop_bit 8 w) :: byte) + unat (ucast w :: byte) = unat (w :: u16)"
proof -
  have "unat (ucast w :: byte) = unat w mod 256" by (simp add: unsigned_ucast_eq take_bit_eq_mod)
  moreover have "unat w < 256 * 256" using unsigned_less [of w, where ?'a = nat] by simp
  then have "unat w div 256 < 256" by (rule less_mult_imp_div_less)
  then have "unat (ucast (drop_bit 8 w) :: byte) = unat w div 256"
    by (simp add: unsigned_ucast_eq drop_bit_eq_div take_bit_eq_mod unat_div)
  ultimately show ?thesis by simp
qed

lemma Unmarshal_bytes:
  assumes "length bs < 2 ^ 16" and "readParameters p [] sentBy bs = Inr ((q, ids), [])" and "distinct ids" and "MaxPacketSize q \<noteq> 0"
  shows "Unmarshal p (WriteUint16 [] (word_of_nat (length bs)) @ bs) sentBy =
    Inr (q\<lparr>tp_AckDelayExponent := if ackDelayExponentParameterID \<in> set ids then tp_AckDelayExponent q else DefaultAckDelayExponent,
      tp_MaxAckDelay := if maxAckDelayParameterID \<in> set ids then tp_MaxAckDelay q else DefaultMaxAckDelay\<rparr>)"
proof -
  let ?d = "WriteUint16 [] (word_of_nat (length bs)) @ bs"
  have "256 * unat (?d ! 0) + unat (?d ! 1) = length bs"
    using be16 [of "word_of_nat (length bs)"] assms(1) by (simp add: WriteUint16_def unsigned_of_nat take_bit_nat_eq_self)
  moreover have "drop 2 ?d = bs" "length ?d = length bs + 2" by (simp_all add: WriteUint16_def)
  ultimately show ?thesis using assms(2-4) findDuplicate_distinct [OF assms(3)] unfolding Unmarshal_def Let_def by (simp del: WriteUint16_append)
qed

text \<open>C20. The peer decodes the transport parameters an endpoint encodes and finds what was announced: times are rounded down to
  milliseconds, an idle timeout below five seconds is raised to it, and the packet size is the one this implementation always
  announces. The greased parameter has no effect.\<close>

theorem transport_parameters_roundtrip:
  assumes "wf_TransportParameters sentBy p" and "grease < 100" and "length randomData < 16"
  shows "\<exists>bs. Marshal grease randomData p = Inr bs \<and>
    Unmarshal zeroParameters bs sentBy =
      Inr (p\<lparr>MaxPacketSize := MaxReceivePacketSize, IdleTimeout := max MinRemoteIdleTimeout (inMilliseconds (IdleTimeout p)), tp_MaxAckDelay := inMilliseconds (tp_MaxAckDelay p)\<rparr>)"
proof -
  define ws where "ws = written_parameters grease randomData p"
  define bs where "bs = bytes_of ws"
  have m: "Marshal grease randomData p = Inr (WriteUint16 [] (word_of_nat (length bs)) @ bs)" using Marshal_written [OF assms(1)] by (simp add: bs_def ws_def)
  have r: "readParameters zeroParameters [] sentBy bs = Inr ((effect_of zeroParameters ws, map fst ws), [])"
    using readParameters_written [OF written_effects [OF assms], of zeroParameters "[]"] by (simp add: bs_def ws_def)
  have d: "distinct (map fst ws)" using written_distinct [OF assms(2)] by (simp add: ws_def)
  have g: "word_of_nat (27 + 31 * grease) \<noteq> ackDelayExponentParameterID" "word_of_nat (27 + 31 * grease) \<noteq> maxAckDelayParameterID"
  proof -
    have "x \<noteq> 0xa \<and> x \<noteq> 0xb" if "27 \<le> unat x" for x :: u16 using that by auto
    from this [OF grease_id [OF assms(2)]] show "word_of_nat (27 + 31 * grease) \<noteq> ackDelayExponentParameterID" "word_of_nat (27 + 31 * grease) \<noteq> maxAckDelayParameterID"
      unfolding parameterID_defs by blast+
  qed
  have eff: "effect_of zeroParameters ws = p\<lparr>MaxPacketSize := MaxReceivePacketSize, IdleTimeout := max MinRemoteIdleTimeout (inMilliseconds (IdleTimeout p)),
      tp_MaxAckDelay := if tp_MaxAckDelay p \<noteq> DefaultMaxAckDelay then inMilliseconds (tp_MaxAckDelay p) else 0,
      tp_AckDelayExponent := if tp_AckDelayExponent p \<noteq> DefaultAckDelayExponent then tp_AckDelayExponent p else 0\<rparr>"
    by (cases "StatelessResetToken p") (simp_all add: ws_def written_parameters_def effect_of_def zeroParameters_def)
  have ids: "ackDelayExponentParameterID \<in> set (map fst ws) \<longleftrightarrow> tp_AckDelayExponent p \<noteq> DefaultAckDelayExponent"
    "maxAckDelayParameterID \<in> set (map fst ws) \<longleftrightarrow> tp_MaxAckDelay p \<noteq> DefaultMaxAckDelay"
    using g by (auto simp: ws_def written_parameters_def parameterID_defs split: option.splits)
  have "inMilliseconds DefaultMaxAckDelay = DefaultMaxAckDelay" by (simp add: inMilliseconds_def DefaultMaxAckDelay_def Millisecond_def Microsecond_def)
  moreover have "MaxPacketSize (effect_of zeroParameters ws) \<noteq> 0" by (simp add: eff MaxReceivePacketSize_def)
  moreover have "length bs < 2 ^ 16" using length_written [OF assms(1,3)] by (simp add: bs_def ws_def)
  ultimately have "Unmarshal zeroParameters (WriteUint16 [] (word_of_nat (length bs)) @ bs) sentBy =
      Inr (p\<lparr>MaxPacketSize := MaxReceivePacketSize, IdleTimeout := max MinRemoteIdleTimeout (inMilliseconds (IdleTimeout p)), tp_MaxAckDelay := inMilliseconds (tp_MaxAckDelay p)\<rparr>)"
    using Unmarshal_bytes [OF _ r d] ids unfolding eff by auto
  then show ?thesis using m by blast
qed


definition demo_parameters :: TransportParameters where
  "demo_parameters = zeroParameters\<lparr>InitialMaxData := 100000, tp_MaxAckDelay := 30 * Millisecond + 5, tp_AckDelayExponent := 3, MaxBidiStreamNum := 100, IdleTimeout := 2 * Second,
     StatelessResetToken := Some (replicate 16 7), OriginalConnectionID := [1, 2, 3, 4]\<rparr>"

theorem transport_parameters_roundtrip_witness:
  "\<exists>bs q. Marshal 5 [9, 9] demo_parameters = Inr bs \<and> Unmarshal zeroParameters bs PerspectiveServer = Inr q \<and>
    InitialMaxData q = 100000 \<and> tp_MaxAckDelay q = 30 * Millisecond \<and> MaxBidiStreamNum q = 100 \<and> IdleTimeout q = 5 * Second \<and> OriginalConnectionID q = [1, 2, 3, 4]"
proof -
  have "wf_TransportParameters PerspectiveServer demo_parameters"
    by (simp add: wf_TransportParameters_def demo_parameters_def zeroParameters_def maxVarInt8_def MaxMaxAckDelay_def Millisecond_def Microsecond_def Second_def MaxConnIDLen_def)
  from transport_parameters_roundtrip [OF this, of 5 "[9, 9]"] show ?thesis
    by (auto simp: demo_parameters_def inMilliseconds_def Millisecond_def Microsecond_def Second_def MinRemoteIdleTimeout_def)
qed

end
