(* ===== verification/StreamsMap.thy ===== *)
theory StreamsMap
  imports OutgoingStreams ReceiveStream TransportParams
begin

text \<open>
  All streams of a connection: \<open>streams_map.go\<close>. Four maps, for the streams of each type that this endpoint and its peer open; a
  stream id says which one it belongs to. The streams are those of the theories \<open>SendStream\<close> and \<open>ReceiveStream\<close>; their flow
  controllers are kept outside.

  The locale \<open>stream_item\<close> states what the maps need to know of their items; it is interpreted for the three kinds of streams.
  The lemmas show that a stream is always found under its own id and that no frame of the peer opens a stream of this endpoint.
\<close>

section \<open>The map\<close>

record streamsMap =
  sm_perspective :: Perspective
  outgoingBidiStreams :: "stream outgoingItemsMap"
  outgoingUniStreams :: "sendStream outgoingItemsMap"
  incomingBidiStreams :: "stream incomingItemsMap"
  incomingUniStreams :: "receiveStream incomingItemsMap"

definition newStreamsMap :: "u64 \<Rightarrow> u64 \<Rightarrow> Perspective \<Rightarrow> streamsMap" where
  "newStreamsMap maxIncomingBidiStreams maxIncomingUniStreams perspective =
    \<lparr>sm_perspective = perspective, outgoingBidiStreams = newOutgoingItemsMap, outgoingUniStreams = newOutgoingItemsMap,
     incomingBidiStreams = newIncomingItemsMap maxIncomingBidiStreams, incomingUniStreams = newIncomingItemsMap maxIncomingUniStreams\<rparr>"

text \<open>The functions that make the streams of the four maps.\<close>

definition newBidi :: "Perspective \<Rightarrow> StreamNum \<Rightarrow> stream" where
  "newBidi pers num = newStream (StreamNum_StreamID num StreamTypeBidi pers)"

definition newUniSend :: "Perspective \<Rightarrow> StreamNum \<Rightarrow> sendStream" where
  "newUniSend pers num = newSendStream (StreamNum_StreamID num StreamTypeUni pers)"

definition newUniReceive :: "Perspective \<Rightarrow> StreamNum \<Rightarrow> receiveStream" where
  "newUniReceive pers num = newReceiveStream (StreamNum_StreamID num StreamTypeUni pers)"

text \<open>The numbers in the message of a \<open>streamError\<close> become stream ids.\<close>

fun convertStreamError :: "maps_error \<Rightarrow> StreamType \<Rightarrow> Perspective \<Rightarrow> maps_error" where
  "convertStreamError (StreamError fmt nums) stype pers = GoError (Errorf (fmt, map (\<lambda>num. StreamNum_StreamID num stype pers) nums))"
| "convertStreamError err stype pers = err"

fun convertOpen :: "'a open_result \<Rightarrow> StreamType \<Rightarrow> Perspective \<Rightarrow> 'a open_result" where
  "convertOpen (OpenFailed e) stype pers = OpenFailed (convertStreamError e stype pers)"
| "convertOpen r stype pers = r"

fun convertAccept :: "'a accept_result \<Rightarrow> StreamType \<Rightarrow> Perspective \<Rightarrow> 'a accept_result" where
  "convertAccept (AcceptFailed e) stype pers = AcceptFailed (convertStreamError e stype pers)"
| "convertAccept r stype pers = r"

section \<open>Opening and accepting\<close>

definition sm_OpenStream :: "streamsMap \<Rightarrow> stream open_result \<times> streamsMap \<times> Frame list" where
  "sm_OpenStream m =
    (case o_OpenStream (newBidi (sm_perspective m)) StreamTypeBidi (outgoingBidiStreams m) of (r, o', fs) \<Rightarrow>
     (convertOpen r StreamTypeBidi (sm_perspective m), m\<lparr>outgoingBidiStreams := o'\<rparr>, fs))"

definition sm_OpenStreamSync :: "bool \<Rightarrow> streamsMap \<Rightarrow> stream open_result \<times> streamsMap \<times> Frame list" where
  "sm_OpenStreamSync ctxDone m =
    (case o_OpenStreamSync (newBidi (sm_perspective m)) StreamTypeBidi ctxDone (outgoingBidiStreams m) of (r, o', fs) \<Rightarrow>
     (convertOpen r StreamTypeBidi (sm_perspective m), m\<lparr>outgoingBidiStreams := o'\<rparr>, fs))"

definition sm_OpenUniStream :: "streamsMap \<Rightarrow> sendStream open_result \<times> streamsMap \<times> Frame list" where
  "sm_OpenUniStream m =
    (case o_OpenStream (newUniSend (sm_perspective m)) StreamTypeUni (outgoingUniStreams m) of (r, o', fs) \<Rightarrow>
     (convertOpen r StreamTypeBidi (sm_perspective m), m\<lparr>outgoingUniStreams := o'\<rparr>, fs))"

definition sm_OpenUniStreamSync :: "bool \<Rightarrow> streamsMap \<Rightarrow> sendStream open_result \<times> streamsMap \<times> Frame list" where
  "sm_OpenUniStreamSync ctxDone m =
    (case o_OpenStreamSync (newUniSend (sm_perspective m)) StreamTypeUni ctxDone (outgoingUniStreams m) of (r, o', fs) \<Rightarrow>
     (convertOpen r StreamTypeUni (sm_perspective m), m\<lparr>outgoingUniStreams := o'\<rparr>, fs))"

text \<open>A call that waits in one of the maps goes on.\<close>

definition sm_OpenStreamSync_resume :: "bool \<Rightarrow> streamsMap \<Rightarrow> u64 \<Rightarrow> maps_error + stream open_result \<times> streamsMap" where
  "sm_OpenStreamSync_resume ctxDone m queuePos =
    tryE (OpenStreamSync_resume (newBidi (sm_perspective m)) ctxDone (outgoingBidiStreams m) queuePos) (\<lambda>(r, o').
    Inr (convertOpen r StreamTypeBidi (sm_perspective m), m\<lparr>outgoingBidiStreams := o'\<rparr>))"

definition sm_OpenUniStreamSync_resume :: "bool \<Rightarrow> streamsMap \<Rightarrow> u64 \<Rightarrow> maps_error + sendStream open_result \<times> streamsMap" where
  "sm_OpenUniStreamSync_resume ctxDone m queuePos =
    tryE (OpenStreamSync_resume (newUniSend (sm_perspective m)) ctxDone (outgoingUniStreams m) queuePos) (\<lambda>(r, o').
    Inr (convertOpen r StreamTypeUni (sm_perspective m), m\<lparr>outgoingUniStreams := o'\<rparr>))"

definition sm_AcceptStream :: "streamsMap \<Rightarrow> stream accept_result \<times> streamsMap \<times> Frame list" where
  "sm_AcceptStream m =
    (case i_AcceptStream StreamTypeBidi (incomingBidiStreams m) of (r, i, fs) \<Rightarrow>
     (convertAccept r StreamTypeBidi (Opposite (sm_perspective m)), m\<lparr>incomingBidiStreams := i\<rparr>, fs))"

definition sm_AcceptUniStream :: "streamsMap \<Rightarrow> receiveStream accept_result \<times> streamsMap \<times> Frame list" where
  "sm_AcceptUniStream m =
    (case i_AcceptStream StreamTypeUni (incomingUniStreams m) of (r, i, fs) \<Rightarrow>
     (convertAccept r StreamTypeUni (Opposite (sm_perspective m)), m\<lparr>incomingUniStreams := i\<rparr>, fs))"

definition sm_DeleteStream :: "streamsMap \<Rightarrow> StreamID \<Rightarrow> maps_error + streamsMap \<times> Frame list" where
  "sm_DeleteStream m sid =
    (let num = StreamID_StreamNum sid in
     case StreamID_Type sid of
       StreamTypeUni \<Rightarrow>
         if InitiatedBy sid = sm_perspective m
         then tryE (o_DeleteStream (outgoingUniStreams m) num) (\<lambda>o'. Inr (m\<lparr>outgoingUniStreams := o'\<rparr>, []))
         else tryE (i_DeleteStream StreamTypeUni (incomingUniStreams m) num) (\<lambda>(i, fs). Inr (m\<lparr>incomingUniStreams := i\<rparr>, fs))
     | StreamTypeBidi \<Rightarrow>
         if InitiatedBy sid = sm_perspective m
         then tryE (o_DeleteStream (outgoingBidiStreams m) num) (\<lambda>o'. Inr (m\<lparr>outgoingBidiStreams := o'\<rparr>, []))
         else tryE (i_DeleteStream StreamTypeBidi (incomingBidiStreams m) num) (\<lambda>(i, fs). Inr (m\<lparr>incomingBidiStreams := i\<rparr>, fs)))"

section \<open>Streams of frames\<close>

text \<open>The interfaces \<open>receiveStreamI\<close> and \<open>sendStreamI\<close>: a stream of either type.\<close>

datatype receiveStreamI = RecvBidi stream | RecvUni receiveStream
datatype sendStreamI = SendBidi stream | SendUni sendStream

definition convertE :: "StreamType \<Rightarrow> Perspective \<Rightarrow> maps_error + 'a \<Rightarrow> maps_error + 'a" where
  "convertE stype pers r = (case r of Inl e \<Rightarrow> Inl (convertStreamError e stype pers) | Inr x \<Rightarrow> Inr x)"

definition getBidiStream :: "streamsMap \<Rightarrow> StreamID \<Rightarrow> maps_error + stream option \<times> streamsMap" where
  "getBidiStream m sid =
    (let num = StreamID_StreamNum sid in
     convertE StreamTypeBidi (InitiatedBy sid)
       (if InitiatedBy sid = sm_perspective m then tryE (o_GetStream (outgoingBidiStreams m) num) (\<lambda>str. Inr (str, m))
        else tryE (i_GetOrOpenStream (newBidi (Opposite (sm_perspective m))) (incomingBidiStreams m) num) (\<lambda>(str, i).
             Inr (str, m\<lparr>incomingBidiStreams := i\<rparr>))))"

definition getOrOpenReceiveStream :: "streamsMap \<Rightarrow> StreamID \<Rightarrow> maps_error + receiveStreamI option \<times> streamsMap" where
  "getOrOpenReceiveStream m sid =
    (let num = StreamID_StreamNum sid in
     case StreamID_Type sid of
       StreamTypeUni \<Rightarrow>
         if InitiatedBy sid = sm_perspective m then Inl (GoError (Errorf (''peer attempted to open receive stream %d'', [sid])))
         else
           convertE StreamTypeUni (sm_perspective m)
             (tryE (i_GetOrOpenStream (newUniReceive (Opposite (sm_perspective m))) (incomingUniStreams m) num) (\<lambda>(str, i).
              Inr (map_option RecvUni str, m\<lparr>incomingUniStreams := i\<rparr>)))
     | StreamTypeBidi \<Rightarrow> tryE (getBidiStream m sid) (\<lambda>(str, m). Inr (map_option RecvBidi str, m)))"

definition getOrOpenSendStream :: "streamsMap \<Rightarrow> StreamID \<Rightarrow> maps_error + sendStreamI option \<times> streamsMap" where
  "getOrOpenSendStream m sid =
    (let num = StreamID_StreamNum sid in
     case StreamID_Type sid of
       StreamTypeUni \<Rightarrow>
         if InitiatedBy sid = sm_perspective m
         then convertE StreamTypeUni (sm_perspective m) (tryE (o_GetStream (outgoingUniStreams m) num) (\<lambda>str. Inr (map_option SendUni str, m)))
         else Inl (GoError (Errorf (''peer attempted to open send stream %d'', [sid])))
     | StreamTypeBidi \<Rightarrow> tryE (getBidiStream m sid) (\<lambda>(str, m). Inr (map_option SendBidi str, m)))"

text \<open>\<open>err.Error()\<close> of the errors that can occur here; a panic is not an error.\<close>

fun stateError :: "maps_error \<Rightarrow> maps_error" where
  "stateError (GoError (Errorf message)) = GoError (qerr_Error StreamStateError message)"
| "stateError (StreamError fmt nums) = GoError (qerr_Error StreamStateError (fmt, []))"
| "stateError TooManyOpenStreams = GoError (qerr_Error StreamStateError (''too many open streams'', []))"
| "stateError e = e"

definition GetOrOpenReceiveStream :: "streamsMap \<Rightarrow> StreamID \<Rightarrow> maps_error + receiveStreamI option \<times> streamsMap" where
  "GetOrOpenReceiveStream m sid = (case getOrOpenReceiveStream m sid of Inl e \<Rightarrow> Inl (stateError e) | Inr x \<Rightarrow> Inr x)"

definition GetOrOpenSendStream :: "streamsMap \<Rightarrow> StreamID \<Rightarrow> maps_error + sendStreamI option \<times> streamsMap" where
  "GetOrOpenSendStream m sid = (case getOrOpenSendStream m sid of Inl e \<Rightarrow> Inl (stateError e) | Inr x \<Rightarrow> Inr x)"

section \<open>Limits and shutdown\<close>

definition HandleMaxStreamsFrame :: "streamsMap \<Rightarrow> MaxStreamsFrame \<Rightarrow> maps_error + streamsMap" where
  "HandleMaxStreamsFrame m f =
    (if msf_MaxStreamNum f > MaxStreamCount then Inl (GoError (ErrorCode StreamLimitError))
     else
       case msf_Type f of
         StreamTypeUni \<Rightarrow> tryE (SetMaxStream (outgoingUniStreams m) (msf_MaxStreamNum f)) (\<lambda>o'. Inr (m\<lparr>outgoingUniStreams := o'\<rparr>))
       | StreamTypeBidi \<Rightarrow> tryE (SetMaxStream (outgoingBidiStreams m) (msf_MaxStreamNum f)) (\<lambda>o'. Inr (m\<lparr>outgoingBidiStreams := o'\<rparr>)))"

definition UpdateLimits :: "streamsMap \<Rightarrow> TransportParameters \<Rightarrow> maps_error + streamsMap" where
  "UpdateLimits m p =
    (if MaxBidiStreamNum p > MaxStreamCount \<or> MaxUniStreamNum p > MaxStreamCount then Inl (GoError (ErrorCode StreamLimitError))
     else
       tryE (SetMaxStream (outgoingBidiStreams m) (MaxBidiStreamNum p)) (\<lambda>b.
       tryE (SetMaxStream (outgoingUniStreams m) (MaxUniStreamNum p)) (\<lambda>u.
       Inr (m\<lparr>outgoingBidiStreams := b, outgoingUniStreams := u\<rparr>))))"

definition sm_CloseWithError :: "streamsMap \<Rightarrow> stream_error option \<Rightarrow> maps_error + streamsMap" where
  "sm_CloseWithError m err =
    tryE (o_CloseWithError stream_closeForShutdown (outgoingBidiStreams m) err) (\<lambda>ob.
    tryE (o_CloseWithError ss_closeForShutdown (outgoingUniStreams m) err) (\<lambda>ou.
    tryE (i_CloseWithError stream_closeForShutdown (incomingBidiStreams m) err) (\<lambda>ib.
    tryE (i_CloseWithError rs_closeForShutdown (incomingUniStreams m) err) (\<lambda>iu.
    Inr (m\<lparr>outgoingBidiStreams := ob, outgoingUniStreams := ou, incomingBidiStreams := ib, incomingUniStreams := iu\<rparr>)))))"

section \<open>Streams are found under their ids\<close>

locale stream_item =
  fixes mk :: "StreamNum \<Rightarrow> 'a" and idOf :: "'a \<Rightarrow> StreamID" and stype :: StreamType and pers :: Perspective
    and shutdown :: "'a \<Rightarrow> stream_error option \<Rightarrow> 'a"
  assumes id_mk: "idOf (mk n) = StreamNum_StreamID n stype pers"
    and id_shutdown: "idOf (shutdown s e) = idOf s"
begin

definition named :: "(StreamNum \<times> 'a) list \<Rightarrow> bool" where
  "named ss \<longleftrightarrow> (\<forall>n s. map_of ss n = Some s \<longrightarrow> idOf s = StreamNum_StreamID n stype pers)"

lemma named_Nil: "named []"
  by (simp add: named_def)

lemma named_update: "named ss \<Longrightarrow> named (AList.update n (mk n) ss)"
  by (simp add: named_def AList.update_conv' id_mk)

lemma named_change:
  assumes "named ss" and "map_of ss n = Some s" and "idOf s' = idOf s"
  shows "named (AList.update n s' ss)"
  using assms by (simp add: named_def AList.update_conv')

lemma named_delete: "named ss \<Longrightarrow> named (AList.delete n ss)"
  by (auto simp: named_def AList.delete_conv')

lemma named_shutdown: "named ss \<Longrightarrow> named (map (\<lambda>(n, s). (n, shutdown s e)) ss)"
proof -
  have "map_of (map (\<lambda>(n, s). (n, shutdown s e)) ss) k = map_option (\<lambda>s. shutdown s e) (map_of ss k)" for k
    by (induction ss) auto
  then show "named ss \<Longrightarrow> ?thesis" by (auto simp: named_def id_shutdown)
qed

lemma named_openUpTo: "named ss \<Longrightarrow> named (i_openUpTo mk ss from num)"
  by (simp add: named_def i_openUpTo_map_of id_mk)

lemma i_get:
  assumes "named (i_streams m)" and "i_GetOrOpenStream mk m num = Inr (str, m')"
  shows "named (i_streams m') \<and> (\<forall>s. str = Some s \<longrightarrow> idOf s = StreamNum_StreamID num stype pers)"
proof -
  have "str = map_of (i_streams m') num \<or> str = None" "named (i_streams m')"
    using assms named_openUpTo by (auto simp: i_GetOrOpenStream_def Let_def split: if_splits)
  then show ?thesis by (auto simp: named_def)
qed

lemma i_delete: "named (i_streams m) \<Longrightarrow> i_deleteStream t m num = Inr (m', fs) \<Longrightarrow> named (i_streams m')"
  by (auto simp: i_deleteStream_def Let_def named_delete split: if_splits)

lemma i_accept: "named (i_streams m) \<Longrightarrow> i_AcceptStream t m = (r, m', fs) \<Longrightarrow> named (i_streams m')"
  by (auto simp: i_AcceptStream_def Let_def split: option.splits if_splits sum.splits dest: i_delete [rotated])

lemma i_close: "named (i_streams m) \<Longrightarrow> i_CloseWithError shutdown m e = Inr m' \<Longrightarrow> named (i_streams m')"
  by (auto simp: i_CloseWithError_def Let_def named_shutdown split: if_splits)

lemma unblock_streams: "unblockOpenSync m = Inr m' \<Longrightarrow> o_streams m' = o_streams m"
proof -
  have "unblockLoop qps m = Inr m' \<Longrightarrow> o_streams m' = o_streams m" for qps
    by (induction qps) (auto split: option.splits if_splits)
  then show "unblockOpenSync m = Inr m' \<Longrightarrow> ?thesis" by (auto simp: unblockOpenSync_def split: if_splits)
qed

lemma blocked_streams: "maybeSendBlockedFrame t m = (m', fs) \<Longrightarrow> o_streams m' = o_streams m"
  by (auto simp: maybeSendBlockedFrame_def Let_def split: if_splits)

lemma o_opens: "named (o_streams m) \<Longrightarrow> openStream mk m = (s, m') \<Longrightarrow> named (o_streams m')"
  by (auto simp: openStream_def Let_def named_update)

lemma o_open: "named (o_streams m) \<Longrightarrow> o_OpenStream mk t m = (r, m', fs) \<Longrightarrow> named (o_streams m')"
  by (auto simp: o_OpenStream_def dest!: blocked_streams dest: o_opens split: option.splits if_splits prod.splits)

lemma o_open_sync: "named (o_streams m) \<Longrightarrow> o_OpenStreamSync mk t c m = (r, m', fs) \<Longrightarrow> named (o_streams m')"
  by (auto simp: o_OpenStreamSync_def Let_def dest!: blocked_streams dest: o_opens split: option.splits if_splits prod.splits)

lemma o_resume: "named (o_streams m) \<Longrightarrow> OpenStreamSync_resume mk c m pos = Inr (r, m') \<Longrightarrow> named (o_streams m')"
  by (auto simp: OpenStreamSync_resume_def Let_def tryE_eq_Inr dest!: unblock_streams dest: o_opens split: option.splits if_splits prod.splits)

lemma o_delete: "named (o_streams m) \<Longrightarrow> o_DeleteStream m num = Inr m' \<Longrightarrow> named (o_streams m')"
  by (auto simp: o_DeleteStream_def named_delete split: if_splits)

lemma o_set_max: "named (o_streams m) \<Longrightarrow> SetMaxStream m num = Inr m' \<Longrightarrow> named (o_streams m')"
  by (auto simp: SetMaxStream_def dest!: unblock_streams split: if_splits)

lemma o_close: "named (o_streams m) \<Longrightarrow> o_CloseWithError shutdown m e = Inr m' \<Longrightarrow> named (o_streams m')"
  by (auto simp: o_CloseWithError_def Let_def named_shutdown split: if_splits)

lemma o_get: "named (o_streams m) \<Longrightarrow> o_GetStream m num = Inr (Some s) \<Longrightarrow> idOf s = StreamNum_StreamID num stype pers"
  by (auto simp: o_GetStream_def named_def split: if_splits)

end

interpretation bidi: stream_item "newBidi p" st_StreamID StreamTypeBidi p stream_closeForShutdown for p
  by unfold_locales (simp_all add: newBidi_def newStream_def st_StreamID_def newSendStream_def stream_closeForShutdown_def ss_closeForShutdown_def signalWrite_def)

interpretation uniSend: stream_item "newUniSend p" ss_streamID StreamTypeUni p ss_closeForShutdown for p
  by unfold_locales (simp_all add: newUniSend_def newSendStream_def ss_closeForShutdown_def signalWrite_def)

interpretation uniReceive: stream_item "newUniReceive p" rs_streamID StreamTypeUni p rs_closeForShutdown for p
  by unfold_locales (simp_all add: newUniReceive_def newReceiveStream_def rs_closeForShutdown_def signalRead_def)

section \<open>Runs\<close>

text \<open>What changes the maps: the calls of the application and of the session, and what the streams in them do, which keeps their ids.\<close>

inductive sm_step :: "streamsMap \<Rightarrow> streamsMap \<Rightarrow> bool" where
  open_bidi: "sm_OpenStream m = (r, m', fs) \<Longrightarrow> sm_step m m'"
| open_bidi_sync: "sm_OpenStreamSync c m = (r, m', fs) \<Longrightarrow> sm_step m m'"
| open_bidi_resume: "sm_OpenStreamSync_resume c m pos = Inr (r, m') \<Longrightarrow> sm_step m m'"
| open_uni: "sm_OpenUniStream m = (r, m', fs) \<Longrightarrow> sm_step m m'"
| open_uni_sync: "sm_OpenUniStreamSync c m = (r, m', fs) \<Longrightarrow> sm_step m m'"
| open_uni_resume: "sm_OpenUniStreamSync_resume c m pos = Inr (r, m') \<Longrightarrow> sm_step m m'"
| accept_bidi: "sm_AcceptStream m = (r, m', fs) \<Longrightarrow> sm_step m m'"
| accept_uni: "sm_AcceptUniStream m = (r, m', fs) \<Longrightarrow> sm_step m m'"
| delete: "sm_DeleteStream m sid = Inr (m', fs) \<Longrightarrow> sm_step m m'"
| receive: "GetOrOpenReceiveStream m sid = Inr (str, m') \<Longrightarrow> sm_step m m'"
| send: "GetOrOpenSendStream m sid = Inr (str', m') \<Longrightarrow> sm_step m m'"
| max_streams: "HandleMaxStreamsFrame m f = Inr m' \<Longrightarrow> sm_step m m'"
| limits: "UpdateLimits m p = Inr m' \<Longrightarrow> sm_step m m'"
| close: "sm_CloseWithError m e = Inr m' \<Longrightarrow> sm_step m m'"
| own_bidi: "map_of (o_streams (outgoingBidiStreams m)) n = Some s \<Longrightarrow> st_StreamID s' = st_StreamID s \<Longrightarrow>
    sm_step m (m\<lparr>outgoingBidiStreams := (outgoingBidiStreams m)\<lparr>o_streams := AList.update n s' (o_streams (outgoingBidiStreams m))\<rparr>\<rparr>)"
| own_uni: "map_of (o_streams (outgoingUniStreams m)) n = Some t \<Longrightarrow> ss_streamID t' = ss_streamID t \<Longrightarrow>
    sm_step m (m\<lparr>outgoingUniStreams := (outgoingUniStreams m)\<lparr>o_streams := AList.update n t' (o_streams (outgoingUniStreams m))\<rparr>\<rparr>)"
| peer_bidi: "map_of (i_streams (incomingBidiStreams m)) n = Some s \<Longrightarrow> st_StreamID s' = st_StreamID s \<Longrightarrow>
    sm_step m (m\<lparr>incomingBidiStreams := (incomingBidiStreams m)\<lparr>i_streams := AList.update n s' (i_streams (incomingBidiStreams m))\<rparr>\<rparr>)"
| peer_uni: "map_of (i_streams (incomingUniStreams m)) n = Some u \<Longrightarrow> rs_streamID u' = rs_streamID u \<Longrightarrow>
    sm_step m (m\<lparr>incomingUniStreams := (incomingUniStreams m)\<lparr>i_streams := AList.update n u' (i_streams (incomingUniStreams m))\<rparr>\<rparr>)"

definition sm_reachable :: "Perspective \<Rightarrow> streamsMap \<Rightarrow> bool" where
  "sm_reachable pers m \<longleftrightarrow> (\<exists>maxBidi maxUni. sm_step\<^sup>*\<^sup>* (newStreamsMap maxBidi maxUni pers) m)"

definition sm_inv :: "Perspective \<Rightarrow> streamsMap \<Rightarrow> bool" where
  "sm_inv pers m \<longleftrightarrow> sm_perspective m = pers \<and>
    bidi.named pers (o_streams (outgoingBidiStreams m)) \<and> uniSend.named pers (o_streams (outgoingUniStreams m)) \<and>
    bidi.named (Opposite pers) (i_streams (incomingBidiStreams m)) \<and> uniReceive.named (Opposite pers) (i_streams (incomingUniStreams m))"

lemma sm_inv_new: "sm_inv pers (newStreamsMap maxBidi maxUni pers)"
  by (simp add: sm_inv_def newStreamsMap_def newOutgoingItemsMap_def newIncomingItemsMap_def bidi.named_Nil uniSend.named_Nil uniReceive.named_Nil)

lemma convertE_Inr [simp]: "convertE stype pers r = Inr x \<longleftrightarrow> r = Inr x"
  by (simp add: convertE_def split: sum.splits)

lemma Opposite_other: "p \<noteq> q \<Longrightarrow> Opposite q = p"
  by (cases p; cases q) auto

lemma getBidiStream_inv:
  assumes "sm_inv pers m" and "getBidiStream m sid = Inr (str, m')"
  shows "sm_inv pers m'" and "str = Some s \<Longrightarrow> st_StreamID s = StreamNum_StreamID (StreamID_StreamNum sid) StreamTypeBidi (InitiatedBy sid)"
    and "m' = m\<lparr>incomingBidiStreams := incomingBidiStreams m'\<rparr>"
  using assms bidi.i_get [of "Opposite pers" "incomingBidiStreams m" "StreamID_StreamNum sid"] bidi.o_get [of pers "outgoingBidiStreams m" "StreamID_StreamNum sid"]
  by (auto simp: sm_inv_def getBidiStream_def Let_def tryE_eq_Inr Opposite_other split: if_splits)

text \<open>The id of a stream behind the interfaces.\<close>

fun receiveID :: "receiveStreamI \<Rightarrow> StreamID" where
  "receiveID (RecvBidi s) = st_StreamID s"
| "receiveID (RecvUni s) = rs_streamID s"

fun sendID :: "sendStreamI \<Rightarrow> StreamID" where
  "sendID (SendBidi s) = st_StreamID s"
| "sendID (SendUni s) = ss_streamID s"

lemma StreamNum_StreamID_StreamNum:
  assumes "0 \<le> sid" and "sid < 2 ^ 62"
  shows "StreamNum_StreamID (StreamID_StreamNum sid) (StreamID_Type sid) (InitiatedBy sid) = sid"
proof -
  have n: "StreamID_StreamNum sid = sid div 4 + 1" using assms by (simp add: StreamID_StreamNum_def sdiv_nonneg)
  have "1 \<le> sid div 4 + 1" "sid div 4 + 1 \<le> MaxStreamCount" using assms by (simp_all add: MaxStreamCount_def push_bit_eq_mult)
  then show ?thesis using assms
    by (simp add: n StreamNum_StreamID_eq StreamID_Type_def InitiatedBy_def smod_nonneg; presburger)
qed

lemma receive_inv:
  assumes "sm_inv pers m" and "GetOrOpenReceiveStream m sid = Inr (str, m')"
  shows "sm_inv pers m'" and "str = Some s \<Longrightarrow> receiveID s = StreamNum_StreamID (StreamID_StreamNum sid) (StreamID_Type sid) (InitiatedBy sid)"
    and "m' = m\<lparr>incomingBidiStreams := incomingBidiStreams m', incomingUniStreams := incomingUniStreams m'\<rparr>"
proof -
  have g: "getOrOpenReceiveStream m sid = Inr (str, m')" using assms(2) by (simp add: GetOrOpenReceiveStream_def split: sum.splits)
  have "sm_inv pers m' \<and> (str = Some s \<longrightarrow> receiveID s = StreamNum_StreamID (StreamID_StreamNum sid) (StreamID_Type sid) (InitiatedBy sid)) \<and>
    m' = m\<lparr>incomingBidiStreams := incomingBidiStreams m', incomingUniStreams := incomingUniStreams m'\<rparr>"
  proof (cases "StreamID_Type sid")
    case StreamTypeUni
    then show ?thesis using g assms(1) uniReceive.i_get [of "Opposite pers" "incomingUniStreams m" "StreamID_StreamNum sid"]
      by (auto simp: sm_inv_def getOrOpenReceiveStream_def Let_def tryE_eq_Inr Opposite_other split: if_splits)
  next
    case StreamTypeBidi
    then obtain b where "getBidiStream m sid = Inr (b, m')" and b: "str = map_option RecvBidi b"
      using g by (auto simp: getOrOpenReceiveStream_def tryE_eq_Inr)
    note i = getBidiStream_inv [OF assms(1) this(1)]
    then obtain x where "m' = m\<lparr>incomingBidiStreams := x\<rparr>" by blast
    with i(1,2) b StreamTypeBidi show ?thesis by auto
  qed
  then show "sm_inv pers m'" "str = Some s \<Longrightarrow> receiveID s = StreamNum_StreamID (StreamID_StreamNum sid) (StreamID_Type sid) (InitiatedBy sid)"
    "m' = m\<lparr>incomingBidiStreams := incomingBidiStreams m', incomingUniStreams := incomingUniStreams m'\<rparr>" by blast+
qed

lemma send_inv:
  assumes "sm_inv pers m" and "GetOrOpenSendStream m sid = Inr (str, m')"
  shows "sm_inv pers m'" and "str = Some s \<Longrightarrow> sendID s = StreamNum_StreamID (StreamID_StreamNum sid) (StreamID_Type sid) (InitiatedBy sid)"
    and "m' = m\<lparr>incomingBidiStreams := incomingBidiStreams m'\<rparr>"
proof -
  have g: "getOrOpenSendStream m sid = Inr (str, m')" using assms(2) by (simp add: GetOrOpenSendStream_def split: sum.splits)
  have "sm_inv pers m' \<and> (str = Some s \<longrightarrow> sendID s = StreamNum_StreamID (StreamID_StreamNum sid) (StreamID_Type sid) (InitiatedBy sid)) \<and>
    m' = m\<lparr>incomingBidiStreams := incomingBidiStreams m'\<rparr>"
  proof (cases "StreamID_Type sid")
    case StreamTypeUni
    then show ?thesis using g assms(1) uniSend.o_get [of pers "outgoingUniStreams m" "StreamID_StreamNum sid"]
      by (auto simp: sm_inv_def getOrOpenSendStream_def Let_def tryE_eq_Inr split: if_splits)
  next
    case StreamTypeBidi
    then obtain b where "getBidiStream m sid = Inr (b, m')" and b: "str = map_option SendBidi b"
      using g by (auto simp: getOrOpenSendStream_def tryE_eq_Inr)
    note i = getBidiStream_inv [OF assms(1) this(1)]
    show ?thesis using i b StreamTypeBidi by auto
  qed
  then show "sm_inv pers m'" "str = Some s \<Longrightarrow> sendID s = StreamNum_StreamID (StreamID_StreamNum sid) (StreamID_Type sid) (InitiatedBy sid)"
    "m' = m\<lparr>incomingBidiStreams := incomingBidiStreams m'\<rparr>" by blast+
qed

lemmas outgoing_dests = bidi.o_open [rotated] bidi.o_open_sync [rotated] bidi.o_resume [rotated] bidi.o_delete [rotated] bidi.o_set_max [rotated] bidi.o_close [rotated]
  uniSend.o_open [rotated] uniSend.o_open_sync [rotated] uniSend.o_resume [rotated] uniSend.o_delete [rotated] uniSend.o_set_max [rotated] uniSend.o_close [rotated]

lemmas incoming_dests = bidi.i_accept [rotated] bidi.i_delete [rotated] bidi.i_close [rotated]
  uniReceive.i_accept [rotated] uniReceive.i_delete [rotated] uniReceive.i_close [rotated]

lemma sm_step_inv: "sm_step m m' \<Longrightarrow> sm_inv pers m \<Longrightarrow> sm_inv pers m'"
proof (induction rule: sm_step.induct)
  case (receive m sid str m')
  then show ?case using receive_inv by blast
next
  case (send m sid str' m')
  then show ?case using send_inv by blast
next
  case (delete m sid m' fs)
  then show ?case
    by (auto simp: sm_inv_def sm_DeleteStream_def i_DeleteStream_def Let_def tryE_eq_Inr split: StreamType.splits if_splits dest: outgoing_dests incoming_dests)
qed (auto simp: sm_inv_def sm_OpenStream_def sm_OpenStreamSync_def sm_OpenUniStream_def sm_OpenUniStreamSync_def sm_OpenStreamSync_resume_def
    sm_OpenUniStreamSync_resume_def sm_AcceptStream_def sm_AcceptUniStream_def HandleMaxStreamsFrame_def UpdateLimits_def sm_CloseWithError_def tryE_eq_Inr
    bidi.named_change uniSend.named_change uniReceive.named_change
    split: StreamType.splits if_splits prod.splits dest: outgoing_dests incoming_dests)

lemma sm_reachable_inv: "sm_reachable pers m \<Longrightarrow> sm_inv pers m"
  unfolding sm_reachable_def by (elim exE) (erule rtranclp_induct, rule sm_inv_new, rule sm_step_inv)

text \<open>C5. In every state the maps can reach, a frame is handed to the stream whose id it names, and handling it never opens
  a stream of this endpoint: the maps of its own streams stay as they are. A receive stream of its own and a send
  stream of the peer are refused.\<close>

theorem streams_map_routes:
  assumes "sm_reachable pers m" and "0 \<le> sid" and "sid < 2 ^ 62"
  shows "(case GetOrOpenReceiveStream m sid of
      Inl e \<Rightarrow> True
    | Inr (str, m') \<Rightarrow> (\<forall>s. str = Some s \<longrightarrow> receiveID s = sid) \<and> \<not> (StreamID_Type sid = StreamTypeUni \<and> InitiatedBy sid = pers) \<and>
        outgoingBidiStreams m' = outgoingBidiStreams m \<and> outgoingUniStreams m' = outgoingUniStreams m) \<and>
    (case GetOrOpenSendStream m sid of
      Inl e \<Rightarrow> True
    | Inr (str, m') \<Rightarrow> (\<forall>s. str = Some s \<longrightarrow> sendID s = sid) \<and> \<not> (StreamID_Type sid = StreamTypeUni \<and> InitiatedBy sid \<noteq> pers) \<and>
        outgoingBidiStreams m' = outgoingBidiStreams m \<and> outgoingUniStreams m' = outgoingUniStreams m)"
proof -
  note inv = sm_reachable_inv [OF assms(1)] and sid = StreamNum_StreamID_StreamNum [OF assms(2,3)]
  have p: "sm_perspective m = pers" using inv by (simp add: sm_inv_def)
  have "(\<forall>s. str = Some s \<longrightarrow> receiveID s = sid) \<and> \<not> (StreamID_Type sid = StreamTypeUni \<and> InitiatedBy sid = pers) \<and>
      outgoingBidiStreams m' = outgoingBidiStreams m \<and> outgoingUniStreams m' = outgoingUniStreams m"
    if r: "GetOrOpenReceiveStream m sid = Inr (str, m')" for str m'
  proof -
    have "\<not> (StreamID_Type sid = StreamTypeUni \<and> InitiatedBy sid = pers)"
      using r by (auto simp: GetOrOpenReceiveStream_def getOrOpenReceiveStream_def p split: sum.splits)
    then show ?thesis using receive_inv(2) [OF inv r] sid by (subst (1 2) receive_inv(3) [OF inv r]) simp
  qed
  moreover have "(\<forall>s. str = Some s \<longrightarrow> sendID s = sid) \<and> \<not> (StreamID_Type sid = StreamTypeUni \<and> InitiatedBy sid \<noteq> pers) \<and>
      outgoingBidiStreams m' = outgoingBidiStreams m \<and> outgoingUniStreams m' = outgoingUniStreams m"
    if r: "GetOrOpenSendStream m sid = Inr (str, m')" for str m'
  proof -
    have "\<not> (StreamID_Type sid = StreamTypeUni \<and> InitiatedBy sid \<noteq> pers)"
      using r by (auto simp: GetOrOpenSendStream_def getOrOpenSendStream_def p split: sum.splits if_splits)
    then show ?thesis using send_inv(2) [OF inv r] sid by (subst (1 2) send_inv(3) [OF inv r]) simp
  qed
  ultimately show ?thesis by (auto split: sum.splits)
qed

theorem streams_map_routes_witness:
  "\<exists>s m'. GetOrOpenReceiveStream (newStreamsMap 10 10 PerspectiveServer) 8 = Inr (Some s, m') \<and> receiveID s = 8"
proof -
  have "case GetOrOpenReceiveStream (newStreamsMap 10 10 PerspectiveServer) 8 of Inr (Some s, m') \<Rightarrow> True | _ \<Rightarrow> False" by code_simp
  moreover have "sm_reachable PerspectiveServer (newStreamsMap 10 10 PerspectiveServer)" by (auto simp: sm_reachable_def)
  ultimately show ?thesis using streams_map_routes [of PerspectiveServer "newStreamsMap 10 10 PerspectiveServer" 8]
    by (auto split: sum.splits option.splits)
qed

end
