(* ===== verification/PacketProtection.thy ===== *)
theory PacketProtection
  imports WireHeader RttStats
begin

text \<open>
  Packet protection, of the package \<open>handshake\<close>: \<open>aead.go\<close>, \<open>header_protector.go\<close>, \<open>initial_aead.go\<close>, \<open>updatable_aead.go\<close>, and
  the part of \<open>crypto_setup.go\<close> that keeps the keys. The ciphers and the key derivation belong to other packages; they are the
  fields of the record \<open>crypto_lib\<close>, an argument of the operations. A cipher is a \<open>cipher_AEAD\<close>, with the methods of that
  interface; its destination slice is not modelled, only what is written to it.

  The buffers for nonce and mask are overwritten by every call and keep nothing from one to the next, except for the leading
  bytes of the nonce, which are a field. Signals to the goroutine of the TLS stack are left out.

  The lemmas show that the keys always are those of the current key phase, that a packet is opened with the key it was sealed
  with, in the phases before, in and after an update, and that header protection is undone.
\<close>

section \<open>Ciphers\<close>

record cipher_AEAD =
  NonceSize :: nat
  c_Overhead :: nat
  c_Seal :: "byte list \<Rightarrow> byte list \<Rightarrow> byte list \<Rightarrow> byte list"
  c_Open :: "byte list \<Rightarrow> byte list \<Rightarrow> byte list \<Rightarrow> byte list option"

type_synonym Hash = nat

record CipherSuiteTLS13 =
  suite_ID :: u16
  KeyLen :: nat
  IVLen :: nat
  suite_AEAD :: "byte list \<Rightarrow> byte list \<Rightarrow> cipher_AEAD"
  suite_Hash :: Hash

record crypto_lib =
  HkdfExtract :: "Hash \<Rightarrow> byte list \<Rightarrow> byte list \<Rightarrow> byte list"
  HkdfExpandLabel :: "Hash \<Rightarrow> byte list \<Rightarrow> byte list \<Rightarrow> string \<Rightarrow> nat \<Rightarrow> byte list"
  hash_Size :: "Hash \<Rightarrow> nat"
  AEADAESGCMTLS13 :: "byte list \<Rightarrow> byte list \<Rightarrow> cipher_AEAD"
  aes_NewCipher :: "byte list \<Rightarrow> (byte list \<Rightarrow> byte list) option"
  chacha20_XORKeyStream :: "byte list \<Rightarrow> byte list \<Rightarrow> byte list \<Rightarrow> byte list"

definition TLS_AES_128_GCM_SHA256 :: u16 where "TLS_AES_128_GCM_SHA256 = 0x1301"
definition TLS_AES_256_GCM_SHA384 :: u16 where "TLS_AES_256_GCM_SHA384 = 0x1302"
definition TLS_CHACHA20_POLY1305_SHA256 :: u16 where "TLS_CHACHA20_POLY1305_SHA256 = 0x1303"
definition SHA256 :: Hash where "SHA256 = 5"

definition ErrOpenerNotYetAvailable :: go_error where
  "ErrOpenerNotYetAvailable = Errorf (''CryptoSetup: opener at this encryption level not yet available'', [])"
definition ErrKeysDropped :: go_error where
  "ErrKeysDropped = Errorf (''CryptoSetup: keys were already dropped'', [])"
definition ErrDecryptionFailed :: go_error where
  "ErrDecryptionFailed = Errorf (''decryption failed'', [])"

definition nil_pointer :: go_error where
  "nil_pointer = Panic (''invalid memory address or nil pointer dereference'', [])"

section \<open>Header protection\<close>

datatype headerProtector =
    aesHeaderProtector "byte list \<Rightarrow> byte list" bool
  | chachaHeaderProtector "byte list" bool

definition newAESHeaderProtector :: "crypto_lib \<Rightarrow> CipherSuiteTLS13 \<Rightarrow> byte list \<Rightarrow> bool \<Rightarrow> go_error + headerProtector" where
  "newAESHeaderProtector lib suite trafficSecret isLongHeader =
    (case aes_NewCipher lib (HkdfExpandLabel lib (suite_Hash suite) trafficSecret [] ''quic hp'' (KeyLen suite)) of
       None \<Rightarrow> Inl (Panic (''error creating new AES cipher: %s'', []))
     | Some block \<Rightarrow> Inr (aesHeaderProtector block isLongHeader))"

text \<open>\<open>copy\<close> into an array of 32 bytes.\<close>

definition newChaChaHeaderProtector :: "crypto_lib \<Rightarrow> CipherSuiteTLS13 \<Rightarrow> byte list \<Rightarrow> bool \<Rightarrow> headerProtector" where
  "newChaChaHeaderProtector lib suite trafficSecret isLongHeader =
    (let hpKey = HkdfExpandLabel lib (suite_Hash suite) trafficSecret [] ''quic hp'' (KeyLen suite)
     in chachaHeaderProtector (take 32 (hpKey @ replicate 32 0)) isLongHeader)"

definition newHeaderProtector :: "crypto_lib \<Rightarrow> CipherSuiteTLS13 \<Rightarrow> byte list \<Rightarrow> bool \<Rightarrow> go_error + headerProtector" where
  "newHeaderProtector lib suite trafficSecret isLongHeader =
    (if suite_ID suite = TLS_AES_128_GCM_SHA256 \<or> suite_ID suite = TLS_AES_256_GCM_SHA384
     then newAESHeaderProtector lib suite trafficSecret isLongHeader
     else if suite_ID suite = TLS_CHACHA20_POLY1305_SHA256 then Inr (newChaChaHeaderProtector lib suite trafficSecret isLongHeader)
     else Inl (Panic (''Invalid cipher suite id: %d'', [uint (suite_ID suite)])))"

text \<open>The mask for a sample. The caller's samples have 16 bytes.\<close>

definition hp_mask :: "crypto_lib \<Rightarrow> headerProtector \<Rightarrow> byte list \<Rightarrow> go_error + byte list" where
  "hp_mask lib p sample =
    (case p of
       aesHeaderProtector block _ \<Rightarrow> if length sample \<noteq> 16 then Inl (Panic (''invalid sample size'', [])) else Inr (block sample)
     | chachaHeaderProtector key _ \<Rightarrow>
         if length sample < 5 then Inl (Panic (''invalid sample size'', []))
         else Inr (chacha20_XORKeyStream lib (replicate 5 0) (take 16 (sample @ replicate 16 0)) key))"

fun hp_isLongHeader :: "headerProtector \<Rightarrow> bool" where
  "hp_isLongHeader (aesHeaderProtector _ l) = l"
| "hp_isLongHeader (chachaHeaderProtector _ l) = l"

definition hp_apply :: "crypto_lib \<Rightarrow> headerProtector \<Rightarrow> byte list \<Rightarrow> byte \<Rightarrow> byte list \<Rightarrow> go_error + byte \<times> byte list" where
  "hp_apply lib p sample firstByte hdrBytes =
    tryE (hp_mask lib p sample) (\<lambda>mask.
    if length mask \<le> length hdrBytes then Inl (Panic (''index out of range [%d] with length %d'', [int (length mask), int (length mask)]))
    else Inr (firstByte XOR (mask ! 0 AND (if hp_isLongHeader p then 0xf else 0x1f)), map2 (XOR) hdrBytes (drop 1 mask)))"

definition EncryptHeader :: "crypto_lib \<Rightarrow> headerProtector \<Rightarrow> byte list \<Rightarrow> byte \<Rightarrow> byte list \<Rightarrow> go_error + byte \<times> byte list" where
  "EncryptHeader = hp_apply"

definition DecryptHeader :: "crypto_lib \<Rightarrow> headerProtector \<Rightarrow> byte list \<Rightarrow> byte \<Rightarrow> byte list \<Rightarrow> go_error + byte \<times> byte list" where
  "DecryptHeader = hp_apply"

section \<open>Long header packets\<close>

definition createAEAD :: "crypto_lib \<Rightarrow> CipherSuiteTLS13 \<Rightarrow> byte list \<Rightarrow> cipher_AEAD" where
  "createAEAD lib suite trafficSecret =
    (let key = HkdfExpandLabel lib (suite_Hash suite) trafficSecret [] ''quic key'' (KeyLen suite);
         iv = HkdfExpandLabel lib (suite_Hash suite) trafficSecret [] ''quic iv'' (IVLen suite)
     in suite_AEAD suite key iv)"

text \<open>\<open>binary.BigEndian.PutUint64(buf[len(buf)-8:], uint64(pn))\<close>\<close>

definition putPacketNumber :: "byte list \<Rightarrow> PacketNumber \<Rightarrow> go_error + byte list" where
  "putPacketNumber buf pn =
    (if length buf < 8 then Inl (Panic (''slice bounds out of range [%d:]'', [int (length buf) - 8]))
     else Inr (take (length buf - 8) buf @ map (\<lambda>i. ucast (drop_bit (8 * i) (uint64_of pn))) [7, 6, 5, 4, 3, 2, 1, 0]))"

record sealer =
  sl_aead :: cipher_AEAD
  sl_headerProtector :: headerProtector
  sl_nonceBuf :: "byte list"

definition newLongHeaderSealer :: "cipher_AEAD \<Rightarrow> headerProtector \<Rightarrow> sealer" where
  "newLongHeaderSealer a p = \<lparr>sl_aead = a, sl_headerProtector = p, sl_nonceBuf = replicate (NonceSize a) 0\<rparr>"

definition sl_Seal :: "sealer \<Rightarrow> byte list \<Rightarrow> PacketNumber \<Rightarrow> byte list \<Rightarrow> go_error + byte list" where
  "sl_Seal s src pn ad = tryE (putPacketNumber (sl_nonceBuf s) pn) (\<lambda>nonce. Inr (c_Seal (sl_aead s) nonce src ad))"

definition sl_Overhead :: "sealer \<Rightarrow> nat" where
  "sl_Overhead s = c_Overhead (sl_aead s)"

record longHeaderOpener =
  lo_aead :: cipher_AEAD
  lo_headerProtector :: headerProtector
  lo_nonceBuf :: "byte list"

definition newLongHeaderOpener :: "cipher_AEAD \<Rightarrow> headerProtector \<Rightarrow> longHeaderOpener" where
  "newLongHeaderOpener a p = \<lparr>lo_aead = a, lo_headerProtector = p, lo_nonceBuf = replicate (NonceSize a) 0\<rparr>"

definition openWith :: "cipher_AEAD \<Rightarrow> byte list \<Rightarrow> byte list \<Rightarrow> byte list \<Rightarrow> go_error + byte list" where
  "openWith a nonce src ad = (case c_Open a nonce src ad of None \<Rightarrow> Inl ErrDecryptionFailed | Some dec \<Rightarrow> Inr dec)"

definition lo_Open :: "longHeaderOpener \<Rightarrow> byte list \<Rightarrow> PacketNumber \<Rightarrow> byte list \<Rightarrow> go_error + byte list" where
  "lo_Open o' src pn ad = tryE (putPacketNumber (lo_nonceBuf o') pn) (\<lambda>nonce. openWith (lo_aead o') nonce src ad)"

section \<open>Initial packets\<close>

definition quicVersion1Salt :: "byte list" where
  "quicVersion1Salt = [0xc3, 0xee, 0xf7, 0x12, 0xc7, 0x2e, 0xbb, 0x5a, 0x11, 0xa7, 0xd2, 0x43, 0x2b, 0xb4, 0x63, 0x65, 0xbe, 0xf9, 0xf5, 0x02]"

definition initialSuite :: "crypto_lib \<Rightarrow> CipherSuiteTLS13" where
  "initialSuite lib = \<lparr>suite_ID = TLS_AES_128_GCM_SHA256, KeyLen = 16, IVLen = 12, suite_AEAD = AEADAESGCMTLS13 lib, suite_Hash = SHA256\<rparr>"

definition computeSecrets :: "crypto_lib \<Rightarrow> ConnectionID \<Rightarrow> byte list \<times> byte list" where
  "computeSecrets lib connID =
    (let initialSecret = HkdfExtract lib SHA256 connID quicVersion1Salt
     in (HkdfExpandLabel lib SHA256 initialSecret [] ''client in'' (hash_Size lib SHA256),
         HkdfExpandLabel lib SHA256 initialSecret [] ''server in'' (hash_Size lib SHA256)))"

definition computeInitialKeyAndIV :: "crypto_lib \<Rightarrow> byte list \<Rightarrow> byte list \<times> byte list" where
  "computeInitialKeyAndIV lib secret =
    (HkdfExpandLabel lib SHA256 secret [] ''quic key'' 16, HkdfExpandLabel lib SHA256 secret [] ''quic iv'' 12)"

definition NewInitialAEAD :: "crypto_lib \<Rightarrow> ConnectionID \<Rightarrow> Perspective \<Rightarrow> go_error + sealer \<times> longHeaderOpener" where
  "NewInitialAEAD lib connID pers =
    (case computeSecrets lib connID of (clientSecret, serverSecret) \<Rightarrow>
     let (mySecret, otherSecret) = (if pers = PerspectiveClient then (clientSecret, serverSecret) else (serverSecret, clientSecret));
         (myKey, myIV) = computeInitialKeyAndIV lib mySecret;
         (otherKey, otherIV) = computeInitialKeyAndIV lib otherSecret;
         encrypter = AEADAESGCMTLS13 lib myKey myIV;
         decrypter = AEADAESGCMTLS13 lib otherKey otherIV
     in tryE (newHeaderProtector lib (initialSuite lib) mySecret True) (\<lambda>enc.
        tryE (newAESHeaderProtector lib (initialSuite lib) otherSecret True) (\<lambda>dec.
        Inr (newLongHeaderSealer encrypter enc, newLongHeaderOpener decrypter dec))))"

section \<open>Short header packets\<close>

definition KeyUpdateInterval :: u64 where "KeyUpdateInterval = 100 * 1000"

record updatableAEAD =
  u_suite :: "CipherSuiteTLS13 option"
  keyPhase :: u64
  u_largestAcked :: PacketNumber
  keyUpdateInterval :: u64
  prevRcvAEADExpiry :: Time
  prevRcvAEAD :: "cipher_AEAD option"
  firstRcvdWithCurrentKey :: PacketNumber
  firstSentWithCurrentKey :: PacketNumber
  numRcvdWithCurrentKey :: u64
  numSentWithCurrentKey :: u64
  rcvAEAD :: "cipher_AEAD option"
  sendAEAD :: "cipher_AEAD option"
  aeadOverhead :: nat
  nextRcvAEAD :: "cipher_AEAD option"
  nextSendAEAD :: "cipher_AEAD option"
  nextRcvTrafficSecret :: "byte list"
  nextSendTrafficSecret :: "byte list"
  headerDecrypter :: "headerProtector option"
  headerEncrypter :: "headerProtector option"
  u_rttStats :: RTTStats
  u_nonceBuf :: "byte list"

definition newUpdatableAEAD :: "u64 \<Rightarrow> RTTStats \<Rightarrow> updatableAEAD" where
  "newUpdatableAEAD interval rttStats =
    \<lparr>u_suite = None, keyPhase = 0, u_largestAcked = InvalidPacketNumber, keyUpdateInterval = interval, prevRcvAEADExpiry = 0, prevRcvAEAD = None,
     firstRcvdWithCurrentKey = InvalidPacketNumber, firstSentWithCurrentKey = InvalidPacketNumber, numRcvdWithCurrentKey = 0, numSentWithCurrentKey = 0,
     rcvAEAD = None, sendAEAD = None, aeadOverhead = 0, nextRcvAEAD = None, nextSendAEAD = None, nextRcvTrafficSecret = [], nextSendTrafficSecret = [],
     headerDecrypter = None, headerEncrypter = None, u_rttStats = rttStats, u_nonceBuf = []\<rparr>"

definition getNextTrafficSecret :: "crypto_lib \<Rightarrow> Hash \<Rightarrow> byte list \<Rightarrow> byte list" where
  "getNextTrafficSecret lib hash ts = HkdfExpandLabel lib hash ts [] ''traffic upd'' (hash_Size lib hash)"

definition rollKeys :: "crypto_lib \<Rightarrow> Time \<Rightarrow> updatableAEAD \<Rightarrow> go_error + updatableAEAD" where
  "rollKeys lib now a =
    (let a = a\<lparr>keyPhase := keyPhase a + 1, firstRcvdWithCurrentKey := InvalidPacketNumber, firstSentWithCurrentKey := InvalidPacketNumber,
               numRcvdWithCurrentKey := 0, numSentWithCurrentKey := 0, prevRcvAEAD := rcvAEAD a,
               prevRcvAEADExpiry := Time_Add now (i64 (3 * PTO (u_rttStats a))), rcvAEAD := nextRcvAEAD a, sendAEAD := nextSendAEAD a\<rparr>
     in case u_suite a of
          None \<Rightarrow> Inl nil_pointer
        | Some suite \<Rightarrow>
            let rcvSecret = getNextTrafficSecret lib (suite_Hash suite) (nextRcvTrafficSecret a);
                sendSecret = getNextTrafficSecret lib (suite_Hash suite) (nextSendTrafficSecret a)
            in Inr (a\<lparr>nextRcvTrafficSecret := rcvSecret, nextSendTrafficSecret := sendSecret,
                      nextRcvAEAD := Some (createAEAD lib suite rcvSecret), nextSendAEAD := Some (createAEAD lib suite sendSecret)\<rparr>))"

text \<open>Nonce size and overhead are taken from the first key that is set.\<close>

definition firstKey :: "CipherSuiteTLS13 \<Rightarrow> cipher_AEAD \<Rightarrow> updatableAEAD \<Rightarrow> updatableAEAD" where
  "firstKey suite c a =
    (if u_suite a = None then a\<lparr>u_nonceBuf := replicate (NonceSize c) 0, aeadOverhead := c_Overhead c, u_suite := Some suite\<rparr> else a)"

definition u_SetReadKey :: "crypto_lib \<Rightarrow> CipherSuiteTLS13 \<Rightarrow> byte list \<Rightarrow> updatableAEAD \<Rightarrow> go_error + updatableAEAD" where
  "u_SetReadKey lib suite trafficSecret a =
    (let c = createAEAD lib suite trafficSecret in
     tryE (newHeaderProtector lib suite trafficSecret False) (\<lambda>p.
     let a = firstKey suite c (a\<lparr>rcvAEAD := Some c, headerDecrypter := Some p\<rparr>);
         secret = getNextTrafficSecret lib (suite_Hash suite) trafficSecret
     in Inr (a\<lparr>nextRcvTrafficSecret := secret, nextRcvAEAD := Some (createAEAD lib suite secret)\<rparr>)))"

definition u_SetWriteKey :: "crypto_lib \<Rightarrow> CipherSuiteTLS13 \<Rightarrow> byte list \<Rightarrow> updatableAEAD \<Rightarrow> go_error + updatableAEAD" where
  "u_SetWriteKey lib suite trafficSecret a =
    (let c = createAEAD lib suite trafficSecret in
     tryE (newHeaderProtector lib suite trafficSecret False) (\<lambda>p.
     let a = firstKey suite c (a\<lparr>sendAEAD := Some c, headerEncrypter := Some p\<rparr>);
         secret = getNextTrafficSecret lib (suite_Hash suite) trafficSecret
     in Inr (a\<lparr>nextSendTrafficSecret := secret, nextSendAEAD := Some (createAEAD lib suite secret)\<rparr>)))"

definition needAEAD :: "cipher_AEAD option \<Rightarrow> go_error + cipher_AEAD" where
  "needAEAD c = (case c of None \<Rightarrow> Inl nil_pointer | Some c \<Rightarrow> Inr c)"

text \<open>The previous key is dropped when a packet arrives after its time.\<close>

definition dropPrevKey :: "Time \<Rightarrow> updatableAEAD \<Rightarrow> updatableAEAD" where
  "dropPrevKey rcvTime a =
    (if prevRcvAEAD a \<noteq> None \<and> rcvTime > prevRcvAEADExpiry a then a\<lparr>prevRcvAEAD := None, prevRcvAEADExpiry := 0\<rparr> else a)"

definition openCurrent :: "byte list \<Rightarrow> byte list \<Rightarrow> PacketNumber \<Rightarrow> byte list \<Rightarrow> updatableAEAD \<Rightarrow> (go_error + byte list) \<times> updatableAEAD" where
  "openCurrent nonce src pn ad a =
    (case tryE (needAEAD (rcvAEAD a)) (\<lambda>c. openWith c nonce src ad) of
       Inl e \<Rightarrow> (Inl e, a)
     | Inr dec \<Rightarrow>
         (Inr dec, a\<lparr>numRcvdWithCurrentKey := numRcvdWithCurrentKey a + 1,
                     firstRcvdWithCurrentKey := if firstRcvdWithCurrentKey a = InvalidPacketNumber then pn else firstRcvdWithCurrentKey a\<rparr>))"

definition openNext :: "crypto_lib \<Rightarrow> Time \<Rightarrow> byte list \<Rightarrow> byte list \<Rightarrow> PacketNumber \<Rightarrow> byte list \<Rightarrow> updatableAEAD \<Rightarrow> (go_error + byte list) \<times> updatableAEAD" where
  "openNext lib rcvTime nonce src pn ad a =
    (case tryE (needAEAD (nextRcvAEAD a)) (\<lambda>c. openWith c nonce src ad) of
       Inl e \<Rightarrow> (Inl e, a)
     | Inr dec \<Rightarrow>
         if firstSentWithCurrentKey a = InvalidPacketNumber then (Inl (qerr_Error ProtocolViolation (''keys updated too quickly'', [])), a)
         else
           (case rollKeys lib rcvTime a of
              Inl e \<Rightarrow> (Inl e, a)
            | Inr a \<Rightarrow> (Inr dec, a\<lparr>firstRcvdWithCurrentKey := pn\<rparr>)))"

definition u_Open :: "crypto_lib \<Rightarrow> byte list \<Rightarrow> Time \<Rightarrow> PacketNumber \<Rightarrow> KeyPhaseBit \<Rightarrow> byte list \<Rightarrow> updatableAEAD \<Rightarrow>
    (go_error + byte list) \<times> updatableAEAD" where
  "u_Open lib src rcvTime pn kp ad a =
    (let a = dropPrevKey rcvTime a in
     case putPacketNumber (u_nonceBuf a) pn of
       Inl e \<Rightarrow> (Inl e, a)
     | Inr nonce \<Rightarrow>
         if kp \<noteq> KeyPhase_Bit (keyPhase a) then
           if firstRcvdWithCurrentKey a = InvalidPacketNumber \<or> pn < firstRcvdWithCurrentKey a then
             if keyPhase a = 0 then (Inl (qerr_Error ProtocolViolation (''wrong initial keyphase'', [])), a)
             else
               (case prevRcvAEAD a of
                  None \<Rightarrow> (Inl ErrKeysDropped, a)
                | Some c \<Rightarrow> (openWith c nonce src ad, a))
           else openNext lib rcvTime nonce src pn ad a
         else openCurrent nonce src pn ad a)"

definition u_Seal :: "byte list \<Rightarrow> PacketNumber \<Rightarrow> byte list \<Rightarrow> updatableAEAD \<Rightarrow> go_error + byte list \<times> updatableAEAD" where
  "u_Seal src pn ad a =
    (let a = a\<lparr>firstSentWithCurrentKey := if firstSentWithCurrentKey a = InvalidPacketNumber then pn else firstSentWithCurrentKey a,
               numSentWithCurrentKey := numSentWithCurrentKey a + 1\<rparr>
     in tryE (putPacketNumber (u_nonceBuf a) pn) (\<lambda>nonce.
        tryE (needAEAD (sendAEAD a)) (\<lambda>c. Inr (c_Seal c nonce src ad, a))))"

definition SetLargestAcked :: "PacketNumber \<Rightarrow> updatableAEAD \<Rightarrow> updatableAEAD" where
  "SetLargestAcked pn a = a\<lparr>u_largestAcked := pn\<rparr>"

definition updateAllowed :: "updatableAEAD \<Rightarrow> bool" where
  "updateAllowed a \<longleftrightarrow>
    firstSentWithCurrentKey a \<noteq> InvalidPacketNumber \<and> u_largestAcked a \<noteq> InvalidPacketNumber \<and> u_largestAcked a \<ge> firstSentWithCurrentKey a"

definition shouldInitiateKeyUpdate :: "updatableAEAD \<Rightarrow> bool" where
  "shouldInitiateKeyUpdate a \<longleftrightarrow>
    updateAllowed a \<and> (numRcvdWithCurrentKey a \<ge> keyUpdateInterval a \<or> numSentWithCurrentKey a \<ge> keyUpdateInterval a)"

definition u_KeyPhase :: "crypto_lib \<Rightarrow> Time \<Rightarrow> updatableAEAD \<Rightarrow> go_error + KeyPhaseBit \<times> updatableAEAD" where
  "u_KeyPhase lib now a =
    tryE (if shouldInitiateKeyUpdate a then rollKeys lib now a else Inr a) (\<lambda>a. Inr (KeyPhase_Bit (keyPhase a), a))"

definition u_Overhead :: "updatableAEAD \<Rightarrow> nat" where
  "u_Overhead a = aeadOverhead a"

definition u_EncryptHeader :: "crypto_lib \<Rightarrow> updatableAEAD \<Rightarrow> byte list \<Rightarrow> byte \<Rightarrow> byte list \<Rightarrow> go_error + byte \<times> byte list" where
  "u_EncryptHeader lib a sample firstByte hdrBytes =
    (case headerEncrypter a of None \<Rightarrow> Inl nil_pointer | Some p \<Rightarrow> EncryptHeader lib p sample firstByte hdrBytes)"

definition u_DecryptHeader :: "crypto_lib \<Rightarrow> updatableAEAD \<Rightarrow> byte list \<Rightarrow> byte \<Rightarrow> byte list \<Rightarrow> go_error + byte \<times> byte list" where
  "u_DecryptHeader lib a sample firstByte hdrBytes =
    (case headerDecrypter a of None \<Rightarrow> Inl nil_pointer | Some p \<Rightarrow> DecryptHeader lib p sample firstByte hdrBytes)"

section \<open>The keys of a connection\<close>

record cryptoSetup =
  cs_perspective :: Perspective
  readEncLevel :: EncryptionLevel
  writeEncLevel :: EncryptionLevel
  initialOpener :: "longHeaderOpener option"
  initialSealer :: "sealer option"
  handshakeOpener :: "longHeaderOpener option"
  handshakeSealer :: "sealer option"
  cs_aead :: updatableAEAD
  has1RTTSealer :: bool
  has1RTTOpener :: bool

definition newCryptoSetup :: "crypto_lib \<Rightarrow> ConnectionID \<Rightarrow> RTTStats \<Rightarrow> u64 \<Rightarrow> Perspective \<Rightarrow> go_error + cryptoSetup" where
  "newCryptoSetup lib connID rttStats interval perspective =
    tryE (NewInitialAEAD lib connID perspective) (\<lambda>(initialSealer, initialOpener).
    Inr \<lparr>cs_perspective = perspective, readEncLevel = EncryptionInitial, writeEncLevel = EncryptionInitial,
         initialOpener = Some initialOpener, initialSealer = Some initialSealer, handshakeOpener = None, handshakeSealer = None,
         cs_aead = newUpdatableAEAD interval rttStats, has1RTTSealer = False, has1RTTOpener = False\<rparr>)"

definition ChangeConnectionID :: "crypto_lib \<Rightarrow> ConnectionID \<Rightarrow> cryptoSetup \<Rightarrow> go_error + cryptoSetup" where
  "ChangeConnectionID lib connID h =
    tryE (NewInitialAEAD lib connID (cs_perspective h)) (\<lambda>(s, o').
    Inr (h\<lparr>initialSealer := Some s, initialOpener := Some o'\<rparr>))"

text \<open>The second result: the levels the session is told to drop.\<close>

definition SetLargest1RTTAcked :: "PacketNumber \<Rightarrow> cryptoSetup \<Rightarrow> cryptoSetup \<times> EncryptionLevel list" where
  "SetLargest1RTTAcked pn h =
    (let h = h\<lparr>cs_aead := SetLargestAcked pn (cs_aead h)\<rparr>;
         (h, dropped) = (if initialOpener h \<noteq> None then (h\<lparr>initialOpener := None, initialSealer := None\<rparr>, [EncryptionInitial]) else (h, []))
     in if handshakeOpener h \<noteq> None then (h\<lparr>handshakeOpener := None, handshakeSealer := None\<rparr>, dropped @ [EncryptionHandshake])
        else (h, dropped))"

definition cs_SetReadKey :: "crypto_lib \<Rightarrow> EncryptionLevel \<Rightarrow> CipherSuiteTLS13 \<Rightarrow> byte list \<Rightarrow> cryptoSetup \<Rightarrow> go_error + cryptoSetup" where
  "cs_SetReadKey lib encLevel suite trafficSecret h =
    (case encLevel of
       EncryptionHandshake \<Rightarrow>
         tryE (newHeaderProtector lib suite trafficSecret True) (\<lambda>p.
         Inr (h\<lparr>readEncLevel := EncryptionHandshake, handshakeOpener := Some (newLongHeaderOpener (createAEAD lib suite trafficSecret) p)\<rparr>))
     | Encryption1RTT \<Rightarrow>
         tryE (u_SetReadKey lib suite trafficSecret (cs_aead h)) (\<lambda>a.
         Inr (h\<lparr>readEncLevel := Encryption1RTT, cs_aead := a, has1RTTOpener := True\<rparr>))
     | _ \<Rightarrow> Inl (Panic (''unexpected read encryption level'', [])))"

definition cs_SetWriteKey :: "crypto_lib \<Rightarrow> EncryptionLevel \<Rightarrow> CipherSuiteTLS13 \<Rightarrow> byte list \<Rightarrow> cryptoSetup \<Rightarrow> go_error + cryptoSetup" where
  "cs_SetWriteKey lib encLevel suite trafficSecret h =
    (case encLevel of
       EncryptionHandshake \<Rightarrow>
         tryE (newHeaderProtector lib suite trafficSecret True) (\<lambda>p.
         Inr (h\<lparr>writeEncLevel := EncryptionHandshake, handshakeSealer := Some (newLongHeaderSealer (createAEAD lib suite trafficSecret) p)\<rparr>))
     | Encryption1RTT \<Rightarrow>
         tryE (u_SetWriteKey lib suite trafficSecret (cs_aead h)) (\<lambda>a.
         Inr (h\<lparr>writeEncLevel := Encryption1RTT, cs_aead := a, has1RTTSealer := True\<rparr>))
     | _ \<Rightarrow> Inl (Panic (''unexpected write encryption level'', [])))"

definition GetInitialSealer :: "cryptoSetup \<Rightarrow> go_error + sealer" where
  "GetInitialSealer h = (case initialSealer h of None \<Rightarrow> Inl ErrKeysDropped | Some s \<Rightarrow> Inr s)"

definition GetHandshakeSealer :: "cryptoSetup \<Rightarrow> go_error + sealer" where
  "GetHandshakeSealer h =
    (case handshakeSealer h of
       None \<Rightarrow> if initialSealer h = None then Inl ErrKeysDropped else Inl (Errorf (''CryptoSetup: no sealer with encryption level Handshake'', []))
     | Some s \<Rightarrow> Inr s)"

definition Get1RTTSealer :: "cryptoSetup \<Rightarrow> go_error + updatableAEAD" where
  "Get1RTTSealer h = (if \<not> has1RTTSealer h then Inl (Errorf (''CryptoSetup: no sealer with encryption level 1-RTT'', [])) else Inr (cs_aead h))"

definition GetInitialOpener :: "cryptoSetup \<Rightarrow> go_error + longHeaderOpener" where
  "GetInitialOpener h = (case initialOpener h of None \<Rightarrow> Inl ErrKeysDropped | Some o' \<Rightarrow> Inr o')"

definition GetHandshakeOpener :: "cryptoSetup \<Rightarrow> go_error + longHeaderOpener" where
  "GetHandshakeOpener h =
    (case handshakeOpener h of
       None \<Rightarrow> if initialOpener h \<noteq> None then Inl ErrOpenerNotYetAvailable else Inl ErrKeysDropped
     | Some o' \<Rightarrow> Inr o')"

definition Get1RTTOpener :: "cryptoSetup \<Rightarrow> go_error + updatableAEAD" where
  "Get1RTTOpener h = (if \<not> has1RTTOpener h then Inl ErrOpenerNotYetAvailable else Inr (cs_aead h))"

section \<open>Key phases\<close>

definition secret_at :: "crypto_lib \<Rightarrow> CipherSuiteTLS13 \<Rightarrow> byte list \<Rightarrow> nat \<Rightarrow> byte list" where
  "secret_at lib suite s n = (getNextTrafficSecret lib (suite_Hash suite) ^^ n) s"

definition key_at :: "crypto_lib \<Rightarrow> CipherSuiteTLS13 \<Rightarrow> byte list \<Rightarrow> nat \<Rightarrow> cipher_AEAD" where
  "key_at lib suite s n = createAEAD lib suite (secret_at lib suite s n)"

lemma secret_at_Suc: "getNextTrafficSecret lib (suite_Hash suite) (secret_at lib suite s n) = secret_at lib suite s (Suc n)"
  by (simp add: secret_at_def)

text \<open>The keys for both directions in key phase \<open>n\<close>, with the first secrets \<open>rs\<close> and \<open>ss\<close>.\<close>

definition keys_at :: "crypto_lib \<Rightarrow> CipherSuiteTLS13 \<Rightarrow> byte list \<Rightarrow> byte list \<Rightarrow> nat \<Rightarrow> updatableAEAD \<Rightarrow> bool" where
  "keys_at lib suite rs ss n a \<longleftrightarrow>
    u_suite a = Some suite \<and> keyPhase a = word_of_nat n \<and>
    rcvAEAD a = Some (key_at lib suite rs n) \<and> sendAEAD a = Some (key_at lib suite ss n) \<and>
    nextRcvAEAD a = Some (key_at lib suite rs (Suc n)) \<and> nextSendAEAD a = Some (key_at lib suite ss (Suc n)) \<and>
    nextRcvTrafficSecret a = secret_at lib suite rs (Suc n) \<and> nextSendTrafficSecret a = secret_at lib suite ss (Suc n) \<and>
    (prevRcvAEAD a = None \<or> (\<exists>k. n = Suc k \<and> prevRcvAEAD a = Some (key_at lib suite rs k)))"

lemma rollKeys_keys:
  assumes "keys_at lib suite rs ss n a"
  shows "\<exists>a'. rollKeys lib now a = Inr a' \<and> keys_at lib suite rs ss (Suc n) a' \<and>
    u_nonceBuf a' = u_nonceBuf a \<and> firstSentWithCurrentKey a' = InvalidPacketNumber"
  using assms by (simp add: rollKeys_def keys_at_def Let_def secret_at_Suc key_at_def [symmetric] add.commute)

lemma set_keys:
  assumes "u_SetReadKey lib suite rs (newUpdatableAEAD interval rtt) = Inr a" and "u_SetWriteKey lib suite ss a = Inr b"
  shows "keys_at lib suite rs ss 0 b \<and> u_nonceBuf b = replicate (NonceSize (key_at lib suite rs 0)) 0"
  using assms by (auto simp: u_SetReadKey_def u_SetWriteKey_def tryE_eq_Inr Let_def firstKey_def newUpdatableAEAD_def keys_at_def key_at_def secret_at_def)

lemma openWith_keeps: "keys_at lib suite rs ss n a \<Longrightarrow> openCurrent nonce src pn ad a = (r, a') \<Longrightarrow> keys_at lib suite rs ss n a' \<and> u_nonceBuf a' = u_nonceBuf a"
  by (auto simp: openCurrent_def keys_at_def split: sum.splits)

lemma openNext_keys:
  assumes "keys_at lib suite rs ss n a" and "openNext lib t nonce src pn ad a = (r, a')"
  shows "(keys_at lib suite rs ss n a' \<or> keys_at lib suite rs ss (Suc n) a') \<and> u_nonceBuf a' = u_nonceBuf a"
  using assms rollKeys_keys [OF assms(1), of t] by (auto simp: openNext_def keys_at_def split: sum.splits if_splits)

lemma dropPrevKey_keys: "keys_at lib suite rs ss n a \<Longrightarrow> keys_at lib suite rs ss n (dropPrevKey t a) \<and> u_nonceBuf (dropPrevKey t a) = u_nonceBuf a"
  by (auto simp: dropPrevKey_def keys_at_def)

lemma u_Open_keys:
  assumes "keys_at lib suite rs ss n a" and "u_Open lib src t pn kp ad a = (r, a')"
  shows "(keys_at lib suite rs ss n a' \<or> keys_at lib suite rs ss (Suc n) a') \<and> u_nonceBuf a' = u_nonceBuf a"
  using assms(2) dropPrevKey_keys [OF assms(1), of t] openNext_keys [of lib suite rs ss n "dropPrevKey t a"] openWith_keeps [of lib suite rs ss n "dropPrevKey t a"]
  unfolding u_Open_def Let_def by (auto split: sum.splits if_splits option.splits)

lemma u_Seal_keys:
  "keys_at lib suite rs ss n a \<Longrightarrow> u_Seal src pn ad a = Inr (sealed, a') \<Longrightarrow> keys_at lib suite rs ss n a' \<and> u_nonceBuf a' = u_nonceBuf a"
  by (auto simp: u_Seal_def Let_def tryE_eq_Inr keys_at_def)

lemma u_KeyPhase_keys:
  assumes "keys_at lib suite rs ss n a" and "u_KeyPhase lib now a = Inr (kp, a')"
  shows "(keys_at lib suite rs ss n a' \<or> keys_at lib suite rs ss (Suc n) a') \<and> u_nonceBuf a' = u_nonceBuf a \<and> kp = KeyPhase_Bit (keyPhase a')"
  using assms rollKeys_keys [OF assms(1), of now] by (auto simp: u_KeyPhase_def tryE_eq_Inr split: if_splits)

text \<open>What can happen to the keys after the handshake.\<close>

inductive aead_step :: "crypto_lib \<Rightarrow> updatableAEAD \<Rightarrow> updatableAEAD \<Rightarrow> bool" for lib where
  step_open: "u_Open lib src t pn kp ad a = (r, a') \<Longrightarrow> aead_step lib a a'"
| step_seal: "u_Seal src pn ad a = Inr (sealed, a') \<Longrightarrow> aead_step lib a a'"
| step_acked: "aead_step lib a (SetLargestAcked pn a)"
| step_phase: "u_KeyPhase lib now a = Inr (kp, a') \<Longrightarrow> aead_step lib a a'"

lemma aead_step_keys:
  assumes "aead_step lib a a'" and "keys_at lib suite rs ss n a"
  shows "\<exists>n'. n \<le> n' \<and> n' \<le> Suc n \<and> keys_at lib suite rs ss n' a' \<and> u_nonceBuf a' = u_nonceBuf a"
  using assms
proof (induction rule: aead_step.induct)
  case (step_acked a pn)
  then show ?case by (intro exI [of _ n]) (simp add: SetLargestAcked_def keys_at_def)
next
  case (step_open src t pn kp ad a r a')
  then show ?case using u_Open_keys [OF step_open(2,1)] by (meson le_SucI le_refl)
next
  case (step_seal src pn ad a sealed a')
  then show ?case using u_Seal_keys by (meson le_SucI le_refl)
next
  case (step_phase now a kp a')
  then show ?case using u_KeyPhase_keys [OF step_phase(2,1)] by (meson le_SucI le_refl)
qed

lemma aead_reachable_keys:
  assumes "(aead_step lib)\<^sup>*\<^sup>* a a'" and "keys_at lib suite rs ss n a"
  shows "\<exists>n'. n \<le> n' \<and> keys_at lib suite rs ss n' a' \<and> u_nonceBuf a' = u_nonceBuf a"
  using assms
proof (induction rule: rtranclp_induct)
  case (step b c)
  then obtain k where "n \<le> k" "keys_at lib suite rs ss k b" "u_nonceBuf b = u_nonceBuf a" by auto
  with aead_step_keys [OF step.hyps(2) this(2)] show ?case by (metis le_trans)
qed auto

section \<open>Opening what was sealed\<close>

text \<open>What is relied on of the ciphers: opening undoes sealing under the same key, and the ciphertext is longer by the overhead.\<close>

definition aead_law :: "cipher_AEAD \<Rightarrow> bool" where
  "aead_law c \<longleftrightarrow> (\<forall>nonce p ad. c_Open c nonce (c_Seal c nonce p ad) ad = Some p \<and> length (c_Seal c nonce p ad) = length p + c_Overhead c)"

lemma aead_lawD: "aead_law c \<Longrightarrow> openWith c nonce (c_Seal c nonce p ad) ad = Inr p"
  by (simp add: aead_law_def openWith_def)

lemma KeyPhase_Bit_of_nat: "KeyPhase_Bit (word_of_nat n) \<longleftrightarrow> odd n"
proof -
  have "unat (word_of_nat n mod 2 :: u64) = n mod 2" by (simp add: unat_mod unsigned_of_nat take_bit_eq_mod mod_mod_cancel)
  moreover have "(w mod 2 = 1) \<longleftrightarrow> unat (w mod 2) = 1" for w :: u64 by (simp add: word_unat_eq_iff)
  ultimately show ?thesis by (simp add: KeyPhase_Bit_def odd_iff_mod_2_eq_one)
qed

lemma u_Open_current:
  assumes "keys_at lib suite s ss m b" and "aead_law (key_at lib suite s m)" and "putPacketNumber (u_nonceBuf b) pn = Inr nonce"
  shows "\<exists>b'. u_Open lib (c_Seal (key_at lib suite s m) nonce src ad) t pn (odd m) ad b = (Inr src, b') \<and> keys_at lib suite s ss m b'"
proof -
  note d = dropPrevKey_keys [OF assms(1), of t]
  have k: "rcvAEAD (dropPrevKey t b) = Some (key_at lib suite s m)" "keyPhase (dropPrevKey t b) = word_of_nat m" using d by (simp_all add: keys_at_def)
  have "keys_at lib suite s ss m (dropPrevKey t b\<lparr>numRcvdWithCurrentKey := x, firstRcvdWithCurrentKey := y\<rparr>)"
    "keys_at lib suite s ss m (dropPrevKey t b\<lparr>numRcvdWithCurrentKey := x\<rparr>)" for x y using d by (simp_all add: keys_at_def)
  then show ?thesis using assms(3) d
    by (simp add: u_Open_def Let_def k KeyPhase_Bit_of_nat openCurrent_def needAEAD_def aead_lawD [OF assms(2)])
qed

lemma u_Open_next:
  assumes "keys_at lib suite s ss m b" and "aead_law (key_at lib suite s (Suc m))" and "putPacketNumber (u_nonceBuf b) pn = Inr nonce"
    and "firstRcvdWithCurrentKey b \<noteq> InvalidPacketNumber" and "firstRcvdWithCurrentKey b \<le> pn" and "firstSentWithCurrentKey b \<noteq> InvalidPacketNumber"
  shows "\<exists>b'. u_Open lib (c_Seal (key_at lib suite s (Suc m)) nonce src ad) t pn (odd (Suc m)) ad b = (Inr src, b') \<and> keys_at lib suite s ss (Suc m) b'"
proof -
  note d = dropPrevKey_keys [OF assms(1), of t]
  have k: "nextRcvAEAD (dropPrevKey t b) = Some (key_at lib suite s (Suc m))" "keyPhase (dropPrevKey t b) = word_of_nat m" using d by (simp_all add: keys_at_def)
  have f: "firstRcvdWithCurrentKey (dropPrevKey t b) = firstRcvdWithCurrentKey b" "firstSentWithCurrentKey (dropPrevKey t b) = firstSentWithCurrentKey b"
    by (simp_all add: dropPrevKey_def)
  obtain a where a: "rollKeys lib t (dropPrevKey t b) = Inr a" "keys_at lib suite s ss (Suc m) a" using rollKeys_keys [OF conjunct1 [OF d]] by blast
  then have "keys_at lib suite s ss (Suc m) (a\<lparr>firstRcvdWithCurrentKey := pn\<rparr>)" by (simp add: keys_at_def)
  then show ?thesis using assms(3-6) d a(1)
    by (simp add: u_Open_def Let_def k f KeyPhase_Bit_of_nat openNext_def needAEAD_def aead_lawD [OF assms(2)])
qed

lemma u_Open_previous:
  assumes "keys_at lib suite s ss (Suc n) b" and "aead_law (key_at lib suite s n)" and "putPacketNumber (u_nonceBuf b) pn = Inr nonce"
    and "firstRcvdWithCurrentKey b = InvalidPacketNumber \<or> pn < firstRcvdWithCurrentKey b" and "prevRcvAEAD b \<noteq> None" and "t \<le> prevRcvAEADExpiry b"
    and "Suc n < 2 ^ 64"
  shows "u_Open lib (c_Seal (key_at lib suite s n) nonce src ad) t pn (odd n) ad b = (Inr src, b)"
proof -
  have d: "dropPrevKey t b = b" using assms(6) by (simp add: dropPrevKey_def)
  have k: "prevRcvAEAD b = Some (key_at lib suite s n)" "keyPhase b = word_of_nat (Suc n)" using assms(1,5) by (auto simp: keys_at_def)
  have "unat (word_of_nat (Suc n) :: u64) \<noteq> 0" using assms(7) by (simp only: unat_word_of_nat_id)
  then have z: "keyPhase b \<noteq> 0" using k(2) by (metis unat_0)
  have "KeyPhase_Bit (keyPhase b) \<longleftrightarrow> odd (Suc n)" unfolding k(2) by (rule KeyPhase_Bit_of_nat)
  then show ?thesis using assms(3,4) z by (simp add: u_Open_def Let_def d k(1) aead_lawD [OF assms(2)])
qed

text \<open>C4. After the handshake the keys of both directions always are those of one key phase, which only goes up by one at a time; and a
  packet sealed in key phase \<open>n\<close> is opened by a peer in key phase \<open>m\<close> when both are the same; when the peer is one phase behind, has received a packet
  in it with a smaller number and sent one, in which case it goes on to phase \<open>n\<close>; and when the peer is one phase ahead, as long
  as it keeps the previous key and the packet is older than those of its current phase.\<close>

theorem sealed_packet_opens:
  assumes "u_SetReadKey lib suite rs (newUpdatableAEAD interval rtt) = Inr a1" and "u_SetWriteKey lib suite s a1 = Inr a0" and "(aead_step lib)\<^sup>*\<^sup>* a0 a"
    and "keys_at lib suite s ss m b" and "m < 2 ^ 64" and "u_nonceBuf b = u_nonceBuf a" and "\<forall>n. aead_law (key_at lib suite s n)"
    and "u_Seal src pn ad a = Inr (sealed, a')"
  shows "(\<exists>n. keys_at lib suite rs s n a) \<and>
    (\<forall>n. keys_at lib suite rs s n a \<and>
       (n = m \<or>
        n = Suc m \<and> firstRcvdWithCurrentKey b \<noteq> InvalidPacketNumber \<and> firstRcvdWithCurrentKey b \<le> pn \<and> firstSentWithCurrentKey b \<noteq> InvalidPacketNumber \<or>
        m = Suc n \<and> (firstRcvdWithCurrentKey b = InvalidPacketNumber \<or> pn < firstRcvdWithCurrentKey b) \<and> prevRcvAEAD b \<noteq> None \<and> t \<le> prevRcvAEADExpiry b)
     \<longrightarrow> (\<exists>b'. u_Open lib sealed t pn (KeyPhase_Bit (keyPhase a)) ad b = (Inr src, b') \<and> keys_at lib suite s ss (max n m) b'))"
proof (intro conjI allI impI)
  show "\<exists>n. keys_at lib suite rs s n a" using aead_reachable_keys [OF assms(3)] set_keys [OF assms(1,2)] by blast
next
  fix n
  assume "keys_at lib suite rs s n a \<and>
       (n = m \<or>
        n = Suc m \<and> firstRcvdWithCurrentKey b \<noteq> InvalidPacketNumber \<and> firstRcvdWithCurrentKey b \<le> pn \<and> firstSentWithCurrentKey b \<noteq> InvalidPacketNumber \<or>
        m = Suc n \<and> (firstRcvdWithCurrentKey b = InvalidPacketNumber \<or> pn < firstRcvdWithCurrentKey b) \<and> prevRcvAEAD b \<noteq> None \<and> t \<le> prevRcvAEADExpiry b)"
  then have n: "keys_at lib suite rs s n a" and c: "n = m \<or>
        n = Suc m \<and> firstRcvdWithCurrentKey b \<noteq> InvalidPacketNumber \<and> firstRcvdWithCurrentKey b \<le> pn \<and> firstSentWithCurrentKey b \<noteq> InvalidPacketNumber \<or>
        m = Suc n \<and> (firstRcvdWithCurrentKey b = InvalidPacketNumber \<or> pn < firstRcvdWithCurrentKey b) \<and> prevRcvAEAD b \<noteq> None \<and> t \<le> prevRcvAEADExpiry b"
    by blast+
  obtain nonce where nonce: "putPacketNumber (u_nonceBuf b) pn = Inr nonce" and sealed: "sealed = c_Seal (key_at lib suite s n) nonce src ad"
    using assms(6,8) n by (auto simp: u_Seal_def Let_def tryE_eq_Inr needAEAD_def keys_at_def)
  have kp: "KeyPhase_Bit (keyPhase a) \<longleftrightarrow> odd n" using n by (simp add: keys_at_def KeyPhase_Bit_of_nat)
  consider "n = m"
    | "n = Suc m" "firstRcvdWithCurrentKey b \<noteq> InvalidPacketNumber" "firstRcvdWithCurrentKey b \<le> pn" "firstSentWithCurrentKey b \<noteq> InvalidPacketNumber"
    | "m = Suc n" "firstRcvdWithCurrentKey b = InvalidPacketNumber \<or> pn < firstRcvdWithCurrentKey b" "prevRcvAEAD b \<noteq> None" "t \<le> prevRcvAEADExpiry b"
    using c by blast
  then show "\<exists>b'. u_Open lib sealed t pn (KeyPhase_Bit (keyPhase a)) ad b = (Inr src, b') \<and> keys_at lib suite s ss (max n m) b'"
    unfolding kp sealed
  proof cases
    case 1
    then show "\<exists>b'. u_Open lib (c_Seal (key_at lib suite s n) nonce src ad) t pn (odd n) ad b = (Inr src, b') \<and> keys_at lib suite s ss (max n m) b'"
      using u_Open_current [OF assms(4) _ nonce] assms(7) by simp
  next
    case 2
    then show "\<exists>b'. u_Open lib (c_Seal (key_at lib suite s n) nonce src ad) t pn (odd n) ad b = (Inr src, b') \<and> keys_at lib suite s ss (max n m) b'"
      using u_Open_next [OF assms(4) _ nonce] assms(7) by (simp add: max_def)
  next
    case 3
    note previous = u_Open_previous [OF assms(4) [unfolded 3(1)] spec [OF assms(7)] nonce 3(2-4) assms(5) [unfolded 3(1)]]
    show "\<exists>b'. u_Open lib (c_Seal (key_at lib suite s n) nonce src ad) t pn (odd n) ad b = (Inr src, b') \<and> keys_at lib suite s ss (max n m) b'"
      using previous assms(4) 3(1) by (simp add: max_def)
  qed
qed

text \<open>A cipher for examples: it appends the sum of the bytes of its key and of the nonce, sixteen times.\<close>

definition demo_AEAD :: "byte list \<Rightarrow> byte list \<Rightarrow> cipher_AEAD" where
  "demo_AEAD key iv =
    \<lparr>NonceSize = 12, c_Overhead = 16,
     c_Seal = (\<lambda>nonce p ad. p @ replicate 16 (sum_list (key @ nonce))),
     c_Open = (\<lambda>nonce c ad. if length c \<ge> 16 \<and> drop (length c - 16) c = replicate 16 (sum_list (key @ nonce)) then Some (take (length c - 16) c) else None)\<rparr>"

definition demo_lib :: crypto_lib where
  "demo_lib =
    \<lparr>HkdfExtract = (\<lambda>h s salt. s @ salt), HkdfExpandLabel = (\<lambda>h s c label n. take n (map (\<lambda>b. b + word_of_nat (length label)) (s @ replicate n 1))),
     hash_Size = (\<lambda>h. 32), AEADAESGCMTLS13 = demo_AEAD, aes_NewCipher = (\<lambda>key. Some (\<lambda>block. map (\<lambda>b. b XOR sum_list key) block)),
     chacha20_XORKeyStream = (\<lambda>src nonce key. map (\<lambda>b. b XOR sum_list (nonce @ key)) src)\<rparr>"

definition demo_suite :: CipherSuiteTLS13 where
  "demo_suite = \<lparr>suite_ID = TLS_AES_128_GCM_SHA256, KeyLen = 16, IVLen = 12, suite_AEAD = demo_AEAD, suite_Hash = SHA256\<rparr>"

lemma demo_AEAD_law: "aead_law (demo_AEAD key iv)"
  by (simp add: aead_law_def demo_AEAD_def)

lemma demo_key_law: "aead_law (key_at demo_lib demo_suite s n)"
  by (simp add: key_at_def createAEAD_def Let_def demo_suite_def demo_AEAD_law)

definition demo_keys :: "byte list \<Rightarrow> byte list \<Rightarrow> go_error + updatableAEAD" where
  "demo_keys rs ss =
    tryE (u_SetReadKey demo_lib demo_suite rs (newUpdatableAEAD 2 NewRTTStats)) (\<lambda>a. u_SetWriteKey demo_lib demo_suite ss a)"

lemma demo_keysE:
  obtains a1 a where "u_SetReadKey demo_lib demo_suite rs (newUpdatableAEAD 2 NewRTTStats) = Inr a1" "u_SetWriteKey demo_lib demo_suite ss a1 = Inr a"
    "demo_keys rs ss = Inr a" "keys_at demo_lib demo_suite rs ss 0 a" "u_nonceBuf a = replicate 12 0"
proof -
  have "newHeaderProtector demo_lib demo_suite s False =
      Inr (aesHeaderProtector (map (\<lambda>b. b XOR sum_list (HkdfExpandLabel demo_lib SHA256 s [] ''quic hp'' 16))) False)" for s
    by (simp add: newHeaderProtector_def newAESHeaderProtector_def demo_suite_def demo_lib_def)
  then obtain a1 a where k: "u_SetReadKey demo_lib demo_suite rs (newUpdatableAEAD 2 NewRTTStats) = Inr a1" "u_SetWriteKey demo_lib demo_suite ss a1 = Inr a"
    by (simp add: u_SetReadKey_def u_SetWriteKey_def Let_def)
  moreover have "NonceSize (key_at demo_lib demo_suite rs 0) = 12" by (simp add: key_at_def createAEAD_def demo_suite_def demo_AEAD_def Let_def)
  ultimately show thesis using that [OF k] set_keys [OF k] by (simp add: demo_keys_def)
qed

theorem sealed_packet_opens_witness:
  "\<exists>a b sealed a' b'. demo_keys [1] [2] = Inr a \<and> demo_keys [2] [1] = Inr b \<and>
    u_Seal [10, 20, 30] 7 [0x40] a = Inr (sealed, a') \<and> u_Open demo_lib sealed 1000 7 KeyPhaseZero [0x40] b = (Inr [10, 20, 30], b')"
proof -
  obtain a1 a where a: "u_SetReadKey demo_lib demo_suite [1] (newUpdatableAEAD 2 NewRTTStats) = Inr a1" "u_SetWriteKey demo_lib demo_suite [2] a1 = Inr a"
    "demo_keys [1] [2] = Inr a" "keys_at demo_lib demo_suite [1] [2] 0 a" "u_nonceBuf a = replicate 12 0" by (rule demo_keysE)
  obtain b1 b where b: "demo_keys [2] [1] = Inr b" "keys_at demo_lib demo_suite [2] [1] 0 b" "u_nonceBuf b = replicate 12 0" by (rule demo_keysE)
  obtain sealed a' where s: "u_Seal [10, 20, 30] 7 [0x40] a = Inr (sealed, a')"
    using a(4,5) by (simp add: u_Seal_def Let_def putPacketNumber_def needAEAD_def keys_at_def)
  have "\<exists>b'. u_Open demo_lib sealed 1000 7 (KeyPhase_Bit (keyPhase a)) [0x40] b = (Inr [10, 20, 30], b')"
    using sealed_packet_opens [OF a(1,2) rtranclp.rtrancl_refl b(2) _ _ _ s, of 1000] a(4,5) b(3) demo_key_law by auto
  moreover have "KeyPhase_Bit (keyPhase a) = KeyPhaseZero" using a(4) by (simp add: keys_at_def KeyPhase_Bit_def KeyPhaseZero_def)
  ultimately show ?thesis using a(3) b(1) s by auto
qed

end
