(* ===== verification/Framer.thy ===== *)
theory Framer
  imports SendStream GoFloat
begin

text \<open>
  The framer, \<open>framer.go\<close>: it collects control frames and asks the streams that have data for frames that fill a packet,
  round robin, at most \<open>StreamMultiplexLimit\<close> of them, a value of the program's configuration. The streams are behind the
  interface \<open>streamGetter\<close>: the functions \<open>getStream\<close>, which tells whether the stream is still there, and \<open>pop\<close>, on a state
  of their own. The locale \<open>frame_source\<close> says what the framer relies on; the sending halves of streams satisfy it.

  The lemmas show that the frames fit into the space that is left in the packet, although the last one is asked for with
  room for a length field that is taken out again, and that no stream with data leaves the queue.
\<close>

definition MinStreamFrameSize :: ByteCount where "MinStreamFrameSize = 128"

record framerI =
  activeStreams :: "StreamID set"
  streamQueue :: "StreamID list"
  controlFrames :: "Frame list"

definition newFramer :: framerI where
  "newFramer = \<lparr>activeStreams = {}, streamQueue = [], controlFrames = []\<rparr>"

definition QueueControlFrame_framer :: "framerI \<Rightarrow> Frame \<Rightarrow> framerI" where
  "QueueControlFrame_framer f frame = f\<lparr>controlFrames := controlFrames f @ [frame]\<rparr>"

section \<open>Control frames\<close>

function controlLoop :: "Frame list \<Rightarrow> ByteCount \<Rightarrow> Frame list \<Rightarrow> ByteCount \<Rightarrow> go_error + Frame list \<times> ByteCount \<times> Frame list" where
  "controlLoop frames len control maxLen =
    (if length control > 0 then
       let frame = last control
       in tryE (Frame_Length frame) (\<lambda>frameLen.
          if len + frameLen > maxLen then Inr (frames, len, control)
          else controlLoop (frames @ [frame]) (len + frameLen) (butlast control) maxLen)
     else Inr (frames, len, control))"
  by pat_completeness auto

termination
  by (relation "measure (\<lambda>(_, _, control, _). length control)") simp_all

declare controlLoop.simps [simp del]

definition AppendControlFrames :: "framerI \<Rightarrow> Frame list \<Rightarrow> ByteCount \<Rightarrow> go_error + Frame list \<times> ByteCount \<times> framerI" where
  "AppendControlFrames f frames maxLen =
    tryE (controlLoop frames 0 (controlFrames f) maxLen) (\<lambda>(frames, len, control). Inr (frames, len, f\<lparr>controlFrames := control\<rparr>))"

section \<open>Stream frames\<close>

definition AddActiveStream :: "framerI \<Rightarrow> StreamID \<Rightarrow> framerI" where
  "AddActiveStream f sid =
    (if sid \<in> activeStreams f then f
     else f\<lparr>streamQueue := streamQueue f @ [sid], activeStreams := insert sid (activeStreams f)\<rparr>)"

text \<open>\<open>int32(x)\<close> keeps the low 32 bits.\<close>

definition i32 :: "int \<Rightarrow> int" where
  "i32 x = (x + 2 ^ 31) mod 2 ^ 32 - 2 ^ 31"

definition maxLengthPerRound :: "ByteCount \<Rightarrow> int \<Rightarrow> int \<Rightarrow> int" where
  "maxLengthPerRound maxLen numActiveStreams limit =
    (if numActiveStreams > limit
     then i32 (trunc (f32 (f32 (of_int (uint maxLen)) / float32_of_int limit)))
     else i32 (trunc (f32 (f32 (of_int (uint maxLen)) / float32_of_int numActiveStreams))))"

text \<open>The state of the loop: the framer, the streams, the frames so far with their length, the index of the last stream
  frame, and the number of streams that were asked.\<close>

record 'w appending =
  ap_framer :: framerI
  ap_streams :: 'w
  ap_frames :: "Frame list"
  ap_length :: ByteCount
  ap_last :: "nat option"
  ap_multiplexed :: int

type_synonym 'w getter = "'w \<Rightarrow> StreamID \<Rightarrow> bool \<times> 'w"
type_synonym 'w popper = "'w \<Rightarrow> StreamID \<Rightarrow> ByteCount \<Rightarrow> go_error + (StreamFrame option \<times> bool) \<times> 'w"

definition remainingFor :: "int \<Rightarrow> ByteCount \<Rightarrow> int \<Rightarrow> ByteCount \<Rightarrow> ByteCount" where
  "remainingFor limit maxLen numActiveStreams len =
    (let remainingLen = maxLen - len;
         quota = maxLengthPerRound maxLen numActiveStreams limit
     in if i32 (uint remainingLen) > quota then word_of_int quota else remainingLen)"

definition streamRound :: "'w getter \<Rightarrow> 'w popper \<Rightarrow> int \<Rightarrow> ByteCount \<Rightarrow> int \<Rightarrow> 'w appending \<Rightarrow> go_error + 'w appending" where
  "streamRound getStream pop limit maxLen numActiveStreams a =
    (case streamQueue (ap_framer a) of
       [] \<Rightarrow> Inl (Panic (''index out of range [%d] with length %d'', [0, 0]))
     | sid # rest \<Rightarrow>
         let f = (ap_framer a)\<lparr>streamQueue := rest\<rparr> in
         case getStream (ap_streams a) sid of (found, w) \<Rightarrow>
         if \<not> found then Inr (a\<lparr>ap_framer := f\<lparr>activeStreams := activeStreams f - {sid}\<rparr>, ap_streams := w\<rparr>)
         else
           let remainingLen = remainingFor limit maxLen numActiveStreams (ap_length a) in
           tryE (VarIntLen remainingLen) (\<lambda>lenLen.
           tryE (pop w sid (remainingLen + lenLen)) (\<lambda>((frame, hasMoreData), w).
           let f = (if hasMoreData then f\<lparr>streamQueue := streamQueue f @ [sid]\<rparr> else f\<lparr>activeStreams := activeStreams f - {sid}\<rparr>);
               a = a\<lparr>ap_framer := f, ap_streams := w, ap_multiplexed := i64 (ap_multiplexed a + 1)\<rparr>
           in case frame of
                None \<Rightarrow> Inr a
              | Some frame \<Rightarrow>
                  tryE (StreamFrame_Length frame) (\<lambda>len.
                  Inr (a\<lparr>ap_frames := ap_frames a @ [FStream frame], ap_length := ap_length a + len, ap_last := Some (length (ap_frames a))\<rparr>)))))"

fun streamRounds :: "'w getter \<Rightarrow> 'w popper \<Rightarrow> int \<Rightarrow> ByteCount \<Rightarrow> int \<Rightarrow> nat \<Rightarrow> 'w appending \<Rightarrow> go_error + 'w appending" where
  "streamRounds getStream pop limit maxLen n 0 a = Inr a"
| "streamRounds getStream pop limit maxLen n (Suc k) a =
    (if ap_multiplexed a < limit then
       if MinStreamFrameSize + ap_length a > maxLen then Inr a
       else tryE (streamRound getStream pop limit maxLen n a) (streamRounds getStream pop limit maxLen n k)
     else Inr a)"

definition dropDataLen :: "'w appending \<Rightarrow> go_error + Frame list \<times> ByteCount" where
  "dropDataLen a =
    (case ap_last a of
       None \<Rightarrow> Inr (ap_frames a, ap_length a)
     | Some i \<Rightarrow>
         (case ap_frames a ! i of
            FStream sf \<Rightarrow>
              tryE (StreamFrame_Length sf) (\<lambda>lastFrameLen.
              let sf = sf\<lparr>sf_DataLenPresent := False\<rparr>
              in tryE (StreamFrame_Length sf) (\<lambda>len. Inr ((ap_frames a)[i := FStream sf], ap_length a + (len - lastFrameLen))))
          | _ \<Rightarrow> Inl (Panic (''interface conversion: wire.Frame is not *wire.StreamFrame'', []))))"

definition AppendStreamFrames :: "'w getter \<Rightarrow> 'w popper \<Rightarrow> int \<Rightarrow> framerI \<Rightarrow> 'w \<Rightarrow> Frame list \<Rightarrow> ByteCount \<Rightarrow>
    go_error + (Frame list \<times> ByteCount) \<times> framerI \<times> 'w" where
  "AppendStreamFrames getStream pop limit f w frames maxLen =
    (let n = length (streamQueue f);
         a = \<lparr>ap_framer = f, ap_streams = w, ap_frames = frames, ap_length = 0, ap_last = None, ap_multiplexed = 0\<rparr>
     in tryE (streamRounds getStream pop limit maxLen (int n) n a) (\<lambda>a.
        tryE (dropDataLen a) (\<lambda>res. Inr (res, ap_framer a, ap_streams a))))"

section \<open>Control frames fit\<close>

definition frames_length :: "Frame list \<Rightarrow> nat" where
  "frames_length fs = sum_list (map (\<lambda>f. case Frame_Length f of Inr n \<Rightarrow> unat n | Inl _ \<Rightarrow> 0) fs)"

lemma frames_length_append [simp]: "frames_length (a @ b) = frames_length a + frames_length b"
  by (simp add: frames_length_def)

lemma controlLoop_fits:
  assumes "controlLoop frames len control maxLen = Inr (frames', len', control')" and "unat len \<le> unat maxLen"
    and "\<forall>f \<in> set control. \<forall>n. Frame_Length f = Inr n \<longrightarrow> unat n < 2 ^ 62" and "unat maxLen < 2 ^ 62"
  shows "\<exists>k. k \<le> length control \<and> control' = take (length control - k) control \<and> frames' = frames @ rev (drop (length control - k) control) \<and>
    unat len' = unat len + frames_length (drop (length control - k) control) \<and> unat len' \<le> unat maxLen \<and>
    (control' \<noteq> [] \<longrightarrow> unat len' + frames_length [last control'] > unat maxLen)"
  using assms
proof (induction frames len control maxLen rule: controlLoop.induct)
  case (1 frames len control maxLen)
  have step: "controlLoop frames len control maxLen = (if length control > 0 then tryE (Frame_Length (last control)) (\<lambda>frameLen.
      if len + frameLen > maxLen then Inr (frames, len, control)
      else controlLoop (frames @ [last control]) (len + frameLen) (butlast control) maxLen) else Inr (frames, len, control))"
    by (subst controlLoop.simps) (simp only: Let_def)
  show ?case
  proof (cases "control = []")
    case True
    then show ?thesis using 1(2,3) unfolding step by (simp add: frames_length_def)
  next
    case False
    then obtain init frame where c: "control = init @ [frame]" by (metis append_butlast_last_id)
    obtain n where n: "Frame_Length frame = Inr n" using 1(2) c unfolding step by (cases "Frame_Length frame") auto
    have small: "unat n < 2 ^ 62" "unat len < 2 ^ 62" using 1(3-5) c n by auto
    then have sum: "unat (len + n) = unat len + unat n" by (intro unat_plus_lt) simp
    show ?thesis
    proof (cases "len + n > maxLen")
      case True
      then have "frames' = frames" "len' = len" "control' = control" using 1(2) c n unfolding step by simp_all
      then show ?thesis using True 1(3) sum c n by (intro exI [of _ 0]) (simp add: frames_length_def word_less_nat_alt)
    next
      case False
      have rec: "controlLoop (frames @ [frame]) (len + n) init maxLen = Inr (frames', len', control')"
        using 1(2) c n False unfolding step by simp
      have "\<exists>k. k \<le> length init \<and> control' = take (length init - k) init \<and> frames' = (frames @ [frame]) @ rev (drop (length init - k) init) \<and>
          unat len' = unat (len + n) + frames_length (drop (length init - k) init) \<and> unat len' \<le> unat maxLen \<and>
          (control' \<noteq> [] \<longrightarrow> unat len' + frames_length [last control'] > unat maxLen)"
        using 1(1) [OF _ refl, of n] n False rec 1(4,5) by (simp add: c word_less_nat_alt not_less)
      then obtain k where k: "k \<le> length init" "control' = take (length init - k) init" "frames' = (frames @ [frame]) @ rev (drop (length init - k) init)"
        "unat len' = unat (len + n) + frames_length (drop (length init - k) init)" "unat len' \<le> unat maxLen"
        "control' \<noteq> [] \<longrightarrow> unat len' + frames_length [last control'] > unat maxLen" by blast
      have "frames_length [frame] = unat n" using n by (simp add: frames_length_def)
      then show ?thesis using k sum by (intro exI [of _ "Suc k"]) (auto simp: c)
    qed
  qed
qed

section \<open>Stream frames fit\<close>

text \<open>What the framer relies on: a stream that was found can be asked for a frame, which fits into the size it was given.\<close>

locale frame_source =
  fixes getStream :: "'w getter" and pop :: "'w popper" and ok :: "'w \<Rightarrow> bool"
  assumes get_ok: "ok w \<Longrightarrow> getStream w sid = (found, w') \<Longrightarrow> ok w'"
    and pop_ok: "ok w \<Longrightarrow> getStream w sid = (True, w') \<Longrightarrow> unat m \<le> 1452 \<Longrightarrow>
      \<exists>frame more w''. pop w' sid m = Inr ((frame, more), w'') \<and> ok w'' \<and>
        (\<forall>f. frame = Some f \<longrightarrow> wf_StreamFrame f \<and> sf_DataLenPresent f \<and> fits f m)"

lemma i32_id: "- (2 ^ 31) \<le> x \<Longrightarrow> x < 2 ^ 31 \<Longrightarrow> i32 x = x"
  by (simp add: i32_def)

lemma round_even_le: "0 \<le> y \<Longrightarrow> 0 \<le> round_even y \<and> of_int (round_even y) \<le> y + 1"
  unfolding round_even_def Let_def by (auto simp: of_int_floor_le intro: order_trans [OF of_int_floor_le])

lemma round_float_le:
  assumes "0 \<le> x" and "0 < p"
  shows "0 \<le> round_float p x \<and> round_float p x \<le> 2 * x"
proof (cases "x = 0")
  case True
  then show ?thesis by (simp add: round_float_def)
next
  case False
  then have x: "0 < x" using assms by simp
  define e where "e = int p - 1 - exponent x"
  define y where "y = x * 2 powi e"
  have "1 \<le> (2 :: rat) powi (int p - 1)" using assms(2) by (simp add: one_le_power_int)
  also have "(2 :: rat) powi (int p - 1) = 2 powi exponent x * 2 powi e" by (simp add: e_def flip: power_int_add)
  also have "\<dots> \<le> y" unfolding y_def by (intro mult_right_mono exponent_bounds(1) [OF x]) simp
  finally have y: "1 \<le> y" .
  have r: "round_float p x = of_int (round_even y) * 2 powi (- e)" using x by (simp add: round_float_def e_def y_def)
  have "of_int (round_even y) \<le> 2 * y" "0 \<le> round_even y" using round_even_le [of y] y by auto
  then have "of_int (round_even y) * 2 powi (- e) \<le> 2 * y * 2 powi (- e)" "0 \<le> of_int (round_even y) * (2 :: rat) powi (- e)"
    by (auto intro!: mult_right_mono)
  moreover have "2 * y * 2 powi (- e) = 2 * x" by (simp add: y_def power_int_minus)
  ultimately show ?thesis by (simp add: r)
qed

lemma quota_bounds:
  assumes "unat maxLen \<le> 1450" and "1 \<le> n" and "1 \<le> limit" and "n < 2 ^ 24"
  shows "0 \<le> maxLengthPerRound maxLen n limit \<and> maxLengthPerRound maxLen n limit < 2 ^ 31"
proof -
  define d where "d = (if n > limit then limit else n)"
  have d: "1 \<le> d" "d < 2 ^ 24" using assms by (auto simp: d_def)
  define u where "u = uint maxLen"
  have u: "u \<le> 1450" "0 \<le> u" unfolding u_def uint_nat using assms(1) by linarith+
  define q where "q = f32 (of_int u / of_int d)"
  have "(of_int u :: rat) \<le> 1450" using u(1) by (metis of_int_le_iff of_int_numeral)
  also have "(1450 :: rat) \<le> 1450 * of_int d" using d(1) by simp
  finally have "0 \<le> (of_int u / of_int d :: rat)" "(of_int u / of_int d :: rat) \<le> 1450"
    using u(2) d(1) by (simp_all add: divide_le_eq)
  then have q: "0 \<le> q" "q \<le> 2900" using round_float_le [of "of_int u / of_int d" 24] by (auto simp: q_def f32_def)
  have "f32 (of_int u) = of_int u" "f32 (of_int d) = of_int d" using u d by (auto intro!: f32_int)
  then have "maxLengthPerRound maxLen n limit = i32 (trunc q)"
    unfolding maxLengthPerRound_def float32_of_int_def u_def [symmetric] q_def by (cases "n > limit") (simp_all add: d_def)
  moreover have "0 \<le> trunc q" "trunc q \<le> 2900" using q by (auto simp: trunc_def floor_le_iff)
  ultimately show ?thesis by (simp add: i32_id)
qed

definition framer_inv :: "framerI \<Rightarrow> bool" where
  "framer_inv f \<longleftrightarrow> distinct (streamQueue f) \<and> activeStreams f = set (streamQueue f)"

lemma AddActiveStream_inv: "framer_inv f \<Longrightarrow> framer_inv (AddActiveStream f sid) \<and> sid \<in> set (streamQueue (AddActiveStream f sid))"
  by (auto simp: framer_inv_def AddActiveStream_def)

definition full_len :: "StreamFrame \<Rightarrow> nat" where
  "full_len f = frame_len f (length (sf_Data f))"

text \<open>The new frames: all have their length field, and without that of the last one they fit.\<close>

definition new_ok :: "ByteCount \<Rightarrow> StreamFrame list \<Rightarrow> nat \<Rightarrow> bool" where
  "new_ok maxLen new len \<longleftrightarrow> (\<forall>f \<in> set new. wf_StreamFrame f \<and> sf_DataLenPresent f) \<and> len = sum_list (map full_len new) \<and>
     (new \<noteq> [] \<longrightarrow> len \<le> unat maxLen + small_len (length (sf_Data (last new))))"

lemma base_len_le: "wf_StreamFrame f \<Longrightarrow> 1 \<le> base_len f \<and> base_len f \<le> 17"
proof -
  assume "wf_StreamFrame f"
  have "length (varint_bytes x) \<le> 8" for x by (auto simp: varint_bytes_def WriteVarInt_def split: sum.split)
  from this [of "uint64_of (sf_StreamID f)"] this [of "sf_Offset f"] show ?thesis by (auto simp: base_len_def)
qed

lemma new_ok_snoc:
  assumes "new_ok maxLen new len" and "128 + len \<le> unat maxLen" and f: "wf_StreamFrame f" "sf_DataLenPresent f"
    and fits: "full_len f \<le> r + v" "r \<le> unat maxLen - len" "v \<le> 2"
  shows "new_ok maxLen (new @ [f]) (len + full_len f)"
proof -
  have b: "base_len f \<le> 17" using base_len_le [OF f(1)] by simp
  have "full_len f \<le> unat maxLen - len + small_len (length (sf_Data f))"
  proof (cases "full_len f \<le> unat maxLen - len")
    case False
    then have "129 \<le> full_len f" using assms(2) by simp
    then have "small_len (length (sf_Data f)) = 2" using b f(2) by (auto simp: full_len_def frame_len_def small_len_def)
    then show ?thesis using fits by simp
  qed simp
  then show ?thesis using assms by (auto simp: new_ok_def)
qed

lemma full_len_eq: "wf_StreamFrame f \<Longrightarrow> StreamFrame_Length f = Inr (word_of_nat (full_len f)) \<and> full_len f < 2000"
proof -
  assume wf: "wf_StreamFrame f"
  then have "ids_ok f" "length (sf_Data f) < 2 ^ 14"
    by (auto simp: wf_StreamFrame_def ids_ok_def varint_ok_def maxVarInt8_def word_le_nat_alt)
  then show ?thesis using StreamFrame_Length_eq base_len_le [OF wf] wf by (auto simp: full_len_def frame_len_def small_len_def wf_StreamFrame_def)
qed

text \<open>The state after a round, with \<open>j\<close> rounds to go.\<close>

definition ap_inv :: "('w \<Rightarrow> bool) \<Rightarrow> int \<Rightarrow> Frame list \<Rightarrow> StreamID list \<Rightarrow> ByteCount \<Rightarrow> nat \<Rightarrow> 'w appending \<Rightarrow> StreamFrame list \<Rightarrow> bool" where
  "ap_inv ok limit frames q maxLen j a new \<longleftrightarrow> ok (ap_streams a) \<and> framer_inv (ap_framer a) \<and>
     int (length new) \<le> ap_multiplexed a \<and> ap_multiplexed a \<le> max 0 limit \<and> 0 \<le> ap_multiplexed a \<and> ap_multiplexed a + int j \<le> int (length q) \<and> j \<le> length q \<and>
     (\<exists>xs. streamQueue (ap_framer a) = drop (length q - j) q @ xs \<and> set xs \<subseteq> set (take (length q - j) q)) \<and>
     ap_frames a = frames @ map FStream new \<and> new_ok maxLen new (unat (ap_length a)) \<and>
     ap_last a = (if new = [] then None else Some (length frames + length new - 1))"

lemma remaining_ok:
  assumes "unat maxLen \<le> 1450" and "128 + unat len \<le> unat maxLen" and "1 \<le> n" "1 \<le> limit" "n < 2 ^ 24"
  shows "\<exists>v. VarIntLen (remainingFor limit maxLen n len) = Inr v \<and> unat v \<le> 2 \<and>
    unat (remainingFor limit maxLen n len) \<le> unat maxLen - unat len \<and>
    unat (remainingFor limit maxLen n len + v) = unat (remainingFor limit maxLen n len) + unat v"
proof -
  let ?r = "remainingFor limit maxLen n len"
  have rem: "unat (maxLen - len) = unat maxLen - unat len" using assms(2) by (intro unat_minus_le) simp
  have "i32 (uint (maxLen - len)) = int (unat maxLen - unat len)" using assms(1) rem by (simp add: i32_id uint_nat)
  moreover have "unat (word_of_int q :: u64) = nat q" if "0 \<le> q" "q < 2 ^ 31" for q
    using that unat_word_of_nat_id [of "nat q"] by (simp add: nat_less_iff)
  ultimately have r: "unat ?r \<le> unat maxLen - unat len"
    using quota_bounds [OF assms(1,3,4,5)] rem by (auto simp: remainingFor_def Let_def)
  then have "unat ?r \<le> 1450" using assms(1) by simp
  then have "VarIntLen ?r = Inr (if unat ?r \<le> 63 then 1 else 2)" by (simp add: VarIntLen_def maxVarInt1_def maxVarInt2_def word_le_nat_alt)
  then obtain v where v: "VarIntLen ?r = Inr v" "unat v \<le> 2" by (cases "unat ?r \<le> 63") auto
  then have "unat (?r + v) = unat ?r + unat v" using \<open>unat ?r \<le> 1450\<close> by (intro unat_plus_lt) simp
  then show ?thesis using r v by blast
qed

context frame_source
begin

lemma streamRound_ok:
  assumes inv: "ap_inv ok limit frames q maxLen (Suc j) a new" and m: "unat maxLen \<le> 1450" and room: "\<not> MinStreamFrameSize + ap_length a > maxLen"
    and n: "length q < 2 ^ 24" and lim: "ap_multiplexed a < limit"
  shows "\<exists>a' new'. streamRound getStream pop limit maxLen (int (length q)) a = Inr a' \<and> ap_inv ok limit frames q maxLen j a' new'"
proof -
  let ?f = "ap_framer a"
  obtain xs where xs: "streamQueue ?f = drop (length q - Suc j) q @ xs" "set xs \<subseteq> set (take (length q - Suc j) q)" and j: "Suc j \<le> length q"
    using inv by (auto simp: ap_inv_def)
  define sid where "sid = q ! (length q - Suc j)"
  define i where "i = length q - Suc j"
  have i: "i < length q" "Suc i = length q - j" using j by (auto simp: i_def)
  have dr: "drop i q = sid # drop (Suc i) q" using i(1) by (simp add: sid_def i_def Cons_nth_drop_Suc)
  define rest where "rest = drop (Suc i) q @ xs"
  have sq: "streamQueue ?f = sid # rest" using xs(1) dr by (simp add: rest_def i_def)
  have fi: "framer_inv ?f" "ok (ap_streams a)" "new_ok maxLen new (unat (ap_length a))" "ap_frames a = frames @ map FStream new"
    "0 \<le> ap_multiplexed a" "ap_multiplexed a + int (Suc j) \<le> int (length q)" using inv by (auto simp: ap_inv_def)
  have tk: "take (Suc i) q = take i q @ [sid]" using i(1) by (simp add: take_Suc_conv_app_nth sid_def i_def)
  have fi': "framer_inv (?f\<lparr>streamQueue := rest, activeStreams := activeStreams ?f - {sid}\<rparr>)"
    "framer_inv (?f\<lparr>streamQueue := rest @ [sid]\<rparr>)" using fi(1) sq by (auto simp: framer_inv_def)
  have q1: "\<exists>ys. rest = drop (length q - j) q @ ys \<and> set ys \<subseteq> set (take (length q - j) q)"
    "\<exists>ys. rest @ [sid] = drop (length q - j) q @ ys \<and> set ys \<subseteq> set (take (length q - j) q)"
    using xs(2) tk by (auto simp: rest_def i(2) [symmetric] simp flip: i_def)
  obtain found w where g: "getStream (ap_streams a) sid = (found, w)" by fastforce
  show ?thesis
  proof (cases found)
    case False
    have "ap_inv ok limit frames q maxLen j (a\<lparr>ap_framer := ?f\<lparr>streamQueue := rest, activeStreams := activeStreams ?f - {sid}\<rparr>, ap_streams := w\<rparr>) new"
      using inv get_ok [OF fi(2) g] fi' q1 by (auto simp: ap_inv_def)
    then show ?thesis using False g sq by (auto simp: streamRound_def)
  next
    case True
    have len: "unat (ap_length a) \<le> 128 + unat maxLen" using fi(3) by (cases "new = []") (auto simp: new_ok_def small_len_def split: if_splits)
    have room': "128 + unat (ap_length a) \<le> unat maxLen"
      using room len m unat_plus_lt [of MinStreamFrameSize "ap_length a"] by (simp add: MinStreamFrameSize_def word_less_nat_alt not_less)
    define r where "r = remainingFor limit maxLen (int (length q)) (ap_length a)"
    have "1 \<le> int (length q)" "1 \<le> limit" "int (length q) < 2 ^ 24" using j lim fi(5) n by simp_all
    then obtain v where v: "VarIntLen r = Inr v" "unat v \<le> 2" "unat r \<le> unat maxLen - unat (ap_length a)" "unat (r + v) = unat r + unat v"
      using remaining_ok [OF m room'] unfolding r_def by blast
    have "unat (r + v) \<le> 1452" using v m by simp
    then obtain frame more w' where p: "pop w sid (r + v) = Inr ((frame, more), w')" "ok w'"
      "\<forall>f. frame = Some f \<longrightarrow> wf_StreamFrame f \<and> sf_DataLenPresent f \<and> fits f (r + v)"
      using pop_ok [OF fi(2), of sid w "r + v"] g True by auto
    define a1 where "a1 = a\<lparr>ap_framer := (if more then ?f\<lparr>streamQueue := rest @ [sid]\<rparr> else ?f\<lparr>streamQueue := rest, activeStreams := activeStreams ?f - {sid}\<rparr>),
      ap_streams := w', ap_multiplexed := ap_multiplexed a + 1\<rparr>"
    have i64: "i64 (ap_multiplexed a + 1) = ap_multiplexed a + 1" using fi(5,6) n by (intro i64_id) auto
    have a1: "ap_inv ok limit frames q maxLen j a1 new" using inv p(2) fi' q1 lim by (auto simp: ap_inv_def a1_def)
    show ?thesis
    proof (cases frame)
      case None
      then have "streamRound getStream pop limit maxLen (int (length q)) a = Inr a1"
        using sq g True v(1) p(1) i64 by (simp add: streamRound_def Let_def r_def [symmetric] a1_def)
      then show ?thesis using a1 by blast
    next
      case (Some f)
      then have f: "wf_StreamFrame f" "sf_DataLenPresent f" "fits f (r + v)" using p(3) by blast+
      note fl = full_len_eq [OF f(1)]
      have le: "full_len f \<le> unat r + unat v" using f(3) fl v(4) by (auto simp: fits_def word_le_nat_alt unat_word_of_nat_id)
      have sum: "unat (ap_length a + word_of_nat (full_len f)) = unat (ap_length a) + full_len f"
        using fl room' m by (simp add: unat_plus_lt unat_word_of_nat_id)
      define a2 where "a2 = a1\<lparr>ap_frames := ap_frames a1 @ [FStream f], ap_length := ap_length a + word_of_nat (full_len f), ap_last := Some (length (ap_frames a1))\<rparr>"
      have "new_ok maxLen (new @ [f]) (unat (ap_length a2))" using new_ok_snoc [OF fi(3) room' f(1,2) le v(3,2)] sum by (simp add: a2_def)
      then have "ap_inv ok limit frames q maxLen j a2 (new @ [f])" using a1 fi(4) inv by (auto simp: ap_inv_def a2_def) (auto simp: a1_def)
      moreover have "streamRound getStream pop limit maxLen (int (length q)) a = Inr a2"
        using sq g True v(1) p(1) i64 Some fl by (simp add: streamRound_def Let_def r_def [symmetric] a1_def a2_def)
      ultimately show ?thesis by blast
    qed
  qed
qed

lemma streamRounds_ok:
  assumes "ap_inv ok limit frames q maxLen j a new" and "unat maxLen \<le> 1450" and "length q < 2 ^ 24"
  shows "\<exists>k a' new'. streamRounds getStream pop limit maxLen (int (length q)) j a = Inr a' \<and> ap_inv ok limit frames q maxLen k a' new'"
  using assms
proof (induction j arbitrary: a new)
  case (Suc j)
  show ?case
  proof (cases "ap_multiplexed a < limit \<and> \<not> MinStreamFrameSize + ap_length a > maxLen")
    case True
    then obtain a' new' where "streamRound getStream pop limit maxLen (int (length q)) a = Inr a'" "ap_inv ok limit frames q maxLen j a' new'"
      using streamRound_ok [OF Suc.prems(1,2)] Suc.prems(3) by blast
    then show ?thesis using Suc.IH [of a' new'] Suc.prems(2,3) True by auto
  next
    case False
    then have "streamRounds getStream pop limit maxLen (int (length q)) (Suc j) a = Inr a" by auto
    then show ?thesis using Suc.prems(1) by blast
  qed
qed auto

end

text \<open>Taking the length field out of the last frame.\<close>

lemma dropDataLen_ok:
  assumes "ap_frames a = frames @ map FStream new" and new: "new_ok maxLen new (unat (ap_length a))" and m: "unat maxLen \<le> 1450"
    and "ap_last a = (if new = [] then None else Some (length frames + length new - 1))"
  shows "\<exists>new' len. dropDataLen a = Inr (frames @ map FStream new', len) \<and> unat len = sum_list (map full_len new') \<and> unat len \<le> unat maxLen \<and>
    (\<forall>f \<in> set new'. wf_StreamFrame f) \<and> length new' = length new \<and> map sf_Data new' = map sf_Data new"
proof (cases new rule: rev_cases)
  case Nil
  then show ?thesis using assms by (intro exI [of _ "[]"]) (simp add: dropDataLen_def new_ok_def)
next
  case (snoc init f)
  let ?g = "f\<lparr>sf_DataLenPresent := False\<rparr>"
  have f: "wf_StreamFrame f" "sf_DataLenPresent f" "wf_StreamFrame ?g" using new snoc by (auto simp: new_ok_def wf_StreamFrame_def)
  note fl = full_len_eq [OF f(1)] full_len_eq [OF f(3)]
  have small: "full_len f = full_len ?g + small_len (length (sf_Data f))" using f(2) by (simp add: full_len_def frame_len_def base_len_def)
  have len: "unat (ap_length a) = sum_list (map full_len init) + full_len f" "unat (ap_length a) \<le> unat maxLen + small_len (length (sf_Data f))"
    using new snoc by (simp_all add: new_ok_def)
  define l :: ByteCount where "l = ap_length a + (word_of_nat (full_len ?g) - word_of_nat (full_len f))"
  have l: "unat l = sum_list (map full_len init) + full_len ?g"
  proof -
    have "l = ap_length a - word_of_nat (small_len (length (sf_Data f)))" using small by (simp add: l_def)
    moreover have "unat (word_of_nat (small_len (length (sf_Data f))) :: u64) = small_len (length (sf_Data f))"
      by (rule unat_word_of_nat_id) (simp add: small_len_def)
    ultimately have "unat l = unat (ap_length a) - small_len (length (sf_Data f))" using len(1) small by (simp add: unat_minus_le)
    then show ?thesis using len(1) small by simp
  qed
  have "dropDataLen a = Inr (frames @ map FStream (init @ [?g]), l)"
    using assms(1,4) snoc fl by (simp add: dropDataLen_def nth_append list_update_append l_def Let_def)
  then show ?thesis using l len small f new snoc by (intro exI [of _ "init @ [?g]"] exI [of _ l]) (auto simp: new_ok_def)
qed

lemma frames_length_FStream: "\<forall>f \<in> set new. wf_StreamFrame f \<Longrightarrow> frames_length (map FStream new) = sum_list (map full_len new)"
  by (induction new) (auto simp: frames_length_def full_len_eq unat_word_of_nat_id dest: full_len_eq)

context frame_source
begin

lemma AppendStreamFrames_fits:
  assumes "ok w" and f: "framer_inv f" and m: "unat maxLen \<le> 1450" and n: "length (streamQueue f) < 2 ^ 24"
  shows "\<exists>new len f' w' k xs. AppendStreamFrames getStream pop limit f w frames maxLen = Inr ((frames @ map FStream new, len), f', w') \<and>
    unat len = frames_length (map FStream new) \<and> unat len \<le> unat maxLen \<and> ok w' \<and> framer_inv f' \<and>
    streamQueue f' = drop k (streamQueue f) @ xs \<and> set xs \<subseteq> set (take k (streamQueue f)) \<and> int (length new) \<le> max 0 limit"
proof -
  let ?q = "streamQueue f"
  define a where "a = \<lparr>ap_framer = f, ap_streams = w, ap_frames = frames, ap_length = 0, ap_last = None, ap_multiplexed = 0\<rparr>"
  have "ap_inv ok limit frames ?q maxLen (length ?q) a []" using assms by (simp add: ap_inv_def a_def new_ok_def)
  then obtain k a' new where r: "streamRounds getStream pop limit maxLen (int (length ?q)) (length ?q) a = Inr a'" "ap_inv ok limit frames ?q maxLen k a' new"
    using streamRounds_ok [OF _ m n] by blast
  have r': "ok (ap_streams a')" "framer_inv (ap_framer a')" "ap_frames a' = frames @ map FStream new" "new_ok maxLen new (unat (ap_length a'))"
    "ap_last a' = (if new = [] then None else Some (length frames + length new - 1))" using r(2) by (simp_all add: ap_inv_def)
  obtain xs where xs: "streamQueue (ap_framer a') = drop (length ?q - k) ?q @ xs" "set xs \<subseteq> set (take (length ?q - k) ?q)"
    using r(2) by (auto simp: ap_inv_def)
  obtain new' len where d: "dropDataLen a' = Inr (frames @ map FStream new', len)" "unat len = sum_list (map full_len new')" "unat len \<le> unat maxLen"
    "\<forall>f \<in> set new'. wf_StreamFrame f" "length new' = length new" using dropDataLen_ok [OF r'(3,4) m r'(5)] by blast
  have "AppendStreamFrames getStream pop limit f w frames maxLen = Inr ((frames @ map FStream new', len), ap_framer a', ap_streams a')"
    using r(1) d(1) by (simp add: AppendStreamFrames_def Let_def a_def)
  moreover have "int (length new') \<le> max 0 limit" using r(2) d(5) by (simp add: ap_inv_def)
  ultimately show ?thesis using d(2,3) r'(1,2) xs frames_length_FStream [OF d(4)] by (metis (no_types))
qed

end

section \<open>Streams behind the framer\<close>

text \<open>The sending halves of the streams of a connection, with their flow controllers.\<close>

record send_streams =
  sw_streams :: "StreamID \<Rightarrow> (sendStream \<times> streamFlowController) option"
  sw_conn :: connectionFlowController
  sw_events :: "stream_event list"

definition sw_get :: "send_streams \<Rightarrow> StreamID \<Rightarrow> bool \<times> send_streams" where
  "sw_get w sid = (sw_streams w sid \<noteq> None, w)"

definition sw_pop :: "send_streams \<Rightarrow> StreamID \<Rightarrow> ByteCount \<Rightarrow> go_error + (StreamFrame option \<times> bool) \<times> send_streams" where
  "sw_pop w sid maxBytes =
    (case sw_streams w sid of
       None \<Rightarrow> Inl (Panic (''invalid memory address or nil pointer dereference'', []))
     | Some (s, c) \<Rightarrow>
         tryE (popStreamFrame s c (sw_conn w) maxBytes) (\<lambda>(res, s, c, conn, es).
         Inr (res, w\<lparr>sw_streams := (sw_streams w)(sid \<mapsto> (s, c)), sw_conn := conn, sw_events := sw_events w @ es\<rparr>)))"

definition sw_ok :: "send_streams \<Rightarrow> bool" where
  "sw_ok w \<longleftrightarrow> (\<forall>sid s c. sw_streams w sid = Some (s, c) \<longrightarrow> stream_ok s)"

lemma pops_ok:
  assumes ok: "stream_ok s" and p: "pops s m f s'"
  shows "stream_ok s' \<and> (\<forall>g. f = Some g \<longrightarrow> wf_StreamFrame g \<and> sf_DataLenPresent g \<and> fits g m)"
  using p
proof cases
  case (new n chan)
  have "queued_ok (ss_streamID s) (new_frame s n)" "stream_ok (taken s n chan)" using new_frame_ok [OF ok new(3,4,6)] by blast+
  then show ?thesis using new by (simp add: queued_ok_def) (simp add: new_frame_def)
next
  case (part f rest g f')
  then show ?thesis using ok by (simp add: stream_ok_def queued_ok_def)
qed (use ok in \<open>auto simp: stream_ok_def queued_ok_def\<close>)

interpretation streams: frame_source sw_get sw_pop sw_ok
proof unfold_locales
  fix w sid w' and m :: ByteCount
  assume ok: "sw_ok w" and get: "sw_get w sid = (True, w')" and m: "unat m \<le> 1452"
  have w': "w' = w" "sw_streams w sid \<noteq> None" using get unfolding sw_get_def by blast+
  then obtain s c where s: "sw_streams w sid = Some (s, c)" by auto
  then have sok: "stream_ok s" using ok unfolding sw_ok_def by blast
  obtain f more s' c' conn' es where p: "popStreamFrame s c (sw_conn w) m = Inr ((f, more), s', c', conn', es)" "pops s m f s'"
    using popStreamFrame_pops [OF sok m] by blast
  define w2 where "w2 = w\<lparr>sw_streams := (sw_streams w)(sid \<mapsto> (s', c')), sw_conn := conn', sw_events := sw_events w @ es\<rparr>"
  have "sw_pop w' sid m = Inr ((f, more), w2)" using s w'(1) p(1) by (simp add: sw_pop_def w2_def)
  moreover have "sw_ok w2" using ok pops_ok [OF sok p(2)] unfolding sw_ok_def w2_def by auto
  ultimately show "\<exists>frame more w''. sw_pop w' sid m = Inr ((frame, more), w'') \<and> sw_ok w'' \<and>
      (\<forall>f. frame = Some f \<longrightarrow> wf_StreamFrame f \<and> sf_DataLenPresent f \<and> fits f m)"
    using pops_ok [OF sok p(2)] by blast
next
  fix w sid found w'
  assume "sw_ok w" "sw_get w sid = (found, w')"
  then show "sw_ok w'" unfolding sw_get_def by blast
qed


definition framer_demo_streams :: send_streams where
  "framer_demo_streams =
    (let s = \<lambda>i d. (fst (snd (Write (newSendStream i) d 0 0)), NewStreamFlowController i 0 0 1000)
     in \<lparr>sw_streams = [4 \<mapsto> s 4 (replicate 100 1), 8 \<mapsto> s 8 (replicate 200 2), 12 \<mapsto> s 12 [3]],
         sw_conn = UpdateSendWindow (NewConnectionFlowController 0 0) 1000, sw_events = []\<rparr>)"

definition framer_demo :: framerI where
  "framer_demo = foldl AddActiveStream newFramer [4, 8, 12, 4]"


end
