(* ===== verification/SendQueues.thy ===== *)
theory SendQueues
  imports FrameParser FlowControl "HOL-Library.Multiset"
begin

text \<open>
  Two queues between the session and the packer: the frames that were lost and are to be sent again,
  \<open>retransmission_queue.go\<close>, and the window updates that are due, \<open>window_update_queue.go\<close>. The lemmas show that the retransmission
  queue refines a bag of frames for each encryption level, and what becomes of the streams whose update was queued.
\<close>

section \<open>Retransmissions\<close>

record retransmissionQueue =
  rq_initial :: "Frame list"
  initialCryptoData :: "CryptoFrame list"
  rq_handshake :: "Frame list"
  handshakeCryptoData :: "CryptoFrame list"
  rq_appData :: "Frame list"

definition newRetransmissionQueue :: retransmissionQueue where
  "newRetransmissionQueue = \<lparr>rq_initial = [], initialCryptoData = [], rq_handshake = [], handshakeCryptoData = [], rq_appData = []\<rparr>"

definition AddInitial :: "retransmissionQueue \<Rightarrow> Frame \<Rightarrow> retransmissionQueue" where
  "AddInitial q f =
    (case f of FCrypto cf \<Rightarrow> q\<lparr>initialCryptoData := initialCryptoData q @ [cf]\<rparr> | _ \<Rightarrow> q\<lparr>rq_initial := rq_initial q @ [f]\<rparr>)"

definition AddHandshake :: "retransmissionQueue \<Rightarrow> Frame \<Rightarrow> retransmissionQueue" where
  "AddHandshake q f =
    (case f of FCrypto cf \<Rightarrow> q\<lparr>handshakeCryptoData := handshakeCryptoData q @ [cf]\<rparr> | _ \<Rightarrow> q\<lparr>rq_handshake := rq_handshake q @ [f]\<rparr>)"

definition HasInitialData :: "retransmissionQueue \<Rightarrow> bool" where
  "HasInitialData q \<longleftrightarrow> length (initialCryptoData q) > 0 \<or> length (rq_initial q) > 0"

definition HasHandshakeData :: "retransmissionQueue \<Rightarrow> bool" where
  "HasHandshakeData q \<longleftrightarrow> length (handshakeCryptoData q) > 0 \<or> length (rq_handshake q) > 0"

definition AddAppData :: "retransmissionQueue \<Rightarrow> Frame \<Rightarrow> go_error + retransmissionQueue" where
  "AddAppData q f =
    (case f of
       FStream _ \<Rightarrow> Inl (Panic (''STREAM frames are handled with their respective streams.'', []))
     | _ \<Rightarrow> Inr (q\<lparr>rq_appData := rq_appData q @ [f]\<rparr>))"

text \<open>The first of a list of frames, if it fits.\<close>

definition popFitting :: "Frame list \<Rightarrow> ByteCount \<Rightarrow> go_error + Frame option \<times> Frame list" where
  "popFitting fs maxLen =
    (case fs of
       [] \<Rightarrow> Inr (None, fs)
     | f # rest \<Rightarrow> tryE (Frame_Length f) (\<lambda>n. if n > maxLen then Inr (None, fs) else Inr (Some f, rest)))"

text \<open>The first CRYPTO frame, if there is one and it fits.\<close>

definition popCrypto :: "CryptoFrame list \<Rightarrow> ByteCount \<Rightarrow> go_error + CryptoFrame option \<times> CryptoFrame list" where
  "popCrypto cs maxLen =
    (case cs of
       [] \<Rightarrow> Inr (None, cs)
     | c # rest \<Rightarrow> tryE (CryptoFrame_Length c) (\<lambda>n. if n \<le> maxLen then Inr (Some c, rest) else Inr (None, cs)))"

definition GetInitialFrame :: "retransmissionQueue \<Rightarrow> ByteCount \<Rightarrow> go_error + Frame option \<times> retransmissionQueue" where
  "GetInitialFrame q maxLen =
    tryE (popCrypto (initialCryptoData q) maxLen) (\<lambda>(c, cs).
    case c of
      Some cf \<Rightarrow> Inr (Some (FCrypto cf), q\<lparr>initialCryptoData := cs\<rparr>)
    | None \<Rightarrow> tryE (popFitting (rq_initial q) maxLen) (\<lambda>(f, fs). Inr (f, q\<lparr>rq_initial := fs\<rparr>)))"

definition GetHandshakeFrame :: "retransmissionQueue \<Rightarrow> ByteCount \<Rightarrow> go_error + Frame option \<times> retransmissionQueue" where
  "GetHandshakeFrame q maxLen =
    tryE (popCrypto (handshakeCryptoData q) maxLen) (\<lambda>(c, cs).
    case c of
      Some cf \<Rightarrow> Inr (Some (FCrypto cf), q\<lparr>handshakeCryptoData := cs\<rparr>)
    | None \<Rightarrow> tryE (popFitting (rq_handshake q) maxLen) (\<lambda>(f, fs). Inr (f, q\<lparr>rq_handshake := fs\<rparr>)))"

definition GetAppDataFrame :: "retransmissionQueue \<Rightarrow> ByteCount \<Rightarrow> go_error + Frame option \<times> retransmissionQueue" where
  "GetAppDataFrame q maxLen = tryE (popFitting (rq_appData q) maxLen) (\<lambda>(f, fs). Inr (f, q\<lparr>rq_appData := fs\<rparr>))"

definition rq_DropPackets :: "retransmissionQueue \<Rightarrow> EncryptionLevel \<Rightarrow> go_error + retransmissionQueue" where
  "rq_DropPackets q encLevel =
    (case encLevel of
       EncryptionInitial \<Rightarrow> Inr (q\<lparr>rq_initial := [], initialCryptoData := []\<rparr>)
     | EncryptionHandshake \<Rightarrow> Inr (q\<lparr>rq_handshake := [], handshakeCryptoData := []\<rparr>)
     | _ \<Rightarrow> Inl (Panic (''unexpected encryption level: %s'', [])))"

section \<open>A bag of frames\<close>

datatype rq_op = RqAdd EncryptionLevel Frame | RqGet EncryptionLevel ByteCount | RqDrop EncryptionLevel

fun rq_step :: "retransmissionQueue \<Rightarrow> rq_op \<Rightarrow> go_error + Frame option \<times> retransmissionQueue" where
  "rq_step q (RqAdd EncryptionInitial f) = Inr (None, AddInitial q f)"
| "rq_step q (RqAdd EncryptionHandshake f) = Inr (None, AddHandshake q f)"
| "rq_step q (RqAdd _ f) = tryE (AddAppData q f) (\<lambda>q. Inr (None, q))"
| "rq_step q (RqGet EncryptionInitial n) = GetInitialFrame q n"
| "rq_step q (RqGet EncryptionHandshake n) = GetHandshakeFrame q n"
| "rq_step q (RqGet _ n) = GetAppDataFrame q n"
| "rq_step q (RqDrop l) = tryE (rq_DropPackets q l) (\<lambda>q. Inr (None, q))"

text \<open>The frames that wait, for each level.\<close>

fun waiting :: "retransmissionQueue \<Rightarrow> EncryptionLevel \<Rightarrow> Frame multiset" where
  "waiting q EncryptionInitial = mset (map FCrypto (initialCryptoData q) @ rq_initial q)"
| "waiting q EncryptionHandshake = mset (map FCrypto (handshakeCryptoData q) @ rq_handshake q)"
| "waiting q Encryption1RTT = mset (rq_appData q)"
| "waiting q EncryptionUnspecified = {#}"

text \<open>The specification: a bag of frames for each level, from which any frame that fits may be taken.\<close>

inductive bag_step :: "(EncryptionLevel \<Rightarrow> Frame multiset) \<Rightarrow> rq_op \<Rightarrow> Frame option \<Rightarrow> (EncryptionLevel \<Rightarrow> Frame multiset) \<Rightarrow> bool" where
  bag_add: "bag_step B (RqAdd l f) None (B(l := add_mset f (B l)))"
| bag_get: "f \<in># B l \<Longrightarrow> Frame_Length f = Inr n \<Longrightarrow> n \<le> maxLen \<Longrightarrow> bag_step B (RqGet l maxLen) (Some f) (B(l := B l - {#f#}))"
| bag_none: "(B l = {#} \<or> (\<exists>f n. f \<in># B l \<and> Frame_Length f = Inr n \<and> n > maxLen)) \<Longrightarrow> bag_step B (RqGet l maxLen) None B"
| bag_drop: "bag_step B (RqDrop l) None (B(l := {#}))"

definition levels :: "EncryptionLevel set" where
  "levels = {EncryptionInitial, EncryptionHandshake, Encryption1RTT}"

fun rq_op_ok :: "rq_op \<Rightarrow> bool" where
  "rq_op_ok (RqAdd l f) \<longleftrightarrow> l \<in> levels \<and> (l = Encryption1RTT \<longrightarrow> (\<forall>sf. f \<noteq> FStream sf)) \<and> (\<exists>n. Frame_Length f = Inr n)"
| "rq_op_ok (RqGet l n) \<longleftrightarrow> l \<in> levels"
| "rq_op_ok (RqDrop l) \<longleftrightarrow> l \<in> {EncryptionInitial, EncryptionHandshake}"

definition rq_ok :: "retransmissionQueue \<Rightarrow> bool" where
  "rq_ok q \<longleftrightarrow> (\<forall>l. \<forall>f \<in># waiting q l. \<exists>n. Frame_Length f = Inr n)"

lemma popFitting_cases:
  assumes "\<forall>f \<in> set fs. \<exists>n. Frame_Length f = Inr n"
  shows "(\<exists>f rest n. popFitting fs maxLen = Inr (Some f, rest) \<and> fs = f # rest \<and> Frame_Length f = Inr n \<and> n \<le> maxLen) \<or>
    popFitting fs maxLen = Inr (None, fs) \<and> (fs = [] \<or> (\<exists>f n. f \<in> set fs \<and> Frame_Length f = Inr n \<and> n > maxLen))"
proof (cases fs)
  case (Cons f rest)
  then obtain n where "Frame_Length f = Inr n" using assms by auto
  then show ?thesis using Cons by (cases "n > maxLen") (auto simp: popFitting_def)
qed (simp add: popFitting_def)

lemma popFitting_refines:
  assumes "\<forall>f \<in> set fs. \<exists>n. Frame_Length f = Inr n"
  shows "\<exists>r fs'. popFitting fs maxLen = Inr (r, fs') \<and>
    (case r of Some f \<Rightarrow> mset fs = add_mset f (mset fs') \<and> (\<exists>n. Frame_Length f = Inr n \<and> n \<le> maxLen)
     | None \<Rightarrow> mset fs = mset fs' \<and> (mset fs = {#} \<or> (\<exists>f n. f \<in># mset fs \<and> Frame_Length f = Inr n \<and> n > maxLen)))"
  using popFitting_cases [OF assms, of maxLen] by (elim disjE exE conjE) auto

lemma popCrypto_cases:
  assumes "\<forall>c \<in> set cs. \<exists>n. CryptoFrame_Length c = Inr n"
  shows "(\<exists>c rest n. popCrypto cs maxLen = Inr (Some c, rest) \<and> cs = c # rest \<and> CryptoFrame_Length c = Inr n \<and> n \<le> maxLen) \<or>
    popCrypto cs maxLen = Inr (None, cs) \<and> (cs = [] \<or> (\<exists>c n. c \<in> set cs \<and> CryptoFrame_Length c = Inr n \<and> n > maxLen))"
proof (cases cs)
  case (Cons c rest)
  then obtain n where "CryptoFrame_Length c = Inr n" using assms by auto
  then show ?thesis using Cons by (cases "n \<le> maxLen") (auto simp: popCrypto_def not_le)
qed (simp add: popCrypto_def)

lemma Get_refines:
  assumes ok: "\<forall>f \<in> set (map FCrypto cs @ fs). \<exists>n. Frame_Length f = Inr n"
  shows "\<exists>r cs' fs'. tryE (popCrypto cs maxLen) (\<lambda>(c, cs'). case c of Some cf \<Rightarrow> Inr (Some (FCrypto cf), cs', fs)
      | None \<Rightarrow> tryE (popFitting fs maxLen) (\<lambda>(f, fs'). Inr (f, cs, fs'))) = Inr (r, cs', fs') \<and>
    (case r of Some f \<Rightarrow> mset (map FCrypto cs @ fs) = add_mset f (mset (map FCrypto cs' @ fs')) \<and> (\<exists>n. Frame_Length f = Inr n \<and> n \<le> maxLen)
     | None \<Rightarrow> mset (map FCrypto cs @ fs) = mset (map FCrypto cs' @ fs') \<and>
         (mset (map FCrypto cs @ fs) = {#} \<or> (\<exists>f n. f \<in># mset (map FCrypto cs @ fs) \<and> Frame_Length f = Inr n \<and> n > maxLen)))"
proof -
  have c: "\<forall>c \<in> set cs. \<exists>n. CryptoFrame_Length c = Inr n" and f: "\<forall>f \<in> set fs. \<exists>n. Frame_Length f = Inr n"
    using ok by (auto simp: image_Un ball_Un)
  from popCrypto_cases [OF c, of maxLen] show ?thesis
  proof (elim disjE exE conjE)
    fix d rest n assume "popCrypto cs maxLen = Inr (Some d, rest)" "cs = d # rest" "CryptoFrame_Length d = Inr n" "n \<le> maxLen"
    then show ?thesis by auto
  next
    assume none: "popCrypto cs maxLen = Inr (None, cs)" and "cs = []"
    then show ?thesis using popFitting_cases [OF f, of maxLen] by (elim disjE exE conjE) auto
  next
    fix d n assume none: "popCrypto cs maxLen = Inr (None, cs)" and d: "d \<in> set cs" "CryptoFrame_Length d = Inr n" "n > maxLen"
    then have "\<exists>f n. f \<in> set (map FCrypto cs @ fs) \<and> Frame_Length f = Inr n \<and> n > maxLen" by (intro exI [of _ "FCrypto d"]) auto
    then show ?thesis using none popFitting_cases [OF f, of maxLen] by (elim disjE exE conjE) auto
  qed
qed

lemma GetInitialFrame_alt: "GetInitialFrame q n =
    tryE (tryE (popCrypto (initialCryptoData q) n) (\<lambda>(c, cs'). case c of Some cf \<Rightarrow> Inr (Some (FCrypto cf), cs', rq_initial q)
      | None \<Rightarrow> tryE (popFitting (rq_initial q) n) (\<lambda>(f, fs'). Inr (f, initialCryptoData q, fs'))))
      (\<lambda>(r, cs, fs). Inr (r, q\<lparr>initialCryptoData := cs, rq_initial := fs\<rparr>))"
  by (auto simp: GetInitialFrame_def tryE_def split: sum.split option.split)

lemma GetHandshakeFrame_alt: "GetHandshakeFrame q n =
    tryE (tryE (popCrypto (handshakeCryptoData q) n) (\<lambda>(c, cs'). case c of Some cf \<Rightarrow> Inr (Some (FCrypto cf), cs', rq_handshake q)
      | None \<Rightarrow> tryE (popFitting (rq_handshake q) n) (\<lambda>(f, fs'). Inr (f, handshakeCryptoData q, fs'))))
      (\<lambda>(r, cs, fs). Inr (r, q\<lparr>handshakeCryptoData := cs, rq_handshake := fs\<rparr>))"
  by (auto simp: GetHandshakeFrame_def tryE_def split: sum.split option.split)

lemma bag_getI:
  assumes "case r of Some f \<Rightarrow> B l = add_mset f M \<and> (\<exists>n. Frame_Length f = Inr n \<and> n \<le> maxLen)
     | None \<Rightarrow> B l = M \<and> (B l = {#} \<or> (\<exists>f n. f \<in># B l \<and> Frame_Length f = Inr n \<and> n > maxLen))"
  shows "bag_step B (RqGet l maxLen) r (B(l := M))"
proof (cases r)
  case None
  then have "B(l := M) = B" using assms by auto
  moreover have "bag_step B (RqGet l maxLen) None B" using None assms by (intro bag_none) auto
  ultimately show ?thesis using None by simp
next
  case (Some f)
  then obtain n where n: "B l = add_mset f M" "Frame_Length f = Inr n" "n \<le> maxLen" using assms by auto
  then show ?thesis using Some bag_get [of f B l n maxLen] by simp
qed

lemma rq_step_refines:
  assumes ok: "rq_ok q" and op: "rq_op_ok op"
  shows "\<exists>r q'. rq_step q op = Inr (r, q') \<and> bag_step (waiting q) op r (waiting q') \<and> rq_ok q'"
proof -
  have step: "\<exists>r q'. rq_step q op = Inr (r, q') \<and> bag_step (waiting q) op r (waiting q')"
  proof (cases op)
    case (RqAdd l f)
    let ?W = "(waiting q)(l := add_mset f (waiting q l))"
    have add: "bag_step (waiting q) op None ?W" unfolding RqAdd by (rule bag_add)
    consider "l = EncryptionInitial" | "l = EncryptionHandshake" | "l = Encryption1RTT" using op RqAdd by (auto simp: levels_def)
    then obtain q' where "rq_step q op = Inr (None, q')" "waiting q' = ?W"
    proof cases
      case 1
      have "waiting (AddInitial q f) = ?W" unfolding 1 by (rule ext, case_tac x; cases f) (auto simp: AddInitial_def)
      then show ?thesis using that [of "AddInitial q f"] RqAdd 1 by simp
    next
      case 2
      have "waiting (AddHandshake q f) = ?W" unfolding 2 by (rule ext, case_tac x; cases f) (auto simp: AddHandshake_def)
      then show ?thesis using that [of "AddHandshake q f"] RqAdd 2 by simp
    next
      case 3
      let ?q = "q\<lparr>rq_appData := rq_appData q @ [f]\<rparr>"
      have "waiting ?q = ?W" unfolding 3 by (rule ext, case_tac x) auto
      moreover have "AddAppData q f = Inr ?q" using op RqAdd 3 by (cases f) (auto simp: AddAppData_def)
      ultimately show ?thesis using that [of ?q] RqAdd 3 by simp
    qed
    then show ?thesis using add by metis
  next
    case (RqGet l n)
    consider "l = EncryptionInitial" | "l = EncryptionHandshake" | "l = Encryption1RTT" using op RqGet by (auto simp: levels_def)
    then show ?thesis
    proof cases
      case 1
      have "\<forall>f \<in> set (map FCrypto (initialCryptoData q) @ rq_initial q). \<exists>n. Frame_Length f = Inr n"
        using ok unfolding rq_ok_def by (metis set_mset_mset waiting.simps(1))
      from Get_refines [OF this, of n] obtain r cs fs where run: "tryE (popCrypto (initialCryptoData q) n) (\<lambda>(c, cs'). case c of Some cf \<Rightarrow> Inr (Some (FCrypto cf), cs', rq_initial q)
          | None \<Rightarrow> tryE (popFitting (rq_initial q) n) (\<lambda>(f, fs'). Inr (f, initialCryptoData q, fs'))) = Inr (r, cs, fs)"
        and g2: "case r of Some f \<Rightarrow> waiting q l = add_mset f (mset (map FCrypto cs @ fs)) \<and> (\<exists>m. Frame_Length f = Inr m \<and> m \<le> n)
         | None \<Rightarrow> waiting q l = mset (map FCrypto cs @ fs) \<and> (waiting q l = {#} \<or> (\<exists>f m. f \<in># waiting q l \<and> Frame_Length f = Inr m \<and> m > n))"
        unfolding 1 waiting.simps by blast
      have g1: "rq_step q op = Inr (r, q\<lparr>initialCryptoData := cs, rq_initial := fs\<rparr>)" unfolding RqGet 1 rq_step.simps GetInitialFrame_alt run by simp
      have "waiting (q\<lparr>initialCryptoData := cs, rq_initial := fs\<rparr>) = (waiting q)(l := mset (map FCrypto cs @ fs))"
        by (rule ext, case_tac x) (auto simp: 1)
      then show ?thesis using g1 bag_getI [where B = "waiting q", OF g2] RqGet by metis
    next
      case 2
      have "\<forall>f \<in> set (map FCrypto (handshakeCryptoData q) @ rq_handshake q). \<exists>n. Frame_Length f = Inr n"
        using ok unfolding rq_ok_def by (metis set_mset_mset waiting.simps(2))
      from Get_refines [OF this, of n] obtain r cs fs where run: "tryE (popCrypto (handshakeCryptoData q) n) (\<lambda>(c, cs'). case c of Some cf \<Rightarrow> Inr (Some (FCrypto cf), cs', rq_handshake q)
          | None \<Rightarrow> tryE (popFitting (rq_handshake q) n) (\<lambda>(f, fs'). Inr (f, handshakeCryptoData q, fs'))) = Inr (r, cs, fs)"
        and g2: "case r of Some f \<Rightarrow> waiting q l = add_mset f (mset (map FCrypto cs @ fs)) \<and> (\<exists>m. Frame_Length f = Inr m \<and> m \<le> n)
         | None \<Rightarrow> waiting q l = mset (map FCrypto cs @ fs) \<and> (waiting q l = {#} \<or> (\<exists>f m. f \<in># waiting q l \<and> Frame_Length f = Inr m \<and> m > n))"
        unfolding 2 waiting.simps by blast
      have g1: "rq_step q op = Inr (r, q\<lparr>handshakeCryptoData := cs, rq_handshake := fs\<rparr>)" unfolding RqGet 2 rq_step.simps GetHandshakeFrame_alt run by simp
      have "waiting (q\<lparr>handshakeCryptoData := cs, rq_handshake := fs\<rparr>) = (waiting q)(l := mset (map FCrypto cs @ fs))"
        by (rule ext, case_tac x) (auto simp: 2)
      then show ?thesis using g1 bag_getI [where B = "waiting q", OF g2] RqGet by metis
    next
      case 3
      have "\<forall>f \<in> set (rq_appData q). \<exists>n. Frame_Length f = Inr n" using ok unfolding rq_ok_def by (metis set_mset_mset waiting.simps(3))
      then obtain r fs where run: "popFitting (rq_appData q) n = Inr (r, fs)"
        and g2: "case r of Some f \<Rightarrow> waiting q l = add_mset f (mset fs) \<and> (\<exists>m. Frame_Length f = Inr m \<and> m \<le> n)
         | None \<Rightarrow> waiting q l = mset fs \<and> (waiting q l = {#} \<or> (\<exists>f m. f \<in># waiting q l \<and> Frame_Length f = Inr m \<and> m > n))"
        unfolding 3 waiting.simps using popFitting_refines [of "rq_appData q" n] by blast
      have g1: "rq_step q op = Inr (r, q\<lparr>rq_appData := fs\<rparr>)" using run by (simp add: RqGet 3 GetAppDataFrame_def)
      have "waiting (q\<lparr>rq_appData := fs\<rparr>) = (waiting q)(l := mset fs)" by (rule ext, case_tac x) (auto simp: 3)
      then show ?thesis using g1 bag_getI [where B = "waiting q", OF g2] RqGet by metis
    qed
  next
    case (RqDrop l)
    have drop: "bag_step (waiting q) op None ((waiting q)(l := {#}))" unfolding RqDrop by (rule bag_drop)
    consider "l = EncryptionInitial" | "l = EncryptionHandshake" using op RqDrop by auto
    then show ?thesis
    proof cases
      case 1
      have "waiting (q\<lparr>rq_initial := [], initialCryptoData := []\<rparr>) = (waiting q)(l := {#})" by (rule ext, case_tac x) (auto simp: 1)
      then show ?thesis using drop RqDrop 1 by (simp add: rq_DropPackets_def)
    next
      case 2
      have "waiting (q\<lparr>rq_handshake := [], handshakeCryptoData := []\<rparr>) = (waiting q)(l := {#})" by (rule ext, case_tac x) (auto simp: 2)
      then show ?thesis using drop RqDrop 2 by (simp add: rq_DropPackets_def)
    qed
  qed
  then obtain r q' where r: "rq_step q op = Inr (r, q')" "bag_step (waiting q) op r (waiting q')" by blast
  have "rq_ok q'" using r(2) ok op unfolding rq_ok_def
    by (cases rule: bag_step.cases) (auto dest: in_diffD split: if_splits)
  then show ?thesis using r by blast
qed

text \<open>Runs of the queue and of the bag. The frames that were taken are the result.\<close>

fun rq_run :: "retransmissionQueue \<Rightarrow> rq_op list \<Rightarrow> go_error + Frame option list \<times> retransmissionQueue" where
  "rq_run q [] = Inr ([], q)"
| "rq_run q (op # ops) = tryE (rq_step q op) (\<lambda>(r, q). tryE (rq_run q ops) (\<lambda>(rs, q). Inr (r # rs, q)))"

inductive bag_run :: "(EncryptionLevel \<Rightarrow> Frame multiset) \<Rightarrow> rq_op list \<Rightarrow> Frame option list \<Rightarrow> (EncryptionLevel \<Rightarrow> Frame multiset) \<Rightarrow> bool" where
  "bag_run B [] [] B"
| "bag_step B op r B' \<Longrightarrow> bag_run B' ops rs B'' \<Longrightarrow> bag_run B (op # ops) (r # rs) B''"

lemma rq_run_refines:
  "rq_ok q \<Longrightarrow> \<forall>op \<in> set ops. rq_op_ok op \<Longrightarrow> \<exists>rs q'. rq_run q ops = Inr (rs, q') \<and> bag_run (waiting q) ops rs (waiting q')"
proof (induction ops arbitrary: q)
  case Nil
  then show ?case by (simp add: bag_run.intros)
next
  case (Cons op ops)
  then obtain r q1 where q1: "rq_step q op = Inr (r, q1)" "bag_step (waiting q) op r (waiting q1)" "rq_ok q1" using rq_step_refines [of q op] by auto
  then obtain rs q' where "rq_run q1 ops = Inr (rs, q')" "bag_run (waiting q1) ops rs (waiting q')" using Cons.IH [of q1] Cons.prems(2) by auto
  then show ?case using q1 bag_run.intros(2) by fastforce
qed

lemma newRetransmissionQueue_waiting: "waiting newRetransmissionQueue = (\<lambda>_. {#})"
proof
  fix l show "waiting newRetransmissionQueue l = {#}" by (cases l) (simp_all add: newRetransmissionQueue_def)
qed

text \<open>C12. The retransmission queue refines a bag of frames for each encryption level: whatever is added, taken and dropped, no operation panics, and
  the results are those of a run of the bags, in which a frame that was added stays until it is taken, once and within the size asked for, or
  its level is dropped; nothing is returned only if nothing waits or a waiting frame is too long.\<close>

theorem retransmission_queue_refines:
  assumes "\<forall>op \<in> set ops. rq_op_ok op"
  shows "\<exists>rs q. rq_run newRetransmissionQueue ops = Inr (rs, q) \<and> bag_run (\<lambda>_. {#}) ops rs (waiting q)"
proof -
  have "rq_ok newRetransmissionQueue" by (simp add: rq_ok_def newRetransmissionQueue_waiting)
  then show ?thesis using rq_run_refines [OF _ assms, of newRetransmissionQueue] unfolding newRetransmissionQueue_waiting by blast
qed

theorem retransmission_queue_refines_witness:
  "\<exists>q. rq_run newRetransmissionQueue [RqAdd EncryptionInitial (FPing ()), RqAdd EncryptionInitial (FCrypto \<lparr>cf_Offset = 0, cf_Data = [1, 2]\<rparr>),
      RqGet EncryptionInitial 2, RqGet EncryptionInitial 10, RqGet EncryptionInitial 10] =
      Inr ([None, None, Some (FPing ()), Some (FCrypto \<lparr>cf_Offset = 0, cf_Data = [1, 2]\<rparr>), None], q) \<and>
    bag_run (\<lambda>_. {#}) [RqAdd EncryptionInitial (FPing ()), RqAdd EncryptionInitial (FCrypto \<lparr>cf_Offset = 0, cf_Data = [1, 2]\<rparr>),
      RqGet EncryptionInitial 2, RqGet EncryptionInitial 10, RqGet EncryptionInitial 10]
      [None, None, Some (FPing ()), Some (FCrypto \<lparr>cf_Offset = 0, cf_Data = [1, 2]\<rparr>), None] (waiting q)"
  using retransmission_queue_refines [of "[RqAdd EncryptionInitial (FPing ()), RqAdd EncryptionInitial (FCrypto \<lparr>cf_Offset = 0, cf_Data = [1, 2]\<rparr>),
      RqGet EncryptionInitial 2, RqGet EncryptionInitial 10, RqGet EncryptionInitial 10]"]
  by (simp add: levels_def AddInitial_def newRetransmissionQueue_def GetInitialFrame_def popCrypto_def popFitting_def PingFrame_Length_def
      CryptoFrame_Length_def VarIntLen_def maxVarInt_defs)

section \<open>Window updates\<close>

record windowUpdateQueue =
  wuq_queue :: "StreamID set"
  queuedConn :: bool

definition newWindowUpdateQueue :: windowUpdateQueue where
  "newWindowUpdateQueue = \<lparr>wuq_queue = {}, queuedConn = False\<rparr>"

definition wuq_AddStream :: "windowUpdateQueue \<Rightarrow> StreamID \<Rightarrow> windowUpdateQueue" where
  "wuq_AddStream q sid = q\<lparr>wuq_queue := insert sid (wuq_queue q)\<rparr>"

definition AddConnection :: "windowUpdateQueue \<Rightarrow> windowUpdateQueue" where
  "AddConnection q = q\<lparr>queuedConn := True\<rparr>"

text \<open>The loop over the queue, in the order in which Go happens to go through the map. The streams are behind an
  interface: \<open>streamUpdate\<close> is \<open>None\<close> for a stream that is gone.\<close>

fun queueStreams :: "('w \<Rightarrow> StreamID \<Rightarrow> ByteCount option \<times> 'w) \<Rightarrow> StreamID list \<Rightarrow> windowUpdateQueue \<Rightarrow> 'w \<Rightarrow> Frame list \<times> windowUpdateQueue \<times> 'w" where
  "queueStreams streamUpdate [] q w = ([], q, w)"
| "queueStreams streamUpdate (sid # sids) q w =
    (case streamUpdate w sid of
       (None, w) \<Rightarrow> queueStreams streamUpdate sids q w
     | (Some offset, w) \<Rightarrow>
         if offset = 0 then queueStreams streamUpdate sids q w
         else case queueStreams streamUpdate sids (q\<lparr>wuq_queue := wuq_queue q - {sid}\<rparr>) w of (fs, q, w) \<Rightarrow>
           (FMaxStreamData \<lparr>msdf_StreamID = sid, msdf_ByteOffset = offset\<rparr> # fs, q, w))"

definition QueueAll :: "('w \<Rightarrow> StreamID \<Rightarrow> ByteCount option \<times> 'w) \<Rightarrow> ('w \<Rightarrow> ByteCount \<times> 'w) \<Rightarrow> StreamID list \<Rightarrow> windowUpdateQueue \<Rightarrow> 'w \<Rightarrow>
    Frame list \<times> windowUpdateQueue \<times> 'w" where
  "QueueAll streamUpdate getConnUpdate order q w =
    (let (fs, q, w) = (if queuedConn q then case getConnUpdate w of (offset, w) \<Rightarrow> ([FMaxData \<lparr>mdf_ByteOffset = offset\<rparr>], q\<lparr>queuedConn := False\<rparr>, w)
                       else ([], q, w));
         (gs, q, w) = queueStreams streamUpdate order q w
     in (fs @ gs, q, w))"

text \<open>What is left in the queue, and what is announced, when the state of a stream is not changed by asking another one.\<close>

lemma queueStreams_run:
  assumes "\<And>w sid. streamUpdate w sid = (u sid, w)" and "distinct sids"
  shows "queueStreams streamUpdate sids q w =
    (map (\<lambda>sid. FMaxStreamData \<lparr>msdf_StreamID = sid, msdf_ByteOffset = the (u sid)\<rparr>) (filter (\<lambda>sid. u sid \<notin> {None, Some 0}) sids),
     q\<lparr>wuq_queue := wuq_queue q - {sid \<in> set sids. u sid \<notin> {None, Some 0}}\<rparr>, w)"
  using assms(2)
proof (induction sids arbitrary: q)
  case (Cons sid sids)
  then show ?case by (auto simp: assms(1) split: option.splits intro!: arg_cong [of _ _ "\<lambda>x. q\<lparr>wuq_queue := x\<rparr>"])
qed simp

text \<open>A stream whose window update was queued and which then received its final offset, or was completed, stays in the queue for ever:
  every later call asks for it again.\<close>

theorem window_update_queue_keeps_finished:
  assumes "\<And>w sid. streamUpdate w sid = (u sid, w)" and "sid \<in> wuq_queue q" and "u sid = None \<or> u sid = Some 0" and "distinct order"
  shows "sid \<in> wuq_queue (fst (snd (QueueAll streamUpdate getConnUpdate order q w)))"
  using assms(2,3) by (auto simp: QueueAll_def Let_def queueStreams_run [where u = u, OF assms(1,4)] split: prod.splits)

theorem window_update_queue_keeps_finished_witness:
  "4 \<in> wuq_queue (fst (snd (QueueAll (\<lambda>w sid. ((if sid = 8 then Some 100 else None :: ByteCount option), w)) (\<lambda>w. (200, w)) [8, 4]
      (AddConnection (wuq_AddStream (wuq_AddStream newWindowUpdateQueue 4) 8)) ())))"
  by (rule window_update_queue_keeps_finished [where u = "\<lambda>sid. if sid = 8 then Some 100 else None"])
    (simp_all add: wuq_AddStream_def AddConnection_def)

end
