(* ===== verification/CryptoStream.thy ===== *)
theory CryptoStream
  imports FrameSorter
begin

text \<open>
  The streams of handshake data: \<open>crypto_stream.go\<close> and \<open>crypto_stream_manager.go\<close>. The handler of
  the TLS messages, an interface of the manager, is an argument with a state of its own. The frames
  that the post-handshake stream queues in the framer are returned. The lemmas show that
  sending cuts the data into consecutive frames of the allowed size, that what arrives is put
  together again, and that the handler gets the messages one by one.
\<close>

section \<open>The stream\<close>

definition MaxCryptoStreamOffset :: ByteCount where "MaxCryptoStreamOffset = 16 * 1024"
definition MaxPostHandshakeCryptoFrameSize :: ByteCount where "MaxPostHandshakeCryptoFrameSize = 1000"

record cryptoStreamImpl =
  cs_queue :: frameSorter
  msgBuf :: "byte list"
  cs_highestOffset :: ByteCount
  cs_finished :: bool
  writeOffset :: ByteCount
  writeBuf :: "byte list"

definition newCryptoStream :: cryptoStreamImpl where
  "newCryptoStream = \<lparr>cs_queue = newFrameSorter, msgBuf = [], cs_highestOffset = 0, cs_finished = False,
     writeOffset = 0, writeBuf = []\<rparr>"

lemma sorter_Pop_shorter:
  "sorter_Pop q = ((offset, Some d, cb), q') \<Longrightarrow> length (fs_queue q') < length (fs_queue q)"
  by (auto simp: sorter_Pop_def length_delete_less split: option.splits)

text \<open>The loop that moves the data of the sorter into the buffer.\<close>

function popCryptoData :: "cryptoStreamImpl \<Rightarrow> cryptoStreamImpl" where
  "popCryptoData s =
    (case sorter_Pop (cs_queue s) of
       ((_, None, _), q) \<Rightarrow> s\<lparr>cs_queue := q\<rparr>
     | ((_, Some d, _), q) \<Rightarrow> popCryptoData (s\<lparr>cs_queue := q, msgBuf := msgBuf s @ d\<rparr>))"
  by auto
termination
  by (relation "measure (\<lambda>s. length (fs_queue (cs_queue s)))") (auto dest!: sorter_Pop_shorter [OF sym])

declare popCryptoData.simps [simp del]

definition HandleCryptoFrame :: "cryptoStreamImpl \<Rightarrow> CryptoFrame \<Rightarrow> go_error option \<times> cryptoStreamImpl" where
  "HandleCryptoFrame s f =
    (let highestOffset = cf_Offset f + word_of_nat (length (cf_Data f))
     in if highestOffset > MaxCryptoStreamOffset
        then (Some (Errorf (''received invalid offset %d on crypto stream, maximum allowed %d'',
                [int (unat highestOffset), int (unat MaxCryptoStreamOffset)])), s)
        else if cs_finished s then
          if highestOffset > cs_highestOffset s
          then (Some (Errorf (''received crypto data after change of encryption level'', [])), s)
          else (None, s)
        else
          let s = s\<lparr>cs_highestOffset := utils_MaxByteCount (cs_highestOffset s) highestOffset\<rparr>
          in case sorter_Push (cs_queue s) (cf_Data f) (cf_Offset f) None of
               (Some err, q, _) \<Rightarrow> (Some err, s\<lparr>cs_queue := q\<rparr>)
             | (None, q, _) \<Rightarrow> (None, popCryptoData (s\<lparr>cs_queue := q\<rparr>)))"

definition msgLen :: "byte list \<Rightarrow> nat" where
  "msgLen buf = 4 + push_bit 16 (unat (buf ! 1)) + push_bit 8 (unat (buf ! 2)) + unat (buf ! 3)"

definition GetCryptoData :: "cryptoStreamImpl \<Rightarrow> byte list option \<times> cryptoStreamImpl" where
  "GetCryptoData s =
    (if length (msgBuf s) < 4 then (None, s)
     else if length (msgBuf s) < msgLen (msgBuf s) then (None, s)
     else (Some (take (msgLen (msgBuf s)) (msgBuf s)), s\<lparr>msgBuf := drop (msgLen (msgBuf s)) (msgBuf s)\<rparr>))"

definition cs_Finish :: "cryptoStreamImpl \<Rightarrow> go_error option \<times> cryptoStreamImpl" where
  "cs_Finish s =
    (if HasMoreData (cs_queue s)
     then (Some (Errorf (''encryption level changed, but crypto stream has more data to read'', [])), s)
     else (None, s\<lparr>cs_finished := True\<rparr>))"

definition cs_Write :: "cryptoStreamImpl \<Rightarrow> byte list \<Rightarrow> nat \<times> cryptoStreamImpl" where
  "cs_Write s p = (length p, s\<lparr>writeBuf := writeBuf s @ p\<rparr>)"

definition HasData :: "cryptoStreamImpl \<Rightarrow> bool" where
  "HasData s = (length (writeBuf s) > 0)"

text \<open>The length of a slice is far below \<open>2^63\<close>, so the smaller one of the two byte counts is the
  minimum of the numbers.\<close>

definition PopCryptoFrame :: "cryptoStreamImpl \<Rightarrow> ByteCount \<Rightarrow> go_error + CryptoFrame \<times> cryptoStreamImpl" where
  "PopCryptoFrame s maxLen =
    tryE (CryptoFrame_MaxDataLen \<lparr>cf_Offset = writeOffset s, cf_Data = []\<rparr> maxLen) (\<lambda>m.
    let n = min (unat m) (length (writeBuf s))
    in Inr (\<lparr>cf_Offset = writeOffset s, cf_Data = take n (writeBuf s)\<rparr>,
            s\<lparr>writeBuf := drop n (writeBuf s), writeOffset := writeOffset s + word_of_nat n\<rparr>))"

section \<open>Post-handshake messages\<close>

lemma VarIntLen_le_8: "VarIntLen i = Inr n \<Longrightarrow> 1 \<le> unat n \<and> unat n \<le> 8"
  by (auto simp: VarIntLen_def split: if_splits)

lemma MaxDataLen_pos:
  assumes "CryptoFrame_MaxDataLen f maxLen = Inr m" and "11 \<le> unat maxLen" and "unat maxLen < 2 ^ 14"
  shows "0 < unat m"
proof -
  obtain n where n: "VarIntLen (cf_Offset f) = Inr n" "1 \<le> unat n" "unat n \<le> 8"
    using assms(1) VarIntLen_le_8 by (auto simp: CryptoFrame_MaxDataLen_def tryE_eq_Inr)
  define hdr where "hdr = 1 + n + 1"
  have h: "unat hdr = unat n + 2" using n by (simp add: hdr_def unat_word_ariths)
  have le: "\<not> hdr > maxLen" using n assms(2) by (simp only: word_less_nat_alt h)
  define k where "k = maxLen - hdr"
  have k: "unat k = unat maxLen - (unat n + 2)"
    unfolding k_def using n assms(2) by (subst unat_minus_le) (simp_all only: h)
  have run: "CryptoFrame_MaxDataLen f maxLen = (if hdr > maxLen then Inr 0
      else tryE (VarIntLen k) (\<lambda>n. Inr (if n \<noteq> 1 then k - 1 else k)))"
    by (simp only: CryptoFrame_MaxDataLen_def n(1) tryE_simps Let_def hdr_def k_def)
  have m: "m = (if VarIntLen k \<noteq> Inr 1 then k - 1 else k)"
    using assms(1) le unfolding run by (auto simp: tryE_eq_Inr)
  show ?thesis
  proof (cases "unat k < 64")
    case True
    then have "VarIntLen k = Inr 1" by (simp add: VarIntLen_def maxVarInt_defs word_le_nat_alt)
    then show ?thesis using m k n assms(2) by simp
  next
    case False
    then have "unat (k - 1) = unat k - 1" by (simp add: unat_minus_le)
    then show ?thesis using m False by (auto split: if_splits)
  qed
qed

lemma PopCryptoFrame_shorter:
  assumes "PopCryptoFrame s maxLen = Inr (f, s')" and "HasData s" and "11 \<le> unat maxLen" and "unat maxLen < 2 ^ 14"
  shows "length (writeBuf s') < length (writeBuf s)"
  using assms MaxDataLen_pos [OF _ assms(3,4)]
  by (auto simp: PopCryptoFrame_def HasData_def tryE_eq_Inr Let_def)

text \<open>The loop of \<open>postHandshakeCryptoStream.Write\<close>, with the frames it queues in the framer.\<close>

function queuePostHandshake :: "cryptoStreamImpl \<Rightarrow> go_error + CryptoFrame list \<times> cryptoStreamImpl" where
  "queuePostHandshake s =
    (if HasData s then
       (case PopCryptoFrame s MaxPostHandshakeCryptoFrameSize of
          Inl e \<Rightarrow> Inl e
        | Inr (f, s) \<Rightarrow> tryE (queuePostHandshake s) (\<lambda>(fs, s). Inr (f # fs, s)))
     else Inr ([], s))"
  by auto
termination
  by (relation "measure (\<lambda>s. length (writeBuf s))")
    (auto simp: MaxPostHandshakeCryptoFrameSize_def intro: PopCryptoFrame_shorter [where maxLen = MaxPostHandshakeCryptoFrameSize])

declare queuePostHandshake.simps [simp del]

definition postHandshake_Write :: "cryptoStreamImpl \<Rightarrow> byte list \<Rightarrow> go_error + nat \<times> CryptoFrame list \<times> cryptoStreamImpl" where
  "postHandshake_Write s p =
    (case cs_Write s p of (n, s) \<Rightarrow> tryE (queuePostHandshake s) (\<lambda>(fs, s). Inr (n, fs, s)))"

section \<open>The manager\<close>

record cryptoStreamManager =
  initialStream :: cryptoStreamImpl
  handshakeStream :: cryptoStreamImpl
  oneRTTStream :: cryptoStreamImpl

definition newCryptoStreamManager :: "cryptoStreamImpl \<Rightarrow> cryptoStreamImpl \<Rightarrow> cryptoStreamImpl \<Rightarrow> cryptoStreamManager" where
  "newCryptoStreamManager i h o1 = \<lparr>initialStream = i, handshakeStream = h, oneRTTStream = o1\<rparr>"

lemma GetCryptoData_shorter: "GetCryptoData s = (Some msg, s') \<Longrightarrow> length (msgBuf s') < length (msgBuf s)"
  by (auto simp: GetCryptoData_def msgLen_def split: if_splits)

text \<open>The loop over the messages: \<open>h\<close> is the state of the handler, \<open>handle\<close> its \<open>HandleMessage\<close>.\<close>

function handleMessages :: "('h \<Rightarrow> byte list \<Rightarrow> EncryptionLevel \<Rightarrow> bool \<times> 'h) \<Rightarrow> EncryptionLevel \<Rightarrow> cryptoStreamImpl \<Rightarrow> 'h \<Rightarrow>
    (bool \<times> go_error option) \<times> cryptoStreamImpl \<times> 'h" where
  "handleMessages handle encLevel s h =
    (case GetCryptoData s of
       (None, s) \<Rightarrow> ((False, None), s, h)
     | (Some msg, s) \<Rightarrow>
         (case handle h msg encLevel of
            (True, h) \<Rightarrow> (case cs_Finish s of (err, s) \<Rightarrow> ((True, err), s, h))
          | (False, h) \<Rightarrow> handleMessages handle encLevel s h))"
  by auto
termination
  by (relation "measure (\<lambda>(_, _, s, _). length (msgBuf s))") (auto dest!: GetCryptoData_shorter [OF sym])

declare handleMessages.simps [simp del]

definition handleOnStream :: "('h \<Rightarrow> byte list \<Rightarrow> EncryptionLevel \<Rightarrow> bool \<times> 'h) \<Rightarrow> EncryptionLevel \<Rightarrow> CryptoFrame \<Rightarrow>
    cryptoStreamImpl \<Rightarrow> 'h \<Rightarrow> (bool \<times> go_error option) \<times> cryptoStreamImpl \<times> 'h" where
  "handleOnStream handle encLevel f str h =
    (case HandleCryptoFrame str f of
       (Some err, str) \<Rightarrow> ((False, Some err), str, h)
     | (None, str) \<Rightarrow> handleMessages handle encLevel str h)"

fun manager_HandleCryptoFrame :: "('h \<Rightarrow> byte list \<Rightarrow> EncryptionLevel \<Rightarrow> bool \<times> 'h) \<Rightarrow> cryptoStreamManager \<Rightarrow> CryptoFrame \<Rightarrow>
    EncryptionLevel \<Rightarrow> 'h \<Rightarrow> (bool \<times> go_error option) \<times> cryptoStreamManager \<times> 'h" where
  "manager_HandleCryptoFrame handle m f EncryptionInitial h =
    (case handleOnStream handle EncryptionInitial f (initialStream m) h of (r, s, h) \<Rightarrow> (r, m\<lparr>initialStream := s\<rparr>, h))"
| "manager_HandleCryptoFrame handle m f EncryptionHandshake h =
    (case handleOnStream handle EncryptionHandshake f (handshakeStream m) h of (r, s, h) \<Rightarrow> (r, m\<lparr>handshakeStream := s\<rparr>, h))"
| "manager_HandleCryptoFrame handle m f Encryption1RTT h =
    (case handleOnStream handle Encryption1RTT f (oneRTTStream m) h of (r, s, h) \<Rightarrow> (r, m\<lparr>oneRTTStream := s\<rparr>, h))"
| "manager_HandleCryptoFrame handle m f EncryptionUnspecified h =
    ((False, Some (Errorf (''received CRYPTO frame with unexpected encryption level: '' @
        EncryptionLevel_String EncryptionUnspecified, []))), m, h)"

section \<open>Sending\<close>

text \<open>Several frames taken from the stream, with their maximum sizes.\<close>

fun popFrames :: "cryptoStreamImpl \<Rightarrow> ByteCount list \<Rightarrow> go_error + CryptoFrame list \<times> cryptoStreamImpl" where
  "popFrames s [] = Inr ([], s)"
| "popFrames s (m # ms) =
    tryE (PopCryptoFrame s m) (\<lambda>(f, s). tryE (popFrames s ms) (\<lambda>(fs, s). Inr (f # fs, s)))"

lemma CryptoFrame_MaxDataLen_fits:
  assumes "CryptoFrame_MaxDataLen f maxLen = Inr m" and "unat maxLen < 2 ^ 14" and "length d \<le> unat m" and "d \<noteq> []"
  shows "\<exists>l. CryptoFrame_Length \<lparr>cf_Offset = cf_Offset f, cf_Data = d\<rparr> = Inr l \<and> unat l \<le> unat maxLen"
proof -
  obtain n where n: "VarIntLen (cf_Offset f) = Inr n" "1 \<le> unat n" "unat n \<le> 8"
    using assms(1) VarIntLen_le_8 by (auto simp: CryptoFrame_MaxDataLen_def tryE_eq_Inr)
  define hdr where "hdr = 1 + n + 1"
  have h: "unat hdr = unat n + 2" using n by (simp add: hdr_def unat_word_ariths)
  define k where "k = maxLen - hdr"
  have run: "CryptoFrame_MaxDataLen f maxLen = (if hdr > maxLen then Inr 0
      else tryE (VarIntLen k) (\<lambda>n. Inr (if n \<noteq> 1 then k - 1 else k)))"
    by (simp only: CryptoFrame_MaxDataLen_def n(1) tryE_simps Let_def hdr_def k_def)
  have le: "\<not> hdr > maxLen" using assms unfolding run by (auto split: if_splits)
  have k: "unat k = unat maxLen - (unat n + 2)" "unat n + 2 \<le> unat maxLen"
    using le by (simp_all add: k_def unat_minus_le word_less_nat_alt h)
  have m: "m = (if VarIntLen k \<noteq> Inr 1 then k - 1 else k)"
    using assms(1) le unfolding run by (auto simp: tryE_eq_Inr)
  have d0: "0 < length d" using assms(4) by simp
  have k63: "VarIntLen k = Inr 1 \<longleftrightarrow> unat k < 64" "unat k < 2 ^ 14"
    using k assms(2) by (auto simp: VarIntLen_def maxVarInt_defs word_le_nat_alt)
  have len: "length d < 2 ^ 14" "unat k < 64 \<Longrightarrow> length d \<le> unat k" "\<not> unat k < 64 \<Longrightarrow> length d + 1 \<le> unat k"
    using m k63 assms(3) by (auto simp: unat_minus_le split: if_splits)
  define l where "l = (if length d < 64 then 1 else 2 :: ByteCount)"
  have dl: "VarIntLen (word_of_nat (length d)) = Inr l"
    using len(1) by (simp add: VarIntLen_def maxVarInt_defs word_le_nat_alt unat_word_of_nat_id l_def)
  have "CryptoFrame_Length \<lparr>cf_Offset = cf_Offset f, cf_Data = d\<rparr> = Inr (1 + n + l + word_of_nat (length d))"
    by (simp add: CryptoFrame_Length_def n(1) dl)
  moreover have "unat (1 + n + l + word_of_nat (length d)) = 1 + unat n + unat l + length d"
    using n len(1) by (simp add: l_def unat_word_ariths unat_of_nat)
  moreover have "1 + unat n + unat l + length d \<le> unat maxLen"
  proof (cases "unat k < 64")
    case True
    then show ?thesis using len(2) k by (simp add: l_def)
  next
    case False
    have "unat l \<le> 2" by (simp add: l_def)
    then show ?thesis using len(3) [OF False] k by linarith
  qed
  ultimately show ?thesis by simp
qed

lemma popFrames_cut:
  assumes "popFrames s ms = Inr (fs, s')" and "\<forall>m \<in> set ms. unat m < 2 ^ 14"
    and "unat (writeOffset s) + length (writeBuf s) < 2 ^ 62"
  shows "concat (map cf_Data fs) @ writeBuf s' = writeBuf s \<and> length fs = length ms \<and>
    (\<forall>i < length fs. unat (cf_Offset (fs ! i)) = unat (writeOffset s) + length (concat (map cf_Data (take i fs))) \<and>
      (cf_Data (fs ! i) = [] \<or> (\<exists>l. CryptoFrame_Length (fs ! i) = Inr l \<and> unat l \<le> unat (ms ! i))))"
  using assms
proof (induction ms arbitrary: s fs)
  case Nil
  then show ?case by simp
next
  case (Cons m ms)
  obtain f s1 fs1 where pop: "PopCryptoFrame s m = Inr (f, s1)" and rest: "popFrames s1 ms = Inr (fs1, s')" and fs: "fs = f # fs1"
    using Cons.prems(1) by (auto simp: tryE_eq_Inr)
  obtain k where k: "CryptoFrame_MaxDataLen \<lparr>cf_Offset = writeOffset s, cf_Data = []\<rparr> m = Inr k"
    using pop by (auto simp: PopCryptoFrame_def tryE_eq_Inr)
  define n where "n = min (unat k) (length (writeBuf s))"
  have f: "f = \<lparr>cf_Offset = writeOffset s, cf_Data = take n (writeBuf s)\<rparr>"
    and s1: "s1 = s\<lparr>writeBuf := drop n (writeBuf s), writeOffset := writeOffset s + word_of_nat n\<rparr>"
    using pop k by (simp_all add: PopCryptoFrame_def n_def Let_def)
  have off: "unat (writeOffset s1) = unat (writeOffset s) + n"
    unfolding s1 using Cons.prems(3) by (simp add: n_def unat_word_ariths unat_of_nat)
  have n: "n \<le> length (writeBuf s)" by (simp add: n_def)
  have "unat (writeOffset s1) + length (writeBuf s1) < 2 ^ 62" using off Cons.prems(3) n by (simp add: s1)
  then have IH: "concat (map cf_Data fs1) @ writeBuf s' = writeBuf s1" "length fs1 = length ms"
    "\<forall>i < length fs1. unat (cf_Offset (fs1 ! i)) = unat (writeOffset s1) + length (concat (map cf_Data (take i fs1))) \<and>
      (cf_Data (fs1 ! i) = [] \<or> (\<exists>l. CryptoFrame_Length (fs1 ! i) = Inr l \<and> unat l \<le> unat (ms ! i)))"
    using Cons.IH [OF rest] Cons.prems(2) by auto
  have first: "cf_Data f = [] \<or> (\<exists>l. CryptoFrame_Length f = Inr l \<and> unat l \<le> unat m)"
    using CryptoFrame_MaxDataLen_fits [OF k, of "take n (writeBuf s)"] Cons.prems(2) by (auto simp: f n_def)
  have "concat (map cf_Data fs) @ writeBuf s' = writeBuf s"
    using IH(1) n unfolding fs f by (simp add: s1 flip: IH(1))
  moreover have "unat (cf_Offset (fs ! i)) = unat (writeOffset s) + length (concat (map cf_Data (take i fs))) \<and>
      (cf_Data (fs ! i) = [] \<or> (\<exists>l. CryptoFrame_Length (fs ! i) = Inr l \<and> unat l \<le> unat ((m # ms) ! i)))"
    if i: "i < length fs" for i
  proof (cases i)
    case 0
    then show ?thesis using first by (simp add: fs) (simp add: f)
  next
    case (Suc j)
    have "length (cf_Data f) = n" using n by (simp add: f)
    then show ?thesis using IH(3) i Suc off by (simp add: fs)
  qed
  ultimately show ?case using IH(2) fs by auto
qed

section \<open>The messages\<close>

text \<open>The handshake messages of a byte sequence: a type byte, three bytes of length, and the body.\<close>

function tlsMessages :: "byte list \<Rightarrow> byte list list" where
  "tlsMessages buf =
    (if length buf < 4 \<or> length buf < msgLen buf then [] else take (msgLen buf) buf # tlsMessages (drop (msgLen buf) buf))"
  by auto
termination
  by (relation "measure length") (auto simp: msgLen_def)

declare tlsMessages.simps [simp del]

lemma msgLen_append: "4 \<le> length a \<Longrightarrow> msgLen (a @ b) = msgLen a"
  by (simp add: msgLen_def nth_append)

lemma msgLen_take: "4 \<le> n \<Longrightarrow> msgLen (take n a) = msgLen a"
  by (simp add: msgLen_def)

lemma tlsMessages_append: "tlsMessages (concat (tlsMessages a) @ b) = tlsMessages a @ tlsMessages b"
proof (induction a rule: tlsMessages.induct)
  case (1 a)
  show ?case
  proof (cases "length a < 4 \<or> length a < msgLen a")
    case True
    then show ?thesis by (simp add: tlsMessages.simps [of a])
  next
    case False
    define m where "m = take (msgLen a) a"
    have len: "4 \<le> msgLen a" by (simp add: msgLen_def)
    have m: "length m = msgLen a" "msgLen m = msgLen a" using False len by (simp_all add: m_def msgLen_take)
    have t: "tlsMessages a = m # tlsMessages (drop (msgLen a) a)" using False by (simp add: tlsMessages.simps [of a] m_def)
    have "tlsMessages (m @ x) = m # tlsMessages x" for x
      using m len by (subst tlsMessages.simps) (simp add: msgLen_append)
    then show ?thesis using 1 False by (simp add: t)
  qed
qed

lemma handleMessages_record:
  assumes "\<And>h msg. handle h msg encLevel = (False, h @ [msg])"
  shows "\<exists>s'. handleMessages handle encLevel s h = ((False, None), s', h @ tlsMessages (msgBuf s)) \<and>
    concat (tlsMessages (msgBuf s)) @ msgBuf s' = msgBuf s \<and> cs_queue s' = cs_queue s \<and> cs_finished s' = cs_finished s"
  using assms
proof (induction handle encLevel s h rule: handleMessages.induct)
  case (1 handle encLevel s h)
  show ?case
  proof (cases "length (msgBuf s) < 4 \<or> length (msgBuf s) < msgLen (msgBuf s)")
    case True
    then show ?thesis
      by (auto simp: handleMessages.simps [of handle] tlsMessages.simps [of "msgBuf s"] GetCryptoData_def)
  next
    case False
    let ?s1 = "s\<lparr>msgBuf := drop (msgLen (msgBuf s)) (msgBuf s)\<rparr>"
    let ?m = "take (msgLen (msgBuf s)) (msgBuf s)"
    have get: "GetCryptoData s = (Some ?m, ?s1)" using False by (simp add: GetCryptoData_def)
    then obtain s' where "handleMessages handle encLevel ?s1 (h @ [?m]) = ((False, None), s', (h @ [?m]) @ tlsMessages (msgBuf ?s1))"
      "concat (tlsMessages (msgBuf ?s1)) @ msgBuf s' = msgBuf ?s1" "cs_queue s' = cs_queue ?s1" "cs_finished s' = cs_finished ?s1"
      using "1.IH" [OF get [symmetric] refl, of False "h @ [?m]"] "1.prems" by auto
    then show ?thesis using get False "1.prems"
      by (auto simp: handleMessages.simps [of handle encLevel s] tlsMessages.simps [of "msgBuf s"])
  qed
qed

section \<open>Receiving\<close>

text \<open>The stream with a handler that records the messages and does not finish the encryption level.\<close>

definition record_message :: "byte list list \<Rightarrow> byte list \<Rightarrow> EncryptionLevel \<Rightarrow> bool \<times> byte list list" where
  "record_message h msg encLevel = (False, h @ [msg])"

fun recvFrames :: "EncryptionLevel \<Rightarrow> cryptoStreamImpl \<Rightarrow> byte list list \<Rightarrow> CryptoFrame list \<Rightarrow> go_error + cryptoStreamImpl \<times> byte list list" where
  "recvFrames lvl s h [] = Inr (s, h)"
| "recvFrames lvl s h (f # fs) =
    (case handleOnStream record_message lvl f s h of
       ((_, Some err), _, _) \<Rightarrow> Inl err
     | ((_, None), s, h) \<Rightarrow> recvFrames lvl s h fs)"

definition frame_pair :: "CryptoFrame \<Rightarrow> ByteCount \<times> byte list" where
  "frame_pair f = (cf_Offset f, cf_Data f)"

text \<open>The buffer holds what the sorter has delivered and the handler has not got yet.\<close>

definition crypto_inv :: "(nat \<Rightarrow> byte) \<Rightarrow> (ByteCount \<times> byte list) set \<Rightarrow> byte list \<Rightarrow> cryptoStreamImpl \<Rightarrow> bool" where
  "crypto_inv c R taken s \<longleftrightarrow> complete_inv c R (cs_queue s) \<and>
     taken @ msgBuf s = map c [0 ..< unat (readPos (cs_queue s))] \<and> \<not> cs_finished s"

definition stuck :: "cryptoStreamImpl \<Rightarrow> bool" where
  "stuck s \<longleftrightarrow> map_of (fs_queue (cs_queue s)) (readPos (cs_queue s)) = None"

lemma popCryptoData_correct:
  assumes "crypto_inv c R taken s" and "apart R"
  shows "crypto_inv c R taken (popCryptoData s) \<and> stuck (popCryptoData s)"
  using assms
proof (induction s rule: popCryptoData.induct)
  case (1 s)
  obtain offset d cb q where pop: "sorter_Pop (cs_queue s) = ((offset, d, cb), q)" by (metis prod.collapse)
  have inv: "complete_inv c R (cs_queue s)" and si: "sorter_inv c (cs_queue s)"
    using "1.prems"(1) by (auto simp: crypto_inv_def complete_inv_def)
  show ?case
  proof (cases d)
    case None
    then have "q = cs_queue s" "map_of (fs_queue q) (readPos q) = None" using pop by (auto simp: sorter_Pop_def split: option.splits)
    then show ?thesis using None pop "1.prems"(1) by (simp add: popCryptoData.simps [of s] crypto_inv_def stuck_def)
  next
    case (Some d')
    define s1 where "s1 = s\<lparr>cs_queue := q, msgBuf := msgBuf s @ d'\<rparr>"
    have step: "popCryptoData s = popCryptoData s1" using Some pop by (simp add: popCryptoData.simps [of s] s1_def)
    note p = sorter_Pop_correct [OF si pop]
    have le: "0 \<le> unat (readPos (cs_queue s))" "unat (readPos (cs_queue s)) \<le> unat (readPos q)" using p(4) by simp_all
    have "taken @ msgBuf s1 = map c [0 ..< unat (readPos q)]"
      using "1.prems"(1) p(5) Some upt_add_eq_append [OF le(1), of "unat (readPos q) - unat (readPos (cs_queue s))"] le(2)
      by (simp add: s1_def crypto_inv_def flip: append_assoc)
    then have "crypto_inv c R taken s1"
      using complete_inv_Pop(1) [OF inv "1.prems"(2)] pop Some "1.prems"(1) by (simp add: s1_def crypto_inv_def)
    moreover have "crypto_inv c R taken (popCryptoData s1) \<and> stuck (popCryptoData s1)" if "crypto_inv c R taken s1"
      using that "1.prems"(2) pop Some unfolding s1_def by (intro "1.IH" [of "(offset, d, cb)" q offset "(d, cb)" d cb d']) auto
    ultimately show ?thesis unfolding step by blast
  qed
qed

definition crypto_ok :: "(nat \<Rightarrow> byte) \<Rightarrow> CryptoFrame \<Rightarrow> bool" where
  "crypto_ok c f \<longleftrightarrow> cf_Data f = map c [unat (cf_Offset f) ..< unat (cf_Offset f) + length (cf_Data f)] \<and>
     unat (cf_Offset f) + length (cf_Data f) \<le> unat MaxCryptoStreamOffset"

lemma crypto_ok_piece: "crypto_ok c f \<Longrightarrow> piece c (cf_Offset f) (cf_Data f)"
  by (simp add: crypto_ok_def piece_def MaxCryptoStreamOffset_def MaxByteCount_def)

text \<open>What the handler has got are the messages of the data delivered so far.\<close>

definition messages_inv :: "(nat \<Rightarrow> byte) \<Rightarrow> (ByteCount \<times> byte list) set \<Rightarrow> cryptoStreamImpl \<Rightarrow> byte list list \<Rightarrow> bool" where
  "messages_inv c R s h \<longleftrightarrow> crypto_inv c R (concat h) s \<and> stuck s \<and>
     h = tlsMessages (map c [0 ..< unat (readPos (cs_queue s))])"

lemma handleOnStream_correct:
  assumes inv: "messages_inv c R s h" and ap: "apart (insert (frame_pair f) R)" and ok: "crypto_ok c f"
    and few: "card (insert (frame_pair f) R) < 1000"
  shows "\<exists>s' h'. handleOnStream record_message lvl f s h = ((False, None), s', h') \<and> messages_inv c (insert (frame_pair f) R) s' h'"
proof -
  let ?R = "insert (cf_Offset f, cf_Data f) R"
  define stop where "stop = cf_Offset f + word_of_nat (length (cf_Data f))"
  have cinv: "complete_inv c R (cs_queue s)" using inv by (simp add: messages_inv_def crypto_inv_def)
  have pc: "piece c (cf_Offset f) (cf_Data f)" using ok by (rule crypto_ok_piece)
  have low: "\<not> MaxCryptoStreamOffset < stop"
    using ok piece_stop [OF pc] by (simp add: stop_def crypto_ok_def word_less_nat_alt)
  have ap': "apart ?R" and few': "\<not> 1000 \<le> card ?R" using ap few by (simp_all add: frame_pair_def)
  obtain q cbs where push: "sorter_Push (cs_queue s) (cf_Data f) (cf_Offset f) None = (None, q, cbs)"
    "complete_inv c ?R q" "readPos q = readPos (cs_queue s)"
    by (rule complete_inv_Push [OF cinv ap' pc, of None]) (use few' in auto)
  define s1 where "s1 = s\<lparr>cs_highestOffset := utils_MaxByteCount (cs_highestOffset s) stop, cs_queue := q\<rparr>"
  define s2 where "s2 = popCryptoData s1"
  have run: "HandleCryptoFrame s f = (None, s2)"
    using low push(1) inv
    by (simp add: HandleCryptoFrame_def stop_def [symmetric] s1_def s2_def messages_inv_def crypto_inv_def)
  have "crypto_inv c ?R (concat h) s1" using push(2,3) inv by (auto simp: s1_def messages_inv_def crypto_inv_def)
  from popCryptoData_correct [OF this ap'] have inv2: "crypto_inv c ?R (concat h) s2" "stuck s2" by (simp_all add: s2_def)
  obtain s3 where s3: "handleMessages record_message lvl s2 h = ((False, None), s3, h @ tlsMessages (msgBuf s2))"
    "concat (tlsMessages (msgBuf s2)) @ msgBuf s3 = msgBuf s2" "cs_queue s3 = cs_queue s2" "cs_finished s3 = cs_finished s2"
    using handleMessages_record [of record_message lvl s2 h] by (auto simp: record_message_def)
  have "tlsMessages (map c [0 ..< unat (readPos (cs_queue s3))]) = tlsMessages (concat h @ msgBuf s2)"
    using inv2(1) by (simp add: crypto_inv_def s3(3))
  also have "\<dots> = h @ tlsMessages (msgBuf s2)"
    using inv tlsMessages_append unfolding messages_inv_def by metis
  finally have "messages_inv c ?R s3 (h @ tlsMessages (msgBuf s2))"
    using inv2 s3(2-4) by (simp add: messages_inv_def crypto_inv_def stuck_def)
  then show ?thesis using run s3(1) by (simp add: handleOnStream_def frame_pair_def)
qed

lemma recvFrames_correct:
  assumes "messages_inv c R s h" and "apart (R \<union> frame_pair ` set fs)" and "\<forall>f \<in> set fs. crypto_ok c f"
    and "card (R \<union> frame_pair ` set fs) < 1000"
  shows "\<exists>s' h'. recvFrames lvl s h fs = Inr (s', h') \<and> messages_inv c (R \<union> frame_pair ` set fs) s' h'"
  using assms
proof (induction fs arbitrary: s h R)
  case Nil
  then show ?case by simp
next
  case (Cons f fs)
  have fin: "finite R" using Cons.prems(1) by (auto simp: messages_inv_def crypto_inv_def complete_inv_def)
  have R: "R \<union> frame_pair ` set (f # fs) = insert (frame_pair f) R \<union> frame_pair ` set fs" by auto
  have ap: "apart (insert (frame_pair f) R)" using Cons.prems(2) unfolding R apart_def by blast
  have "card (insert (frame_pair f) R) \<le> card (R \<union> frame_pair ` set (f # fs))" unfolding R using fin by (intro card_mono) auto
  then have few: "card (insert (frame_pair f) R) < 1000" using Cons.prems(4) by simp
  obtain s1 h1 where s1: "handleOnStream record_message lvl f s h = ((False, None), s1, h1)" "messages_inv c (insert (frame_pair f) R) s1 h1"
    using handleOnStream_correct [OF Cons.prems(1) ap _ few, of lvl] Cons.prems(3) by (meson list.set_intros(1))
  show ?case using Cons.IH [OF s1(2)] Cons.prems(2-4) s1(1) unfolding R by simp
qed

lemma newCryptoStream_inv: "messages_inv c {} newCryptoStream []"
  by (simp add: messages_inv_def crypto_inv_def newCryptoStream_def newFrameSorter_complete newFrameSorter_inv stuck_def
      tlsMessages.simps [of "[]"]) (simp add: newFrameSorter_def)

section \<open>From one end to the other\<close>

lemma concat_at:
  assumes "i < length D"
  shows "concat D = concat (take i D) @ D ! i @ concat (drop (Suc i) D)"
  using assms by (metis append_take_drop_id concat.simps(2) concat_append Cons_nth_drop_Suc)

lemma length_concat_take_Suc: "i < length D \<Longrightarrow> length (concat (take (Suc i) D)) = length (concat (take i D)) + length (D ! i)"
  by (simp add: take_Suc_conv_app_nth)

lemma length_concat_take_mono: "i \<le> j \<Longrightarrow> length (concat (take i D)) \<le> length (concat (take j D))"
  by (metis concat_append length_append le_add1 le_iff_add take_add)

lemma concat_cover:
  "x < length (concat D) \<Longrightarrow> \<exists>i < length D. length (concat (take i D)) \<le> x \<and> x < length (concat (take i D)) + length (D ! i)"
proof (induction D arbitrary: x)
  case (Cons d D)
  show ?case
  proof (cases "x < length d")
    case True
    then show ?thesis by (intro exI [of _ 0]) simp
  next
    case False
    then have "x - length d < length (concat D)" using Cons.prems by auto
    from Cons.IH [OF this] obtain i where
      "i < length D" "length (concat (take i D)) \<le> x - length d" "x - length d < length (concat (take i D)) + length (D ! i)"
      by blast
    then show ?thesis using False by (intro exI [of _ "Suc i"]) auto
  qed
qed simp

text \<open>Frames that are cut consecutively from the data \<open>p\<close>.\<close>

lemma consecutive_frames:
  assumes cut: "concat (map cf_Data fs) = p" and len: "length p \<le> unat MaxCryptoStreamOffset"
    and off: "\<And>i. i < length fs \<Longrightarrow> unat (cf_Offset (fs ! i)) = length (concat (map cf_Data (take i fs)))"
    and ne: "\<forall>f \<in> set fs. cf_Data f \<noteq> []"
  defines "c \<equiv> \<lambda>i. if i < length p then p ! i else 0"
  shows "\<forall>f \<in> set fs. crypto_ok c f" and "apart (frame_pair ` set fs)" and "arrived (frame_pair ` set fs) = {..< length p}"
    and "map c [0 ..< length p] = p"
proof -
  let ?D = "map cf_Data fs"
  have o: "unat (cf_Offset (fs ! i)) = length (concat (take i ?D))" if "i < length fs" for i using off [OF that] by (simp add: take_map)
  have at: "p = concat (take i ?D) @ cf_Data (fs ! i) @ concat (drop (Suc i) ?D)" if "i < length fs" for i
    using concat_at [of i ?D] that cut by simp
  have ok: "crypto_ok c (fs ! i)" if i: "i < length fs" for i
  proof -
    obtain a b where ab: "a = concat (take i ?D)" "p = a @ cf_Data (fs ! i) @ b" using at [OF i] by blast
    have "map c [length a ..< length a + length (cf_Data (fs ! i))] = cf_Data (fs ! i)"
      by (rule nth_equalityI) (simp_all add: c_def ab(2) nth_append)
    then have "map c [length (concat (take i ?D)) ..< length (concat (take i ?D)) + length (cf_Data (fs ! i))] = cf_Data (fs ! i)"
      by (simp only: ab(1))
    moreover have "length (concat (take i ?D)) + length (cf_Data (fs ! i)) \<le> length p" by (subst at [OF i]) simp
    ultimately show ?thesis using len by (simp add: crypto_ok_def o [OF i])
  qed
  then show "\<forall>f \<in> set fs. crypto_ok c f" by (auto simp: in_set_conv_nth)
  have ext: "extent (cf_Offset (fs ! i)) (cf_Data (fs ! i)) = {length (concat (take i ?D)) ..< length (concat (take (Suc i) ?D))}"
    if "i < length fs" for i
    using that length_concat_take_Suc [of i ?D] by (simp add: extent_def o)
  have disj: "extent (cf_Offset (fs ! i)) (cf_Data (fs ! i)) \<inter> extent (cf_Offset (fs ! j)) (cf_Data (fs ! j)) = {}"
    if "i < j" "j < length fs" for i j
    using length_concat_take_mono [of "Suc i" j ?D] that by (auto simp: ext)
  show "apart (frame_pair ` set fs)"
    unfolding apart_def
  proof (intro allI impI conjI)
    fix o1 d1 o2 d2 assume "(o1, d1) \<in> frame_pair ` set fs" "(o2, d2) \<in> frame_pair ` set fs"
    then obtain i j where ij: "i < length fs" "j < length fs" "(o1, d1) = frame_pair (fs ! i)" "(o2, d2) = frame_pair (fs ! j)"
      by (auto simp: in_set_conv_nth)
    then show "(o1, d1) = (o2, d2) \<or> extent o1 d1 \<inter> extent o2 d2 = {}"
      using disj [of i j] disj [of j i] by (cases i j rule: linorder_cases) (auto simp: frame_pair_def)
  qed (use ne in \<open>auto simp: frame_pair_def\<close>)
  have "x < length p \<longleftrightarrow> (\<exists>i < length fs. x \<in> extent (cf_Offset (fs ! i)) (cf_Data (fs ! i)))" for x
  proof
    assume "x < length p"
    then show "\<exists>i < length fs. x \<in> extent (cf_Offset (fs ! i)) (cf_Data (fs ! i))"
      using concat_cover [of x ?D] cut by (auto simp: extent_def o)
  next
    assume "\<exists>i < length fs. x \<in> extent (cf_Offset (fs ! i)) (cf_Data (fs ! i))"
    then obtain i where "i < length fs" "x < length (concat (take i ?D)) + length (cf_Data (fs ! i))" by (auto simp: extent_def o)
    moreover from this(1) have "length (concat (take i ?D)) + length (cf_Data (fs ! i)) \<le> length p"
      using arg_cong [OF at, of i length] by (simp only: length_append)
    ultimately show "x < length p" by simp
  qed
  then have "{..< length p} = (\<Union>i < length fs. extent (cf_Offset (fs ! i)) (cf_Data (fs ! i)))" by auto
  also have "\<dots> = arrived (frame_pair ` set fs)"
    by (simp add: arrived_def frame_pair_def set_conv_nth) blast
  finally show "arrived (frame_pair ` set fs) = {..< length p}" ..
  show "map c [0 ..< length p] = p" by (rule nth_equalityI) (simp_all add: c_def)
qed

text \<open>C30. Handshake data gets across: when the data written to a crypto stream is taken from it in frames,
  whatever their maximum sizes, and all the frames are received, in any order and any number of times
  each, then the handler of the receiver has got exactly the messages of the data, in order, and an
  incomplete message at the end is in the buffer. Every frame keeps to its maximum size.\<close>

theorem crypto_transfer:
  assumes "popFrames (snd (cs_Write newCryptoStream p)) ms = Inr (fs, s')" and "\<not> HasData s'"
    and "\<forall>m \<in> set ms. unat m < 2 ^ 14" and "length p \<le> unat MaxCryptoStreamOffset" and "length ms < 1000"
    and "\<forall>f \<in> set fs. cf_Data f \<noteq> []" and "set gs = set fs"
  shows "(\<exists>r. recvFrames lvl newCryptoStream [] gs = Inr (r, tlsMessages p) \<and> concat (tlsMessages p) @ msgBuf r = p) \<and>
    (\<forall>i < length fs. \<exists>l. CryptoFrame_Length (fs ! i) = Inr l \<and> unat l \<le> unat (ms ! i))"
proof -
  define c :: "nat \<Rightarrow> byte" where "c = (\<lambda>i. if i < length p then p ! i else 0)"
  let ?s = "snd (cs_Write newCryptoStream p)"
  have start: "writeBuf ?s = p" "writeOffset ?s = 0" by (simp_all add: cs_Write_def newCryptoStream_def)
  have lim: "unat (writeOffset ?s) + length (writeBuf ?s) < 2 ^ 62" using assms(4) by (simp add: start MaxCryptoStreamOffset_def)
  have end_: "writeBuf s' = []" using assms(2) by (simp add: HasData_def)
  from popFrames_cut [OF assms(1,3) lim] have
    cut: "concat (map cf_Data fs) = p" "length fs = length ms"
    "\<And>i. i < length fs \<Longrightarrow> unat (cf_Offset (fs ! i)) = length (concat (map cf_Data (take i fs)))"
    and fits: "\<forall>i < length fs. \<exists>l. CryptoFrame_Length (fs ! i) = Inr l \<and> unat l \<le> unat (ms ! i)"
    using assms(6) unfolding start end_ by auto
  note frames = consecutive_frames [OF cut(1) assms(4) cut(3) assms(6), folded c_def]
  have card: "card (frame_pair ` set fs) < 1000"
  proof -
    have "card (frame_pair ` set fs) \<le> card (set fs)" by (rule card_image_le) simp
    also have "\<dots> \<le> length fs" by (rule card_length)
    finally show ?thesis using assms(5) cut(2) by simp
  qed
  obtain r h where r: "recvFrames lvl newCryptoStream [] gs = Inr (r, h)" "messages_inv c (frame_pair ` set fs) r h"
    using recvFrames_correct [OF newCryptoStream_inv, of gs c lvl] frames card by (auto simp: assms(7))
  have "unat (readPos (cs_queue r)) = length p"
  proof (rule stuck_at_first_missing)
    show "complete_inv c (frame_pair ` set fs) (cs_queue r)" "map_of (fs_queue (cs_queue r)) (readPos (cs_queue r)) = None"
      using r(2) by (simp_all add: messages_inv_def crypto_inv_def stuck_def)
  qed (use frames(1,3) in \<open>auto simp: frame_pair_def crypto_ok_piece\<close>)
  then have "h = tlsMessages p" "concat h @ msgBuf r = p"
    using r(2) frames(4) by (auto simp: messages_inv_def crypto_inv_def)
  then show ?thesis using r(1) fits by blast
qed

theorem crypto_transfer_witness:
  "\<exists>fs s'. popFrames (snd (cs_Write newCryptoStream [1, 0, 0, 2, 7, 8])) [8, 12] = Inr (fs, s') \<and>
     (\<exists>r h. recvFrames EncryptionInitial newCryptoStream [] (rev fs @ fs) = Inr (r, h) \<and> concat h @ msgBuf r = [1, 0, 0, 2, 7, 8])"
proof -
  let ?fs = "[\<lparr>cf_Offset = 0, cf_Data = [1, 0, 0, 2, 7]\<rparr>, \<lparr>cf_Offset = 5, cf_Data = [8]\<rparr>] :: CryptoFrame list"
  let ?s = "newCryptoStream\<lparr>writeOffset := 6\<rparr>"
  have run: "popFrames (snd (cs_Write newCryptoStream [1, 0, 0, 2, 7, 8])) [8, 12] = Inr (?fs, ?s)"
    by (simp add: cs_Write_def newCryptoStream_def PopCryptoFrame_def CryptoFrame_MaxDataLen_def VarIntLen_def maxVarInt_defs Let_def)
  show ?thesis
    using crypto_transfer [OF run, of "rev ?fs @ ?fs" EncryptionInitial] run
    by (auto simp: HasData_def newCryptoStream_def MaxCryptoStreamOffset_def)
qed

end
