(* ===== verification/PacketPacker.thy ===== *)
theory PacketPacker
  imports PacketProtection Framer SendQueues CryptoStream SentPackets TransportParams
begin

text \<open>
  The packet packer and unpacker, \<open>packet_packer.go\<close> and \<open>packet_unpacker.go\<close>. The packer collects frames from the crypto streams, the
  retransmission queue, the framer and the received packet handler, writes them behind a header, and seals the packet; the
  unpacker removes the header protection and opens it. All of them are the components of the other theories.

  The current time, and the random number the packet number generator may draw, are arguments. The packet buffer is not modelled; its
  capacity is. Sealing is in place, so the packet is the header followed by what the cipher writes.

  The lemmas show that a packed packet fits into the largest packet size, that the peer's unpacker gives back its header
  and its payload, and where the packer fails.
\<close>

section \<open>Constants\<close>

definition MinInitialPacketSize :: ByteCount where "MinInitialPacketSize = 1200"
definition MaxPacketSizeIPv4 :: ByteCount where "MaxPacketSizeIPv4 = 1252"
definition MaxPacketSizeIPv6 :: ByteCount where "MaxPacketSizeIPv6 = 1232"
definition MaxNonAckElicitingAcks :: int where "MaxNonAckElicitingAcks = 19"

section \<open>Packets\<close>

record payload =
  pl_frames :: "Frame list"
  pl_ack :: "AckFrame option"
  pl_length :: ByteCount

definition zeroPayload :: payload where
  "zeroPayload = \<lparr>pl_frames = [], pl_ack = None, pl_length = 0\<rparr>"

record packedPacket =
  pp_header :: ExtendedHeader
  pp_raw :: "byte list"
  pp_ack :: "AckFrame option"
  pp_frames :: "Frame list"

definition pp_EncryptionLevel :: "packedPacket \<Rightarrow> EncryptionLevel" where
  "pp_EncryptionLevel p =
    (if \<not> IsLongHeader (pp_header p) then Encryption1RTT
     else case h_Type (pp_header p) of
       PacketTypeInitial \<Rightarrow> EncryptionInitial | PacketTypeHandshake \<Rightarrow> EncryptionHandshake | _ \<Rightarrow> EncryptionUnspecified)"

definition pp_IsAckEliciting :: "packedPacket \<Rightarrow> bool" where
  "pp_IsAckEliciting p \<longleftrightarrow> HasAckElicitingFrames (pp_frames p)"

text \<open>
  The callbacks of a frame are numbers: 0, 1 and 2 stand for the methods of the retransmission queue, \<open>3 + id\<close> for those of the stream \<open>id\<close>. A
  STREAM frame got the callbacks of its stream when the stream made it; the other frames arrive without.
\<close>

definition onLostOf :: "Frame \<Rightarrow> nat option" where
  "onLostOf f = (case f of FStream sf \<Rightarrow> Some (3 + nat (sf_StreamID sf)) | _ \<Rightarrow> None)"

definition onLostAt :: "EncryptionLevel \<Rightarrow> nat option" where
  "onLostAt encLevel = (case encLevel of EncryptionInitial \<Rightarrow> Some 0 | EncryptionHandshake \<Rightarrow> Some 1 | Encryption1RTT \<Rightarrow> Some 2 | _ \<Rightarrow> None)"

definition ToAckHandlerPacket :: "Time \<Rightarrow> packedPacket \<Rightarrow> go_error + Packet" where
  "ToAckHandlerPacket now p =
    tryE (case pp_ack p of None \<Rightarrow> Inr InvalidPacketNumber | Some ack \<Rightarrow> LargestAcked ack) (\<lambda>largestAcked.
    let encLevel = pp_EncryptionLevel p
    in Inr \<lparr>pk_PacketNumber = eh_PacketNumber (pp_header p),
            pk_Frames = map (\<lambda>f. \<lparr>ahf_Frame = Some f, ahf_OnLost = (if onLostOf f \<noteq> None then onLostOf f else onLostAt encLevel), ahf_OnAcked = onLostOf f\<rparr>) (pp_frames p),
            pk_LargestAcked = largestAcked, pk_Length = word_of_nat (length (pp_raw p)), pk_EncryptionLevel = encLevel, pk_SendTime = now,
            includedInBytesInFlight = False\<rparr>)"

text \<open>The kind of the remote address decides.\<close>

datatype net_Addr = UDPAddr4 | UDPAddr6 | OtherAddr

definition getMaxPacketSize :: "net_Addr \<Rightarrow> ByteCount" where
  "getMaxPacketSize addr = (case addr of UDPAddr4 \<Rightarrow> MaxPacketSizeIPv4 | UDPAddr6 \<Rightarrow> MaxPacketSizeIPv6 | OtherAddr \<Rightarrow> MinInitialPacketSize)"

section \<open>The packer\<close>

record packetPacker =
  pa_destConnID :: ConnectionID
  pa_srcConnID :: ConnectionID
  pa_perspective :: Perspective
  pa_version :: VersionNumber
  pa_cryptoSetup :: cryptoSetup
  handshakeConfirmed :: bool
  pa_initialStream :: cryptoStreamImpl
  pa_handshakeStream :: cryptoStreamImpl
  pa_token :: "byte list"
  pa_pnManager :: sentPacketHandler
  pa_framer :: framerI
  pa_streams :: send_streams
  pa_acks :: receivedPacketHandler
  pa_retransmissionQueue :: retransmissionQueue
  pa_maxPacketSize :: ByteCount
  numNonAckElicitingAcks :: int

definition newPacketPacker :: "ConnectionID \<Rightarrow> ConnectionID \<Rightarrow> cryptoStreamImpl \<Rightarrow> cryptoStreamImpl \<Rightarrow> sentPacketHandler \<Rightarrow> retransmissionQueue \<Rightarrow> net_Addr \<Rightarrow>
    cryptoSetup \<Rightarrow> framerI \<Rightarrow> send_streams \<Rightarrow> receivedPacketHandler \<Rightarrow> Perspective \<Rightarrow> VersionNumber \<Rightarrow> packetPacker" where
  "newPacketPacker destConnID srcConnID iStream hStream pnManager queue remoteAddr cs framer streams acks perspective version =
    \<lparr>pa_destConnID = destConnID, pa_srcConnID = srcConnID, pa_perspective = perspective, pa_version = version, pa_cryptoSetup = cs,
     handshakeConfirmed = False, pa_initialStream = iStream, pa_handshakeStream = hStream, pa_token = [],
     pa_pnManager = pnManager, pa_framer = framer, pa_streams = streams, pa_acks = acks, pa_retransmissionQueue = queue,
     pa_maxPacketSize = getMaxPacketSize remoteAddr, numNonAckElicitingAcks = 0\<rparr>"

definition ChangeDestConnectionID :: "packetPacker \<Rightarrow> ConnectionID \<Rightarrow> packetPacker" where
  "ChangeDestConnectionID p connID = p\<lparr>pa_destConnID := connID\<rparr>"

definition SetToken :: "packetPacker \<Rightarrow> byte list \<Rightarrow> packetPacker" where
  "SetToken p token = p\<lparr>pa_token := token\<rparr>"

definition HandleTransportParameters :: "packetPacker \<Rightarrow> TransportParameters \<Rightarrow> packetPacker" where
  "HandleTransportParameters p params =
    (if MaxPacketSize params \<noteq> 0 then p\<lparr>pa_maxPacketSize := min (pa_maxPacketSize p) (MaxPacketSize params)\<rparr> else p)"

section \<open>Headers\<close>

definition getShortHeader :: "packetPacker \<Rightarrow> KeyPhaseBit \<Rightarrow> go_error + ExtendedHeader" where
  "getShortHeader p kp =
    tryE (PeekPacketNumber (pa_pnManager p) Encryption1RTT) (\<lambda>(pn, pnLen).
    Inr ((toExtendedHeader zeroHeader)\<lparr>eh_PacketNumber := pn, eh_PacketNumberLen := pnLen, DestConnectionID := pa_destConnID p, KeyPhase := kp\<rparr>))"

definition getLongHeader :: "packetPacker \<Rightarrow> EncryptionLevel \<Rightarrow> go_error + ExtendedHeader" where
  "getLongHeader p encLevel =
    tryE (PeekPacketNumber (pa_pnManager p) encLevel) (\<lambda>(pn, pnLen).
    let hdr = (toExtendedHeader zeroHeader)\<lparr>eh_PacketNumber := pn, eh_PacketNumberLen := pnLen, DestConnectionID := pa_destConnID p\<rparr>;
        hdr = (case encLevel of
                 EncryptionInitial \<Rightarrow> hdr\<lparr>h_Type := PacketTypeInitial, h_Token := pa_token p\<rparr>
               | EncryptionHandshake \<Rightarrow> hdr\<lparr>h_Type := PacketTypeHandshake\<rparr>
               | _ \<Rightarrow> hdr)
    in Inr (hdr\<lparr>h_Version := pa_version p, IsLongHeader := True, eh_PacketNumberLen := 4, SrcConnectionID := pa_srcConnID p, h_Length := pa_maxPacketSize p\<rparr>))"

text \<open>The sealers behind the interface. The one for short headers changes with its use; it belongs to the crypto setup.\<close>

datatype sealerI = LongSealer sealer | ShortSealer

definition seal_Overhead :: "packetPacker \<Rightarrow> sealerI \<Rightarrow> ByteCount" where
  "seal_Overhead p s = word_of_nat (case s of LongSealer sl \<Rightarrow> sl_Overhead sl | ShortSealer \<Rightarrow> u_Overhead (cs_aead (pa_cryptoSetup p)))"

definition seal_Seal :: "packetPacker \<Rightarrow> sealerI \<Rightarrow> byte list \<Rightarrow> PacketNumber \<Rightarrow> byte list \<Rightarrow> go_error + byte list \<times> packetPacker" where
  "seal_Seal p s src pn ad =
    (case s of
       LongSealer sl \<Rightarrow> tryE (sl_Seal sl src pn ad) (\<lambda>c. Inr (c, p))
     | ShortSealer \<Rightarrow>
         tryE (u_Seal src pn ad (cs_aead (pa_cryptoSetup p))) (\<lambda>(c, a).
         Inr (c, p\<lparr>pa_cryptoSetup := (pa_cryptoSetup p)\<lparr>cs_aead := a\<rparr>\<rparr>)))"

definition seal_EncryptHeader :: "crypto_lib \<Rightarrow> packetPacker \<Rightarrow> sealerI \<Rightarrow> byte list \<Rightarrow> byte \<Rightarrow> byte list \<Rightarrow> go_error + byte \<times> byte list" where
  "seal_EncryptHeader lib p s sample firstByte pnBytes =
    (case s of
       LongSealer sl \<Rightarrow> EncryptHeader lib (sl_headerProtector sl) sample firstByte pnBytes
     | ShortSealer \<Rightarrow> u_EncryptHeader lib (cs_aead (pa_cryptoSetup p)) sample firstByte pnBytes)"

text \<open>\<open>s.KeyPhase()\<close> of the 1-RTT sealer.\<close>

definition pa_KeyPhase :: "crypto_lib \<Rightarrow> Time \<Rightarrow> packetPacker \<Rightarrow> go_error + KeyPhaseBit \<times> packetPacker" where
  "pa_KeyPhase lib now p =
    tryE (u_KeyPhase lib now (cs_aead (pa_cryptoSetup p))) (\<lambda>(kp, a).
    Inr (kp, p\<lparr>pa_cryptoSetup := (pa_cryptoSetup p)\<lparr>cs_aead := a\<rparr>\<rparr>))"

definition getSealerAndHeader :: "crypto_lib \<Rightarrow> Time \<Rightarrow> packetPacker \<Rightarrow> EncryptionLevel \<Rightarrow> go_error + (sealerI \<times> ExtendedHeader) \<times> packetPacker" where
  "getSealerAndHeader lib now p encLevel =
    (case encLevel of
       EncryptionInitial \<Rightarrow>
         tryE (GetInitialSealer (pa_cryptoSetup p)) (\<lambda>s. tryE (getLongHeader p EncryptionInitial) (\<lambda>hdr. Inr ((LongSealer s, hdr), p)))
     | EncryptionHandshake \<Rightarrow>
         tryE (GetHandshakeSealer (pa_cryptoSetup p)) (\<lambda>s. tryE (getLongHeader p EncryptionHandshake) (\<lambda>hdr. Inr ((LongSealer s, hdr), p)))
     | Encryption1RTT \<Rightarrow>
         tryE (Get1RTTSealer (pa_cryptoSetup p)) (\<lambda>_.
         tryE (pa_KeyPhase lib now p) (\<lambda>(kp, p).
         tryE (getShortHeader p kp) (\<lambda>hdr. Inr ((ShortSealer, hdr), p))))
     | EncryptionUnspecified \<Rightarrow> Inl (Errorf (''unexpected encryption level: %s'', [])))"

section \<open>Writing and sealing\<close>

fun writeAllFrames :: "byte list \<Rightarrow> Frame list \<Rightarrow> go_error + byte list" where
  "writeAllFrames b [] = Inr b"
| "writeAllFrames b (f # fs) = tryE (Frame_Write b f) (\<lambda>b. writeAllFrames b fs)"

text \<open>\<open>bytes.Repeat\<close> panics on a negative count.\<close>

definition writePadding :: "byte list \<Rightarrow> ByteCount \<Rightarrow> go_error + byte list" where
  "writePadding b paddingLen =
    (if paddingLen > 0 then
       if int64_of paddingLen < 0 then Inl (Panic (''bytes: negative Repeat count'', []))
       else Inr (b @ replicate (unat paddingLen) 0)
     else Inr b)"

text \<open>The plain bytes of the packet: header and payload.\<close>

definition writePacket :: "packetPacker \<Rightarrow> ExtendedHeader \<Rightarrow> payload \<Rightarrow> ByteCount \<Rightarrow> go_error + byte list \<times> nat" where
  "writePacket p header payload paddingLen =
    tryE (ExtendedHeader_Write [] header) (\<lambda>buffer.
    let payloadOffset = length buffer in
    tryE (case pl_ack payload of None \<Rightarrow> Inr buffer | Some ack \<Rightarrow> AckFrame_Write buffer ack) (\<lambda>buffer.
    tryE (writePadding buffer paddingLen) (\<lambda>buffer.
    tryE (writeAllFrames buffer (pl_frames payload)) (\<lambda>buffer.
    let payloadSize = word_of_nat (length buffer - payloadOffset) - paddingLen in
    if payloadSize \<noteq> pl_length payload then
      Inl (Errorf (''PacketPacker BUG: payload size inconsistent (expected %d, got %d bytes)'', [uint (pl_length payload), uint payloadSize]))
    else if word_of_nat (length buffer) > pa_maxPacketSize p then
      Inl (Errorf (''PacketPacker BUG: packet too large (%d bytes, allowed %d bytes)'', [int (length buffer), uint (pa_maxPacketSize p)]))
    else Inr (buffer, payloadOffset)))))"

text \<open>Header protection of the sealed packet. A sample that reaches beyond the end does not occur: the packet is padded.\<close>

definition protectHeader :: "crypto_lib \<Rightarrow> packetPacker \<Rightarrow> sealerI \<Rightarrow> nat \<Rightarrow> nat \<Rightarrow> byte list \<Rightarrow> go_error + byte list" where
  "protectHeader lib p s pnOffset payloadOffset raw =
    (if length raw < pnOffset + 4 + 16 then Inl (Panic (''slice bounds out of range [:%d]'', [int (pnOffset + 20)]))
     else
       tryE (seal_EncryptHeader lib p s (take 16 (drop (pnOffset + 4) raw)) (raw ! 0) (take (payloadOffset - pnOffset) (drop pnOffset raw))) (\<lambda>(b0, pnBytes).
       Inr ((take pnOffset raw)[0 := b0] @ pnBytes @ drop payloadOffset raw)))"

definition writeAndSealPacketWithPadding :: "crypto_lib \<Rightarrow> u16 \<Rightarrow> packetPacker \<Rightarrow> ExtendedHeader \<Rightarrow> payload \<Rightarrow> ByteCount \<Rightarrow> EncryptionLevel \<Rightarrow> sealerI \<Rightarrow>
    go_error + packedPacket \<times> packetPacker" where
  "writeAndSealPacketWithPadding lib rnd p header payload paddingLen encLevel s =
    tryE (writePacket p header payload paddingLen) (\<lambda>(raw, payloadOffset).
    tryE (seal_Seal p s (drop payloadOffset raw) (eh_PacketNumber header) (take payloadOffset raw)) (\<lambda>(sealed, p).
    if length raw + unat (seal_Overhead p s) > unat MaxReceivePacketSize
    then Inl (Panic (''slice bounds out of range [:%d] with capacity %d'', [int (length raw + unat (seal_Overhead p s)), uint MaxReceivePacketSize]))
    else
      let raw = take payloadOffset raw @ sealed;
          pnOffset = payloadOffset - unat (eh_PacketNumberLen header) in
      tryE (protectHeader lib p s pnOffset payloadOffset raw) (\<lambda>raw.
      tryE (PopPacketNumber (pa_pnManager p) encLevel rnd) (\<lambda>(num, pnManager).
      if num \<noteq> eh_PacketNumber header then Inl (Errorf (''packetPacker BUG: Peeked and Popped packet numbers do not match'', []))
      else Inr (\<lparr>pp_header = header, pp_raw = raw, pp_ack = pl_ack payload, pp_frames = pl_frames payload\<rparr>, p\<lparr>pa_pnManager := pnManager\<rparr>)))))"

definition writeAndSealPacket :: "crypto_lib \<Rightarrow> u16 \<Rightarrow> packetPacker \<Rightarrow> ExtendedHeader \<Rightarrow> payload \<Rightarrow> EncryptionLevel \<Rightarrow> sealerI \<Rightarrow>
    go_error + packedPacket \<times> packetPacker" where
  "writeAndSealPacket lib rnd p header payload encLevel s =
    (let pnLen = ucast (eh_PacketNumberLen header) in
     if encLevel \<noteq> Encryption1RTT then
       if pa_perspective p = PerspectiveClient \<and> h_Type header = PacketTypeInitial then
         tryE (GetLength header) (\<lambda>headerLen.
         let header = header\<lparr>h_Length := pnLen + MinInitialPacketSize - headerLen\<rparr>;
             paddingLen = (MinInitialPacketSize - seal_Overhead p s) - headerLen - pl_length payload
         in writeAndSealPacketWithPadding lib rnd p header payload paddingLen encLevel s)
       else writeAndSealPacketWithPadding lib rnd p (header\<lparr>h_Length := pnLen + seal_Overhead p s + pl_length payload\<rparr>) payload 0 encLevel s
     else
       writeAndSealPacketWithPadding lib rnd p header payload
         (if pl_length payload < 4 - pnLen then 4 - pnLen - pl_length payload else 0) encLevel s)"

section \<open>Packing\<close>

lemma popFitting_shorter: "popFitting fs n = Inr (Some f, fs') \<Longrightarrow> length fs' < length fs"
  by (auto simp: popFitting_def tryE_eq_Inr split: list.splits if_splits)

lemma GetAppDataFrame_shorter: "GetAppDataFrame q n = Inr (Some f, q') \<Longrightarrow> length (rq_appData q') < length (rq_appData q)"
  by (auto simp: GetAppDataFrame_def tryE_eq_Inr dest: popFitting_shorter)

function appDataLoop :: "ByteCount \<Rightarrow> retransmissionQueue \<Rightarrow> payload \<Rightarrow> go_error + payload \<times> retransmissionQueue" where
  "appDataLoop maxFrameSize q pl =
    (let remainingLen = maxFrameSize - pl_length pl in
     if remainingLen < MinStreamFrameSize then Inr (pl, q)
     else
       tryE (GetAppDataFrame q remainingLen) (\<lambda>(f, q).
       case f of
         None \<Rightarrow> Inr (pl, q)
       | Some f \<Rightarrow>
           tryE (Frame_Length f) (\<lambda>n. appDataLoop maxFrameSize q (pl\<lparr>pl_frames := pl_frames pl @ [f], pl_length := pl_length pl + n\<rparr>))))"
  by pat_completeness auto

termination
  by (relation "measure (\<lambda>(_, q, _). length (rq_appData q))") (auto dest: GetAppDataFrame_shorter)

declare appDataLoop.simps [simp del]

definition composeNextPacket :: "int \<Rightarrow> Time \<Rightarrow> packetPacker \<Rightarrow> ByteCount \<Rightarrow> go_error + payload \<times> packetPacker" where
  "composeNextPacket limit now p maxFrameSize =
    (case handler_GetAckFrame now (pa_acks p) Encryption1RTT of (ack, acks) \<Rightarrow>
     let p = p\<lparr>pa_acks := acks\<rparr> in
     tryE (case ack of None \<Rightarrow> Inr zeroPayload | Some a \<Rightarrow> tryE (AckFrame_Length a) (\<lambda>n. Inr (zeroPayload\<lparr>pl_ack := ack, pl_length := 0 + n\<rparr>))) (\<lambda>pl.
     tryE (appDataLoop maxFrameSize (pa_retransmissionQueue p) pl) (\<lambda>(pl, q).
     tryE (AppendControlFrames (pa_framer p) (pl_frames pl) (maxFrameSize - pl_length pl)) (\<lambda>(frames, lengthAdded, f).
     let pl = pl\<lparr>pl_frames := frames, pl_length := pl_length pl + lengthAdded\<rparr> in
     tryE (AppendStreamFrames sw_get sw_pop limit f (pa_streams p) (pl_frames pl) (maxFrameSize - pl_length pl)) (\<lambda>((frames, lengthAdded), f, w).
     Inr (pl\<lparr>pl_frames := frames, pl_length := pl_length pl + lengthAdded\<rparr>,
          p\<lparr>pa_retransmissionQueue := q, pa_framer := f, pa_streams := w\<rparr>))))))"

definition retransmission :: "EncryptionLevel \<Rightarrow> retransmissionQueue \<Rightarrow> ByteCount \<Rightarrow> go_error + Frame option \<times> retransmissionQueue" where
  "retransmission encLevel q remainingLen =
    (case encLevel of
       EncryptionInitial \<Rightarrow> GetInitialFrame q remainingLen
     | EncryptionHandshake \<Rightarrow> GetHandshakeFrame q remainingLen
     | _ \<Rightarrow> Inr (None, q))"

definition retransmissions :: "retransmissionQueue \<Rightarrow> nat" where
  "retransmissions q = length (initialCryptoData q) + length (rq_initial q) + length (handshakeCryptoData q) + length (rq_handshake q)"

lemma popCrypto_shorter: "popCrypto cs n = Inr (c, cs') \<Longrightarrow> (\<exists>f. c = Some f \<and> length cs' < length cs) \<or> (c = None \<and> cs' = cs)"
  by (auto simp: popCrypto_def tryE_eq_Inr split: list.splits if_splits)

lemma retransmission_shorter:
  assumes "retransmission encLevel q n = Inr (Some f, q')"
  shows "retransmissions q' < retransmissions q"
proof (cases encLevel)
  case EncryptionInitial
  then have "GetInitialFrame q n = Inr (Some f, q')" using assms by (simp add: retransmission_def)
  then obtain c cs where "popCrypto (initialCryptoData q) n = Inr (c, cs)"
    "(case c of Some cf \<Rightarrow> Inr (Some (FCrypto cf), q\<lparr>initialCryptoData := cs\<rparr>)
      | None \<Rightarrow> tryE (popFitting (rq_initial q) n) (\<lambda>(f, fs). Inr (f, q\<lparr>rq_initial := fs\<rparr>))) = Inr (Some f, q')"
    unfolding GetInitialFrame_def tryE_eq_Inr by auto
  with popCrypto_shorter [OF this(1)] show ?thesis by (auto simp: retransmissions_def tryE_eq_Inr) (erule popFitting_shorter)
next
  case EncryptionHandshake
  then have "GetHandshakeFrame q n = Inr (Some f, q')" using assms by (simp add: retransmission_def)
  then obtain c cs where "popCrypto (handshakeCryptoData q) n = Inr (c, cs)"
    "(case c of Some cf \<Rightarrow> Inr (Some (FCrypto cf), q\<lparr>handshakeCryptoData := cs\<rparr>)
      | None \<Rightarrow> tryE (popFitting (rq_handshake q) n) (\<lambda>(f, fs). Inr (f, q\<lparr>rq_handshake := fs\<rparr>))) = Inr (Some f, q')"
    unfolding GetHandshakeFrame_def tryE_eq_Inr by auto
  with popCrypto_shorter [OF this(1)] show ?thesis by (auto simp: retransmissions_def tryE_eq_Inr) (erule popFitting_shorter)
qed (use assms in \<open>simp_all add: retransmission_def\<close>)

function cryptoLoop :: "EncryptionLevel \<Rightarrow> ByteCount \<Rightarrow> retransmissionQueue \<Rightarrow> payload \<Rightarrow> go_error + payload \<times> retransmissionQueue" where
  "cryptoLoop encLevel maxSize q pl =
    tryE (retransmission encLevel q (maxSize - pl_length pl)) (\<lambda>(f, q).
    case f of
      None \<Rightarrow> Inr (pl, q)
    | Some f \<Rightarrow>
        tryE (Frame_Length f) (\<lambda>n. cryptoLoop encLevel maxSize q (pl\<lparr>pl_frames := pl_frames pl @ [f], pl_length := pl_length pl + n\<rparr>)))"
  by pat_completeness auto

termination
  by (relation "measure (\<lambda>(_, _, q, _). retransmissions q)") (auto dest: retransmission_shorter)

declare cryptoLoop.simps [simp del]

definition popCryptoData_into :: "packetPacker \<Rightarrow> EncryptionLevel \<Rightarrow> ByteCount \<Rightarrow> payload \<Rightarrow> go_error + payload \<times> packetPacker" where
  "popCryptoData_into p encLevel maxLen pl =
    (let s = (if encLevel = EncryptionInitial then pa_initialStream p else pa_handshakeStream p) in
     tryE (PopCryptoFrame s maxLen) (\<lambda>(cf, s).
     tryE (CryptoFrame_Length cf) (\<lambda>n.
     Inr (pl\<lparr>pl_frames := [FCrypto cf], pl_length := pl_length pl + n\<rparr>,
          if encLevel = EncryptionInitial then p\<lparr>pa_initialStream := s\<rparr> else p\<lparr>pa_handshakeStream := s\<rparr>))))"

definition packCryptoPacket :: "crypto_lib \<Rightarrow> u16 \<Rightarrow> packetPacker \<Rightarrow> EncryptionLevel \<Rightarrow> sealer \<Rightarrow> bool \<Rightarrow> bool \<Rightarrow> AckFrame option \<Rightarrow>
    go_error + packedPacket option \<times> packetPacker" where
  "packCryptoPacket lib rnd p encLevel s hasData hasRetransmission ack =
    tryE (case ack of None \<Rightarrow> Inr zeroPayload | Some a \<Rightarrow> tryE (AckFrame_Length a) (\<lambda>n. Inr (zeroPayload\<lparr>pl_ack := ack, pl_length := n\<rparr>))) (\<lambda>pl.
    tryE (getLongHeader p encLevel) (\<lambda>hdr.
    tryE (GetLength hdr) (\<lambda>hdrLen.
    let overhead = seal_Overhead p (LongSealer s) in
    tryE
      (if hasRetransmission then
         tryE (cryptoLoop encLevel ((if encLevel = EncryptionInitial then MinInitialPacketSize else pa_maxPacketSize p) - hdrLen - overhead)
           (pa_retransmissionQueue p) pl) (\<lambda>(pl, q). Inr (pl, p\<lparr>pa_retransmissionQueue := q\<rparr>))
       else if hasData then popCryptoData_into p encLevel (pa_maxPacketSize p - hdrLen - overhead - pl_length pl) pl
       else Inr (pl, p)) (\<lambda>(pl, p).
    tryE (writeAndSealPacket lib rnd p hdr pl encLevel (LongSealer s)) (\<lambda>(packet, p). Inr (Some packet, p))))))"

definition keysDropped :: "go_error + sealer \<Rightarrow> bool" where
  "keysDropped r = (case r of Inl e \<Rightarrow> e = ErrKeysDropped | Inr _ \<Rightarrow> False)"

definition maybePackCryptoPacket :: "crypto_lib \<Rightarrow> u16 \<Rightarrow> Time \<Rightarrow> packetPacker \<Rightarrow> go_error + packedPacket option \<times> packetPacker" where
  "maybePackCryptoPacket lib rnd now p =
    (let initial = GetInitialSealer (pa_cryptoSetup p);
         handshake = GetHandshakeSealer (pa_cryptoSetup p);
         p = (if keysDropped initial \<and> keysDropped handshake then p\<lparr>handshakeConfirmed := True\<rparr> else p);
         hasData = HasData (pa_initialStream p);
         hasRetransmission = HasInitialData (pa_retransmissionQueue p);
         (ack, acks) = handler_GetAckFrame now (pa_acks p) EncryptionInitial;
         p = p\<lparr>pa_acks := acks\<rparr>
     in if hasData \<or> hasRetransmission \<or> ack \<noteq> None then
          (case initial of
             Inl _ \<Rightarrow> Inl (Errorf (''PacketPacker BUG: no Initial sealer: %s'', []))
           | Inr s \<Rightarrow> packCryptoPacket lib rnd p EncryptionInitial s hasData hasRetransmission ack)
        else
          let hasData = HasData (pa_handshakeStream p);
              hasRetransmission = HasHandshakeData (pa_retransmissionQueue p);
              (ack, acks) = handler_GetAckFrame now (pa_acks p) EncryptionHandshake;
              p = p\<lparr>pa_acks := acks\<rparr>
          in if hasData \<or> hasRetransmission \<or> ack \<noteq> None then
               (case handshake of
                  Inl _ \<Rightarrow> Inl (Errorf (''PacketPacker BUG: no Handshake sealer: %s'', []))
                | Inr s \<Rightarrow> packCryptoPacket lib rnd p EncryptionHandshake s hasData hasRetransmission ack)
             else Inr (None, p))"

text \<open>A packet that only has an ACK gets a PING when there were many of them.\<close>

definition countAckOnly :: "packetPacker \<Rightarrow> payload \<Rightarrow> go_error + payload \<times> packetPacker" where
  "countAckOnly p pl =
    (if pl_frames pl = [] then
       if numNonAckElicitingAcks p \<ge> MaxNonAckElicitingAcks then
         tryE (Frame_Length (FPing ())) (\<lambda>n.
         Inr (pl\<lparr>pl_frames := pl_frames pl @ [FPing ()], pl_length := pl_length pl + n\<rparr>, p\<lparr>numNonAckElicitingAcks := 0\<rparr>))
       else Inr (pl, p\<lparr>numNonAckElicitingAcks := i64 (numNonAckElicitingAcks p + 1)\<rparr>)
     else Inr (pl, p\<lparr>numNonAckElicitingAcks := 0\<rparr>))"

definition PackPacket :: "crypto_lib \<Rightarrow> int \<Rightarrow> u16 \<Rightarrow> Time \<Rightarrow> packetPacker \<Rightarrow> go_error + packedPacket option \<times> packetPacker" where
  "PackPacket lib limit rnd now p =
    tryE (if \<not> handshakeConfirmed p then maybePackCryptoPacket lib rnd now p else Inr (None, p)) (\<lambda>(packet, p).
    case packet of
      Some _ \<Rightarrow> Inr (packet, p)
    | None \<Rightarrow>
        (case Get1RTTSealer (pa_cryptoSetup p) of
           Inl _ \<Rightarrow> Inr (None, p)
         | Inr _ \<Rightarrow>
             tryE (pa_KeyPhase lib now p) (\<lambda>(kp, p).
             tryE (getShortHeader p kp) (\<lambda>header.
             tryE (GetLength header) (\<lambda>headerLen.
             tryE (composeNextPacket limit now p (pa_maxPacketSize p - seal_Overhead p ShortSealer - headerLen)) (\<lambda>(pl, p).
             if pl_frames pl = [] \<and> pl_ack pl = None then Inr (None, p)
             else
               tryE (countAckOnly p pl) (\<lambda>(pl, p).
               tryE (writeAndSealPacket lib rnd p header pl Encryption1RTT ShortSealer) (\<lambda>(packet, p). Inr (Some packet, p)))))))))"

definition ackFrom :: "Time \<Rightarrow> packetPacker \<Rightarrow> EncryptionLevel \<Rightarrow> AckFrame option \<times> packetPacker" where
  "ackFrom now p encLevel = (case handler_GetAckFrame now (pa_acks p) encLevel of (ack, acks) \<Rightarrow> (ack, p\<lparr>pa_acks := acks\<rparr>))"

definition nextAck :: "Time \<Rightarrow> packetPacker \<Rightarrow> (AckFrame \<times> EncryptionLevel) option \<times> packetPacker" where
  "nextAck now p =
    (let (r, p) =
       (if handshakeConfirmed p then (None, p)
        else
          case ackFrom now p EncryptionInitial of
            (Some ack, p) \<Rightarrow> (Some (ack, EncryptionInitial), p)
          | (None, p) \<Rightarrow>
              (case ackFrom now p EncryptionHandshake of
                 (Some ack, p) \<Rightarrow> (Some (ack, EncryptionHandshake), p)
               | (None, p) \<Rightarrow> (None, p)))
     in case r of
          Some _ \<Rightarrow> (r, p)
        | None \<Rightarrow>
            (case ackFrom now p Encryption1RTT of
               (Some ack, p) \<Rightarrow> (Some (ack, Encryption1RTT), p)
             | (None, p) \<Rightarrow> (None, p)))"

definition MaybePackAckPacket :: "crypto_lib \<Rightarrow> u16 \<Rightarrow> Time \<Rightarrow> packetPacker \<Rightarrow> go_error + packedPacket option \<times> packetPacker" where
  "MaybePackAckPacket lib rnd now p =
    (case nextAck now p of
       (None, p) \<Rightarrow> Inr (None, p)
     | (Some (ack, encLevel), p) \<Rightarrow>
         tryE (AckFrame_Length ack) (\<lambda>n.
         tryE (getSealerAndHeader lib now p encLevel) (\<lambda>((s, hdr), p).
         tryE (writeAndSealPacket lib rnd p hdr (zeroPayload\<lparr>pl_ack := Some ack, pl_length := n\<rparr>) encLevel s) (\<lambda>(packet, p). Inr (Some packet, p)))))"

text \<open>The highest encryption level that is available.\<close>

definition PackConnectionClose :: "crypto_lib \<Rightarrow> u16 \<Rightarrow> Time \<Rightarrow> packetPacker \<Rightarrow> ConnectionCloseFrame \<Rightarrow> go_error + packedPacket \<times> packetPacker" where
  "PackConnectionClose lib rnd now p ccf =
    tryE (ConnectionCloseFrame_Length ccf) (\<lambda>n.
    let pl = zeroPayload\<lparr>pl_frames := [FConnectionClose ccf], pl_length := n\<rparr>;
        encLevel = (case Get1RTTSealer (pa_cryptoSetup p) of
            Inr _ \<Rightarrow> Encryption1RTT
          | Inl _ \<Rightarrow> (case GetHandshakeSealer (pa_cryptoSetup p) of Inr _ \<Rightarrow> EncryptionHandshake | Inl _ \<Rightarrow> EncryptionInitial))
    in tryE (getSealerAndHeader lib now p encLevel) (\<lambda>((s, hdr), p). writeAndSealPacket lib rnd p hdr pl encLevel s))"

section \<open>The unpacker\<close>

record unpackedPacket =
  up_packetNumber :: PacketNumber
  up_hdr :: ExtendedHeader
  up_encryptionLevel :: EncryptionLevel
  up_data :: "byte list"

record packetUnpacker =
  pu_cs :: cryptoSetup
  largestRcvdPacketNumber :: PacketNumber

definition newPacketUnpacker :: "cryptoSetup \<Rightarrow> packetUnpacker" where
  "newPacketUnpacker cs = \<lparr>pu_cs = cs, largestRcvdPacketNumber = 0\<rparr>"

text \<open>\<open>copy(data[i:j], src)\<close>\<close>

definition copyInto :: "byte list \<Rightarrow> nat \<Rightarrow> nat \<Rightarrow> byte list \<Rightarrow> byte list" where
  "copyInto data i j src = (let n = min (j - i) (length src) in take i data @ take n src @ drop (i + n) data)"

text \<open>The header with the error of the reserved bits, and the packet with its header unprotected.\<close>

definition unpack :: "(byte list \<Rightarrow> byte \<Rightarrow> byte list \<Rightarrow> go_error + byte \<times> byte list) \<Rightarrow> PacketNumber \<Rightarrow> Header \<Rightarrow> byte list \<Rightarrow>
    go_error + (ExtendedHeader \<times> go_error option) \<times> byte list" where
  "unpack decryptHeader largestRcvd hdr data =
    (let hdrLen = int64_of (ParsedLen hdr) in
     if int (length data) < i64 (i64 (hdrLen + 4) + 16) then
       Inl (Errorf (''Packet too small. Expected at least 20 bytes after the header, got %d'', [i64 (int (length data) - hdrLen)]))
     else if hdrLen < 0 then Inl (Panic (''slice bounds out of range [%d:]'', [hdrLen]))
     else
       let n = nat hdrLen;
           origPNBytes = take 4 (drop n data)
       in tryE (decryptHeader (take 16 (drop (n + 4) data)) (data ! 0) origPNBytes) (\<lambda>(b0, pnBytes).
          let data = (copyInto data n (n + 4) pnBytes)[0 := b0] in
          tryE (ParseExtended hdr data) (\<lambda>((extHdr, parseErr), _).
          tryE (if eh_PacketNumberLen extHdr \<noteq> 4 then
                  tryE (GetLength extHdr) (\<lambda>l.
                  if l > word_of_nat (n + 4) then Inl (Panic (''slice bounds out of range [%d:%d]'', [uint l, int (n + 4)]))
                  else Inr (copyInto data (unat l) (n + 4) (drop (unat (eh_PacketNumberLen extHdr)) origPNBytes)))
                else Inr data) (\<lambda>data.
          Inr ((extHdr\<lparr>eh_PacketNumber := DecodePacketNumber (eh_PacketNumberLen extHdr) largestRcvd (eh_PacketNumber extHdr)\<rparr>, parseErr), data)))))"

definition splitHeader :: "ExtendedHeader \<Rightarrow> byte list \<Rightarrow> go_error + byte list \<times> byte list" where
  "splitHeader extHdr data =
    tryE (GetLength extHdr) (\<lambda>extHdrLen.
    if word_of_nat (length data) < extHdrLen then Inl (Panic (''slice bounds out of range [%d:%d]'', [uint extHdrLen, int (length data)]))
    else Inr (take (unat extHdrLen) data, drop (unat extHdrLen) data))"

definition unpackLongHeaderPacket :: "crypto_lib \<Rightarrow> packetUnpacker \<Rightarrow> longHeaderOpener \<Rightarrow> Header \<Rightarrow> byte list \<Rightarrow> go_error + ExtendedHeader \<times> byte list" where
  "unpackLongHeaderPacket lib u opener hdr data =
    (case unpack (DecryptHeader lib (lo_headerProtector opener)) (largestRcvdPacketNumber u) hdr data of
       Inl e \<Rightarrow> (case e of Panic _ \<Rightarrow> Inl e | _ \<Rightarrow> Inl (Errorf (''error parsing extended header: %s'', [])))
     | Inr ((extHdr, parseErr), data) \<Rightarrow>
         tryE (splitHeader extHdr data) (\<lambda>(ad, src).
         tryE (lo_Open opener src (eh_PacketNumber extHdr) ad) (\<lambda>decrypted.
         case parseErr of Some e \<Rightarrow> Inl e | None \<Rightarrow> Inr (extHdr, decrypted))))"

text \<open>The opener changes also when the packet is not opened.\<close>

definition unpackShortHeaderPacket :: "crypto_lib \<Rightarrow> packetUnpacker \<Rightarrow> Header \<Rightarrow> Time \<Rightarrow> byte list \<Rightarrow>
    (go_error + ExtendedHeader \<times> byte list) \<times> packetUnpacker" where
  "unpackShortHeaderPacket lib u hdr rcvTime data =
    (case unpack (u_DecryptHeader lib (cs_aead (pu_cs u))) (largestRcvdPacketNumber u) hdr data of
       Inl e \<Rightarrow> (Inl e, u)
     | Inr ((extHdr, parseErr), data) \<Rightarrow>
         (case splitHeader extHdr data of
            Inl e \<Rightarrow> (Inl e, u)
          | Inr (ad, src) \<Rightarrow>
              (case u_Open lib src rcvTime (eh_PacketNumber extHdr) (KeyPhase extHdr) ad (cs_aead (pu_cs u)) of (r, a) \<Rightarrow>
               (tryE r (\<lambda>decrypted. case parseErr of Some e \<Rightarrow> Inl e | None \<Rightarrow> Inr (extHdr, decrypted)),
                u\<lparr>pu_cs := (pu_cs u)\<lparr>cs_aead := a\<rparr>\<rparr>))))"

definition unpacked :: "packetUnpacker \<Rightarrow> EncryptionLevel \<Rightarrow> go_error + ExtendedHeader \<times> byte list \<Rightarrow> (go_error + unpackedPacket) \<times> packetUnpacker" where
  "unpacked u encLevel r =
    (case r of
       Inl e \<Rightarrow> (Inl e, u)
     | Inr (extHdr, decrypted) \<Rightarrow>
         (Inr \<lparr>up_packetNumber = eh_PacketNumber extHdr, up_hdr = extHdr, up_encryptionLevel = encLevel, up_data = decrypted\<rparr>,
          u\<lparr>largestRcvdPacketNumber := MaxPacketNumber (largestRcvdPacketNumber u) (eh_PacketNumber extHdr)\<rparr>))"

definition Unpack :: "crypto_lib \<Rightarrow> packetUnpacker \<Rightarrow> Header \<Rightarrow> Time \<Rightarrow> byte list \<Rightarrow> (go_error + unpackedPacket) \<times> packetUnpacker" where
  "Unpack lib u hdr rcvTime data =
    (case h_Type hdr of
       PacketTypeInitial \<Rightarrow>
         unpacked u EncryptionInitial (tryE (GetInitialOpener (pu_cs u)) (\<lambda>opener. unpackLongHeaderPacket lib u opener hdr data))
     | PacketTypeHandshake \<Rightarrow>
         unpacked u EncryptionHandshake (tryE (GetHandshakeOpener (pu_cs u)) (\<lambda>opener. unpackLongHeaderPacket lib u opener hdr data))
     | t \<Rightarrow>
         if IsLongHeader hdr then (Inl (Errorf (''unknown packet type: '' @ fst (PacketType_String t), snd (PacketType_String t))), u)
         else
           (case Get1RTTOpener (pu_cs u) of
              Inl e \<Rightarrow> (Inl e, u)
            | Inr _ \<Rightarrow> (case unpackShortHeaderPacket lib u hdr rcvTime data of (r, u) \<Rightarrow> unpacked u Encryption1RTT r)))"

section \<open>Header protection is undone\<close>

lemma byte_xor_mask: "((f :: byte) XOR (m AND k)) AND c = (f AND c) XOR (m AND (k AND c))"
  by (rule bit_word_eqI) (auto simp: bit_simps)

lemma hp_apply_eq:
  assumes "hp_mask lib p sample = Inr ms" and "length hdrBytes < length ms"
  shows "hp_apply lib p sample f hdrBytes = Inr (f XOR (ms ! 0 AND (if hp_isLongHeader p then 0xf else 0x1f)), map2 (XOR) hdrBytes (drop 1 ms))"
  using assms by (simp add: hp_apply_def)

lemma map2_xor_xor:
  "length a \<le> length m \<Longrightarrow> map2 (XOR) (map2 (XOR) a m) m = (a :: byte list)"
  by (induction a m rule: list_induct2') (simp_all add: xor.assoc)

text \<open>The receiver applies the mask to four bytes, of which the first are the packet number.\<close>

lemma hp_apply_undo:
  assumes "hp_mask lib p sample = Inr ms" and "4 < length ms" and "length pnb + length x \<le> 4" and "hp_apply lib p sample f pnb = Inr (f', pnb')"
  shows "hp_apply lib p sample f' (pnb' @ x) = Inr (f, pnb @ map2 (XOR) x (drop (1 + length pnb) ms))"
    and "length pnb' = length pnb" and "f' = f XOR (ms ! 0 AND (if hp_isLongHeader p then 0xf else 0x1f))"
proof -
  have e: "f' = f XOR (ms ! 0 AND (if hp_isLongHeader p then 0xf else 0x1f))" "pnb' = map2 (XOR) pnb (drop 1 ms)"
    using assms hp_apply_eq [OF assms(1), of pnb f] by simp_all
  then show l: "length pnb' = length pnb" and "f' = f XOR (ms ! 0 AND (if hp_isLongHeader p then 0xf else 0x1f))" using assms(2,3) by simp_all
  have "map2 (XOR) (pnb' @ x) (drop 1 ms) =
      map2 (XOR) pnb' (take (length pnb) (drop 1 ms)) @ map2 (XOR) x (drop (length pnb) (drop 1 ms))"
    using l by (simp add: zip_append1)
  moreover have "map2 (XOR) pnb (drop 1 ms) = map2 (XOR) pnb (take (length pnb) (drop 1 ms))"
    using zip_append1 [of pnb "[]" "drop 1 ms"] by simp
  then have "map2 (XOR) pnb' (take (length pnb) (drop 1 ms)) = pnb"
    unfolding e(2) using assms(2,3) by (simp add: map2_xor_xor)
  ultimately show "hp_apply lib p sample f' (pnb' @ x) = Inr (f, pnb @ map2 (XOR) x (drop (1 + length pnb) ms))"
    using hp_apply_eq [OF assms(1), of "pnb' @ x" f'] assms(2,3) l e(1) by (simp add: xor.assoc)
qed

lemma protected_long_bits:
  assumes "f' = f XOR (m AND 0xf)"
  shows "f' AND 0x80 = f AND 0x80" "f' AND 0x40 = f AND 0x40" "longHeaderType f' = longHeaderType f"
  unfolding assms longHeaderType_def byte_xor_mask by simp_all

lemma protected_short_bits:
  fixes f :: byte
  assumes "f' = f XOR (m AND 0x1f)"
  shows "f' AND 0x80 = f AND 0x80" "f' AND 0x40 = f AND 0x40"
  unfolding assms byte_xor_mask by simp_all

lemma header_first:
  assumes "wf_ExtendedHeader h"
  obtains f pre where "header_prefix h = f # pre" "(f AND 0x3) + 1 = eh_PacketNumberLen h" "f AND (if IsLongHeader h then 0xc else 0x18) = 0"
    "(\<not> IsLongHeader h \<and> f AND 0x4 > 0) = KeyPhase h" "f AND 0x40 \<noteq> 0" "f AND 0x80 > 0 \<longleftrightarrow> IsLongHeader h" "IsLongHeader h \<Longrightarrow> longHeaderType f = h_Type h"
    "\<not> IsLongHeader h \<Longrightarrow> pre = DestConnectionID h"
proof (cases "IsLongHeader h")
  case True
  then have "eh_PacketNumberLen h \<in> {1, 2, 3, 4}" "h_Type h \<in> {PacketTypeInitial, PacketTypeHandshake, PacketType0RTT}" "\<not> KeyPhase h"
    using assms by (simp_all add: wf_ExtendedHeader_def KeyPhaseZero_def)
  then show thesis using that True long_first_byte [of "eh_PacketNumberLen h" "h_Type h"] by (simp add: header_prefix_def long_prefix_def Let_def)
next
  case False
  then have "eh_PacketNumberLen h \<in> {1, 2, 3, 4}" using assms by (simp add: wf_ExtendedHeader_def)
  from short_first_byte [OF this, of "KeyPhase h"] show thesis using that False by (simp add: header_prefix_def short_prefix_def Let_def)
qed

text \<open>The header as the invariant parser leaves it.\<close>

definition parsed_as :: "Header \<Rightarrow> ExtendedHeader \<Rightarrow> bool" where
  "parsed_as hdr h \<longleftrightarrow> IsLongHeader hdr = IsLongHeader h \<and> h_Type hdr = h_Type h \<and> h_Length hdr = h_Length h \<and> h_Token hdr = h_Token h \<and>
    DestConnectionID hdr = DestConnectionID h \<and> SrcConnectionID hdr = SrcConnectionID h \<and> ParsedLen hdr = word_of_nat (length (header_prefix h))"

lemma GetLength_cong:
  "IsLongHeader a = IsLongHeader b \<Longrightarrow> h_Type a = h_Type b \<Longrightarrow> h_Length a = h_Length b \<Longrightarrow> h_Token a = h_Token b \<Longrightarrow> DestConnectionID a = DestConnectionID b \<Longrightarrow>
    SrcConnectionID a = SrcConnectionID b \<Longrightarrow> eh_PacketNumberLen a = eh_PacketNumberLen b \<Longrightarrow> GetLength a = GetLength b"
  by (simp add: GetLength_def cong: if_cong)

lemma GetLength_parsed:
  assumes "wf_ExtendedHeader h" and "parsed_as hdr h"
  shows "GetLength ((toExtendedHeader hdr)\<lparr>eh_typeByte := f, KeyPhase := kp, eh_PacketNumberLen := eh_PacketNumberLen h, eh_PacketNumber := pn\<rparr>) =
    Inr (word_of_nat (length (header_prefix h) + unat (eh_PacketNumberLen h)))"
  unfolding GetLength_bytes [OF assms(1), symmetric]
  by (rule GetLength_cong) (use assms(2) in \<open>simp_all add: parsed_as_def toExtendedHeader_def Header.defs\<close>)

lemma unpack_protected:
  assumes wf: "wf_ExtendedHeader h" and parsed: "parsed_as hdr h"
    and pnb: "pnb = pn_bytes (eh_PacketNumberLen h) (eh_PacketNumber h)" and f: "f = hd (header_prefix h)"
    and mask: "hp_mask lib hp (take 16 (drop (4 - length pnb) sealed)) = Inr ms" "4 < length ms"
    and enc: "hp_apply lib hp (take 16 (drop (4 - length pnb) sealed)) f pnb = Inr (f', pnb')"
    and len: "20 \<le> length pnb + length sealed" "length (header_prefix h) + length pnb + length sealed < 2 ^ 61"
    and pn: "0 \<le> eh_PacketNumber h" "eh_PacketNumber h < 2 ^ 62" "-1 \<le> lst" "lst < 2 ^ 62"
      "2 * \<bar>eh_PacketNumber h - (lst + 1)\<bar> < 2 ^ (8 * unat (eh_PacketNumberLen h))"
  shows "unpack (hp_apply lib hp) lst hdr (f' # tl (header_prefix h) @ pnb' @ sealed) =
    Inr (((toExtendedHeader hdr)\<lparr>eh_typeByte := f, KeyPhase := KeyPhase h, eh_PacketNumberLen := eh_PacketNumberLen h, eh_PacketNumber := eh_PacketNumber h\<rparr>, None),
      header_prefix h @ pnb @ sealed)"
proof -
  define l where "l = eh_PacketNumberLen h"
  define n where "n = length (header_prefix h)"
  obtain pre where pre: "header_prefix h = f # pre" "(f AND 0x3) + 1 = l" "f AND (if IsLongHeader h then 0xc else 0x18) = 0"
    "(\<not> IsLongHeader h \<and> f AND 0x4 > 0) = KeyPhase h" using header_first [OF wf] f unfolding l_def by (metis list.sel(1))
  have l: "l \<in> {1, 2, 3, 4}" using wf by (simp add: wf_ExtendedHeader_def l_def)
  then have pnl: "length pnb = unat l" "1 \<le> length pnb" "length pnb \<le> 4" using length_pn_bytes [OF l] by (auto simp: pnb l_def)
  have n: "n = Suc (length pre)" by (simp add: n_def pre(1))
  define x where "x = take (4 - length pnb) sealed"
  have x: "length x = 4 - length pnb" "x @ drop (4 - length pnb) sealed = sealed" using len(1) pnl by (simp_all add: x_def)
  define y where "y = map2 (XOR) x (drop (1 + length pnb) ms)"
  have dec: "hp_apply lib hp (take 16 (drop (4 - length pnb) sealed)) f' (pnb' @ x) = Inr (f, pnb @ y)" and pnb': "length pnb' = length pnb"
    using hp_apply_undo [OF mask _ enc, of x] x(1) pnl by (simp_all add: y_def)
  have y: "length y = 4 - length pnb" using x(1) mask(2) pnl by (simp add: y_def)
  define data where "data = f' # pre @ pnb' @ sealed"
  have hl: "int64_of (ParsedLen hdr) = int n" using parsed len by (simp add: parsed_as_def n_def int64_of_small unat_word_of_nat_id)
  have small: "\<not> int (length data) < i64 (i64 (int n + 4) + 16)" "\<not> int n < 0" using len pnb' n by (simp_all add: data_def n_def pre(1))
  have "drop (n + 4) ((f' # pre @ pnb') @ sealed) = drop (4 - length pnb) sealed" using pnl pnb' by (simp only: drop_append) (simp add: n)
  then have dr: "drop (n + 4) data = drop (4 - length pnb) sealed" by (simp add: data_def)
  have orig: "take 4 (drop n data) = pnb' @ x" "take 16 (drop (n + 4) data) = take 16 (drop (4 - length pnb) sealed)" "data ! 0 = f'"
    unfolding dr using pnl pnb' by (simp_all add: data_def n x_def)
  have data1: "(copyInto data n (n + 4) (pnb @ y))[0 := f] = (f # pre) @ pnb @ y @ drop (4 - length pnb) sealed"
    using pnl pnb' y by (simp add: copyInto_def data_def n Let_def)
  have pe: "ParseExtended hdr ((f # pre) @ pnb @ y @ drop (4 - length pnb) sealed) =
      Inr (((toExtendedHeader hdr)\<lparr>eh_typeByte := f, KeyPhase := KeyPhase h, eh_PacketNumberLen := l, eh_PacketNumber := eh_PacketNumber h mod 2 ^ (8 * unat l)\<rparr>, None),
        y @ drop (4 - length pnb) sealed)"
    using ParseExtended_bytes [OF l, of hdr pre f "eh_PacketNumber h" "y @ drop (4 - length pnb) sealed"] parsed pre len(2) unfolding pnb l_def [symmetric]
    by (simp add: parsed_as_def)
  have fix_up: "copyInto ((f # pre) @ pnb @ y @ drop (4 - length pnb) sealed) (n + unat l) (n + 4) (drop (unat l) (pnb' @ x)) = (f # pre) @ pnb @ sealed"
    using pnl pnb' x y by (simp add: copyInto_def Let_def n)
  have full: "(f # pre) @ pnb @ y @ drop (4 - length pnb) sealed = (f # pre) @ pnb @ sealed" if "l = 4"
  proof -
    have "length pnb = 4" using that pnl by simp
    then have "y = []" using y by simp
    then show ?thesis using \<open>length pnb = 4\<close> by simp
  qed
  have gl: "GetLength ((toExtendedHeader hdr)\<lparr>eh_typeByte := f, KeyPhase := KeyPhase h, eh_PacketNumberLen := l, eh_PacketNumber := q\<rparr>) = Inr (word_of_nat (n + unat l))" for q
    using GetLength_parsed [OF wf parsed] by (simp add: n_def l_def)
  have un: "unat (word_of_nat (n + unat l) :: u64) = n + unat l" "unat (word_of_nat (n + 4) :: u64) = n + 4"
    using len pnl by (intro unat_word_of_nat_id; simp add: n_def)+
  then have le: "\<not> (word_of_nat (n + unat l) :: u64) > word_of_nat (n + 4)" using pnl by (simp only: word_less_nat_alt)
  have d: "DecodePacketNumber l lst (eh_PacketNumber h mod 2 ^ (8 * unat l)) = eh_PacketNumber h"
    using DecodePacketNumber_near [OF l refl pn(3,4,1,2)] pn(5) by (simp add: l_def)
  have "unpack (hp_apply lib hp) lst hdr data =
      Inr (((toExtendedHeader hdr)\<lparr>eh_typeByte := f, KeyPhase := KeyPhase h, eh_PacketNumberLen := l, eh_PacketNumber := eh_PacketNumber h\<rparr>, None), (f # pre) @ pnb @ sealed)"
    using small full unfolding unpack_def Let_def hl nat_int orig
    by (simp add: dec data1 pe gl le un d fix_up del: of_nat_add append.simps(2) drop_append)
  then show ?thesis by (simp add: data_def pre(1) l_def)
qed

lemma ParsePacket_protected:
  assumes wf: "wf_ExtendedHeader h" and f: "f = hd (header_prefix h)" "f' = f XOR (m AND (if IsLongHeader h then 0xf else 0x1f))"
    and pnb: "length pnb = unat (eh_PacketNumberLen h)"
    and len: "if IsLongHeader h then unat (h_Length h) = length pnb + length sealed else rest = []"
    and small: "length (header_prefix h) + length pnb + length sealed + length rest < 2 ^ 61"
  shows "\<exists>hdr. ParsePacket ((f' # tl (header_prefix h) @ pnb @ sealed) @ rest) (length (DestConnectionID h)) =
      Inr (hdr, f' # tl (header_prefix h) @ pnb @ sealed, rest) \<and> parsed_as hdr h"
proof -
  obtain pre where pre: "header_prefix h = f # pre" "f AND 0x40 \<noteq> 0" "f AND 0x80 > 0 \<longleftrightarrow> IsLongHeader h" "IsLongHeader h \<Longrightarrow> longHeaderType f = h_Type h"
    "\<not> IsLongHeader h \<Longrightarrow> pre = DestConnectionID h" using header_first [OF wf] f(1) by (metis list.sel(1))
  show ?thesis
  proof (cases "IsLongHeader h")
    case True
    note bits = protected_long_bits [of f' f m] 
    have b: "f' AND 0x80 > 0" "f' AND 0x40 \<noteq> 0" "longHeaderType f' = h_Type h" using bits f(2) pre True by simp_all
    obtain hdr where hdr: "parseHeader (f' # tl (header_prefix h) @ pnb @ sealed @ rest) (length (DestConnectionID h)) = Inr (hdr, pnb @ sealed @ rest)"
      and eq: "hdr = \<lparr>IsLongHeader = True, h_typeByte = f', h_Type = h_Type h, h_Version = h_Version h, SrcConnectionID = SrcConnectionID h,
        DestConnectionID = DestConnectionID h, h_Length = h_Length h, h_Token = h_Token h, h_SupportedVersions = [], OrigDestConnectionID = [],
        parsedLen = word_of_nat (length (header_prefix h))\<rparr>"
      using parseHeader_long_byte [OF wf True _ b, of "pnb @ sealed @ rest"] small by auto
    have "h_Length h = word_of_nat (unat (h_Length h))" by simp
    also have "unat (h_Length h) = length pnb + length sealed" using len True by simp
    finally have "h_Length h = word_of_nat (length pnb + length sealed)" .
    then have "ParsedLen hdr + h_Length hdr = word_of_nat (length (f' # pre @ pnb @ sealed))" by (simp add: eq ParsedLen_def pre(1))
    then show ?thesis using ParsePacket_long [OF hdr, of "f' # pre @ pnb @ sealed" rest] small True by (simp add: eq parsed_as_def ParsedLen_def pre(1))
  next
    case False
    have b: "\<not> f' AND 0x80 > 0" "f' AND 0x40 \<noteq> 0" using protected_short_bits [of f' f m] f(2) pre False by simp_all
    have "h_Type h = PacketTypeNone" "SrcConnectionID h = []" "h_Length h = 0" "h_Token h = []" using wf False by (simp_all add: wf_ExtendedHeader_def)
    then show ?thesis using parseHeader_short_byte [OF b, of "DestConnectionID h" "pnb @ sealed"] False len pre(1,5)
      by (simp add: ParsePacket_def parsed_as_def zeroHeader_def ParsedLen_def)
  qed
qed

section \<open>The payload\<close>

lemma writeFrames_append: "FrameParser.writeFrames (xs @ ys) b = tryE (FrameParser.writeFrames xs b) (FrameParser.writeFrames ys)"
  by (induction xs arbitrary: b) (auto simp: tryE_assoc intro!: tryE_cong)

lemma tryE_return: "tryE m Inr = m"
  by (cases m) simp_all

lemma writeAllFrames_eq: "writeAllFrames b fs = FrameParser.writeFrames (map (Pair 0) fs) b"
  by (induction fs arbitrary: b) simp_all

text \<open>The frames of a payload, with the padding in front of the first one that is no ACK.\<close>

definition payload_frames :: "payload \<Rightarrow> Frame list" where
  "payload_frames pl = (case pl_ack pl of None \<Rightarrow> [] | Some a \<Rightarrow> [FAck a]) @ pl_frames pl"

definition padded_frames :: "payload \<Rightarrow> nat \<Rightarrow> (nat \<times> Frame) list" where
  "padded_frames pl n = (case pl_ack pl of None \<Rightarrow> [] | Some a \<Rightarrow> [(0, FAck a)]) @ (case pl_frames pl of [] \<Rightarrow> [] | f # fs \<Rightarrow> (n, f) # map (Pair 0) fs)"

definition wf_payload :: "payload \<Rightarrow> EncryptionLevel \<Rightarrow> bool" where
  "wf_payload pl encLevel \<longleftrightarrow> (\<forall>f \<in> set (payload_frames pl). wf_Frame f \<and> isAllowedAtEncLevel f encLevel)"

lemma padded_frames_snd: "map snd (padded_frames pl n) = payload_frames pl"
  by (simp add: padded_frames_def payload_frames_def o_def split: option.splits list.splits)

lemma payload_written:
  "tryE (case pl_ack pl of None \<Rightarrow> Inr b | Some ack \<Rightarrow> AckFrame_Write b ack) (\<lambda>b. writeAllFrames (b @ replicate n 0) (pl_frames pl)) =
    tryE (FrameParser.writeFrames (padded_frames pl n) b) (\<lambda>b. Inr (b @ replicate (if pl_frames pl = [] then n else 0) 0))"
proof -
  have a: "(case pl_ack pl of None \<Rightarrow> Inr b | Some ack \<Rightarrow> AckFrame_Write b ack) = FrameParser.writeFrames (case pl_ack pl of None \<Rightarrow> [] | Some a \<Rightarrow> [(0, FAck a)]) b"
    by (cases "pl_ack pl"; cases "AckFrame_Write b (the (pl_ack pl))") simp_all
  have f: "writeAllFrames (b @ replicate n 0) fs = tryE (FrameParser.writeFrames (case fs of [] \<Rightarrow> [] | f # fs \<Rightarrow> (n, f) # map (Pair 0) fs) b)
      (\<lambda>b. Inr (b @ replicate (if fs = [] then n else 0) 0))" for b fs
    by (cases fs) (simp_all add: writeAllFrames_eq tryE_return)
  show ?thesis unfolding padded_frames_def writeFrames_append a f tryE_assoc ..
qed

lemma writePadding_Inr: "writePadding b n = Inr b' \<Longrightarrow> b' = b @ replicate (unat n) 0"
  by (auto simp: writePadding_def word_gt_0 split: if_splits)

lemma tryE_padding:
  "tryE (tryE m (\<lambda>b. writePadding b n)) g = Inr r \<Longrightarrow> tryE m (\<lambda>b. g (b @ replicate (unat n) 0)) = Inr r"
  by (auto simp: tryE_eq_Inr dest: writePadding_Inr)

text \<open>What is written behind the header is handled by the receiver, frame by frame.\<close>

lemma writePacket_body:
  assumes "wf_ExtendedHeader h" and "wf_payload pl encLevel" and "fp_ackDelayExponent fp = 3" and "writePacket p h pl n = Inr r"
  obtains body where "r = ((header_prefix h @ pn_bytes (eh_PacketNumberLen h) (eh_PacketNumber h)) @ body,
      length (header_prefix h @ pn_bytes (eh_PacketNumberLen h) (eh_PacketNumber h)))"
    "word_of_nat (length body) = pl_length pl + n" "unat n \<le> length body"
    "\<And>alert hd s e. handleFrames alert fp encLevel hd s e body = tryE (foldE hd s (payload_frames pl)) (\<lambda>s. Inr (s, e \<or> HasAckElicitingFrames (payload_frames pl)))"
proof -
  define hb where "hb = header_prefix h @ pn_bytes (eh_PacketNumberLen h) (eh_PacketNumber h)"
  define k where "k = (if pl_frames pl = [] then unat n else 0)"
  have hb: "ExtendedHeader_Write [] h = Inr hb" using Write_header [OF assms(1)] by (simp add: hb_def)
  have ok: "wf_Frame f \<and> isAllowedAtEncLevel f encLevel" if "(i, f) \<in> set (padded_frames pl (unat n))" for i f
  proof -
    have "f \<in> set (payload_frames pl)" using that unfolding padded_frames_snd [of pl "unat n", symmetric] by force
    then show ?thesis using assms(2) by (simp add: wf_payload_def)
  qed
  have ex: "\<exists>bs. (\<forall>b. FrameParser.writeFrames (padded_frames pl (unat n)) b = Inr (b @ bs)) \<and>
    (\<forall>s e. handleFrames alert fp encLevel g s e (bs @ replicate k 0) =
      tryE (foldE g s (payload_frames pl)) (\<lambda>s. Inr (s, e \<or> HasAckElicitingFrames (payload_frames pl))))" for alert and g :: "'x \<Rightarrow> Frame \<Rightarrow> go_error + 'x"
    using handleFrames_writeFrames [OF _ assms(3), of "padded_frames pl (unat n)" encLevel alert g k] ok unfolding padded_frames_snd by blast
  obtain bs where bs: "\<And>b. FrameParser.writeFrames (padded_frames pl (unat n)) b = Inr (b @ bs)" using ex by blast
  have hf: "handleFrames alert fp encLevel g s e (bs @ replicate k 0) = tryE (foldE g s (payload_frames pl)) (\<lambda>s. Inr (s, e \<or> HasAckElicitingFrames (payload_frames pl)))"
    for alert and g :: "'x \<Rightarrow> Frame \<Rightarrow> go_error + 'x" and s e using ex [of alert g] bs by auto
  obtain b1 b2 b3 where b: "(case pl_ack pl of None \<Rightarrow> Inr hb | Some ack \<Rightarrow> AckFrame_Write hb ack) = Inr b1" "writePadding b1 n = Inr b2"
    "writeAllFrames b2 (pl_frames pl) = Inr b3" "word_of_nat (length b3 - length hb) - n = pl_length pl" "r = (b3, length hb)"
    using assms(4) by (auto simp: writePacket_def hb Let_def tryE_eq_Inr split: if_splits)
  have "Inr b3 = tryE (FrameParser.writeFrames (padded_frames pl (unat n)) hb) (\<lambda>b. Inr (b @ replicate k 0))"
    using payload_written [of hb pl "unat n"] b(1,3) writePadding_Inr [OF b(2)] by (simp add: k_def)
  then have b3: "b3 = hb @ (bs @ replicate k 0)" by (simp add: bs)
  moreover have "word_of_nat (length (bs @ replicate k 0)) = pl_length pl + n" using b(4) unfolding b3 by (metis diff_add_inverse diff_add_cancel length_append)
  moreover have "unat n \<le> length (bs @ replicate k 0)"
  proof -
    have "\<exists>x. FrameParser.writeFrames (map (Pair 0) fs) b = Inr (b @ x)" if "set fs \<subseteq> set (payload_frames pl)" for fs b
      using handleFrames_writeFrames [OF _ assms(3), of "map (Pair 0) fs" encLevel alert "\<lambda>s f. Inr s" 0] that assms(2) unfolding wf_payload_def by auto
    note wr = this
    obtain x where x: "b1 = hb @ x" using wr [of "case pl_ack pl of None \<Rightarrow> [] | Some a \<Rightarrow> [FAck a]" hb] b(1)
      by (cases "pl_ack pl") (auto simp: payload_frames_def tryE_eq_Inr)
    obtain y where "b3 = b2 @ y" using wr [of "pl_frames pl" b2] b(3) by (auto simp: payload_frames_def writeAllFrames_eq)
    then have "hb @ (bs @ replicate k 0) = hb @ (x @ replicate (unat n) 0 @ y)" using b3 x writePadding_Inr [OF b(2)] by simp
    then have "bs @ replicate k 0 = x @ replicate (unat n) 0 @ y" unfolding same_append_eq .
    then show ?thesis by simp
  qed
  ultimately show thesis using that [of "bs @ replicate k 0"] b(5) hf unfolding hb_def [symmetric] by blast
qed

section \<open>Sealed packets\<close>

definition hp_law :: "crypto_lib \<Rightarrow> headerProtector \<Rightarrow> bool" where
  "hp_law lib hp \<longleftrightarrow> (\<forall>sample. length sample = 16 \<longrightarrow> (\<exists>ms. hp_mask lib hp sample = Inr ms \<and> 4 < length ms))"

text \<open>The receiver has the keys the sealer uses. For short headers, both are in the same key phase, the one in the header.\<close>

definition peer_keys :: "crypto_lib \<Rightarrow> packetPacker \<Rightarrow> sealerI \<Rightarrow> ExtendedHeader \<Rightarrow> EncryptionLevel \<Rightarrow> packetUnpacker \<Rightarrow> bool" where
  "peer_keys lib p s h encLevel u \<longleftrightarrow>
    (case s of
       LongSealer sl \<Rightarrow> IsLongHeader h \<and>
         (\<exists>lo. (encLevel = EncryptionInitial \<and> h_Type h = PacketTypeInitial \<and> initialOpener (pu_cs u) = Some lo \<or>
                encLevel = EncryptionHandshake \<and> h_Type h = PacketTypeHandshake \<and> handshakeOpener (pu_cs u) = Some lo) \<and>
               lo_aead lo = sl_aead sl \<and> lo_headerProtector lo = sl_headerProtector sl \<and> lo_nonceBuf lo = sl_nonceBuf sl) \<and>
         aead_law (sl_aead sl) \<and> c_Overhead (sl_aead sl) = 16 \<and> hp_law lib (sl_headerProtector sl) \<and> hp_isLongHeader (sl_headerProtector sl)
     | ShortSealer \<Rightarrow> \<not> IsLongHeader h \<and> encLevel = Encryption1RTT \<and> has1RTTOpener (pu_cs u) \<and>
         KeyPhase h = KeyPhase_Bit (keyPhase (cs_aead (pa_cryptoSetup p))) \<and>
         (\<exists>suite rs sec ss n. keys_at lib suite rs sec n (cs_aead (pa_cryptoSetup p)) \<and> keys_at lib suite sec ss n (cs_aead (pu_cs u)) \<and>
            aead_law (key_at lib suite sec n) \<and> c_Overhead (key_at lib suite sec n) = 16) \<and>
         u_Overhead (cs_aead (pa_cryptoSetup p)) = 16 \<and> u_nonceBuf (cs_aead (pu_cs u)) = u_nonceBuf (cs_aead (pa_cryptoSetup p)) \<and>
         (\<exists>hp. headerEncrypter (cs_aead (pa_cryptoSetup p)) = Some hp \<and> headerDecrypter (cs_aead (pu_cs u)) = Some hp \<and> hp_law lib hp \<and> \<not> hp_isLongHeader hp))"

lemma protectHeader_Inr:
  assumes "protectHeader lib p s (length (f # pre)) (length (f # pre) + length pnb) ((f # pre) @ pnb @ sealed) = Inr raw" and "length pnb \<le> 4"
  obtains f' pnb' where "20 \<le> length pnb + length sealed" "seal_EncryptHeader lib p s (take 16 (drop (4 - length pnb) sealed)) f pnb = Inr (f', pnb')"
    "raw = f' # pre @ pnb' @ sealed"
proof -
  have "drop (length (f # pre) + 4) ((f # pre @ pnb) @ sealed) = drop (4 - length pnb) sealed" using assms(2) by (simp only: drop_append) simp
  then have "drop (length (f # pre) + 4) ((f # pre) @ pnb @ sealed) = drop (4 - length pnb) sealed" by simp
  then show thesis using assms(1) that unfolding protectHeader_def by (auto simp: tryE_eq_Inr split: if_splits)
qed

lemma seal_peer:
  assumes "peer_keys lib p s h encLevel u" and "seal_Seal p s src pn ad = Inr (sealed, p')"
  shows "length sealed = length src + 16" and "seal_Overhead p' s = 16"
  using assms by (auto simp: peer_keys_def seal_Seal_def seal_Overhead_def sl_Overhead_def u_Overhead_def tryE_eq_Inr sl_Seal_def u_Seal_def Let_def needAEAD_def
      keys_at_def aead_law_def split: sealerI.splits)

lemma Unpack_long:
  assumes "peer_keys lib p (LongSealer sl) h encLevel u" and "parsed_as hdr h"
    and "\<And>hp. hp = sl_headerProtector sl \<Longrightarrow> unpack (hp_apply lib hp) (largestRcvdPacketNumber u) hdr data = Inr ((ext, None), ad @ sealed)"
    and "GetLength ext = Inr (word_of_nat (length ad))" and "length ad + length sealed < 2 ^ 61" and "sl_Seal sl src (eh_PacketNumber ext) ad = Inr sealed"
  shows "\<exists>up u'. Unpack lib u hdr t data = (Inr up, u') \<and> up_packetNumber up = eh_PacketNumber ext \<and> up_encryptionLevel up = encLevel \<and> up_data up = src"
proof -
  obtain lo where lo: "encLevel = EncryptionInitial \<and> h_Type h = PacketTypeInitial \<and> initialOpener (pu_cs u) = Some lo \<or>
      encLevel = EncryptionHandshake \<and> h_Type h = PacketTypeHandshake \<and> handshakeOpener (pu_cs u) = Some lo"
    "lo_aead lo = sl_aead sl" "lo_headerProtector lo = sl_headerProtector sl" "lo_nonceBuf lo = sl_nonceBuf sl" and law: "aead_law (sl_aead sl)"
    using assms(1) by (auto simp: peer_keys_def)
  have "unat (word_of_nat (length ad) :: u64) = length ad" "unat (word_of_nat (length (ad @ sealed)) :: u64) = length (ad @ sealed)"
    using assms(5) by (intro unat_word_of_nat_id; simp)+
  moreover have "\<not> length (ad @ sealed) < length ad" by simp
  ultimately have "splitHeader ext (ad @ sealed) = Inr (ad, sealed)" using assms(4) by (simp add: splitHeader_def word_less_nat_alt del: length_append)
  moreover have "lo_Open lo sealed (eh_PacketNumber ext) ad = Inr src"
    using assms(6) lo(2,4) law by (auto simp: lo_Open_def sl_Seal_def tryE_eq_Inr aead_lawD)
  ultimately have "unpackLongHeaderPacket lib u lo hdr data = Inr (ext, src)"
    using assms(3) [OF lo(3)] by (simp add: unpackLongHeaderPacket_def DecryptHeader_def)
  then show ?thesis using lo(1) assms(2) by (auto simp: Unpack_def parsed_as_def GetInitialOpener_def GetHandshakeOpener_def unpacked_def)
qed

lemma Unpack_short:
  assumes "peer_keys lib p ShortSealer h encLevel u" and "wf_ExtendedHeader h" and "parsed_as hdr h"
    and "\<And>hp. headerDecrypter (cs_aead (pu_cs u)) = Some hp \<Longrightarrow> unpack (hp_apply lib hp) (largestRcvdPacketNumber u) hdr data = Inr ((ext, None), ad @ sealed)"
    and "GetLength ext = Inr (word_of_nat (length ad))" and "length ad + length sealed < 2 ^ 61"
    and "u_Seal src (eh_PacketNumber ext) ad (cs_aead (pa_cryptoSetup p)) = Inr (sealed, a)" and "KeyPhase ext = KeyPhase h"
  shows "\<exists>up u'. Unpack lib u hdr t data = (Inr up, u') \<and> up_packetNumber up = eh_PacketNumber ext \<and> up_encryptionLevel up = encLevel \<and> up_data up = src"
proof -
  obtain suite rs sec ss n where k: "keys_at lib suite rs sec n (cs_aead (pa_cryptoSetup p))" "keys_at lib suite sec ss n (cs_aead (pu_cs u))" "aead_law (key_at lib suite sec n)"
    and nb: "u_nonceBuf (cs_aead (pu_cs u)) = u_nonceBuf (cs_aead (pa_cryptoSetup p))" and lvl: "encLevel = Encryption1RTT" "has1RTTOpener (pu_cs u)" "\<not> IsLongHeader h"
    and kp: "KeyPhase h = KeyPhase_Bit (keyPhase (cs_aead (pa_cryptoSetup p)))"
    using assms(1) by (auto simp: peer_keys_def)
  obtain hp where hp: "headerDecrypter (cs_aead (pu_cs u)) = Some hp" using assms(1) by (auto simp: peer_keys_def)
  then have dh: "u_DecryptHeader lib (cs_aead (pu_cs u)) = hp_apply lib hp" by (simp add: u_DecryptHeader_def DecryptHeader_def fun_eq_iff)
  obtain nonce where nonce: "putPacketNumber (u_nonceBuf (cs_aead (pu_cs u))) (eh_PacketNumber ext) = Inr nonce" and sealed: "sealed = c_Seal (key_at lib suite sec n) nonce src ad"
    using assms(7) k(1) nb by (auto simp: u_Seal_def Let_def tryE_eq_Inr needAEAD_def keys_at_def)
  have "KeyPhase ext \<longleftrightarrow> odd n" using assms(8) kp k(1) by (simp add: keys_at_def KeyPhase_Bit_of_nat)
  then obtain b where b: "u_Open lib sealed t (eh_PacketNumber ext) (KeyPhase ext) ad (cs_aead (pu_cs u)) = (Inr src, b)"
    using u_Open_current [OF k(2,3) nonce, of src ad t] unfolding sealed by auto
  have "unat (word_of_nat (length ad) :: u64) = length ad" "unat (word_of_nat (length (ad @ sealed)) :: u64) = length (ad @ sealed)"
    using assms(6) by (intro unat_word_of_nat_id; simp)+
  moreover have "\<not> length (ad @ sealed) < length ad" by simp
  ultimately have "splitHeader ext (ad @ sealed) = Inr (ad, sealed)" using assms(5) by (simp add: splitHeader_def word_less_nat_alt del: length_append)
  then have "unpackShortHeaderPacket lib u hdr t data = (Inr (ext, src), u\<lparr>pu_cs := (pu_cs u)\<lparr>cs_aead := b\<rparr>\<rparr>)"
    using assms(4) [OF hp] b by (simp add: unpackShortHeaderPacket_def dh)
  moreover have "h_Type hdr = PacketTypeNone" "\<not> IsLongHeader hdr" using assms(2,3) lvl(3) by (simp_all add: parsed_as_def wf_ExtendedHeader_def)
  ultimately show ?thesis using lvl by (simp add: Unpack_def Get1RTTOpener_def unpacked_def)
qed

lemma seal_EncryptHeader_peer:
  assumes "peer_keys lib p s h encLevel u" and "seal_Seal p s src pn ad = Inr (sealed, p')" and "seal_EncryptHeader lib p' s sample f pnb = Inr r"
  obtains hp where "hp_law lib hp" "hp_isLongHeader hp = IsLongHeader h" "hp_apply lib hp sample f pnb = Inr r"
    "\<And>sl. s = LongSealer sl \<Longrightarrow> hp = sl_headerProtector sl" "s = ShortSealer \<Longrightarrow> headerDecrypter (cs_aead (pu_cs u)) = Some hp"
proof (cases s)
  case (LongSealer sl)
  have "hp_law lib (sl_headerProtector sl)" "hp_isLongHeader (sl_headerProtector sl) = IsLongHeader h"
    using assms(1) unfolding peer_keys_def LongSealer sealerI.case by blast+
  moreover have "hp_apply lib (sl_headerProtector sl) sample f pnb = Inr r" using assms(3) by (simp add: LongSealer seal_EncryptHeader_def EncryptHeader_def)
  ultimately show thesis by (rule that) (simp_all add: LongSealer)
next
  case ShortSealer
  have "headerEncrypter (cs_aead (pa_cryptoSetup p')) = headerEncrypter (cs_aead (pa_cryptoSetup p))"
    using assms(2) ShortSealer by (auto simp: seal_Seal_def u_Seal_def Let_def tryE_eq_Inr)
  moreover obtain hp where hp: "headerEncrypter (cs_aead (pa_cryptoSetup p)) = Some hp" "headerDecrypter (cs_aead (pu_cs u)) = Some hp" "hp_law lib hp"
    "\<not> hp_isLongHeader hp" "\<not> IsLongHeader h" using assms(1) unfolding peer_keys_def ShortSealer sealerI.case by blast
  ultimately have "hp_apply lib hp sample f pnb = Inr r" using assms(3) by (simp add: ShortSealer seal_EncryptHeader_def u_EncryptHeader_def EncryptHeader_def)
  with hp show thesis by (intro that [of hp]) (simp_all add: ShortSealer)
qed

text \<open>The bytes of a sealed packet.\<close>

lemma sealed_form:
  assumes wf: "wf_ExtendedHeader h" "wf_payload pl encLevel" "fp_ackDelayExponent fp = 3" and peer: "peer_keys lib p s h encLevel u"
    and pack: "writeAndSealPacketWithPadding lib rnd p h pl n encLevel s = Inr (packet, p')" and pnb: "pnb = pn_bytes (eh_PacketNumberLen h) (eh_PacketNumber h)"
  obtains f pre f' pnb' body sealed p1 where "header_prefix h = f # pre" "pp_raw packet = f' # pre @ pnb' @ sealed"
    "seal_Seal p s body (eh_PacketNumber h) (header_prefix h @ pnb) = Inr (sealed, p1)"
    "seal_EncryptHeader lib p1 s (take 16 (drop (4 - length pnb) sealed)) f pnb = Inr (f', pnb')"
    "20 \<le> length pnb + length sealed" "length sealed = length body + 16" "length (header_prefix h) + length pnb + length sealed \<le> 1452"
    "unat (pl_length pl) + unat n = length body"
    "\<And>alert (g :: 'x \<Rightarrow> Frame \<Rightarrow> go_error + 'x) s e. handleFrames alert fp encLevel g s e body = tryE (foldE g s (payload_frames pl)) (\<lambda>s. Inr (s, e \<or> HasAckElicitingFrames (payload_frames pl)))"
proof -
  define hb where "hb = header_prefix h @ pnb"
  have l: "eh_PacketNumberLen h \<in> {1, 2, 3, 4}" using wf(1) by (simp add: wf_ExtendedHeader_def)
  have pnl: "length pnb = unat (eh_PacketNumberLen h)" "length pnb \<le> 4" using length_pn_bytes [OF l] l by (auto simp: pnb)
  obtain raw off where w: "writePacket p h pl n = Inr (raw, off)" using pack by (auto simp: writeAndSealPacketWithPadding_def tryE_eq_Inr)
  obtain body where raw: "raw = hb @ body" "off = length hb" and bl: "word_of_nat (length body) = pl_length pl + n" "unat n \<le> length body"
    and frames: "\<And>alert (g :: 'x \<Rightarrow> Frame \<Rightarrow> go_error + 'x) s e. handleFrames alert fp encLevel g s e body = tryE (foldE g s (payload_frames pl)) (\<lambda>s. Inr (s, e \<or> HasAckElicitingFrames (payload_frames pl)))"
    using writePacket_body [OF wf w] unfolding hb_def pnb by blast
  obtain sealed p1 raw' where sl: "seal_Seal p s body (eh_PacketNumber h) hb = Inr (sealed, p1)" and cap: "length raw + unat (seal_Overhead p1 s) \<le> 1452"
    and ph: "protectHeader lib p1 s (length hb - unat (eh_PacketNumberLen h)) (length hb) (hb @ sealed) = Inr raw'" and pr: "pp_raw packet = raw'"
    using pack w raw by (auto simp: writeAndSealPacketWithPadding_def tryE_eq_Inr Let_def MaxReceivePacketSize_def split: if_splits)
  have sealed: "length sealed = length body + 16" "unat (seal_Overhead p1 s) = 16" using seal_peer [OF peer sl] by simp_all
  obtain f pre where pre: "header_prefix h = f # pre" using header_first [OF wf(1)] by metis
  have "length hb - unat (eh_PacketNumberLen h) = length (f # pre)" "length hb = length (f # pre) + length pnb" "hb @ sealed = (f # pre) @ pnb @ sealed"
    using pnl pre by (simp_all add: hb_def)
  then obtain f' pnb' where e: "20 \<le> length pnb + length sealed" "seal_EncryptHeader lib p1 s (take 16 (drop (4 - length pnb) sealed)) f pnb = Inr (f', pnb')"
    "raw' = f' # pre @ pnb' @ sealed" using protectHeader_Inr [of lib p1 s f pre pnb sealed raw'] ph pnl(2) by metis
  have small: "length (header_prefix h) + length pnb + length sealed \<le> 1452" using cap sealed raw(1) by (simp add: hb_def)
  have "pl_length pl = word_of_nat (length body) - n" using bl(1) by simp
  moreover have "unat (word_of_nat (length body) :: u64) = length body" using small sealed by (intro unat_word_of_nat_id) simp
  ultimately have "unat (pl_length pl) + unat n = length body" using bl(2) by (simp add: unat_minus_le word_le_nat_alt)
  moreover have "pp_raw packet = f' # pre @ pnb' @ sealed" using pr e(3) by simp
  ultimately show thesis by (intro that [OF pre _ sl [unfolded hb_def] e(2,1) sealed(1) small _ frames])
qed

lemma sealed_packet_unpacks:
  assumes wf: "wf_ExtendedHeader h" "wf_payload pl encLevel" "fp_ackDelayExponent fp = 3" and peer: "peer_keys lib p s h encLevel u"
    and len: "if IsLongHeader h then unat (h_Length h) = unat (eh_PacketNumberLen h) + unat (pl_length pl) + unat n + 16 else rest = []"
    and rest: "length rest < 2 ^ 60"
    and pn: "0 \<le> eh_PacketNumber h" "eh_PacketNumber h < 2 ^ 62" "-1 \<le> largestRcvdPacketNumber u" "largestRcvdPacketNumber u < 2 ^ 62"
      "2 * \<bar>eh_PacketNumber h - (largestRcvdPacketNumber u + 1)\<bar> < 2 ^ (8 * unat (eh_PacketNumberLen h))"
    and pack: "writeAndSealPacketWithPadding lib rnd p h pl n encLevel s = Inr (packet, p')"
  shows "\<exists>hdr up u'. ParsePacket (pp_raw packet @ rest) (length (DestConnectionID h)) = Inr (hdr, pp_raw packet, rest) \<and>
    Unpack lib u hdr t (pp_raw packet) = (Inr up, u') \<and> up_packetNumber up = eh_PacketNumber h \<and> up_encryptionLevel up = encLevel \<and>
    (\<forall>alert (g :: 'x \<Rightarrow> Frame \<Rightarrow> go_error + 'x) s e.
      handleFrames alert fp encLevel g s e (up_data up) = tryE (foldE g s (payload_frames pl)) (\<lambda>s. Inr (s, e \<or> HasAckElicitingFrames (payload_frames pl))))"
proof -
  define pnb where "pnb = pn_bytes (eh_PacketNumberLen h) (eh_PacketNumber h)"
  define hb where "hb = header_prefix h @ pnb"
  have l: "eh_PacketNumberLen h \<in> {1, 2, 3, 4}" using wf(1) by (simp add: wf_ExtendedHeader_def)
  have pnl: "length pnb = unat (eh_PacketNumberLen h)" "length pnb \<le> 4" using length_pn_bytes [OF l] l by (auto simp: pnb_def)
  obtain f pre f' pnb' body sealed p1 where pre: "header_prefix h = f # pre" and pr: "pp_raw packet = f' # pre @ pnb' @ sealed"
    and sl: "seal_Seal p s body (eh_PacketNumber h) (header_prefix h @ pnb) = Inr (sealed, p1)"
    and e: "seal_EncryptHeader lib p1 s (take 16 (drop (4 - length pnb) sealed)) f pnb = Inr (f', pnb')" "20 \<le> length pnb + length sealed"
    and sealed: "length sealed = length body + 16" and small: "length (header_prefix h) + length pnb + length sealed \<le> 1452"
    and bl: "unat (pl_length pl) + unat n = length body"
    and frames: "\<And>alert (g :: 'x \<Rightarrow> Frame \<Rightarrow> go_error + 'x) s e.
      handleFrames alert fp encLevel g s e body = tryE (foldE g s (payload_frames pl)) (\<lambda>s. Inr (s, e \<or> HasAckElicitingFrames (payload_frames pl)))"
    by (rule sealed_form [OF wf peer pack pnb_def]) (rule that; assumption)
  note sl = sl [folded hb_def]
  obtain hp where hp: "hp_law lib hp" "hp_isLongHeader hp = IsLongHeader h" "hp_apply lib hp (take 16 (drop (4 - length pnb) sealed)) f pnb = Inr (f', pnb')"
    "\<And>sl. s = LongSealer sl \<Longrightarrow> hp = sl_headerProtector sl" "s = ShortSealer \<Longrightarrow> headerDecrypter (cs_aead (pu_cs u)) = Some hp"
    using seal_EncryptHeader_peer [OF peer sl e(1)] by metis
  have "length (take 16 (drop (4 - length pnb) sealed)) = 16" using e(2) pnl(2) by simp
  then obtain ms where ms: "hp_mask lib hp (take 16 (drop (4 - length pnb) sealed)) = Inr ms" "4 < length ms" using hp(1) unfolding hp_law_def by blast
  have u: "length pnb' = length pnb" "f' = f XOR (ms ! 0 AND (if IsLongHeader h then 0xf else 0x1f))"
    using hp_apply_undo(2,3) [OF ms _ hp(3), of "[]"] pnl(2) hp(2) by simp_all
  have len': "if IsLongHeader h then unat (h_Length h) = length pnb' + length sealed else rest = []" using len sealed bl u(1) pnl(1) by auto
  obtain hdr where hdr: "ParsePacket ((f' # tl (header_prefix h) @ pnb' @ sealed) @ rest) (length (DestConnectionID h)) = Inr (hdr, f' # tl (header_prefix h) @ pnb' @ sealed, rest)"
    and parsed: "parsed_as hdr h"
    using ParsePacket_protected [OF wf(1) _ u(2) _ len'] small rest u(1) pnl(1) by (auto simp: pre)
  define ext where "ext = (toExtendedHeader hdr)\<lparr>eh_typeByte := f, KeyPhase := KeyPhase h, eh_PacketNumberLen := eh_PacketNumberLen h, eh_PacketNumber := eh_PacketNumber h\<rparr>"
  have un: "unpack (hp_apply lib hp) (largestRcvdPacketNumber u) hdr (f' # tl (header_prefix h) @ pnb' @ sealed) = Inr ((ext, None), hb @ sealed)"
    using unpack_protected [OF wf(1) parsed pnb_def _ ms hp(3) e(2) _ pn] small by (simp add: pre ext_def hb_def)
  have gl: "GetLength ext = Inr (word_of_nat (length hb))" using GetLength_parsed [OF wf(1) parsed] pnl(1) unfolding ext_def hb_def by simp
  have "\<exists>up u'. Unpack lib u hdr t (f' # tl (header_prefix h) @ pnb' @ sealed) = (Inr up, u') \<and> up_packetNumber up = eh_PacketNumber ext \<and> up_encryptionLevel up = encLevel \<and> up_data up = body"
  proof (cases s)
    case (LongSealer ls)
    then have "sl_Seal ls body (eh_PacketNumber ext) hb = Inr sealed" using sl by (auto simp: seal_Seal_def tryE_eq_Inr ext_def)
    then show ?thesis using Unpack_long [OF peer [unfolded LongSealer] parsed _ gl, of _ sealed body t] un hp(4) [OF LongSealer] small by (simp add: hb_def)
  next
    case ShortSealer
    then obtain a where "u_Seal body (eh_PacketNumber ext) hb (cs_aead (pa_cryptoSetup p)) = Inr (sealed, a)" using sl by (auto simp: seal_Seal_def tryE_eq_Inr ext_def)
    then show ?thesis using Unpack_short [OF peer [unfolded ShortSealer] wf(1) parsed _ gl, of _ sealed body a t] un hp(5) [OF ShortSealer] small by (simp add: hb_def ext_def)
  qed
  then obtain up u' where "Unpack lib u hdr t (f' # tl (header_prefix h) @ pnb' @ sealed) = (Inr up, u')" "up_packetNumber up = eh_PacketNumber ext"
    "up_encryptionLevel up = encLevel" "up_data up = body" by blast
  moreover have "eh_PacketNumber ext = eh_PacketNumber h" by (simp add: ext_def)
  ultimately show ?thesis using hdr frames pr pre by (intro exI [of _ hdr] exI [of _ up] exI [of _ u']) simp
qed

lemma length_header_prefix: "wf_ExtendedHeader h \<Longrightarrow> length (header_prefix h) < 2 ^ 62"
  using length_token_bytes [of h] length_varint_bytes(2) [of "h_Length h"]
  by (auto simp: header_prefix_def long_prefix_def short_prefix_def wf_ExtendedHeader_def MaxConnIDLen_def WriteUint32_def)

text \<open>The length field of a padded Initial packet of the client, and the padding.\<close>

lemma padded_length:
  assumes "wf_ExtendedHeader h" and "GetLength h = Inr headerLen" and "paddingLen = (1200 - 16) - headerLen - pll" and "unat pll \<le> 1452" and "unat paddingLen \<le> 1452"
  shows "unat (ucast (eh_PacketNumberLen h) + 1200 - headerLen :: u64) = unat (eh_PacketNumberLen h) + unat pll + unat paddingLen + 16"
proof -
  have l: "unat (eh_PacketNumberLen h) \<le> 4" using assms(1) by (auto simp: wf_ExtendedHeader_def)
  have "headerLen = word_of_nat (length (header_prefix h) + unat (eh_PacketNumberLen h))" using assms(2) GetLength_bytes [OF assms(1)] by simp
  then have hl: "unat headerLen < 2 ^ 62 + 5" using length_header_prefix [OF assms(1)] l by (simp add: unat_word_of_nat_id del: of_nat_add)
  have "headerLen + pll + paddingLen = (1184 :: u64)" using assms(3) by simp
  moreover have "unat (headerLen + pll + paddingLen) = unat headerLen + unat pll + unat paddingLen"
    using hl assms(4,5) by (simp add: unat_plus_lt)
  ultimately have sum: "unat headerLen + unat pll + unat paddingLen = 1184" by simp
  have "unat (ucast (eh_PacketNumberLen h) + 1200 :: u64) = unat (eh_PacketNumberLen h) + 1200"
    using l unat_ucast_byte [of "eh_PacketNumberLen h"] by (subst unat_plus_lt) simp_all
  then show ?thesis using sum by (subst unat_minus_le) (simp_all add: word_le_nat_alt)
qed

lemma peer_keys_Length: "peer_keys lib p s (h\<lparr>h_Length := n\<rparr>) encLevel u \<longleftrightarrow> peer_keys lib p s h encLevel u"
  by (simp add: peer_keys_def split: sealerI.split)

lemma WriteVarInt_Inr_le: "WriteVarInt b i = Inr b' \<Longrightarrow> i \<le> maxVarInt8"
  using WriteVarInt_panics [of b i] by (auto simp: panics_def not_less)

lemma sealed_wf:
  assumes "wf_ExtendedHeader h" and "writeAndSealPacketWithPadding lib rnd p (h\<lparr>h_Length := L\<rparr>) pl n encLevel s = Inr r" and "IsLongHeader h"
  shows "wf_ExtendedHeader (h\<lparr>h_Length := L\<rparr>)"
proof -
  obtain b where "ExtendedHeader_Write [] (h\<lparr>h_Length := L\<rparr>) = Inr b"
    using assms(2) by (auto simp: writeAndSealPacketWithPadding_def writePacket_def tryE_eq_Inr)
  moreover have "h_Type h \<noteq> PacketTypeRetry" using assms(1,3) by (auto simp: wf_ExtendedHeader_def)
  ultimately have "L \<le> maxVarInt8" using assms(3)
    by (auto simp: ExtendedHeader_Write_def writeLongHeader_def Let_def tryE_eq_Inr dest: WriteVarInt_Inr_le split: if_splits)
  then show ?thesis using assms(1,3) by (auto simp: wf_ExtendedHeader_def split: if_splits)
qed


text \<open>Two endpoints after the handshake, for examples.\<close>

definition demo_setup :: "updatableAEAD \<Rightarrow> cryptoSetup" where
  "demo_setup a =
    \<lparr>cs_perspective = PerspectiveClient, readEncLevel = Encryption1RTT, writeEncLevel = Encryption1RTT, initialOpener = None, initialSealer = None,
     handshakeOpener = None, handshakeSealer = None, cs_aead = a, has1RTTSealer = True, has1RTTOpener = True\<rparr>"

definition demo_packer :: "updatableAEAD \<Rightarrow> packetPacker" where
  "demo_packer a =
    newPacketPacker [1, 2, 3, 4] [5, 6] newCryptoStream newCryptoStream (NewSentPacketHandler 0 NewRTTStats 100 100 100) newRetransmissionQueue UDPAddr4
      (demo_setup a) newFramer \<lparr>sw_streams = Map.empty, sw_conn = NewConnectionFlowController 0 0, sw_events = []\<rparr> NewReceivedPacketHandler PerspectiveClient VersionTLS"

definition demo_header :: ExtendedHeader where
  "demo_header = (toExtendedHeader zeroHeader)\<lparr>eh_PacketNumberLen := 2, DestConnectionID := [1, 2, 3, 4]\<rparr>"

definition demo_payload :: payload where
  "demo_payload = \<lparr>pl_frames = [FPing (), FMaxData \<lparr>mdf_ByteOffset = 5\<rparr>], pl_ack = None, pl_length = 3\<rparr>"

definition demo_protector :: "byte list \<Rightarrow> headerProtector" where
  "demo_protector secret = aesHeaderProtector (map (\<lambda>b. b XOR sum_list (HkdfExpandLabel demo_lib SHA256 secret [] ''quic hp'' 16))) False"

lemma demo_protector_law: "hp_law demo_lib (demo_protector secret)" "\<not> hp_isLongHeader (demo_protector secret)"
  by (simp_all add: hp_law_def demo_protector_def hp_mask_def)

lemma demo_keys_header:
  assumes "demo_keys rs ss = Inr a"
  shows "headerDecrypter a = Some (demo_protector rs)" "headerEncrypter a = Some (demo_protector ss)" "u_Overhead a = 16"
proof -
  have h: "newHeaderProtector demo_lib demo_suite s False = Inr (demo_protector s)" for s
    by (simp add: newHeaderProtector_def newAESHeaderProtector_def demo_suite_def demo_lib_def demo_protector_def)
  have o: "c_Overhead (createAEAD demo_lib demo_suite s) = 16" for s by (simp add: createAEAD_def Let_def demo_suite_def demo_AEAD_def)
  show "headerDecrypter a = Some (demo_protector rs)" "headerEncrypter a = Some (demo_protector ss)" "u_Overhead a = 16"
    using assms o by (auto simp: demo_keys_def u_SetReadKey_def u_SetWriteKey_def h Let_def firstKey_def u_Overhead_def newUpdatableAEAD_def)
qed

lemma demo_peer:
  assumes a: "demo_keys [1] [2] = Inr a" and b: "demo_keys [2] [1] = Inr b"
  shows "peer_keys demo_lib (demo_packer a) ShortSealer demo_header Encryption1RTT (newPacketUnpacker (demo_setup b))"
proof -
  have k: "keys_at demo_lib demo_suite [1] [2] 0 a" "u_nonceBuf a = replicate 12 0" by (rule demo_keysE [of "[1]" "[2]"]; use a in simp)+
  have k': "keys_at demo_lib demo_suite [2] [1] 0 b" "u_nonceBuf b = replicate 12 0" by (rule demo_keysE [of "[2]" "[1]"]; use b in simp)+
  have o: "c_Overhead (key_at demo_lib demo_suite [2] 0) = 16" by (simp add: key_at_def createAEAD_def Let_def demo_suite_def demo_AEAD_def)
  have "KeyPhase_Bit (keyPhase a) = False" using k(1) by (simp add: keys_at_def KeyPhase_Bit_def)
  moreover have "\<exists>suite rs sec ss n. keys_at demo_lib suite rs sec n a \<and> keys_at demo_lib suite sec ss n b \<and>
      aead_law (key_at demo_lib suite sec n) \<and> c_Overhead (key_at demo_lib suite sec n) = 16" using k(1) k'(1) demo_key_law o by blast
  ultimately show ?thesis using demo_keys_header [OF a] demo_keys_header [OF b] k(2) k'(2) demo_protector_law
    unfolding peer_keys_def sealerI.case
    by (simp add: demo_packer_def newPacketPacker_def demo_setup_def newPacketUnpacker_def demo_header_def toExtendedHeader_def Header.defs zeroHeader_def KeyPhaseZero_def)
qed

lemma demo_sealed:
  "case demo_keys [1] [2] of Inl _ \<Rightarrow> False
   | Inr a \<Rightarrow> (case writeAndSealPacket demo_lib 7 (demo_packer a) demo_header demo_payload Encryption1RTT ShortSealer of Inl _ \<Rightarrow> False | Inr _ \<Rightarrow> True)"
  by code_simp


section \<open>Packets fit\<close>

lemma hp_apply_length: "hp_apply lib hp sample f b = Inr (f', b') \<Longrightarrow> length b' = length b"
  by (auto simp: hp_apply_def tryE_eq_Inr split: if_splits)

lemma seal_EncryptHeader_length: "seal_EncryptHeader lib p s sample f b = Inr (f', b') \<Longrightarrow> length b' = length b"
  by (auto simp: seal_EncryptHeader_def u_EncryptHeader_def EncryptHeader_def dest: hp_apply_length split: sealerI.splits option.splits)

lemma protectHeader_length:
  assumes "protectHeader lib p s i j raw = Inr raw'" and "i \<le> j"
  shows "length raw' = length raw"
  using assms by (auto simp: protectHeader_def tryE_eq_Inr dest: seal_EncryptHeader_length split: if_splits)

text \<open>The length of a packet is what was written, and the overhead of the cipher.\<close>

lemma sealed_length:
  assumes pack: "writeAndSealPacketWithPadding lib rnd p h pl n encLevel ShortSealer = Inr (packet, p')"
    and keys: "keys_at lib suite rs ss k (cs_aead (pa_cryptoSetup p))" "aead_law (key_at lib suite ss k)" "c_Overhead (key_at lib suite ss k) = 16" "u_Overhead (cs_aead (pa_cryptoSetup p)) = 16"
    and wf: "wf_ExtendedHeader h" "unat (pl_length pl) \<le> 1452" "unat n \<le> 4"
  shows "length (pp_raw packet) \<le> length (header_prefix h) + unat (eh_PacketNumberLen h) + unat (pl_length pl) + unat n + 16"
proof -
  define hb where "hb = header_prefix h @ pn_bytes (eh_PacketNumberLen h) (eh_PacketNumber h)"
  have "length (pn_bytes (eh_PacketNumberLen h) (eh_PacketNumber h)) = unat (eh_PacketNumberLen h)" using wf(1) by (intro length_pn_bytes) (simp add: wf_ExtendedHeader_def)
  then have hl: "length hb = length (header_prefix h) + unat (eh_PacketNumberLen h)" by (simp add: hb_def)
  have hb: "ExtendedHeader_Write [] h = Inr hb" using Write_header [OF wf(1)] by (simp add: hb_def)
  obtain raw where w: "writePacket p h pl n = Inr (raw, length hb)" "word_of_nat (length raw - length hb) - n = pl_length pl"
    using pack by (auto simp: writeAndSealPacketWithPadding_def writePacket_def hb Let_def tryE_eq_Inr split: if_splits)
  obtain sealed p1 raw' where sl: "seal_Seal p ShortSealer (drop (length hb) raw) (eh_PacketNumber h) (take (length hb) raw) = Inr (sealed, p1)"
    and cap: "length raw \<le> 1452"
    and ph: "protectHeader lib p1 ShortSealer (length hb - unat (eh_PacketNumberLen h)) (length hb) (take (length hb) raw @ sealed) = Inr raw'" and pr: "pp_raw packet = raw'"
    using pack w(1) by (auto simp: writeAndSealPacketWithPadding_def tryE_eq_Inr Let_def MaxReceivePacketSize_def split: if_splits)
  have sealed: "length sealed = length (drop (length hb) raw) + 16"
    using sl keys by (auto simp: seal_Seal_def u_Seal_def Let_def tryE_eq_Inr needAEAD_def keys_at_def aead_law_def)
  have "word_of_nat (length raw - length hb) = pl_length pl + n" using w(2) by (simp add: diff_eq_eq)
  moreover have "unat (pl_length pl + n) = unat (pl_length pl) + unat n" using wf(2,3) by (intro unat_plus_lt) simp
  moreover have "unat (word_of_nat (length raw - length hb) :: u64) = length raw - length hb" using cap by (intro unat_word_of_nat_id) simp
  ultimately have body: "length raw - length hb = unat (pl_length pl) + unat n" by metis
  have "length (take (length hb) raw @ sealed) = length raw + 16" using sealed by simp
  then have "length (pp_raw packet) = length raw + 16" using protectHeader_length [OF ph] pr by simp
  then show ?thesis using body hl by linarith
qed

lemma appDataLoop_fits:
  "appDataLoop maxFrameSize q pl = Inr (pl', q') \<Longrightarrow> unat (pl_length pl) \<le> unat maxFrameSize \<Longrightarrow> unat (pl_length pl') \<le> unat maxFrameSize"
proof (induction maxFrameSize q pl rule: appDataLoop.induct)
  case (1 maxFrameSize q pl)
  let ?r = "maxFrameSize - pl_length pl"
  have r: "unat ?r = unat maxFrameSize - unat (pl_length pl)" using 1(3) by (simp add: unat_minus_le word_le_nat_alt)
  note step = 1(2) [unfolded appDataLoop.simps [of maxFrameSize q pl] Let_def]
  show ?case
  proof (cases "?r < MinStreamFrameSize")
    case False
    then obtain f q1 where g: "GetAppDataFrame q ?r = Inr (f, q1)" using step by (auto simp: tryE_eq_Inr)
    show ?thesis
    proof (cases f)
      case None
      then show ?thesis using step False g 1(3) by simp
    next
      case (Some frame)
      obtain n where n: "Frame_Length frame = Inr n" using step False g Some by (auto simp: tryE_eq_Inr)
      have "unat n \<le> unat ?r" using g Some n by (auto simp: GetAppDataFrame_def popFitting_def tryE_eq_Inr word_less_nat_alt split: list.splits if_splits)
      moreover have "unat maxFrameSize < 2 ^ 64" by (rule order_less_le_trans [OF unsigned_less]) simp
      ultimately have "unat (pl_length pl + n) = unat (pl_length pl) + unat n" using r 1(3) by (intro unat_plus_lt) simp
      then have "unat (pl_length pl + n) \<le> unat maxFrameSize" using \<open>unat n \<le> unat ?r\<close> r 1(3) by simp
      then show ?thesis using 1(1) [OF refl False g refl Some n] step False g Some n by simp
    qed
  qed (use step 1(3) in simp)
qed

lemma appDataLoop_none: "appDataLoop maxFrameSize q pl = Inr (pl', q') \<Longrightarrow> pl_frames pl' = [] \<Longrightarrow> pl' = pl"
proof (induction maxFrameSize q pl rule: appDataLoop.induct)
  case (1 maxFrameSize q pl)
  let ?r = "maxFrameSize - pl_length pl"
  note step = 1(2) [unfolded appDataLoop.simps [of maxFrameSize q pl] Let_def]
  show ?case
  proof (cases "?r < MinStreamFrameSize")
    case False
    then obtain f q1 where g: "GetAppDataFrame q ?r = Inr (f, q1)" using step by (auto simp: tryE_eq_Inr)
    show ?thesis
    proof (cases f)
      case (Some frame)
      then obtain n where n: "Frame_Length frame = Inr n" using step False g by (auto simp: tryE_eq_Inr)
      have "pl' = pl\<lparr>pl_frames := pl_frames pl @ [frame], pl_length := pl_length pl + n\<rparr>" using 1(1) [OF refl False g refl Some n] step False g Some n 1(3) by simp
      then show ?thesis using 1(3) by simp
    qed (use step False g in simp)
  qed (use step in simp)
qed

lemma compose_fits:
  assumes c: "composeNextPacket limit now p maxFrameSize = Inr (pl, p')"
    and ack: "\<forall>a n. fst (handler_GetAckFrame now (pa_acks p) Encryption1RTT) = Some a \<and> AckFrame_Length a = Inr n \<longrightarrow> unat n \<le> unat maxFrameSize"
    and max: "unat maxFrameSize \<le> 1450" and fr: "framer_inv (pa_framer p)" "length (streamQueue (pa_framer p)) < 2 ^ 24" and st: "sw_ok (pa_streams p)"
    and ctl: "\<forall>f \<in> set (controlFrames (pa_framer p)). \<forall>n. Frame_Length f = Inr n \<longrightarrow> unat n < 2 ^ 62"
  shows "unat (pl_length pl) \<le> unat maxFrameSize" and "pa_cryptoSetup p' = pa_cryptoSetup p" and "pa_maxPacketSize p' = pa_maxPacketSize p"
    and "pl_frames pl = [] \<Longrightarrow> pl_length pl = 0 \<or> (\<exists>a. fst (handler_GetAckFrame now (pa_acks p) Encryption1RTT) = Some a \<and> AckFrame_Length a = Inr (pl_length pl))"
proof -
  obtain a acks where a: "handler_GetAckFrame now (pa_acks p) Encryption1RTT = (a, acks)" by fastforce
  obtain pl1 pl2 q frames len f frames' len' f' w where s:
    "(case a of None \<Rightarrow> Inr zeroPayload | Some x \<Rightarrow> tryE (AckFrame_Length x) (\<lambda>n. Inr (zeroPayload\<lparr>pl_ack := a, pl_length := 0 + n\<rparr>))) = Inr pl1"
    "appDataLoop maxFrameSize (pa_retransmissionQueue p) pl1 = Inr (pl2, q)"
    "AppendControlFrames (pa_framer p) (pl_frames pl2) (maxFrameSize - pl_length pl2) = Inr (frames, len, f)"
    "AppendStreamFrames sw_get sw_pop limit f (pa_streams p) frames (maxFrameSize - (pl_length pl2 + len)) = Inr ((frames', len'), f', w)"
    and pl: "pl = pl2\<lparr>pl_frames := frames', pl_length := pl_length pl2 + len + len'\<rparr>" and p': "p' = p\<lparr>pa_acks := acks, pa_retransmissionQueue := q, pa_framer := f', pa_streams := w\<rparr>"
    using c unfolding composeNextPacket_def a by (auto simp: tryE_eq_Inr Let_def)
  show "pa_cryptoSetup p' = pa_cryptoSetup p" "pa_maxPacketSize p' = pa_maxPacketSize p" by (simp_all add: p')
  have l1: "unat (pl_length pl1) \<le> unat maxFrameSize" using s(1) ack a by (cases a) (auto simp: zeroPayload_def tryE_eq_Inr)
  have l2: "unat (pl_length pl2) \<le> unat maxFrameSize" using appDataLoop_fits [OF s(2) l1] .
  have m2: "unat (maxFrameSize - pl_length pl2) = unat maxFrameSize - unat (pl_length pl2)" using l2 by (simp add: unat_minus_le word_le_nat_alt)
  obtain control' where c': "controlLoop (pl_frames pl2) 0 (controlFrames (pa_framer p)) (maxFrameSize - pl_length pl2) = Inr (frames, len, control')" and f: "f = pa_framer p\<lparr>controlFrames := control'\<rparr>"
    using s(3) by (auto simp: AppendControlFrames_def tryE_eq_Inr)
  have small: "unat (maxFrameSize - pl_length pl2) < 2 ^ 62" "unat (0 :: u64) \<le> unat (maxFrameSize - pl_length pl2)" using m2 max by simp_all
  have l3: "unat len \<le> unat maxFrameSize - unat (pl_length pl2)" and fr2: "\<exists>k. frames = pl_frames pl2 @ rev (drop (length (controlFrames (pa_framer p)) - k) (controlFrames (pa_framer p))) \<and> unat len = frames_length (drop (length (controlFrames (pa_framer p)) - k) (controlFrames (pa_framer p)))"
    using controlLoop_fits [OF c' small(2) ctl small(1)] unfolding m2 by auto
  have l4: "unat (pl_length pl2 + len) = unat (pl_length pl2) + unat len" using l2 l3 max by (intro unat_plus_lt) simp
  have m4: "unat (maxFrameSize - (pl_length pl2 + len)) = unat maxFrameSize - unat (pl_length pl2) - unat len" using l2 l3 l4 by (simp add: unat_minus_le word_le_nat_alt)
  have "framer_inv f" "unat (maxFrameSize - (pl_length pl2 + len)) \<le> 1450" "length (streamQueue f) < 2 ^ 24" using fr m4 max by (simp_all add: f framer_inv_def)
  from streams.AppendStreamFrames_fits [OF st this, of limit frames]
  obtain new where new: "frames' = frames @ map FStream new" "unat len' = frames_length (map FStream new)" "unat len' \<le> unat (maxFrameSize - (pl_length pl2 + len))"
    unfolding s(4) by blast
  have sum: "unat (pl_length pl2 + len + len') = unat (pl_length pl2) + unat len + unat len'" using l4 l3 m4 new(3) l2 max by (subst unat_plus_lt) simp_all
  show "unat (pl_length pl) \<le> unat maxFrameSize" using sum l2 l3 m4 new(3) by (simp add: pl)
  show "pl_length pl = 0 \<or> (\<exists>a. fst (handler_GetAckFrame now (pa_acks p) Encryption1RTT) = Some a \<and> AckFrame_Length a = Inr (pl_length pl))" if e: "pl_frames pl = []"
  proof -
    have e': "frames = []" "new = []" using e new(1) by (simp_all add: pl)
    then have "pl2 = pl1" "unat len = 0" using appDataLoop_none [OF s(2)] fr2 by (auto simp: frames_length_def)
    moreover have "unat len' = 0" using new(2) e' by (simp add: frames_length_def)
    ultimately have "pl_length pl = pl_length pl1" by (simp add: pl unat_eq_zero)
    then show ?thesis using s(1) a by (cases a) (auto simp: tryE_eq_Inr zeroPayload_def)
  qed
qed

lemma getShortHeader_wf:
  assumes "getShortHeader p kp = Inr h" and "length (pa_destConnID p) \<le> MaxConnIDLen"
  shows "wf_ExtendedHeader h" and "length (header_prefix h) + unat (eh_PacketNumberLen h) \<le> 25"
proof -
  have "GetPacketNumberLengthForHeader a b \<in> {2, 3, 4}" for a b by (simp add: GetPacketNumberLengthForHeader_def Let_def)
  moreover obtain pn l where h: "PeekPacketNumber (pa_pnManager p) Encryption1RTT = Inr (pn, l)"
    "h = (toExtendedHeader zeroHeader)\<lparr>eh_PacketNumber := pn, eh_PacketNumberLen := l, DestConnectionID := pa_destConnID p, KeyPhase := kp\<rparr>"
    using assms(1) by (auto simp: getShortHeader_def tryE_eq_Inr)
  ultimately have "l \<in> {2, 3, 4}" by (auto simp: PeekPacketNumber_def tryE_eq_Inr Let_def)
  then show "wf_ExtendedHeader h" "length (header_prefix h) + unat (eh_PacketNumberLen h) \<le> 25"
    using assms(2) by (auto simp: h(2) wf_ExtendedHeader_def toExtendedHeader_def Header.defs zeroHeader_def MaxConnIDLen_def header_prefix_def short_prefix_def)
qed

lemma countAckOnly_fits:
  assumes "countAckOnly p pl = Inr (pl', p')"
  shows "pa_cryptoSetup p' = pa_cryptoSetup p" and "pl_length pl' = pl_length pl \<or> pl_frames pl = [] \<and> pl_length pl' = pl_length pl + 1"
  using assms by (auto simp: countAckOnly_def tryE_eq_Inr PingFrame_Length_def split: if_splits)

text \<open>C3. A packet that the packer returns once the handshake is confirmed is not larger than the largest packet size, including the bytes that sealing adds,
  although the packer's own check leaves them out; this holds for streams and a framer in any state, any frames that wait for
  retransmission, and an ACK of at most the size the ACK writer keeps to.\<close>

theorem packed_packet_fits:
  assumes "handshakeConfirmed p" and "PackPacket lib limit rnd now p = Inr (Some packet, p')"
    and "keys_at lib suite rs ss k (cs_aead (pa_cryptoSetup p))" and "\<forall>n. aead_law (key_at lib suite ss n) \<and> c_Overhead (key_at lib suite ss n) = 16"
    and "u_Overhead (cs_aead (pa_cryptoSetup p)) = 16"
    and "length (pa_destConnID p) \<le> MaxConnIDLen" and "1200 \<le> unat (pa_maxPacketSize p)" and "unat (pa_maxPacketSize p) \<le> 1452"
    and "framer_inv (pa_framer p)" and "length (streamQueue (pa_framer p)) < 2 ^ 24" and "sw_ok (pa_streams p)"
    and "\<forall>f \<in> set (controlFrames (pa_framer p)). \<forall>n. Frame_Length f = Inr n \<longrightarrow> unat n < 2 ^ 62"
    and "\<forall>a n. fst (handler_GetAckFrame now (pa_acks p) Encryption1RTT) = Some a \<and> AckFrame_Length a = Inr n \<longrightarrow> unat n \<le> 1008"
  shows "length (pp_raw packet) \<le> unat (pa_maxPacketSize p)"
proof -
  obtain kp p1 header headerLen pl p2 pl' p3 where
    kp: "pa_KeyPhase lib now p = Inr (kp, p1)" and hdr: "getShortHeader p1 kp = Inr header" "GetLength header = Inr headerLen"
    and c: "composeNextPacket limit now p1 (pa_maxPacketSize p1 - seal_Overhead p1 ShortSealer - headerLen) = Inr (pl, p2)"
    and a: "countAckOnly p2 pl = Inr (pl', p3)" and w: "writeAndSealPacket lib rnd p3 header pl' Encryption1RTT ShortSealer = Inr (packet, p')"
    using assms(1,2) by (auto simp: PackPacket_def tryE_eq_Inr split: option.splits sum.splits if_splits)
  obtain aead where aead: "u_KeyPhase lib now (cs_aead (pa_cryptoSetup p)) = Inr (kp, aead)" "p1 = p\<lparr>pa_cryptoSetup := (pa_cryptoSetup p)\<lparr>cs_aead := aead\<rparr>\<rparr>"
    using kp by (auto simp: pa_KeyPhase_def tryE_eq_Inr)
  obtain n where n: "keys_at lib suite rs ss n aead" using u_KeyPhase_keys [OF assms(3) aead(1)] by blast
  have o: "u_Overhead aead = 16" using aead(1) assms(5) by (auto simp: u_KeyPhase_def tryE_eq_Inr rollKeys_def Let_def u_Overhead_def split: if_splits option.splits)
  have h: "wf_ExtendedHeader header" "length (header_prefix header) + unat (eh_PacketNumberLen header) \<le> 25"
    using getShortHeader_wf [OF hdr(1)] assms(6) by (simp_all add: aead(2))
  have hl: "unat headerLen = length (header_prefix header) + unat (eh_PacketNumberLen header)"
    using GetLength_bytes [OF h(1)] hdr(2) h(2) by (auto simp: unat_word_of_nat_id simp del: of_nat_add)
  define m where "m = pa_maxPacketSize p1 - seal_Overhead p1 ShortSealer - headerLen"
  have m: "unat m = unat (pa_maxPacketSize p) - 16 - unat headerLen"
    using assms(7,8) h(2) hl o by (simp add: m_def aead(2) seal_Overhead_def unat_minus_le word_le_nat_alt)
  have p1: "pa_acks p1 = pa_acks p" "pa_framer p1 = pa_framer p" "pa_streams p1 = pa_streams p" by (simp_all add: aead(2))
  have m': "1008 \<le> unat m" "unat m \<le> 1450" using m h(2) hl assms(7,8) by simp_all
  have ack: "\<forall>a n. fst (handler_GetAckFrame now (pa_acks p1) Encryption1RTT) = Some a \<and> AckFrame_Length a = Inr n \<longrightarrow> unat n \<le> unat m"
    using assms(13) m'(1) unfolding p1 by (meson le_trans)
  note fits = compose_fits [OF c [folded m_def] ack m'(2) assms(9-12) [folded p1]]
  have pl: "unat (pl_length pl) \<le> unat m" and cs: "pa_cryptoSetup p2 = pa_cryptoSetup p1"
    by (rule fits)+
  have empty: "unat (pl_length pl) \<le> 1008" if "pl_frames pl = []" using fits(4) [OF that] assms(13) unfolding p1 by (elim disjE) (simp, blast)
  have pl': "unat (pl_length pl') \<le> unat m"
  proof (cases "pl_length pl' = pl_length pl")
    case False
    then have "pl_length pl' = pl_length pl + 1" "unat (pl_length pl) \<le> 1008" using countAckOnly_fits(2) [OF a] empty by auto
    then show ?thesis using m assms(7) h(2) hl by (simp add: unat_plus_lt)
  qed (use pl in simp)
  have s3: "cs_aead (pa_cryptoSetup p3) = aead" using countAckOnly_fits(1) [OF a] cs by (simp add: aead(2))
  define l where "l = (ucast (eh_PacketNumberLen header) :: u64)"
  have l: "unat l \<le> 4" using h(1) unat_ucast_byte [of "eh_PacketNumberLen header"] by (auto simp: l_def wf_ExtendedHeader_def)
  define pad where "pad = (if pl_length pl' < 4 - l then 4 - l - pl_length pl' else 0)"
  have pad: "unat pad \<le> 4" "unat (pl_length pl') + unat pad \<le> max 4 (unat (pl_length pl'))"
    using l by (auto simp: pad_def unat_minus_le word_le_nat_alt word_less_nat_alt)
  have "writeAndSealPacketWithPadding lib rnd p3 header pl' pad Encryption1RTT ShortSealer = Inr (packet, p')"
    using w unfolding writeAndSealPacket_def Let_def pad_def l_def by (simp split del: if_split)
  from sealed_length [OF this _ _ _ _ h(1) _ pad(1)] n o assms(4,8) pl' m s3
  have "length (pp_raw packet) \<le> length (header_prefix header) + unat (eh_PacketNumberLen header) + unat (pl_length pl') + unat pad + 16" by auto
  then show ?thesis using pad(2) pl' m hl h(2) assms(7) by simp
qed

definition demo_ping_packer :: "updatableAEAD \<Rightarrow> packetPacker" where
  "demo_ping_packer a = (demo_packer a)\<lparr>handshakeConfirmed := True, pa_framer := QueueControlFrame_framer newFramer (FPing ())\<rparr>"

lemma demo_ping_packed:
  "case demo_keys [1] [2] of Inl _ \<Rightarrow> False
   | Inr a \<Rightarrow> (case PackPacket demo_lib 2 7 1000 (demo_ping_packer a) of Inr (Some packet, _) \<Rightarrow> length (pp_raw packet) = 25 | _ \<Rightarrow> False)"
  by code_simp

theorem packed_packet_fits_witness:
  "\<exists>a packet p'. PackPacket demo_lib 2 7 1000 (demo_ping_packer a) = Inr (Some packet, p') \<and> length (pp_raw packet) \<le> 1252"
proof -
  obtain a1 a where a: "demo_keys [1] [2] = Inr a" and k: "keys_at demo_lib demo_suite [1] [2] 0 a" by (rule demo_keysE [of "[1]" "[2]"])
  let ?p = "demo_ping_packer a"
  obtain packet p' where w: "PackPacket demo_lib 2 7 1000 ?p = Inr (Some packet, p')"
    using demo_ping_packed a by (auto split: sum.splits option.splits)
  have p: "handshakeConfirmed ?p" "cs_aead (pa_cryptoSetup ?p) = a" "length (pa_destConnID ?p) \<le> MaxConnIDLen" "unat (pa_maxPacketSize ?p) = 1252"
    "framer_inv (pa_framer ?p)" "length (streamQueue (pa_framer ?p)) < 2 ^ 24" "sw_ok (pa_streams ?p)" "controlFrames (pa_framer ?p) = [FPing ()]"
    "fst (handler_GetAckFrame 1000 (pa_acks ?p) Encryption1RTT) = None"
    by (simp_all add: demo_ping_packer_def demo_packer_def newPacketPacker_def demo_setup_def MaxConnIDLen_def getMaxPacketSize_def MaxPacketSizeIPv4_def
        framer_inv_def newFramer_def QueueControlFrame_framer_def sw_ok_def NewReceivedPacketHandler_def tracker_GetAckFrame_def newReceivedPacketTracker_def IsZero_def)
  have o: "c_Overhead (key_at demo_lib demo_suite s n) = 16" for s n by (simp add: key_at_def createAEAD_def Let_def demo_suite_def demo_AEAD_def)
  show ?thesis using packed_packet_fits [OF p(1) w, of demo_suite "[1]" "[2]" 0] p(2-9) k demo_key_law o demo_keys_header(3) [OF a] w
    by (auto simp: PingFrame_Length_def)
qed

section \<open>A large ClientHello\<close>

lemma int64_of_word_of_int: "- (2 ^ 63) \<le> x \<Longrightarrow> x < 2 ^ 63 \<Longrightarrow> int64_of (word_of_int x) = x"
  by (simp add: int64_of_def signed_of_int signed_take_bit_int_eq_self)

lemma CryptoFrame_MaxDataLen_first:
  assumes "70 \<le> unat maxLen" and "unat maxLen < 2 ^ 14"
  shows "CryptoFrame_MaxDataLen \<lparr>cf_Offset = 0, cf_Data = []\<rparr> maxLen = Inr (maxLen - 4)"
proof -
  have "unat (maxLen - 3) = unat maxLen - 3" using assms by (simp add: unat_minus_le word_le_nat_alt)
  then have "VarIntLen (maxLen - 3) = Inr 2" using assms by (auto simp: VarIntLen_def maxVarInt_defs word_le_nat_alt)
  moreover have "VarIntLen 0 = Inr 1" by (simp add: VarIntLen_def maxVarInt_defs)
  ultimately show ?thesis using assms by (simp add: CryptoFrame_MaxDataLen_def Let_def word_less_nat_alt)
qed

text \<open>The first CRYPTO frame of a long message fills the space it is given, up to the message.\<close>

lemma PopCryptoFrame_first:
  assumes "70 \<le> unat maxLen" and "unat maxLen < 2 ^ 14" and "writeOffset s = 0" and "1200 \<le> length (writeBuf s)"
  shows "\<exists>cf s' n. PopCryptoFrame s maxLen = Inr (cf, s') \<and> CryptoFrame_Length cf = Inr (word_of_nat n) \<and> min (unat maxLen) 1204 \<le> n \<and> n \<le> unat maxLen"
proof -
  define k where "k = min (unat (maxLen - 4)) (length (writeBuf s))"
  have m: "unat (maxLen - 4) = unat maxLen - 4" using assms by (simp add: unat_minus_le word_le_nat_alt)
  have k: "64 \<le> k" "k < 2 ^ 14" "min (unat maxLen) 1204 \<le> k + 4" "k + 4 \<le> unat maxLen" using assms m by (auto simp: k_def)
  have u: "unat (word_of_nat k :: u64) = k" using k by (intro unat_word_of_nat_id) simp
  have "VarIntLen (word_of_nat k) = Inr 2" using k u by (simp add: VarIntLen_def maxVarInt_defs word_le_nat_alt)
  moreover have "VarIntLen 0 = Inr 1" by (simp add: VarIntLen_def maxVarInt_defs)
  moreover have "length (take k (writeBuf s)) = k" by (simp add: k_def)
  ultimately have "CryptoFrame_Length \<lparr>cf_Offset = 0, cf_Data = take k (writeBuf s)\<rparr> = Inr (word_of_nat (k + 4))"
    by (simp add: CryptoFrame_Length_def)
  then show ?thesis using k assms(3) CryptoFrame_MaxDataLen_first [OF assms(1,2)]
    by (intro exI [of _ "\<lparr>cf_Offset = 0, cf_Data = take k (writeBuf s)\<rparr>"] exI exI [of _ "k + 4"])
      (simp add: PopCryptoFrame_def Let_def k_def del: of_nat_add)
qed

lemma getLongHeader_Initial:
  assumes "PeekPacketNumber (pa_pnManager p) EncryptionInitial = Inr (pn, l)" and "pa_version p = VersionTLS" and "pa_token p = []"
    and "length (pa_destConnID p) \<le> MaxConnIDLen" and "length (pa_srcConnID p) \<le> MaxConnIDLen" and "64 \<le> unat (pa_maxPacketSize p)" and "unat (pa_maxPacketSize p) < 2 ^ 14"
  obtains hdr where "getLongHeader p EncryptionInitial = Inr hdr" "h_Type hdr = PacketTypeInitial" "wf_ExtendedHeader hdr" "IsLongHeader hdr"
    "GetLength hdr = Inr (word_of_nat (14 + length (pa_destConnID p) + length (pa_srcConnID p)))" "eh_PacketNumberLen hdr = 4"
proof -
  have v: "VarIntLen (pa_maxPacketSize p) = Inr 2" "VarIntLen 0 = Inr 1" using assms(6,7) by (simp_all add: VarIntLen_def maxVarInt_defs word_le_nat_alt)
  have le: "pa_maxPacketSize p \<le> maxVarInt8" using assms(7) by (simp add: maxVarInt8_def word_le_nat_alt)
  define hdr where "hdr = (toExtendedHeader zeroHeader)\<lparr>eh_PacketNumber := pn, DestConnectionID := pa_destConnID p, h_Type := PacketTypeInitial, h_Token := [],
    h_Version := VersionTLS, IsLongHeader := True, eh_PacketNumberLen := 4, SrcConnectionID := pa_srcConnID p, h_Length := pa_maxPacketSize p\<rparr>"
  have z: "OrigDestConnectionID (toExtendedHeader zeroHeader) = []" "h_SupportedVersions (toExtendedHeader zeroHeader) = []" "KeyPhase (toExtendedHeader zeroHeader) = KeyPhaseZero"
    by (simp_all add: toExtendedHeader_def zeroHeader_def Header.defs KeyPhaseZero_def)
  have "getLongHeader p EncryptionInitial = Inr hdr" using assms(1-3) by (simp add: getLongHeader_def hdr_def)
  moreover have "h_Type hdr = PacketTypeInitial" "IsLongHeader hdr" "eh_PacketNumberLen hdr = 4" by (simp_all add: hdr_def)
  moreover have "wf_ExtendedHeader hdr" using assms(4,5) le by (simp add: wf_ExtendedHeader_def hdr_def z)
  moreover have "GetLength hdr = Inr (word_of_nat (14 + length (pa_destConnID p) + length (pa_srcConnID p)))"
    by (simp add: GetLength_def hdr_def v)
  ultimately show thesis by (intro that)
qed

lemma writePacket_negative_padding:
  assumes "wf_ExtendedHeader h" and "pl_ack pl = None" and "int64_of n < 0"
  shows "writePacket p h pl n = Inl (Panic (''bytes: negative Repeat count'', []))"
proof -
  have "n > 0" using assms(3) by (cases "n = 0") (auto simp: int64_of_def word_gt_0)
  then show ?thesis using assms by (simp add: writePacket_def Write_header writePadding_def)
qed

text \<open>The padding of a client's Initial packet wraps around when the payload leaves no room for it.\<close>

lemma writeAndSeal_negative_padding:
  assumes "pa_perspective p = PerspectiveClient" and "h_Type hdr = PacketTypeInitial" and "wf_ExtendedHeader hdr" and "IsLongHeader hdr" and "eh_PacketNumberLen hdr = 4"
    and "GetLength hdr = Inr (word_of_nat hl)" and "hl \<le> 54" and "sl_Overhead sl = 16" and "pl_ack pl = None"
    and "pl_length pl = word_of_nat n" and "1184 < hl + n" and "n < 2 ^ 14"
  shows "writeAndSealPacket lib rnd p hdr pl EncryptionInitial (LongSealer sl) = Inl (Panic (''bytes: negative Repeat count'', []))"
proof -
  have u: "unat (word_of_nat hl :: u64) = hl" using assms(7) by (intro unat_word_of_nat_id) simp
  have "unat (1204 - word_of_nat hl :: u64) = 1204 - hl" using u assms(7) by (simp add: unat_minus_le word_le_nat_alt)
  then have "1204 - word_of_nat hl \<le> maxVarInt8" by (simp add: maxVarInt8_def word_le_nat_alt)
  then have wf: "wf_ExtendedHeader (hdr\<lparr>h_Length := 1204 - word_of_nat hl\<rparr>)" using assms(3,4) by (auto simp: wf_ExtendedHeader_def)
  have "(1184 - word_of_nat hl - word_of_nat n :: u64) = word_of_int (1184 - int hl - int n)" by simp
  moreover have "int64_of (word_of_int (1184 - int hl - int n)) = 1184 - int hl - int n"
    by (rule int64_of_word_of_int) (use assms(7,12) in simp_all)
  ultimately have "int64_of (1184 - word_of_nat hl - word_of_nat n) = 1184 - int hl - int n" by (simp only:)
  then have neg: "int64_of (1184 - word_of_nat hl - word_of_nat n) < 0" using assms(11) by simp
  show ?thesis using assms(1,2,4-6,8,10) writePacket_negative_padding [OF wf assms(9) neg, of p]
    by (simp add: writeAndSealPacket_def MinInitialPacketSize_def seal_Overhead_def Let_def writeAndSealPacketWithPadding_def)
qed

text \<open>C38. A client whose first message is longer than 1200 bytes never sends it when the largest packet size is that of UDP over IPv4 or IPv6. The CRYPTO frame is cut
  to the largest packet size, but an Initial packet of a client is padded to 1200 bytes: the frame leaves less than nothing for the padding, whose
  unsigned length wraps around, and writing it panics.\<close>

theorem large_client_hello_panics:
  assumes "\<not> handshakeConfirmed p" and "pa_perspective p = PerspectiveClient" and "initialSealer (pa_cryptoSetup p) = Some sl" and "sl_Overhead sl = 16"
    and "\<not> HasInitialData (pa_retransmissionQueue p)" and "fst (handler_GetAckFrame now (pa_acks p) EncryptionInitial) = None"
    and "writeOffset (pa_initialStream p) = 0" and "1200 \<le> length (writeBuf (pa_initialStream p))"
    and "PeekPacketNumber (pa_pnManager p) EncryptionInitial = Inr (pn, l)" and "pa_version p = VersionTLS" and "pa_token p = []"
    and "length (pa_destConnID p) \<le> MaxConnIDLen" and "length (pa_srcConnID p) \<le> MaxConnIDLen" and "pa_maxPacketSize p \<in> {MaxPacketSizeIPv4, MaxPacketSizeIPv6}"
  shows "PackPacket lib limit rnd now p = Inl (Panic (''bytes: negative Repeat count'', []))"
proof -
  define hl where "hl = 14 + length (pa_destConnID p) + length (pa_srcConnID p)"
  have hl: "hl \<le> 54" using assms(12,13) by (simp add: hl_def MaxConnIDLen_def)
  have mps: "1232 \<le> unat (pa_maxPacketSize p)" "unat (pa_maxPacketSize p) \<le> 1252" using assms(14) by (auto simp: MaxPacketSizeIPv4_def MaxPacketSizeIPv6_def)
  obtain acks where acks: "handler_GetAckFrame now (pa_acks p) EncryptionInitial = (None, acks)" using assms(6) by (metis prod.collapse)
  define p0 where "p0 = p\<lparr>pa_acks := acks\<rparr>"
  have p0: "pa_pnManager p0 = pa_pnManager p" "pa_version p0 = pa_version p" "pa_token p0 = pa_token p" "pa_destConnID p0 = pa_destConnID p" "pa_srcConnID p0 = pa_srcConnID p"
    "pa_maxPacketSize p0 = pa_maxPacketSize p" "pa_initialStream p0 = pa_initialStream p" "pa_perspective p0 = pa_perspective p" by (simp_all add: p0_def)
  obtain hdr where hdr: "getLongHeader p0 EncryptionInitial = Inr hdr" "h_Type hdr = PacketTypeInitial" "wf_ExtendedHeader hdr" "IsLongHeader hdr" "GetLength hdr = Inr (word_of_nat hl)"
      "eh_PacketNumberLen hdr = 4"
    by (rule getLongHeader_Initial [of p0 pn l]) (use assms(9-13) mps in \<open>simp_all add: p0 hl_def\<close>)
  define m where "m = pa_maxPacketSize p - word_of_nat hl - 16"
  have "unat (word_of_nat hl :: u64) = hl" using hl by (intro unat_word_of_nat_id) simp
  then have m: "unat m = unat (pa_maxPacketSize p) - hl - 16" using hl mps by (simp add: m_def unat_minus_le word_le_nat_alt)
  then have ms: "70 \<le> unat m" "unat m < 2 ^ 14" using mps hl by simp_all
  obtain cf s' n where cf: "PopCryptoFrame (pa_initialStream p) m = Inr (cf, s')" "CryptoFrame_Length cf = Inr (word_of_nat n)" "min (unat m) 1204 \<le> n" "n \<le> unat m"
    using PopCryptoFrame_first [OF ms assms(7,8)] by blast
  have n: "1184 < hl + n" "n < 2 ^ 14" using cf(3,4) m mps hl by (auto simp: min_def split: if_splits)
  define p1 where "p1 = p0\<lparr>pa_initialStream := s'\<rparr>"
  define pl where "pl = zeroPayload\<lparr>pl_frames := [FCrypto cf], pl_length := word_of_nat n\<rparr>"
  have o: "seal_Overhead p0 (LongSealer sl) = 16" using assms(4) by (simp add: seal_Overhead_def)
  have w: "writeAndSealPacket lib rnd p1 hdr pl EncryptionInitial (LongSealer sl) = Inl (Panic (''bytes: negative Repeat count'', []))"
    by (rule writeAndSeal_negative_padding [OF _ hdr(2,3,4,6,5) hl assms(4) _ _ n]) (simp_all add: p1_def p0 assms(2) pl_def zeroPayload_def)
  have "popCryptoData_into p0 EncryptionInitial m zeroPayload = Inr (pl, p1)"
    using cf(1,2) by (simp add: popCryptoData_into_def p0(7) pl_def p1_def zeroPayload_def)
  then have "packCryptoPacket lib rnd p0 EncryptionInitial sl True False None = Inl (Panic (''bytes: negative Repeat count'', []))"
    using hdr(1,5) w by (simp add: packCryptoPacket_def o p0(6) m_def Let_def zeroPayload_def)
  moreover have "HasData (pa_initialStream p)" using assms(8) by (auto simp: HasData_def)
  ultimately have "maybePackCryptoPacket lib rnd now p = Inl (Panic (''bytes: negative Repeat count'', []))"
    using assms(3,5) acks by (simp add: maybePackCryptoPacket_def GetInitialSealer_def keysDropped_def p0_def Let_def)
  then show ?thesis using assms(1) by (simp add: PackPacket_def)
qed

definition demo_client :: packetPacker where
  "demo_client = (demo_packer (newUpdatableAEAD KeyUpdateInterval NewRTTStats))\<lparr>pa_initialStream := newCryptoStream\<lparr>writeBuf := replicate 1200 1\<rparr>,
    pa_cryptoSetup := (demo_setup (newUpdatableAEAD KeyUpdateInterval NewRTTStats))\<lparr>initialSealer := Some (newLongHeaderSealer (demo_AEAD [] []) (demo_protector []))\<rparr>\<rparr>"

theorem large_client_hello_panics_witness:
  "PackPacket demo_lib 2 7 1000 demo_client = Inl (Panic (''bytes: negative Repeat count'', []))"
proof (rule large_client_hello_panics)
  let ?p = demo_client
  show "PeekPacketNumber (pa_pnManager ?p) EncryptionInitial = Inr (0, 2)" by code_simp
  show "initialSealer (pa_cryptoSetup ?p) = Some (newLongHeaderSealer (demo_AEAD [] []) (demo_protector []))" by (simp add: demo_client_def demo_setup_def)
  show "sl_Overhead (newLongHeaderSealer (demo_AEAD [] []) (demo_protector [])) = 16" by code_simp
  show "fst (handler_GetAckFrame 1000 (pa_acks ?p) EncryptionInitial) = None" by code_simp
qed (simp_all add: demo_client_def demo_packer_def demo_setup_def newPacketPacker_def newRetransmissionQueue_def
    HasInitialData_def newCryptoStream_def MaxConnIDLen_def getMaxPacketSize_def)

end
