(* ===== verification/Spec2Isabelle.thy ===== *)
theory Spec2Isabelle
  imports LossRecovery LinkedList StreamsMap PacketPacker
begin

text \<open>
  A verification development for qperf.
\<close>

section \<open>From writer to reader\<close>

text \<open>The written bytes as a stream that goes on for ever.\<close>

definition padded :: "byte list \<Rightarrow> byte \<Rightarrow> nat \<Rightarrow> byte" where
  "padded str x i = (if i < length str then str ! i else x)"

lemma carried_piece:
  assumes "carries_piece str f" and "unat (sf_Offset f) + length (sf_Data f) \<le> length str" and "length str < 2 ^ 62 - 1"
  shows "piece (padded str x) (sf_Offset f) (sf_Data f)"
proof -
  let ?o = "unat (sf_Offset f)" and ?n = "length (sf_Data f)"
  have "sf_Data f = take ?n (drop ?o str)" using assms(1) by (simp add: carries_piece_def)
  also have "\<dots> = map (padded str x) [?o ..< ?o + ?n]" by (rule nth_equalityI) (use assms(2) in \<open>auto simp: padded_def\<close>)
  finally show ?thesis using assms(2,3) by (simp add: piece_def unat_MaxByteCount)
qed

lemma sent_frames:
  assumes "send_inv w" and "f \<in> set (w_sent w)" and "length (w_content w) < 2 ^ 62 - 1"
  shows "piece (padded (w_content w) x) (sf_Offset f) (sf_Data f) \<and>
    (sf_FinBit f \<longrightarrow> finishedWriting (w_stream w) \<and> sf_Offset f + StreamFrame_DataLen f = word_of_nat (length (w_content w)))"
proof -
  let ?s = "w_stream w"
  have f: "frame_inv ?s (w_content w) f" using assms(1,2) by (simp add: send_inv_def)
  have d: "delivery ?s (w_content w) (all_frames w)" using assms(1) by (simp add: send_inv_def)
  have o: "unat (ss_writeOffset ?s) \<le> length (w_content w)" using d by (simp add: delivery_def)
  then have le: "unat (sf_Offset f) + length (sf_Data f) \<le> length (w_content w)" using f by (simp add: frame_inv_def)
  have p: "piece (padded (w_content w) x) (sf_Offset f) (sf_Data f)" using carried_piece [OF _ le assms(3)] f by (simp add: frame_inv_def)
  have "finishedWriting ?s \<and> sf_Offset f + StreamFrame_DataLen f = word_of_nat (length (w_content w))" if fin: "sf_FinBit f"
  proof -
    have "finSent ?s" "unat (sf_Offset f) + length (sf_Data f) = unat (ss_writeOffset ?s)" using f fin by (simp_all add: frame_inv_def)
    moreover have "unat (ss_writeOffset ?s) = length (w_content w) \<and> finishedWriting ?s" if "finSent ?s" using d that by (auto simp: delivery_def pending_def)
    ultimately have "unat (sf_Offset f + StreamFrame_DataLen f) = length (w_content w)" "finishedWriting ?s"
      using piece_stop [OF p] by (simp_all add: StreamFrame_DataLen_def)
    then show ?thesis by (metis of_nat_unat ucast_id)
  qed
  then show ?thesis using p by blast
qed

lemma padded_prefix:
  assumes "d = map (padded str 0) [0 ..< n]" and "d = map (padded str 1) [0 ..< n]"
  shows "d = take n str \<and> n \<le> length str"
proof -
  have "n \<le> length str"
  proof (rule ccontr)
    assume "\<not> n \<le> length str"
    then have i: "length str < n" by simp
    then have "d ! length str = padded str 0 (length str)" "d ! length str = padded str 1 (length str)"
      by (subst assms(1), simp, subst assms(2), simp)
    then show False by (simp add: padded_def)
  qed
  moreover from this have "d = take n str" unfolding assms(1) by (intro nth_equalityI) (auto simp: padded_def)
  ultimately show ?thesis by blast
qed

text \<open>The operations of a receiver that gets frames of a given set.\<close>

fun receives_from :: "StreamFrame set \<Rightarrow> rs_op \<Rightarrow> bool" where
  "receives_from F (RsFrame f cb now) \<longleftrightarrow> f \<in> F"
| "receives_from F (RsReset f now) \<longleftrightarrow> False"
| "receives_from F (RsShutdown err) \<longleftrightarrow> err \<noteq> Some (ErrGo io_EOF)"
| "receives_from F _ \<longleftrightarrow> True"


definition transfer_ops :: "send_world \<Rightarrow> rs_op list" where
  "transfer_ops w = map (\<lambda>f. RsFrame f 0 0) (rev (w_sent w)) @ [RsRead 3 (\<lambda>_. 0) 0, RsRead 3 (\<lambda>_. 0) 0]"

definition transfer_run :: "send_world \<Rightarrow> go_error + recv_world" where
  "transfer_run w = rs_run (newRecvWorld 4 (NewStreamFlowController 4 100 100 0) (NewConnectionFlowController 100 100)) (transfer_ops w)"

lemma transfer_eval: "case reliable_run of Inr w \<Rightarrow> (case transfer_run w of Inr v \<Rightarrow> sawEOF v \<and> w_content w = [1, 2, 3, 4, 5] | Inl _ \<Rightarrow> False) | Inl _ \<Rightarrow> False"
  by code_simp


end
